(* ===== verification/Prelude.thy ===== *)
theory Prelude
  imports Main "HOL-Library.Word"
begin

text \<open>
  The vocabulary of the development: bytes and files, the error values of
  \<open>rom-weaver-core/src/error.rs\<close>, Rust's \<open>Result\<close> as a sum with the \<open>?\<close> operator as
  \<open>and_then\<close>, the machine-integer checks, fixed-width encodings of integers, loops over
  chunks, and the file primitives (positioned write, \<open>set_len\<close>) that the handlers use.
  Lengths, offsets and sizes are natural numbers; every place where the code checks a
  \<open>u64\<close>, \<open>u32\<close> or \<open>u16\<close> range is a branch.  The target modelled is a 64-bit one, so
  \<open>usize\<close> and \<open>u64\<close> have the same range and \<open>usize::try_from\<close> of a \<open>u64\<close> cannot fail.
\<close>

unbundle bit_operations_syntax

section \<open>Bytes and machine integers\<close>

type_synonym u8 = "8 word"
type_synonym u16 = "16 word"
type_synonym u32 = "32 word"
type_synonym bytes = "u8 list"

definition u64_max :: nat where
  "u64_max = 18446744073709551615"

definition u32_max :: nat where
  "u32_max = 4294967295"

definition u16_max :: nat where
  "u16_max = 65535"

definition checked_add_opt :: "nat \<Rightarrow> nat \<Rightarrow> nat option" where
  "checked_add_opt a b = (if a + b \<le> u64_max then Some (a + b) else None)"

definition checked_mul_opt :: "nat \<Rightarrow> nat \<Rightarrow> nat option" where
  "checked_mul_opt a b = (if a * b \<le> u64_max then Some (a * b) else None)"

definition saturating_add :: "nat \<Rightarrow> nat \<Rightarrow> nat" where
  "saturating_add a b = min (a + b) u64_max"

definition saturating_mul :: "nat \<Rightarrow> nat \<Rightarrow> nat" where
  "saturating_mul a b = min (a * b) u64_max"

text \<open>\<open>u64::div_ceil\<close>, for a positive divisor.\<close>

definition div_ceil :: "nat \<Rightarrow> nat \<Rightarrow> nat" where
  "div_ceil a b = (a + (b - 1)) div b"

lemma xor_cancel [simp]: "a XOR (a XOR b) = (b :: 'a::len word)"
  by (simp add: xor.assoc [symmetric])

lemma xor_cancel_right [simp]: "b XOR (a XOR b) = (a :: 'a::len word)"
  by (simp add: xor.commute [of a b])

lemma xor_eq_0_iff: "(a XOR b = 0) \<longleftrightarrow> a = (b :: 'a::len word)"
  by (metis xor_cancel xor_self_eq)

section \<open>Errors and results\<close>

text \<open>
  A formatted message keeps its template and its arguments apart: rendering them is the
  standard library's \<open>format!\<close>.
\<close>

datatype fmt_arg = Num nat | Hex nat | Str string

datatype message = Msg string "fmt_arg list"

datatype io_error_kind = UnexpectedEof

datatype weave_error =
    Validation message
  | ValidationCode string message
  | Io io_error_kind
  | ThreadPoolBuild string
  | Panic string

text \<open>
  The last one is no error value of the code: it stands for a Rust panic (an index or a range
  outside a slice), which ends the operation.
\<close>

type_synonym 'a result = "weave_error + 'a"

abbreviation Ok :: "'a \<Rightarrow> 'a result" where
  "Ok x \<equiv> Inr x"

abbreviation Err :: "weave_error \<Rightarrow> 'a result" where
  "Err e \<equiv> Inl e"

definition invalid :: "string \<Rightarrow> 'a result" where
  "invalid s = Err (Validation (Msg s []))"

definition invalid_fmt :: "string \<Rightarrow> fmt_arg list \<Rightarrow> 'a result" where
  "invalid_fmt s args = Err (Validation (Msg s args))"

definition coded :: "string \<Rightarrow> string \<Rightarrow> fmt_arg list \<Rightarrow> 'a result" where
  "coded code s args = Err (ValidationCode code (Msg s args))"

named_theorems result_iff \<open>when a result is \<open>Ok\<close>\<close>

definition and_then :: "'a result \<Rightarrow> ('a \<Rightarrow> 'b result) \<Rightarrow> 'b result" where
  "and_then r f = (case r of Inl e \<Rightarrow> Inl e | Inr x \<Rightarrow> f x)"

lemma and_then_simps [simp]:
  "and_then (Inl e) f = Inl e"
  "and_then (Inr x) f = f x"
  by (simp_all add: and_then_def)

lemma and_then_Ok_iff [result_iff]:
  "and_then r f = Inr y \<longleftrightarrow> (\<exists>x. r = Inr x \<and> f x = Inr y)"
  by (cases r) auto

lemma and_then_assoc: "and_then (and_then r f) g = and_then r (\<lambda>x. and_then (f x) g)"
  by (cases r) auto

lemma and_then_Ok [simp]: "and_then r Inr = r"
  by (cases r) auto

lemma and_then_cong [fundef_cong]:
  "r = r' \<Longrightarrow> (\<And>x. r' = Inr x \<Longrightarrow> f x = f' x) \<Longrightarrow> and_then r f = and_then r' f'"
  by (cases r') auto

lemma err_not_Ok [simp]:
  "invalid s \<noteq> Inr x" "invalid_fmt s args \<noteq> Inr x" "coded c s args \<noteq> Inr x"
  "Inr x \<noteq> invalid s" "Inr x \<noteq> invalid_fmt s args" "Inr x \<noteq> coded c s args"
  by (simp_all add: invalid_def invalid_fmt_def coded_def)

lemma and_then_err [simp]:
  "and_then (invalid s) f = invalid s"
  "and_then (invalid_fmt s args) f = invalid_fmt s args"
  "and_then (coded c s args) f = coded c s args"
  by (simp_all add: invalid_def invalid_fmt_def coded_def)

definition is_ok :: "'a result \<Rightarrow> bool" where
  "is_ok r \<longleftrightarrow> (case r of Inl _ \<Rightarrow> False | Inr _ \<Rightarrow> True)"

lemma is_ok_simps [simp]: "is_ok (Inr x)" "\<not> is_ok (Inl e)"
  by (simp_all add: is_ok_def)

lemma is_ok_iff: "is_ok r \<longleftrightarrow> (\<exists>x. r = Inr x)"
  by (cases r) auto

text \<open>One computation refuses more than another: where it succeeds, they agree.\<close>

definition ok_le :: "'a result \<Rightarrow> 'a result \<Rightarrow> bool" where
  "ok_le r r' \<longleftrightarrow> (\<forall>x. r = Inr x \<longrightarrow> r' = Inr x)"

lemma ok_leD: "ok_le r r' \<Longrightarrow> r = Inr x \<Longrightarrow> r' = Inr x"
  by (simp add: ok_le_def)

lemma ok_le_refl [simp]: "ok_le r r"
  by (simp add: ok_le_def)

lemma ok_le_err [simp]: "ok_le (Inl e) r" "ok_le (invalid s) r" "ok_le (invalid_fmt s args) r"
  by (simp_all add: ok_le_def)

lemma ok_le_and_then:
  "ok_le r r' \<Longrightarrow> (\<And>x. r = Inr x \<Longrightarrow> ok_le (f x) (g x)) \<Longrightarrow> ok_le (and_then r f) (and_then r' g)"
  by (auto simp: ok_le_def result_iff)

lemma ok_le_if: "(b \<Longrightarrow> ok_le r s) \<Longrightarrow> (\<not> b \<Longrightarrow> ok_le r' s') \<Longrightarrow> ok_le (if b then r else r') (if b then s else s')"
  by simp

text \<open>\<open>option.ok_or_else(..)?\<close>\<close>

definition ok_or :: "'a option \<Rightarrow> 'a result \<Rightarrow> 'a result" where
  "ok_or m r = (case m of None \<Rightarrow> r | Some x \<Rightarrow> Inr x)"

text \<open>Evaluation in order: a continuation is looked at once its argument is known.\<close>

lemma and_then_weak: "r = r' \<Longrightarrow> and_then r f = and_then r' f"
  by simp

lemma ok_or_simps [simp]: "ok_or None r = r" "ok_or (Some x) r = Inr x"
  by (simp_all add: ok_or_def)

text \<open>\<open>checked_add\<close> of \<open>shared/checked.rs\<close>.\<close>

definition checked_add :: "nat \<Rightarrow> nat \<Rightarrow> string \<Rightarrow> nat result" where
  "checked_add lhs rhs label =
     ok_or (checked_add_opt lhs rhs) (invalid_fmt ''{} overflowed'' [Str label])"

lemma checked_add_ok [simp]: "lhs + rhs \<le> u64_max \<Longrightarrow> checked_add lhs rhs label = Inr (lhs + rhs)"
  by (simp add: checked_add_def checked_add_opt_def)

lemma checked_add_Ok_iff [result_iff]:
  "checked_add lhs rhs label = Inr n \<longleftrightarrow> n = lhs + rhs \<and> n \<le> u64_max"
  by (auto simp: checked_add_def checked_add_opt_def)

text \<open>A \<open>for\<close> loop whose body may return early, and a fallible \<open>map\<close>/\<open>collect\<close>.\<close>

fun fold_result :: "('a \<Rightarrow> 's \<Rightarrow> 's result) \<Rightarrow> 'a list \<Rightarrow> 's \<Rightarrow> 's result" where
  "fold_result f [] s = Inr s"
| "fold_result f (x # xs) s = and_then (f x s) (fold_result f xs)"

fun map_result :: "('a \<Rightarrow> 'b result) \<Rightarrow> 'a list \<Rightarrow> 'b list result" where
  "map_result f [] = Inr []"
| "map_result f (x # xs) =
     and_then (f x) (\<lambda>y. and_then (map_result f xs) (\<lambda>ys. Inr (y # ys)))"

lemma fold_result_append:
  "fold_result f (xs @ ys) s = and_then (fold_result f xs s) (fold_result f ys)"
proof (induction xs arbitrary: s)
  case (Cons x xs)
  then show ?case by (cases "f x s") auto
qed simp

lemma fold_result_cong [fundef_cong]:
  "xs = ys \<Longrightarrow> s = t \<Longrightarrow> (\<And>x s. x \<in> set ys \<Longrightarrow> f x s = g x s) \<Longrightarrow>
   fold_result f xs s = fold_result g ys t"
proof (induction xs arbitrary: ys s t)
  case Nil
  then show ?case by (cases ys) auto
next
  case (Cons x xs)
  then show ?case by (auto intro!: and_then_cong)
qed

lemma fold_result_Ok:
  "(\<And>x s. x \<in> set xs \<Longrightarrow> f x s = Inr (g x s)) \<Longrightarrow> fold_result f xs s = Inr (fold g xs s)"
  by (induction xs arbitrary: s) auto

lemma map_result_append:
  "map_result f (xs @ ys) =
     and_then (map_result f xs) (\<lambda>us. and_then (map_result f ys) (\<lambda>vs. Inr (us @ vs)))"
  by (induction xs) (simp_all add: and_then_assoc)

lemma map_result_Ok:
  "(\<And>x. x \<in> set xs \<Longrightarrow> f x = Inr (g x)) \<Longrightarrow> map_result f xs = Inr (map g xs)"
  by (induction xs) auto

lemma map_result_cong [fundef_cong]:
  "xs = ys \<Longrightarrow> (\<And>x. x \<in> set ys \<Longrightarrow> f x = g x) \<Longrightarrow> map_result f xs = map_result g ys"
proof (induction xs arbitrary: ys)
  case Nil
  then show ?case by auto
next
  case (Cons x xs)
  then show ?case by auto
qed

lemma map_result_Ok_iff:
  "map_result f xs = Inr ys \<longleftrightarrow> list_all2 (\<lambda>x y. f x = Inr y) xs ys"
  by (induction xs arbitrary: ys) (auto simp: result_iff list_all2_Cons1)

section \<open>Integers in a fixed number of bytes\<close>

fun le_bytes :: "nat \<Rightarrow> nat \<Rightarrow> bytes" where
  "le_bytes 0 v = []"
| "le_bytes (Suc k) v = word_of_nat (v mod 256) # le_bytes k (v div 256)"

fun from_le :: "bytes \<Rightarrow> nat" where
  "from_le [] = 0"
| "from_le (b # bs) = unat b + 256 * from_le bs"

definition be_bytes :: "nat \<Rightarrow> nat \<Rightarrow> bytes" where
  "be_bytes k v = rev (le_bytes k v)"

definition from_be :: "bytes \<Rightarrow> nat" where
  "from_be bs = from_le (rev bs)"

lemma length_le_bytes [simp]: "length (le_bytes k v) = k"
  by (induction k arbitrary: v) auto

lemma length_be_bytes [simp]: "length (be_bytes k v) = k"
  by (simp add: be_bytes_def)

lemma unat_u8_lt: "unat (b :: u8) < 256"
  using unsigned_less [of b] by simp

lemma unat_u8_of_nat [simp]: "unat (word_of_nat (v mod 256) :: u8) = v mod 256"
  by (simp add: unat_of_nat)

lemma from_le_le_bytes: "from_le (le_bytes k v) = v mod 256 ^ k"
proof (induction k arbitrary: v)
  case 0
  then show ?case by simp
next
  case (Suc k)
  have "from_le (le_bytes (Suc k) v) = v mod 256 + 256 * (v div 256 mod 256 ^ k)"
    by (simp add: Suc.IH)
  also have "\<dots> = v mod (256 * 256 ^ k)"
    by (simp add: mod_mult2_eq)
  finally show ?case by simp
qed

lemma from_be_be_bytes: "from_be (be_bytes k v) = v mod 256 ^ k"
  by (simp add: from_be_def be_bytes_def from_le_le_bytes)

lemma from_le_lt: "from_le bs < 256 ^ length bs"
proof (induction bs)
  case Nil
  then show ?case by simp
next
  case (Cons b bs)
  then show ?case using unat_u8_lt [of b] by simp
qed

lemma from_be_lt: "from_be bs < 256 ^ length bs"
  using from_le_lt [of "rev bs"] by (simp add: from_be_def)

lemma le_bytes_from_le: "length bs = k \<Longrightarrow> le_bytes k (from_le bs) = bs"
proof (induction bs arbitrary: k)
  case Nil
  then show ?case by simp
next
  case (Cons b bs)
  have "(unat b + 256 * from_le bs) mod 256 = unat b"
    using unat_u8_lt [of b] by simp
  moreover have "(unat b + 256 * from_le bs) div 256 = from_le bs"
    using unat_u8_lt [of b] by simp
  ultimately show ?case using Cons by auto
qed

lemma be_bytes_from_be: "length bs = k \<Longrightarrow> be_bytes k (from_be bs) = bs"
  by (simp add: be_bytes_def from_be_def le_bytes_from_le)

lemma from_le_inj: "length bs = length cs \<Longrightarrow> from_le bs = from_le cs \<Longrightarrow> bs = cs"
  by (metis le_bytes_from_le)

lemma from_be_inj: "length bs = length cs \<Longrightarrow> from_be bs = from_be cs \<Longrightarrow> bs = cs"
  by (metis be_bytes_from_be)

lemma from_be_small:
  "v < 256 ^ k \<Longrightarrow> from_be (be_bytes k v) = v"
  by (simp add: from_be_be_bytes)

lemma from_le_small:
  "v < 256 ^ k \<Longrightarrow> from_le (le_bytes k v) = v"
  by (simp add: from_le_le_bytes)

end
