(* ===== verification/Files.thy ===== *)
theory Files
  imports Prelude
begin

text \<open>
  Files as byte lists: the byte at an offset (zero past the end, as the handlers pad), the
  range read by a seek and a \<open>read_exact\<close>, \<open>File::set_len\<close>, a positioned write, a list of
  prepared writes (\<open>PreparedWrite\<close> and \<open>apply_prepared_writes\<close> of
  \<open>shared/threading.rs\<close>), and the loops that walk a range in buffer-sized chunks.  The
  last section proves the fact every diff-based format rests on: writes that only write
  bytes of the target, and that cover every differing byte, turn the source into the target.
\<close>

section \<open>Reading and writing\<close>

definition byte_at :: "bytes \<Rightarrow> nat \<Rightarrow> u8" where
  "byte_at f i = (if i < length f then f ! i else 0)"

definition segment :: "bytes \<Rightarrow> nat \<Rightarrow> nat \<Rightarrow> bytes" where
  "segment f off n = take n (drop off f)"

definition pad_to :: "nat \<Rightarrow> bytes \<Rightarrow> bytes" where
  "pad_to n f = take n f @ replicate (n - length f) 0"

abbreviation set_len :: "nat \<Rightarrow> bytes \<Rightarrow> bytes" where
  "set_len n f \<equiv> pad_to n f"

definition write_at :: "nat \<Rightarrow> bytes \<Rightarrow> bytes \<Rightarrow> bytes" where
  "write_at off d f =
     (if d = [] then f else pad_to off f @ d @ drop (off + length d) f)"

definition seek_read_exact :: "bytes \<Rightarrow> nat \<Rightarrow> nat \<Rightarrow> bytes result" where
  "seek_read_exact f off n =
     (if off + n \<le> length f \<or> n = 0 then Inr (segment f off n) else Err (Io UnexpectedEof))"

text \<open>A sequential reader is the list of its unread bytes.\<close>

definition reader_read_exact :: "bytes \<Rightarrow> nat \<Rightarrow> (bytes \<times> bytes) result" where
  "reader_read_exact rdr n =
     (if n \<le> length rdr then Inr (take n rdr, drop n rdr) else Err (Io UnexpectedEof))"

lemma byte_at_lt [simp]: "i < length f \<Longrightarrow> byte_at f i = f ! i"
  by (simp add: byte_at_def)

lemma byte_at_ge [simp]: "length f \<le> i \<Longrightarrow> byte_at f i = 0"
  by (simp add: byte_at_def)

lemma length_segment [simp]: "length (segment f off n) = min n (length f - off)"
  by (simp add: segment_def min.commute)

lemma segment_all [simp]: "segment f 0 (length f) = f"
  by (simp add: segment_def)

lemma segment_zero [simp]: "segment f off 0 = []"
  by (simp add: segment_def)

lemma nth_segment: "i < n \<Longrightarrow> off + i < length f \<Longrightarrow> segment f off n ! i = f ! (off + i)"
  by (simp add: segment_def)

lemma length_pad_to [simp]: "length (pad_to n f) = n"
  by (simp add: pad_to_def)

lemma byte_at_pad_to: "byte_at (pad_to n f) i = (if i < n then byte_at f i else 0)"
  by (auto simp: byte_at_def pad_to_def nth_append min_def)

lemma pad_to_self [simp]: "pad_to (length f) f = f"
  by (simp add: pad_to_def)

lemma byte_at_segment: "byte_at (segment f off n) i = (if i < n then byte_at f (off + i) else 0)"
  by (auto simp: byte_at_def segment_def)

lemma file_eqI:
  assumes "length f = length g" and "\<And>i. i < length g \<Longrightarrow> byte_at f i = byte_at g i"
  shows "f = g"
proof (rule nth_equalityI [OF assms(1)])
  fix i
  assume i: "i < length f"
  with assms(1) have "i < length g" by simp
  from assms(2) [OF this] show "f ! i = g ! i"
    using i assms(1) by simp
qed

lemma length_write_at:
  "length (write_at off d f) = (if d = [] then length f else max (length f) (off + length d))"
  by (auto simp: write_at_def)

lemma byte_at_write_at:
  "byte_at (write_at off d f) i =
     (if off \<le> i \<and> i < off + length d then d ! (i - off) else byte_at f i)"
proof (cases "d = []")
  case True
  then show ?thesis by (auto simp: write_at_def)
next
  case False
  consider "i < off" | "off \<le> i" "i < off + length d" | "off + length d \<le> i" by linarith
  then show ?thesis
  proof cases
    case 1
    then have "write_at off d f ! i = pad_to off f ! i"
      using False by (simp add: write_at_def nth_append)
    moreover have "i < length (write_at off d f)"
      using 1 False by (simp add: length_write_at)
    ultimately show ?thesis
      using 1 byte_at_pad_to [of off f i] by simp
  next
    case 2
    then have "i < length (write_at off d f)" and "i - off < length d"
      using False by (auto simp: length_write_at)
    then show ?thesis
      using False 2 by (simp add: write_at_def nth_append)
  next
    case 3
    show ?thesis
    proof (cases "i < length f")
      case True
      then have "i < length (write_at off d f)"
        using False by (simp add: length_write_at)
      moreover have "\<not> i - off < length d" and "\<not> i < off"
        using 3 by auto
      then have "write_at off d f ! i = f ! i"
        using 3 True False by (simp add: write_at_def nth_append)
      ultimately show ?thesis using 3 True by simp
    next
      case nlt: False
      then have "length (write_at off d f) \<le> i"
        using 3 False by (simp add: length_write_at)
      then show ?thesis using 3 nlt by simp
    qed
  qed
qed

lemma write_at_write_at:
  "d \<noteq> [] \<Longrightarrow> write_at (off + length d) e (write_at off d f) = write_at off (d @ e) f"
  by (rule file_eqI) (auto simp: length_write_at byte_at_write_at nth_append)

lemma write_at_append_end: "write_at (length f) d f = f @ d"
  by (simp add: write_at_def)

lemma write_at_Nil [simp]: "write_at off [] f = f"
  by (simp add: write_at_def)

text \<open>\<open>copy_from_slice\<close> into a range inside the buffer.\<close>

lemma write_at_inside:
  "off + length d \<le> length f \<Longrightarrow> write_at off d f = take off f @ d @ drop (off + length d) f"
  by (cases "d = []") (simp_all add: write_at_def pad_to_def)

section \<open>Loops over a range in chunks\<close>

text \<open>
  The recurring \<open>while offset < end { let len = min(sz, end - offset); ..; offset += len }\<close>.
\<close>

function chunk_loop ::
  "nat \<Rightarrow> (nat \<Rightarrow> nat \<Rightarrow> 's \<Rightarrow> 's result) \<Rightarrow> nat \<Rightarrow> nat \<Rightarrow> 's \<Rightarrow> 's result" where
  "chunk_loop sz body offset limit s =
     (if offset < limit \<and> 0 < sz
      then and_then (body offset (min sz (limit - offset)) s)
             (chunk_loop sz body (offset + min sz (limit - offset)) limit)
      else Inr s)"
  by pat_completeness auto
termination
  by (relation "measure (\<lambda>(sz, body, offset, limit, s). limit - offset)") auto

declare chunk_loop.simps [simp del]

lemma chunk_loop_done [simp]: "limit \<le> offset \<Longrightarrow> chunk_loop sz body offset limit s = Inr s"
  by (simp add: chunk_loop.simps)

text \<open>
  A chunk body that is a loop over the offsets of its chunk makes the chunked loop the loop
  over all offsets: the buffer size does not matter.
\<close>

lemma fold_result_inv:
  assumes "fold_result step xs s = Inr t" and "P s"
    and "\<And>x s t. x \<in> set xs \<Longrightarrow> P s \<Longrightarrow> step x s = Inr t \<Longrightarrow> P t"
  shows "P t"
  using assms
proof (induction xs arbitrary: s)
  case Nil
  then show ?case by simp
next
  case (Cons x xs)
  then obtain u where "step x s = Inr u" and "fold_result step xs u = Inr t"
    by (auto simp: result_iff)
  with Cons show ?case by (metis list.set_intros)
qed

lemma chunk_loop_for:
  assumes sz: "0 < sz"
    and body: "\<And>off len s. P s \<Longrightarrow> off + len \<le> limit \<Longrightarrow> 0 < len \<Longrightarrow>
      body off len s = fold_result step [off..<off + len] s"
    and inv: "\<And>i s t. P s \<Longrightarrow> step i s = Inr t \<Longrightarrow> P t"
    and P: "P s"
  shows "chunk_loop sz body offset limit s = fold_result step [offset..<limit] s"
  using P
proof (induction "limit - offset" arbitrary: offset s rule: less_induct)
  case less
  show ?case
  proof (cases "offset < limit")
    case False
    then show ?thesis by simp
  next
    case True
    define len where "len = min sz (limit - offset)"
    have len: "0 < len" "offset + len \<le> limit" "limit - (offset + len) < limit - offset"
      using True sz by (auto simp: len_def)
    have split: "[offset..<limit] = [offset..<offset + len] @ [offset + len..<limit]"
      using len by (metis le_add1 le_add_diff_inverse upt_add_eq_append)
    have "chunk_loop sz body offset limit s =
        and_then (fold_result step [offset..<offset + len] s) (chunk_loop sz body (offset + len) limit)"
      using True sz len body [OF less.prems len(2,1)]
      by (subst chunk_loop.simps) (simp add: len_def)
    also have "\<dots> = and_then (fold_result step [offset..<offset + len] s)
        (fold_result step [offset + len..<limit])"
    proof (rule and_then_cong [OF refl])
      fix t
      assume "fold_result step [offset..<offset + len] s = Inr t"
      then have "P t"
        by (rule fold_result_inv [where P = P]) (use less.prems inv in auto)
      then show "chunk_loop sz body (offset + len) limit t = fold_result step [offset + len..<limit] t"
        by (rule less.hyps [OF len(3)])
    qed
    also have "\<dots> = fold_result step [offset..<limit] s"
      by (simp add: split fold_result_append)
    finally show ?thesis .
  qed
qed

lemma chunk_loop_invariant_min:
  assumes "0 < sz" and "I lo s" and "lo \<le> limit"
    and "\<And>off n s. I off s \<Longrightarrow> off < limit \<Longrightarrow> n = min sz (limit - off) \<Longrightarrow>
      \<exists>t. body off n s = Inr t \<and> I (off + n) t"
  shows "\<exists>t. chunk_loop sz body lo limit s = Inr t \<and> I limit t"
  using assms(2,3)
proof (induction "limit - lo" arbitrary: lo s rule: less_induct)
  case less
  show ?case
  proof (cases "lo < limit")
    case False
    with less.prems show ?thesis by simp
  next
    case True
    define n where "n = min sz (limit - lo)"
    have n: "0 < n" "lo + n \<le> limit" "limit - (lo + n) < limit - lo"
      using True assms(1) by (auto simp: n_def)
    from assms(4) [OF less.prems(1) True n_def] obtain t where t: "body lo n s = Inr t" "I (lo + n) t"
      by blast
    from less.hyps [OF n(3) t(2) n(2)] t(1) True assms(1) show ?thesis
      by (subst chunk_loop.simps) (simp add: n_def)
  qed
qed

lemma chunk_loop_invariant:
  assumes "0 < sz" and "I lo s" and "lo \<le> limit"
    and "\<And>off n s. I off s \<Longrightarrow> 0 < n \<Longrightarrow> n \<le> sz \<Longrightarrow> off + n \<le> limit \<Longrightarrow> \<exists>t. body off n s = Inr t \<and> I (off + n) t"
  shows "\<exists>t. chunk_loop sz body lo limit s = Inr t \<and> I limit t"
  using assms(1-3) by (rule chunk_loop_invariant_min) (use assms(1,4) in auto)

text \<open>A loop that advances a state which is a function of the offset.\<close>

lemma chunk_loop_states:
  assumes "0 < sz" and "lo \<le> limit"
    and "\<And>off n. 0 < n \<Longrightarrow> n \<le> sz \<Longrightarrow> off + n \<le> limit \<Longrightarrow> body off n (F off) = Inr (F (off + n))"
  shows "chunk_loop sz body lo limit (F lo) = Inr (F limit)"
  using chunk_loop_invariant [where I = "\<lambda>off s. s = F off", OF assms(1) refl assms(2)] assms(3)
  by auto

text \<open>Copying a buffer piece by piece writes the buffer.\<close>

lemma chunk_loop_write:
  assumes "0 < sz"
    and "\<And>cursor n f. 0 < n \<Longrightarrow> n \<le> sz \<Longrightarrow> cursor + n \<le> length d \<Longrightarrow>
      body cursor n f = Inr (write_at (off + cursor) (segment d cursor n) f)"
  shows "chunk_loop sz body 0 (length d) f = Inr (write_at off d f)"
proof -
  have "body cursor n (write_at off (take cursor d) f) = Inr (write_at off (take (cursor + n) d) f)"
    if n: "0 < n" "n \<le> sz" "cursor + n \<le> length d" for cursor n
  proof -
    have "length (take cursor d) = cursor" using n by simp
    then have "write_at (off + cursor) (segment d cursor n) (write_at off (take cursor d) f) =
        write_at off (take cursor d @ segment d cursor n) f"
      by (cases "take cursor d = []") (auto simp flip: write_at_write_at)
    also have "take cursor d @ segment d cursor n = take (cursor + n) d"
      by (simp add: segment_def take_add)
    finally show ?thesis using assms(2) [OF n] by simp
  qed
  then have "chunk_loop sz body 0 (length d) (write_at off (take 0 d) f) = Inr (write_at off (take (length d) d) f)"
    by (intro chunk_loop_states [where F = "\<lambda>i. write_at off (take i d) f"] assms(1)) auto
  then show ?thesis by simp
qed

section \<open>Positioned writes\<close>

record prepared_write =
  pw_offset :: nat
  pw_data :: bytes

definition apply_prepared_writes :: "bytes \<Rightarrow> prepared_write list \<Rightarrow> bytes" where
  "apply_prepared_writes f ws =
     fold (\<lambda>w f. if pw_data w = [] then f else write_at (pw_offset w) (pw_data w) f) ws f"

definition write_end :: "prepared_write \<Rightarrow> nat" where
  "write_end w = pw_offset w + length (pw_data w)"

definition covers :: "prepared_write list \<Rightarrow> nat \<Rightarrow> bool" where
  "covers ws i \<longleftrightarrow> (\<exists>w \<in> set ws. pw_offset w \<le> i \<and> i < write_end w)"

text \<open>Every byte written is the byte of \<open>t\<close> at that offset, inside \<open>t\<close>.\<close>

definition truthful :: "bytes \<Rightarrow> prepared_write list \<Rightarrow> bool" where
  "truthful t ws \<longleftrightarrow>
     (\<forall>w \<in> set ws. write_end w \<le> length t \<and> pw_data w = segment t (pw_offset w) (length (pw_data w)))"

lemma apply_prepared_writes_simps [simp]:
  "apply_prepared_writes f [] = f"
  "apply_prepared_writes f (w # ws) =
     apply_prepared_writes (write_at (pw_offset w) (pw_data w) f) ws"
  by (simp_all add: apply_prepared_writes_def write_at_def)

lemma apply_prepared_writes_append:
  "apply_prepared_writes f (vs @ ws) = apply_prepared_writes (apply_prepared_writes f vs) ws"
  by (simp add: apply_prepared_writes_def)

lemma covers_simps [simp]:
  "\<not> covers [] i"
  "covers (w # ws) i \<longleftrightarrow> (pw_offset w \<le> i \<and> i < write_end w) \<or> covers ws i"
  by (auto simp: covers_def)

lemma covers_append [simp]: "covers (vs @ ws) i \<longleftrightarrow> covers vs i \<or> covers ws i"
  by (auto simp: covers_def)

lemma truthful_simps [simp]:
  "truthful t []"
  "truthful t (w # ws) \<longleftrightarrow>
     (write_end w \<le> length t \<and> pw_data w = segment t (pw_offset w) (length (pw_data w))) \<and> truthful t ws"
  by (auto simp: truthful_def)

lemma truthful_append [simp]: "truthful t (vs @ ws) \<longleftrightarrow> truthful t vs \<and> truthful t ws"
  by (auto simp: truthful_def)

lemma segment_nth_eq:
  assumes "d = segment t off (length d)" and "off \<le> i" and "i < off + length d"
  shows "d ! (i - off) = byte_at t i"
proof -
  have "length d \<le> length t - off"
    using assms(1) by (metis length_segment min.cobounded2)
  then have "i < length t" using assms(2,3) by linarith
  have "d ! (i - off) = segment t off (length d) ! (i - off)"
    using assms(1) by simp
  also have "\<dots> = t ! i"
    using assms(2,3) \<open>i < length t\<close> by (subst nth_segment) auto
  finally show ?thesis using \<open>i < length t\<close> by simp
qed

lemma byte_at_truthful_writes:
  assumes "truthful t ws"
  shows "byte_at (apply_prepared_writes f ws) i = (if covers ws i then byte_at t i else byte_at f i)"
  using assms
proof (induction ws arbitrary: f)
  case Nil
  then show ?case by simp
next
  case (Cons w ws)
  have "pw_data w ! (i - pw_offset w) = byte_at t i"
    if "pw_offset w \<le> i" "i < write_end w"
    using segment_nth_eq [of "pw_data w" t "pw_offset w" i] Cons.prems that
    by (auto simp: write_end_def)
  with Cons show ?case
    by (simp add: byte_at_write_at write_end_def)
qed

lemma length_apply_prepared_writes_le:
  assumes "truthful t ws" and "length f \<le> n" and "length t \<le> n"
  shows "length (apply_prepared_writes f ws) \<le> n"
  using assms
  by (induction ws arbitrary: f) (auto simp: length_write_at write_end_def)

lemma length_apply_prepared_writes_ge:
  "length f \<le> length (apply_prepared_writes f ws)"
proof (induction ws arbitrary: f)
  case (Cons w ws)
  have "length f \<le> length (write_at (pw_offset w) (pw_data w) f)"
    by (auto simp: length_write_at)
  also note Cons.IH
  finally show ?case by simp
qed simp

lemma length_apply_prepared_writes_bounded:
  assumes "truthful t ws" and "length t \<le> length f"
  shows "length (apply_prepared_writes f ws) = length f"
  using length_apply_prepared_writes_le [OF assms(1) le_refl assms(2)]
    length_apply_prepared_writes_ge [of f ws] by (rule antisym)

text \<open>
  The diff principle: seed a buffer of the target's length with the source, apply truthful
  writes that cover every difference, and the buffer is the target.
\<close>

theorem truthful_writes_make_target:
  assumes truth: "truthful t ws"
    and cover: "\<And>i. i < length t \<Longrightarrow> byte_at f i \<noteq> byte_at t i \<Longrightarrow> covers ws i"
    and len: "length f = length t"
  shows "apply_prepared_writes f ws = t"
proof (rule file_eqI)
  show "length (apply_prepared_writes f ws) = length t"
    using length_apply_prepared_writes_bounded [OF truth] len by simp
next
  fix i
  assume "i < length t"
  then show "byte_at (apply_prepared_writes f ws) i = byte_at t i"
    using byte_at_truthful_writes [OF truth, of f i] cover by auto
qed

end
