(* ===== verification/Threading.thy ===== *)
theory Threading
  imports Files
begin

text \<open>
  Thread planning and the shared parallel helpers: \<open>ThreadBudget\<close>, \<open>ThreadCapability\<close> and
  \<open>ThreadExecution\<close> of \<open>rom-weaver-core/src/threads.rs\<close>, the pool an operation context
  hands out (\<open>context.rs\<close>), the chunk planner of \<open>io.rs\<close>, and
  \<open>rom-weaver-patches/src/shared/threading.rs\<close>.  A parallel map is modelled by its result:
  all values when every item succeeds, an error otherwise.  Which of several errors
  rayon returns depends on scheduling; the model returns the first and no theorem uses
  which one it is.  Cancellation is not modelled: the token is never set.
\<close>

section \<open>Planning threads\<close>

datatype thread_mode = ModeAuto | ModeFixed

datatype thread_budget = BudgetAuto | BudgetFixed nat

datatype thread_capability = SingleThreaded | Parallel "nat option"

record thread_execution =
  requested_threads :: nat
  effective_threads :: nat
  exec_mode :: thread_mode
  used_parallelism :: bool
  thread_fallback :: bool
  thread_fallback_reason :: "string option"

text \<open>What the host gives: its parallelism, and whether building a pool of a size fails.\<close>

record host =
  available_parallelism :: nat
  pool_build_failure :: "nat \<Rightarrow> string option"

fun budget_mode :: "thread_budget \<Rightarrow> thread_mode" where
  "budget_mode BudgetAuto = ModeAuto"
| "budget_mode (BudgetFixed _) = ModeFixed"

fun budget_requested_threads :: "host \<Rightarrow> thread_budget \<Rightarrow> nat" where
  "budget_requested_threads h BudgetAuto = available_parallelism h"
| "budget_requested_threads h (BudgetFixed count) = max count 1"

fun negotiate :: "host \<Rightarrow> thread_budget \<Rightarrow> thread_capability \<Rightarrow> thread_execution" where
  "negotiate h budget SingleThreaded =
     \<lparr>requested_threads = budget_requested_threads h budget, effective_threads = 1,
      exec_mode = budget_mode budget, used_parallelism = False,
      thread_fallback = False, thread_fallback_reason = None\<rparr>"
| "negotiate h budget (Parallel max_threads) =
     (let requested = budget_requested_threads h budget;
          effective = max (case max_threads of None \<Rightarrow> requested
                           | Some limit \<Rightarrow> min requested (max limit 1)) 1
      in \<lparr>requested_threads = requested, effective_threads = effective,
          exec_mode = budget_mode budget, used_parallelism = 1 < effective,
          thread_fallback = False, thread_fallback_reason = None\<rparr>)"

fun supports_execution :: "thread_capability \<Rightarrow> thread_execution \<Rightarrow> bool" where
  "supports_execution cap e =
     (if requested_threads e = 0 \<or> effective_threads e = 0 then False
      else if used_parallelism e \<noteq> (1 < effective_threads e) then False
      else case cap of
        SingleThreaded \<Rightarrow> effective_threads e = 1
      | Parallel None \<Rightarrow> True
      | Parallel (Some limit) \<Rightarrow> effective_threads e \<le> max limit 1)"

definition apply_pool_fallback :: "string \<Rightarrow> thread_execution \<Rightarrow> thread_execution" where
  "apply_pool_fallback reason e =
     e\<lparr>effective_threads := 1, used_parallelism := False, thread_fallback := True,
       thread_fallback_reason := Some reason\<rparr>"

definition force_serial :: "thread_execution \<Rightarrow> thread_execution" where
  "force_serial e = e\<lparr>effective_threads := 1, used_parallelism := False\<rparr>"

text \<open>
  \<open>SharedThreadPool\<close>: only its size matters to the code.  Without parallelism the pool is
  inline and cannot fail to build.
\<close>

definition pool_with_execution :: "host \<Rightarrow> thread_execution \<Rightarrow> string + nat" where
  "pool_with_execution h e =
     (if \<not> used_parallelism e then Inr (max (effective_threads e) 1)
      else case pool_build_failure h (max (effective_threads e) 1) of
        None \<Rightarrow> Inr (max (effective_threads e) 1)
      | Some reason \<Rightarrow> Inl reason)"

definition pool_with_execution_fallback ::
  "host \<Rightarrow> thread_execution \<Rightarrow> string + thread_execution \<times> nat" where
  "pool_with_execution_fallback h e =
     (case pool_with_execution h e of
        Inr pool \<Rightarrow> Inr (e, pool)
      | Inl reason \<Rightarrow>
          if used_parallelism e
          then let e' = apply_pool_fallback reason e
               in (case pool_with_execution h e' of
                     Inr pool \<Rightarrow> Inr (e', pool)
                   | Inl single_reason \<Rightarrow> Inl single_reason)
          else Inl reason)"

lemma negotiate_supported:
  assumes "0 < available_parallelism h"
  shows "supports_execution cap (negotiate h budget cap)"
proof (cases cap)
  case SingleThreaded
  then show ?thesis using assms by (cases budget) auto
next
  case (Parallel m)
  then show ?thesis using assms by (cases budget; cases m) (auto simp: Let_def)
qed

text \<open>The fallback always yields a pool: the single-threaded retry builds an inline pool.\<close>

lemma pool_fallback_total:
  "\<exists>e' pool. pool_with_execution_fallback h e = Inr (e', pool) \<and> 0 < pool \<and>
     (used_parallelism e' \<longrightarrow> e' = e)"
  by (cases "pool_build_failure h (max (effective_threads e) 1)")
    (auto simp: pool_with_execution_fallback_def pool_with_execution_def apply_pool_fallback_def)

section \<open>Chunk planning\<close>

record file_chunk =
  chunk_index :: nat
  chunk_offset :: nat
  chunk_len :: nat

definition chunk_planner_new :: "nat \<Rightarrow> nat result" where
  "chunk_planner_new chunk_size =
     (if chunk_size = 0 then invalid ''chunk size must be greater than zero'' else Inr chunk_size)"

definition chunk_plan :: "nat \<Rightarrow> nat \<Rightarrow> file_chunk list" where
  "chunk_plan chunk_size file_len =
     (if file_len = 0 then []
      else map (\<lambda>index. let offset = index * chunk_size
                        in \<lparr>chunk_index = index, chunk_offset = offset,
                            chunk_len = min (file_len - offset) chunk_size\<rparr>)
             [0..<div_ceil file_len chunk_size])"

definition chunk_count_for_len :: "nat \<Rightarrow> nat \<Rightarrow> nat" where
  "chunk_count_for_len len chunk_bytes =
     (if len = 0 then 1 else saturating_add len (chunk_bytes - 1) div chunk_bytes)"

text \<open>On the 64-bit target the count always fits, so the overflow error is unreachable.\<close>

definition chunk_count_for_len_checked :: "nat \<Rightarrow> nat \<Rightarrow> string \<Rightarrow> nat result" where
  "chunk_count_for_len_checked len chunk_bytes overflow_error =
     (if len = 0 then Inr 1
      else let count = saturating_add len (chunk_bytes - 1) div chunk_bytes
           in if count \<le> u64_max then Inr count else invalid overflow_error)"

definition parallel_per_record_capability :: "nat \<Rightarrow> thread_capability" where
  "parallel_per_record_capability record_count = Parallel (Some (max record_count 1))"

definition parallel_chunked_capability :: "nat \<Rightarrow> nat \<Rightarrow> thread_capability" where
  "parallel_chunked_capability len chunk_bytes =
     Parallel (Some (max (chunk_count_for_len len chunk_bytes) 1))"

lemma div_ceil_mult_ge: "0 < b \<Longrightarrow> a \<le> div_ceil a b * b"
proof -
  assume b: "0 < b"
  have "a + (b - 1) < Suc ((a + (b - 1)) div b) * b"
    using b by (simp add: dividend_less_div_times)
  then show ?thesis using b by (simp add: div_ceil_def)
qed

lemma div_ceil_less_iff: "0 < b \<Longrightarrow> i < div_ceil a b \<longleftrightarrow> i * b < a"
proof -
  assume b: "0 < b"
  have "i < div_ceil a b \<longleftrightarrow> Suc i * b \<le> a + (b - 1)"
    using b by (simp add: div_ceil_def Suc_le_eq [symmetric] less_eq_div_iff_mult_less_eq del: mult_Suc)
  also have "\<dots> \<longleftrightarrow> i * b < a" using b by auto
  finally show ?thesis .
qed

lemma chunk_plan_bounds:
  assumes "0 < chunk_size" and "c \<in> set (chunk_plan chunk_size file_len)"
  shows "0 < chunk_len c" and "chunk_len c \<le> chunk_size"
    and "chunk_offset c + chunk_len c \<le> file_len"
    and "chunk_offset c = chunk_index c * chunk_size"
  using assms by (auto simp: chunk_plan_def Let_def div_ceil_less_iff split: if_splits)

text \<open>The planned chunks tile the file.\<close>

lemma chunk_plan_concat_prefix:
  assumes "0 < n" and "k \<le> div_ceil (length f) n"
  shows "concat (map (\<lambda>i. segment f (i * n) (min (length f - i * n) n)) [0..<k]) = take (k * n) f"
  using assms(2)
proof (induction k)
  case 0
  then show ?case by simp
next
  case (Suc k)
  have "segment f (k * n) (min (length f - k * n) n) = take n (drop (k * n) f)"
    by (auto simp: segment_def min_def)
  with Suc show ?case by (simp add: take_add [symmetric] add.commute)
qed

lemma chunk_plan_concat:
  assumes "0 < n"
  shows "concat (map (\<lambda>c. segment f (chunk_offset c) (chunk_len c)) (chunk_plan n (length f))) = f"
proof -
  have "concat (map (\<lambda>i. segment f (i * n) (min (length f - i * n) n)) [0..<div_ceil (length f) n]) = f"
    using chunk_plan_concat_prefix [OF assms le_refl, of f] div_ceil_mult_ge [OF assms, of "length f"]
    by simp
  then show ?thesis by (auto simp: chunk_plan_def Let_def comp_def)
qed

section \<open>Batched positioned writes\<close>

definition bounded_items_for_threads :: "nat \<Rightarrow> nat" where
  "bounded_items_for_threads threads = max (saturating_mul (max threads 1) 2) 2"

definition parallel_write_chunk_bytes :: nat where
  "parallel_write_chunk_bytes = 4194304"

definition parallel_write_batch_bytes :: "nat \<Rightarrow> nat" where
  "parallel_write_batch_bytes threads =
     saturating_mul (bounded_items_for_threads threads) parallel_write_chunk_bytes"

text \<open>\<open>(0..len.max(1)).step_by(PARALLEL_WRITE_CHUNK_BYTES)\<close> with the end of each range.\<close>

definition write_ranges :: "nat \<Rightarrow> (nat \<times> nat) list" where
  "write_ranges len =
     map (\<lambda>k. let start = k * parallel_write_chunk_bytes
              in (start, min (saturating_add start parallel_write_chunk_bytes) len))
       [0..<div_ceil (max len 1) parallel_write_chunk_bytes]"

type_synonym 'i batch = "('i \<times> nat \<times> nat) list"

definition flush_batch ::
  "('i \<Rightarrow> nat \<Rightarrow> nat \<Rightarrow> prepared_write result) \<Rightarrow> 'i batch \<Rightarrow> bytes \<Rightarrow> bytes result" where
  "flush_batch prepare batch output =
     and_then (map_result (\<lambda>(item, start, stop). prepare item start stop) batch)
       (\<lambda>writes. Inr (apply_prepared_writes output writes))"

definition batch_push ::
  "nat \<Rightarrow> ('i \<Rightarrow> nat \<Rightarrow> nat \<Rightarrow> prepared_write result) \<Rightarrow> 'i \<times> nat \<times> nat \<Rightarrow>
   bytes \<times> 'i batch \<times> nat \<Rightarrow> (bytes \<times> 'i batch \<times> nat) result" where
  "batch_push byte_limit prepare rng st =
     (let (item, start, stop) = rng; (output, batch, batch_bytes) = st;
          n = stop - start
      in and_then
           (if batch \<noteq> [] \<and> batch_bytes + n > byte_limit
            then and_then (flush_batch prepare batch output) (\<lambda>output'. Inr (output', [], 0))
            else Inr (output, batch, batch_bytes))
           (\<lambda>(output, batch, batch_bytes). Inr (output, batch @ [(item, start, stop)], batch_bytes + n)))"

definition apply_batched_writes ::
  "nat \<Rightarrow> ('i \<Rightarrow> nat) \<Rightarrow> ('i \<Rightarrow> nat \<Rightarrow> nat \<Rightarrow> prepared_write result) \<Rightarrow> 'i list \<Rightarrow> bytes \<Rightarrow> bytes result"
where
  "apply_batched_writes pool_size write_len prepare items output =
     (let byte_limit = parallel_write_batch_bytes pool_size
      in and_then
           (fold_result
              (\<lambda>item. fold_result (\<lambda>rng. batch_push byte_limit prepare (item, rng))
                        (write_ranges (write_len item)))
              items (output, [], 0))
           (\<lambda>(output, batch, batch_bytes).
              if batch \<noteq> [] then flush_batch prepare batch output else Inr output))"

text \<open>
  The batches only regroup the prepared ranges: the outcome is to prepare every range
  and then to write them in order.
\<close>

definition all_ranges :: "('i \<Rightarrow> nat) \<Rightarrow> 'i list \<Rightarrow> ('i \<times> nat \<times> nat) list" where
  "all_ranges write_len items =
     concat (map (\<lambda>item. map (Pair item) (write_ranges (write_len item))) items)"

definition drain_batch ::
  "('i \<Rightarrow> nat \<Rightarrow> nat \<Rightarrow> prepared_write result) \<Rightarrow> bytes \<times> 'i batch \<times> nat \<Rightarrow> bytes result" where
  "drain_batch prepare st = (let (output, batch, n) = st
     in if batch \<noteq> [] then flush_batch prepare batch output else Inr output)"

lemma fold_ranges_flat:
  "fold_result (\<lambda>item. fold_result (\<lambda>r. g (item, r)) (rs item)) items st =
   fold_result g (concat (map (\<lambda>item. map (Pair item) (rs item)) items)) st"
proof (induction items arbitrary: st)
  case (Cons item items)
  have "fold_result (\<lambda>r. g (item, r)) xs st = fold_result g (map (Pair item) xs) st" for xs st
    by (induction xs arbitrary: st) (auto intro!: and_then_cong)
  then have flat: "fold_result (\<lambda>r. g (item, r)) xs = fold_result g (map (Pair item) xs)" for xs
    by blast
  have "fold_result (\<lambda>item. fold_result (\<lambda>r. g (item, r)) (rs item)) items =
      fold_result g (concat (map (\<lambda>item. map (Pair item) (rs item)) items))"
    using Cons.IH by blast
  then show ?case by (simp add: fold_result_append flat)
qed simp

lemma flush_batch_compose:
  "flush_batch prepare (b @ c) out = Inr f \<longleftrightarrow>
     (\<exists>mid. flush_batch prepare b out = Inr mid \<and> flush_batch prepare c mid = Inr f)"
proof -
  define F where "F = (\<lambda>(item, start, stop). prepare item start stop)"
  show ?thesis
    unfolding flush_batch_def F_def [symmetric] map_result_append
    by (cases "map_result F b"; cases "map_result F c") (auto simp: apply_prepared_writes_append)
qed

lemma drain_batch_flush: "drain_batch prepare (output, batch, n) = flush_batch prepare batch output"
  by (simp add: drain_batch_def flush_batch_def)

lemma drain_batch_eta:
  "(\<lambda>(output, batch, n). if batch \<noteq> [] then flush_batch prepare batch output else Inr output) =
   drain_batch prepare"
  by (auto simp: drain_batch_def fun_eq_iff)

text \<open>Two results agree when they are the same value or both errors.\<close>

definition same_outcome :: "'a result \<Rightarrow> 'a result \<Rightarrow> bool" where
  "same_outcome r q \<longleftrightarrow> (\<forall>x. r = Inr x \<longleftrightarrow> q = Inr x)"

lemma same_outcomeI: "(\<And>x. r = Inr x \<longleftrightarrow> q = Inr x) \<Longrightarrow> same_outcome r q"
  by (simp add: same_outcome_def)

lemma same_outcomeD: "same_outcome r q \<Longrightarrow> r = Inr x \<longleftrightarrow> q = Inr x"
  by (simp add: same_outcome_def)

lemma flush_batch_Ok_iff:
  "flush_batch prepare batch output = Inr f \<longleftrightarrow>
     (\<exists>ws. list_all2 (\<lambda>r w. (case r of (item, start, stop) \<Rightarrow> prepare item start stop) = Inr w) batch ws \<and>
           f = apply_prepared_writes output ws)"
  by (auto simp: flush_batch_def result_iff map_result_Ok_iff)

lemma batched_ranges:
  "and_then (fold_result (batch_push limit prepare) ranges (output, batch, n)) (drain_batch prepare) = Inr f
   \<longleftrightarrow> flush_batch prepare (batch @ ranges) output = Inr f"
proof (induction ranges arbitrary: "output" batch n)
  case Nil
  then show ?case by (simp add: drain_batch_flush)
next
  case (Cons r ranges)
  obtain item start stop where r: "r = (item, start, stop)" by (cases r)
  show ?case
  proof (cases "batch \<noteq> [] \<and> n + (stop - start) > limit")
    case False
    then have "batch_push limit prepare r (output, batch, n) =
        Inr (output, batch @ [r], n + (stop - start))"
      by (auto simp: r batch_push_def Let_def)
    then show ?thesis using Cons.IH [of "output" "batch @ [r]"] by simp
  next
    case True
    have push: "batch_push limit prepare r (output, batch, n) =
        and_then (flush_batch prepare batch output) (\<lambda>o'. Inr (o', [r], stop - start))"
      using True by (simp add: r batch_push_def Let_def and_then_assoc)
    have "and_then (fold_result (batch_push limit prepare) (r # ranges) (output, batch, n)) (drain_batch prepare) = Inr f
      \<longleftrightarrow> (\<exists>o'. flush_batch prepare batch output = Inr o' \<and> flush_batch prepare (r # ranges) o' = Inr f)"
      using Cons.IH [of _ "[r]" "stop - start"] by (simp add: push result_iff and_then_assoc)
    also have "\<dots> \<longleftrightarrow> flush_batch prepare (batch @ r # ranges) output = Inr f"
      by (simp add: flush_batch_compose)
    finally show ?thesis .
  qed
qed

theorem apply_batched_writes_outcome:
  "same_outcome (apply_batched_writes pool_size write_len prepare items output)
     (flush_batch prepare (all_ranges write_len items) output)"
proof (rule same_outcomeI)
  fix f
  let ?limit = "parallel_write_batch_bytes pool_size"
  have "apply_batched_writes pool_size write_len prepare items output =
      and_then (fold_result (batch_push ?limit prepare) (all_ranges write_len items) (output, [], 0))
        (drain_batch prepare)"
    by (simp add: apply_batched_writes_def Let_def all_ranges_def drain_batch_eta
        fold_ranges_flat [where g = "batch_push ?limit prepare"])
  then show "apply_batched_writes pool_size write_len prepare items output = Inr f \<longleftrightarrow>
      flush_batch prepare (all_ranges write_len items) output = Inr f"
    using batched_ranges [of ?limit prepare "all_ranges write_len items" "output" "[]" 0 f] by simp
qed

section \<open>The interface of a prepared-write format\<close>

text \<open>
  A format hands \<open>apply_batched_writes\<close> a length and a function that prepares a subrange
  of a record.  Its contract: preparing all subranges of a record has the effect of
  preparing the record as a whole, and fails when that fails.
\<close>

lemma write_at_extend:
  "write_at (off + length d) e (write_at off d f) = write_at off (d @ e) f"
  by (cases "d = []") (simp_all add: write_at_write_at)

lemma write_ranges_prefix:
  assumes "length d \<le> u64_max" and "k \<le> div_ceil (max (length d) 1) parallel_write_chunk_bytes"
  shows "apply_prepared_writes f
      (map (\<lambda>j. let start = j * parallel_write_chunk_bytes;
                    stop = min (saturating_add start parallel_write_chunk_bytes) (length d)
                in \<lparr>pw_offset = off + start, pw_data = segment d start (stop - start)\<rparr>) [0..<k]) =
    write_at off (take (k * parallel_write_chunk_bytes) d) f"
  using assms(2)
proof (induction k)
  case 0
  then show ?case by simp
next
  case (Suc k)
  let ?c = parallel_write_chunk_bytes
  have c: "0 < ?c" by (simp add: parallel_write_chunk_bytes_def)
  from Suc.prems have "k < div_ceil (max (length d) 1) ?c" by simp
  then have "k * ?c < max (length d) 1" using c by (simp add: div_ceil_less_iff)
  then have start: "k * ?c \<le> length d" by simp
  have stop: "min (saturating_add (k * ?c) ?c) (length d) = min (k * ?c + ?c) (length d)"
    using assms(1) by (auto simp: saturating_add_def)
  have len: "length (take (k * ?c) d) = k * ?c" using start by simp
  have piece: "segment d (k * ?c) (min (k * ?c + ?c) (length d) - k * ?c) = take ?c (drop (k * ?c) d)"
    using start by (auto simp: segment_def min_def)
  have "write_at (off + k * ?c) (take ?c (drop (k * ?c) d)) (write_at off (take (k * ?c) d) f) =
      write_at off (take (k * ?c) d @ take ?c (drop (k * ?c) d)) f"
    using write_at_extend [of off "take (k * ?c) d"] len by metis
  also have "take (k * ?c) d @ take ?c (drop (k * ?c) d) = take (Suc k * ?c) d"
    by (simp add: take_add [symmetric] add.commute)
  finally show ?case
    using Suc by (simp add: Let_def apply_prepared_writes_append stop piece)
qed

lemma write_ranges_write_whole:
  assumes "length d \<le> u64_max"
  shows "apply_prepared_writes f
      (map (\<lambda>(start, stop). \<lparr>pw_offset = off + start, pw_data = segment d start (stop - start)\<rparr>)
        (write_ranges (length d))) = write_at off d f"
proof -
  let ?c = parallel_write_chunk_bytes
  have "length d \<le> div_ceil (max (length d) 1) ?c * ?c"
    using div_ceil_mult_ge [of ?c "max (length d) 1"] by (simp add: parallel_write_chunk_bytes_def)
  then show ?thesis
    using write_ranges_prefix [OF assms le_refl, of f off]
    by (simp add: write_ranges_def comp_def Let_def)
qed

lemma write_ranges_bounds:
  assumes "(start, stop) \<in> set (write_ranges len)" and "len \<le> u64_max"
  shows "start \<le> stop" and "stop \<le> len"
proof -
  let ?c = parallel_write_chunk_bytes
  have c: "0 < ?c" by (simp add: parallel_write_chunk_bytes_def)
  from assms(1) obtain k where k: "k < div_ceil (max len 1) ?c" "start = k * ?c"
    and stop: "stop = min (saturating_add start ?c) len"
    by (auto simp: write_ranges_def Let_def)
  from k(1) c have "k * ?c < max len 1" by (simp add: div_ceil_less_iff)
  then have "start \<le> len" using k(2) by simp
  then show "start \<le> stop" and "stop \<le> len"
    using assms(2) by (auto simp: stop saturating_add_def)
qed

lemma write_ranges_nonempty: "write_ranges len \<noteq> []"
proof -
  have "0 < div_ceil (max len 1) parallel_write_chunk_bytes"
    by (subst div_ceil_less_iff) (auto simp: parallel_write_chunk_bytes_def)
  then show ?thesis by (simp add: write_ranges_def)
qed

locale range_writer =
  fixes write_len :: "'i \<Rightarrow> nat"
    and prepare :: "'i \<Rightarrow> nat \<Rightarrow> nat \<Rightarrow> prepared_write result"
    and whole :: "'i \<Rightarrow> prepared_write result"
  assumes prepare_whole: "whole item = Inr w \<Longrightarrow>
      \<exists>ws. map_result (\<lambda>(start, stop). prepare item start stop) (write_ranges (write_len item)) = Inr ws \<and>
           (\<forall>f. apply_prepared_writes f ws = apply_prepared_writes f [w])"
    and prepare_error: "whole item = Inl e \<Longrightarrow>
      \<not> is_ok (map_result (\<lambda>(start, stop). prepare item start stop) (write_ranges (write_len item)))"
begin

lemma map_result_item:
  "map_result (\<lambda>(i, start, stop). prepare i start stop) (map (Pair item) rs) =
   map_result (\<lambda>(start, stop). prepare item start stop) rs"
  by (induction rs) auto

lemma flush_all_ranges:
  "flush_batch prepare (all_ranges write_len items) out = Inr f \<longleftrightarrow>
   and_then (map_result whole items) (\<lambda>ws. Inr (apply_prepared_writes out ws)) = Inr f"
proof (induction items arbitrary: out)
  case Nil
  then show ?case by (simp add: all_ranges_def flush_batch_def)
next
  case (Cons item items)
  let ?rs = "map (Pair item) (write_ranges (write_len item))"
  have split: "flush_batch prepare (all_ranges write_len (item # items)) out = Inr f \<longleftrightarrow>
      (\<exists>mid. flush_batch prepare ?rs out = Inr mid \<and> flush_batch prepare (all_ranges write_len items) mid = Inr f)"
    by (simp add: all_ranges_def flush_batch_compose [symmetric])
  show ?case
  proof (cases "whole item")
    case (Inl e)
    then have "\<nexists>mid. flush_batch prepare ?rs out = Inr mid"
      using prepare_error [OF Inl] by (auto simp: flush_batch_def map_result_item is_ok_iff result_iff)
    with split Inl show ?thesis by simp
  next
    case (Inr w)
    then obtain ws where "map_result (\<lambda>(start, stop). prepare item start stop) (write_ranges (write_len item)) = Inr ws"
      and "\<forall>f. apply_prepared_writes f ws = apply_prepared_writes f [w]"
      using prepare_whole by blast
    then have "flush_batch prepare ?rs out = Inr (apply_prepared_writes out [w])"
      by (simp add: flush_batch_def map_result_item)
    then have "flush_batch prepare (all_ranges write_len (item # items)) out = Inr f \<longleftrightarrow>
        flush_batch prepare (all_ranges write_len items) (apply_prepared_writes out [w]) = Inr f"
      using split by simp
    then show ?thesis using Cons.IH Inr by (simp add: and_then_assoc)
  qed
qed

theorem batched_as_whole:
  "same_outcome (apply_batched_writes pool_size write_len prepare items out)
     (and_then (map_result whole items) (\<lambda>ws. Inr (apply_prepared_writes out ws)))"
  using apply_batched_writes_outcome [of pool_size write_len prepare items out]
  by (simp add: same_outcome_def flush_all_ranges)

end

text \<open>
  Most formats prepare a subrange by cutting it out of the record's bytes; then the contract
  follows from the law that a subrange is a slice of the whole.
\<close>

locale slice_writer =
  fixes write_len :: "'i \<Rightarrow> nat"
    and prepare :: "'i \<Rightarrow> nat \<Rightarrow> nat \<Rightarrow> prepared_write result"
    and whole :: "'i \<Rightarrow> prepared_write result"
  assumes write_len_u64: "whole item = Inr w \<Longrightarrow> write_len item \<le> u64_max"
    and length_whole: "whole item = Inr w \<Longrightarrow> length (pw_data w) = write_len item"
    and prepare_slice: "whole item = Inr w \<Longrightarrow> start \<le> stop \<Longrightarrow> stop \<le> write_len item \<Longrightarrow>
      prepare item start stop =
        Inr \<lparr>pw_offset = pw_offset w + start, pw_data = segment (pw_data w) start (stop - start)\<rparr>"
    and prepare_fails: "whole item = Inl e \<Longrightarrow> (start, stop) \<in> set (write_ranges (write_len item)) \<Longrightarrow>
      \<not> is_ok (prepare item start stop)"

sublocale slice_writer \<subseteq> range_writer
proof
  fix item w
  assume w: "whole item = Inr w"
  let ?cut = "\<lambda>(start, stop). \<lparr>pw_offset = pw_offset w + start, pw_data = segment (pw_data w) start (stop - start)\<rparr>"
  have "map_result (\<lambda>(start, stop). prepare item start stop) (write_ranges (write_len item)) =
      Inr (map ?cut (write_ranges (write_len item)))"
    by (rule map_result_Ok)
      (auto intro!: prepare_slice [OF w] dest: write_ranges_bounds [OF _ write_len_u64 [OF w]])
  moreover have "apply_prepared_writes f (map ?cut (write_ranges (write_len item))) = apply_prepared_writes f [w]" for f
    using write_ranges_write_whole [of "pw_data w" f "pw_offset w"] length_whole [OF w] write_len_u64 [OF w]
    by simp
  ultimately show "\<exists>ws. map_result (\<lambda>(start, stop). prepare item start stop) (write_ranges (write_len item)) = Inr ws \<and>
      (\<forall>f. apply_prepared_writes f ws = apply_prepared_writes f [w])"
    by blast
next
  fix item e
  assume e: "whole item = Inl e"
  obtain start stop rest where ranges: "write_ranges (write_len item) = (start, stop) # rest"
    using write_ranges_nonempty [of "write_len item"] by (cases "write_ranges (write_len item)") auto
  then have "\<not> is_ok (prepare item start stop)" using prepare_fails [OF e] by simp
  then show "\<not> is_ok (map_result (\<lambda>(start, stop). prepare item start stop) (write_ranges (write_len item)))"
    by (cases "prepare item start stop") (simp_all add: ranges)
qed

end
