(* ===== verification/Runs.thy ===== *)
theory Runs
  imports Threading
begin

text \<open>
  Diff runs: the scan every byte-diff \<open>create\<close> uses to collect runs of changed bytes, and the
  coalescing of per-chunk runs in \<open>shared/runs.rs\<close> (the trait \<open>AdjacentRun\<close> is the locale
  \<open>adjacent_run\<close>).  A run list is \<open>separated\<close> when no run is empty and consecutive
  runs are at least one unchanged byte apart; a separated list is determined by the cells it
  covers, which is why scanning in parallel chunks and merging gives exactly the runs of one
  sequential scan.
\<close>

section \<open>Separated run lists\<close>

type_synonym 'b run = "nat \<times> 'b list"

definition run_stop :: "'b run \<Rightarrow> nat" where
  "run_stop r = fst r + length (snd r)"

definition separated :: "'b run list \<Rightarrow> bool" where
  "separated rs \<longleftrightarrow> (\<forall>r \<in> set rs. snd r \<noteq> []) \<and> sorted_wrt (\<lambda>r s. run_stop r < fst s) rs"

definition run_cells :: "'b run \<Rightarrow> (nat \<times> 'b) set" where
  "run_cells r = {(p, b). fst r \<le> p \<and> p < run_stop r \<and> snd r ! (p - fst r) = b}"

definition cells :: "'b run list \<Rightarrow> (nat \<times> 'b) set" where
  "cells rs = (\<Union>r \<in> set rs. run_cells r)"

lemma cells_simps [simp]:
  "cells [] = {}" "cells (r # rs) = run_cells r \<union> cells rs" "cells (rs @ ss) = cells rs \<union> cells ss"
  by (auto simp: cells_def)

lemma separated_Nil [simp]: "separated []"
  by (simp add: separated_def)

lemma separated_Cons:
  "separated (r # rs) \<longleftrightarrow> snd r \<noteq> [] \<and> (\<forall>s \<in> set rs. run_stop r < fst s) \<and> separated rs"
  by (auto simp: separated_def)

lemma separated_snoc:
  "separated (rs @ [r]) \<longleftrightarrow> separated rs \<and> snd r \<noteq> [] \<and> (\<forall>s \<in> set rs. run_stop s < fst r)"
  by (auto simp: separated_def sorted_wrt_append)

lemma run_cells_split:
  "run_cells (s, bs @ cs) = run_cells (s, bs) \<union> run_cells (s + length bs, cs)"
proof (intro set_eqI)
  fix x :: "nat \<times> 'a"
  obtain p b where x: "x = (p, b)" by (cases x)
  show "x \<in> run_cells (s, bs @ cs) \<longleftrightarrow> x \<in> run_cells (s, bs) \<union> run_cells (s + length bs, cs)"
    by (cases "p < s + length bs") (auto simp: x run_cells_def run_stop_def nth_append diff_diff_left)
qed

lemma run_cells_single: "run_cells (s, [b]) = {(s, b)}"
  by (auto simp: run_cells_def run_stop_def)

lemma run_cells_first: "snd r \<noteq> [] \<Longrightarrow> (fst r, hd (snd r)) \<in> run_cells r"
  by (auto simp: run_cells_def run_stop_def hd_conv_nth)

lemma run_cells_nth: "i < length (snd r) \<Longrightarrow> (fst r + i, snd r ! i) \<in> run_cells r"
  by (auto simp: run_cells_def run_stop_def)

lemma cells_beyond:
  assumes "separated (r # rs)" and "(p, b) \<in> cells rs"
  shows "run_stop r < p"
  using assms by (fastforce simp: separated_Cons cells_def run_cells_def)

lemma cells_head:
  assumes "separated (r # rs)"
  shows "(p, b) \<in> run_cells r \<longleftrightarrow> (p, b) \<in> cells (r # rs) \<and> p \<le> run_stop r"
  using cells_beyond [OF assms, of p b] by (auto simp: run_cells_def)

lemma cells_tail:
  assumes "separated (r # rs)"
  shows "(p, b) \<in> cells rs \<longleftrightarrow> (p, b) \<in> cells (r # rs) \<and> run_stop r < p"
  using cells_beyond [OF assms, of p b] by (auto simp: run_cells_def)

lemma separated_head_le:
  assumes sep: "separated (r # rs)" "separated (s # ss)"
    and eq: "cells (r # rs) = cells (s # ss)"
  shows "fst s \<le> fst r" and "fst r = fst s \<Longrightarrow> run_stop r \<le> run_stop s"
proof -
  have "(fst r, hd (snd r)) \<in> cells (r # rs)"
    using sep(1) run_cells_first [of r] by (simp add: separated_Cons)
  then have "(fst r, hd (snd r)) \<in> cells (s # ss)" unfolding eq .
  then show "fst s \<le> fst r"
    using cells_beyond [OF sep(2)] by (fastforce simp: run_cells_def run_stop_def)
  show "run_stop r \<le> run_stop s" if same: "fst r = fst s"
  proof (rule ccontr)
    assume "\<not> run_stop r \<le> run_stop s"
    then have len: "length (snd s) < length (snd r)" using same by (simp add: run_stop_def)
    from run_cells_nth [OF len] have "(run_stop s, snd r ! length (snd s)) \<in> cells (r # rs)"
      by (simp add: same run_stop_def)
    then have "(run_stop s, snd r ! length (snd s)) \<in> cells (s # ss)" unfolding eq .
    then show False
      using cells_beyond [OF sep(2)] by (auto simp: run_cells_def)
  qed
qed

lemma run_eqI:
  assumes "fst r = fst s" and "run_stop r = run_stop s" and "run_cells r = run_cells s"
  shows "r = s"
proof (rule prod_eqI [OF assms(1)], rule nth_equalityI)
  show "length (snd r) = length (snd s)"
    using assms(1,2) by (simp add: run_stop_def)
next
  fix i
  assume "i < length (snd r)"
  from run_cells_nth [OF this] have "(fst r + i, snd r ! i) \<in> run_cells s"
    using assms(3) by simp
  then show "snd r ! i = snd s ! i"
    using assms(1) by (simp add: run_cells_def)
qed

theorem separated_unique:
  assumes "separated rs" and "separated ss" and "cells rs = cells ss"
  shows "rs = ss"
  using assms
proof (induction rs arbitrary: ss)
  case Nil
  show ?case
  proof (cases ss)
    case (Cons s ss')
    with Nil.prems have "(fst s, hd (snd s)) \<in> cells []"
      using run_cells_first [of s] by (simp add: separated_Cons)
    then show ?thesis by simp
  qed simp
next
  case (Cons r rs)
  obtain s ss' where ss: "ss = s # ss'"
    using Cons.prems run_cells_first [of r] by (cases ss) (auto simp: separated_Cons)
  note sep = Cons.prems(1) Cons.prems(2) [unfolded ss]
  note eq = Cons.prems(3) [unfolded ss]
  have start: "fst r = fst s"
    using separated_head_le(1) [OF sep eq] separated_head_le(1) [OF sep(2,1) eq [symmetric]] by simp
  have stop: "run_stop r = run_stop s"
    using separated_head_le(2) [OF sep eq start]
      separated_head_le(2) [OF sep(2,1) eq [symmetric] start [symmetric]] by simp
  have "run_cells r = run_cells s"
    by (intro set_eqI) (metis cells_head [OF sep(1)] cells_head [OF sep(2)] eq stop surj_pair)
  then have "r = s" by (rule run_eqI [OF start stop])
  moreover have "cells rs = cells ss'"
    by (intro set_eqI) (metis cells_tail [OF sep(1)] cells_tail [OF sep(2)] eq stop surj_pair)
  then have "rs = ss'"
    using Cons.IH [of ss'] sep by (simp add: separated_Cons)
  ultimately show ?case by (simp add: ss)
qed

section \<open>The scan\<close>

text \<open>
  One byte of a diff scan over \<open>(runs, pending_start, pending_bytes)\<close>; \<open>cell i\<close> is the
  payload byte when offset \<open>i\<close> changed.
\<close>

type_synonym 'b scan_state = "'b run list \<times> nat option \<times> 'b list"

definition diff_step :: "(nat \<Rightarrow> 'b option) \<Rightarrow> nat \<Rightarrow> 'b scan_state \<Rightarrow> 'b scan_state" where
  "diff_step cell cursor st = (case st of (runs, pstart, pbytes) \<Rightarrow>
     (case cell cursor of
        None \<Rightarrow> if pbytes \<noteq> [] then (runs @ [(the pstart, pbytes)], None, []) else (runs, pstart, pbytes)
      | Some b \<Rightarrow> (runs, Some (case pstart of None \<Rightarrow> cursor | Some s \<Rightarrow> s), pbytes @ [b])))"

definition diff_finish :: "'b scan_state \<Rightarrow> 'b run list" where
  "diff_finish st = (case st of (runs, pstart, pbytes) \<Rightarrow>
     if pbytes \<noteq> [] then runs @ [(the pstart, pbytes)] else runs)"

definition diff_scan :: "(nat \<Rightarrow> 'b option) \<Rightarrow> nat \<Rightarrow> nat \<Rightarrow> 'b run list" where
  "diff_scan cell lo hi = diff_finish (fold (diff_step cell) [lo..<hi] ([], None, []))"

definition scan_inv :: "(nat \<Rightarrow> 'b option) \<Rightarrow> nat \<Rightarrow> nat \<Rightarrow> 'b scan_state \<Rightarrow> bool" where
  "scan_inv cell lo i st \<longleftrightarrow> (case st of (runs, pstart, pbytes) \<Rightarrow>
     (pbytes = [] \<longleftrightarrow> pstart = None) \<and>
     separated runs \<and>
     (\<forall>r \<in> set runs. lo \<le> fst r) \<and>
     (pbytes = [] \<longrightarrow> (\<forall>r \<in> set runs. run_stop r < i)) \<and>
     (pbytes \<noteq> [] \<longrightarrow> lo \<le> the pstart \<and> run_stop (the pstart, pbytes) = i \<and> (\<forall>r \<in> set runs. run_stop r < the pstart)) \<and>
     cells (diff_finish st) = {(p, b). lo \<le> p \<and> p < i \<and> cell p = Some b})"

lemma scan_inv_init: "scan_inv cell lo lo ([], None, [])"
  by (auto simp: scan_inv_def diff_finish_def)

lemma scan_inv_step:
  assumes inv: "scan_inv cell lo i st" and "lo \<le> i"
  shows "scan_inv cell lo (Suc i) (diff_step cell i st)"
proof -
  obtain runs pstart pbytes where st: "st = (runs, pstart, pbytes)" by (cases st)
  have grow: "{(p, b). lo \<le> p \<and> p < Suc i \<and> cell p = Some b} =
      {(p, b). lo \<le> p \<and> p < i \<and> cell p = Some b} \<union> {(p, b). p = i \<and> cell p = Some b}"
    using assms(2) by (auto simp: less_Suc_eq)
  show ?thesis
  proof (cases "cell i")
    case None
    then have "{(p, b). p = i \<and> cell p = Some b} = {}" by auto
    with grow have same: "{(p, b). lo \<le> p \<and> p < Suc i \<and> cell p = Some b} =
      {(p, b). lo \<le> p \<and> p < i \<and> cell p = Some b}" by simp
    show ?thesis
    proof (cases "pbytes = []")
      case True
      with None inv same show ?thesis
        by (simp add: st scan_inv_def diff_step_def diff_finish_def less_Suc_eq)
    next
      case False
      with None inv same show ?thesis
        by (auto simp: st scan_inv_def diff_step_def diff_finish_def separated_snoc run_stop_def
            less_Suc_eq simp del: mem_Collect_eq)
    qed
  next
    case (Some b)
    have "{(p, b). p = i \<and> cell p = Some b} = {(i, b)}" using Some by auto
    with grow have grow': "{(p, b). lo \<le> p \<and> p < Suc i \<and> cell p = Some b} =
      {(p, b). lo \<le> p \<and> p < i \<and> cell p = Some b} \<union> {(i, b)}" by simp
    show ?thesis
    proof (cases pstart)
      case None
      with inv Some grow' \<open>lo \<le> i\<close> show ?thesis
        by (auto simp: st scan_inv_def diff_step_def diff_finish_def run_cells_single run_stop_def)
    next
      case (Some s)
      then have ne: "pbytes \<noteq> []" and stop: "s + length pbytes = i" and "lo \<le> s"
        and rest: "separated runs" "\<forall>r \<in> set runs. lo \<le> fst r" "\<forall>r \<in> set runs. run_stop r < s"
        using inv by (simp_all add: st scan_inv_def run_stop_def)
      have old: "cells runs \<union> run_cells (s, pbytes) = {(p, b). lo \<le> p \<and> p < i \<and> cell p = Some b}"
        using inv ne Some by (simp add: st scan_inv_def diff_finish_def)
      have "cells (diff_finish (diff_step cell i st)) = cells runs \<union> run_cells (s, pbytes) \<union> {(i, b)}"
        using Some \<open>cell i = Some b\<close> stop
        by (simp add: st diff_step_def diff_finish_def run_cells_split run_cells_single Un_assoc)
      also have "\<dots> = {(p, b). lo \<le> p \<and> p < Suc i \<and> cell p = Some b}"
        unfolding old grow' ..
      finally show ?thesis
        using rest \<open>lo \<le> s\<close> stop Some \<open>cell i = Some b\<close>
        by (simp add: st scan_inv_def diff_step_def run_stop_def)
    qed
  qed
qed

lemma scan_inv_fold: "lo \<le> hi \<Longrightarrow> scan_inv cell lo hi (fold (diff_step cell) [lo..<hi] ([], None, []))"
proof (induction hi)
  case 0
  then show ?case using scan_inv_init [of cell lo] by simp
next
  case (Suc hi)
  show ?case
  proof (cases "lo = Suc hi")
    case True
    then show ?thesis using scan_inv_init [of cell lo] by simp
  next
    case False
    with Suc.prems have "lo \<le> hi" by simp
    with Suc.IH scan_inv_step [of cell lo hi] show ?thesis by simp
  qed
qed

theorem diff_scan_spec:
  assumes "lo \<le> hi"
  shows "separated (diff_scan cell lo hi)"
    and "cells (diff_scan cell lo hi) = {(p, b). lo \<le> p \<and> p < hi \<and> cell p = Some b}"
    and "r \<in> set (diff_scan cell lo hi) \<Longrightarrow> lo \<le> fst r"
    and "r \<in> set (diff_scan cell lo hi) \<Longrightarrow> run_stop r \<le> hi"
  using scan_inv_fold [OF assms, of cell]
  by (auto simp: diff_scan_def scan_inv_def diff_finish_def separated_snoc run_stop_def
      split: prod.splits if_splits) 

text \<open>How many runs there can be, and how many bytes they hold.\<close>

lemma separated_bounds:
  assumes "separated rs" and "\<forall>r \<in> set rs. lo \<le> fst r \<and> run_stop r \<le> hi" and "lo \<le> Suc hi"
  shows "lo + 2 * length rs \<le> Suc hi" and "lo + (\<Sum>r \<leftarrow> rs. length (snd r)) \<le> max lo hi"
  using assms
proof (induction rs arbitrary: lo)
  case (Cons r rs)
  case 1
  from 1 have r: "snd r \<noteq> []" "lo \<le> fst r" "run_stop r \<le> hi" "separated rs"
    and rest: "\<forall>s \<in> set rs. Suc (run_stop r) \<le> fst s \<and> run_stop s \<le> hi"
    by (auto simp: separated_Cons)
  have "lo < run_stop r" using r(1,2) by (simp add: run_stop_def trans_le_add1 le_less_trans add_less_le_mono)
  with Cons.IH(1) [OF r(4) rest] r(3) show ?case by simp
next
  case (Cons r rs)
  case 2
  from 2 have r: "lo \<le> fst r" "run_stop r \<le> hi" "separated rs"
    and rest: "\<forall>s \<in> set rs. Suc (run_stop r) \<le> fst s \<and> run_stop s \<le> hi"
    by (auto simp: separated_Cons)
  have "lo + length (snd r) \<le> run_stop r" using r(1) by (simp add: run_stop_def)
  with Cons.IH(2) [OF r(3) rest] r(2) show ?case unfolding list.map sum_list.Cons by linarith
qed simp_all

lemma diff_scan_bounds:
  "2 * length (diff_scan cell 0 hi) \<le> Suc hi" "(\<Sum>r \<leftarrow> diff_scan cell 0 hi. length (snd r)) \<le> hi"
proof -
  have "\<forall>r \<in> set (diff_scan cell 0 hi). 0 \<le> fst r \<and> run_stop r \<le> hi"
    using diff_scan_spec(4) [OF le0] by blast
  from separated_bounds [OF diff_scan_spec(1) [OF le0] this]
  show "2 * length (diff_scan cell 0 hi) \<le> Suc hi" "(\<Sum>r \<leftarrow> diff_scan cell 0 hi. length (snd r)) \<le> hi"
    by simp_all
qed

lemma diff_scan_unique:
  assumes "separated rs" and "cells rs = {(p, b). lo \<le> p \<and> p < hi \<and> cell p = Some b}" and "lo \<le> hi"
  shows "rs = diff_scan cell lo hi"
  using assms diff_scan_spec [OF assms(3)] by (intro separated_unique) auto

lemma diff_scan_nonempty: "lo \<le> hi \<Longrightarrow> r \<in> set (diff_scan cell lo hi) \<Longrightarrow> snd r \<noteq> []"
  using diff_scan_spec(1) [of lo hi cell] by (auto simp: separated_def)

lemma diff_scan_nth:
  assumes "lo \<le> hi" and "r \<in> set (diff_scan cell lo hi)" and "i < length (snd r)"
  shows "cell (fst r + i) = Some (snd r ! i)" and "fst r + i < hi"
proof -
  have "(fst r + i, snd r ! i) \<in> cells (diff_scan cell lo hi)"
    using assms(2) run_cells_nth [OF assms(3)] by (auto simp: cells_def)
  then show "cell (fst r + i) = Some (snd r ! i)" and "fst r + i < hi"
    by (simp_all add: diff_scan_spec(2) [OF assms(1)])
qed

lemma diff_scan_cover:
  assumes "lo \<le> hi" and "lo \<le> i" and "i < hi" and "cell i \<noteq> None"
  shows "\<exists>r \<in> set (diff_scan cell lo hi). fst r \<le> i \<and> i < run_stop r"
proof -
  obtain b where "cell i = Some b" using assms(4) by auto
  then have "(i, b) \<in> cells (diff_scan cell lo hi)"
    using assms by (simp add: diff_scan_spec(2) [OF assms(1)])
  then show ?thesis by (auto simp: cells_def run_cells_def)
qed

text \<open>A loop body that follows \<open>diff_step\<close> and cannot fail scans.\<close>

lemma fold_result_diff_step:
  assumes "\<And>i s. i < hi \<Longrightarrow> f i s = Inr (diff_step cell i s)"
  shows "fold_result f [lo..<hi] s = Inr (fold (diff_step cell) [lo..<hi] s)"
  using assms by (intro fold_result_Ok) auto

text \<open>
  A format keeps its runs in a record of its own: \<open>lift_scan\<close> reads a scan state as the
  format's state, and a loop body that follows \<open>diff_step\<close> under it scans.
\<close>

definition scan_to :: "(nat \<Rightarrow> 'b option) \<Rightarrow> nat \<Rightarrow> nat \<Rightarrow> 'b scan_state" where
  "scan_to cell lo i = fold (diff_step cell) [lo..<i] ([], None, [])"

definition lift_scan :: "('b run \<Rightarrow> 'r) \<Rightarrow> 'b scan_state \<Rightarrow> 'r list \<times> nat option \<times> 'b list" where
  "lift_scan f st = (case st of (runs, pstart, pbytes) \<Rightarrow> (map f runs, pstart, pbytes))"

lemma scan_to_start [simp]: "scan_to cell lo lo = ([], None, [])"
  by (simp add: scan_to_def)

lemma scan_to_Suc: "lo \<le> i \<Longrightarrow> scan_to cell lo (Suc i) = diff_step cell i (scan_to cell lo i)"
  by (simp add: scan_to_def)

lemma lift_scan_start [simp]: "lift_scan f ([], None, []) = ([], None, [])"
  by (simp add: lift_scan_def)

lemma lift_scan_loop:
  assumes step: "\<And>i st. off \<le> i \<Longrightarrow> i < off + n \<Longrightarrow> step i (lift_scan f st) = Inr (lift_scan f (diff_step cell i st))"
    and "lo \<le> off"
  shows "fold_result (\<lambda>index. step (off + index)) [0..<n] (lift_scan f (scan_to cell lo off)) =
    Inr (lift_scan f (scan_to cell lo (off + n)))"
  using step
proof (induction n)
  case (Suc n)
  then show ?case using \<open>lo \<le> off\<close> by (simp add: fold_result_append scan_to_Suc)
qed simp

lemma diff_step_lift:
  "lift_scan f (diff_step cell i st) =
     (case lift_scan f st of (runs, pstart, pbytes) \<Rightarrow>
       (case cell i of
          None \<Rightarrow> if pbytes \<noteq> [] then (runs @ [f (the pstart, pbytes)], None, []) else (runs, pstart, pbytes)
        | Some b \<Rightarrow> (runs, Some (case pstart of None \<Rightarrow> i | Some s \<Rightarrow> s), pbytes @ [b])))"
  by (auto simp: lift_scan_def diff_step_def split: prod.splits option.splits)

lemma lift_scan_finish:
  "lift_scan f (scan_to cell lo hi) = (runs, pstart, pbytes) \<Longrightarrow>
   (if pbytes \<noteq> [] then runs @ [f (the pstart, pbytes)] else runs) = map f (diff_scan cell lo hi)"
  by (auto simp: lift_scan_def diff_scan_def scan_to_def diff_finish_def split: prod.splits)

section \<open>Merging the runs of parallel chunks\<close>

text \<open>
  \<open>merge_adjacent_runs\<close> over the operations of \<open>AdjacentRun\<close>.
\<close>

definition merge_run ::
  "('r \<Rightarrow> nat) \<Rightarrow> ('r \<Rightarrow> nat result) \<Rightarrow> ('r \<Rightarrow> 'r \<Rightarrow> 'r) \<Rightarrow> 'r \<Rightarrow> 'r list \<Rightarrow> 'r list result" where
  "merge_run start run_end append_run run merged =
     (if merged \<noteq> []
      then and_then (run_end (last merged)) (\<lambda>stop.
             if stop = start run then Inr (butlast merged @ [append_run (last merged) run])
             else Inr (merged @ [run]))
      else Inr (merged @ [run]))"

definition merge_adjacent_runs ::
  "('r \<Rightarrow> nat) \<Rightarrow> ('r \<Rightarrow> nat result) \<Rightarrow> ('r \<Rightarrow> 'r \<Rightarrow> 'r) \<Rightarrow> 'r list list \<Rightarrow> 'r list result" where
  "merge_adjacent_runs start run_end append_run chunk_runs =
     fold_result (\<lambda>runs. fold_result (merge_run start run_end append_run) runs) chunk_runs []"

text \<open>
  The trait: \<open>view\<close> is a run's offset and payload, \<open>run_end\<close> its checked end, and
  \<open>append_run\<close> joins payloads.
\<close>

locale adjacent_run =
  fixes view :: "'r \<Rightarrow> 'b run"
    and start :: "'r \<Rightarrow> nat"
    and run_end :: "'r \<Rightarrow> nat result"
    and append_run :: "'r \<Rightarrow> 'r \<Rightarrow> 'r"
  assumes start_view: "start r = fst (view r)"
    and run_end_view: "run_stop (view r) \<le> u64_max \<Longrightarrow> run_end r = Inr (run_stop (view r))"
    and view_append: "view (append_run r s) = (fst (view r), snd (view r) @ snd (view s))"
begin

lemma merge_run_step:
  assumes sep: "separated (map view merged)" and ne: "snd (view r) \<noteq> []"
    and before: "\<forall>m \<in> set merged. run_stop (view m) \<le> fst (view r)"
    and bound: "fst (view r) \<le> u64_max"
  shows "\<exists>out. merge_run start run_end append_run r merged = Inr out \<and> separated (map view out) \<and>
    cells (map view out) = cells (map view merged) \<union> run_cells (view r) \<and>
    (\<forall>m \<in> set out. run_stop (view m) \<le> run_stop (view r))"
proof (cases "merged = []")
  case True
  with ne show ?thesis by (simp add: merge_run_def separated_Cons)
next
  case False
  then obtain ms l where m: "merged = ms @ [l]" by (metis rev_exhaust)
  have stop: "run_end l = Inr (run_stop (view l))"
    using before bound by (intro run_end_view) (auto simp: m)
  from sep have ms: "separated (map view ms)" "snd (view l) \<noteq> []"
    "\<forall>s \<in> set ms. run_stop (view s) < fst (view l)"
    by (simp_all add: m separated_snoc)
  show ?thesis
  proof (cases "run_stop (view l) = fst (view r)")
    case True
    let ?out = "ms @ [append_run l r]"
    have joined: "view (append_run l r) = (fst (view l), snd (view l) @ snd (view r))"
      by (rule view_append)
    have "run_cells (view (append_run l r)) = run_cells (view l) \<union> run_cells (view r)"
      using True by (simp add: joined run_cells_split run_stop_def)
    moreover have stops: "run_stop (view (append_run l r)) = run_stop (view r)"
      using True by (simp add: joined run_stop_def)
    moreover have "\<forall>s \<in> set ms. run_stop (view s) \<le> run_stop (view r)"
      using before by (auto simp: m run_stop_def)
    moreover have "merge_run start run_end append_run r merged = Inr ?out"
      using True stop by (simp add: merge_run_def m start_view)
    moreover have "separated (map view ?out)"
      using ms joined by (simp add: separated_snoc)
    ultimately show ?thesis by (auto simp: m)
  next
    case False
    have "merge_run start run_end append_run r merged = Inr (merged @ [r])"
      using False stop by (simp add: merge_run_def m start_view)
    moreover have "\<forall>s \<in> set merged. run_stop (view s) < fst (view r)"
    proof
      fix s
      assume "s \<in> set merged"
      then consider "s = l" | "s \<in> set ms" by (auto simp: m)
      then show "run_stop (view s) < fst (view r)"
      proof cases
        case 1
        with False before show ?thesis by (fastforce simp: m)
      next
        case 2
        then have "run_stop (view s) < fst (view l)" using ms(3) by blast
        also have "fst (view l) \<le> run_stop (view l)" by (simp add: run_stop_def)
        also have "\<dots> \<le> fst (view r)" using before by (simp add: m)
        finally show ?thesis .
      qed
    qed
    moreover have "\<forall>m \<in> set merged. run_stop (view m) \<le> run_stop (view r)"
      using before by (auto simp: run_stop_def)
    ultimately show ?thesis using sep ne by (auto simp: separated_snoc)
  qed
qed

lemma merge_runs_list:
  assumes "separated (map view merged)" and "separated (map view rs)"
    and "\<forall>m \<in> set merged. run_stop (view m) \<le> lo" and "\<forall>r \<in> set rs. lo \<le> fst (view r)"
    and "\<forall>r \<in> set rs. run_stop (view r) \<le> hi" and "lo \<le> hi" and "hi \<le> u64_max"
  shows "\<exists>out. fold_result (merge_run start run_end append_run) rs merged = Inr out \<and>
    separated (map view out) \<and> cells (map view out) = cells (map view merged) \<union> cells (map view rs) \<and>
    (\<forall>m \<in> set out. run_stop (view m) \<le> hi)"
  using assms
proof (induction rs arbitrary: merged lo)
  case Nil
  then show ?case by (auto intro: order_trans)
next
  case (Cons r rs)
  have sep: "snd (view r) \<noteq> []" "\<forall>s \<in> set rs. run_stop (view r) < fst (view s)" "separated (map view rs)"
    using Cons.prems(2) by (simp_all add: separated_Cons)
  have r: "run_stop (view r) \<le> hi" "fst (view r) \<le> u64_max"
    using Cons.prems by (auto simp: run_stop_def)
  obtain out where out: "merge_run start run_end append_run r merged = Inr out" "separated (map view out)"
    "cells (map view out) = cells (map view merged) \<union> run_cells (view r)"
    "\<forall>m \<in> set out. run_stop (view m) \<le> run_stop (view r)"
    using merge_run_step [OF Cons.prems(1) sep(1) _ r(2)] Cons.prems(3,4)
    by (meson list.set_intros(1) order_trans)
  have "\<forall>s \<in> set rs. run_stop (view r) \<le> fst (view s)" using sep(2) by auto
  moreover have "\<forall>s \<in> set rs. run_stop (view s) \<le> hi" using Cons.prems(5) by simp
  ultimately obtain out' where
    "fold_result (merge_run start run_end append_run) rs out = Inr out'" "separated (map view out')"
    "cells (map view out') = cells (map view out) \<union> cells (map view rs)"
    "\<forall>m \<in> set out'. run_stop (view m) \<le> hi"
    using Cons.IH [OF out(2) sep(3) out(4) _ _ r(1) Cons.prems(7)] by blast
  then show ?case using out(1,3) by (simp add: Un_assoc)
qed

text \<open>
  Chunk \<open>k\<close> holds the runs of the scan from \<open>bound k\<close> to \<open>bound (k + 1)\<close>; merged, they are
  the runs of the whole scan.
\<close>

theorem merge_chunk_scans:
  assumes mono: "mono bound" and start0: "bound 0 = 0" and limit: "bound n \<le> u64_max"
    and chunks: "\<And>k. k < n \<Longrightarrow> map view (runs k) = diff_scan cell (bound k) (bound (Suc k))"
  shows "\<exists>out. merge_adjacent_runs start run_end append_run (map runs [0..<n]) = Inr out \<and>
    map view out = diff_scan cell 0 (bound n)"
proof -
  have "\<exists>out. merge_adjacent_runs start run_end append_run (map runs [0..<k]) = Inr out \<and>
    separated (map view out) \<and> (\<forall>m \<in> set out. run_stop (view m) \<le> bound k) \<and>
    cells (map view out) = {(p, b). 0 \<le> p \<and> p < bound k \<and> cell p = Some b}" if "k \<le> n" for k
    using that
  proof (induction k)
    case 0
    then show ?case by (simp add: merge_adjacent_runs_def start0)
  next
    case (Suc k)
    then obtain out where out: "merge_adjacent_runs start run_end append_run (map runs [0..<k]) = Inr out"
      "separated (map view out)" "\<forall>m \<in> set out. run_stop (view m) \<le> bound k"
      "cells (map view out) = {(p, b). 0 \<le> p \<and> p < bound k \<and> cell p = Some b}"
      by auto
    have le: "bound k \<le> bound (Suc k)" using mono by (simp add: monoD)
    have "bound (Suc k) \<le> bound n" using Suc.prems mono by (simp add: monoD)
    with limit have u64: "bound (Suc k) \<le> u64_max" by simp
    note scan = diff_scan_spec [OF le, where cell = cell, folded chunks [OF Suc_le_lessD [OF Suc.prems]]]
    obtain out' where out': "fold_result (merge_run start run_end append_run) (runs k) out = Inr out'"
      "separated (map view out')" "cells (map view out') = cells (map view out) \<union> cells (map view (runs k))"
      "\<forall>m \<in> set out'. run_stop (view m) \<le> bound (Suc k)"
      using merge_runs_list [OF out(2) scan(1) out(3) _ _ le u64] scan(3,4) by auto
    have "cells (map view out') = {(p, b). 0 \<le> p \<and> p < bound (Suc k) \<and> cell p = Some b}"
      using le by (auto simp: out'(3) out(4) scan(2))
    with out out' show ?case
      by (simp add: merge_adjacent_runs_def fold_result_append)
  qed
  from this [OF le_refl] obtain out where
    "merge_adjacent_runs start run_end append_run (map runs [0..<n]) = Inr out"
    "separated (map view out)" "cells (map view out) = {(p, b). 0 \<le> p \<and> p < bound n \<and> cell p = Some b}"
    by blast
  then show ?thesis using diff_scan_unique by blast
qed

end

section \<open>Runs as positioned writes\<close>

definition run_write :: "u8 run \<Rightarrow> prepared_write" where
  "run_write r = \<lparr>pw_offset = fst r, pw_data = snd r\<rparr>"

lemma diff_scan_writes:
  assumes cell: "\<And>i b. i < hi \<Longrightarrow> cell i = Some b \<Longrightarrow> b = byte_at t i" and hi: "hi \<le> length t"
  shows "truthful t (map run_write (diff_scan cell 0 hi))"
    and "covers (map run_write (diff_scan cell 0 hi)) i \<longleftrightarrow> i < hi \<and> cell i \<noteq> None"
proof -
  have "snd r = segment t (fst r) (length (snd r)) \<and> run_stop r \<le> length t"
    if r: "r \<in> set (diff_scan cell 0 hi)" for r
  proof
    have stop: "run_stop r \<le> hi" using diff_scan_spec(4) [OF le0 r] .
    then show "run_stop r \<le> length t" using hi by simp
    show "snd r = segment t (fst r) (length (snd r))"
    proof (rule nth_equalityI)
      show "length (snd r) = length (segment t (fst r) (length (snd r)))"
        using stop hi by (auto simp: run_stop_def)
    next
      fix i
      assume i: "i < length (snd r)"
      then have "fst r + i < length t" using stop hi by (simp add: run_stop_def)
      then show "snd r ! i = segment t (fst r) (length (snd r)) ! i"
        using cell [OF diff_scan_nth(2) [OF le0 r i] diff_scan_nth(1) [OF le0 r i]] i
        by (simp add: nth_segment)
    qed
  qed
  then show "truthful t (map run_write (diff_scan cell 0 hi))"
    by (simp add: truthful_def run_write_def write_end_def run_stop_def)
  show "covers (map run_write (diff_scan cell 0 hi)) i \<longleftrightarrow> i < hi \<and> cell i \<noteq> None"
  proof
    assume "covers (map run_write (diff_scan cell 0 hi)) i"
    then obtain r where r: "r \<in> set (diff_scan cell 0 hi)" "fst r \<le> i" "i - fst r < length (snd r)"
      by (auto simp: covers_def run_write_def write_end_def)
    from diff_scan_nth [OF le0 r(1,3)] r(2) show "i < hi \<and> cell i \<noteq> None" by simp
  next
    assume "i < hi \<and> cell i \<noteq> None"
    then show "covers (map run_write (diff_scan cell 0 hi)) i"
      using diff_scan_cover [of 0 hi i cell]
      by (auto simp: covers_def run_write_def write_end_def run_stop_def)
  qed
qed

end
