(* ===== verification/Handlers.thy ===== *)
theory Handlers
  imports Runs "HOL-Library.AList"
begin

text \<open>
  What every patch handler works with: the operation context
  (\<open>rom-weaver-core/src/context.rs\<close>), requests and reports (\<open>registry.rs\<close>,
  \<open>shared/labels.rs\<close>, \<open>shared/endpoints.rs\<close>), the plausibility limit on output sizes and
  the choice between the worker pool and the serial path (\<open>lib.rs\<close>,
  \<open>shared/threading.rs\<close>), and the checksums.  CRC-32 is computed by a third-party crate and
  is a parameter; CRC-16/CCITT is computed by \<open>rom-weaver-checksum\<close> and is modelled.
\<close>

section \<open>Context\<close>

datatype checksum_validation = Strict | IgnoreChecksums

record check_scopes =
  scope_patch_integrity :: bool
  scope_source :: bool
  scope_target :: bool

record op_context =
  ctx_host :: host
  ctx_budget :: thread_budget
  ctx_validation :: checksum_validation
  ctx_scopes :: "check_scopes option"
  ctx_apply_limit :: "nat option"
  ctx_env_limit :: nat
  ctx_seeded_crc32 :: "string \<Rightarrow> string option"

definition all_scopes :: "bool \<Rightarrow> check_scopes" where
  "all_scopes enabled =
     \<lparr>scope_patch_integrity = enabled, scope_source = enabled, scope_target = enabled\<rparr>"

definition patch_check_scopes :: "op_context \<Rightarrow> check_scopes" where
  "patch_check_scopes ctx =
     (case ctx_scopes ctx of Some s \<Rightarrow> s | None \<Rightarrow> all_scopes (ctx_validation ctx = Strict))"

definition plan_threads :: "op_context \<Rightarrow> thread_capability \<Rightarrow> thread_execution" where
  "plan_threads ctx cap = negotiate (ctx_host ctx) (ctx_budget ctx) cap"

definition single_thread_execution :: "op_context \<Rightarrow> thread_execution" where
  "single_thread_execution ctx = plan_threads ctx SingleThreaded"

definition operation_pool :: "op_context \<Rightarrow> (thread_execution \<times> nat) result" where
  "operation_pool ctx =
     (case pool_with_execution_fallback (ctx_host ctx) (plan_threads ctx (Parallel None)) of
        Inl reason \<Rightarrow> Err (ThreadPoolBuild reason)
      | Inr p \<Rightarrow> Inr p)"

definition build_pool :: "op_context \<Rightarrow> thread_capability \<Rightarrow> (thread_execution \<times> nat) result" where
  "build_pool ctx cap =
     (let execution = plan_threads ctx cap
      in and_then (operation_pool ctx) (\<lambda>(pool_execution, pool).
           Inr (if thread_fallback pool_execution \<and> used_parallelism execution
                then apply_pool_fallback
                       (case thread_fallback_reason pool_execution of Some r \<Rightarrow> r
                        | None \<Rightarrow> ''shared operation pool fell back to single-thread'') execution
                else execution, pool)))"

text \<open>\<open>run_with_optional_pool\<close>: the parallel path gets the size of the pool.\<close>

definition run_with_optional_pool ::
  "op_context \<Rightarrow> thread_capability \<Rightarrow> bool \<Rightarrow> (nat \<Rightarrow> 'a result) \<Rightarrow> 'a result \<Rightarrow>
   (thread_execution \<times> 'a) result" where
  "run_with_optional_pool ctx cap allow_parallel parallel serial =
     (let planned = plan_threads ctx cap
      in if used_parallelism planned \<and> allow_parallel
         then and_then (build_pool ctx cap) (\<lambda>(execution, pool).
              and_then (parallel pool) (\<lambda>v. Inr (execution, v)))
         else and_then serial (\<lambda>v. Inr (planned, v)))"

lemma build_pool_total: "\<exists>execution pool. build_pool ctx cap = Inr (execution, pool)"
  using pool_fallback_total [of "ctx_host ctx" "plan_threads ctx (Parallel None)"]
  by (auto simp: build_pool_def operation_pool_def Let_def)

text \<open>When both paths have the same outcome, the thread budget cannot be observed in it.\<close>

lemma run_with_optional_pool_value:
  assumes "\<And>pool. same_outcome (parallel pool) r" and "same_outcome serial r"
  shows "(\<exists>e. run_with_optional_pool ctx cap allow parallel serial = Inr (e, v)) \<longleftrightarrow> r = Inr v"
proof -
  obtain execution pool where "build_pool ctx cap = Inr (execution, pool)"
    using build_pool_total by blast
  then show ?thesis
    using assms(1) [of pool] assms(2)
    by (auto simp: run_with_optional_pool_def Let_def result_iff same_outcome_def)
qed

lemma run_with_optional_pool_result:
  "run_with_optional_pool ctx cap allow parallel serial = Inr (e, v) \<Longrightarrow>
    (\<exists>pool. parallel pool = Inr v) \<or> serial = Inr v"
  by (auto simp: run_with_optional_pool_def Let_def result_iff split: if_splits)

lemma run_with_optional_pool_holds:
  assumes "\<And>pool. \<exists>v. parallel pool = Inr v \<and> P v" and "\<exists>v. serial = Inr v \<and> P v"
  shows "\<exists>e v. run_with_optional_pool ctx cap allow parallel serial = Inr (e, v) \<and> P v"
proof -
  obtain execution pool where "build_pool ctx cap = Inr (execution, pool)"
    using build_pool_total by blast
  with assms(1) [of pool] assms(2) show ?thesis
    by (auto simp: run_with_optional_pool_def Let_def)
qed

lemma run_with_optional_pool_const:
  "\<exists>e. run_with_optional_pool ctx cap allow (\<lambda>_. Inr v) (Inr v) = Inr (e, v)"
  using run_with_optional_pool_holds [where P = "\<lambda>w. w = v" and parallel = "\<lambda>_. Inr v" and serial = "Inr v"]
  by simp

text \<open>
  The pattern of the record formats: the serial path writes at once, the parallel path hands
  the pool out and writes afterwards.
\<close>

lemma prepare_then_write:
  assumes par: "\<And>pool. same_outcome (parallel pool out) W" and ser: "same_outcome serial W"
  shows "\<exists>e. same_outcome
    (and_then (run_with_optional_pool ctx cap allow (\<lambda>pool. Inr (Some pool, out))
                (and_then serial (\<lambda>out. Inr (None, out))))
      (\<lambda>(execution, prepared, out).
         and_then (case prepared of Some pool \<Rightarrow> parallel pool out | None \<Rightarrow> Inr out) (k execution)))
    (and_then W (k e))"
proof -
  obtain execution pool where pool: "build_pool ctx cap = Inr (execution, pool)"
    using build_pool_total by blast
  show ?thesis
  proof (cases "used_parallelism (plan_threads ctx cap) \<and> allow")
    case True
    with pool par [of pool] show ?thesis
      by (intro exI [of _ execution]) (auto simp: run_with_optional_pool_def Let_def same_outcome_def result_iff)
  next
    case False
    with ser show ?thesis
      by (intro exI [of _ "plan_threads ctx cap"])
        (auto simp: run_with_optional_pool_def Let_def same_outcome_def result_iff)
  qed
qed

section \<open>Requests and reports\<close>

record stored_file =
  file_path :: string
  file_bytes :: bytes

abbreviation file_len :: "stored_file \<Rightarrow> nat" where
  "file_len f \<equiv> length (file_bytes f)"

record apply_request =
  ar_input :: stored_file
  ar_patches :: "stored_file list"
  ar_output :: string

record create_request =
  cr_original :: stored_file
  cr_modified :: stored_file

definition require_single_patch_file :: "stored_file list \<Rightarrow> string \<Rightarrow> stored_file result" where
  "require_single_patch_file patches format_name =
     (if length patches \<noteq> 1
      then invalid_fmt ''{} apply expects exactly one patch file'' [Str format_name]
      else Inr (patches ! 0))"

lemma single_patch_cases: "require_single_patch_file ps name = Inr pf \<longleftrightarrow> ps = [pf]"
  by (cases ps) (auto simp: require_single_patch_file_def invalid_fmt_def)

datatype direction = Forward | Reverse

record endpoint_selection =
  sel_variant :: nat
  sel_direction :: direction

record endpoint_side =
  side_size :: "nat option"
  side_min_size :: "nat option"
  side_checksums :: "(string \<times> fmt_arg) list"

record endpoint_variant =
  ev_input :: endpoint_side
  ev_output :: endpoint_side
  ev_execution :: "endpoint_selection option"

text \<open>A label is the concatenation of its formatted parts.\<close>

record report =
  rep_format :: string
  rep_stage :: string
  rep_label :: "message list"
  rep_details :: "(string \<times> nat) list"
  rep_endpoints :: "endpoint_variant list"
  rep_execution :: "thread_execution option"

definition patch_success_report ::
  "string \<Rightarrow> string \<Rightarrow> message list \<Rightarrow> thread_execution option \<Rightarrow> report" where
  "patch_success_report format stage label execution =
     \<lparr>rep_format = format, rep_stage = stage, rep_label = label, rep_details = [],
      rep_endpoints = [], rep_execution = execution\<rparr>"

definition append_warning_labels :: "message list \<Rightarrow> message list \<Rightarrow> message list" where
  "append_warning_labels label warnings =
     fold (\<lambda>warning label. label @ [Msg ''; warning='' [], warning]) warnings label"

definition checksum_validation_suffix :: "bool \<Rightarrow> message" where
  "checksum_validation_suffix validate =
     (if validate then Msg '''' [] else Msg ''; checksum validation skipped'' [])"

definition patch_create_report :: "string \<Rightarrow> nat \<Rightarrow> thread_execution \<Rightarrow> report" where
  "patch_create_report format record_count execution =
     patch_success_report format ''create''
       [Msg ''created {} patch with {} record(s)'' [Str format, Num record_count]] (Some execution)"

definition patch_apply_report :: "string \<Rightarrow> nat \<Rightarrow> bool \<Rightarrow> thread_execution \<Rightarrow> report" where
  "patch_apply_report format record_count validate execution =
     patch_success_report format ''apply''
       [Msg ''applied {} patch with {} record(s)'' [Str format, Num record_count],
        checksum_validation_suffix validate] (Some execution)"

definition patch_validate_report ::
  "string \<Rightarrow> nat \<Rightarrow> bool \<Rightarrow> thread_execution option \<Rightarrow> report" where
  "patch_validate_report format record_count validate execution =
     patch_success_report format ''validate''
       [Msg ''validated {} patch source with {} record(s)'' [Str format, Num record_count],
        checksum_validation_suffix validate] execution"

definition sized_side :: "nat \<Rightarrow> endpoint_side" where
  "sized_side n = \<lparr>side_size = Some n, side_min_size = None, side_checksums = []\<rparr>"

definition with_checksum :: "string \<Rightarrow> fmt_arg \<Rightarrow> endpoint_side \<Rightarrow> endpoint_side" where
  "with_checksum algorithm hex side =
     side\<lparr>side_checksums := AList.update algorithm hex (side_checksums side)\<rparr>"

definition side_is_empty :: "endpoint_side \<Rightarrow> bool" where
  "side_is_empty side \<longleftrightarrow> side_size side = None \<and> side_min_size side = None \<and> side_checksums side = []"

definition endpoint_variant_new :: "endpoint_side \<Rightarrow> endpoint_side \<Rightarrow> endpoint_variant" where
  "endpoint_variant_new input out = \<lparr>ev_input = input, ev_output = out, ev_execution = None\<rparr>"

definition attach_patch_endpoints :: "endpoint_variant list \<Rightarrow> report \<Rightarrow> report" where
  "attach_patch_endpoints variants rep =
     (let kept = filter (\<lambda>v. \<not> (side_is_empty (ev_input v) \<and> side_is_empty (ev_output v))) variants
      in if kept = [] then rep else rep\<lparr>rep_endpoints := kept\<rparr>)"

definition byuu_endpoint_variant :: "nat \<Rightarrow> nat \<Rightarrow> u32 \<Rightarrow> u32 \<Rightarrow> endpoint_variant" where
  "byuu_endpoint_variant src_size tgt_size source_crc32 target_crc32 =
     endpoint_variant_new
       (with_checksum ''crc32'' (Hex (unat source_crc32)) (sized_side src_size))
       (with_checksum ''crc32'' (Hex (unat target_crc32)) (sized_side tgt_size))"

definition byuu_endpoint_variants ::
  "string \<Rightarrow> nat \<Rightarrow> nat \<Rightarrow> u32 \<Rightarrow> u32 \<Rightarrow> endpoint_variant list" where
  "byuu_endpoint_variants format src_size tgt_size source_crc32 target_crc32 =
     (let fwd = byuu_endpoint_variant src_size tgt_size source_crc32 target_crc32;
          bwd = byuu_endpoint_variant tgt_size src_size target_crc32 source_crc32
      in if format \<noteq> ''UPS'' then [fwd]
         else [fwd\<lparr>ev_execution := Some \<lparr>sel_variant = 0, sel_direction = Forward\<rparr>\<rparr>,
               bwd\<lparr>ev_execution := Some \<lparr>sel_variant = 0, sel_direction = Reverse\<rparr>\<rparr>])"

definition byuu_parse_report ::
  "string \<Rightarrow> nat \<Rightarrow> nat \<Rightarrow> nat \<Rightarrow> u32 \<Rightarrow> u32 \<Rightarrow> u32 \<Rightarrow> report" where
  "byuu_parse_report format record_count src_size tgt_size source_crc32 target_crc32 patch_crc32 =
     (let rep = patch_success_report format ''parse''
            [Msg ''parsed {} patch with {} record(s); source crc32 {}; target crc32 {}; patch crc32 {}''
               [Str format, Num record_count, Hex (unat source_crc32), Hex (unat target_crc32),
                Hex (unat patch_crc32)]] None;
          rep = rep\<lparr>rep_details :=
            [(''source_size'', src_size), (''target_size'', tgt_size),
             (''source_crc32'', unat source_crc32), (''target_crc32'', unat target_crc32),
             (''patch_crc32'', unat patch_crc32), (''record_count'', record_count)]\<rparr>
      in attach_patch_endpoints
           (byuu_endpoint_variants format src_size tgt_size source_crc32 target_crc32) rep)"

section \<open>Limits\<close>

definition plausible_output_limit :: "nat \<Rightarrow> nat \<Rightarrow> nat" where
  "plausible_output_limit source_len patch_len =
     max (saturating_mul (saturating_add source_len patch_len) 64) 1073741824"

definition ensure_plausible_output_len :: "string \<Rightarrow> nat \<Rightarrow> nat \<Rightarrow> nat \<Rightarrow> unit result" where
  "ensure_plausible_output_len format output_size source_len patch_len =
     (if output_size \<le> plausible_output_limit source_len patch_len then Inr ()
      else coded ''patch.output_size_implausible''
        ''{} patch would write a {} byte output, more than the {} byte limit for a {} byte source and {} byte patch; the patch is probably corrupt''
        [Str format, Num output_size, Num (plausible_output_limit source_len patch_len),
         Num source_len, Num patch_len])"

definition can_apply_in_memory_on_apply :: "op_context \<Rightarrow> nat \<Rightarrow> nat \<Rightarrow> bool" where
  "can_apply_in_memory_on_apply ctx a b =
     (let limit = (case ctx_apply_limit ctx of Some l \<Rightarrow> l | None \<Rightarrow> ctx_env_limit ctx)
      in a \<le> limit \<and> b \<le> limit)"

record sparse_streaming =
  min_bytes :: nat
  max_records :: nat

definition SPARSE_STREAMING :: sparse_streaming where
  "SPARSE_STREAMING = \<lparr>min_bytes = 33554432, max_records = 4096\<rparr>"

definition APSGBA_SPARSE_STREAMING :: sparse_streaming where
  "APSGBA_SPARSE_STREAMING = SPARSE_STREAMING\<lparr>max_records := 256\<rparr>"

definition can_apply_sparse_in_memory ::
  "op_context \<Rightarrow> nat \<Rightarrow> nat \<Rightarrow> nat \<Rightarrow> sparse_streaming \<Rightarrow> bool" where
  "can_apply_sparse_in_memory ctx a b record_count streaming \<longleftrightarrow>
     can_apply_in_memory_on_apply ctx a b \<and>
     (a < min_bytes streaming \<or> max_records streaming < record_count)"

lemma ensure_plausible_iff:
  "ensure_plausible_output_len name n a b = Inr u \<longleftrightarrow> n \<le> plausible_output_limit a b"
  by (simp add: ensure_plausible_output_len_def)

text \<open>
  An output within the plausibility limit is never rejected: at most 1 GiB, or within 64
  times the input and patch together.
\<close>

lemma ensure_plausible_floor: "output_size \<le> 1073741824 \<Longrightarrow>
    ensure_plausible_output_len format output_size source_len patch_len = Inr ()"
  by (simp add: ensure_plausible_output_len_def plausible_output_limit_def)

lemma ensure_plausible_ok: "output_size \<le> 64 * (source_len + patch_len) \<Longrightarrow>
    output_size \<le> u64_max \<Longrightarrow>
    ensure_plausible_output_len format output_size source_len patch_len = Inr ()"
  by (auto simp: ensure_plausible_output_len_def plausible_output_limit_def saturating_mul_def
      saturating_add_def min_def le_max_iff_disj)

section \<open>Checksums\<close>

fun hex_digit :: "char \<Rightarrow> nat option" where
  "hex_digit c =
     (let n = of_char c in
      if 48 \<le> n \<and> n \<le> 57 then Some (n - 48)
      else if 97 \<le> n \<and> n \<le> 102 then Some (n - 87)
      else if 65 \<le> n \<and> n \<le> 70 then Some (n - 55)
      else None)"

text \<open>\<open>u32::from_str_radix(value, 16)\<close>, which accepts one leading plus sign.\<close>

fun parse_hex_digits :: "nat \<Rightarrow> string \<Rightarrow> nat option" where
  "parse_hex_digits acc [] = Some acc"
| "parse_hex_digits acc (c # cs) =
     (case hex_digit c of None \<Rightarrow> None
      | Some d \<Rightarrow> if acc * 16 + d > u32_max then None else parse_hex_digits (acc * 16 + d) cs)"

definition u32_from_hex :: "string \<Rightarrow> u32 option" where
  "u32_from_hex s =
     (let digits = (case s of c # cs \<Rightarrow> if c = CHR ''+'' then cs else s | [] \<Rightarrow> s)
      in if digits = [] then None else map_option word_of_nat (parse_hex_digits 0 digits))"

definition crc32_path_cached :: "(bytes \<Rightarrow> u32) \<Rightarrow> stored_file \<Rightarrow> op_context \<Rightarrow> u32 result" where
  "crc32_path_cached crc32 f ctx =
     (case ctx_seeded_crc32 ctx (file_path f) of
        Some cached \<Rightarrow>
          (case u32_from_hex cached of Some v \<Rightarrow> Inr v
           | None \<Rightarrow> invalid ''native checksum engine returned invalid crc32'')
      | None \<Rightarrow> Inr (crc32 (file_bytes f)))"

lemma crc32_path_unseeded:
  "ctx_seeded_crc32 ctx (file_path f) = None \<Longrightarrow> crc32_path_cached crc32 f ctx = Inr (crc32 (file_bytes f))"
  by (simp add: crc32_path_cached_def)

text \<open>
  A seeded checksum is trusted; it is honest when it is the checksum of the file.
\<close>

definition honest_seed :: "(bytes \<Rightarrow> u32) \<Rightarrow> op_context \<Rightarrow> stored_file \<Rightarrow> bool" where
  "honest_seed crc32 ctx f \<longleftrightarrow>
     (case ctx_seeded_crc32 ctx (file_path f) of
        None \<Rightarrow> True
      | Some cached \<Rightarrow> u32_from_hex cached = Some (crc32 (file_bytes f)))"

lemma crc32_path_honest:
  "honest_seed crc32 ctx f \<Longrightarrow> crc32_path_cached crc32 f ctx = Inr (crc32 (file_bytes f))"
  by (auto simp: honest_seed_def crc32_path_cached_def split: option.splits)

text \<open>A context without seeds on a host with some cores, for concrete instances.\<close>

definition plain_context :: "nat \<Rightarrow> op_context" where
  "plain_context cores =
     \<lparr>ctx_host = \<lparr>available_parallelism = cores, pool_build_failure = (\<lambda>_. None)\<rparr>,
      ctx_budget = BudgetAuto, ctx_validation = Strict, ctx_scopes = None,
      ctx_apply_limit = None, ctx_env_limit = 268435456, ctx_seeded_crc32 = (\<lambda>_. None)\<rparr>"

lemma honest_plain [simp]: "honest_seed crc32 (plain_context n) f"
  by (simp add: honest_seed_def plain_context_def)

lemma plain_context_serial:
  "run_with_optional_pool (plain_context 1) cap allow parallel serial =
    and_then serial (\<lambda>v. Inr (plan_threads (plain_context 1) cap, v))"
proof -
  have "\<not> used_parallelism (plan_threads (plain_context 1) cap)"
    by (cases cap) (auto simp: plan_threads_def plain_context_def Let_def split: option.splits)
  then show ?thesis by (simp add: run_with_optional_pool_def)
qed

definition sample_source :: stored_file where
  "sample_source = \<lparr>file_path = ''a'', file_bytes = [1, 2, 3]\<rparr>"

definition sample_target :: stored_file where
  "sample_target = \<lparr>file_path = ''b'', file_bytes = [1, 7, 3, 4]\<rparr>"

definition sample_crc :: "bytes \<Rightarrow> u32" where
  "sample_crc bs = fold (\<lambda>b c. push_bit 1 c XOR ucast b) bs 0"

lemmas samples = sample_source_def sample_target_def

definition crc16_ccitt_bit :: "u16 \<Rightarrow> u16" where
  "crc16_ccitt_bit crc = (if crc AND 0x8000 \<noteq> 0 then push_bit 1 crc XOR 0x1021 else push_bit 1 crc)"

definition crc16_ccitt_bytes :: "bytes \<Rightarrow> u16" where
  "crc16_ccitt_bytes bs =
     fold (\<lambda>value crc. (crc16_ccitt_bit ^^ 8) (crc XOR push_bit 8 (ucast value))) bs 0xFFFF"

text \<open>
  \<open>crc32_prefix\<close>: the hasher is the list of the bytes fed to it, finalized by the CRC of the
  whole; feeding it in pieces is feeding it the concatenation.
\<close>

definition crc32_prefix :: "(bytes \<Rightarrow> u32) \<Rightarrow> bytes \<Rightarrow> nat \<Rightarrow> nat \<Rightarrow> u32 result" where
  "crc32_prefix crc32 f len buffer_len =
     and_then
       (chunk_loop buffer_len
          (\<lambda>off n hasher. and_then (seek_read_exact f off n) (\<lambda>buffer. Inr (hasher @ buffer))) 0 len [])
       (\<lambda>hasher. Inr (crc32 hasher))"

lemma crc32_prefix_ok:
  assumes "0 < buffer_len" and "len \<le> length f"
  shows "crc32_prefix crc32 f len buffer_len = Inr (crc32 (take len f))"
proof -
  have "chunk_loop buffer_len
      (\<lambda>off n hasher. and_then (seek_read_exact f off n) (\<lambda>buffer. Inr (hasher @ buffer))) 0 len (take 0 f) =
      Inr (take len f)"
    by (rule chunk_loop_states [where F = "\<lambda>i. take i f"])
      (use assms in \<open>auto simp: seek_read_exact_def segment_def take_add\<close>)
  then show ?thesis by (simp add: crc32_prefix_def)
qed

text \<open>\<open>read_footer\<close>: the last bytes of a file, from an offset.\<close>

definition read_footer :: "bytes \<Rightarrow> nat \<Rightarrow> nat \<Rightarrow> bytes result" where
  "read_footer f footer_offset n = seek_read_exact f footer_offset n"

text \<open>
  \<open>SharedBlockCacheReader::read_exact_at\<close> as its callers see it; the cache behind it is
  modelled in the theory Block_Cache.
\<close>

definition read_exact_at :: "bytes \<Rightarrow> nat \<Rightarrow> nat \<Rightarrow> bytes result" where
  "read_exact_at f off n =
     (if n = 0 then Inr []
      else if off + n > u64_max \<or> off + n > length f
      then invalid_fmt ''read range exceeds file bounds (offset={}, len={})'' [Num off, Num n]
      else Inr (segment f off n))"

text \<open>
  \<open>read_original_modified_chunk\<close>: one chunk of both files, the original zero-filled past its
  end, and \<open>scan_create_chunks\<close>, a parallel map over the chunk indices.
\<close>

definition read_original_modified_chunk :: "bytes \<Rightarrow> bytes \<Rightarrow> nat \<Rightarrow> nat \<Rightarrow> (bytes \<times> bytes) result" where
  "read_original_modified_chunk original modified start stop =
     (let n = stop - start;
          readable = (if start < length original then min (length original - start) n else 0)
      in and_then (if 0 < readable then seek_read_exact original start readable else Inr []) (\<lambda>bytes.
         and_then (seek_read_exact modified start n) (\<lambda>modified_bytes.
         Inr (bytes @ replicate (n - readable) 0, modified_bytes))))"

definition scan_create_chunks :: "nat \<Rightarrow> (nat \<Rightarrow> 'a result) \<Rightarrow> 'a list result" where
  "scan_create_chunks chunk_count scan_chunk_by_index = map_result scan_chunk_by_index [0..<chunk_count]"

lemma read_original_modified_chunk_ok:
  assumes "start \<le> stop" and "stop \<le> length t"
  shows "\<exists>bs. read_original_modified_chunk s t start stop = Inr (bs, segment t start (stop - start)) \<and>
    length bs = stop - start \<and> (\<forall>i < stop - start. bs ! i = byte_at s (start + i))"
proof -
  let ?n = "stop - start"
  define readable where "readable = (if start < length s then min (length s - start) ?n else 0)"
  have r: "(if 0 < readable then seek_read_exact s start readable else Inr []) = Inr (segment s start readable)"
    by (auto simp: readable_def seek_read_exact_def)
  have m: "seek_read_exact t start ?n = Inr (segment t start ?n)"
    using assms by (simp add: seek_read_exact_def)
  have nth: "(segment s start readable @ replicate (?n - readable) 0) ! i = byte_at s (start + i)" if "i < ?n" for i
    using that by (auto simp: nth_append segment_def readable_def byte_at_def min_def)
  have len: "length (segment s start readable @ replicate (?n - readable) 0) = ?n"
    by (auto simp: readable_def)
  have "read_original_modified_chunk s t start stop =
      Inr (segment s start readable @ replicate (?n - readable) 0, segment t start ?n)"
    unfolding read_original_modified_chunk_def Let_def readable_def [symmetric] r and_then_simps m ..
  then show ?thesis using nth len by blast
qed

end
