(* ===== verification/Readers.thy ===== *)
theory Readers
  imports Files
begin

text \<open>
  The length-checked parsers of the patch formats.  Every format has its own parser struct
  with a \<open>read_exact\<close>; the locale \<open>exact_reader\<close> is the contract they share, and the lemmas
  on fixed-width fields and on repeated records are proved once inside it.  The parser of
  \<open>shared/labeled_parser.rs\<close> is modelled here; those of \<open>ups.rs\<close> and \<open>ips.rs\<close> are
  with their formats.
\<close>

section \<open>The contract of a parser\<close>

text \<open>A source of single bytes: reading takes the first unread byte.\<close>

locale byte_source =
  fixes read_byte :: "'p \<Rightarrow> (u8 \<times> 'p) result"
    and unread :: "'p \<Rightarrow> bytes"
    and wf :: "'p \<Rightarrow> bool"
  assumes read_byte_ok: "wf p \<Longrightarrow> unread p = b # bs \<Longrightarrow>
      \<exists>q. read_byte p = Inr (b, q) \<and> wf q \<and> unread q = bs"
    and read_byte_end: "wf p \<Longrightarrow> unread p = [] \<Longrightarrow> \<not> is_ok (read_byte p)"
begin

lemma read_byte_Inr:
  assumes "wf p" and "read_byte p = Inr (b, q)"
  shows "wf q" and "unread p = b # unread q"
proof -
  obtain c cs where u: "unread p = c # cs"
    using read_byte_end [OF assms(1)] assms(2) by (cases "unread p") auto
  from read_byte_ok [OF assms(1) u] assms(2) u show "wf q" and "unread p = b # unread q"
    by auto
qed

end

text \<open>A parser with a \<open>read_exact\<close>.\<close>

locale exact_reader =
  fixes read_exact :: "'p \<Rightarrow> nat \<Rightarrow> (bytes \<times> 'p) result"
    and unread :: "'p \<Rightarrow> bytes"
    and wf :: "'p \<Rightarrow> bool"
  assumes read_exact_ok: "wf p \<Longrightarrow> n \<le> length (unread p) \<Longrightarrow>
      \<exists>q. read_exact p n = Inr (take n (unread p), q) \<and> wf q \<and> unread q = drop n (unread p)"
    and read_exact_short: "wf p \<Longrightarrow> length (unread p) < n \<Longrightarrow> \<not> is_ok (read_exact p n)"

definition read_byte_with :: "('p \<Rightarrow> nat \<Rightarrow> (bytes \<times> 'p) result) \<Rightarrow> 'p \<Rightarrow> (u8 \<times> 'p) result" where
  "read_byte_with read_exact p = and_then (read_exact p 1) (\<lambda>(bs, q). Inr (bs ! 0, q))"

definition read_uint_with ::
  "('p \<Rightarrow> nat \<Rightarrow> (bytes \<times> 'p) result) \<Rightarrow> (bytes \<Rightarrow> nat) \<Rightarrow> nat \<Rightarrow> 'p \<Rightarrow> (nat \<times> 'p) result" where
  "read_uint_with read_exact decode k p = and_then (read_exact p k) (\<lambda>(bs, q). Inr (decode bs, q))"

sublocale exact_reader \<subseteq> byte_source "read_byte_with read_exact" unread wf
proof
  fix p b bs
  assume "wf p" and "unread p = b # bs"
  then show "\<exists>q. read_byte_with read_exact p = Inr (b, q) \<and> wf q \<and> unread q = bs"
    using read_exact_ok [of p 1] by (auto simp: read_byte_with_def)
next
  fix p
  assume "wf p" and "unread p = []"
  then show "\<not> is_ok (read_byte_with read_exact p)"
    using read_exact_short [of p 1] by (cases "read_exact p 1") (auto simp: read_byte_with_def)
qed

context exact_reader
begin

lemma read_exact_prefix:
  assumes "wf p" and "unread p = bs @ rest" and "length bs = n"
  shows "\<exists>q. read_exact p n = Inr (bs, q) \<and> wf q \<and> unread q = rest"
  using read_exact_ok [of p n] assms by auto

lemma read_exact_Inr:
  assumes "wf p" and "read_exact p n = Inr (bs, q)"
  shows "wf q" and "unread p = bs @ unread q" and "length bs = n"
proof -
  have n: "n \<le> length (unread p)"
    using read_exact_short [of p n] assms by (cases "n \<le> length (unread p)") auto
  from read_exact_ok [OF assms(1) n] assms(2) n
  show "wf q" and "unread p = bs @ unread q" and "length bs = n"
    by auto
qed

lemma read_uint_le:
  assumes "wf p" and "unread p = le_bytes k v @ rest" and "v < 256 ^ k"
  shows "\<exists>q. read_uint_with read_exact from_le k p = Inr (v, q) \<and> wf q \<and> unread q = rest"
  using read_exact_prefix [OF assms(1,2)] assms(3)
  by (auto simp: read_uint_with_def from_le_small)

lemma read_uint_be:
  assumes "wf p" and "unread p = be_bytes k v @ rest" and "v < 256 ^ k"
  shows "\<exists>q. read_uint_with read_exact from_be k p = Inr (v, q) \<and> wf q \<and> unread q = rest"
  using read_exact_prefix [OF assms(1,2)] assms(3)
  by (auto simp: read_uint_with_def from_be_small)

end

section \<open>Reading a fixed number of records\<close>

fun read_records :: "('p \<Rightarrow> ('r \<times> 'p) result) \<Rightarrow> nat \<Rightarrow> 'p \<Rightarrow> ('r list \<times> 'p) result" where
  "read_records read_record 0 p = Inr ([], p)"
| "read_records read_record (Suc n) p =
     and_then (read_record p) (\<lambda>(r, p').
     and_then (read_records read_record n p') (\<lambda>(rs, p''). Inr (r # rs, p'')))"

lemma read_records_all:
  assumes "\<And>p r q. read_record p = Inr (r, q) \<Longrightarrow> P r"
    and "read_records read_record n p = Inr (rs, q)"
  shows "\<forall>r \<in> set rs. P r" and "length rs = n"
proof -
  have "(\<forall>r \<in> set rs. P r) \<and> length rs = n"
    using assms(2)
  proof (induction n arbitrary: p rs q)
    case (Suc n)
    then obtain r p' rs' where "read_record p = Inr (r, p')" "read_records read_record n p' = Inr (rs', q)"
      "rs = r # rs'"
      by (auto simp: result_iff)
    with Suc.IH [of p' rs' q] assms(1) show ?case by auto
  qed simp
  then show "\<forall>r \<in> set rs. P r" and "length rs = n" by auto
qed

text \<open>
  A record reader that inverts an encoder on good records reads back a concatenation of
  encodings.
\<close>

locale record_codec =
  fixes encode :: "'r \<Rightarrow> bytes"
    and read_record :: "'p \<Rightarrow> ('r \<times> 'p) result"
    and unread :: "'p \<Rightarrow> bytes"
    and wf :: "'p \<Rightarrow> bool"
    and good :: "'r \<Rightarrow> bool"
  assumes read_record_encode: "wf p \<Longrightarrow> good r \<Longrightarrow> unread p = encode r @ rest \<Longrightarrow>
      \<exists>q. read_record p = Inr (r, q) \<and> wf q \<and> unread q = rest"
begin

lemma read_records_encode:
  assumes "wf p" and "\<forall>r \<in> set rs. good r" and "unread p = concat (map encode rs) @ rest"
  shows "\<exists>q. read_records read_record (length rs) p = Inr (rs, q) \<and> wf q \<and> unread q = rest"
  using assms
proof (induction rs arbitrary: p)
  case Nil
  then show ?case by simp
next
  case (Cons r rs)
  from Cons.prems obtain q where q: "read_record p = Inr (r, q)" "wf q"
    "unread q = concat (map encode rs) @ rest"
    using read_record_encode [of p r "concat (map encode rs) @ rest"] by auto
  with Cons.IH [of q] Cons.prems show ?case by auto
qed

end

section \<open>The labelled file parser\<close>

text \<open>
  \<open>LabeledFileParser\<close>: the bytes of the file from the read position on, the length of the
  file and the count of consumed bytes, with the wording of its errors.
\<close>

record labeled_parser =
  lp_reader :: bytes
  lp_file_len :: nat
  lp_offset :: nat
  lp_format_name :: string
  lp_overflow_label :: string

definition labeled_new :: "bytes \<Rightarrow> nat \<Rightarrow> string \<Rightarrow> string \<Rightarrow> labeled_parser" where
  "labeled_new rdr file_len format_name overflow_label =
     \<lparr>lp_reader = rdr, lp_file_len = file_len, lp_offset = 0,
      lp_format_name = format_name, lp_overflow_label = overflow_label\<rparr>"

definition labeled_remaining :: "labeled_parser \<Rightarrow> nat" where
  "labeled_remaining p = lp_file_len p - lp_offset p"

definition labeled_read_exact ::
  "string \<Rightarrow> labeled_parser \<Rightarrow> nat \<Rightarrow> (bytes \<times> labeled_parser) result" where
  "labeled_read_exact label p len =
     (if len > u64_max
      then invalid_fmt ''{} length overflowed {}'' [Str label, Str (lp_overflow_label p)]
      else if len > labeled_remaining p
      then invalid_fmt ''{} patch ended unexpectedly while reading {}'' [Str (lp_format_name p), Str label]
      else if len > length (lp_reader p) then Err (Io UnexpectedEof)
      else case checked_add_opt (lp_offset p) len of
        None \<Rightarrow> invalid_fmt ''{} offset overflowed'' [Str label]
      | Some offset \<Rightarrow> Inr (take len (lp_reader p),
          p\<lparr>lp_reader := drop len (lp_reader p), lp_offset := offset\<rparr>))"

definition labeled_read_u8 :: "string \<Rightarrow> labeled_parser \<Rightarrow> (u8 \<times> labeled_parser) result" where
  "labeled_read_u8 label p = read_byte_with (labeled_read_exact label) p"

definition labeled_read_u16_le :: "string \<Rightarrow> labeled_parser \<Rightarrow> (nat \<times> labeled_parser) result" where
  "labeled_read_u16_le label p = read_uint_with (labeled_read_exact label) from_le 2 p"

definition labeled_read_u32_le :: "string \<Rightarrow> labeled_parser \<Rightarrow> (nat \<times> labeled_parser) result" where
  "labeled_read_u32_le label p = read_uint_with (labeled_read_exact label) from_le 4 p"

definition labeled_read_u32_be :: "string \<Rightarrow> labeled_parser \<Rightarrow> (nat \<times> labeled_parser) result" where
  "labeled_read_u32_be label p = read_uint_with (labeled_read_exact label) from_be 4 p"

text \<open>The offset and the unread bytes together are the file.\<close>

definition labeled_wf :: "labeled_parser \<Rightarrow> bool" where
  "labeled_wf p \<longleftrightarrow>
     lp_offset p + length (lp_reader p) = lp_file_len p \<and> lp_file_len p \<le> u64_max"

lemma labeled_wf_new: "length f \<le> u64_max \<Longrightarrow> labeled_wf (labeled_new f (length f) n l)"
  by (simp add: labeled_wf_def labeled_new_def)

lemma labeled_reader_new [simp]: "lp_reader (labeled_new f n a b) = f"
  by (simp add: labeled_new_def)

lemma labeled_read_exact_length:
  "labeled_read_exact label p n = Inr (bs, q) \<Longrightarrow> length bs = n"
  by (auto simp: labeled_read_exact_def split: if_splits option.splits)

lemma labeled_remaining_wf: "labeled_wf p \<Longrightarrow> labeled_remaining p = length (lp_reader p)"
  by (auto simp: labeled_wf_def labeled_remaining_def)

interpretation labeled: exact_reader "labeled_read_exact label" lp_reader labeled_wf for label
proof
  fix p n
  assume wf: "labeled_wf p" and n: "n \<le> length (lp_reader p)"
  then have "labeled_read_exact label p n =
      Inr (take n (lp_reader p), p\<lparr>lp_reader := drop n (lp_reader p), lp_offset := lp_offset p + n\<rparr>)"
    by (auto simp: labeled_read_exact_def labeled_remaining_wf checked_add_opt_def labeled_wf_def)
  then show "\<exists>q. labeled_read_exact label p n = Inr (take n (lp_reader p), q) \<and> labeled_wf q \<and>
      lp_reader q = drop n (lp_reader p)"
    using wf n by (auto simp: labeled_wf_def)
next
  fix p n
  assume "labeled_wf p" and "length (lp_reader p) < n"
  then show "\<not> is_ok (labeled_read_exact label p n)"
    by (auto simp: labeled_read_exact_def labeled_remaining_wf invalid_fmt_def)
qed

end
