(* ===== verification/Varint.thy ===== *)
theory Varint
  imports Readers
begin

text \<open>
  The byuu \<open>number\<close> varint of \<open>rom-weaver-patches/src/varint.rs\<close>, used by UPS and BPS: seven
  data bits per byte, the high bit on the last byte, and a bias of one per continuation.
  The reader is proved against any byte source, so the parsers of both formats get the
  round trip by interpretation.
\<close>

definition varint_max_len :: nat where
  "varint_max_len = 10"

text \<open>
  The code writes into a ten-byte buffer; \<open>length_encode_varint\<close> shows that every index
  is inside it.
\<close>

fun encode_varint :: "nat \<Rightarrow> bytes" where
  "encode_varint n =
     (let value = word_of_nat (n mod 128) :: u8; rest = n div 128
      in if rest = 0 then [128 OR value] else value # encode_varint (rest - 1))"

declare encode_varint.simps [simp del]

definition push_varint :: "bytes \<Rightarrow> nat \<Rightarrow> bytes" where
  "push_varint bs n = bs @ encode_varint n"

text \<open>
  \<open>checked_shl(7)\<close> fails only for shift counts of 64 and more, so here it never fails; bits
  shifted out are lost.
\<close>

fun read_varint_loop ::
  "('p \<Rightarrow> (u8 \<times> 'p) result) \<Rightarrow> string \<Rightarrow> nat \<Rightarrow> nat \<Rightarrow> nat \<Rightarrow> 'p \<Rightarrow> (nat \<times> 'p) result" where
  "read_varint_loop read_byte label 0 acc sh p =
     invalid_fmt ''{} varint exceeded maximum length'' [Str label]"
| "read_varint_loop read_byte label (Suc k) acc sh p =
     and_then (read_byte p) (\<lambda>(b, p').
     and_then (ok_or (checked_mul_opt (unat (b AND 127)) sh)
       (invalid_fmt ''{} varint overflowed available range'' [Str label])) (\<lambda>addend.
     and_then (ok_or (checked_add_opt acc addend)
       (invalid_fmt ''{} varint overflowed available range'' [Str label])) (\<lambda>acc'.
     if b AND 128 \<noteq> 0 then Inr (acc', p')
     else let sh' = sh * 128 mod 2 ^ 64
          in and_then (ok_or (checked_add_opt acc' sh')
               (invalid_fmt ''{} varint overflowed available range'' [Str label])) (\<lambda>acc''.
             read_varint_loop read_byte label k acc'' sh' p'))))"

definition read_varint :: "('p \<Rightarrow> (u8 \<times> 'p) result) \<Rightarrow> string \<Rightarrow> 'p \<Rightarrow> (nat \<times> 'p) result" where
  "read_varint read_byte label p = read_varint_loop read_byte label varint_max_len 0 1 p"

section \<open>The bits of a varint byte\<close>

lemma unat_and_127: "unat (b AND 127 :: u8) = unat b mod 128"
proof -
  have "b AND 127 = take_bit 7 b"
    by (simp add: take_bit_eq_mask mask_eq_exp_minus_1)
  then have "unat (b AND 127) = take_bit 7 (unat b)"
    by (simp only: unsigned_take_bit_eq)
  then show ?thesis by (simp add: take_bit_eq_mod)
qed

lemma and_128_iff: "(b AND 128 :: u8) \<noteq> 0 \<longleftrightarrow> 128 \<le> unat b"
proof -
  have "(b AND 128 = 0) \<longleftrightarrow> \<not> bit b 7"
    using and_exp_eq_0_iff_not_bit [of b 7] by simp
  moreover have "bit b 7 \<longleftrightarrow> bit (unat b) 7"
    by (simp add: bit_unsigned_iff)
  moreover have "bit (unat b) 7 \<longleftrightarrow> 128 \<le> unat b"
  proof -
    have "unat b div 128 = 0 \<or> unat b div 128 = 1"
      using unat_u8_lt [of b] by linarith
    then show ?thesis by (auto simp: bit_iff_odd)
  qed
  ultimately show ?thesis by auto
qed

lemma unat_or_128: "v < 128 \<Longrightarrow> unat (128 OR word_of_nat v :: u8) = 128 + v"
proof -
  assume v: "v < 128"
  let ?w = "word_of_nat v :: u8"
  have w: "unat ?w = v" using v by (simp add: unat_of_nat)
  then have "128 AND ?w = 0"
    using and_128_iff [of ?w] v by (simp add: and.commute)
  then have "128 OR ?w = 128 + ?w"
    using word_plus_and_or [of 128 ?w] by simp
  then show ?thesis
    using v w by (simp add: unat_word_ariths)
qed

section \<open>Length\<close>

fun varint_limit :: "nat \<Rightarrow> nat" where
  "varint_limit 0 = 0"
| "varint_limit (Suc k) = 128 * (1 + varint_limit k)"

lemma length_encode_varint_le: "n < varint_limit k \<Longrightarrow> length (encode_varint n) \<le> k"
proof (induction k arbitrary: n)
  case 0
  then show ?case by simp
next
  case (Suc k)
  show ?case
  proof (cases "n div 128 = 0")
    case True
    then show ?thesis by (subst encode_varint.simps) simp
  next
    case False
    then have "n div 128 - 1 < varint_limit k" using Suc.prems by auto
    with Suc.IH have "length (encode_varint (n div 128 - 1)) \<le> k" by blast
    with False show ?thesis by (subst encode_varint.simps) (simp add: Let_def)
  qed
qed

lemma varint_limit_numeral:
  "varint_limit (numeral k) = 128 * (1 + varint_limit (pred_numeral k))"
  by (simp add: numeral_eq_Suc)

lemma length_encode_varint: "n \<le> u64_max \<Longrightarrow> length (encode_varint n) \<le> varint_max_len"
proof (rule length_encode_varint_le)
  assume "n \<le> u64_max"
  also have "u64_max < varint_limit varint_max_len"
    by (simp add: varint_max_len_def u64_max_def varint_limit_numeral)
  finally show "n < varint_limit varint_max_len" .
qed

lemma encode_varint_nonempty [simp]: "encode_varint n \<noteq> []"
  by (subst encode_varint.simps) (simp add: Let_def)

section \<open>Reading back\<close>

context byte_source
begin

lemma read_varint_loop_encode:
  assumes "wf p" and "unread p = encode_varint n @ rest" and "acc + sh * n \<le> u64_max"
    and "0 < sh" and "length (encode_varint n) \<le> k"
  shows "\<exists>q. read_varint_loop read_byte label k acc sh p = Inr (acc + sh * n, q) \<and> wf q \<and> unread q = rest"
  using assms
proof (induction n arbitrary: p acc sh k rule: less_induct)
  case (less n)
  let ?v = "n mod 128" and ?r = "n div 128"
  have n: "n = ?v + 128 * ?r" by simp
  have v: "unat (word_of_nat ?v :: u8) = ?v" by (simp add: unat_of_nat)
  have mul: "?v * sh \<le> acc + sh * n" "acc + ?v * sh \<le> acc + sh * n"
    using mult_le_mono2 [of ?v n sh] by (simp_all add: mult.commute trans_le_add2)
  from less.prems(5) obtain k' where k: "k = Suc k'"
    by (cases k) auto
  show ?case
  proof (cases "?r = 0")
    case True
    then have enc: "encode_varint n = [128 OR word_of_nat ?v]"
      by (subst encode_varint.simps) simp
    obtain q where q: "read_byte p = Inr (128 OR word_of_nat ?v, q)" "wf q" "unread q = rest"
      using read_byte_ok [OF less.prems(1)] less.prems(2) enc by auto
    have byte: "unat ((128 OR word_of_nat ?v :: u8) AND 127) = ?v" "(128 OR word_of_nat ?v :: u8) AND 128 \<noteq> 0"
      by (simp_all add: unat_and_127 and_128_iff unat_or_128)
    have "?v = n" using True by simp
    then show ?thesis
      using q byte mul less.prems(3)
      by (simp add: k checked_mul_opt_def checked_add_opt_def mult.commute)
  next
    case False
    then have enc: "encode_varint n = word_of_nat ?v # encode_varint (?r - 1)"
      by (subst encode_varint.simps) (simp add: Let_def)
    obtain q where q: "read_byte p = Inr (word_of_nat ?v, q)" "wf q"
      "unread q = encode_varint (?r - 1) @ rest"
      using read_byte_ok [OF less.prems(1)] less.prems(2) enc by auto
    have byte: "unat ((word_of_nat ?v :: u8) AND 127) = ?v" "(word_of_nat ?v :: u8) AND 128 = 0"
      using and_128_iff [of "word_of_nat ?v"] mod_less_divisor [of 128 n] by (auto simp: unat_and_127 v)
    have total: "acc + ?v * sh + sh * 128 + sh * 128 * (?r - 1) = acc + sh * n"
    proof -
      obtain r where r: "?r = Suc r" using False by (cases ?r) auto
      have "acc + ?v * sh + sh * 128 + sh * 128 * r = acc + sh * (?v + 128 * Suc r)"
        by (simp add: algebra_simps)
      then show ?thesis using n r by simp
    qed
    have sh: "sh * 128 \<le> u64_max" and acc: "acc + ?v * sh + sh * 128 \<le> u64_max"
      using total less.prems(3) by linarith+
    have "sh * 128 mod 2 ^ 64 = sh * 128" using sh by (simp add: u64_max_def)
    moreover have "\<exists>q'. read_varint_loop read_byte label k' (acc + ?v * sh + sh * 128) (sh * 128) q =
        Inr (acc + sh * n, q') \<and> wf q' \<and> unread q' = rest"
      using less.IH [of "?r - 1" q "acc + ?v * sh + sh * 128" "sh * 128" k', unfolded total]
        False q less.prems enc k by auto
    ultimately show ?thesis
      using q byte mul acc less.prems(3)
      by (simp add: k checked_mul_opt_def checked_add_opt_def Let_def)
  qed
qed

theorem read_varint_encode:
  assumes "wf p" and "unread p = encode_varint n @ rest" and "n \<le> u64_max"
  shows "\<exists>q. read_varint read_byte label p = Inr (n, q) \<and> wf q \<and> unread q = rest"
  using read_varint_loop_encode [OF assms(1,2), of 0 1] assms(3) length_encode_varint [OF assms(3)]
  by (simp add: read_varint_def)

text \<open>
  The encoding is canonical: whatever is read is the encoding of the value, so no two byte
  strings decode to the same number.
\<close>

lemma read_varint_loop_canonical:
  assumes "read_varint_loop read_byte label k acc sh p = Inr (n, q)"
    and "wf p" and "sh * 128 ^ k = 2 ^ 70" and "k \<le> 10"
  shows "\<exists>m. n = acc + sh * m \<and> unread p = encode_varint m @ unread q \<and> wf q"
  using assms
proof (induction k arbitrary: acc sh p)
  case 0
  then show ?case by simp
next
  case (Suc k)
  from Suc.prems(1) obtain b p' where b: "read_byte p = Inr (b, p')"
    by (auto simp: result_iff)
  have p': "wf p'" "unread p = b # unread p'"
    using read_byte_Inr [OF Suc.prems(2) b] by auto
  let ?v = "unat b mod 128"
  show ?case
  proof (cases "b AND 128 = 0")
    case False
    with Suc.prems(1) b have n: "n = acc + ?v * sh" "q = p'"
      by (auto simp: result_iff unat_and_127 checked_mul_opt_def checked_add_opt_def ok_or_def
          split: option.splits if_splits)
    have "128 \<le> unat b" using False and_128_iff [of b] by simp
    then have "128 + ?v = unat b" using unat_u8_lt [of b] by (simp add: le_mod_geq)
    then have "128 OR word_of_nat ?v = b"
      using unat_or_128 [of ?v] by (metis mod_less_divisor word_unat_eq_iff zero_less_numeral)
    then have "encode_varint ?v = [b]"
      by (subst encode_varint.simps) simp
    with n p' show ?thesis by (intro exI [of _ ?v]) (simp add: mult.commute)
  next
    case True
    then have small: "unat b < 128" using and_128_iff [of b] by simp
    obtain k' where k: "k = Suc k'"
      using Suc.prems(1) b True by (cases k) (auto simp: result_iff Let_def)
    have "sh * 128 < 2 ^ 64"
    proof -
      have "sh * 128 * 128 ^ k = 2 ^ 70" using Suc.prems(3) by simp
      then have "sh * 128 * 128 \<le> 2 ^ 70"
        using k by (metis mult_le_mono2 one_le_numeral one_le_power power_Suc mult.assoc mult.right_neutral)
      then show ?thesis by simp
    qed
    then have "sh * 128 mod 2 ^ 64 = sh * 128" by simp
    then have "read_varint_loop read_byte label k (acc + ?v * sh + sh * 128) (sh * 128) p' = Inr (n, q)"
      using Suc.prems(1) b True
      by (auto simp: result_iff unat_and_127 checked_mul_opt_def checked_add_opt_def ok_or_def Let_def
          split: option.splits if_splits)
    from Suc.IH [OF this p'(1)] Suc.prems(3,4) obtain m where
      m: "n = acc + ?v * sh + sh * 128 + sh * 128 * m" "unread p' = encode_varint m @ unread q" "wf q"
      by auto
    let ?m = "unat b + 128 * (m + 1)"
    have split: "(x + 128 * j) div 128 = j" "(x + 128 * j) mod 128 = x" if "x < 128" for x j :: nat
      using that by simp_all
    have "?m div 128 = Suc m" "?m mod 128 = unat b"
      using split [OF small, of "m + 1"] by simp_all
    then have "encode_varint ?m = word_of_nat (unat b) # encode_varint m"
      by (subst encode_varint.simps) (simp add: Let_def)
    then have "encode_varint ?m = b # encode_varint m" by simp
    with m p' small show ?thesis by (intro exI [of _ ?m]) (simp add: algebra_simps)
  qed
qed

theorem read_varint_canonical:
  assumes "read_varint read_byte label p = Inr (n, q)" and "wf p"
  shows "unread p = encode_varint n @ unread q" and "wf q"
  using read_varint_loop_canonical [of label varint_max_len 0 1 p n q] assms
  by (auto simp: read_varint_def varint_max_len_def)

end

section \<open>Progress\<close>

text \<open>A bounded source moves forward with every byte it gives out.\<close>

locale advancing_source =
  fixes read_byte :: "'p \<Rightarrow> (u8 \<times> 'p) result"
    and pos :: "'p \<Rightarrow> nat"
    and limit :: "'p \<Rightarrow> nat"
  assumes read_byte_advances: "read_byte p = Inr (b, q) \<Longrightarrow>
      pos p < pos q \<and> limit q = limit p \<and> pos q \<le> limit q"
begin

lemma read_varint_loop_advances:
  "read_varint_loop read_byte label k acc sh p = Inr (n, q) \<Longrightarrow>
    pos p < pos q \<and> limit q = limit p \<and> pos q \<le> limit q"
proof (induction k arbitrary: acc sh p)
  case 0
  then show ?case by simp
next
  case (Suc k)
  from Suc.prems obtain b p' where b: "read_byte p = Inr (b, p')"
    by (auto simp: result_iff)
  note step = read_byte_advances [OF b]
  show ?case
  proof (cases "b AND 128 = 0")
    case False
    with Suc.prems b have "q = p'" by (auto simp: result_iff)
    with step show ?thesis by simp
  next
    case True
    with Suc.prems b obtain acc' sh' where
      "read_varint_loop read_byte label k acc' sh' p' = Inr (n, q)"
      by (auto simp: result_iff Let_def)
    from Suc.IH [OF this] step show ?thesis by auto
  qed
qed

lemma read_varint_advances:
  "read_varint read_byte label p = Inr (n, q) \<Longrightarrow> pos p < pos q \<and> limit q = limit p \<and> pos q \<le> limit q"
  unfolding read_varint_def by (rule read_varint_loop_advances)

end

end
