(* ===== verification/Ups.thy ===== *)
theory Ups
  imports Handlers Varint
begin

text \<open>
  The UPS format, \<open>rom-weaver-patches/src/ups.rs\<close>: parser, apply (serial and through the
  worker pool), validate, and create (streaming scan and parallel chunk scan).  A UPS patch
  stores the XOR of source and target, so it applies in both directions.
\<close>

section \<open>Data\<close>

record ups_change =
  uc_offset :: nat
  uc_xor :: bytes

record parsed_ups =
  ups_source_size :: nat
  ups_target_size :: nat
  ups_source_checksum :: u32
  ups_target_checksum :: u32
  ups_patch_checksum :: u32
  ups_changes :: "ups_change list"

record created_ups =
  cups_bytes :: bytes
  cups_record_count :: nat

definition UPS_MAGIC :: bytes where
  "UPS_MAGIC = [0x55, 0x50, 0x53, 0x31]"

definition UPS_FOOTER_SIZE :: nat where
  "UPS_FOOTER_SIZE = 12"

definition UPS_IO_BUFFER_SIZE :: nat where
  "UPS_IO_BUFFER_SIZE = 65536"

definition UPS_SCAN_CHUNK_BYTES :: nat where
  "UPS_SCAN_CHUNK_BYTES = 4194304"

section \<open>The parser\<close>

record ups_parser =
  up_reader :: bytes
  up_offset :: nat
  up_end :: nat

definition ups_parser_new :: "bytes \<Rightarrow> nat \<Rightarrow> ups_parser" where
  "ups_parser_new rdr stop = \<lparr>up_reader = rdr, up_offset = 0, up_end = stop\<rparr>"

definition ups_is_at_end :: "ups_parser \<Rightarrow> bool" where
  "ups_is_at_end p \<longleftrightarrow> up_offset p = up_end p"

definition ups_read_exact :: "ups_parser \<Rightarrow> nat \<Rightarrow> (bytes \<times> ups_parser) result" where
  "ups_read_exact p len =
     and_then (ok_or (checked_add_opt (up_offset p) len) (invalid ''UPS parser offset overflowed'')) (\<lambda>next.
     if next > up_end p
     then invalid ''UPS patch ended unexpectedly while reading record data''
     else if len > length (up_reader p) then Err (Io UnexpectedEof)
     else Inr (take len (up_reader p), p\<lparr>up_reader := drop len (up_reader p), up_offset := next\<rparr>))"

definition ups_read_u8 :: "ups_parser \<Rightarrow> (u8 \<times> ups_parser) result" where
  "ups_read_u8 = read_byte_with ups_read_exact"

definition ups_read_varint :: "ups_parser \<Rightarrow> (nat \<times> ups_parser) result" where
  "ups_read_varint = read_varint ups_read_u8 ''UPS''"

definition ups_unread :: "ups_parser \<Rightarrow> bytes" where
  "ups_unread p = take (up_end p - up_offset p) (up_reader p)"

definition ups_wf :: "ups_parser \<Rightarrow> bool" where
  "ups_wf p \<longleftrightarrow> up_offset p \<le> up_end p \<and> up_end p \<le> u64_max \<and>
     up_end p - up_offset p \<le> length (up_reader p)"

text \<open>Every successful read moves the offset forward, inside the bounds.\<close>

lemma ups_read_exact_progress:
  assumes "ups_read_exact p n = Inr (bs, q)"
  shows "up_offset q = up_offset p + n" and "up_end q = up_end p" and "up_offset q \<le> up_end q"
  using assms
  by (auto simp: ups_read_exact_def result_iff checked_add_opt_def ok_or_def split: if_splits option.splits)

lemma ups_read_u8_progress:
  assumes "ups_read_u8 p = Inr (b, q)"
  shows "up_offset q = Suc (up_offset p)" and "up_end q = up_end p" and "up_offset q \<le> up_end q"
  using assms ups_read_exact_progress [of p 1]
  by (auto simp: ups_read_u8_def read_byte_with_def result_iff)

interpretation ups_advance: advancing_source ups_read_u8 up_offset up_end
  by unfold_locales (use ups_read_u8_progress in fastforce)

lemma ups_read_varint_progress:
  assumes "ups_read_varint p = Inr (n, q)"
  shows "up_offset p < up_offset q" and "up_end q = up_end p" and "up_offset q \<le> up_end q"
  using assms ups_advance.read_varint_advances [of "''UPS''" p n q] by (simp_all add: ups_read_varint_def)

text \<open>The bytes of a change up to its zero terminator.\<close>

function ups_read_xor :: "ups_parser \<Rightarrow> (bytes \<times> ups_parser) result" where
  "ups_read_xor p =
     and_then (ups_read_u8 p) (\<lambda>(b, q).
       if b = 0 then Inr ([], q)
       else and_then (ups_read_xor q) (\<lambda>(bs, r). Inr (b # bs, r)))"
  by pat_completeness auto
termination
proof (relation "measure (\<lambda>p. up_end p - up_offset p)", goal_cases)
  case (2 p b_q b q)
  from ups_read_u8_progress [of p b q] 2 show ?case by auto
qed simp

declare ups_read_xor.simps [simp del]

lemma ups_read_xor_progress:
  "ups_read_xor p = Inr (bs, q) \<Longrightarrow> up_offset p < up_offset q \<and> up_end q = up_end p \<and> up_offset q \<le> up_end q"
proof (induction p arbitrary: bs rule: ups_read_xor.induct)
  case (1 p)
  from "1.prems" obtain b p' where b: "ups_read_u8 p = Inr (b, p')"
    by (subst (asm) ups_read_xor.simps) (auto simp: result_iff)
  note step = ups_read_u8_progress [OF b]
  show ?case
  proof (cases "b = 0")
    case True
    with "1.prems" b have "q = p'" by (subst (asm) ups_read_xor.simps) simp
    with step show ?thesis by simp
  next
    case False
    with "1.prems" b obtain bs' where rest: "ups_read_xor p' = Inr (bs', q)"
      by (subst (asm) ups_read_xor.simps) (auto simp: result_iff)
    from "1.IH" [OF b refl False rest] step show ?thesis by auto
  qed
qed

function ups_read_changes :: "ups_parser \<Rightarrow> nat \<Rightarrow> ups_change list result" where
  "ups_read_changes p next_offset =
     (if ups_is_at_end p then Inr []
      else
        and_then (ups_read_varint p) (\<lambda>(delta, p1).
        and_then (checked_add next_offset delta ''UPS record offset'') (\<lambda>offset.
        and_then (ups_read_xor p1) (\<lambda>(xor_bytes, p2).
        and_then (checked_add offset (length xor_bytes) ''UPS record end'') (\<lambda>stop.
        and_then (checked_add stop 1 ''UPS record separator'') (\<lambda>next_offset'.
        and_then (ups_read_changes p2 next_offset') (\<lambda>changes.
        Inr (\<lparr>uc_offset = offset, uc_xor = xor_bytes\<rparr> # changes))))))))"
  by pat_completeness auto
termination
proof (relation "measure (\<lambda>(p, n). up_end p - up_offset p)", goal_cases)
  case (2 p n delta_p1 delta p1 offset xor_p2 xor_bytes p2 stop next')
  from ups_read_varint_progress [of p delta p1] ups_read_xor_progress [of p1 xor_bytes p2] 2
  show ?case by auto
qed simp

declare ups_read_changes.simps [simp del]

definition parse_ups_file :: "(bytes \<Rightarrow> u32) \<Rightarrow> bytes \<Rightarrow> bool \<Rightarrow> parsed_ups result" where
  "parse_ups_file crc32 patch validate_patch_checksum =
     (let len = length patch
      in if len < length UPS_MAGIC + UPS_FOOTER_SIZE
         then invalid ''UPS patch is too small to contain a valid header and footer''
         else
           let footer_offset = len - UPS_FOOTER_SIZE;
               parser = ups_parser_new patch footer_offset
           in and_then (ups_read_exact parser (length UPS_MAGIC)) (\<lambda>(magic, parser).
              if magic \<noteq> UPS_MAGIC then coded ''UPS_HEADER_INVALID'' ''Patch header invalid'' []
              else
              and_then (ups_read_varint parser) (\<lambda>(src_size, parser).
              and_then (ups_read_varint parser) (\<lambda>(tgt_size, parser).
              and_then (ups_read_changes parser 0) (\<lambda>changes.
              and_then (read_footer patch footer_offset UPS_FOOTER_SIZE) (\<lambda>footer.
              let source_checksum = word_of_nat (from_le (segment footer 0 4));
                  target_checksum = word_of_nat (from_le (segment footer 4 4));
                  patch_checksum = word_of_nat (from_le (segment footer 8 4))
              in and_then
                   (if validate_patch_checksum
                    then and_then (crc32_prefix crc32 patch (len - 4) UPS_IO_BUFFER_SIZE) (\<lambda>actual.
                           if actual \<noteq> patch_checksum
                           then coded ''patch.file_checksum_invalid''
                                  ''Patch checksum invalid; expected: {}, Actual: {}''
                                  [Hex (unat patch_checksum), Hex (unat actual)]
                           else Inr ())
                    else Inr ())
                   (\<lambda>_. Inr \<lparr>ups_source_size = src_size, ups_target_size = tgt_size,
                         ups_source_checksum = source_checksum, ups_target_checksum = target_checksum,
                         ups_patch_checksum = patch_checksum, ups_changes = changes\<rparr>)))))))"

section \<open>Apply\<close>

definition ups_resolve_apply_target ::
  "parsed_ups \<Rightarrow> nat \<Rightarrow> u32 \<Rightarrow> bool \<Rightarrow> (nat \<times> u32) result" where
  "ups_resolve_apply_target patch input_len input_checksum validate_checksums =
     (let matches_source = (input_len = ups_source_size patch \<and> input_checksum = ups_source_checksum patch);
          matches_target = (input_len = ups_target_size patch \<and> input_checksum = ups_target_checksum patch)
      in if matches_source then Inr (ups_target_size patch, ups_target_checksum patch)
         else if matches_target then Inr (ups_source_size patch, ups_source_checksum patch)
         else if \<not> validate_checksums \<and> input_len = ups_source_size patch
         then Inr (ups_target_size patch, ups_target_checksum patch)
         else if \<not> validate_checksums \<and> input_len = ups_target_size patch
         then Inr (ups_source_size patch, ups_source_checksum patch)
         else if \<not> validate_checksums \<and> ups_source_size patch = ups_target_size patch
         then Inr (ups_target_size patch, ups_target_checksum patch)
         else coded ''patch.checksum_mismatch''
           ''UPS input validation failed; expected source size/checksum {} / {} or target size/checksum {} / {}, got {} / {}''
           [Num (ups_source_size patch), Hex (unat (ups_source_checksum patch)),
            Num (ups_target_size patch), Hex (unat (ups_target_checksum patch)),
            Num input_len, Hex (unat input_checksum)])"

definition ups_check_change :: "nat \<Rightarrow> ups_change \<Rightarrow> unit result" where
  "ups_check_change working_size change =
     and_then (checked_add (uc_offset change) (length (uc_xor change)) ''UPS change end'') (\<lambda>change_end.
     if change_end > working_size
     then invalid ''UPS change exceeds declared patch file bounds''
     else Inr ())"

definition validate_ups_change_ranges :: "parsed_ups \<Rightarrow> unit result" where
  "validate_ups_change_ranges patch =
     (let working_size = max (ups_source_size patch) (ups_target_size patch)
      in fold_result (\<lambda>change _. ups_check_change working_size change) (ups_changes patch) ())"

text \<open>
  One buffer of a change: the source bytes, zero past the end of the input, XORed and written
  at the same offset of the output.
\<close>

definition ups_apply_buffer ::
  "bytes \<Rightarrow> ups_change \<Rightarrow> nat \<Rightarrow> nat \<Rightarrow> bytes \<Rightarrow> bytes result" where
  "ups_apply_buffer input change xor_cursor n out =
     (let write_offset = uc_offset change + xor_cursor;
          readable = (if write_offset < length input then min (length input - write_offset) n else 0)
      in and_then (if 0 < readable then seek_read_exact input write_offset readable else Inr []) (\<lambda>source.
         let buffer = source @ replicate (n - readable) 0;
             xored = map2 (XOR) buffer (segment (uc_xor change) xor_cursor n)
         in and_then (checked_add write_offset n ''UPS output offset'') (\<lambda>_.
            Inr (write_at write_offset xored out))))"

definition ups_apply_changes_from_input ::
  "parsed_ups \<Rightarrow> bytes \<Rightarrow> nat \<Rightarrow> bytes \<Rightarrow> bytes result" where
  "ups_apply_changes_from_input patch input output_len out =
     fold_result
       (\<lambda>change out.
          and_then (ups_check_change output_len change) (\<lambda>_.
          chunk_loop UPS_IO_BUFFER_SIZE (ups_apply_buffer input change) 0 (length (uc_xor change)) out))
       (ups_changes patch) out"

definition prepare_ups_write ::
  "bytes \<Rightarrow> nat \<Rightarrow> ups_change \<Rightarrow> nat \<Rightarrow> nat \<Rightarrow> prepared_write result" where
  "prepare_ups_write source output_len change start stop =
     and_then (ups_check_change output_len change) (\<lambda>_.
     and_then (checked_add (uc_offset change) start ''UPS output offset'') (\<lambda>offset.
     let n = stop - start;
         readable = (if offset < length source then min (length source - offset) n else 0)
     in and_then (if 0 < readable then read_exact_at source offset readable else Inr []) (\<lambda>bytes.
        Inr \<lparr>pw_offset = offset,
             pw_data = map2 (XOR) (bytes @ replicate (n - readable) 0) (segment (uc_xor change) start n)\<rparr>)))"

definition apply_ups_writes_parallel ::
  "parsed_ups \<Rightarrow> bytes \<Rightarrow> nat \<Rightarrow> nat \<Rightarrow> bytes \<Rightarrow> bytes result" where
  "apply_ups_writes_parallel patch source output_len pool out =
     apply_batched_writes pool (\<lambda>change. length (uc_xor change)) (prepare_ups_write source output_len)
       (ups_changes patch) out"

definition ups_apply ::
  "(bytes \<Rightarrow> u32) \<Rightarrow> op_context \<Rightarrow> apply_request \<Rightarrow> (bytes \<times> report) result" where
  "ups_apply crc32 ctx request =
     and_then (require_single_patch_file (ar_patches request) ''UPS'') (\<lambda>patch_file.
     let scopes = patch_check_scopes ctx
     in and_then (parse_ups_file crc32 (file_bytes patch_file) (scope_patch_integrity scopes)) (\<lambda>patch.
     let input = file_bytes (ar_input request); input_len = length input
     in and_then (crc32_path_cached crc32 (ar_input request) ctx) (\<lambda>input_checksum.
     and_then (ups_resolve_apply_target patch input_len input_checksum (scope_source scopes))
       (\<lambda>(output_size, output_checksum).
     let working_size = max (ups_source_size patch) (ups_target_size patch);
         out = set_len working_size input
     in and_then
          (run_with_optional_pool ctx (parallel_per_record_capability (length (ups_changes patch))) True
             (\<lambda>pool. Inr (Some pool, out))
             (and_then (ups_apply_changes_from_input patch input working_size out) (\<lambda>out. Inr (None, out))))
          (\<lambda>(execution, prepared, out).
     and_then
       (case prepared of
          Some pool \<Rightarrow> apply_ups_writes_parallel patch input working_size pool out
        | None \<Rightarrow> Inr out) (\<lambda>out.
     let out = set_len output_size out
     in and_then
          (if scope_target scopes
           then and_then (crc32_path_cached crc32 \<lparr>file_path = ar_output request, file_bytes = out\<rparr> ctx)
                  (\<lambda>actual.
                     if actual \<noteq> output_checksum
                     then coded ''patch.checksum_mismatch''
                            ''Output checksum invalid; expected: {}, Actual: {}''
                            [Hex (unat output_checksum), Hex (unat actual)]
                     else Inr ())
           else Inr ())
          (\<lambda>_. Inr (out, patch_apply_report ''UPS'' (length (ups_changes patch))
                       (scope_source scopes \<and> scope_target scopes) execution))))))))"

definition ups_validate ::
  "(bytes \<Rightarrow> u32) \<Rightarrow> op_context \<Rightarrow> apply_request \<Rightarrow> report result" where
  "ups_validate crc32 ctx request =
     and_then (require_single_patch_file (ar_patches request) ''UPS'') (\<lambda>patch_file.
     let scopes = patch_check_scopes ctx
     in and_then (parse_ups_file crc32 (file_bytes patch_file) (scope_patch_integrity scopes)) (\<lambda>patch.
     and_then (crc32_path_cached crc32 (ar_input request) ctx) (\<lambda>input_checksum.
     and_then (ups_resolve_apply_target patch (file_len (ar_input request)) input_checksum (scope_source scopes))
       (\<lambda>(output_size, _).
     and_then (validate_ups_change_ranges patch) (\<lambda>_.
     Inr (patch_success_report ''UPS'' ''validate''
       [Msg ''validated {} patch source and {} record(s); output would be {} byte(s), target checksum deferred to apply''
          [Str ''UPS'', Num (length (ups_changes patch)), Num output_size]]
       (Some (single_thread_execution ctx))))))))"

definition ups_parse :: "(bytes \<Rightarrow> u32) \<Rightarrow> op_context \<Rightarrow> stored_file \<Rightarrow> report result" where
  "ups_parse crc32 ctx patch_file =
     and_then (parse_ups_file crc32 (file_bytes patch_file) (scope_patch_integrity (patch_check_scopes ctx)))
       (\<lambda>patch. Inr (byuu_parse_report ''UPS'' (length (ups_changes patch)) (ups_source_size patch)
          (ups_target_size patch) (ups_source_checksum patch) (ups_target_checksum patch)
          (ups_patch_checksum patch)))"

section \<open>Create\<close>

text \<open>One byte of the scan; the state is \<open>(changes, pending_start, pending_xor)\<close>.\<close>

type_synonym ups_scan = "ups_change list \<times> nat option \<times> bytes"

definition ups_scan_byte :: "string \<Rightarrow> u8 \<Rightarrow> u8 \<Rightarrow> nat \<Rightarrow> ups_scan \<Rightarrow> ups_scan result" where
  "ups_scan_byte label source_byte target_byte offset st =
     (let (changes, pending_start, pending_xor) = st;
          st' =
            (if source_byte \<noteq> target_byte
             then (changes, Some (case pending_start of None \<Rightarrow> offset | Some s \<Rightarrow> s),
                   pending_xor @ [source_byte XOR target_byte])
             else if pending_xor \<noteq> []
             then (changes @ [\<lparr>uc_offset = the pending_start, uc_xor = pending_xor\<rparr>], None, [])
             else (changes, pending_start, pending_xor))
      in and_then (checked_add offset 1 label) (\<lambda>_. Inr st'))"

definition ups_scan_finish :: "ups_scan \<Rightarrow> ups_change list" where
  "ups_scan_finish st =
     (let (changes, pending_start, pending_xor) = st
      in if pending_xor \<noteq> []
         then changes @ [\<lparr>uc_offset = the pending_start, uc_xor = pending_xor\<rparr>]
         else changes)"

text \<open>
  One chunk of the parallel scan, over \<open>(source reader, target reader, scan)\<close>: both files
  are read through one buffer, zero-filled past the end of the shorter one.
\<close>

definition ups_chunk_buffer ::
  "bytes \<Rightarrow> bytes \<Rightarrow> nat \<Rightarrow> nat \<Rightarrow> bytes \<times> bytes \<times> ups_scan \<Rightarrow> (bytes \<times> bytes \<times> ups_scan) result" where
  "ups_chunk_buffer source target absolute n st =
     (let (source_reader, target_reader, scan) = st;
          source_n = (if length source \<le> absolute then 0 else min (length source - absolute) n);
          target_n = (if length target \<le> absolute then 0 else min (length target - absolute) n)
      in and_then (if 0 < source_n then reader_read_exact source_reader source_n else Inr ([], source_reader))
           (\<lambda>(source_bytes, source_reader).
         and_then (if 0 < target_n then reader_read_exact target_reader target_n else Inr ([], target_reader))
           (\<lambda>(target_bytes, target_reader).
         let source_buffer = source_bytes @ replicate (n - source_n) 0;
             target_buffer = target_bytes @ replicate (n - target_n) 0
         in and_then
              (fold_result
                 (\<lambda>index. ups_scan_byte ''UPS chunk scan offset'' (source_buffer ! index) (target_buffer ! index)
                            (absolute + index))
                 [0..<n] scan)
              (\<lambda>scan. Inr (source_reader, target_reader, scan)))))"

definition collect_ups_chunk_changes :: "bytes \<Rightarrow> bytes \<Rightarrow> nat \<Rightarrow> nat \<Rightarrow> ups_change list result" where
  "collect_ups_chunk_changes source target start stop =
     (let source_reader = (if start < length source then drop start source else source);
          target_reader = (if start < length target then drop start target else target)
      in and_then
           (chunk_loop UPS_IO_BUFFER_SIZE (ups_chunk_buffer source target) start stop
              (source_reader, target_reader, [], None, []))
           (\<lambda>(_, _, scan). Inr (ups_scan_finish scan)))"

text \<open>The inline merge of adjacent changes: \<open>is_some_and\<close> never fails.\<close>

definition ups_merge_change :: "ups_change \<Rightarrow> ups_change list \<Rightarrow> ups_change list" where
  "ups_merge_change change merged =
     (if merged \<noteq> [] \<and>
         (case checked_add_opt (uc_offset (last merged)) (length (uc_xor (last merged))) of
            Some stop \<Rightarrow> stop = uc_offset change | None \<Rightarrow> False)
      then butlast merged @ [(last merged)\<lparr>uc_xor := uc_xor (last merged) @ uc_xor change\<rparr>]
      else merged @ [change])"

definition collect_ups_changes_parallel :: "bytes \<Rightarrow> bytes \<Rightarrow> ups_change list result" where
  "collect_ups_changes_parallel source target =
     (let scan_size = max (length source) (length target)
      in if scan_size = 0 then Inr []
         else
           let chunk_ranges =
                 map (\<lambda>k. let start = k * UPS_SCAN_CHUNK_BYTES
                          in (start, min (saturating_add start UPS_SCAN_CHUNK_BYTES) scan_size))
                   [0..<div_ceil scan_size UPS_SCAN_CHUNK_BYTES];
               per_chunk_changes =
                 map (\<lambda>(start, stop). collect_ups_chunk_changes source target start stop) chunk_ranges
           in fold_result
                (\<lambda>changes merged. and_then changes (\<lambda>changes. Inr (fold ups_merge_change changes merged)))
                per_chunk_changes [])"

definition checked_sub :: "nat \<Rightarrow> nat \<Rightarrow> string \<Rightarrow> nat result" where
  "checked_sub lhs rhs label =
     (if rhs \<le> lhs then Inr (lhs - rhs) else invalid_fmt ''{} underflowed'' [Str label])"

definition ups_offset_to_encode :: "ups_change list \<Rightarrow> nat \<Rightarrow> nat result" where
  "ups_offset_to_encode changes index =
     (if index = 0 then Inr (uc_offset (changes ! index))
      else
        let previous = changes ! (index - 1)
        in and_then (checked_add (uc_offset previous) (length (uc_xor previous)) ''UPS previous record end'')
             (\<lambda>previous_end.
           and_then (checked_add previous_end 1 ''UPS previous record separator'') (\<lambda>previous_next.
           checked_sub (uc_offset (changes ! index)) previous_next ''UPS relative record offset'')))"

definition encode_ups_patch ::
  "(bytes \<Rightarrow> u32) \<Rightarrow> ups_change list \<Rightarrow> nat \<Rightarrow> nat \<Rightarrow> u32 \<Rightarrow> u32 \<Rightarrow> created_ups result" where
  "encode_ups_patch crc32 changes src_size tgt_size source_checksum target_checksum =
     and_then
       (fold_result
          (\<lambda>index bytes.
             and_then (ups_offset_to_encode changes index) (\<lambda>offset_to_encode.
             Inr (push_varint bytes offset_to_encode @ uc_xor (changes ! index) @ [0])))
          [0..<length changes]
          (push_varint (push_varint UPS_MAGIC src_size) tgt_size))
       (\<lambda>bytes.
     let bytes = bytes @ le_bytes 4 (unat source_checksum) @ le_bytes 4 (unat target_checksum);
         patch_checksum = crc32 bytes
     in Inr \<lparr>cups_bytes = bytes @ le_bytes 4 (unat patch_checksum), cups_record_count = length changes\<rparr>)"

definition create_ups_patch_parallel ::
  "(bytes \<Rightarrow> u32) \<Rightarrow> op_context \<Rightarrow> stored_file \<Rightarrow> stored_file \<Rightarrow> created_ups result" where
  "create_ups_patch_parallel crc32 ctx source target =
     and_then (crc32_path_cached crc32 source ctx) (\<lambda>source_checksum.
     and_then (crc32_path_cached crc32 target ctx) (\<lambda>target_checksum.
     and_then (collect_ups_changes_parallel (file_bytes source) (file_bytes target)) (\<lambda>changes.
     encode_ups_patch crc32 changes (file_len source) (file_len target) source_checksum target_checksum)))"

text \<open>The streaming scan hashes both files while it compares them.\<close>

record ups_stream =
  us_source :: bytes
  us_target :: bytes
  us_source_hasher :: bytes
  us_target_hasher :: bytes
  us_source_remaining :: nat
  us_target_remaining :: nat
  us_scan :: ups_scan

definition ups_stream_buffer :: "nat \<Rightarrow> nat \<Rightarrow> ups_stream \<Rightarrow> ups_stream result" where
  "ups_stream_buffer offset n st =
     (let source_n = min (us_source_remaining st) n;
          target_n = min (us_target_remaining st) n
      in and_then (if 0 < source_n then reader_read_exact (us_source st) source_n else Inr ([], us_source st))
           (\<lambda>(source_buffer, source_reader).
         and_then (if 0 < target_n then reader_read_exact (us_target st) target_n else Inr ([], us_target st))
           (\<lambda>(target_buffer, target_reader).
         and_then
           (fold_result
              (\<lambda>index. ups_scan_byte ''UPS scan offset''
                 (if index < source_n then source_buffer ! index else 0)
                 (if index < target_n then target_buffer ! index else 0) (offset + index))
              [0..<n] (us_scan st))
           (\<lambda>scan. Inr \<lparr>us_source = source_reader, us_target = target_reader,
              us_source_hasher = us_source_hasher st @ source_buffer,
              us_target_hasher = us_target_hasher st @ target_buffer,
              us_source_remaining = us_source_remaining st - source_n,
              us_target_remaining = us_target_remaining st - target_n,
              us_scan = scan\<rparr>))))"

definition ups_drain :: "nat \<Rightarrow> nat \<Rightarrow> bytes \<times> bytes \<Rightarrow> (bytes \<times> bytes) result" where
  "ups_drain cursor n st =
     (let (rdr, hasher) = st
      in and_then (reader_read_exact rdr n) (\<lambda>(buffer, rdr). Inr (rdr, hasher @ buffer)))"

definition create_ups_patch_streaming ::
  "(bytes \<Rightarrow> u32) \<Rightarrow> bytes \<Rightarrow> bytes \<Rightarrow> created_ups result" where
  "create_ups_patch_streaming crc32 source target =
     (let scan_size = max (length source) (length target)
      in and_then
           (chunk_loop UPS_IO_BUFFER_SIZE ups_stream_buffer 0 scan_size
              \<lparr>us_source = source, us_target = target, us_source_hasher = [], us_target_hasher = [],
               us_source_remaining = length source, us_target_remaining = length target,
               us_scan = ([], None, [])\<rparr>) (\<lambda>st.
         and_then (chunk_loop UPS_IO_BUFFER_SIZE ups_drain 0 (us_source_remaining st)
                     (us_source st, us_source_hasher st)) (\<lambda>(_, source_hasher).
         and_then (chunk_loop UPS_IO_BUFFER_SIZE ups_drain 0 (us_target_remaining st)
                     (us_target st, us_target_hasher st)) (\<lambda>(_, target_hasher).
         encode_ups_patch crc32 (ups_scan_finish (us_scan st)) (length source) (length target)
           (crc32 source_hasher) (crc32 target_hasher)))))"

definition create_ups_patch ::
  "(bytes \<Rightarrow> u32) \<Rightarrow> op_context \<Rightarrow> stored_file \<Rightarrow> stored_file \<Rightarrow> bool \<Rightarrow> created_ups result" where
  "create_ups_patch crc32 ctx source target use_parallel_scan =
     (if use_parallel_scan then create_ups_patch_parallel crc32 ctx source target
      else create_ups_patch_streaming crc32 (file_bytes source) (file_bytes target))"

definition ups_create ::
  "(bytes \<Rightarrow> u32) \<Rightarrow> op_context \<Rightarrow> create_request \<Rightarrow> (bytes \<times> report) result" where
  "ups_create crc32 ctx request =
     (let scan_size = max (file_len (cr_original request)) (file_len (cr_modified request))
      in and_then (build_pool ctx (parallel_chunked_capability scan_size UPS_SCAN_CHUNK_BYTES)) (\<lambda>(execution, pool).
         and_then (create_ups_patch crc32 ctx (cr_original request) (cr_modified request)
                     (used_parallelism execution)) (\<lambda>created.
         Inr (cups_bytes created, patch_create_report ''UPS'' (cups_record_count created) execution))))"

end
