(* ===== verification/Ups_Correct.thy ===== *)
theory Ups_Correct
  imports Ups
begin

text \<open>
  UPS is correct: both create paths compute the one encoding of the byte differences, the
  parser reads it back, and applying it, serially or through the pool, turns the source into
  the target and the target back into the source.
\<close>

section \<open>The differences of two files\<close>

definition ups_cell :: "bytes \<Rightarrow> bytes \<Rightarrow> nat \<Rightarrow> u8 option" where
  "ups_cell s t i =
     (if byte_at s i \<noteq> byte_at t i then Some (byte_at s i XOR byte_at t i) else None)"

definition ups_of_run :: "u8 run \<Rightarrow> ups_change" where
  "ups_of_run r = \<lparr>uc_offset = fst r, uc_xor = snd r\<rparr>"

definition ups_view :: "ups_change \<Rightarrow> u8 run" where
  "ups_view c = (uc_offset c, uc_xor c)"

definition ups_diff :: "bytes \<Rightarrow> bytes \<Rightarrow> ups_change list" where
  "ups_diff s t = map ups_of_run (diff_scan (ups_cell s t) 0 (max (length s) (length t)))"

lemma ups_view_of_run [simp]: "ups_view (ups_of_run r) = r"
  by (simp add: ups_view_def ups_of_run_def)

lemma ups_of_run_view [simp]: "ups_of_run (ups_view c) = c"
  by (simp add: ups_view_def ups_of_run_def)

lemma ups_of_run_sel [simp]: "uc_offset (ups_of_run r) = fst r" "uc_xor (ups_of_run r) = snd r"
  by (simp_all add: ups_of_run_def)

section \<open>Both scans find the differences\<close>

lemma ups_scan_byte_step:
  assumes "Suc i \<le> u64_max"
  shows "ups_scan_byte label (byte_at s i) (byte_at t i) i (lift_scan ups_of_run st) =
    Inr (lift_scan ups_of_run (diff_step (ups_cell s t) i st))"
proof -
  obtain changes pstart pxor where "lift_scan ups_of_run st = (changes, pstart, pxor)"
    by (cases "lift_scan ups_of_run st")
  then show ?thesis
    using assms
    by (simp add: ups_scan_byte_def diff_step_lift ups_cell_def ups_of_run_def Let_def)
qed

lemma ups_scan_finish_lift:
  "ups_scan_finish (lift_scan ups_of_run (scan_to cell lo hi)) = map ups_of_run (diff_scan cell lo hi)"
proof -
  obtain changes pstart pxor where "lift_scan ups_of_run (scan_to cell lo hi) = (changes, pstart, pxor)"
    by (cases "lift_scan ups_of_run (scan_to cell lo hi)")
  from lift_scan_finish [OF this] this show ?thesis
    by (auto simp: ups_scan_finish_def ups_of_run_def split: if_splits)
qed

lemma padded_buffer_nth:
  assumes "i < n" and "k = (if length f \<le> off then 0 else min (length f - off) n)"
  shows "(take k (drop off f) @ replicate (n - k) 0) ! i = byte_at f (off + i)"
  using assms by (auto simp: nth_append byte_at_def min_def)

lemma ups_chunk_loop_ok:
  assumes "start \<le> stop" and "stop \<le> u64_max"
  shows "collect_ups_chunk_changes s t start stop =
    Inr (map ups_of_run (diff_scan (ups_cell s t) start stop))"
proof -
  let ?scan = "\<lambda>off. lift_scan ups_of_run (scan_to (ups_cell s t) start off)"
  define I where "I = (\<lambda>off st. start \<le> off \<and> (\<exists>sr tr. st = (sr, tr, ?scan off) \<and>
      (off < length s \<longrightarrow> sr = drop off s) \<and> (off < length t \<longrightarrow> tr = drop off t)))"
  have "\<exists>st. chunk_loop UPS_IO_BUFFER_SIZE (ups_chunk_buffer s t) start stop
      (if start < length s then drop start s else s, if start < length t then drop start t else t, [], None, [])
      = Inr st \<and> I stop st"
  proof (rule chunk_loop_invariant)
    show "0 < UPS_IO_BUFFER_SIZE" by (simp add: UPS_IO_BUFFER_SIZE_def)
    show "I start (if start < length s then drop start s else s, if start < length t then drop start t else t, [], None, [])"
      by (auto simp: I_def)
    show "start \<le> stop" by fact
  next
    fix off n st
    assume I: "I off st" and n: "0 < n" "off + n \<le> stop"
    then obtain sr tr where st: "st = (sr, tr, ?scan off)" and le: "start \<le> off"
      and sr: "off < length s \<longrightarrow> sr = drop off s" and tr: "off < length t \<longrightarrow> tr = drop off t"
      by (auto simp: I_def)
    define sn where "sn = (if length s \<le> off then 0 else min (length s - off) n)"
    define tn where "tn = (if length t \<le> off then 0 else min (length t - off) n)"
    define sr' where "sr' = (if 0 < sn then drop sn sr else sr)"
    define tr' where "tr' = (if 0 < tn then drop tn tr else tr)"
    have s: "(if 0 < sn then reader_read_exact sr sn else Inr ([], sr)) = Inr (take sn (drop off s), sr')"
      using sr by (auto simp: sn_def sr'_def reader_read_exact_def)
    have t: "(if 0 < tn then reader_read_exact tr tn else Inr ([], tr)) = Inr (take tn (drop off t), tr')"
      using tr by (auto simp: tn_def tr'_def reader_read_exact_def)
    have "fold_result (\<lambda>index. ups_scan_byte ''UPS chunk scan offset''
        ((take sn (drop off s) @ replicate (n - sn) 0) ! index)
        ((take tn (drop off t) @ replicate (n - tn) 0) ! index) (off + index)) [0..<n] (?scan off)
      = fold_result (\<lambda>index. ups_scan_byte ''UPS chunk scan offset''
        (byte_at s (off + index)) (byte_at t (off + index)) (off + index)) [0..<n] (?scan off)"
      by (rule fold_result_cong) (simp_all add: padded_buffer_nth [OF _ sn_def] padded_buffer_nth [OF _ tn_def])
    also have "\<dots> = Inr (?scan (off + n))"
      by (rule lift_scan_loop [where step = "\<lambda>i. ups_scan_byte ''UPS chunk scan offset'' (byte_at s i) (byte_at t i) i"])
        (use n le assms in \<open>auto intro!: ups_scan_byte_step\<close>)
    finally have scan: "fold_result (\<lambda>index. ups_scan_byte ''UPS chunk scan offset''
        ((take sn (drop off s) @ replicate (n - sn) 0) ! index)
        ((take tn (drop off t) @ replicate (n - tn) 0) ! index) (off + index)) [0..<n] (?scan off)
      = Inr (?scan (off + n))" .
    have "ups_chunk_buffer s t off n st = Inr (sr', tr', ?scan (off + n))"
      unfolding ups_chunk_buffer_def st Let_def prod.case sn_def [symmetric] tn_def [symmetric] s t
        and_then_simps scan ..
    moreover have "I (off + n) (sr', tr', ?scan (off + n))"
      using sr tr le n by (auto simp: I_def sr'_def tr'_def sn_def tn_def add.commute)
    ultimately show "\<exists>st'. ups_chunk_buffer s t off n st = Inr st' \<and> I (off + n) st'" by blast
  qed
  then show ?thesis
    by (auto simp: collect_ups_chunk_changes_def I_def ups_scan_finish_lift)
qed

text \<open>The inline merge is the merge of adjacent runs.\<close>

definition ups_run_end :: "ups_change \<Rightarrow> nat result" where
  "ups_run_end c = checked_add (uc_offset c) (length (uc_xor c)) ''''"

definition ups_append :: "ups_change \<Rightarrow> ups_change \<Rightarrow> ups_change" where
  "ups_append c d = c\<lparr>uc_xor := uc_xor c @ uc_xor d\<rparr>"

interpretation ups_runs: adjacent_run ups_view uc_offset ups_run_end ups_append
  by unfold_locales (simp_all add: ups_view_def ups_run_end_def ups_append_def run_stop_def)

lemma ups_merge_change_run:
  "merge_run uc_offset ups_run_end ups_append c merged = Inr out \<Longrightarrow> ups_merge_change c merged = out"
  by (auto simp: merge_run_def ups_merge_change_def ups_run_end_def ups_append_def checked_add_opt_def
      result_iff split: if_splits)

lemma ups_merge_list:
  "fold_result (merge_run uc_offset ups_run_end ups_append) cs merged = Inr out \<Longrightarrow>
   fold ups_merge_change cs merged = out"
  by (induction cs arbitrary: merged) (auto simp: result_iff dest: ups_merge_change_run)

lemma ups_merge_chunks:
  assumes "fold_result (\<lambda>runs. fold_result (merge_run uc_offset ups_run_end ups_append) runs) css merged = Inr out"
  shows "fold_result (\<lambda>changes merged. and_then changes (\<lambda>changes. Inr (fold ups_merge_change changes merged)))
    (map Inr css) merged = Inr out"
  using assms by (induction css arbitrary: merged) (auto simp: result_iff dest: ups_merge_list)

lemma collect_ups_changes_parallel_ok:
  assumes "max (length s) (length t) \<le> u64_max"
  shows "collect_ups_changes_parallel s t = Inr (ups_diff s t)"
proof (cases "max (length s) (length t) = 0")
  case True
  then have "ups_diff s t = []"
    by (simp add: ups_diff_def diff_scan_def diff_finish_def)
  with True show ?thesis by (simp add: collect_ups_changes_parallel_def)
next
  case False
  let ?size = "max (length s) (length t)" and ?c = UPS_SCAN_CHUNK_BYTES
  let ?n = "div_ceil ?size ?c"
  define bound where "bound k = min (k * ?c) ?size" for k
  define runs where "runs k = map ups_of_run (diff_scan (ups_cell s t) (bound k) (bound (Suc k)))" for k
  have c: "0 < ?c" by (simp add: UPS_SCAN_CHUNK_BYTES_def)
  have mono: "mono bound" by (rule monoI, unfold bound_def) (intro min.mono mult_le_mono1 order_refl)
  have full: "bound ?n = ?size" unfolding bound_def by (rule min_absorb2 [OF div_ceil_mult_ge [OF c]])
  have chunk: "collect_ups_chunk_changes s t (k * ?c) (min (saturating_add (k * ?c) ?c) ?size) = Inr (runs k)"
    if "k < ?n" for k
  proof -
    have "k * ?c < ?size" using that c by (simp add: div_ceil_less_iff)
    then have start: "k * ?c = bound k" by (simp add: bound_def)
    have stop: "min (saturating_add (k * ?c) ?c) ?size = bound (Suc k)"
      using assms by (auto simp: saturating_add_def bound_def)
    have "bound (Suc k) \<le> u64_max"
      by (rule order_trans [OF _ assms]) (simp add: bound_def)
    then show ?thesis
      unfolding stop runs_def unfolding start by (rule ups_chunk_loop_ok [OF monoD [OF mono le_SucI [OF le_refl]]])
  qed
  have "\<exists>out. merge_adjacent_runs uc_offset ups_run_end ups_append (map runs [0..<?n]) = Inr out \<and>
      map ups_view out = diff_scan (ups_cell s t) 0 (bound ?n)"
    by (rule ups_runs.merge_chunk_scans [OF mono])
      (use assms full in \<open>auto simp: runs_def comp_def bound_def\<close>)
  then obtain out where out: "merge_adjacent_runs uc_offset ups_run_end ups_append (map runs [0..<?n]) = Inr out"
    and view: "map ups_view out = diff_scan (ups_cell s t) 0 ?size"
    unfolding full by blast
  have "out = map ups_of_run (map ups_view out)" by (simp add: comp_def)
  then have "out = ups_diff s t" by (simp only: view ups_diff_def)
  moreover have "map (\<lambda>(start, stop). collect_ups_chunk_changes s t start stop)
      (map (\<lambda>k. (k * ?c, min (saturating_add (k * ?c) ?c) ?size)) [0..<?n]) = map Inr (map runs [0..<?n])"
    using chunk by simp
  ultimately show ?thesis
    unfolding collect_ups_changes_parallel_def Let_def if_not_P [OF False]
    using ups_merge_chunks [OF out [unfolded merge_adjacent_runs_def]] by metis
qed

lemma drop_reader [simp]:
  "reader_read_exact (drop off f) (min (length f - off) n) =
     Inr (take n (drop off f), drop (off + n) f)"
  by (cases "n \<le> length f - off") (auto simp: reader_read_exact_def min_def add.commute)

text \<open>The state of the streaming scan is a function of the offset.\<close>

definition ups_stream_at :: "bytes \<Rightarrow> bytes \<Rightarrow> nat \<Rightarrow> ups_stream" where
  "ups_stream_at s t off =
     \<lparr>us_source = drop off s, us_target = drop off t,
      us_source_hasher = take off s, us_target_hasher = take off t,
      us_source_remaining = length s - off, us_target_remaining = length t - off,
      us_scan = lift_scan ups_of_run (scan_to (ups_cell s t) 0 off)\<rparr>"

lemma guarded_reader:
  "(if 0 < min (length f - off) n then reader_read_exact (drop off f) (min (length f - off) n)
    else Inr ([], drop off f)) = Inr (take n (drop off f), drop (off + n) f)"
  by (cases "off < length f"; cases "n = 0") auto

lemma diff_min: "(a::nat) - (b + min (a - b) n) = a - (b + n)"
  by linarith

lemma ups_stream_buffer_ok:
  assumes "off + n \<le> u64_max"
  shows "ups_stream_buffer off n (ups_stream_at s t off) = Inr (ups_stream_at s t (off + n))"
proof -
  let ?scan = "\<lambda>off. lift_scan ups_of_run (scan_to (ups_cell s t) 0 off)"
  have at: "(if i < min (length f - off) n then take n (drop off f) ! i else 0) = byte_at f (off + i)"
    if "i < n" for f i
    using that by (auto simp: byte_at_def)
  have "fold_result (\<lambda>index. ups_scan_byte ''UPS scan offset''
      (if index < min (length s - off) n then take n (drop off s) ! index else 0)
      (if index < min (length t - off) n then take n (drop off t) ! index else 0) (off + index)) [0..<n] (?scan off)
    = fold_result (\<lambda>index. ups_scan_byte ''UPS scan offset''
      (byte_at s (off + index)) (byte_at t (off + index)) (off + index)) [0..<n] (?scan off)"
    by (rule fold_result_cong) (simp_all only: at set_upt atLeastLessThan_iff)
  also have "\<dots> = Inr (?scan (off + n))"
    by (rule lift_scan_loop [where step = "\<lambda>i. ups_scan_byte ''UPS scan offset'' (byte_at s i) (byte_at t i) i"])
      (use assms in \<open>auto intro!: ups_scan_byte_step\<close>)
  finally have scan: "fold_result (\<lambda>index. ups_scan_byte ''UPS scan offset''
      (if index < min (length s - off) n then take n (drop off s) ! index else 0)
      (if index < min (length t - off) n then take n (drop off t) ! index else 0) (off + index)) [0..<n] (?scan off)
    = Inr (?scan (off + n))" .
  show ?thesis
    unfolding ups_stream_buffer_def Let_def ups_stream_at_def ups_stream.select_convs guarded_reader
      and_then_simps prod.case scan
    by (simp add: take_add diff_min)
qed

lemma create_ups_patch_streaming_ok:
  assumes "max (length s) (length t) \<le> u64_max"
  shows "create_ups_patch_streaming crc32 s t =
    encode_ups_patch crc32 (ups_diff s t) (length s) (length t) (crc32 s) (crc32 t)"
proof -
  let ?size = "max (length s) (length t)"
  have "chunk_loop UPS_IO_BUFFER_SIZE ups_stream_buffer 0 ?size (ups_stream_at s t 0) =
      Inr (ups_stream_at s t ?size)"
    by (rule chunk_loop_states) (use assms in \<open>auto simp: UPS_IO_BUFFER_SIZE_def intro!: ups_stream_buffer_ok\<close>)
  then show ?thesis
    by (simp add: create_ups_patch_streaming_def ups_stream_at_def Let_def ups_scan_finish_lift ups_diff_def)
qed

section \<open>The encoding\<close>

text \<open>The record section from the offset \<open>next_offset\<close> on.\<close>

fun ups_record_bytes :: "nat \<Rightarrow> ups_change list \<Rightarrow> bytes" where
  "ups_record_bytes next_offset [] = []"
| "ups_record_bytes next_offset (c # cs) =
     encode_varint (uc_offset c - next_offset) @ uc_xor c @ [0] @
     ups_record_bytes (uc_offset c + length (uc_xor c) + 1) cs"

text \<open>Changes in order, each past the separator of the one before, with no zero byte.\<close>

fun ups_chained :: "nat \<Rightarrow> ups_change list \<Rightarrow> bool" where
  "ups_chained next_offset [] \<longleftrightarrow> True"
| "ups_chained next_offset (c # cs) \<longleftrightarrow>
     next_offset \<le> uc_offset c \<and> uc_offset c + length (uc_xor c) + 1 \<le> u64_max \<and> 0 \<notin> set (uc_xor c) \<and>
     ups_chained (uc_offset c + length (uc_xor c) + 1) cs"

fun ups_next :: "nat \<Rightarrow> ups_change list \<Rightarrow> nat" where
  "ups_next n [] = n"
| "ups_next n (c # cs) = ups_next (uc_offset c + length (uc_xor c) + 1) cs"

lemma ups_record_bytes_append:
  "ups_record_bytes n (cs @ ds) = ups_record_bytes n cs @ ups_record_bytes (ups_next n cs) ds"
  by (induction cs arbitrary: n) auto

lemma ups_chained_append: "ups_chained n (cs @ ds) \<longleftrightarrow> ups_chained n cs \<and> ups_chained (ups_next n cs) ds"
  by (induction cs arbitrary: n) auto

lemma ups_next_take:
  "0 < k \<Longrightarrow> k \<le> length cs \<Longrightarrow>
   ups_next n (take k cs) = uc_offset (cs ! (k - 1)) + length (uc_xor (cs ! (k - 1))) + 1"
proof (induction cs arbitrary: n k)
  case (Cons c cs)
  show ?case
  proof (cases "k = 1")
    case True
    then show ?thesis by simp
  next
    case False
    with Cons.prems obtain k' where "k = Suc k'" "0 < k'" by (cases k) auto
    with Cons show ?thesis by simp
  qed
qed simp

lemma ups_offset_to_encode_ok:
  assumes "ups_chained 0 cs" and "k < length cs"
  shows "ups_offset_to_encode cs k = Inr (uc_offset (cs ! k) - ups_next 0 (take k cs))"
proof (cases "k = 0")
  case True
  then show ?thesis by (simp add: ups_offset_to_encode_def)
next
  case False
  let ?p = "cs ! (k - 1)"
  have split: "cs = take k cs @ cs ! k # drop (Suc k) cs" using assms(2) by (rule id_take_nth_drop)
  have nxt: "ups_next 0 (take k cs) = uc_offset ?p + length (uc_xor ?p) + 1"
    using False assms(2) by (intro ups_next_take) auto
  have "ups_next 0 (take k cs) \<le> uc_offset (cs ! k) \<and> uc_offset (cs ! k) \<le> u64_max"
    using assms(1) by (subst (asm) split) (simp add: ups_chained_append)
  then show ?thesis
    using False by (simp add: ups_offset_to_encode_def nxt checked_sub_def Let_def)
qed

definition ups_patch_bytes :: "(bytes \<Rightarrow> u32) \<Rightarrow> ups_change list \<Rightarrow> nat \<Rightarrow> nat \<Rightarrow> u32 \<Rightarrow> u32 \<Rightarrow> bytes" where
  "ups_patch_bytes crc32 cs n m sc tc =
     (let body = UPS_MAGIC @ encode_varint n @ encode_varint m @ ups_record_bytes 0 cs @
            le_bytes 4 (unat sc) @ le_bytes 4 (unat tc)
      in body @ le_bytes 4 (unat (crc32 body)))"

theorem encode_ups_patch_ok:
  assumes "ups_chained 0 cs"
  shows "encode_ups_patch crc32 cs n m sc tc =
    Inr \<lparr>cups_bytes = ups_patch_bytes crc32 cs n m sc tc, cups_record_count = length cs\<rparr>"
proof -
  let ?head = "UPS_MAGIC @ encode_varint n @ encode_varint m"
  let ?step = "\<lambda>index bytes. and_then (ups_offset_to_encode cs index) (\<lambda>offset_to_encode.
      Inr (push_varint bytes offset_to_encode @ uc_xor (cs ! index) @ [0]))"
  have "fold_result ?step [0..<k] ?head = Inr (?head @ ups_record_bytes 0 (take k cs))" if "k \<le> length cs" for k
    using that
  proof (induction k)
    case 0
    then show ?case by simp
  next
    case (Suc k)
    then have "k < length cs" by simp
    with Suc ups_offset_to_encode_ok [OF assms this] show ?case
      by (simp add: fold_result_append take_Suc_conv_app_nth ups_record_bytes_append push_varint_def)
  qed
  from this [OF le_refl] show ?thesis
    by (simp add: encode_ups_patch_def ups_patch_bytes_def Let_def push_varint_def)
qed

lemma ups_diff_chained_from:
  assumes "separated rs" and "\<forall>r \<in> set rs. n \<le> fst r \<and> run_stop r \<le> hi" and "Suc hi \<le> u64_max"
    and "\<forall>r \<in> set rs. 0 \<notin> set (snd r)"
  shows "ups_chained n (map ups_of_run rs)"
  using assms
proof (induction rs arbitrary: n)
  case (Cons r rs)
  then have "ups_chained (run_stop r + 1) (map ups_of_run rs)"
    by (intro Cons.IH) (auto simp: separated_Cons Suc_le_eq)
  with Cons.prems show ?case by (auto simp: run_stop_def)
qed simp

lemma ups_diff_chained:
  assumes "Suc (max (length s) (length t)) \<le> u64_max"
  shows "ups_chained 0 (ups_diff s t)"
  unfolding ups_diff_def
proof (rule ups_diff_chained_from)
  let ?rs = "diff_scan (ups_cell s t) 0 (max (length s) (length t))"
  show "separated ?rs" by (simp add: diff_scan_spec)
  show "\<forall>r \<in> set ?rs. 0 \<le> fst r \<and> run_stop r \<le> max (length s) (length t)"
    using diff_scan_spec(4) [OF le0] by blast
  show "Suc (max (length s) (length t)) \<le> u64_max" by fact
  show "\<forall>r \<in> set ?rs. 0 \<notin> set (snd r)"
  proof (intro ballI notI)
    fix r
    assume r: "r \<in> set ?rs" and "0 \<in> set (snd r)"
    then obtain i where "i < length (snd r)" "snd r ! i = 0" by (auto simp: in_set_conv_nth)
    with diff_scan_nth(1) [OF le0 r, of i] show False
      by (simp add: ups_cell_def xor_eq_0_iff split: if_splits)
  qed
qed

section \<open>Parsing it back\<close>

lemma length_ups_unread: "ups_wf p \<Longrightarrow> length (ups_unread p) = up_end p - up_offset p"
  by (simp add: ups_wf_def ups_unread_def)

interpretation ups: exact_reader ups_read_exact ups_unread ups_wf
proof
  fix p n
  assume wf: "ups_wf p" and n: "n \<le> length (ups_unread p)"
  then have n': "n \<le> up_end p - up_offset p" by (simp add: length_ups_unread)
  with wf have "ups_read_exact p n =
      Inr (take n (up_reader p), p\<lparr>up_reader := drop n (up_reader p), up_offset := up_offset p + n\<rparr>)"
    by (auto simp: ups_read_exact_def ups_wf_def checked_add_opt_def)
  then show "\<exists>q. ups_read_exact p n = Inr (take n (ups_unread p), q) \<and> ups_wf q \<and>
      ups_unread q = drop n (ups_unread p)"
    using wf n' by (auto simp: ups_wf_def ups_unread_def drop_take min_absorb1)
next
  fix p n
  assume "ups_wf p" and "length (ups_unread p) < n"
  then show "\<not> is_ok (ups_read_exact p n)"
    by (auto simp: length_ups_unread ups_read_exact_def ups_wf_def checked_add_opt_def invalid_def)
qed

lemma ups_read_u8_ok:
  "ups_wf p \<Longrightarrow> ups_unread p = b # bs \<Longrightarrow> \<exists>q. ups_read_u8 p = Inr (b, q) \<and> ups_wf q \<and> ups_unread q = bs"
  unfolding ups_read_u8_def by (rule ups.read_byte_ok)

lemma ups_read_varint_ok:
  "ups_wf p \<Longrightarrow> ups_unread p = encode_varint n @ rest \<Longrightarrow> n \<le> u64_max \<Longrightarrow>
   \<exists>q. ups_read_varint p = Inr (n, q) \<and> ups_wf q \<and> ups_unread q = rest"
  unfolding ups_read_varint_def ups_read_u8_def by (rule ups.read_varint_encode)

lemma ups_read_xor_ok:
  "ups_wf p \<Longrightarrow> ups_unread p = xs @ 0 # rest \<Longrightarrow> 0 \<notin> set xs \<Longrightarrow>
   \<exists>q. ups_read_xor p = Inr (xs, q) \<and> ups_wf q \<and> ups_unread q = rest"
proof (induction xs arbitrary: p)
  case Nil
  then obtain q where "ups_read_u8 p = Inr (0, q)" "ups_wf q" "ups_unread q = rest"
    using ups_read_u8_ok [of p 0 rest] by auto
  then show ?case by (subst ups_read_xor.simps) simp
next
  case (Cons x xs)
  then obtain q where q: "ups_read_u8 p = Inr (x, q)" "ups_wf q" "ups_unread q = xs @ 0 # rest"
    using ups_read_u8_ok [of p x "xs @ 0 # rest"] by auto
  with Cons obtain r where "ups_read_xor q = Inr (xs, r)" "ups_wf r" "ups_unread r = rest"
    using Cons.IH [of q] by auto
  with q Cons.prems(3) show ?case by (subst ups_read_xor.simps) auto
qed

lemma ups_at_end_iff: "ups_wf p \<Longrightarrow> ups_is_at_end p \<longleftrightarrow> ups_unread p = []"
  by (auto simp: ups_wf_def ups_is_at_end_def ups_unread_def)

lemma ups_read_changes_ok:
  "ups_wf p \<Longrightarrow> ups_unread p = ups_record_bytes n cs \<Longrightarrow> ups_chained n cs \<Longrightarrow>
   ups_read_changes p n = Inr cs"
proof (induction cs arbitrary: p n)
  case Nil
  then show ?case by (subst ups_read_changes.simps) (simp add: ups_at_end_iff)
next
  case (Cons c cs)
  let ?next = "uc_offset c + length (uc_xor c) + 1"
  from Cons.prems(3) have c: "n \<le> uc_offset c" "?next \<le> u64_max" "0 \<notin> set (uc_xor c)" "ups_chained ?next cs"
    by simp_all
  have u: "ups_unread p = encode_varint (uc_offset c - n) @ uc_xor c @ 0 # ups_record_bytes ?next cs"
    using Cons.prems(2) by simp
  have "uc_offset c - n \<le> u64_max" using c(2) by simp
  from ups_read_varint_ok [OF Cons.prems(1) u this] obtain p1 where
    p1: "ups_read_varint p = Inr (uc_offset c - n, p1)" "ups_wf p1"
      "ups_unread p1 = uc_xor c @ 0 # ups_record_bytes ?next cs" by blast
  obtain p2 where p2: "ups_read_xor p1 = Inr (uc_xor c, p2)" "ups_wf p2"
    "ups_unread p2 = ups_record_bytes ?next cs"
    using ups_read_xor_ok [OF p1(2,3) c(3)] by blast
  have "\<not> ups_is_at_end p" using Cons.prems(1,2) by (simp add: ups_at_end_iff)
  moreover have "ups_read_changes p2 ?next = Inr cs" by (rule Cons.IH [OF p2(2,3) c(4)])
  ultimately show ?case
    using p1(1) p2(1) c by (subst ups_read_changes.simps) simp
qed

lemma le_bytes_word [simp]: "word_of_nat (from_le (le_bytes 4 (unat (w :: u32)))) = w"
proof -
  have "unat w < 2 ^ LENGTH(32)" by (rule unsigned_less)
  then show ?thesis by (simp add: from_le_small)
qed

theorem parse_ups_patch_bytes:
  assumes "ups_chained 0 cs" and "n \<le> u64_max" and "m \<le> u64_max"
    and "length (ups_patch_bytes crc32 cs n m sc tc) \<le> u64_max"
  shows "\<exists>pc. parse_ups_file crc32 (ups_patch_bytes crc32 cs n m sc tc) validate =
    Inr \<lparr>ups_source_size = n, ups_target_size = m, ups_source_checksum = sc, ups_target_checksum = tc,
         ups_patch_checksum = pc, ups_changes = cs\<rparr>"
proof -
  let ?p = "ups_patch_bytes crc32 cs n m sc tc"
  define recs where "recs = encode_varint n @ encode_varint m @ ups_record_bytes 0 cs"
  define sums where "sums = le_bytes 4 (unat sc) @ le_bytes 4 (unat tc)"
  define pc where "pc = crc32 (UPS_MAGIC @ recs @ sums)"
  have p: "?p = UPS_MAGIC @ recs @ sums @ le_bytes 4 (unat pc)"
    by (simp add: ups_patch_bytes_def recs_def sums_def pc_def Let_def)
  have magic: "length UPS_MAGIC = 4" by (simp add: UPS_MAGIC_def)
  have sums: "length sums = 8" by (simp add: sums_def)
  have len: "length ?p = 16 + length recs" by (simp add: p magic sums)
  define q0 where "q0 = ups_parser_new ?p (length ?p - UPS_FOOTER_SIZE)"
  have q0: "ups_wf q0" "ups_unread q0 = UPS_MAGIC @ recs"
    using assms(4) by (simp_all add: q0_def ups_parser_new_def ups_wf_def ups_unread_def p magic sums UPS_FOOTER_SIZE_def)
  from ups.read_exact_prefix [OF q0 magic] obtain q1 where
    q1: "ups_read_exact q0 4 = Inr (UPS_MAGIC, q1)" "ups_wf q1" "ups_unread q1 = recs" by blast
  from ups_read_varint_ok [OF q1(2) q1(3) [unfolded recs_def] assms(2)] obtain q2 where
    q2: "ups_read_varint q1 = Inr (n, q2)" "ups_wf q2" "ups_unread q2 = encode_varint m @ ups_record_bytes 0 cs"
    by blast
  from ups_read_varint_ok [OF q2(2,3) assms(3)] obtain q3 where
    q3: "ups_read_varint q2 = Inr (m, q3)" "ups_wf q3" "ups_unread q3 = ups_record_bytes 0 cs" by blast
  have changes: "ups_read_changes q3 0 = Inr cs" by (rule ups_read_changes_ok [OF q3(2,3) assms(1)])
  have footer: "read_footer ?p (length ?p - UPS_FOOTER_SIZE) UPS_FOOTER_SIZE = Inr (sums @ le_bytes 4 (unat pc))"
    by (simp add: read_footer_def seek_read_exact_def len UPS_FOOTER_SIZE_def segment_def)
      (simp add: p magic sums)
  have parts: "segment (sums @ le_bytes 4 (unat pc)) 0 4 = le_bytes 4 (unat sc)"
    "segment (sums @ le_bytes 4 (unat pc)) 4 4 = le_bytes 4 (unat tc)"
    "segment (sums @ le_bytes 4 (unat pc)) 8 4 = le_bytes 4 (unat pc)"
    by (simp_all add: segment_def sums_def)
  have "take (length ?p - 4) ?p = UPS_MAGIC @ recs @ sums"
    by (simp add: len) (simp add: p magic sums)
  then have crc: "crc32_prefix crc32 ?p (length ?p - 4) UPS_IO_BUFFER_SIZE = Inr pc"
    by (simp add: crc32_prefix_ok UPS_IO_BUFFER_SIZE_def pc_def)
  show ?thesis
    by (rule exI [of _ pc])
      (simp add: parse_ups_file_def Let_def magic q0_def [symmetric] q1(1) q2(1) q3(1) changes footer parts crc,
       simp add: len UPS_FOOTER_SIZE_def)
qed

section \<open>Applying\<close>

text \<open>The write of a whole change.\<close>

definition ups_write :: "bytes \<Rightarrow> ups_change \<Rightarrow> prepared_write" where
  "ups_write input c =
     \<lparr>pw_offset = uc_offset c,
      pw_data = map (\<lambda>i. byte_at input (uc_offset c + i) XOR uc_xor c ! i) [0..<length (uc_xor c)]\<rparr>"

definition ups_whole :: "bytes \<Rightarrow> nat \<Rightarrow> ups_change \<Rightarrow> prepared_write result" where
  "ups_whole input output_len c = and_then (ups_check_change output_len c) (\<lambda>_. Inr (ups_write input c))"

definition ups_in_bounds :: "nat \<Rightarrow> ups_change \<Rightarrow> bool" where
  "ups_in_bounds n c \<longleftrightarrow> uc_offset c + length (uc_xor c) \<le> u64_max \<and> uc_offset c + length (uc_xor c) \<le> n"

lemma ups_check_change_iff: "ups_check_change n c = Inr u \<longleftrightarrow> ups_in_bounds n c"
  by (auto simp: ups_check_change_def ups_in_bounds_def result_iff)

lemma ups_xored:
  assumes "start + n \<le> length (uc_xor c)"
  shows "map2 (XOR)
      (segment input (uc_offset c + start)
         (if uc_offset c + start < length input then min (length input - (uc_offset c + start)) n else 0) @
       replicate (n - (if uc_offset c + start < length input then min (length input - (uc_offset c + start)) n else 0)) 0)
      (segment (uc_xor c) start n) = segment (pw_data (ups_write input c)) start n"
    (is "map2 _ ?buf ?xor = ?seg")
proof (rule nth_equalityI)
  show "length (map2 (XOR) ?buf ?xor) = length ?seg"
    using assms by (auto simp: ups_write_def)
next
  fix i
  assume "i < length (map2 (XOR) ?buf ?xor)"
  then have i: "i < n" using assms by auto
  have "?buf ! i = byte_at input (uc_offset c + start + i)"
    using i by (auto simp: nth_append byte_at_def segment_def min_def)
  moreover have "?xor ! i = uc_xor c ! (start + i)"
    using i assms by (simp add: nth_segment)
  moreover have "?seg ! i = byte_at input (uc_offset c + (start + i)) XOR uc_xor c ! (start + i)"
    using i assms by (subst nth_segment) (auto simp: ups_write_def)
  ultimately show "map2 (XOR) ?buf ?xor ! i = ?seg ! i"
    using i assms by (simp add: add.assoc)
qed

lemma ups_guarded_read:
  "(if 0 < (if off < length f then min (length f - off) n else 0)
    then seek_read_exact f off (if off < length f then min (length f - off) n else 0) else Inr []) =
   Inr (segment f off (if off < length f then min (length f - off) n else 0))"
  by (auto simp: seek_read_exact_def)

lemma ups_guarded_read_at:
  "off + n \<le> u64_max \<Longrightarrow>
   (if 0 < (if off < length f then min (length f - off) n else 0)
    then read_exact_at f off (if off < length f then min (length f - off) n else 0) else Inr []) =
   Inr (segment f off (if off < length f then min (length f - off) n else 0))"
  by (auto simp: read_exact_at_def)

lemma ups_apply_buffer_ok:
  assumes "cursor + n \<le> length (uc_xor c)" and "ups_in_bounds m c"
  shows "ups_apply_buffer input c cursor n f =
    Inr (write_at (uc_offset c + cursor) (segment (pw_data (ups_write input c)) cursor n) f)"
  unfolding ups_apply_buffer_def Let_def ups_guarded_read and_then_simps ups_xored [OF assms(1)]
  using assms by (simp add: ups_in_bounds_def)

lemma length_ups_write [simp]: "length (pw_data (ups_write input c)) = length (uc_xor c)"
  by (simp add: ups_write_def)

lemma pw_offset_ups_write [simp]: "pw_offset (ups_write input c) = uc_offset c"
  by (simp add: ups_write_def)

lemma ups_apply_change_ok:
  assumes "ups_in_bounds m c"
  shows "chunk_loop UPS_IO_BUFFER_SIZE (ups_apply_buffer input c) 0 (length (uc_xor c)) f =
    Inr (write_at (uc_offset c) (pw_data (ups_write input c)) f)"
proof -
  have "chunk_loop UPS_IO_BUFFER_SIZE (ups_apply_buffer input c) 0 (length (pw_data (ups_write input c))) f =
    Inr (write_at (uc_offset c) (pw_data (ups_write input c)) f)"
    by (rule chunk_loop_write)
      (use ups_apply_buffer_ok [OF _ assms] in \<open>auto simp: UPS_IO_BUFFER_SIZE_def\<close>)
  then show ?thesis by simp
qed

text \<open>The serial path writes the changes in order.\<close>

lemma ups_serial_outcome:
  "same_outcome (ups_apply_changes_from_input patch input m f)
     (and_then (map_result (ups_whole input m) (ups_changes patch)) (\<lambda>ws. Inr (apply_prepared_writes f ws)))"
proof (rule same_outcomeI)
  fix g
  let ?step = "\<lambda>change out. and_then (ups_check_change m change) (\<lambda>_.
      chunk_loop UPS_IO_BUFFER_SIZE (ups_apply_buffer input change) 0 (length (uc_xor change)) out)"
  have "fold_result ?step cs f = Inr g \<longleftrightarrow>
    and_then (map_result (ups_whole input m) cs) (\<lambda>ws. Inr (apply_prepared_writes f ws)) = Inr g" for cs
  proof (induction cs arbitrary: f)
    case (Cons c cs)
    show ?case
    proof (cases "ups_in_bounds m c")
      case True
      then have "ups_check_change m c = Inr ()" by (simp add: ups_check_change_iff)
      then show ?thesis
        using Cons.IH [of "write_at (uc_offset c) (pw_data (ups_write input c)) f"]
        by (simp add: ups_apply_change_ok [OF True] ups_whole_def and_then_assoc)
    next
      case False
      then show ?thesis by (auto simp: result_iff ups_check_change_iff ups_whole_def)
    qed
  qed simp
  then show "ups_apply_changes_from_input patch input m f = Inr g \<longleftrightarrow>
    and_then (map_result (ups_whole input m) (ups_changes patch)) (\<lambda>ws. Inr (apply_prepared_writes f ws)) = Inr g"
    by (simp add: ups_apply_changes_from_input_def)
qed

text \<open>So does the pool: every range the pool prepares is a slice of a whole change.\<close>

interpretation ups_writer: slice_writer "\<lambda>change. length (uc_xor change)"
  "prepare_ups_write source output_len" "ups_whole source output_len" for source output_len
proof
  fix c w and start stop :: nat
  assume "ups_whole source output_len c = Inr w" and le: "start \<le> stop" "stop \<le> length (uc_xor c)"
  then have w: "w = ups_write source c" and b: "ups_in_bounds output_len c"
    by (auto simp: ups_whole_def result_iff ups_check_change_iff)
  then have check: "ups_check_change output_len c = Inr ()" by (simp add: ups_check_change_iff)
  have off: "checked_add (uc_offset c) start ''UPS output offset'' = Inr (uc_offset c + start)"
    using b le by (simp add: ups_in_bounds_def)
  have n: "uc_offset c + start + (stop - start) \<le> u64_max" and m: "start + (stop - start) \<le> length (uc_xor c)"
    using b le by (simp_all add: ups_in_bounds_def)
  show "prepare_ups_write source output_len c start stop =
      Inr \<lparr>pw_offset = pw_offset w + start, pw_data = segment (pw_data w) start (stop - start)\<rparr>"
    unfolding prepare_ups_write_def check and_then_simps off Let_def ups_guarded_read_at [OF n] ups_xored [OF m]
    by (simp add: w)
next
  fix c e start stop
  assume "ups_whole source output_len c = Inl e"
  then have "ups_check_change output_len c = Inl e"
    by (cases "ups_check_change output_len c") (simp_all add: ups_whole_def)
  then show "\<not> is_ok (prepare_ups_write source output_len c start stop)"
    by (simp add: prepare_ups_write_def)
qed (auto simp: ups_whole_def result_iff ups_check_change_iff ups_in_bounds_def)

lemma ups_parallel_outcome:
  "same_outcome (apply_ups_writes_parallel patch input m pool f)
     (and_then (map_result (ups_whole input m) (ups_changes patch)) (\<lambda>ws. Inr (apply_prepared_writes f ws)))"
  unfolding apply_ups_writes_parallel_def by (rule ups_writer.batched_as_whole)

section \<open>The bytes of the output\<close>

text \<open>The XOR mask of a patch at an offset: zero outside every change.\<close>

fun ups_mask :: "ups_change list \<Rightarrow> nat \<Rightarrow> u8" where
  "ups_mask [] i = 0"
| "ups_mask (c # cs) i =
     (if uc_offset c \<le> i \<and> i < uc_offset c + length (uc_xor c) then uc_xor c ! (i - uc_offset c)
      else ups_mask cs i)"

lemma ups_read_xor_nonzero: "ups_read_xor p = Inr (bs, q) \<Longrightarrow> 0 \<notin> set bs"
proof (induction p arbitrary: bs rule: ups_read_xor.induct)
  case (1 p)
  from "1.prems" obtain b p' where b: "ups_read_u8 p = Inr (b, p')"
    by (subst (asm) ups_read_xor.simps) (auto simp: result_iff)
  show ?case
  proof (cases "b = 0")
    case True
    with "1.prems" b show ?thesis by (subst (asm) ups_read_xor.simps) auto
  next
    case False
    with "1.prems" b obtain bs' where "ups_read_xor p' = Inr (bs', q)" "bs = b # bs'"
      by (subst (asm) ups_read_xor.simps) (auto simp: result_iff)
    with "1.IH" [OF b refl False] False show ?thesis by auto
  qed
qed

lemma ups_read_changes_chained: "ups_read_changes p n = Inr cs \<Longrightarrow> ups_chained n cs"
proof (induction p n arbitrary: cs rule: ups_read_changes.induct)
  case (1 p n)
  show ?case
  proof (cases "ups_is_at_end p")
    case True
    with "1.prems" show ?thesis by (subst (asm) ups_read_changes.simps) auto
  next
    case False
    with "1.prems" obtain delta p1 xs p2 cs' where
      read: "ups_read_varint p = Inr (delta, p1)" "ups_read_xor p1 = Inr (xs, p2)"
        "ups_read_changes p2 (n + delta + length xs + 1) = Inr cs'"
      and bounds: "n + delta + length xs + 1 \<le> u64_max"
      and cs: "cs = \<lparr>uc_offset = n + delta, uc_xor = xs\<rparr> # cs'"
      by (subst (asm) ups_read_changes.simps) (auto simp: result_iff)
    have "ups_chained (n + delta + length xs + 1) cs'"
      by (rule "1.IH" [OF False read(1) refl _ read(2) refl _ _ read(3)]) (use bounds in auto)
    then show ?thesis using bounds ups_read_xor_nonzero [OF read(2)] by (simp add: cs)
  qed
qed

lemma parse_ups_file_chained:
  assumes "parse_ups_file crc32 p v = Inr patch"
  shows "ups_chained 0 (ups_changes patch)"
  using assms
  by (auto simp: parse_ups_file_def Let_def result_iff split: if_splits dest!: ups_read_changes_chained)

lemma ups_writes_before:
  "ups_chained n cs \<Longrightarrow> i < n \<Longrightarrow>
   byte_at (apply_prepared_writes f (map (ups_write input) cs)) i = byte_at f i"
  by (induction cs arbitrary: n f) (auto simp: byte_at_write_at)

lemma byte_at_ups_writes:
  "ups_chained n cs \<Longrightarrow> byte_at f i = byte_at input i \<Longrightarrow>
   byte_at (apply_prepared_writes f (map (ups_write input) cs)) i = byte_at input i XOR ups_mask cs i"
proof (induction cs arbitrary: n f)
  case (Cons c cs)
  let ?next = "uc_offset c + length (uc_xor c) + 1"
  let ?g = "write_at (uc_offset c) (pw_data (ups_write input c)) f"
  from Cons.prems(1) have chained: "ups_chained ?next cs" by simp
  show ?case
  proof (cases "uc_offset c \<le> i \<and> i < uc_offset c + length (uc_xor c)")
    case True
    then have "byte_at ?g i = byte_at input i XOR uc_xor c ! (i - uc_offset c)"
      by (simp add: byte_at_write_at) (auto simp: ups_write_def)
    with True ups_writes_before [OF chained, of i ?g input] show ?thesis by simp
  next
    case False
    then have "byte_at ?g i = byte_at input i" using Cons.prems(2) by (auto simp: byte_at_write_at)
    with Cons.IH [OF chained this] False show ?thesis by auto
  qed
qed simp

lemma ups_whole_all:
  "map_result (ups_whole input m) cs = Inr ws \<longleftrightarrow>
   (\<forall>c \<in> set cs. ups_in_bounds m c) \<and> ws = map (ups_write input) cs"
  by (induction cs arbitrary: ws)
    (auto simp: result_iff ups_whole_def ups_check_change_iff)

lemma length_ups_writes:
  "\<forall>c \<in> set cs. ups_in_bounds (length f) c \<Longrightarrow>
   length (apply_prepared_writes f (map (ups_write input) cs)) = length f"
proof (induction cs arbitrary: f)
  case (Cons c cs)
  then have "length (write_at (uc_offset c) (pw_data (ups_write input c)) f) = length f"
    by (auto simp: length_write_at ups_in_bounds_def)
  with Cons show ?case by simp
qed simp

lemma ups_mask_diff:
  assumes "i < max (length s) (length t)"
  shows "ups_mask (ups_diff s t) i = byte_at s i XOR byte_at t i"
proof -
  let ?hi = "max (length s) (length t)"
  have hit: "byte_at s i XOR byte_at t i = ups_mask (map ups_of_run rs) i"
    if "set rs \<subseteq> set (diff_scan (ups_cell s t) 0 ?hi)" "\<exists>r \<in> set rs. fst r \<le> i \<and> i < run_stop r" for rs
    using that
  proof (induction rs)
    case (Cons r rs)
    show ?case
    proof (cases "fst r \<le> i \<and> i < run_stop r")
      case True
      then have "ups_cell s t (fst r + (i - fst r)) = Some (snd r ! (i - fst r))"
        using Cons.prems(1) by (intro diff_scan_nth(1) [OF le0]) (auto simp: run_stop_def)
      with True show ?thesis by (auto simp: ups_cell_def run_stop_def split: if_splits)
    next
      case False
      with Cons show ?thesis by (auto simp: run_stop_def)
    qed
  qed simp
  have miss: "ups_mask (map ups_of_run rs) i = 0" if "\<not> (\<exists>r \<in> set rs. fst r \<le> i \<and> i < run_stop r)" for rs
    using that by (induction rs) (auto simp: run_stop_def)
  show ?thesis
  proof (cases "\<exists>r \<in> set (diff_scan (ups_cell s t) 0 ?hi). fst r \<le> i \<and> i < run_stop r")
    case True
    from hit [OF subset_refl this] show ?thesis by (simp add: ups_diff_def)
  next
    case False
    with diff_scan_cover [OF le0 le0 assms, of "ups_cell s t"] have "byte_at s i = byte_at t i"
      by (cases "byte_at s i = byte_at t i") (auto simp: ups_cell_def)
    with miss [OF False] show ?thesis by (simp add: ups_diff_def)
  qed
qed

text \<open>What \<open>ups_apply\<close> computes once the patch is parsed and the direction resolved.\<close>

definition ups_output :: "parsed_ups \<Rightarrow> bytes \<Rightarrow> nat \<Rightarrow> bytes" where
  "ups_output patch input n = map (\<lambda>i. byte_at input i XOR ups_mask (ups_changes patch) i) [0..<n]"

lemma ups_writes_output:
  assumes "ups_chained 0 (ups_changes patch)" and "\<forall>c \<in> set (ups_changes patch). ups_in_bounds m c" and "n \<le> m"
  shows "set_len n (apply_prepared_writes (set_len m input) (map (ups_write input) (ups_changes patch))) =
    ups_output patch input n"
proof (rule file_eqI)
  show "length (set_len n (apply_prepared_writes (set_len m input) (map (ups_write input) (ups_changes patch)))) =
      length (ups_output patch input n)"
    by (simp add: ups_output_def)
next
  fix i
  assume "i < length (ups_output patch input n)"
  then have i: "i < n" by (simp add: ups_output_def)
  then have "byte_at (set_len m input) i = byte_at input i" using assms(3) by (simp add: byte_at_pad_to)
  from byte_at_ups_writes [OF assms(1) this] i
  show "byte_at (set_len n (apply_prepared_writes (set_len m input) (map (ups_write input) (ups_changes patch)))) i =
      byte_at (ups_output patch input n) i"
    by (simp add: byte_at_pad_to) (simp add: ups_output_def)
qed

lemma ups_resolve_size:
  "ups_resolve_apply_target patch n c v = Inr (m, d) \<Longrightarrow>
   m \<le> max (ups_source_size patch) (ups_target_size patch)"
  by (auto simp: ups_resolve_apply_target_def Let_def split: if_splits)

theorem ups_apply_outcome:
  assumes patch: "ar_patches req = [pf]"
    and parse: "parse_ups_file crc32 (file_bytes pf) (scope_patch_integrity (patch_check_scopes ctx)) = Inr patch"
    and crc: "crc32_path_cached crc32 (ar_input req) ctx = Inr ic"
    and resolve: "ups_resolve_apply_target patch (file_len (ar_input req)) ic (scope_source (patch_check_scopes ctx)) =
      Inr (n, oc)"
  shows "(\<exists>rep. ups_apply crc32 ctx req = Inr (out, rep)) \<longleftrightarrow>
    (\<forall>c \<in> set (ups_changes patch). ups_in_bounds (max (ups_source_size patch) (ups_target_size patch)) c) \<and>
    out = ups_output patch (file_bytes (ar_input req)) n \<and>
    (scope_target (patch_check_scopes ctx) \<longrightarrow>
      crc32_path_cached crc32 \<lparr>file_path = ar_output req, file_bytes = out\<rparr> ctx = Inr oc)"
proof -
  let ?input = "file_bytes (ar_input req)" and ?m = "max (ups_source_size patch) (ups_target_size patch)"
  let ?scopes = "patch_check_scopes ctx"
  let ?W = "and_then (map_result (ups_whole ?input ?m) (ups_changes patch))
      (\<lambda>ws. Inr (apply_prepared_writes (set_len ?m ?input) ws))"
  define check where "check o' = (if scope_target ?scopes
           then and_then (crc32_path_cached crc32 \<lparr>file_path = ar_output req, file_bytes = o'\<rparr> ctx)
                  (\<lambda>actual. if actual \<noteq> oc
                     then coded ''patch.checksum_mismatch''
                            ''Output checksum invalid; expected: {}, Actual: {}''
                            [Hex (unat oc), Hex (unat actual)]
                     else Inr ())
           else Inr ())" for o'
  define k where "k = (\<lambda>e o'. and_then (check (set_len n o'))
      (\<lambda>_. Inr (set_len n o', patch_apply_report ''UPS'' (length (ups_changes patch))
             (scope_source ?scopes \<and> scope_target ?scopes) e)))"
  let ?par = "apply_ups_writes_parallel patch ?input ?m"
  have eq: "ups_apply crc32 ctx req =
      and_then (run_with_optional_pool ctx (parallel_per_record_capability (length (ups_changes patch))) True
          (\<lambda>pool. Inr (Some pool, set_len ?m ?input))
          (and_then (ups_apply_changes_from_input patch ?input ?m (set_len ?m ?input)) (\<lambda>out. Inr (None, out))))
        (\<lambda>(execution, prepared, out).
           and_then (case prepared of Some pool \<Rightarrow> ?par pool out | None \<Rightarrow> Inr out) (k execution))"
    by (simp add: ups_apply_def require_single_patch_file_def patch parse crc resolve Let_def k_def check_def)
  obtain e where e: "same_outcome (ups_apply crc32 ctx req) (and_then ?W (k e))"
    unfolding eq
    using prepare_then_write [where parallel = ?par and k = k and allow = True and ctx = ctx and
        cap = "parallel_per_record_capability (length (ups_changes patch))",
        OF ups_parallel_outcome ups_serial_outcome]
    by (rule exE)
  have check: "check o' = Inr u \<longleftrightarrow>
      (scope_target ?scopes \<longrightarrow> crc32_path_cached crc32 \<lparr>file_path = ar_output req, file_bytes = o'\<rparr> ctx = Inr oc)"
    for o' u
    by (auto simp: check_def result_iff)
  have chained: "ups_chained 0 (ups_changes patch)" by (rule parse_ups_file_chained [OF parse])
  have n: "n \<le> ?m" by (rule ups_resolve_size [OF resolve])
  have "(\<exists>rep. ups_apply crc32 ctx req = Inr (out, rep)) \<longleftrightarrow> (\<exists>rep. and_then ?W (k e) = Inr (out, rep))"
    using e by (simp add: same_outcome_def)
  also have "\<dots> \<longleftrightarrow> (\<forall>c \<in> set (ups_changes patch). ups_in_bounds ?m c) \<and>
      out = set_len n (apply_prepared_writes (set_len ?m ?input) (map (ups_write ?input) (ups_changes patch))) \<and>
      check out = Inr ()"
    by (auto simp: result_iff ups_whole_all k_def)
  finally show ?thesis
    using ups_writes_output [OF chained _ n, of ?input] by (auto simp: check)
qed

section \<open>Properties\<close>

text \<open>Files below \<open>2 ^ 59\<close> bytes keep every offset and the patch itself inside \<open>u64\<close>.\<close>

lemma length_ups_record_bytes:
  "ups_chained n cs \<Longrightarrow> \<forall>c \<in> set cs. uc_offset c + length (uc_xor c) < hi \<Longrightarrow> n \<le> hi \<Longrightarrow>
   length (ups_record_bytes n cs) \<le> 11 * (hi - n)"
proof (induction cs arbitrary: n)
  case (Cons c cs)
  let ?next = "uc_offset c + length (uc_xor c) + 1"
  have "uc_offset c \<le> u64_max" using Cons.prems(1) by simp
  then have "uc_offset c - n \<le> u64_max" by (rule le_trans [OF diff_le_self])
  then have "length (encode_varint (uc_offset c - n)) \<le> 10"
    using length_encode_varint by (simp add: varint_max_len_def)
  moreover have "length (ups_record_bytes ?next cs) \<le> 11 * (hi - ?next)"
    using Cons.prems by (intro Cons.IH) auto
  moreover have "n \<le> uc_offset c" "?next \<le> hi" using Cons.prems by auto
  ultimately show ?case by simp
qed simp

lemma ups_diff_bounds:
  assumes "c \<in> set (ups_diff s t)"
  shows "uc_offset c + length (uc_xor c) \<le> max (length s) (length t)"
  using assms diff_scan_spec(4) [OF le0] by (fastforce simp: ups_diff_def run_stop_def)

lemma length_ups_patch_bytes:
  assumes "length s < 2 ^ 59" and "length t < 2 ^ 59"
  shows "length (ups_patch_bytes crc32 (ups_diff s t) (length s) (length t) sc tc) \<le> u64_max"
proof -
  define hi where "hi = Suc (max (length s) (length t))"
  have hi: "hi \<le> 2 ^ 59" using assms by (simp add: hi_def)
  then have chained: "ups_chained 0 (ups_diff s t)"
    by (intro ups_diff_chained) (simp add: u64_max_def hi_def)
  have "length (ups_record_bytes 0 (ups_diff s t)) \<le> 11 * (hi - 0)"
    by (rule length_ups_record_bytes [OF chained])
      (auto dest: ups_diff_bounds simp: hi_def less_Suc_eq_le simp del: max.bounded_iff)
  moreover have "length (encode_varint (length s)) \<le> 10" "length (encode_varint (length t)) \<le> 10"
    using length_encode_varint assms by (auto simp: varint_max_len_def u64_max_def)
  ultimately show ?thesis
    using hi by (simp add: ups_patch_bytes_def Let_def UPS_MAGIC_def u64_max_def)
qed

text \<open>
  Creating a UPS patch succeeds on every pair of files below \<open>2 ^ 59\<close> bytes and yields one
  byte string, whatever the thread budget: the header, the record of every maximal run of
  differing bytes, and the three checksums.
\<close>

theorem ups_create_canonical:
  assumes "file_len s < 2 ^ 59" and "file_len t < 2 ^ 59"
    and "honest_seed crc32 ctx s" and "honest_seed crc32 ctx t"
  shows "\<exists>e. ups_create crc32 ctx \<lparr>cr_original = s, cr_modified = t\<rparr> =
    Inr (ups_patch_bytes crc32 (ups_diff (file_bytes s) (file_bytes t)) (file_len s) (file_len t)
           (crc32 (file_bytes s)) (crc32 (file_bytes t)),
         patch_create_report ''UPS'' (length (ups_diff (file_bytes s) (file_bytes t))) e)"
proof -
  obtain e pool where "build_pool ctx (parallel_chunked_capability (max (file_len s) (file_len t)) UPS_SCAN_CHUNK_BYTES) =
      Inr (e, pool)"
    using build_pool_total by blast
  moreover have "max (file_len s) (file_len t) \<le> u64_max" "Suc (max (file_len s) (file_len t)) \<le> u64_max"
    using assms(1,2) by (auto simp: u64_max_def)
  ultimately show ?thesis
    using assms(3,4)
    by (auto simp: ups_create_def create_ups_patch_def create_ups_patch_parallel_def crc32_path_honest
        collect_ups_changes_parallel_ok create_ups_patch_streaming_ok encode_ups_patch_ok ups_diff_chained
        simp del: max.bounded_iff)
qed

lemma ups_create_canonical_witness:
  "\<exists>e. ups_create sample_crc (plain_context 4) \<lparr>cr_original = sample_source, cr_modified = sample_target\<rparr> =
    Inr (ups_patch_bytes sample_crc (ups_diff (file_bytes sample_source) (file_bytes sample_target))
           (file_len sample_source) (file_len sample_target)
           (sample_crc (file_bytes sample_source)) (sample_crc (file_bytes sample_target)),
         patch_create_report ''UPS'' (length (ups_diff (file_bytes sample_source) (file_bytes sample_target))) e)"
  by (rule ups_create_canonical) (simp_all add: samples)

lemma parse_ups_created:
  assumes "length s < 2 ^ 59" and "length t < 2 ^ 59"
  shows "\<exists>pc. parse_ups_file crc32
      (ups_patch_bytes crc32 (ups_diff s t) (length s) (length t) sc tc) v =
    Inr \<lparr>ups_source_size = length s, ups_target_size = length t, ups_source_checksum = sc,
         ups_target_checksum = tc, ups_patch_checksum = pc, ups_changes = ups_diff s t\<rparr>"
  by (rule parse_ups_patch_bytes) (use assms length_ups_patch_bytes in \<open>auto simp: u64_max_def intro!: ups_diff_chained\<close>)

text \<open>Applying a created patch to a file it matches, in whichever direction is resolved.\<close>

lemma ups_apply_created:
  fixes s t :: bytes and crc32 :: "bytes \<Rightarrow> u32"
  defines "p \<equiv> ups_patch_bytes crc32 (ups_diff s t) (length s) (length t) (crc32 s) (crc32 t)"
  assumes size: "length s < 2 ^ 59" "length t < 2 ^ 59"
    and pair: "(file_bytes f = s \<and> r = t) \<or> (file_bytes f = t \<and> r = s)"
    and honest: "honest_seed crc32 ctx f" "honest_seed crc32 ctx \<lparr>file_path = path, file_bytes = r\<rparr>"
  shows "\<exists>rep. ups_apply crc32 ctx
      \<lparr>ar_input = f, ar_patches = [\<lparr>file_path = pp, file_bytes = p\<rparr>], ar_output = path\<rparr> = Inr (r, rep)"
proof -
  let ?req = "\<lparr>ar_input = f, ar_patches = [\<lparr>file_path = pp, file_bytes = p\<rparr>], ar_output = path\<rparr>"
  let ?scopes = "patch_check_scopes ctx"
  obtain pc where parse: "parse_ups_file crc32 p (scope_patch_integrity ?scopes) =
    Inr \<lparr>ups_source_size = length s, ups_target_size = length t, ups_source_checksum = crc32 s,
         ups_target_checksum = crc32 t, ups_patch_checksum = pc, ups_changes = ups_diff s t\<rparr>"
    using parse_ups_created [OF size] unfolding p_def by blast
  let ?patch = "\<lparr>ups_source_size = length s, ups_target_size = length t, ups_source_checksum = crc32 s,
         ups_target_checksum = crc32 t, ups_patch_checksum = pc, ups_changes = ups_diff s t\<rparr>"
  have resolve: "ups_resolve_apply_target ?patch (file_len f) (crc32 (file_bytes f)) (scope_source ?scopes) =
      Inr (length r, crc32 r)"
    using pair by (auto simp: ups_resolve_apply_target_def)
  have "uc_offset c + length (uc_xor c) \<le> u64_max" if "c \<in> set (ups_diff s t)" for c
    using ups_diff_bounds [OF that] size by (auto simp: u64_max_def)
  then have bounds: "\<forall>c \<in> set (ups_diff s t). ups_in_bounds (max (length s) (length t)) c"
    using ups_diff_bounds by (simp add: ups_in_bounds_def)
  have "ups_output ?patch (file_bytes f) (length r) = r"
  proof (rule file_eqI)
    fix i
    assume "i < length r"
    then have "i < max (length s) (length t)" using pair by auto
    from ups_mask_diff [OF this] pair \<open>i < length r\<close>
    show "byte_at (ups_output ?patch (file_bytes f) (length r)) i = byte_at r i"
      by (subst byte_at_lt) (auto simp: ups_output_def)
  qed (simp add: ups_output_def)
  then show ?thesis
    using ups_apply_outcome [of ?req "\<lparr>file_path = pp, file_bytes = p\<rparr>" crc32 ctx ?patch "crc32 (file_bytes f)"
        "length r" "crc32 r" r] parse resolve bounds honest
    by (simp add: crc32_path_honest)
qed

text \<open>
  C4. Create then apply: the patch created from a pair of files turns the first into the
  second, in any two contexts (thread budgets, hosts, checksum scopes) with honest seeds.
\<close>

theorem ups_create_apply:
  assumes "file_len s < 2 ^ 59" and "file_len t < 2 ^ 59"
    and "honest_seed crc32 create_ctx s" and "honest_seed crc32 create_ctx t"
    and "honest_seed crc32 apply_ctx s"
    and "honest_seed crc32 apply_ctx \<lparr>file_path = path, file_bytes = file_bytes t\<rparr>"
  shows "\<exists>p create_rep apply_rep.
    ups_create crc32 create_ctx \<lparr>cr_original = s, cr_modified = t\<rparr> = Inr (p, create_rep) \<and>
    ups_apply crc32 apply_ctx
      \<lparr>ar_input = s, ar_patches = [\<lparr>file_path = pp, file_bytes = p\<rparr>], ar_output = path\<rparr> =
      Inr (file_bytes t, apply_rep)"
  using ups_create_canonical [OF assms(1-4)] ups_apply_created [OF assms(1,2) _ assms(5,6)] by blast

lemma ups_create_apply_witness:
  "\<exists>p create_rep apply_rep.
    ups_create sample_crc (plain_context 4) \<lparr>cr_original = sample_source, cr_modified = sample_target\<rparr> =
      Inr (p, create_rep) \<and>
    ups_apply sample_crc (plain_context 1)
      \<lparr>ar_input = sample_source, ar_patches = [\<lparr>file_path = ''p'', file_bytes = p\<rparr>], ar_output = ''o''\<rparr> =
      Inr (file_bytes sample_target, apply_rep)"
  by (rule ups_create_apply) (simp_all add: samples)

text \<open>
  C5. UPS is bidirectional: the same patch turns the second file back into the first, without
  any assumption on the CRC.
\<close>

theorem ups_create_apply_reverse:
  assumes "file_len s < 2 ^ 59" and "file_len t < 2 ^ 59"
    and "honest_seed crc32 create_ctx s" and "honest_seed crc32 create_ctx t"
    and "honest_seed crc32 apply_ctx t"
    and "honest_seed crc32 apply_ctx \<lparr>file_path = path, file_bytes = file_bytes s\<rparr>"
  shows "\<exists>p create_rep apply_rep.
    ups_create crc32 create_ctx \<lparr>cr_original = s, cr_modified = t\<rparr> = Inr (p, create_rep) \<and>
    ups_apply crc32 apply_ctx
      \<lparr>ar_input = t, ar_patches = [\<lparr>file_path = pp, file_bytes = p\<rparr>], ar_output = path\<rparr> =
      Inr (file_bytes s, apply_rep)"
  using ups_create_canonical [OF assms(1-4)] ups_apply_created [OF assms(1,2) _ assms(5,6)] by blast

lemma ups_create_apply_reverse_witness:
  "\<exists>p create_rep apply_rep.
    ups_create sample_crc (plain_context 4) \<lparr>cr_original = sample_source, cr_modified = sample_target\<rparr> =
      Inr (p, create_rep) \<and>
    ups_apply sample_crc (plain_context 1)
      \<lparr>ar_input = sample_target, ar_patches = [\<lparr>file_path = ''p'', file_bytes = p\<rparr>], ar_output = ''o''\<rparr> =
      Inr (file_bytes sample_source, apply_rep)"
  by (rule ups_create_apply_reverse) (simp_all add: samples)

lemma ups_apply_parses:
  assumes "ups_apply crc32 ctx req = Inr (out, rep)"
  shows "\<exists>pf patch ic n oc. ar_patches req = [pf] \<and>
    parse_ups_file crc32 (file_bytes pf) (scope_patch_integrity (patch_check_scopes ctx)) = Inr patch \<and>
    crc32_path_cached crc32 (ar_input req) ctx = Inr ic \<and>
    ups_resolve_apply_target patch (file_len (ar_input req)) ic (scope_source (patch_check_scopes ctx)) = Inr (n, oc)"
proof -
  obtain pf where pf: "require_single_patch_file (ar_patches req) ''UPS'' = Inr pf"
    using assms by (auto simp: ups_apply_def result_iff)
  then have "ar_patches req = [pf]"
    by (cases "ar_patches req") (auto simp: require_single_patch_file_def split: if_splits)
  with assms pf show ?thesis by (auto simp: ups_apply_def Let_def result_iff)
qed

text \<open>
  C6. Every successful apply, of any patch: the output has the resolved size, its bytes are the
  input bytes (zero past the end of the input) XORed with the mask of the parsed patch, and,
  when the target scope is on, its checksum is the one the patch declares.
\<close>

theorem ups_apply_bytes:
  assumes "ups_apply crc32 ctx req = Inr (out, rep)"
  shows "\<exists>pf patch ic n oc. ar_patches req = [pf] \<and>
    parse_ups_file crc32 (file_bytes pf) (scope_patch_integrity (patch_check_scopes ctx)) = Inr patch \<and>
    crc32_path_cached crc32 (ar_input req) ctx = Inr ic \<and>
    ups_resolve_apply_target patch (file_len (ar_input req)) ic (scope_source (patch_check_scopes ctx)) = Inr (n, oc) \<and>
    out = map (\<lambda>i. byte_at (file_bytes (ar_input req)) i XOR ups_mask (ups_changes patch) i) [0..<n] \<and>
    (scope_target (patch_check_scopes ctx) \<longrightarrow>
      crc32_path_cached crc32 \<lparr>file_path = ar_output req, file_bytes = out\<rparr> ctx = Inr oc)"
proof -
  from ups_apply_parses [OF assms] obtain pf patch ic n oc where p: "ar_patches req = [pf]"
    "parse_ups_file crc32 (file_bytes pf) (scope_patch_integrity (patch_check_scopes ctx)) = Inr patch"
    "crc32_path_cached crc32 (ar_input req) ctx = Inr ic"
    "ups_resolve_apply_target patch (file_len (ar_input req)) ic (scope_source (patch_check_scopes ctx)) = Inr (n, oc)"
    by blast
  from ups_apply_outcome [OF p, of out] assms p show ?thesis
    unfolding ups_output_def by blast
qed

definition ups_sample_patch :: bytes where
  "ups_sample_patch = ups_patch_bytes sample_crc
     (ups_diff (file_bytes sample_source) (file_bytes sample_target)) (file_len sample_source)
     (file_len sample_target) (sample_crc (file_bytes sample_source)) (sample_crc (file_bytes sample_target))"

definition ups_sample_request :: "stored_file \<Rightarrow> apply_request" where
  "ups_sample_request input =
     \<lparr>ar_input = input, ar_patches = [\<lparr>file_path = ''p'', file_bytes = ups_sample_patch\<rparr>], ar_output = ''o''\<rparr>"

definition ups_sample_parsed :: "u32 \<Rightarrow> parsed_ups" where
  "ups_sample_parsed pc =
     \<lparr>ups_source_size = file_len sample_source, ups_target_size = file_len sample_target,
      ups_source_checksum = sample_crc (file_bytes sample_source),
      ups_target_checksum = sample_crc (file_bytes sample_target), ups_patch_checksum = pc,
      ups_changes = ups_diff (file_bytes sample_source) (file_bytes sample_target)\<rparr>"

lemma ups_sample_apply:
  "\<exists>rep. ups_apply sample_crc (plain_context 1) (ups_sample_request sample_source) =
     Inr (file_bytes sample_target, rep)"
  unfolding ups_sample_request_def ups_sample_patch_def
  by (rule ups_apply_created) (simp_all add: samples)

lemma ups_sample_parse:
  "\<exists>pc. parse_ups_file sample_crc ups_sample_patch v =
    Inr (ups_sample_parsed pc)"
  unfolding ups_sample_patch_def ups_sample_parsed_def by (rule parse_ups_created) (simp_all add: samples)

lemma ups_apply_bytes_witness:
  "\<exists>rep patch n.
    ups_apply sample_crc (plain_context 1) (ups_sample_request sample_source) =
      Inr (file_bytes sample_target, rep) \<and>
    parse_ups_file sample_crc ups_sample_patch True = Inr patch \<and>
    file_bytes sample_target =
      map (\<lambda>i. byte_at (file_bytes sample_source) i XOR ups_mask (ups_changes patch) i) [0..<n]"
proof -
  obtain rep where ok: "ups_apply sample_crc (plain_context 1) (ups_sample_request sample_source) =
      Inr (file_bytes sample_target, rep)"
    using ups_sample_apply by blast
  from ups_apply_bytes [OF ok] obtain patch n where
    "parse_ups_file sample_crc ups_sample_patch (scope_patch_integrity (patch_check_scopes (plain_context 1))) = Inr patch"
    "file_bytes sample_target =
      map (\<lambda>i. byte_at (file_bytes sample_source) i XOR ups_mask (ups_changes patch) i) [0..<n]"
    unfolding ups_sample_request_def by fastforce
  moreover have "scope_patch_integrity (patch_check_scopes (plain_context 1)) = True"
    by (simp add: patch_check_scopes_def plain_context_def all_scopes_def)
  ultimately show ?thesis
    using ok by (intro exI [of _ rep] exI [of _ patch] exI [of _ n]) simp
qed

text \<open>
  The thread budget and the host cannot be observed in the output of an apply, nor in
  whether it succeeds.
\<close>

theorem ups_apply_any_threads:
  "(\<exists>rep. ups_apply crc32 (ctx\<lparr>ctx_host := h, ctx_budget := b\<rparr>) req = Inr (out, rep)) \<longleftrightarrow>
   (\<exists>rep. ups_apply crc32 ctx req = Inr (out, rep))"
proof -
  have scopes: "patch_check_scopes (ctx\<lparr>ctx_host := h, ctx_budget := b\<rparr>) = patch_check_scopes ctx" for ctx h b
    by (cases "ctx_scopes ctx") (simp_all add: patch_check_scopes_def)
  have cached: "crc32_path_cached crc32 f (ctx\<lparr>ctx_host := h, ctx_budget := b\<rparr>) = crc32_path_cached crc32 f ctx" for f ctx h b
    by (simp add: crc32_path_cached_def)
  have "\<exists>rep. ups_apply crc32 (ctx\<lparr>ctx_host := h, ctx_budget := b\<rparr>) req = Inr (out, rep)"
    if ok: "ups_apply crc32 ctx req = Inr (out, rep)" for ctx h b rep
  proof -
    from ups_apply_parses [OF ok] obtain pf patch ic n oc where p: "ar_patches req = [pf]"
      "parse_ups_file crc32 (file_bytes pf) (scope_patch_integrity (patch_check_scopes ctx)) = Inr patch"
      "crc32_path_cached crc32 (ar_input req) ctx = Inr ic"
      "ups_resolve_apply_target patch (file_len (ar_input req)) ic (scope_source (patch_check_scopes ctx)) = Inr (n, oc)"
      by blast
    note ctx' = ups_apply_outcome [of req pf crc32 "ctx\<lparr>ctx_host := h, ctx_budget := b\<rparr>", unfolded scopes cached, OF p]
    from ups_apply_outcome [OF p, of out] ok have
      "(\<forall>c \<in> set (ups_changes patch). ups_in_bounds (max (ups_source_size patch) (ups_target_size patch)) c) \<and>
       out = ups_output patch (file_bytes (ar_input req)) n \<and>
       (scope_target (patch_check_scopes ctx) \<longrightarrow>
         crc32_path_cached crc32 \<lparr>file_path = ar_output req, file_bytes = out\<rparr> ctx = Inr oc)"
      by blast
    then show ?thesis unfolding ctx' by auto
  qed
  from this [where ctx = ctx]
    this [where ctx = "ctx\<lparr>ctx_host := h, ctx_budget := b\<rparr>" and h = "ctx_host ctx" and b = "ctx_budget ctx"]
  show ?thesis by auto
qed

text \<open>
  C27. With source checks on, an input that has neither the size and checksum of the source nor
  those of the target is refused with the checksum-mismatch code.
\<close>

theorem ups_apply_refuses_other_input:
  assumes "ar_patches req = [pf]"
    and "parse_ups_file crc32 (file_bytes pf) (scope_patch_integrity (patch_check_scopes ctx)) = Inr patch"
    and "honest_seed crc32 ctx (ar_input req)"
    and "scope_source (patch_check_scopes ctx)"
    and "file_len (ar_input req) \<noteq> ups_source_size patch \<or> crc32 (file_bytes (ar_input req)) \<noteq> ups_source_checksum patch"
    and "file_len (ar_input req) \<noteq> ups_target_size patch \<or> crc32 (file_bytes (ar_input req)) \<noteq> ups_target_checksum patch"
  shows "\<exists>msg. ups_apply crc32 ctx req = Inl (ValidationCode ''patch.checksum_mismatch'' msg)"
  using assms
  by (auto simp: ups_apply_def require_single_patch_file_def crc32_path_honest ups_resolve_apply_target_def
      Let_def coded_def)

lemma ups_apply_refuses_other_input_witness:
  "\<exists>msg. ups_apply sample_crc (plain_context 1) (ups_sample_request \<lparr>file_path = ''c'', file_bytes = [9]\<rparr>) =
    Inl (ValidationCode ''patch.checksum_mismatch'' msg)"
proof -
  obtain pc where parse: "parse_ups_file sample_crc ups_sample_patch (scope_patch_integrity (patch_check_scopes (plain_context 1))) =
    Inr (ups_sample_parsed pc)"
    using ups_sample_parse by blast
  show ?thesis
    by (rule ups_apply_refuses_other_input [where pf = "\<lparr>file_path = ''p'', file_bytes = ups_sample_patch\<rparr>"
          and patch = "ups_sample_parsed pc"])
      (use parse in \<open>simp_all add: ups_sample_parsed_def samples ups_sample_request_def patch_check_scopes_def plain_context_def
        all_scopes_def honest_seed_def\<close>)
qed

text \<open>
  With the target check off, validate accepts a request exactly when apply does.
\<close>

theorem ups_validate_iff_apply:
  assumes "\<not> scope_target (patch_check_scopes ctx)"
  shows "is_ok (ups_validate crc32 ctx req) \<longleftrightarrow> is_ok (ups_apply crc32 ctx req)"
proof -
  have ranges: "validate_ups_change_ranges patch = Inr u \<longleftrightarrow>
      (\<forall>c \<in> set (ups_changes patch). ups_in_bounds (max (ups_source_size patch) (ups_target_size patch)) c)"
    for patch u
  proof -
    have "fold_result (\<lambda>c _. ups_check_change m c) cs () = Inr u \<longleftrightarrow> (\<forall>c \<in> set cs. ups_in_bounds m c)" for m cs
      by (induction cs) (auto simp: result_iff ups_check_change_iff)
    then show ?thesis by (simp add: validate_ups_change_ranges_def Let_def)
  qed
  show ?thesis
  proof
    assume "is_ok (ups_validate crc32 ctx req)"
    then obtain pf patch ic n oc where pf: "require_single_patch_file (ar_patches req) ''UPS'' = Inr pf"
      and p: "parse_ups_file crc32 (file_bytes pf) (scope_patch_integrity (patch_check_scopes ctx)) = Inr patch"
        "crc32_path_cached crc32 (ar_input req) ctx = Inr ic"
        "ups_resolve_apply_target patch (file_len (ar_input req)) ic (scope_source (patch_check_scopes ctx)) = Inr (n, oc)"
      and r: "validate_ups_change_ranges patch = Inr ()"
      by (auto simp: is_ok_iff ups_validate_def result_iff Let_def)
    from pf have "ar_patches req = [pf]"
      by (cases "ar_patches req") (auto simp: require_single_patch_file_def split: if_splits)
    from ups_apply_outcome [OF this p] r [unfolded ranges] assms
    show "is_ok (ups_apply crc32 ctx req)" by (auto simp: is_ok_iff)
  next
    assume "is_ok (ups_apply crc32 ctx req)"
    then obtain out rep where ok: "ups_apply crc32 ctx req = Inr (out, rep)" by (auto simp: is_ok_iff)
    from ups_apply_parses [OF ok] obtain pf patch ic n oc where p: "ar_patches req = [pf]"
      "parse_ups_file crc32 (file_bytes pf) (scope_patch_integrity (patch_check_scopes ctx)) = Inr patch"
      "crc32_path_cached crc32 (ar_input req) ctx = Inr ic"
      "ups_resolve_apply_target patch (file_len (ar_input req)) ic (scope_source (patch_check_scopes ctx)) = Inr (n, oc)"
      by blast
    from ups_apply_outcome [OF p, of out] ok have "validate_ups_change_ranges patch = Inr ()"
      unfolding ranges by blast
    with p show "is_ok (ups_validate crc32 ctx req)"
      by (simp add: ups_validate_def require_single_patch_file_def Let_def)
  qed
qed

lemma ups_validate_iff_apply_witness:
  "is_ok (ups_validate sample_crc
     ((plain_context 1)\<lparr>ctx_scopes := Some \<lparr>scope_patch_integrity = True, scope_source = True, scope_target = False\<rparr>\<rparr>)
     (ups_sample_request sample_source))"
proof -
  let ?ctx = "(plain_context 1)\<lparr>ctx_scopes :=
      Some \<lparr>scope_patch_integrity = True, scope_source = True, scope_target = False\<rparr>\<rparr>"
  have "\<exists>rep. ups_apply sample_crc ?ctx (ups_sample_request sample_source) = Inr (file_bytes sample_target, rep)"
    unfolding ups_sample_request_def ups_sample_patch_def
    by (rule ups_apply_created) (simp_all add: samples honest_seed_def plain_context_def)
  then have "is_ok (ups_apply sample_crc ?ctx (ups_sample_request sample_source))" by auto
  then show ?thesis
    by (subst ups_validate_iff_apply) (simp_all add: patch_check_scopes_def)
qed

end
