(* ===== verification/Ips.thy ===== *)
theory Ips
  imports Handlers Readers
begin

text \<open>
  The IPS family (IPS, IPS32, EBP), \<open>rom-weaver-patches/src/ips.rs\<close>: the parser with its
  truncate footer and EBP metadata, the chunked apply, and validate.  JSON is parsed by a
  third-party crate; its result is the parameter \<open>json\<close>.
\<close>

section \<open>Flavors\<close>

datatype ips_flavor = Ips | Ips32 | Ebp

definition IPS_MAGIC :: bytes where
  "IPS_MAGIC = [0x50, 0x41, 0x54, 0x43, 0x48]"

definition IPS_EOF :: bytes where
  "IPS_EOF = [0x45, 0x4F, 0x46]"

definition IPS32_MAGIC :: bytes where
  "IPS32_MAGIC = [0x49, 0x50, 0x53, 0x33, 0x32]"

definition IPS32_EOF :: bytes where
  "IPS32_EOF = [0x45, 0x45, 0x4F, 0x46]"

definition OUTPUT_CHUNK_SIZE :: nat where
  "OUTPUT_CHUNK_SIZE = 2097152"

definition IPS_RESERVED_EOF_OFFSET :: nat where
  "IPS_RESERVED_EOF_OFFSET = 0x454F46"

definition IPS32_RESERVED_EOF_OFFSET :: nat where
  "IPS32_RESERVED_EOF_OFFSET = 0x45454F46"

definition EBP_SNIFF_MAX_BYTES :: nat where
  "EBP_SNIFF_MAX_BYTES = 65536"

fun flavor_header :: "ips_flavor \<Rightarrow> bytes" where
  "flavor_header Ips32 = IPS32_MAGIC"
| "flavor_header _ = IPS_MAGIC"

fun flavor_footer :: "ips_flavor \<Rightarrow> bytes" where
  "flavor_footer Ips32 = IPS32_EOF"
| "flavor_footer _ = IPS_EOF"

fun flavor_offset_len :: "ips_flavor \<Rightarrow> nat" where
  "flavor_offset_len Ips32 = 4"
| "flavor_offset_len _ = 3"

fun flavor_reserved_eof_offset :: "ips_flavor \<Rightarrow> nat" where
  "flavor_reserved_eof_offset Ips32 = IPS32_RESERVED_EOF_OFFSET"
| "flavor_reserved_eof_offset _ = IPS_RESERVED_EOF_OFFSET"

fun flavor_name :: "ips_flavor \<Rightarrow> string" where
  "flavor_name Ips = ''IPS''"
| "flavor_name Ips32 = ''IPS32''"
| "flavor_name Ebp = ''EBP''"

section \<open>Records and patches\<close>

datatype ips_record_data = Literal bytes | Rle u8

record ips_record =
  ir_offset :: nat
  ir_len :: nat
  ir_data :: ips_record_data

text \<open>A JSON value as far as the metadata check looks at it.\<close>

datatype json_value = JsonString string | JsonObject "(string \<times> json_value) list" | JsonOther

type_synonym json_map = "(string \<times> json_value) list"

record parsed_ips =
  ips_truncate_size :: "nat option"
  ips_metadata :: "json_map option"
  ips_warnings :: "message list"
  ips_max_written_end :: nat
  ips_records :: "ips_record list"

text \<open>The \<open>checked_add\<close> of \<open>ips.rs\<close>, with its own wording.\<close>

definition ips_checked_add :: "nat \<Rightarrow> nat \<Rightarrow> string \<Rightarrow> nat result" where
  "ips_checked_add left right label =
     ok_or (checked_add_opt left right) (invalid_fmt ''{} overflowed available range'' [Str label])"

lemma ips_checked_add_ok [simp]: "a + b \<le> u64_max \<Longrightarrow> ips_checked_add a b l = Inr (a + b)"
  by (simp add: ips_checked_add_def checked_add_opt_def)

lemma ips_checked_add_Ok_iff [result_iff]:
  "ips_checked_add a b l = Inr n \<longleftrightarrow> n = a + b \<and> n \<le> u64_max"
  by (auto simp: ips_checked_add_def checked_add_opt_def)

definition ips_record_end :: "ips_record \<Rightarrow> nat result" where
  "ips_record_end r = ips_checked_add (ir_offset r) (ir_len r) ''IPS record end''"

definition resolved_output_size :: "parsed_ips \<Rightarrow> nat \<Rightarrow> nat" where
  "resolved_output_size patch input_len =
     (let output_size = max input_len (ips_max_written_end patch)
      in case ips_truncate_size patch of None \<Rightarrow> output_size | Some t \<Rightarrow> min output_size t)"

section \<open>The parser\<close>

record ips_parser =
  ip_reader :: bytes
  ip_file_len :: nat
  ip_offset :: nat

definition ips_parser_new :: "bytes \<Rightarrow> nat \<Rightarrow> ips_parser" where
  "ips_parser_new rdr n = \<lparr>ip_reader = rdr, ip_file_len = n, ip_offset = 0\<rparr>"

definition ips_remaining :: "ips_parser \<Rightarrow> nat result" where
  "ips_remaining p =
     (if ip_offset p \<le> ip_file_len p then Inr (ip_file_len p - ip_offset p)
      else invalid ''IPS parser offset exceeded file size'')"

definition ips_read_exact :: "ips_parser \<Rightarrow> nat \<Rightarrow> (bytes \<times> ips_parser) result" where
  "ips_read_exact p n =
     and_then (ips_remaining p) (\<lambda>remaining.
     if n > remaining then invalid ''IPS patch ended unexpectedly while reading record data''
     else and_then (reader_read_exact (ip_reader p) n) (\<lambda>(bytes, rdr).
     and_then (ok_or (checked_add_opt (ip_offset p) n) (invalid ''IPS parser offset overflowed'')) (\<lambda>offset.
     Inr (bytes, p\<lparr>ip_reader := rdr, ip_offset := offset\<rparr>))))"

definition ips_read_u16 :: "ips_parser \<Rightarrow> (nat \<times> ips_parser) result" where
  "ips_read_u16 = read_uint_with ips_read_exact from_be 2"

definition ips_read_u24 :: "ips_parser \<Rightarrow> (nat \<times> ips_parser) result" where
  "ips_read_u24 = read_uint_with ips_read_exact from_be 3"

lemma ips_read_exact_progress:
  assumes "ips_read_exact p n = Inr (bs, q)"
  shows "ip_offset q = ip_offset p + n" and "ip_file_len q = ip_file_len p" and "ip_offset q \<le> ip_file_len q"
    and "length bs = n"
  using assms
  by (auto simp: ips_read_exact_def ips_remaining_def reader_read_exact_def checked_add_opt_def result_iff
      split: if_splits)

lemma ips_read_u16_progress:
  assumes "ips_read_u16 p = Inr (v, q)"
  shows "ip_offset q = ip_offset p + 2" and "ip_file_len q = ip_file_len p" and "ip_offset q \<le> ip_file_len q"
  using assms ips_read_exact_progress [of p 2]
  by (auto simp: ips_read_u16_def read_uint_with_def result_iff)

section \<open>EBP metadata\<close>

text \<open>\<open>std::str::from_utf8\<close>: well-formed UTF-8, without overlong forms and surrogates.\<close>

definition utf8_tail :: "u8 \<Rightarrow> bool" where
  "utf8_tail b \<longleftrightarrow> 0x80 \<le> b \<and> b \<le> 0xBF"

fun utf8_valid :: "bytes \<Rightarrow> bool" where
  "utf8_valid [] = True"
| "utf8_valid (a # rest) =
     (if a \<le> 0x7F then utf8_valid rest
      else if 0xC2 \<le> a \<and> a \<le> 0xDF then
        (case rest of b # rest \<Rightarrow> utf8_tail b \<and> utf8_valid rest | _ \<Rightarrow> False)
      else if 0xE0 \<le> a \<and> a \<le> 0xEF then
        (case rest of
           b # c # rest \<Rightarrow>
             (if a = 0xE0 then 0xA0 \<le> b \<and> b \<le> 0xBF
              else if a = 0xED then 0x80 \<le> b \<and> b \<le> 0x9F
              else utf8_tail b) \<and> utf8_tail c \<and> utf8_valid rest
         | _ \<Rightarrow> False)
      else if 0xF0 \<le> a \<and> a \<le> 0xF4 then
        (case rest of
           b # c # d # rest \<Rightarrow>
             (if a = 0xF0 then 0x90 \<le> b \<and> b \<le> 0xBF
              else if a = 0xF4 then 0x80 \<le> b \<and> b \<le> 0x8F
              else utf8_tail b) \<and> utf8_tail c \<and> utf8_tail d \<and> utf8_valid rest
         | _ \<Rightarrow> False)
      else False)"

fun is_json_string :: "json_value \<Rightarrow> bool" where
  "is_json_string (JsonString _) = True"
| "is_json_string _ = False"

definition parse_ebp_metadata :: "(bytes \<Rightarrow> json_value option) \<Rightarrow> bytes \<Rightarrow> json_map result" where
  "parse_ebp_metadata json bytes =
     (if \<not> utf8_valid bytes then invalid ''EBP metadata is not valid UTF-8 JSON''
      else case json bytes of
        None \<Rightarrow> invalid ''EBP metadata is not valid JSON''
      | Some (JsonObject members) \<Rightarrow>
          and_then
            (fold_result
               (\<lambda>(key, value) _.
                  if is_json_string value then Inr ()
                  else invalid_fmt ''EBP metadata value for `{}` must be a string'' [Str key])
               members ())
            (\<lambda>_. Inr members)
      | Some _ \<Rightarrow> invalid ''EBP metadata must be a JSON object'')"

definition sniff_ebp_metadata :: "(bytes \<Rightarrow> json_value option) \<Rightarrow> bytes \<Rightarrow> json_map option" where
  "sniff_ebp_metadata json trailing =
     (case parse_ebp_metadata json trailing of Inr m \<Rightarrow> Some m | Inl _ \<Rightarrow> None)"

section \<open>Parsing\<close>

definition handle_unexpected_ips_trailing_bytes ::
  "nat \<Rightarrow> checksum_validation \<Rightarrow> message list \<Rightarrow> message list result" where
  "handle_unexpected_ips_trailing_bytes trailing_len validation warnings =
     (if validation = Strict
      then invalid_fmt ''IPS patch contained unexpected {} trailing byte(s) after EOF in IPS patch'' [Num trailing_len]
      else Inr (warnings @ [Msg ''ignored {} trailing byte(s) after EOF in IPS patch'' [Num trailing_len]]))"

definition handle_zero_length_rle_record ::
  "nat \<Rightarrow> checksum_validation \<Rightarrow> message list \<Rightarrow> message list result" where
  "handle_zero_length_rle_record offset validation warnings =
     (if validation = Strict
      then invalid_fmt ''IPS patch contained invalid zero-length IPS RLE record at offset {}'' [Num offset]
      else Inr (warnings @ [Msg ''ignored zero-length IPS RLE record at offset {}'' [Num offset]]))"

definition warn_if_records_exceed_truncate_size ::
  "nat option \<Rightarrow> nat \<Rightarrow> message list \<Rightarrow> message list" where
  "warn_if_records_exceed_truncate_size truncate_size max_written_end warnings =
     (case truncate_size of
        Some n \<Rightarrow>
          if max_written_end > n
          then warnings @ [Msg ''IPS patch appears scrambled or malformed; records extend past truncate size {}'' [Num n]]
          else warnings
      | None \<Rightarrow> warnings)"

text \<open>What follows the footer.\<close>

definition ips_read_trailer ::
  "(bytes \<Rightarrow> json_value option) \<Rightarrow> ips_flavor \<Rightarrow> checksum_validation \<Rightarrow> ips_parser \<Rightarrow> message list \<Rightarrow>
   (nat option \<times> json_map option \<times> message list) result" where
  "ips_read_trailer json flavor validation parser warnings =
     and_then (ips_remaining parser) (\<lambda>trailing_len.
     if trailing_len = 0 then Inr (None, None, warnings)
     else case flavor of
       Ips \<Rightarrow>
         (if trailing_len = 3
          then and_then (ips_read_u24 parser) (\<lambda>(n, _). Inr (Some n, None, warnings))
          else
            and_then
              (if trailing_len \<le> EBP_SNIFF_MAX_BYTES
               then and_then (ips_read_exact parser trailing_len) (\<lambda>(bytes, _). Inr (sniff_ebp_metadata json bytes))
               else Inr None) (\<lambda>sniffed.
            and_then
              (if sniffed = None then handle_unexpected_ips_trailing_bytes trailing_len validation warnings
               else Inr warnings) (\<lambda>warnings.
            Inr (None, sniffed, warnings))))
     | Ips32 \<Rightarrow> invalid ''IPS32 patch contained unexpected trailing data after EEOF''
     | Ebp \<Rightarrow>
         and_then (ips_read_exact parser trailing_len) (\<lambda>(bytes, _).
         and_then (parse_ebp_metadata json bytes) (\<lambda>metadata.
         Inr (None, Some metadata, warnings))))"

lemma flavor_footer_length: "0 < length (flavor_footer flavor)"
  by (cases flavor) (simp_all add: IPS_EOF_def IPS32_EOF_def)

lemma ips_parse_measure:
  assumes "ips_read_exact p n = Inr (m, p1)" and "0 < n" and "ip_file_len q = ip_file_len p1"
    and "ip_offset p1 \<le> ip_offset q"
  shows "ip_file_len q - ip_offset q < ip_file_len p - ip_offset p"
  using ips_read_exact_progress [OF assms(1)] assms(2-4) by auto

text \<open>
  The record loop.  The marker is the footer or a big-endian offset; a size of zero announces
  a run-length record.
\<close>

function ips_parse_loop ::
  "(bytes \<Rightarrow> json_value option) \<Rightarrow> ips_flavor \<Rightarrow> checksum_validation \<Rightarrow> ips_parser \<Rightarrow>
   ips_record list \<Rightarrow> message list \<Rightarrow> nat \<Rightarrow> parsed_ips result" where
  "ips_parse_loop json flavor validation parser records warnings max_written_end =
     and_then (ips_read_exact parser (length (flavor_footer flavor))) (\<lambda>(marker, p1).
     if marker = flavor_footer flavor
     then and_then (ips_read_trailer json flavor validation p1 warnings) (\<lambda>(truncate_size, metadata, warnings).
          Inr \<lparr>ips_truncate_size = truncate_size, ips_metadata = metadata,
               ips_warnings = warn_if_records_exceed_truncate_size truncate_size max_written_end warnings,
               ips_max_written_end = max_written_end, ips_records = records\<rparr>)
     else
       let offset = from_be marker
       in and_then (ips_read_u16 p1) (\<lambda>(sz, p2).
          if sz = 0
          then and_then (ips_read_u16 p2) (\<lambda>(rle_len, p3).
               and_then (ips_read_exact p3 1) (\<lambda>(bytes, p4).
               if rle_len = 0
               then and_then (handle_zero_length_rle_record offset validation warnings) (\<lambda>warnings.
                    ips_parse_loop json flavor validation p4 records warnings max_written_end)
               else and_then (ips_checked_add offset rle_len ''IPS record end'') (\<lambda>stop.
                    ips_parse_loop json flavor validation p4
                      (records @ [\<lparr>ir_offset = offset, ir_len = rle_len, ir_data = Rle (bytes ! 0)\<rparr>])
                      warnings (max max_written_end stop))))
          else and_then (ips_read_exact p2 sz) (\<lambda>(data, p3).
               and_then (ips_checked_add offset sz ''IPS record end'') (\<lambda>stop.
               ips_parse_loop json flavor validation p3
                 (records @ [\<lparr>ir_offset = offset, ir_len = sz, ir_data = Literal data\<rparr>])
                 warnings (max max_written_end stop)))))"
  by pat_completeness auto
termination
proof (relation "measure (\<lambda>(_, _, _, p, _). ip_file_len p - ip_offset p)", goal_cases)
  case (2 json flavor validation parser records warnings mx mp1 marker p1 offset sp2 sz p2 rp3 rle_len p3 bp4 bytes p4 w)
  with ips_read_u16_progress [of p1 sz p2] ips_read_u16_progress [of p2 rle_len p3]
    ips_read_exact_progress [of p3 1 bytes p4]
    ips_parse_measure [of parser _ marker p1 p4, OF _ flavor_footer_length]
  show ?case by auto
next
  case (3 json flavor validation parser records warnings mx mp1 marker p1 offset sp2 sz p2 rp3 rle_len p3 bp4 bytes p4 stop)
  with ips_read_u16_progress [of p1 sz p2] ips_read_u16_progress [of p2 rle_len p3]
    ips_read_exact_progress [of p3 1 bytes p4]
    ips_parse_measure [of parser _ marker p1 p4, OF _ flavor_footer_length]
  show ?case by auto
next
  case (4 json flavor validation parser records warnings mx mp1 marker p1 offset sp2 sz p2 dp3 data p3 stop)
  with ips_read_u16_progress [of p1 sz p2] ips_read_exact_progress [of p2 sz data p3]
    ips_parse_measure [of parser _ marker p1 p3, OF _ flavor_footer_length]
  show ?case by auto
qed simp

declare ips_parse_loop.simps [simp del]

definition parse_ips_file ::
  "(bytes \<Rightarrow> json_value option) \<Rightarrow> bytes \<Rightarrow> ips_flavor \<Rightarrow> checksum_validation \<Rightarrow> parsed_ips result" where
  "parse_ips_file json patch flavor validation =
     (if length patch < length (flavor_header flavor) + length (flavor_footer flavor)
      then invalid ''IPS patch is too small to contain a valid header and footer''
      else
        and_then (ips_read_exact (ips_parser_new patch (length patch)) (length (flavor_header flavor)))
          (\<lambda>(header, parser).
        if header \<noteq> flavor_header flavor then coded ''IPS_HEADER_INVALID'' ''Patch header invalid'' []
        else ips_parse_loop json flavor validation parser [] [] 0))"

definition ips_parse_label :: "string \<Rightarrow> parsed_ips \<Rightarrow> message list" where
  "ips_parse_label format_name patch =
     append_warning_labels
       ([Msg ''parsed {} patch with {} record(s)'' [Str format_name, Num (length (ips_records patch))]] @
        (case ips_truncate_size patch of Some n \<Rightarrow> [Msg '' and output size {}'' [Num n]] | None \<Rightarrow> []) @
        (if ips_metadata patch \<noteq> None then [Msg '' and metadata'' []] else []))
       (ips_warnings patch)"

definition ips_parse :: "(bytes \<Rightarrow> json_value option) \<Rightarrow> ips_flavor \<Rightarrow> op_context \<Rightarrow> stored_file \<Rightarrow> report result" where
  "ips_parse json flavor ctx patch_file =
     and_then (parse_ips_file json (file_bytes patch_file) flavor (ctx_validation ctx)) (\<lambda>patch.
     Inr (patch_success_report (flavor_name flavor) ''parse'' (ips_parse_label (flavor_name flavor) patch) None))"

section \<open>Probing\<close>

record ips_probe_record =
  pr_offset :: nat
  pr_len :: nat
  pr_first :: u8
  pr_last :: u8

record ips_probe_data =
  pd_records :: "ips_probe_record list"
  pd_truncate_size :: "nat option"
  pd_prefix_writes :: "u8 option list"

definition IPS_PROBE_PREFIX_BYTES :: nat where
  "IPS_PROBE_PREFIX_BYTES = 4"

text \<open>
  \<open>sort_unstable\<close> on pairs orders them lexicographically, and elements that compare equal
  are equal, so any sort gives the same list.
\<close>

definition probe_spans :: "ips_probe_record list \<Rightarrow> (nat \<times> nat) list" where
  "probe_spans records =
     List.map_filter
       (\<lambda>r. if 0 < pr_len r then map_option (Pair (pr_offset r)) (checked_add_opt (pr_offset r) (pr_len r))
            else None)
       records"

fun spans_overlap :: "nat \<Rightarrow> (nat \<times> nat) list \<Rightarrow> bool" where
  "spans_overlap covered_to [] = False"
| "spans_overlap covered_to ((start, stop) # spans) =
     (if start < covered_to then True else spans_overlap (max covered_to stop) spans)"

definition records_overlap :: "ips_probe_record list \<Rightarrow> bool" where
  "records_overlap records = spans_overlap 0 (sort_key fst (sort_key snd (probe_spans records)))"

definition ascii_lowercase :: "string \<Rightarrow> string" where
  "ascii_lowercase s =
     map (\<lambda>c. let n = of_char c :: nat in if 65 \<le> n \<and> n \<le> 90 then char_of (n + 32) else c) s"

definition probe_ips_flavor :: "string option \<Rightarrow> bytes \<Rightarrow> ips_flavor option" where
  "probe_ips_flavor extension magic =
     (if take 5 magic = IPS32_MAGIC then Some Ips32
      else if take 5 magic \<noteq> IPS_MAGIC then None
      else if extension \<noteq> None \<and>
              ascii_lowercase (the extension) = ''ebp''
           then Some Ebp else Some Ips)"

definition ips_record_byte :: "ips_record \<Rightarrow> nat \<Rightarrow> u8" where
  "ips_record_byte r i = (case ir_data r of Rle b \<Rightarrow> b | Literal data \<Rightarrow> data ! (i - ir_offset r))"

definition collect_ips_prefix_writes :: "ips_record list \<Rightarrow> u8 option list" where
  "collect_ips_prefix_writes records =
     fold
       (\<lambda>r prefix.
          if ir_offset r \<ge> IPS_PROBE_PREFIX_BYTES \<or> ir_len r = 0 then prefix
          else fold (\<lambda>offset prefix. prefix[offset := Some (ips_record_byte r offset)])
                 [ir_offset r..<min (saturating_add (ir_offset r) (ir_len r)) IPS_PROBE_PREFIX_BYTES] prefix)
       records (replicate IPS_PROBE_PREFIX_BYTES None)"

definition ips_probe_edges :: "ips_record \<Rightarrow> ips_probe_record" where
  "ips_probe_edges r =
     (let (first, last) =
        (case ir_data r of
           Rle b \<Rightarrow> (b, b)
         | Literal data \<Rightarrow> (if data = [] then (0, 0) else (hd data, List.last data)))
      in \<lparr>pr_offset = ir_offset r, pr_len = ir_len r, pr_first = first, pr_last = last\<rparr>)"

definition probe_ips_records ::
  "(bytes \<Rightarrow> json_value option) \<Rightarrow> string option \<Rightarrow> bytes \<Rightarrow> ips_probe_data option result" where
  "probe_ips_records json extension patch_bytes =
     (if length patch_bytes < 5 then Inr None
      else case probe_ips_flavor extension (take 5 patch_bytes) of
        None \<Rightarrow> Inr None
      | Some flavor \<Rightarrow>
          and_then (parse_ips_file json patch_bytes flavor IgnoreChecksums) (\<lambda>patch.
          Inr (Some \<lparr>pd_records = map ips_probe_edges (ips_records patch),
                     pd_truncate_size = ips_truncate_size patch,
                     pd_prefix_writes = collect_ips_prefix_writes (ips_records patch)\<rparr>)))"

section \<open>Apply\<close>

record chunk_task =
  ct_chunk :: file_chunk
  ct_record_indexes :: "nat list"

definition ips_max_parallel_chunks :: "nat \<Rightarrow> nat result" where
  "ips_max_parallel_chunks output_size =
     chunk_count_for_len_checked output_size OUTPUT_CHUNK_SIZE
       ''IPS output required more chunks than this platform can index''"

text \<open>Every chunk gets the indices of the records that touch it, in patch order.\<close>

definition push_record_index :: "nat \<Rightarrow> ips_record list \<Rightarrow> nat \<Rightarrow> nat list list \<Rightarrow> nat list list result" where
  "push_record_index output_size records record_index record_indexes =
     (let r = records ! record_index
      in and_then (ips_record_end r) (\<lambda>record_end.
         let clipped_end = min record_end output_size
         in if clipped_end \<le> ir_offset r then Inr record_indexes
            else
              let start_chunk = ir_offset r div OUTPUT_CHUNK_SIZE;
                  end_chunk = (clipped_end - 1) div OUTPUT_CHUNK_SIZE
              in Inr (map (\<lambda>k. if start_chunk \<le> k \<and> k \<le> end_chunk
                               then record_indexes ! k @ [record_index] else record_indexes ! k)
                        [0..<length record_indexes])))"

definition build_chunk_tasks :: "parsed_ips \<Rightarrow> nat \<Rightarrow> chunk_task list result" where
  "build_chunk_tasks patch output_size =
     and_then (chunk_planner_new OUTPUT_CHUNK_SIZE) (\<lambda>planner.
     let chunks = chunk_plan planner output_size
     in and_then
          (fold_result (push_record_index output_size (ips_records patch)) [0..<length (ips_records patch)]
             (replicate (length chunks) []))
          (\<lambda>record_indexes.
             Inr (map2 (\<lambda>chunk indexes. \<lparr>ct_chunk = chunk, ct_record_indexes = indexes\<rparr>) chunks record_indexes)))"

text \<open>\<open>read_input_chunk\<close> over the zeroed buffer.\<close>

definition ips_read_input_chunk :: "bytes \<Rightarrow> file_chunk \<Rightarrow> bytes result" where
  "ips_read_input_chunk input chunk =
     (if chunk_len chunk = 0 \<or> chunk_offset chunk \<ge> length input
      then Inr (replicate (chunk_len chunk) 0)
      else
        let bytes_to_read = min (length input - chunk_offset chunk) (chunk_len chunk)
        in if bytes_to_read = 0 then Inr (replicate (chunk_len chunk) 0)
           else and_then (seek_read_exact input (chunk_offset chunk) bytes_to_read) (\<lambda>bytes.
                Inr (bytes @ replicate (chunk_len chunk - bytes_to_read) 0)))"

definition render_record :: "nat \<Rightarrow> nat \<Rightarrow> ips_record \<Rightarrow> bytes \<times> bool \<Rightarrow> (bytes \<times> bool) result" where
  "render_record chunk_start chunk_end r st =
     (let (buffer, changed) = st
      in and_then (ips_record_end r) (\<lambda>record_end.
         let overlap_start = max chunk_start (ir_offset r);
             overlap_end = min chunk_end record_end
         in if overlap_end \<le> overlap_start then Inr (buffer, changed)
            else
              let dst_start = overlap_start - chunk_start;
                  overlap_len = overlap_end - overlap_start;
                  target = segment buffer dst_start overlap_len
              in case ir_data r of
                   Literal data \<Rightarrow>
                     let source = segment data (overlap_start - ir_offset r) overlap_len
                     in Inr (write_at dst_start source buffer, changed \<or> target \<noteq> source)
                 | Rle byte \<Rightarrow>
                     Inr (write_at dst_start (replicate overlap_len byte) buffer,
                          changed \<or> (\<exists>value \<in> set target. value \<noteq> byte))))"

text \<open>A rendered chunk: the bytes of its temporary file and whether they changed.\<close>

definition render_chunk_task :: "bytes \<Rightarrow> parsed_ips \<Rightarrow> chunk_task \<Rightarrow> (bytes \<times> bool) result" where
  "render_chunk_task input patch task =
     and_then (ips_read_input_chunk input (ct_chunk task)) (\<lambda>buffer.
     let chunk_start = chunk_offset (ct_chunk task)
     in and_then (ips_checked_add chunk_start (chunk_len (ct_chunk task)) ''IPS chunk end'') (\<lambda>chunk_end.
        fold_result (\<lambda>record_index. render_record chunk_start chunk_end (ips_records patch ! record_index))
          (ct_record_indexes task) (buffer, False)))"

definition ips_assemble_output :: "bytes list \<Rightarrow> bytes" where
  "ips_assemble_output chunk_files = concat chunk_files"

definition ips_apply_warning_labels :: "string \<Rightarrow> parsed_ips \<Rightarrow> nat \<Rightarrow> bool \<Rightarrow> message list" where
  "ips_apply_warning_labels format_name patch input_len did_change =
     (if \<not> did_change
      then ips_warnings patch @ [Msg ''{} patch did not change output; input may already be patched'' [Str format_name]]
      else case ips_truncate_size patch of
        Some n \<Rightarrow>
          if input_len \<le> n
          then ips_warnings patch @
            [Msg ''{} patch truncate footer was not needed; patch may not be intended for this input'' [Str format_name]]
          else ips_warnings patch
      | None \<Rightarrow> ips_warnings patch)"

definition ips_apply ::
  "(bytes \<Rightarrow> json_value option) \<Rightarrow> ips_flavor \<Rightarrow> op_context \<Rightarrow> apply_request \<Rightarrow> (bytes \<times> report) result" where
  "ips_apply json flavor ctx request =
     (let name = flavor_name flavor; input = file_bytes (ar_input request); input_len = length input in
      and_then (require_single_patch_file (ar_patches request) name) (\<lambda>patch_file.
      and_then (parse_ips_file json (file_bytes patch_file) flavor (ctx_validation ctx)) (\<lambda>patch.
      let output_size = resolved_output_size patch input_len in
      and_then (ensure_plausible_output_len name output_size input_len (file_len patch_file)) (\<lambda>_.
      and_then (ips_max_parallel_chunks output_size) (\<lambda>max_chunks.
      and_then (build_chunk_tasks patch output_size) (\<lambda>tasks.
      and_then
        (run_with_optional_pool ctx (Parallel (Some max_chunks)) True
           (\<lambda>pool. map_result (render_chunk_task input patch) tasks)
           (map_result (render_chunk_task input patch) tasks)) (\<lambda>(execution, rendered).
      let output = ips_assemble_output (map fst rendered);
          did_change = (output_size \<noteq> input_len \<or> (\<exists>r \<in> set rendered. snd r));
          warnings = ips_apply_warning_labels name patch input_len did_change
      in Inr (output, patch_success_report name ''apply''
                (append_warning_labels
                   [Msg ''applied {} patch with {} record(s)'' [Str name, Num (length (ips_records patch))]]
                   warnings) (Some execution)))))))))"

definition ips_validate ::
  "(bytes \<Rightarrow> json_value option) \<Rightarrow> ips_flavor \<Rightarrow> op_context \<Rightarrow> apply_request \<Rightarrow> report result" where
  "ips_validate json flavor ctx request =
     (let name = flavor_name flavor; input_len = file_len (ar_input request) in
      and_then (require_single_patch_file (ar_patches request) name) (\<lambda>patch_file.
      and_then (parse_ips_file json (file_bytes patch_file) flavor (ctx_validation ctx)) (\<lambda>patch.
      let output_size = resolved_output_size patch input_len in
      and_then (ensure_plausible_output_len name output_size input_len (file_len patch_file)) (\<lambda>_.
      and_then (ips_max_parallel_chunks output_size) (\<lambda>_.
      Inr (patch_success_report name ''validate''
        [Msg ''validated {} patch structure with {} record(s); output would be {} byte(s)''
           [Str name, Num (length (ips_records patch)), Num output_size]]
        (Some (single_thread_execution ctx))))))))"

end
