(* ===== verification/Ips_Apply.thy ===== *)
theory Ips_Apply
  imports Ips
begin

text \<open>
  What an IPS apply computes: the records written in patch order over the input zero-padded
  to the output size, cut at the output size.  The chunked renderer, in which every chunk
  sees only the records that touch it, computes the same.
\<close>

section \<open>Records as writes\<close>

definition ips_good :: "ips_record \<Rightarrow> bool" where
  "ips_good r \<longleftrightarrow> 0 < ir_len r \<and> ir_offset r + ir_len r \<le> u64_max \<and>
     (case ir_data r of Literal data \<Rightarrow> length data = ir_len r | Rle _ \<Rightarrow> True)"

definition ips_stop :: "ips_record \<Rightarrow> nat" where
  "ips_stop r = ir_offset r + ir_len r"

definition ips_write :: "ips_record \<Rightarrow> prepared_write" where
  "ips_write r =
     \<lparr>pw_offset = ir_offset r,
      pw_data = (case ir_data r of Literal data \<Rightarrow> data | Rle b \<Rightarrow> replicate (ir_len r) b)\<rparr>"

lemma ips_record_end_good [simp]: "ips_good r \<Longrightarrow> ips_record_end r = Inr (ips_stop r)"
  by (simp add: ips_good_def ips_record_end_def ips_stop_def)

lemma ips_write_sel:
  assumes "ips_good r"
  shows "pw_offset (ips_write r) = ir_offset r" and "length (pw_data (ips_write r)) = ir_len r"
    and "write_end (ips_write r) = ips_stop r" and "pw_data (ips_write r) \<noteq> []"
  using assms by (auto simp: ips_write_def ips_good_def write_end_def ips_stop_def split: ips_record_data.splits)

lemma ips_write_byte:
  assumes "ips_good r" and "ir_offset r \<le> i" and "i < ips_stop r"
  shows "pw_data (ips_write r) ! (i - ir_offset r) = ips_record_byte r i"
  using assms by (auto simp: ips_write_def ips_record_byte_def ips_stop_def split: ips_record_data.splits)

text \<open>One record written into a file of fixed length.\<close>

definition clip_write :: "nat \<Rightarrow> ips_record \<Rightarrow> bytes \<Rightarrow> bytes" where
  "clip_write n r f = set_len n (write_at (ir_offset r) (pw_data (ips_write r)) f)"

definition ips_output :: "nat \<Rightarrow> bytes \<Rightarrow> ips_record list \<Rightarrow> bytes" where
  "ips_output n input rs = fold (clip_write n) rs (set_len n input)"

lemma length_clip_write [simp]: "length (clip_write n r f) = n"
  by (simp add: clip_write_def)

lemma byte_at_clip_write:
  assumes "ips_good r" and "i < n"
  shows "byte_at (clip_write n r f) i =
    (if ir_offset r \<le> i \<and> i < ips_stop r then ips_record_byte r i else byte_at f i)"
  using assms ips_write_byte [OF assms(1)] ips_write_sel [OF assms(1)]
  by (auto simp: clip_write_def byte_at_pad_to byte_at_write_at ips_stop_def)

lemma length_fold_clip: "length f = n \<Longrightarrow> length (fold (clip_write n) rs f) = n"
  by (induction rs arbitrary: f) auto

lemma length_ips_output [simp]: "length (ips_output n input rs) = n"
  by (simp add: ips_output_def length_fold_clip)

text \<open>Without a cut the output is the plain sequence of positioned writes.\<close>

lemma ips_output_writes:
  assumes "\<forall>r \<in> set rs. ips_good r \<and> ips_stop r \<le> n"
  shows "ips_output n input rs = apply_prepared_writes (set_len n input) (map ips_write rs)"
proof -
  have "length f = n \<Longrightarrow> fold (clip_write n) rs f = apply_prepared_writes f (map ips_write rs)" for f
    using assms
  proof (induction rs arbitrary: f)
    case (Cons r rs)
    then have good: "ips_good r" "ips_stop r \<le> n" by simp_all
    have len: "length (write_at (ir_offset r) (pw_data (ips_write r)) f) = n"
      using good ips_write_sel [OF good(1)] Cons.prems(1)
      by (simp add: length_write_at write_end_def max_def)
    then have "clip_write n r f = write_at (ir_offset r) (pw_data (ips_write r)) f"
      unfolding clip_write_def by (metis pad_to_self)
    then show ?case
      using Cons len ips_write_sel(1) [OF good(1)] by simp
  qed simp
  then show ?thesis by (simp add: ips_output_def)
qed

section \<open>Rendering one record into a chunk\<close>

lemma byte_at_segment_at: "cs \<le> i \<Longrightarrow> i - cs < n \<Longrightarrow> byte_at (segment f cs n) (i - cs) = byte_at f i"
  by (simp add: byte_at_segment)

lemma segment_clip_write:
  assumes good: "ips_good r" and f: "length f = n" and c: "cs < ce" "ce \<le> n"
    and lo: "lo = max cs (ir_offset r)" and hi: "hi = min ce (ips_stop r)" and ov: "lo < hi"
    and d: "length d = hi - lo" "\<And>i. lo \<le> i \<Longrightarrow> i < hi \<Longrightarrow> d ! (i - lo) = ips_record_byte r i"
  shows "write_at (lo - cs) d (segment f cs (ce - cs)) = segment (clip_write n r f) cs (ce - cs)"
proof (rule file_eqI)
  show "length (write_at (lo - cs) d (segment f cs (ce - cs))) = length (segment (clip_write n r f) cs (ce - cs))"
    using d(1) c lo hi ov f by (auto simp: length_write_at)
next
  fix i
  assume i: "i < length (segment (clip_write n r f) cs (ce - cs))"
  then have "i < ce - cs" using c by simp
  then have ci: "cs + i < ce" "cs + i < n" using c by auto
  have rhs: "byte_at (segment (clip_write n r f) cs (ce - cs)) i =
      (if ir_offset r \<le> cs + i \<and> cs + i < ips_stop r then ips_record_byte r (cs + i) else byte_at f (cs + i))"
    using \<open>i < ce - cs\<close> ci byte_at_clip_write [OF good ci(2), of f] by (simp add: byte_at_segment)
  have inside: "lo - cs \<le> i \<and> i < lo - cs + length d \<longleftrightarrow> ir_offset r \<le> cs + i \<and> cs + i < ips_stop r"
    using d(1) lo hi ov ci by auto
  have "d ! (i - (lo - cs)) = ips_record_byte r (cs + i)" if "lo - cs \<le> i" "i < lo - cs + length d"
  proof -
    have "cs \<le> lo" "lo \<le> cs + i" "cs + i < hi" using that d(1) lo ov by auto
    moreover have "i - (lo - cs) = cs + i - lo" using \<open>cs \<le> lo\<close> that by simp
    ultimately show ?thesis using d(2) by simp
  qed
  then show "byte_at (write_at (lo - cs) d (segment f cs (ce - cs))) i =
      byte_at (segment (clip_write n r f) cs (ce - cs)) i"
    unfolding rhs byte_at_write_at using inside \<open>i < ce - cs\<close> by (auto simp: byte_at_segment)
qed

lemma segment_clip_write_apart:
  assumes good: "ips_good r" and f: "length f = n" and c: "ce \<le> n"
    and apart: "min ce (ips_stop r) \<le> max cs (ir_offset r)"
  shows "segment (clip_write n r f) cs (ce - cs) = segment f cs (ce - cs)"
proof (rule file_eqI)
  show "length (segment (clip_write n r f) cs (ce - cs)) = length (segment f cs (ce - cs))"
    using f by simp
next
  fix i
  assume "i < length (segment f cs (ce - cs))"
  then have "i < ce - cs" "cs + i < n" using f by auto
  then show "byte_at (segment (clip_write n r f) cs (ce - cs)) i = byte_at (segment f cs (ce - cs)) i"
    using apart byte_at_clip_write [OF good, of "cs + i" n f] by (auto simp: byte_at_segment)
qed

lemma write_at_same:
  assumes "off + length d \<le> length f"
  shows "write_at off d f = f \<longleftrightarrow> segment f off (length d) = d"
proof
  assume "write_at off d f = f"
  then have "byte_at f (off + i) = d ! i" if "i < length d" for i
    using that byte_at_write_at [of off d f "off + i"] by simp
  then show "segment f off (length d) = d"
    using assms by (intro nth_equalityI) (auto simp: nth_segment)
next
  assume eq: "segment f off (length d) = d"
  have "d ! (i - off) = byte_at f i" if "off \<le> i" "i < off + length d" for i
    using that assms arg_cong [OF eq, of "\<lambda>xs. xs ! (i - off)"] by (simp add: nth_segment)
  then show "write_at off d f = f"
    using assms by (intro file_eqI) (auto simp: length_write_at byte_at_write_at)
qed

lemma ex_other_iff: "(\<exists>v \<in> set xs. v \<noteq> b) \<longleftrightarrow> xs \<noteq> replicate (length xs) b"
  by (metis in_set_replicate replicate_eqI)

lemma render_record_ok:
  assumes good: "ips_good r" and f: "length f = n" and c: "cs < ce" "ce \<le> n"
  shows "render_record cs ce r (segment f cs (ce - cs), changed) =
    Inr (segment (clip_write n r f) cs (ce - cs),
         changed \<or> segment (clip_write n r f) cs (ce - cs) \<noteq> segment f cs (ce - cs))"
proof (cases "min ce (ips_stop r) \<le> max cs (ir_offset r)")
  case True
  then show ?thesis
    using good segment_clip_write_apart [OF good f c(2) True] by (simp add: render_record_def Let_def)
next
  case False
  define lo hi where "lo = max cs (ir_offset r)" and "hi = min ce (ips_stop r)"
  let ?buf = "segment f cs (ce - cs)"
  have ov: "lo < hi" using False unfolding lo_def hi_def by (rule not_le_imp_less)
  have fit: "lo - cs + (hi - lo) \<le> length ?buf" using c f ov by (simp add: lo_def hi_def)
  from fit have "min (hi - lo) (length ?buf - (lo - cs)) = hi - lo" by linarith
  then have len: "length (segment ?buf (lo - cs) (hi - lo)) = hi - lo" by (simp only: length_segment)
  note wr = segment_clip_write [OF good f c lo_def hi_def ov]
  have main: "render_record cs ce r (?buf, changed) =
      Inr (write_at (lo - cs) d ?buf, changed \<or> segment ?buf (lo - cs) (hi - lo) \<noteq> d)"
    if "ir_data r = Literal data \<and> d = segment data (lo - ir_offset r) (hi - lo) \<or>
        ir_data r = Rle b \<and> d = replicate (hi - lo) b" for d data b
    using that good ov len
    by (auto simp: render_record_def Let_def lo_def [symmetric] hi_def [symmetric] ex_other_iff)
  obtain d where d: "length d = hi - lo" "\<And>i. lo \<le> i \<Longrightarrow> i < hi \<Longrightarrow> d ! (i - lo) = ips_record_byte r i"
    and render: "render_record cs ce r (?buf, changed) =
      Inr (write_at (lo - cs) d ?buf, changed \<or> segment ?buf (lo - cs) (hi - lo) \<noteq> d)"
  proof (cases "ir_data r")
    case (Literal data)
    then have "length data = ir_len r" using good by (simp add: ips_good_def)
    then have data: "lo - ir_offset r + (hi - lo) \<le> length data"
      using ov by (simp add: lo_def hi_def ips_stop_def)
    show ?thesis
    proof (rule that)
      show "length (segment data (lo - ir_offset r) (hi - lo)) = hi - lo" using data by simp
      show "segment data (lo - ir_offset r) (hi - lo) ! (i - lo) = ips_record_byte r i" if "lo \<le> i" "i < hi" for i
        using that data Literal by (subst nth_segment) (auto simp: ips_record_byte_def lo_def)
      show "render_record cs ce r (?buf, changed) = Inr (write_at (lo - cs) (segment data (lo - ir_offset r) (hi - lo)) ?buf,
          changed \<or> segment ?buf (lo - cs) (hi - lo) \<noteq> segment data (lo - ir_offset r) (hi - lo))"
        by (rule main) (use Literal in auto)
    qed
  next
    case (Rle b)
    show ?thesis
      by (rule that [of "replicate (hi - lo) b"]) (use Rle in \<open>auto simp: ips_record_byte_def intro!: main\<close>)
  qed
  have "segment ?buf (lo - cs) (hi - lo) \<noteq> d \<longleftrightarrow> write_at (lo - cs) d ?buf \<noteq> ?buf"
    using write_at_same [of "lo - cs" d ?buf] fit d(1) by simp
  with render wr [OF d] show ?thesis by simp
qed

section \<open>Rendering all chunks\<close>

definition ips_touches :: "nat \<Rightarrow> nat \<Rightarrow> ips_record \<Rightarrow> bool" where
  "ips_touches n k r \<longleftrightarrow> ir_offset r < min (ips_stop r) n \<and>
     ir_offset r div OUTPUT_CHUNK_SIZE \<le> k \<and> k \<le> (min (ips_stop r) n - 1) div OUTPUT_CHUNK_SIZE"

lemma push_record_index_ok:
  assumes "ips_good (records ! j)"
  shows "push_record_index n records j (map f [0..<m]) =
    Inr (map (\<lambda>k. if ips_touches n k (records ! j) then f k @ [j] else f k) [0..<m])"
  using assms by (auto simp: push_record_index_def Let_def ips_touches_def)

lemma record_indexes_ok:
  assumes "\<forall>r \<in> set records. ips_good r" and "j \<le> length records"
  shows "fold_result (push_record_index n records) [0..<j] (replicate m []) =
    Inr (map (\<lambda>k. filter (\<lambda>i. ips_touches n k (records ! i)) [0..<j]) [0..<m])"
  using assms(2)
proof (induction j)
  case 0
  then show ?case by (simp add: map_replicate_const)
next
  case (Suc j)
  then have "ips_good (records ! j)" using assms(1) by simp
  with Suc show ?case
    by (simp add: fold_result_append push_record_index_ok cong: map_cong)
qed

lemma ips_apart:
  assumes "ips_good r" and "\<not> ips_touches n k r" and ce: "ce \<le> (k + 1) * OUTPUT_CHUNK_SIZE" "ce \<le> n"
    and cs: "cs = k * OUTPUT_CHUNK_SIZE" "cs < ce"
  shows "min ce (ips_stop r) \<le> max cs (ir_offset r)"
proof -
  let ?c = OUTPUT_CHUNK_SIZE
  have c: "0 < ?c" by (simp add: OUTPUT_CHUNK_SIZE_def)
  consider "\<not> ir_offset r < min (ips_stop r) n" | "\<not> ir_offset r div ?c \<le> k"
    | "ir_offset r < min (ips_stop r) n" "\<not> k \<le> (min (ips_stop r) n - 1) div ?c"
    using assms(2) unfolding ips_touches_def by blast
  then show ?thesis
  proof cases
    case 1
    moreover have "ir_offset r < ips_stop r" using assms(1) by (simp add: ips_good_def ips_stop_def)
    ultimately show ?thesis using ce(2) by auto
  next
    case 2
    then have "k + 1 \<le> ir_offset r div ?c" by simp
    then have "(k + 1) * ?c \<le> ir_offset r" using c by (simp only: less_eq_div_iff_mult_less_eq)
    then show ?thesis using ce(1) by auto
  next
    case 3
    then have "(min (ips_stop r) n - 1) div ?c < k" by simp
    then have "min (ips_stop r) n - 1 < k * ?c" using c by (simp only: div_less_iff_less_mult)
    then have "min (ips_stop r) n \<le> cs" using cs by simp
    then have "ips_stop r \<le> cs \<or> n \<le> cs" by (simp add: min_le_iff_disj)
    with ce(2) cs(2) show ?thesis by auto
  qed
qed

lemma render_indexes:
  assumes good: "\<forall>r \<in> set records. ips_good r"
    and c: "cs < ce" "ce \<le> n" "ce \<le> (k + 1) * OUTPUT_CHUNK_SIZE" "cs = k * OUTPUT_CHUNK_SIZE"
    and j: "j \<le> length records" and f: "length f = n"
  shows "\<exists>ch. fold_result (\<lambda>i. render_record cs ce (records ! i))
      (filter (\<lambda>i. ips_touches n k (records ! i)) [0..<j]) (segment f cs (ce - cs), False) =
    Inr (segment (fold (clip_write n) (take j records) f) cs (ce - cs), ch) \<and>
    (\<not> ch \<longrightarrow> segment (fold (clip_write n) (take j records) f) cs (ce - cs) = segment f cs (ce - cs))"
  using j
proof (induction j)
  case 0
  show ?case by (intro exI [of _ False]) simp
next
  case (Suc j)
  let ?g = "fold (clip_write n) (take j records) f"
  have g: "length ?g = n"
    by (rule length_fold_clip [OF f])
  have r: "ips_good (records ! j)" using good Suc.prems by simp
  have next': "fold (clip_write n) (take (Suc j) records) f = clip_write n (records ! j) ?g"
    using Suc.prems by (simp add: take_Suc_conv_app_nth)
  from Suc obtain ch where ch: "fold_result (\<lambda>i. render_record cs ce (records ! i))
      (filter (\<lambda>i. ips_touches n k (records ! i)) [0..<j]) (segment f cs (ce - cs), False) =
      Inr (segment ?g cs (ce - cs), ch)"
    "\<not> ch \<longrightarrow> segment ?g cs (ce - cs) = segment f cs (ce - cs)"
    by auto
  show ?case
  proof (cases "ips_touches n k (records ! j)")
    case True
    with ch show ?thesis
      unfolding next' by (simp add: fold_result_append render_record_ok [OF r g c(1,2)])
  next
    case False
    from segment_clip_write_apart [OF r g c(2) ips_apart [OF r False c(3,2,4,1)]] False ch show ?thesis
      unfolding next' by auto
  qed
qed

lemma ips_read_input_chunk_ok:
  assumes "0 < chunk_len c" and "chunk_offset c + chunk_len c \<le> n"
  shows "ips_read_input_chunk input c = Inr (segment (set_len n input) (chunk_offset c) (chunk_len c))"
proof (cases "length input \<le> chunk_offset c")
  case True
  have "replicate (chunk_len c) 0 = segment (set_len n input) (chunk_offset c) (chunk_len c)"
    using assms True by (intro file_eqI) (auto simp: byte_at_segment byte_at_pad_to)
  with True show ?thesis by (simp add: ips_read_input_chunk_def)
next
  case False
  define k where "k = min (length input - chunk_offset c) (chunk_len c)"
  have k: "k \<le> chunk_len c" "chunk_offset c + k \<le> length input" "k \<noteq> 0"
    using False assms(1) by (auto simp: k_def)
  have "segment input (chunk_offset c) k @ replicate (chunk_len c - k) 0 =
      segment (set_len n input) (chunk_offset c) (chunk_len c)"
  proof (rule file_eqI)
    fix i
    assume "i < length (segment (set_len n input) (chunk_offset c) (chunk_len c))"
    then have i: "i < chunk_len c" using assms by simp
    have "byte_at (segment input (chunk_offset c) k @ replicate (chunk_len c - k) 0) i =
        byte_at input (chunk_offset c + i)"
      using i False by (auto simp: byte_at_def nth_append segment_def k_def min_def)
    then show "byte_at (segment input (chunk_offset c) k @ replicate (chunk_len c - k) 0) i =
        byte_at (segment (set_len n input) (chunk_offset c) (chunk_len c)) i"
      using i assms by (simp add: byte_at_segment byte_at_pad_to)
  qed (use assms k in auto)
  moreover have "seek_read_exact input (chunk_offset c) k = Inr (segment input (chunk_offset c) k)"
    using k by (simp add: seek_read_exact_def)
  ultimately show ?thesis
    using False assms(1) k(3) unfolding ips_read_input_chunk_def Let_def k_def [symmetric] by simp
qed

definition ips_task :: "nat \<Rightarrow> ips_record list \<Rightarrow> file_chunk \<Rightarrow> chunk_task" where
  "ips_task n records c =
     \<lparr>ct_chunk = c,
      ct_record_indexes = filter (\<lambda>i. ips_touches n (chunk_index c) (records ! i)) [0..<length records]\<rparr>"

lemma chunk_plan_indexes: "map chunk_index (chunk_plan c n) = [0..<length (chunk_plan c n)]"
  by (auto simp: chunk_plan_def Let_def comp_def intro: nth_equalityI)

lemma build_chunk_tasks_ok:
  assumes "\<forall>r \<in> set (ips_records patch). ips_good r"
  shows "build_chunk_tasks patch n =
    Inr (map (ips_task n (ips_records patch)) (chunk_plan OUTPUT_CHUNK_SIZE n))"
proof -
  let ?chunks = "chunk_plan OUTPUT_CHUNK_SIZE n" and ?rs = "ips_records patch"
  have "map2 (\<lambda>chunk indexes. \<lparr>ct_chunk = chunk, ct_record_indexes = indexes\<rparr>) ?chunks
      (map (\<lambda>k. filter (\<lambda>i. ips_touches n k (?rs ! i)) [0..<length ?rs]) [0..<length ?chunks]) =
      map (ips_task n ?rs) ?chunks"
    unfolding chunk_plan_indexes [symmetric] map_map comp_def
    by (rule nth_equalityI) (auto simp: ips_task_def)
  then show ?thesis
    using record_indexes_ok [OF assms le_refl, of n "length ?chunks"]
    by (simp add: build_chunk_tasks_def chunk_planner_new_def OUTPUT_CHUNK_SIZE_def)
qed

lemma render_chunk_task_ok:
  assumes good: "\<forall>r \<in> set (ips_records patch). ips_good r" and n: "n \<le> u64_max"
    and c: "c \<in> set (chunk_plan OUTPUT_CHUNK_SIZE n)"
  shows "\<exists>ch. render_chunk_task input patch (ips_task n (ips_records patch) c) =
      Inr (segment (ips_output n input (ips_records patch)) (chunk_offset c) (chunk_len c), ch) \<and>
    (\<not> ch \<longrightarrow> segment (ips_output n input (ips_records patch)) (chunk_offset c) (chunk_len c) =
      segment (set_len n input) (chunk_offset c) (chunk_len c))"
proof -
  have pos: "0 < OUTPUT_CHUNK_SIZE" by (simp add: OUTPUT_CHUNK_SIZE_def)
  note b = chunk_plan_bounds [OF pos c]
  let ?cs = "chunk_offset c" and ?ce = "chunk_offset c + chunk_len c"
  have "?ce \<le> (chunk_index c + 1) * OUTPUT_CHUNK_SIZE" using b by simp
  from render_indexes [OF good _ b(3) this b(4) le_refl, of "set_len n input"] b(1)
  have "\<exists>ch. fold_result (\<lambda>i. render_record ?cs ?ce (ips_records patch ! i))
      (ct_record_indexes (ips_task n (ips_records patch) c)) (segment (set_len n input) ?cs (chunk_len c), False) =
      Inr (segment (ips_output n input (ips_records patch)) ?cs (chunk_len c), ch) \<and>
    (\<not> ch \<longrightarrow> segment (ips_output n input (ips_records patch)) ?cs (chunk_len c) =
      segment (set_len n input) ?cs (chunk_len c))"
    by (simp add: ips_task_def ips_output_def)
  moreover have "?ce \<le> u64_max" using b(3) n by simp
  moreover have "ct_chunk (ips_task n (ips_records patch) c) = c" by (simp add: ips_task_def)
  ultimately show ?thesis
    by (simp add: render_chunk_task_def ips_read_input_chunk_ok [OF b(1,3)] Let_def)
qed

theorem render_all_chunks:
  assumes good: "\<forall>r \<in> set (ips_records patch). ips_good r" and n: "n \<le> u64_max"
  shows "\<exists>rendered. map_result (render_chunk_task input patch)
      (map (ips_task n (ips_records patch)) (chunk_plan OUTPUT_CHUNK_SIZE n)) = Inr rendered \<and>
    ips_assemble_output (map fst rendered) = ips_output n input (ips_records patch) \<and>
    (\<not> (\<exists>r \<in> set rendered. snd r) \<longrightarrow> ips_output n input (ips_records patch) = set_len n input)"
proof -
  let ?out = "ips_output n input (ips_records patch)" and ?chunks = "chunk_plan OUTPUT_CHUNK_SIZE n"
  let ?render = "\<lambda>c. render_chunk_task input patch (ips_task n (ips_records patch) c)"
  have pos: "0 < OUTPUT_CHUNK_SIZE" by (simp add: OUTPUT_CHUNK_SIZE_def)
  have "\<forall>c \<in> set ?chunks. \<exists>ch. ?render c = Inr (segment ?out (chunk_offset c) (chunk_len c), ch) \<and>
      (\<not> ch \<longrightarrow> segment ?out (chunk_offset c) (chunk_len c) = segment (set_len n input) (chunk_offset c) (chunk_len c))"
    using render_chunk_task_ok [OF good n] by blast
  from bchoice [OF this] obtain ch where ch: "\<And>c. c \<in> set ?chunks \<Longrightarrow>
      ?render c = Inr (segment ?out (chunk_offset c) (chunk_len c), ch c)"
    "\<And>c. c \<in> set ?chunks \<Longrightarrow> \<not> ch c \<Longrightarrow>
      segment ?out (chunk_offset c) (chunk_len c) = segment (set_len n input) (chunk_offset c) (chunk_len c)"
    by blast
  let ?rendered = "map (\<lambda>c. (segment ?out (chunk_offset c) (chunk_len c), ch c)) ?chunks"
  have split: "map_result f (map g xs) = map_result (\<lambda>x. f (g x)) xs" for f :: "'x \<Rightarrow> 'y result" and g :: "'z \<Rightarrow> 'x" and xs
    by (induction xs) auto
  have "map_result (render_chunk_task input patch) (map (ips_task n (ips_records patch)) ?chunks) = Inr ?rendered"
    unfolding split by (rule map_result_Ok) (rule ch(1))
  moreover have "ips_assemble_output (map fst ?rendered) = ?out"
    using chunk_plan_concat [OF pos, of ?out] by (simp add: ips_assemble_output_def comp_def)
  moreover have "?out = set_len n input" if "\<not> (\<exists>r \<in> set ?rendered. snd r)"
  proof -
    have "concat (map (\<lambda>c. segment ?out (chunk_offset c) (chunk_len c)) ?chunks) =
        concat (map (\<lambda>c. segment (set_len n input) (chunk_offset c) (chunk_len c)) ?chunks)"
      using that ch(2) by (intro arg_cong [where f = concat] map_cong) auto
    then show ?thesis
      using chunk_plan_concat [OF pos, of ?out] chunk_plan_concat [OF pos, of "set_len n input"] by simp
  qed
  ultimately show ?thesis by blast
qed

section \<open>Parsed patches\<close>

definition ips_end_of :: "ips_record list \<Rightarrow> nat" where
  "ips_end_of rs = fold (\<lambda>r m. max m (ips_stop r)) rs 0"

lemma ips_end_of_snoc [simp]: "ips_end_of (rs @ [r]) = max (ips_end_of rs) (ips_stop r)"
  by (simp add: ips_end_of_def)

lemma ips_end_of_Nil [simp]: "ips_end_of [] = 0"
  by (simp add: ips_end_of_def)

lemma ips_end_of_ge: "r \<in> set rs \<Longrightarrow> ips_stop r \<le> ips_end_of rs"
  by (induction rs rule: rev_induct) (auto simp: le_max_iff_disj)

lemma ips_end_of_le: "(\<And>r. r \<in> set rs \<Longrightarrow> ips_stop r \<le> n) \<Longrightarrow> ips_end_of rs \<le> n"
  by (induction rs rule: rev_induct) auto

lemma ips_parse_loop_good:
  "ips_parse_loop json flavor validation p records warnings mx = Inr patch \<Longrightarrow>
   \<forall>r \<in> set records. ips_good r \<Longrightarrow> mx = ips_end_of records \<Longrightarrow>
   (\<forall>r \<in> set (ips_records patch). ips_good r) \<and> ips_max_written_end patch = ips_end_of (ips_records patch)"
proof (induction json flavor validation p records warnings mx rule: ips_parse_loop.induct)
  case (1 json flavor validation p records warnings mx)
  from "1.prems"(1) obtain marker p1 where
    m: "ips_read_exact p (length (flavor_footer flavor)) = Inr (marker, p1)"
    by (subst (asm) ips_parse_loop.simps) (auto simp: result_iff)
  show ?case
  proof (cases "marker = flavor_footer flavor")
    case True
    with "1.prems" m show ?thesis
      by (subst (asm) ips_parse_loop.simps) (auto simp: result_iff)
  next
    case False
    with "1.prems"(1) m obtain sz p2 where sz: "ips_read_u16 p1 = Inr (sz, p2)"
      by (subst (asm) ips_parse_loop.simps) (auto simp: result_iff Let_def)
    show ?thesis
    proof (cases "sz = 0")
      case 0: True
      with "1.prems"(1) m False sz obtain rle p3 bs p4 where
        rle: "ips_read_u16 p2 = Inr (rle, p3)" "ips_read_exact p3 1 = Inr (bs, p4)"
        by (subst (asm) ips_parse_loop.simps) (auto simp: result_iff Let_def)
      show ?thesis
      proof (cases "rle = 0")
        case True
        with "1.prems"(1) m False sz 0 rle obtain w where
          w: "handle_zero_length_rle_record (from_be marker) validation warnings = Inr w"
            "ips_parse_loop json flavor validation p4 records w mx = Inr patch"
          by (subst (asm) ips_parse_loop.simps) (auto simp: result_iff Let_def)
        show ?thesis
          by (rule "1.IH"(1) [OF m refl False refl sz refl 0 rle(1) refl rle(2) refl True w "1.prems"(2,3)])
      next
        case nz: False
        let ?r = "\<lparr>ir_offset = from_be marker, ir_len = rle, ir_data = Rle (bs ! 0)\<rparr>"
        from "1.prems"(1) m False sz 0 rle nz have
          "ips_checked_add (from_be marker) rle ''IPS record end'' = Inr (from_be marker + rle) \<and>
           ips_parse_loop json flavor validation p4 (records @ [?r]) warnings
              (max mx (from_be marker + rle)) = Inr patch"
          by (subst (asm) ips_parse_loop.simps) (auto simp: result_iff Let_def)
        note stop = conjunct1 [OF this] and rest = conjunct2 [OF this]
        have "ips_good ?r" using stop nz by (auto simp: ips_good_def result_iff)
        then show ?thesis
          using "1.prems"(2,3)
          by (intro "1.IH"(2) [OF m refl False refl sz refl 0 rle(1) refl rle(2) refl nz stop rest])
            (auto simp: ips_stop_def)
      qed
    next
      case nz: False
      with "1.prems"(1) m False sz obtain data p3 where
        data: "ips_read_exact p2 sz = Inr (data, p3)"
        by (subst (asm) ips_parse_loop.simps) (auto simp: result_iff Let_def)
      let ?r = "\<lparr>ir_offset = from_be marker, ir_len = sz, ir_data = Literal data\<rparr>"
      from "1.prems"(1) m False sz nz data have
        "ips_checked_add (from_be marker) sz ''IPS record end'' = Inr (from_be marker + sz) \<and>
         ips_parse_loop json flavor validation p3 (records @ [?r]) warnings
            (max mx (from_be marker + sz)) = Inr patch"
        by (subst (asm) ips_parse_loop.simps) (auto simp: result_iff Let_def)
      note stop = conjunct1 [OF this] and rest = conjunct2 [OF this]
      have "ips_good ?r"
        using stop nz ips_read_exact_progress(4) [OF data] by (auto simp: ips_good_def result_iff)
      then show ?thesis
        using "1.prems"(2,3)
        by (intro "1.IH"(3) [OF m refl False refl sz refl nz data refl stop rest]) (auto simp: ips_stop_def)
    qed
  qed
qed

lemma parse_ips_file_good:
  assumes "parse_ips_file json p flavor v = Inr patch"
  shows "\<forall>r \<in> set (ips_records patch). ips_good r"
    and "ips_max_written_end patch = ips_end_of (ips_records patch)"
proof -
  from assms obtain h q where "ips_parse_loop json flavor v q [] [] 0 = Inr patch"
    by (auto simp: parse_ips_file_def result_iff split: if_splits)
  from ips_parse_loop_good [OF this]
  show "\<forall>r \<in> set (ips_records patch). ips_good r"
    and "ips_max_written_end patch = ips_end_of (ips_records patch)"
    by auto
qed

section \<open>The outcome of an apply\<close>

lemma plausible_output_limit_u64: "plausible_output_limit a b \<le> u64_max"
  by (simp add: plausible_output_limit_def saturating_mul_def u64_max_def)

lemma ips_max_parallel_chunks_ok: "\<exists>k. ips_max_parallel_chunks n = Inr k"
proof -
  have "saturating_add n (OUTPUT_CHUNK_SIZE - 1) div OUTPUT_CHUNK_SIZE \<le> saturating_add n (OUTPUT_CHUNK_SIZE - 1)"
    by (rule div_le_dividend)
  also have "\<dots> \<le> u64_max" by (simp add: saturating_add_def)
  finally show ?thesis
    by (auto simp: ips_max_parallel_chunks_def chunk_count_for_len_checked_def Let_def)
qed

theorem ips_apply_outcome:
  assumes patch: "ar_patches req = [pf]"
    and parse: "parse_ips_file json (file_bytes pf) flavor (ctx_validation ctx) = Inr patch"
  shows "(\<exists>rep. ips_apply json flavor ctx req = Inr (out, rep)) \<longleftrightarrow>
    resolved_output_size patch (file_len (ar_input req)) \<le> plausible_output_limit (file_len (ar_input req)) (file_len pf) \<and>
    out = ips_output (resolved_output_size patch (file_len (ar_input req))) (file_bytes (ar_input req)) (ips_records patch)"
    (is "_ \<longleftrightarrow> ?n \<le> ?limit \<and> out = ?out")
proof (cases "?n \<le> ?limit")
  case False
  then have "ensure_plausible_output_len (flavor_name flavor) ?n (file_len (ar_input req)) (file_len pf) \<noteq> Inr u" for u
    by (simp add: ensure_plausible_iff)
  with False show ?thesis
    by (auto simp: ips_apply_def Let_def require_single_patch_file_def patch parse result_iff)
next
  case True
  then have plausible: "ensure_plausible_output_len (flavor_name flavor) ?n (file_len (ar_input req)) (file_len pf) = Inr ()"
    by (simp add: ensure_plausible_iff)
  have u64: "?n \<le> u64_max" using True plausible_output_limit_u64 by (rule order_trans)
  note good = parse_ips_file_good(1) [OF parse]
  obtain k where k: "ips_max_parallel_chunks ?n = Inr k" using ips_max_parallel_chunks_ok by blast
  from render_all_chunks [OF good u64, of "file_bytes (ar_input req)"] obtain rendered where
    rendered: "map_result (render_chunk_task (file_bytes (ar_input req)) patch)
      (map (ips_task ?n (ips_records patch)) (chunk_plan OUTPUT_CHUNK_SIZE ?n)) = Inr rendered"
    and out: "ips_assemble_output (map fst rendered) = ?out" by blast
  have "\<exists>e. run_with_optional_pool ctx (Parallel (Some k)) True
      (\<lambda>pool. Inr rendered) (Inr rendered) = Inr (e, rendered)"
    by (subst run_with_optional_pool_value [where r = "Inr rendered"]) (auto simp: same_outcome_def)
  then obtain e where e: "run_with_optional_pool ctx (Parallel (Some k)) True
      (\<lambda>pool. Inr rendered) (Inr rendered) = Inr (e, rendered)" by blast
  show ?thesis
    using True
    by (auto simp: ips_apply_def Let_def require_single_patch_file_def patch parse plausible k
        build_chunk_tasks_ok [OF good] rendered e out)
qed

end
