(* ===== verification/Record_Formats.thy ===== *)
theory Record_Formats
  imports Handlers "HOL-Library.Multiset"
begin

text \<open>
  What the record formats share: writing records one after the other in place, cutting a
  create scan into chunks (\<open>collect_*_for_chunk\<close> and \<open>merge_adjacent_runs\<close>), and the sorted
  sweep that decides whether the records of a patch overlap.
\<close>

section \<open>Writing records in place\<close>

text \<open>
  Checking and writing record after record has the outcome of checking all records and
  then writing them.
\<close>

definition write_record :: "('r \<Rightarrow> prepared_write result) \<Rightarrow> 'r \<Rightarrow> bytes \<Rightarrow> bytes result" where
  "write_record whole r out =
     and_then (whole r) (\<lambda>w. Inr (write_at (pw_offset w) (pw_data w) out))"

lemma write_records_outcome:
  "same_outcome (fold_result (write_record whole) rs out)
     (and_then (map_result whole rs) (\<lambda>ws. Inr (apply_prepared_writes out ws)))"
proof (induction rs arbitrary: out)
  case (Cons r rs)
  show ?case
  proof (cases "whole r")
    case (Inr w)
    with Cons [of "write_at (pw_offset w) (pw_data w) out"] show ?thesis
      by (simp add: write_record_def and_then_assoc same_outcome_def)
  qed (simp add: write_record_def same_outcome_def)
qed (simp add: same_outcome_def)

lemma same_outcome_sym: "same_outcome r q \<Longrightarrow> same_outcome q r"
  by (simp add: same_outcome_def)

lemma same_outcome_trans: "same_outcome r q \<Longrightarrow> same_outcome q p \<Longrightarrow> same_outcome r p"
  by (simp add: same_outcome_def)

lemma same_outcome_refl [simp]: "same_outcome r r"
  by (simp add: same_outcome_def)

lemma same_outcome_and_then:
  "same_outcome r q \<Longrightarrow> (\<And>x. r = Inr x \<Longrightarrow> same_outcome (f x) (g x)) \<Longrightarrow>
   same_outcome (and_then r f) (and_then q g)"
  by (fastforce simp: same_outcome_def result_iff)

text \<open>Writes that stay inside the file keep its length.\<close>

lemma apply_prepared_writes_inside:
  "\<forall>w \<in> set ws. write_end w \<le> length f \<Longrightarrow> length (apply_prepared_writes f ws) = length f"
proof (induction ws arbitrary: f)
  case (Cons w ws)
  then have "length (write_at (pw_offset w) (pw_data w) f) = length f"
    by (auto simp: length_write_at write_end_def)
  with Cons show ?case by simp
qed simp

section \<open>Disjoint records commute\<close>

text \<open>
  Two writes that share no offset can be done in either order, so pairwise disjoint records
  may be written by any number of workers.
\<close>

definition write_span :: "prepared_write \<Rightarrow> nat set" where
  "write_span w = {pw_offset w..<write_end w}"

lemma covers_span: "covers ws i \<longleftrightarrow> (\<exists>w \<in> set ws. i \<in> write_span w)"
  by (auto simp: covers_def write_span_def)

lemma byte_at_uncovered: "\<not> covers ws i \<Longrightarrow> byte_at (apply_prepared_writes f ws) i = byte_at f i"
  by (induction ws arbitrary: f) (auto simp: byte_at_write_at write_end_def)

lemma byte_at_disjoint_writes:
  assumes "sorted_wrt (\<lambda>v w. write_span v \<inter> write_span w = {}) ws"
    and "w \<in> set ws" and "i \<in> write_span w"
  shows "byte_at (apply_prepared_writes f ws) i = pw_data w ! (i - pw_offset w)"
  using assms
proof (induction ws arbitrary: f)
  case (Cons v ws)
  show ?case
  proof (cases "i \<in> write_span v")
    case True
    have other: "\<not> covers ws i"
      using Cons.prems(1) True by (auto simp: covers_span)
    have same: "w = v \<or> w \<notin> set ws"
      using Cons.prems(1,3) True by (cases "w = v") (auto simp: disjoint_iff)
    with Cons.prems(2) have "w = v" by auto
    then show ?thesis
      using True byte_at_uncovered [OF other] by (simp add: byte_at_write_at write_span_def write_end_def)
  next
    case False
    with Cons show ?thesis by auto
  qed
qed simp

theorem disjoint_writes_any_order:
  assumes disjoint: "sorted_wrt (\<lambda>v w. write_span v \<inter> write_span w = {}) ws"
    and disjoint': "sorted_wrt (\<lambda>v w. write_span v \<inter> write_span w = {}) vs"
    and same: "set vs = set ws" and inside: "\<forall>w \<in> set ws. write_end w \<le> length f"
  shows "apply_prepared_writes f vs = apply_prepared_writes f ws"
proof (rule file_eqI)
  show "length (apply_prepared_writes f vs) = length (apply_prepared_writes f ws)"
    using inside by (simp add: apply_prepared_writes_inside same)
next
  fix i
  show "byte_at (apply_prepared_writes f vs) i = byte_at (apply_prepared_writes f ws) i"
  proof (cases "covers ws i")
    case True
    then obtain w where w: "w \<in> set ws" "i \<in> write_span w" by (auto simp: covers_span)
    then show ?thesis
      using byte_at_disjoint_writes [OF disjoint w] byte_at_disjoint_writes [OF disjoint' _ w(2)] same by simp
  next
    case False
    moreover from False have "\<not> covers vs i" by (simp add: covers_span same)
    ultimately show ?thesis by (simp add: byte_at_uncovered)
  qed
qed

lemma sorted_wrt_perm:
  assumes "\<And>x y. R x y \<Longrightarrow> R y x"
  shows "mset xs = mset ys \<Longrightarrow> sorted_wrt R xs \<Longrightarrow> sorted_wrt R ys"
proof (induction xs arbitrary: ys)
  case (Cons x xs)
  from Cons.prems(1) have "x \<in> set ys" using mset_eq_setD [OF Cons.prems(1)] by auto
  then obtain us vs where ys: "ys = us @ x # vs" by (meson split_list)
  with Cons.prems(1) have m: "mset xs = mset (us @ vs)" by simp
  from Cons.IH [OF this] Cons.prems(2) have "sorted_wrt R (us @ vs)" by simp
  moreover have "set xs = set (us @ vs)" using m by (rule mset_eq_setD)
  ultimately show ?case using Cons.prems(2) assms by (auto simp: ys sorted_wrt_append)
qed simp

text \<open>\<open>par_chunks(n)\<close>: the chunks of a slice, the last one shorter.\<close>

function slice_chunks :: "nat \<Rightarrow> 'a list \<Rightarrow> 'a list list" where
  "slice_chunks n xs = (if xs = [] \<or> n = 0 then [] else take n xs # slice_chunks n (drop n xs))"
  by pat_completeness auto
termination
  by (relation "measure (\<lambda>(n, xs). length xs)") auto

declare slice_chunks.simps [simp del]

lemma concat_slice_chunks: "0 < n \<Longrightarrow> concat (slice_chunks n xs) = xs"
proof (induction n xs rule: slice_chunks.induct)
  case (1 n xs)
  then show ?case by (cases "xs = []") (simp_all add: slice_chunks.simps [of n xs] slice_chunks.simps [of n "[]"])
qed

text \<open>
  The orders in which workers can take items, each worker going through its own list:
  the next item is the head of any of the lists.
\<close>

inductive interleaves :: "'a list list \<Rightarrow> 'a list \<Rightarrow> bool" where
  interleaves_done: "\<forall>xs \<in> set queues. xs = [] \<Longrightarrow> interleaves queues []"
| interleaves_step: "i < length queues \<Longrightarrow> queues ! i = x # xs \<Longrightarrow> interleaves (queues[i := xs]) ys \<Longrightarrow>
    interleaves queues (x # ys)"

lemma mset_concat_update:
  "i < length queues \<Longrightarrow> queues ! i = x # xs \<Longrightarrow>
   mset (concat queues) = add_mset x (mset (concat (queues[i := xs])))"
proof (induction queues arbitrary: i)
  case (Cons l queues)
  then show ?case by (cases i) auto
qed simp

lemma interleaves_mset: "interleaves queues ys \<Longrightarrow> mset ys = mset (concat queues)"
proof (induction rule: interleaves.induct)
  case (interleaves_done queues)
  then have "concat queues = []" by (simp add: concat_eq_Nil_conv)
  then show ?case by simp
next
  case (interleaves_step i queues x xs ys)
  then show ?case by (simp add: mset_concat_update)
qed

lemma interleaves_in_order: "interleaves queues (concat queues)"
proof (induction queues)
  case Nil
  then show ?case by (simp add: interleaves_done)
next
  case (Cons l queues)
  have "interleaves (l # queues) (l @ ys)" if "interleaves ([] # queues) ys" for ys l
    using that
  proof (induction l)
    case (Cons x l)
    then show ?case using interleaves_step [of 0 "(x # l) # queues" x l] by simp
  qed simp
  moreover have "interleaves ([] # queues) ys" if "interleaves queues ys" for ys
    using that
  proof (induction rule: interleaves.induct)
    case (interleaves_step i queues x xs ys)
    then show ?case using interleaves.interleaves_step [of "Suc i" "[] # queues" x xs ys] by simp
  qed (simp add: interleaves_done)
  ultimately show ?case using Cons by simp
qed

section \<open>The overlap sweep\<close>

text \<open>
  The ranges of the records that write something, sorted by start, are swept with the end of
  the previous range.
\<close>

fun sweep_ranges :: "nat \<Rightarrow> bool \<Rightarrow> (nat \<times> nat) list \<Rightarrow> bool" where
  "sweep_ranges previous_end seen_any [] = True"
| "sweep_ranges previous_end seen_any ((start, stop) # ranges) =
     (if seen_any \<and> start < previous_end then False else sweep_ranges stop True ranges)"

lemma sorted_ranges_apart:
  assumes "sorted (map fst ranges)" and "\<forall>(start, stop) \<in> set ranges. start < stop"
  shows "sorted_wrt (\<lambda>a b. snd a \<le> fst b) ranges \<longleftrightarrow>
    sorted_wrt (\<lambda>a b. {fst a..<snd a} \<inter> {fst b..<snd b} = {}) ranges"
  using assms
proof (induction ranges)
  case (Cons a ranges)
  have key: "snd a \<le> fst b \<longleftrightarrow> {fst a..<snd a} \<inter> {fst b..<snd b} = {}" if "b \<in> set ranges" for b
  proof -
    have "fst a \<le> fst b" "fst a < snd a" "fst b < snd b" using Cons.prems that by auto
    then show ?thesis by (auto simp: disjoint_iff)
  qed
  have "sorted_wrt (\<lambda>a b. snd a \<le> fst b) ranges \<longleftrightarrow>
      sorted_wrt (\<lambda>a b. {fst a..<snd a} \<inter> {fst b..<snd b} = {}) ranges"
    using Cons by auto
  then show ?case by (simp add: key)
qed simp

lemma sweep_ranges_sorted:
  assumes "sorted (map fst ranges)" and "\<forall>(start, stop) \<in> set ranges. start < stop"
  shows "sweep_ranges previous_end seen_any ranges \<longleftrightarrow>
    (\<forall>(start, stop) \<in> set ranges. seen_any \<longrightarrow> previous_end \<le> start) \<and>
    sorted_wrt (\<lambda>a b. snd a \<le> fst b) ranges"
  using assms
proof (induction ranges arbitrary: previous_end seen_any)
  case (Cons r ranges)
  obtain start stop where r: "r = (start, stop)" by (cases r)
  from Cons.prems have le: "\<forall>b \<in> set ranges. start \<le> fst b" and lt: "start < stop" by (auto simp: r)
  have "sweep_ranges stop True ranges \<longleftrightarrow>
      (\<forall>b \<in> set ranges. stop \<le> fst b) \<and> sorted_wrt (\<lambda>a b. snd a \<le> fst b) ranges"
    using Cons by (auto simp: case_prod_beta)
  with le lt show ?case by (force simp: r)
qed simp

theorem sweep_ranges_exact:
  assumes "\<forall>(start, stop) \<in> set ranges. start < stop"
  shows "sweep_ranges 0 False (sort_key fst ranges) \<longleftrightarrow>
    sorted_wrt (\<lambda>a b. {fst a..<snd a} \<inter> {fst b..<snd b} = {}) ranges"
proof -
  let ?apart = "\<lambda>a b :: nat \<times> nat. {fst a..<snd a} \<inter> {fst b..<snd b} = {}" and ?sorted = "sort_key fst ranges"
  have sorted: "sorted (map fst ?sorted)" by simp
  have pos: "\<forall>(start, stop) \<in> set ?sorted. start < stop" using assms by simp
  have sym: "?apart b a" if "?apart a b" for a b using that by blast
  have "sweep_ranges 0 False ?sorted \<longleftrightarrow> sorted_wrt ?apart ?sorted"
    using sweep_ranges_sorted [OF sorted pos, of 0 False] sorted_ranges_apart [OF sorted pos] by auto
  also have "\<dots> \<longleftrightarrow> sorted_wrt ?apart ranges"
    using sorted_wrt_perm [where R = ?apart and xs = ?sorted and ys = ranges, OF sym]
      sorted_wrt_perm [where R = ?apart and xs = ranges and ys = ?sorted, OF sym] by auto
  finally show ?thesis .
qed

section \<open>Create scans in chunks\<close>

text \<open>
  The per-chunk function of the create scans: chunk \<open>index\<close> of the modified file, with the
  bytes of both files handed to the format's byte loop.
\<close>

definition collect_chunk ::
  "nat \<Rightarrow> string \<Rightarrow> (nat \<Rightarrow> bytes \<Rightarrow> bytes \<Rightarrow> 'r list result) \<Rightarrow> bytes \<Rightarrow> bytes \<Rightarrow> nat \<Rightarrow> 'r list result" where
  "collect_chunk chunk_bytes overflow collect original modified index =
     and_then (ok_or (checked_mul_opt index chunk_bytes) (invalid overflow)) (\<lambda>start.
     if start \<ge> length modified then Inr []
     else
       let stop = min (saturating_add start chunk_bytes) (length modified)
       in and_then (read_original_modified_chunk original modified start stop) (\<lambda>(original_bytes, modified_bytes).
          collect start original_bytes modified_bytes))"

definition collects ::
  "('b run \<Rightarrow> 'r) \<Rightarrow> (nat \<Rightarrow> bytes \<Rightarrow> bytes \<Rightarrow> 'r list result) \<Rightarrow> bytes \<Rightarrow> bytes \<Rightarrow> (nat \<Rightarrow> 'b option) \<Rightarrow> bool" where
  "collects of_run collect s t cell \<longleftrightarrow>
     (\<forall>lo hi ob. lo \<le> hi \<longrightarrow> hi \<le> length t \<longrightarrow> length ob = hi - lo \<longrightarrow> (\<forall>i < hi - lo. ob ! i = byte_at s (lo + i)) \<longrightarrow>
        collect lo ob (segment t lo (hi - lo)) = Inr (map of_run (diff_scan cell lo hi)))"

lemma chunk_count_bound:
  assumes "chunk_count_for_len_checked n c msg = Inr k" and "n + c \<le> u64_max" and "0 < c"
  shows "n \<le> k * c" and "k * c \<le> u64_max"
proof -
  have sat: "saturating_add n (c - 1) = n + (c - 1)"
    using assms(2) by (simp add: saturating_add_def)
  then have k: "n \<noteq> 0 \<Longrightarrow> k = div_ceil n c" "n = 0 \<Longrightarrow> k = 1"
    using assms(1) by (auto simp: chunk_count_for_len_checked_def Let_def div_ceil_def split: if_splits)
  show "n \<le> k * c"
    using k div_ceil_mult_ge [OF assms(3), of n] by (cases "n = 0") auto
  have "div_ceil n c * c \<le> n + (c - 1)" by (simp add: div_ceil_def)
  then show "k * c \<le> u64_max" using k assms(2) by (cases "n = 0") auto
qed

lemma chunk_count_total:
  assumes "n + c \<le> u64_max" and "0 < c"
  shows "\<exists>k. chunk_count_for_len_checked n c msg = Inr k"
proof -
  have "saturating_add n (c - 1) div c \<le> u64_max"
    using div_le_dividend [of "saturating_add n (c - 1)" c] by (simp add: saturating_add_def)
  then show ?thesis by (simp add: chunk_count_for_len_checked_def Let_def)
qed

locale chunked_scan = adjacent_run view start run_end append_run
  for view :: "'r \<Rightarrow> 'b run" and start run_end append_run +
  fixes of_run :: "'b run \<Rightarrow> 'r" and chunk_bytes :: nat and overflow :: string
  assumes of_run_view: "of_run (view r) = r" and view_of_run: "view (of_run x) = x"
    and chunk_pos: "0 < chunk_bytes"
begin

lemma collect_chunk_ok:
  assumes collects: "collects of_run collect s t cell" and "length t + chunk_bytes \<le> u64_max"
    and "j * chunk_bytes \<le> u64_max"
  shows "collect_chunk chunk_bytes overflow collect s t j =
    Inr (map of_run (diff_scan cell (min (j * chunk_bytes) (length t)) (min (Suc j * chunk_bytes) (length t))))"
proof -
  have start: "checked_mul_opt j chunk_bytes = Some (j * chunk_bytes)"
    using assms(3) by (simp add: checked_mul_opt_def)
  show ?thesis
  proof (cases "length t \<le> j * chunk_bytes")
    case True
    then have "min (j * chunk_bytes) (length t) = length t" "min (Suc j * chunk_bytes) (length t) = length t"
      by (simp_all add: min_def)
    with True start show ?thesis by (simp add: collect_chunk_def diff_scan_def diff_finish_def)
  next
    case False
    let ?lo = "j * chunk_bytes" and ?hi = "min (Suc j * chunk_bytes) (length t)"
    have lo: "min ?lo (length t) = ?lo" using False by simp
    have stop: "min (saturating_add ?lo chunk_bytes) (length t) = ?hi"
      using False assms(2) by (simp add: saturating_add_def add.commute)
    have le: "?lo \<le> ?hi" "?hi \<le> length t" using False by auto
    from read_original_modified_chunk_ok [OF le, of s] obtain ob where
      ob: "read_original_modified_chunk s t ?lo ?hi = Inr (ob, segment t ?lo (?hi - ?lo))"
      "length ob = ?hi - ?lo" "\<forall>i < ?hi - ?lo. ob ! i = byte_at s (?lo + i)"
      by blast
    have "collect ?lo ob (segment t ?lo (?hi - ?lo)) = Inr (map of_run (diff_scan cell ?lo ?hi))"
      using collects [unfolded collects_def, rule_format, OF le ob(2)] ob(3) by blast
    then show ?thesis
      unfolding collect_chunk_def start ok_or_simps and_then_simps if_not_P [OF False] Let_def stop ob(1) prod.case lo .
  qed
qed

theorem merged_chunks:
  assumes collects: "collects of_run collect s t cell" and bound: "length t + chunk_bytes \<le> u64_max"
    and k: "chunk_count_for_len_checked (length t) chunk_bytes msg = Inr k"
  shows "\<exists>chunks. scan_create_chunks k (collect_chunk chunk_bytes overflow collect s t) = Inr chunks \<and>
    merge_adjacent_runs start run_end append_run chunks = Inr (map of_run (diff_scan cell 0 (length t)))"
proof -
  define limit where "limit j = min (j * chunk_bytes) (length t)" for j
  define runs where "runs j = map of_run (diff_scan cell (limit j) (limit (Suc j)))" for j
  note kb = chunk_count_bound [OF k bound chunk_pos]
  have mono: "mono limit" by (rule monoI, unfold limit_def) (intro min.mono mult_le_mono1 order_refl)
  have full: "limit k = length t" using kb(1) by (simp add: limit_def)
  have "collect_chunk chunk_bytes overflow collect s t j = Inr (runs j)" if "j < k" for j
  proof -
    have "j * chunk_bytes \<le> u64_max" by (rule order_trans [OF mult_le_mono1 kb(2)]) (use that in simp)
    from collect_chunk_ok [OF collects bound this] show ?thesis by (simp add: runs_def limit_def)
  qed
  then have "scan_create_chunks k (collect_chunk chunk_bytes overflow collect s t) = Inr (map runs [0..<k])"
    unfolding scan_create_chunks_def by (intro map_result_Ok) simp
  moreover have "\<exists>out. merge_adjacent_runs start run_end append_run (map runs [0..<k]) = Inr out \<and>
      map view out = diff_scan cell 0 (limit k)"
  proof (rule merge_chunk_scans [OF mono])
    show "limit 0 = 0" by (simp add: limit_def)
    show "limit k \<le> u64_max" using bound full by simp
    show "map view (runs j) = diff_scan cell (limit j) (limit (Suc j))" for j
      by (simp add: runs_def comp_def view_of_run)
  qed
  then obtain out where out: "merge_adjacent_runs start run_end append_run (map runs [0..<k]) = Inr out"
    and view: "map view out = diff_scan cell 0 (length t)"
    unfolding full by blast
  have "out = map of_run (map view out)" by (simp add: comp_def of_run_view)
  then have "out = map of_run (diff_scan cell 0 (length t))" by (simp only: view)
  ultimately show ?thesis using out by blast
qed

end

text \<open>A pending run has a start.\<close>

lemma scan_to_pending:
  "lo \<le> i \<Longrightarrow> scan_to cell lo i = (runs, pstart, pbytes) \<Longrightarrow> pbytes \<noteq> [] \<longleftrightarrow> (\<exists>s. pstart = Some s)"
  using scan_inv_fold [of lo i cell] by (auto simp: scan_to_def scan_inv_def)

section \<open>Differing bytes\<close>

text \<open>
  Most formats record the target byte where it differs from the zero-padded source; the runs
  of that scan, written over the source at the target's length, give the target.
\<close>

definition diff_cell :: "bytes \<Rightarrow> bytes \<Rightarrow> nat \<Rightarrow> u8 option" where
  "diff_cell s t i = (if byte_at s i = byte_at t i then None else Some (byte_at t i))"

lemma diff_cell_truthful: "truthful t (map run_write (diff_scan (diff_cell s t) 0 (length t)))"
  by (rule diff_scan_writes(1)) (simp_all add: diff_cell_def split: if_splits)

theorem diff_cell_writes:
  "apply_prepared_writes (pad_to (length t) s) (map run_write (diff_scan (diff_cell s t) 0 (length t))) = t"
proof (rule truthful_writes_make_target [OF diff_cell_truthful])
  fix i
  assume i: "i < length t" and "byte_at (pad_to (length t) s) i \<noteq> byte_at t i"
  then have "diff_cell s t i \<noteq> None" by (simp add: byte_at_pad_to diff_cell_def del: byte_at_lt)
  moreover have "covers (map run_write (diff_scan (diff_cell s t) 0 (length t))) i \<longleftrightarrow>
      i < length t \<and> diff_cell s t i \<noteq> None"
    by (rule diff_scan_writes(2) [OF _ le_refl]) (simp_all add: diff_cell_def split: if_splits)
  ultimately show "covers (map run_write (diff_scan (diff_cell s t) 0 (length t))) i"
    using i by blast
qed simp

end
