(* ===== verification/Ips_Create.thy ===== *)
theory Ips_Create
  imports Ips_Apply Record_Formats
begin

text \<open>
  Creating IPS patches, \<open>rom-weaver-patches/src/ips.rs\<close>: the streaming state machine with its
  pending diff, the parallel scan with merging, coalescing and the reserved-offset guard, and
  the record writer with its run-length splitting.
\<close>

section \<open>Constants and data\<close>

definition COMPARE_BUFFER_SIZE :: nat where
  "COMPARE_BUFFER_SIZE = 65536"

definition CREATE_SCAN_CHUNK_BYTES :: nat where
  "CREATE_SCAN_CHUNK_BYTES = 4194304"

definition MAX_IPS_RECORD_LEN :: nat where
  "MAX_IPS_RECORD_LEN = 65535"

definition MAX_IPS_OFFSET :: nat where
  "MAX_IPS_OFFSET = 0x00FFFFFF"

definition MAX_IPS32_OFFSET :: nat where
  "MAX_IPS32_OFFSET = 0xFFFFFFFF"

definition MIN_RLE_RECORD_LEN :: nat where
  "MIN_RLE_RECORD_LEN = 4"

definition UNCHANGED_GAP_COALESCE_LIMIT :: nat where
  "UNCHANGED_GAP_COALESCE_LIMIT = 5"

definition RLE_SPLIT_EDGE_THRESHOLD :: nat where
  "RLE_SPLIT_EDGE_THRESHOLD = 8"

definition RLE_SPLIT_MIDDLE_THRESHOLD :: nat where
  "RLE_SPLIT_MIDDLE_THRESHOLD = 13"

definition DEFAULT_EBP_METADATA_JSON :: bytes where
  \<open>DEFAULT_EBP_METADATA_JSON = map of_char
     ''{"patcher":"EBPatcher","Author":"Unknown","Description":"No description","Title":"Untitled"}''\<close>

record ips_create_result =
  icr_record_count :: nat
  icr_max_written_end :: nat

definition ips_create_result_default :: ips_create_result where
  "ips_create_result_default = \<lparr>icr_record_count = 0, icr_max_written_end = 0\<rparr>"

record ips_diff_run =
  idr_offset :: nat
  idr_bytes :: bytes

definition ips_run_end :: "ips_diff_run \<Rightarrow> nat result" where
  "ips_run_end r =
     ok_or (checked_add_opt (idr_offset r) (length (idr_bytes r))) (invalid ''IPS diff run offset overflowed'')"

definition ips_run_append :: "ips_diff_run \<Rightarrow> ips_diff_run \<Rightarrow> ips_diff_run" where
  "ips_run_append r s = r\<lparr>idr_bytes := idr_bytes r @ idr_bytes s\<rparr>"

text \<open>The output writer and the running totals.\<close>

type_synonym ips_sink = "bytes \<times> ips_create_result"

section \<open>Writing records\<close>

definition ips_write_u24 :: "nat \<Rightarrow> string \<Rightarrow> bytes \<Rightarrow> bytes result" where
  "ips_write_u24 value label out =
     (if value > MAX_IPS_OFFSET then invalid_fmt ''{} exceeded the IPS 24-bit limit'' [Str label]
      else Inr (out @ be_bytes 3 value))"

definition ips_write_u32 :: "nat \<Rightarrow> string \<Rightarrow> bytes \<Rightarrow> bytes result" where
  "ips_write_u32 value label out =
     (if value > MAX_IPS32_OFFSET then invalid_fmt ''{} exceeded the IPS32 32-bit limit'' [Str label]
      else Inr (out @ be_bytes 4 value))"

definition ips_write_offset :: "ips_flavor \<Rightarrow> nat \<Rightarrow> bytes \<Rightarrow> bytes result" where
  "ips_write_offset flavor value out =
     (if value = flavor_reserved_eof_offset flavor
      then invalid_fmt ''{} record offset matched its EOF marker'' [Str (flavor_name flavor)]
      else case flavor of
        Ips32 \<Rightarrow> ips_write_u32 value ''IPS32 record offset'' out
      | _ \<Rightarrow> ips_write_u24 value ''IPS record offset'' out)"

definition write_literal_record :: "ips_flavor \<Rightarrow> nat \<Rightarrow> bytes \<Rightarrow> ips_sink \<Rightarrow> ips_sink result" where
  "write_literal_record flavor offset data sink =
     (let (out, created) = sink
      in if data = [] then Inr (out, created)
         else if length data > MAX_IPS_RECORD_LEN
         then invalid ''IPS literal record exceeded maximum encodable length''
         else and_then (ips_write_offset flavor offset out) (\<lambda>out.
              and_then (ips_checked_add offset (length data) ''IPS literal record end'') (\<lambda>stop.
              Inr (out @ be_bytes 2 (length data) @ data,
                   \<lparr>icr_record_count = icr_record_count created + 1,
                    icr_max_written_end = max (icr_max_written_end created) stop\<rparr>))))"

definition write_rle_record :: "ips_flavor \<Rightarrow> nat \<Rightarrow> nat \<Rightarrow> u8 \<Rightarrow> ips_sink \<Rightarrow> ips_sink result" where
  "write_rle_record flavor offset n byte sink =
     (let (out, created) = sink
      in if n = 0 then Inr (out, created)
         else if n > MAX_IPS_RECORD_LEN
         then invalid ''IPS RLE record exceeded maximum encodable length''
         else and_then (ips_write_offset flavor offset out) (\<lambda>out.
              and_then (ips_checked_add offset n ''IPS RLE record end'') (\<lambda>stop.
              Inr (out @ be_bytes 2 0 @ be_bytes 2 n @ [byte],
                   \<lparr>icr_record_count = icr_record_count created + 1,
                    icr_max_written_end = max (icr_max_written_end created) stop\<rparr>))))"

definition repeated_prefix_len :: "bytes \<Rightarrow> nat" where
  "repeated_prefix_len bytes =
     (case bytes of [] \<Rightarrow> 0 | first # rest \<Rightarrow> 1 + length (takeWhile (\<lambda>b. b = first) rest))"

lemma repeated_prefix_len_pos: "bytes \<noteq> [] \<Longrightarrow> 0 < repeated_prefix_len bytes"
  by (cases bytes) (simp_all add: repeated_prefix_len_def)

lemma repeated_prefix_len_le: "repeated_prefix_len bytes \<le> length bytes"
  by (cases bytes) (simp_all add: repeated_prefix_len_def length_takeWhile_le)

function find_next_rle_split_from :: "bytes \<Rightarrow> nat \<Rightarrow> (nat \<times> nat) option" where
  "find_next_rle_split_from bytes index =
     (if index < length bytes
      then
        let len = repeated_prefix_len (drop index bytes);
            at_start = (index = 0);
            at_end = (index + len = length bytes);
            worthwhile =
              (if at_start \<or> at_end then len > RLE_SPLIT_EDGE_THRESHOLD \<or> len = length bytes
               else len > RLE_SPLIT_MIDDLE_THRESHOLD)
        in if len \<ge> MIN_RLE_RECORD_LEN \<and> worthwhile then Some (index, len)
           else find_next_rle_split_from bytes (index + max len 1)
      else None)"
  by pat_completeness auto
termination
  by (relation "measure (\<lambda>(bytes, index). length bytes - index)") auto

declare find_next_rle_split_from.simps [simp del]

definition find_next_rle_split :: "bytes \<Rightarrow> (nat \<times> nat) option" where
  "find_next_rle_split bytes = find_next_rle_split_from bytes 0"

definition adjust_record_len_for_reserved_offset ::
  "ips_flavor \<Rightarrow> nat \<Rightarrow> nat \<Rightarrow> nat \<Rightarrow> bool \<Rightarrow> nat result" where
  "adjust_record_len_for_reserved_offset flavor offset desired_len available_len more_after =
     (if desired_len = 0 then Inr 0
      else if offset = flavor_reserved_eof_offset flavor
      then invalid_fmt ''{} record offset matched its EOF marker'' [Str (flavor_name flavor)]
      else and_then (ips_checked_add offset desired_len ''IPS record end'') (\<lambda>stop.
        if more_after \<and> stop = flavor_reserved_eof_offset flavor
        then
          if desired_len > 1 then Inr (desired_len - 1)
          else if available_len > desired_len \<and> desired_len < MAX_IPS_RECORD_LEN then Inr (desired_len + 1)
          else invalid_fmt ''{} record split would create an EOF-marker offset'' [Str (flavor_name flavor)]
        else Inr desired_len))"

lemma adjust_pos:
  "adjust_record_len_for_reserved_offset flavor offset n a m = Inr k \<Longrightarrow> 0 < n \<Longrightarrow> 0 < k"
  by (auto simp: adjust_record_len_for_reserved_offset_def result_iff split: if_splits)

text \<open>
  A window of at most 65535 bytes, split into run-length and literal records.
\<close>

function write_window_from :: "ips_flavor \<Rightarrow> nat \<Rightarrow> bytes \<Rightarrow> nat \<Rightarrow> ips_sink \<Rightarrow> ips_sink result" where
  "write_window_from flavor offset bytes cursor sink =
     (if cursor < length bytes
      then and_then (ips_checked_add offset cursor ''IPS optimized record offset'') (\<lambda>record_offset.
        let remaining = drop cursor bytes;
            repeat_len = repeated_prefix_len remaining
        in if repeat_len \<ge> MIN_RLE_RECORD_LEN \<and>
              (repeat_len = length remaining \<or> repeat_len > RLE_SPLIT_EDGE_THRESHOLD)
           then and_then (adjust_record_len_for_reserved_offset flavor record_offset repeat_len repeat_len
                            (repeat_len < length remaining)) (\<lambda>len.
                and_then (write_rle_record flavor record_offset len (remaining ! 0) sink) (\<lambda>sink.
                write_window_from flavor offset bytes (cursor + len) sink))
           else
             let split_len = (case find_next_rle_split remaining of Some (index, _) \<Rightarrow> index
                              | None \<Rightarrow> length remaining);
                 literal_len = (if split_len = 0 then min (length remaining) RLE_SPLIT_EDGE_THRESHOLD
                                else split_len)
             in and_then (adjust_record_len_for_reserved_offset flavor record_offset literal_len (length remaining)
                            (literal_len < length remaining)) (\<lambda>len.
                and_then (write_literal_record flavor record_offset (take len remaining) sink) (\<lambda>sink.
                write_window_from flavor offset bytes (cursor + len) sink)))
      else Inr sink)"
  by pat_completeness auto
termination
proof (relation "measure (\<lambda>(_, _, bytes, cursor, _). length bytes - cursor)", goal_cases)
  case (2 flavor offset bytes cursor sink record_offset remaining repeat_len len sink')
  then show ?case
    using adjust_pos [of flavor record_offset repeat_len] by (fastforce simp: MIN_RLE_RECORD_LEN_def)
next
  case (3 flavor offset bytes cursor sink record_offset remaining repeat_len split_len literal_len len sink')
  then show ?case
    using adjust_pos [of flavor record_offset literal_len]
    by (fastforce simp: RLE_SPLIT_EDGE_THRESHOLD_def split: if_splits)
qed simp

declare write_window_from.simps [simp del]

definition write_optimized_record_window :: "ips_flavor \<Rightarrow> nat \<Rightarrow> bytes \<Rightarrow> ips_sink \<Rightarrow> ips_sink result" where
  "write_optimized_record_window flavor offset bytes sink = write_window_from flavor offset bytes 0 sink"

text \<open>A run of any length, cut into windows.\<close>

function write_diff_run_from :: "ips_flavor \<Rightarrow> ips_diff_run \<Rightarrow> nat \<Rightarrow> ips_sink \<Rightarrow> ips_sink result" where
  "write_diff_run_from flavor r cursor sink =
     (if cursor < length (idr_bytes r)
      then and_then (ips_checked_add (idr_offset r) cursor ''IPS diff segment offset'') (\<lambda>segment_offset.
        let remaining_len = length (idr_bytes r) - cursor;
            desired_len = min remaining_len MAX_IPS_RECORD_LEN
        in and_then (adjust_record_len_for_reserved_offset flavor segment_offset desired_len remaining_len
                       (remaining_len > desired_len)) (\<lambda>window_len.
           and_then (write_optimized_record_window flavor segment_offset
                       (segment (idr_bytes r) cursor window_len) sink) (\<lambda>sink.
           write_diff_run_from flavor r (cursor + window_len) sink)))
      else Inr sink)"
  by pat_completeness auto
termination
proof (relation "measure (\<lambda>(_, r, cursor, _). length (idr_bytes r) - cursor)", goal_cases)
  case (2 flavor r cursor sink segment_offset remaining_len desired_len window_len sink')
  then show ?case
    using adjust_pos [of flavor segment_offset desired_len] by (fastforce simp: MAX_IPS_RECORD_LEN_def)
qed simp

declare write_diff_run_from.simps [simp del]

definition write_diff_run_records :: "ips_flavor \<Rightarrow> ips_diff_run \<Rightarrow> ips_sink \<Rightarrow> ips_sink result" where
  "write_diff_run_records flavor r sink = write_diff_run_from flavor r 0 sink"

text \<open>What follows the last record.\<close>

definition ips_write_trailer :: "ips_flavor \<Rightarrow> nat \<Rightarrow> nat \<Rightarrow> bytes \<Rightarrow> bytes result" where
  "ips_write_trailer flavor original_len modified_len out =
     (case flavor of
        Ips \<Rightarrow> if modified_len < original_len then ips_write_u24 modified_len ''IPS truncate size'' out
               else Inr out
      | Ips32 \<Rightarrow> Inr out
      | Ebp \<Rightarrow> Inr (out @ DEFAULT_EBP_METADATA_JSON))"

section \<open>The streaming scan\<close>

record pending_diff =
  pn_start_offset :: nat
  pn_bytes :: bytes
  pn_trailing_unchanged :: nat

type_synonym ips_scan = "pending_diff option \<times> ips_sink"

definition start_pending_diff :: "ips_flavor \<Rightarrow> nat \<Rightarrow> u8 option \<Rightarrow> pending_diff result" where
  "start_pending_diff flavor offset previous_modified_byte =
     (if offset = flavor_reserved_eof_offset flavor
      then and_then (if 1 \<le> offset then Inr (offset - 1)
                     else invalid ''IPS reserved EOF offset underflowed'') (\<lambda>previous_offset.
           and_then (ok_or previous_modified_byte
                       (invalid ''IPS reserved EOF offset did not have a preceding target byte'')) (\<lambda>previous_byte.
           Inr \<lparr>pn_start_offset = previous_offset, pn_bytes = [previous_byte], pn_trailing_unchanged = 0\<rparr>))
      else Inr \<lparr>pn_start_offset = offset, pn_bytes = [], pn_trailing_unchanged = 0\<rparr>)"

definition trim_pending_trailing_unchanged :: "pending_diff \<Rightarrow> pending_diff" where
  "trim_pending_trailing_unchanged diff =
     (if pn_trailing_unchanged diff = 0 then diff
      else diff\<lparr>pn_bytes := take (length (pn_bytes diff) - pn_trailing_unchanged diff) (pn_bytes diff),
                pn_trailing_unchanged := 0\<rparr>)"

definition write_pending_diff :: "ips_flavor \<Rightarrow> pending_diff \<Rightarrow> ips_sink \<Rightarrow> ips_sink result" where
  "write_pending_diff flavor diff sink =
     (if pn_bytes diff = [] then Inr sink
      else write_diff_run_records flavor \<lparr>idr_offset = pn_start_offset diff, idr_bytes = pn_bytes diff\<rparr> sink)"

definition flush_pending_diff :: "ips_flavor \<Rightarrow> ips_scan \<Rightarrow> ips_scan result" where
  "flush_pending_diff flavor st =
     (case st of
        (None, sink) \<Rightarrow> Inr (None, sink)
      | (Some diff, sink) \<Rightarrow>
          and_then (write_pending_diff flavor (trim_pending_trailing_unchanged diff) sink) (\<lambda>sink.
          Inr (None, sink)))"

definition push_changed_byte :: "ips_flavor \<Rightarrow> nat \<Rightarrow> u8 \<Rightarrow> u8 option \<Rightarrow> ips_scan \<Rightarrow> ips_scan result" where
  "push_changed_byte flavor offset modified_byte previous_modified_byte st =
     and_then
       (case st of
          (Some diff, _) \<Rightarrow>
            if length (pn_bytes diff) = MAX_IPS_RECORD_LEN then flush_pending_diff flavor st else Inr st
        | (None, _) \<Rightarrow> Inr st) (\<lambda>(pending, sink).
     and_then
       (case pending of
          None \<Rightarrow> start_pending_diff flavor offset previous_modified_byte
        | Some diff \<Rightarrow> Inr diff) (\<lambda>diff.
     Inr (Some (diff\<lparr>pn_bytes := pn_bytes diff @ [modified_byte], pn_trailing_unchanged := 0\<rparr>), sink)))"

definition push_unchanged_byte :: "ips_flavor \<Rightarrow> u8 \<Rightarrow> ips_scan \<Rightarrow> ips_scan result" where
  "push_unchanged_byte flavor modified_byte st =
     (case st of
        (None, sink) \<Rightarrow> Inr (None, sink)
      | (Some diff, sink) \<Rightarrow>
          if length (pn_bytes diff) = MAX_IPS_RECORD_LEN then flush_pending_diff flavor (Some diff, sink)
          else
            let diff = diff\<lparr>pn_bytes := pn_bytes diff @ [modified_byte],
                            pn_trailing_unchanged := pn_trailing_unchanged diff + 1\<rparr>
            in if pn_trailing_unchanged diff > UNCHANGED_GAP_COALESCE_LIMIT
               then flush_pending_diff flavor (Some diff, sink)
               else Inr (Some diff, sink))"

record ips_stream =
  st_original :: bytes
  st_modified :: bytes
  st_scan :: ips_scan
  st_previous :: "u8 option"

definition ips_compare_byte ::
  "ips_flavor \<Rightarrow> nat \<Rightarrow> u8 \<Rightarrow> u8 \<Rightarrow> nat \<Rightarrow> ips_scan \<times> u8 option \<Rightarrow> (ips_scan \<times> u8 option) result" where
  "ips_compare_byte flavor original_len original_byte modified_byte offset st =
     (let (scan, previous) = st
      in and_then
           (if offset < original_len \<and> original_byte = modified_byte
            then push_unchanged_byte flavor modified_byte scan
            else push_changed_byte flavor offset modified_byte previous scan) (\<lambda>scan.
         Inr (scan, Some modified_byte)))"

definition ips_compare_buffer ::
  "ips_flavor \<Rightarrow> nat \<Rightarrow> nat \<Rightarrow> nat \<Rightarrow> ips_stream \<Rightarrow> ips_stream result" where
  "ips_compare_buffer flavor original_len offset n st =
     and_then (reader_read_exact (st_modified st) n) (\<lambda>(modified_buffer, modified_reader).
     let original_n = (if offset \<ge> original_len then 0 else min (original_len - offset) n)
     in and_then (if 0 < original_n then reader_read_exact (st_original st) original_n
                  else Inr ([], st_original st)) (\<lambda>(original_bytes, original_reader).
        let original_buffer = original_bytes @ replicate (n - original_n) 0
        in and_then
             (fold_result
                (\<lambda>index. ips_compare_byte flavor original_len (original_buffer ! index)
                           (modified_buffer ! index) (offset + index))
                [0..<n] (st_scan st, st_previous st)) (\<lambda>(scan, previous).
           Inr \<lparr>st_original = original_reader, st_modified = modified_reader, st_scan = scan,
                st_previous = previous\<rparr>)))"

definition create_ips_patch_streaming ::
  "ips_flavor \<Rightarrow> bytes \<Rightarrow> bytes \<Rightarrow> (bytes \<times> ips_create_result) result" where
  "create_ips_patch_streaming flavor original modified =
     and_then
       (chunk_loop COMPARE_BUFFER_SIZE (ips_compare_buffer flavor (length original)) 0 (length modified)
          \<lparr>st_original = original, st_modified = modified,
           st_scan = (None, flavor_header flavor, ips_create_result_default), st_previous = None\<rparr>) (\<lambda>st.
     and_then (flush_pending_diff flavor (st_scan st)) (\<lambda>(_, out, created).
     and_then (ips_write_trailer flavor (length original) (length modified) (out @ flavor_footer flavor)) (\<lambda>out.
     Inr (out, created))))"

section \<open>The parallel scan\<close>

definition ips_create_chunk_count :: "nat \<Rightarrow> nat result" where
  "ips_create_chunk_count modified_len =
     chunk_count_for_len_checked modified_len CREATE_SCAN_CHUNK_BYTES
       ''IPS create required more chunks than this platform can index''"

definition ips_create_thread_capability :: "nat \<Rightarrow> thread_capability result" where
  "ips_create_thread_capability modified_len =
     and_then (ips_create_chunk_count modified_len) (\<lambda>chunk_count. Inr (Parallel (Some (max chunk_count 1))))"

definition ips_scan_step ::
  "nat \<Rightarrow> bytes \<Rightarrow> bytes \<Rightarrow> nat \<Rightarrow> nat \<Rightarrow> ips_diff_run list \<times> nat option \<times> bytes \<Rightarrow>
   (ips_diff_run list \<times> nat option \<times> bytes) result" where
  "ips_scan_step start original_bytes modified_bytes original_len index st =
     (let (runs, pending_start, pending_bytes) = st
      in and_then (ips_checked_add start index ''IPS create scan offset'') (\<lambda>cursor.
         let source = original_bytes ! index; target = modified_bytes ! index
         in if cursor < original_len \<and> source = target
            then if pending_bytes \<noteq> []
                 then Inr (runs @ [\<lparr>idr_offset = the pending_start, idr_bytes = pending_bytes\<rparr>], None, [])
                 else Inr (runs, pending_start, pending_bytes)
            else Inr (runs, Some (case pending_start of None \<Rightarrow> cursor | Some s \<Rightarrow> s), pending_bytes @ [target])))"

definition collect_ips_diff_runs_from_bytes ::
  "nat \<Rightarrow> bytes \<Rightarrow> bytes \<Rightarrow> nat \<Rightarrow> ips_diff_run list result" where
  "collect_ips_diff_runs_from_bytes start original_bytes modified_bytes original_len =
     and_then
       (fold_result (ips_scan_step start original_bytes modified_bytes original_len)
          [0..<length modified_bytes] ([], None, []))
       (\<lambda>(runs, pending_start, pending_bytes).
          Inr (if pending_bytes \<noteq> []
               then runs @ [\<lparr>idr_offset = the pending_start, idr_bytes = pending_bytes\<rparr>] else runs))"

definition collect_ips_diff_runs_for_chunk :: "bytes \<Rightarrow> bytes \<Rightarrow> nat \<Rightarrow> ips_diff_run list result" where
  "collect_ips_diff_runs_for_chunk original modified =
     collect_chunk CREATE_SCAN_CHUNK_BYTES ''IPS create chunk offset overflowed''
       (\<lambda>start original_bytes modified_bytes.
          collect_ips_diff_runs_from_bytes start original_bytes modified_bytes (length original))
       original modified"

definition protect_reserved_run_start :: "ips_flavor \<Rightarrow> bytes \<Rightarrow> ips_diff_run \<Rightarrow> ips_diff_run result" where
  "protect_reserved_run_start flavor modified r =
     (let reserved = flavor_reserved_eof_offset flavor
      in if idr_offset r \<noteq> reserved then Inr r
         else
           and_then (if 1 \<le> reserved then Inr (reserved - 1)
                     else invalid ''IPS reserved EOF offset underflowed'') (\<lambda>previous_offset.
           and_then (seek_read_exact modified previous_offset 1) (\<lambda>previous_byte.
           Inr \<lparr>idr_offset = previous_offset, idr_bytes = previous_byte ! 0 # idr_bytes r\<rparr>)))"

definition coalesce_step ::
  "ips_flavor \<Rightarrow> bytes \<Rightarrow> ips_diff_run \<Rightarrow> ips_diff_run list \<times> ips_diff_run option \<Rightarrow>
   (ips_diff_run list \<times> ips_diff_run option) result" where
  "coalesce_step flavor modified r st =
     (let (coalesced, current) = st
      in and_then (protect_reserved_run_start flavor modified r) (\<lambda>r.
         case current of
           None \<Rightarrow> Inr (coalesced, Some r)
         | Some active \<Rightarrow>
             and_then (ips_run_end active) (\<lambda>active_end.
             if idr_offset r < active_end then invalid ''IPS create produced overlapping diff runs''
             else
               let gap_len = idr_offset r - active_end
               in and_then
                    (ok_or (case checked_add_opt (length (idr_bytes active)) gap_len of
                              None \<Rightarrow> None
                            | Some n \<Rightarrow> checked_add_opt n (length (idr_bytes r)))
                       (invalid ''IPS coalesced diff run length overflowed'')) (\<lambda>merged_len.
                  if gap_len \<le> UNCHANGED_GAP_COALESCE_LIMIT \<and> merged_len \<le> MAX_IPS_RECORD_LEN
                  then and_then (if 0 < gap_len then seek_read_exact modified active_end gap_len else Inr []) (\<lambda>gap.
                       Inr (coalesced,
                            Some (active\<lparr>idr_bytes := idr_bytes active @ gap @ idr_bytes r\<rparr>)))
                  else Inr (coalesced @ [active], Some r)))))"

definition coalesce_ips_diff_runs ::
  "ips_flavor \<Rightarrow> bytes \<Rightarrow> ips_diff_run list \<Rightarrow> ips_diff_run list result" where
  "coalesce_ips_diff_runs flavor modified runs =
     and_then (fold_result (coalesce_step flavor modified) runs ([], None)) (\<lambda>(coalesced, current).
     Inr (case current of Some r \<Rightarrow> coalesced @ [r] | None \<Rightarrow> coalesced))"

definition write_ips_runs_to_output ::
  "ips_flavor \<Rightarrow> ips_diff_run list \<Rightarrow> nat \<Rightarrow> nat \<Rightarrow> (bytes \<times> ips_create_result) result" where
  "write_ips_runs_to_output flavor runs original_len modified_len =
     and_then (fold_result (write_diff_run_records flavor) runs (flavor_header flavor, ips_create_result_default))
       (\<lambda>(out, created).
     and_then (ips_write_trailer flavor original_len modified_len (out @ flavor_footer flavor)) (\<lambda>out.
     Inr (out, created)))"

definition create_ips_patch_parallel ::
  "ips_flavor \<Rightarrow> bytes \<Rightarrow> bytes \<Rightarrow> (bytes \<times> ips_create_result) result" where
  "create_ips_patch_parallel flavor original modified =
     and_then (ips_create_chunk_count (length modified)) (\<lambda>chunk_count.
     and_then (scan_create_chunks chunk_count (collect_ips_diff_runs_for_chunk original modified)) (\<lambda>chunk_runs.
     and_then (merge_adjacent_runs idr_offset ips_run_end ips_run_append chunk_runs) (\<lambda>runs.
     and_then (coalesce_ips_diff_runs flavor modified runs) (\<lambda>runs.
     write_ips_runs_to_output flavor runs (length original) (length modified)))))"

section \<open>Create\<close>

definition validate_ips_create_flips_limits ::
  "nat \<Rightarrow> nat \<Rightarrow> ips_flavor \<Rightarrow> checksum_validation \<Rightarrow> unit result" where
  "validate_ips_create_flips_limits original_len modified_len flavor validation =
     (if flavor \<noteq> Ips \<or> validation \<noteq> Strict then Inr ()
      else
        let max_ips_len = MAX_IPS_OFFSET + 1
        in if modified_len > max_ips_len
           then invalid_fmt ''IPS create target size {} exceeds the Flips-compatible {} limit; use BPS, xdelta, or --ignore-checksum-validation to try a non-Flips-compatible IPS patch''
                  [Num modified_len, Num max_ips_len]
           else if modified_len = max_ips_len \<and> original_len > modified_len
           then invalid_fmt ''IPS create cannot encode a truncate footer for exact {} output; use BPS, xdelta, or --ignore-checksum-validation to try a non-Flips-compatible IPS patch''
                  [Num max_ips_len]
           else Inr ())"

definition ips_create_warning_labels ::
  "string \<Rightarrow> nat \<Rightarrow> nat \<Rightarrow> ips_create_result \<Rightarrow> message list" where
  "ips_create_warning_labels format_name original_len modified_len created =
     (if icr_record_count created = 0 \<and> original_len = modified_len
      then [Msg ''{} patch will not change output; inputs are identical'' [Str format_name]] else []) @
     (if original_len > modified_len
      then [Msg ''{} create input is larger than modified output; double check file order'' [Str format_name]]
      else [])"

definition ips_create :: "ips_flavor \<Rightarrow> op_context \<Rightarrow> create_request \<Rightarrow> (bytes \<times> report) result" where
  "ips_create flavor ctx request =
     (let original = file_bytes (cr_original request); modified = file_bytes (cr_modified request);
          original_len = length original; modified_len = length modified; name = flavor_name flavor
      in if (flavor = Ips32 \<or> flavor = Ebp) \<and> modified_len < original_len
         then invalid_fmt ''{} patches cannot shrink the output (original: {}, modified: {}); use BPS, xdelta, or IPS instead''
                [Str name, Num original_len, Num modified_len]
         else
           and_then (validate_ips_create_flips_limits original_len modified_len flavor (ctx_validation ctx)) (\<lambda>_.
           and_then (ips_create_thread_capability modified_len) (\<lambda>cap.
           and_then
             (run_with_optional_pool ctx cap True
                (\<lambda>pool. create_ips_patch_parallel flavor original modified)
                (create_ips_patch_streaming flavor original modified)) (\<lambda>(execution, out, created).
           Inr (out, patch_success_report name ''create''
                  (append_warning_labels
                     [Msg ''created {} patch with {} record(s)'' [Str name, Num (icr_record_count created)]]
                     (ips_create_warning_labels name original_len modified_len created))
                  (Some execution))))))"

end
