(* ===== verification/Ips_Create_Correct.thy ===== *)
theory Ips_Create_Correct
  imports Ips_Create
begin

text \<open>
  IPS create is correct: the record writer covers exactly the bytes it is given with records
  that copy the target and never start at the end-of-file marker, both scans cover every
  difference, the parser reads the records back, and applying them yields the target.
\<close>

section \<open>Records of a target\<close>

fun flavor_max_offset :: "ips_flavor \<Rightarrow> nat" where
  "flavor_max_offset Ips32 = MAX_IPS32_OFFSET"
| "flavor_max_offset _ = MAX_IPS_OFFSET"

definition ips_encode :: "ips_flavor \<Rightarrow> ips_record \<Rightarrow> bytes" where
  "ips_encode flavor r = be_bytes (flavor_offset_len flavor) (ir_offset r) @
     (case ir_data r of
        Literal data \<Rightarrow> be_bytes 2 (length data) @ data
      | Rle b \<Rightarrow> be_bytes 2 0 @ be_bytes 2 (ir_len r) @ [b])"

definition ips_copies :: "ips_flavor \<Rightarrow> bytes \<Rightarrow> ips_record \<Rightarrow> bool" where
  "ips_copies flavor t r \<longleftrightarrow> ips_good r \<and> ir_len r \<le> MAX_IPS_RECORD_LEN \<and>
     ir_offset r \<noteq> flavor_reserved_eof_offset flavor \<and> ir_offset r \<le> flavor_max_offset flavor \<and>
     ips_stop r \<le> length t \<and> (\<forall>i. ir_offset r \<le> i \<and> i < ips_stop r \<longrightarrow> ips_record_byte r i = t ! i)"

definition ips_covers :: "ips_record list \<Rightarrow> nat \<Rightarrow> bool" where
  "ips_covers rs i \<longleftrightarrow> (\<exists>r \<in> set rs. ir_offset r \<le> i \<and> i < ips_stop r)"

definition ips_emitted :: "ips_flavor \<Rightarrow> bytes \<Rightarrow> ips_sink \<Rightarrow> ips_sink \<Rightarrow> nat set \<Rightarrow> bool" where
  "ips_emitted flavor t sink sink' C \<longleftrightarrow>
     (\<exists>rs. (\<forall>r \<in> set rs. ips_copies flavor t r) \<and> (\<forall>i \<in> C. ips_covers rs i) \<and>
        fst sink' = fst sink @ concat (map (ips_encode flavor) rs) \<and>
        snd sink' = \<lparr>icr_record_count = icr_record_count (snd sink) + length rs,
                     icr_max_written_end = max (icr_max_written_end (snd sink)) (ips_end_of rs)\<rparr>)"

lemma ips_end_of_append: "ips_end_of (rs @ ss) = max (ips_end_of rs) (ips_end_of ss)"
  by (induction ss rule: rev_induct) (simp_all add: append_assoc [symmetric] max.assoc del: append_assoc)

lemma ips_emitted_refl: "ips_emitted flavor t sink sink {}"
  by (rule ips_emitted_def [THEN iffD2], rule exI [of _ "[]"]) (cases sink, simp)

lemma ips_emitted_trans:
  assumes "ips_emitted flavor t a b C" and "ips_emitted flavor t b c D" and "E \<subseteq> C \<union> D"
  shows "ips_emitted flavor t a c E"
proof -
  from assms(1) obtain rs where rs: "\<forall>r \<in> set rs. ips_copies flavor t r" "\<forall>i \<in> C. ips_covers rs i"
    "fst b = fst a @ concat (map (ips_encode flavor) rs)"
    "snd b = \<lparr>icr_record_count = icr_record_count (snd a) + length rs,
              icr_max_written_end = max (icr_max_written_end (snd a)) (ips_end_of rs)\<rparr>"
    by (auto simp: ips_emitted_def)
  from assms(2) obtain ss where ss: "\<forall>r \<in> set ss. ips_copies flavor t r" "\<forall>i \<in> D. ips_covers ss i"
    "fst c = fst b @ concat (map (ips_encode flavor) ss)"
    "snd c = \<lparr>icr_record_count = icr_record_count (snd b) + length ss,
              icr_max_written_end = max (icr_max_written_end (snd b)) (ips_end_of ss)\<rparr>"
    by (auto simp: ips_emitted_def)
  have "\<forall>i \<in> E. ips_covers (rs @ ss) i"
  proof
    fix i
    assume "i \<in> E"
    then have "ips_covers rs i \<or> ips_covers ss i" using assms(3) rs(2) ss(2) by blast
    then show "ips_covers (rs @ ss) i" by (auto simp: ips_covers_def)
  qed
  with rs ss show ?thesis
    unfolding ips_emitted_def
    by (intro exI [of _ "rs @ ss"]) (auto simp: ips_end_of_append max.assoc)
qed

lemma ips_emitted_one:
  assumes "ips_copies flavor t r" and "\<And>i. i \<in> C \<Longrightarrow> ir_offset r \<le> i \<and> i < ips_stop r"
  shows "ips_emitted flavor t (out, created)
    (out @ ips_encode flavor r,
     \<lparr>icr_record_count = icr_record_count created + 1,
      icr_max_written_end = max (icr_max_written_end created) (ips_stop r)\<rparr>) C"
  unfolding ips_emitted_def
  by (rule exI [of _ "[r]"]) (use assms in \<open>auto simp: ips_covers_def ips_end_of_def\<close>)

section \<open>The record writer\<close>

lemma repeated_prefix_nth: "i < repeated_prefix_len bs \<Longrightarrow> bs ! i = bs ! 0"
proof (cases bs)
  case (Cons b rest)
  assume i: "i < repeated_prefix_len bs"
  show ?thesis
  proof (cases i)
    case (Suc j)
    then have "j < length (takeWhile (\<lambda>x. x = b) rest)"
      using i Cons by (simp add: repeated_prefix_len_def)
    note lt = this
    then have "takeWhile (\<lambda>x. x = b) rest ! j \<in> set (takeWhile (\<lambda>x. x = b) rest)" by (rule nth_mem)
    from set_takeWhileD [OF this] takeWhile_nth [OF lt] have "rest ! j = b" by simp
    then show ?thesis using Suc Cons by simp
  qed simp
qed (simp add: repeated_prefix_len_def)

lemma find_next_rle_split_from_lt:
  "find_next_rle_split_from bs k = Some (i, l) \<Longrightarrow> i < length bs"
proof (induction "length bs - k" arbitrary: k rule: less_induct)
  case less
  let ?len = "repeated_prefix_len (drop k bs)"
  from less.prems have k: "k < length bs"
    by (subst (asm) find_next_rle_split_from.simps) (auto split: if_splits)
  from less.prems consider "i = k" | "find_next_rle_split_from bs (k + max ?len 1) = Some (i, l)"
    by (subst (asm) find_next_rle_split_from.simps) (auto simp: Let_def split: if_splits)
  then show ?case
  proof cases
    case 2
    show ?thesis by (rule less.hyps [OF _ 2]) (use k in auto)
  qed (use k in simp)
qed

lemma adjust_ok:
  assumes "0 < n" and "n \<le> avail" and "off \<noteq> flavor_reserved_eof_offset flavor" and "off + n \<le> u64_max"
    and "m \<Longrightarrow> n < MAX_IPS_RECORD_LEN \<and> n < avail \<or> 1 < n"
  shows "\<exists>k. adjust_record_len_for_reserved_offset flavor off n avail m = Inr k \<and> 0 < k \<and> k \<le> avail \<and>
    (m \<longrightarrow> off + k \<noteq> flavor_reserved_eof_offset flavor) \<and> (\<not> m \<longrightarrow> k = n) \<and> (k \<le> n \<or> n = 1 \<and> k = 2)"
  using assms by (auto simp: adjust_record_len_for_reserved_offset_def)

lemma write_offset_ok:
  assumes "ips_copies flavor t r"
  shows "ips_write_offset flavor (ir_offset r) out = Inr (out @ be_bytes (flavor_offset_len flavor) (ir_offset r))"
  using assms by (cases flavor) (auto simp: ips_copies_def ips_write_offset_def ips_write_u24_def ips_write_u32_def)

lemma write_literal_ok:
  assumes r: "ips_copies flavor t \<lparr>ir_offset = off, ir_len = length d, ir_data = Literal d\<rparr>"
    and C: "\<And>i. i \<in> C \<Longrightarrow> off \<le> i \<and> i < off + length d"
  shows "\<exists>sink'. write_literal_record flavor off d sink = Inr sink' \<and> ips_emitted flavor t sink sink' C"
proof -
  obtain out created where sink: "sink = (out, created)" by (cases sink)
  have d: "d \<noteq> []" "length d \<le> MAX_IPS_RECORD_LEN" "off + length d \<le> u64_max"
    using r by (auto simp: ips_copies_def ips_good_def)
  have "write_literal_record flavor off d sink =
      Inr (out @ ips_encode flavor \<lparr>ir_offset = off, ir_len = length d, ir_data = Literal d\<rparr>,
        \<lparr>icr_record_count = icr_record_count created + 1,
         icr_max_written_end = max (icr_max_written_end created)
           (ips_stop \<lparr>ir_offset = off, ir_len = length d, ir_data = Literal d\<rparr>)\<rparr>)"
    using d write_offset_ok [OF r, of out]
    by (simp add: sink write_literal_record_def ips_encode_def ips_stop_def)
  moreover note ips_emitted_one [OF r, of C out created]
  ultimately show ?thesis using C by (auto simp: sink ips_stop_def)
qed

lemma write_rle_ok:
  assumes r: "ips_copies flavor t \<lparr>ir_offset = off, ir_len = n, ir_data = Rle b\<rparr>"
    and C: "\<And>i. i \<in> C \<Longrightarrow> off \<le> i \<and> i < off + n"
  shows "\<exists>sink'. write_rle_record flavor off n b sink = Inr sink' \<and> ips_emitted flavor t sink sink' C"
proof -
  obtain out created where sink: "sink = (out, created)" by (cases sink)
  have n: "0 < n" "n \<le> MAX_IPS_RECORD_LEN" "off + n \<le> u64_max"
    using r by (auto simp: ips_copies_def ips_good_def)
  have "write_rle_record flavor off n b sink =
      Inr (out @ ips_encode flavor \<lparr>ir_offset = off, ir_len = n, ir_data = Rle b\<rparr>,
        \<lparr>icr_record_count = icr_record_count created + 1,
         icr_max_written_end = max (icr_max_written_end created)
           (ips_stop \<lparr>ir_offset = off, ir_len = n, ir_data = Rle b\<rparr>)\<rparr>)"
    using n write_offset_ok [OF r, of out]
    by (simp add: sink write_rle_record_def ips_encode_def ips_stop_def)
  moreover note ips_emitted_one [OF r, of C out created]
  ultimately show ?thesis using C by (auto simp: sink ips_stop_def)
qed

text \<open>A target that fits the offsets of a flavor.\<close>

definition ips_fits :: "ips_flavor \<Rightarrow> bytes \<Rightarrow> bool" where
  "ips_fits flavor t \<longleftrightarrow> length t \<le> flavor_max_offset flavor + 1"

lemma ips_fits_u64: "ips_fits flavor t \<Longrightarrow> length t \<le> u64_max"
  by (cases flavor) (auto simp: ips_fits_def MAX_IPS_OFFSET_def MAX_IPS32_OFFSET_def u64_max_def)

lemma ips_copies_I:
  assumes "ips_fits flavor t" and "0 < n" and "off + n \<le> length t" and "n \<le> MAX_IPS_RECORD_LEN"
    and "off \<noteq> flavor_reserved_eof_offset flavor"
    and "case d of Literal data \<Rightarrow> data = segment t off n | Rle b \<Rightarrow> \<forall>i < n. t ! (off + i) = b"
  shows "ips_copies flavor t \<lparr>ir_offset = off, ir_len = n, ir_data = d\<rparr>"
proof -
  have "ips_record_byte \<lparr>ir_offset = off, ir_len = n, ir_data = d\<rparr> i = t ! i" if "off \<le> i" "i < off + n" for i
  proof (cases d)
    case (Literal data)
    then show ?thesis using that assms(3,6) by (auto simp: ips_record_byte_def nth_segment)
  next
    case (Rle b)
    then have all: "\<forall>i < n. t ! (off + i) = b" using assms(6) by simp
    have "i - off < n" using that by auto
    from all [rule_format, OF this] have "t ! (off + (i - off)) = b" .
    then show ?thesis using Rle that by (simp add: ips_record_byte_def)
  qed
  moreover have "off + n \<le> u64_max" using assms(1,3) ips_fits_u64 by fastforce
  moreover have "off \<le> flavor_max_offset flavor" using assms(1-3) by (simp add: ips_fits_def)
  ultimately show ?thesis
    using assms by (auto simp: ips_copies_def ips_good_def ips_stop_def split: ips_record_data.splits)
qed

lemma write_window_ok:
  assumes "ips_fits flavor t" and "offset + length bs \<le> length t" and "bs = segment t offset (length bs)"
    and "length bs \<le> MAX_IPS_RECORD_LEN" and "cursor \<le> length bs"
    and "cursor < length bs \<Longrightarrow> offset + cursor \<noteq> flavor_reserved_eof_offset flavor"
  shows "\<exists>sink'. write_window_from flavor offset bs cursor sink = Inr sink' \<and>
    ips_emitted flavor t sink sink' {offset + cursor..<offset + length bs}"
  using assms(5,6)
proof (induction "length bs - cursor" arbitrary: cursor sink rule: less_induct)
  case less
  show ?case
  proof (cases "cursor < length bs")
    case False
    then show ?thesis
      using less.prems(1) ips_emitted_refl [of flavor t sink] by (subst write_window_from.simps) simp
  next
    case True
    let ?rec = "offset + cursor" and ?rest = "drop cursor bs" and ?res = "flavor_reserved_eof_offset flavor"
    let ?rep = "repeated_prefix_len ?rest"
    have u64: "length t \<le> u64_max" by (rule ips_fits_u64 [OF assms(1)])
    have rec: "ips_checked_add offset cursor ''IPS optimized record offset'' = Inr ?rec"
      using u64 assms(2) True by simp
    have rest: "?rest ! i = t ! (?rec + i)" if "i < length ?rest" for i
    proof -
      have "?rest ! i = segment t offset (length bs) ! (cursor + i)" using that assms(3) by simp
      also have "\<dots> = t ! (offset + (cursor + i))" using that assms(2) by (subst nth_segment) auto
      finally show ?thesis by (simp add: add.assoc)
    qed
    have seg: "take k ?rest = segment t ?rec k" if "k \<le> length ?rest" for k
      using that rest assms(2) by (intro nth_equalityI) (auto simp: nth_segment)
    have continue: "\<exists>sink'. and_then w (\<lambda>sink. write_window_from flavor offset bs (cursor + ips_k) sink) = Inr sink' \<and>
        ips_emitted flavor t sink sink' {?rec..<offset + length bs}"
      if "0 < ips_k" "ips_k \<le> length ?rest" "ips_k < length ?rest \<longrightarrow> ?rec + ips_k \<noteq> ?res"
        "\<exists>mid. w = Inr mid \<and> ips_emitted flavor t sink mid {?rec..<?rec + ips_k}" for w :: "ips_sink result" and ips_k :: nat
    proof -
      from that(4) obtain mid where mid: "w = Inr mid" "ips_emitted flavor t sink mid {?rec..<?rec + ips_k}"
        by blast
      have "length bs - (cursor + ips_k) < length bs - cursor" "cursor + ips_k \<le> length bs"
        "cursor + ips_k < length bs \<Longrightarrow> offset + (cursor + ips_k) \<noteq> ?res"
        using that True by (auto simp: add.assoc)
      from less.hyps [OF this, of mid] obtain sink' where
        rest': "write_window_from flavor offset bs (cursor + ips_k) mid = Inr sink'"
        "ips_emitted flavor t mid sink' {offset + (cursor + ips_k)..<offset + length bs}" by blast
      have "ips_emitted flavor t sink sink' {?rec..<offset + length bs}"
        by (rule ips_emitted_trans [OF mid(2) rest'(2)]) auto
      with mid(1) rest'(1) show ?thesis by simp
    qed
    show ?thesis
    proof (cases "?rep \<ge> MIN_RLE_RECORD_LEN \<and> (?rep = length ?rest \<or> ?rep > RLE_SPLIT_EDGE_THRESHOLD)")
      case rle: True
      then have rep: "1 < ?rep" "?rep \<le> length ?rest"
        using repeated_prefix_len_le [of ?rest] by (simp_all add: MIN_RLE_RECORD_LEN_def del: length_drop)
      from adjust_ok [of ?rep ?rep ?rec flavor "?rep < length ?rest"] rep less.prems(2) [OF True] u64 assms(2) True
      obtain k where k: "adjust_record_len_for_reserved_offset flavor ?rec ?rep ?rep (?rep < length ?rest) = Inr k"
        "0 < k" "k \<le> ?rep" "?rep < length ?rest \<longrightarrow> ?rec + k \<noteq> ?res" "\<not> ?rep < length ?rest \<longrightarrow> k = ?rep"
        by fastforce
      have "ips_copies flavor t \<lparr>ir_offset = ?rec, ir_len = k, ir_data = Rle (?rest ! 0)\<rparr>"
      proof (rule ips_copies_I [OF assms(1)])
        have "t ! (?rec + i) = ?rest ! 0" if "i < k" for i
          using that k(3) rep rest [of i] repeated_prefix_nth [of i ?rest] by simp
        then show "case Rle (?rest ! 0) of Literal data \<Rightarrow> data = segment t ?rec k
            | Rle b \<Rightarrow> \<forall>i < k. t ! (?rec + i) = b" by simp
      qed (use k rep assms(2,4) True less.prems(2) in auto)
      from write_rle_ok [OF this, of "{?rec..<?rec + k}" sink] have
        "\<exists>mid. write_rle_record flavor ?rec k (?rest ! 0) sink = Inr mid \<and>
          ips_emitted flavor t sink mid {?rec..<?rec + k}" by auto
      moreover have "k < length ?rest \<longrightarrow> ?rec + k \<noteq> ?res" and "k \<le> length ?rest"
        using k(3-5) rep by (metis nat_less_le, simp)
      ultimately show ?thesis
        unfolding write_window_from.simps [of flavor offset bs cursor] if_P [OF True] rec and_then_simps Let_def
          if_P [OF rle] k(1)
        using continue [OF k(2)] by blast
    next
      case lit: False
      define split_len where "split_len = (case find_next_rle_split ?rest of Some (index, _) \<Rightarrow> index
          | None \<Rightarrow> length ?rest)"
      define lit_len where "lit_len = (if split_len = 0 then min (length ?rest) RLE_SPLIT_EDGE_THRESHOLD else split_len)"
      have "split_len \<le> length ?rest"
        using find_next_rle_split_from_lt [of ?rest 0]
        by (auto simp: split_len_def find_next_rle_split_def less_imp_le split: option.splits)
      then have l: "0 < lit_len" "lit_len \<le> length ?rest"
        using True by (auto simp: lit_len_def RLE_SPLIT_EDGE_THRESHOLD_def)
      have bound: "length ?rest \<le> MAX_IPS_RECORD_LEN" using assms(4) by simp
      from adjust_ok [of lit_len "length ?rest" ?rec flavor "lit_len < length ?rest"] l less.prems(2) [OF True] u64 assms(2) True bound
      obtain k where k: "adjust_record_len_for_reserved_offset flavor ?rec lit_len (length ?rest) (lit_len < length ?rest) = Inr k"
        "0 < k" "k \<le> length ?rest" "lit_len < length ?rest \<longrightarrow> ?rec + k \<noteq> ?res" "\<not> lit_len < length ?rest \<longrightarrow> k = lit_len"
        by fastforce
      have len: "length (take k ?rest) = k" using k(3) by simp
      have "ips_copies flavor t \<lparr>ir_offset = ?rec, ir_len = length (take k ?rest), ir_data = Literal (take k ?rest)\<rparr>"
        unfolding len
        by (rule ips_copies_I [OF assms(1)])
          (use k l seg [OF k(3)] bound assms(2) True less.prems(2) in auto)
      from write_literal_ok [OF this, of "{?rec..<?rec + k}" sink] len have
        "\<exists>mid. write_literal_record flavor ?rec (take k ?rest) sink = Inr mid \<and>
          ips_emitted flavor t sink mid {?rec..<?rec + k}" by auto
      from continue [OF k(2) _ _ this] k l True lit show ?thesis
        unfolding write_window_from.simps [of flavor offset bs cursor] if_P [OF True] rec and_then_simps Let_def
          if_not_P [OF lit] split_len_def [symmetric] lit_len_def [symmetric] k(1)
        by auto
    qed
  qed
qed

text \<open>A run that copies the target and does not start at the marker.\<close>

definition ips_run_ok :: "ips_flavor \<Rightarrow> bytes \<Rightarrow> ips_diff_run \<Rightarrow> bool" where
  "ips_run_ok flavor t r \<longleftrightarrow> idr_bytes r \<noteq> [] \<and> idr_offset r \<noteq> flavor_reserved_eof_offset flavor \<and>
     idr_offset r + length (idr_bytes r) \<le> length t \<and>
     idr_bytes r = segment t (idr_offset r) (length (idr_bytes r))"

definition ips_run_cells :: "ips_diff_run \<Rightarrow> nat set" where
  "ips_run_cells r = {idr_offset r..<idr_offset r + length (idr_bytes r)}"

lemma segment_segment: "a + k \<le> n \<Longrightarrow> segment (segment t off n) a k = segment t (off + a) k"
  by (rule file_eqI) (auto simp: byte_at_segment add.assoc)

lemma write_diff_run_from_ok:
  assumes fits: "ips_fits flavor t" and ok: "ips_run_ok flavor t r"
    and "cursor \<le> length (idr_bytes r)"
    and "cursor < length (idr_bytes r) \<Longrightarrow> idr_offset r + cursor \<noteq> flavor_reserved_eof_offset flavor"
  shows "\<exists>sink'. write_diff_run_from flavor r cursor sink = Inr sink' \<and>
    ips_emitted flavor t sink sink' {idr_offset r + cursor..<idr_offset r + length (idr_bytes r)}"
  using assms(3,4)
proof (induction "length (idr_bytes r) - cursor" arbitrary: cursor sink rule: less_induct)
  case less
  let ?n = "length (idr_bytes r)" and ?off = "idr_offset r" and ?res = "flavor_reserved_eof_offset flavor"
  show ?case
  proof (cases "cursor < ?n")
    case False
    then show ?thesis
      using less.prems(1) ips_emitted_refl [of flavor t sink] by (subst write_diff_run_from.simps) simp
  next
    case True
    let ?rem = "?n - cursor" and ?seg = "?off + cursor"
    let ?des = "min ?rem MAX_IPS_RECORD_LEN"
    have u64: "length t \<le> u64_max" by (rule ips_fits_u64 [OF fits])
    have fit: "?off + ?n \<le> length t" and bytes: "idr_bytes r = segment t ?off ?n"
      using ok by (simp_all add: ips_run_ok_def)
    have seg: "ips_checked_add ?off cursor ''IPS diff segment offset'' = Inr ?seg"
      using u64 fit True by simp
    have "?rem > ?des \<Longrightarrow> 1 < ?des" by (simp add: MAX_IPS_RECORD_LEN_def min_def split: if_splits)
    moreover have "?seg + ?des \<le> u64_max" "0 < ?des" using u64 fit True by (auto simp: MAX_IPS_RECORD_LEN_def)
    ultimately have "\<exists>k. adjust_record_len_for_reserved_offset flavor ?seg ?des ?rem (?rem > ?des) = Inr k \<and> 0 < k \<and> k \<le> ?rem \<and>
        (?rem > ?des \<longrightarrow> ?seg + k \<noteq> ?res) \<and> (\<not> ?rem > ?des \<longrightarrow> k = ?des) \<and> (k \<le> ?des \<or> ?des = 1 \<and> k = 2)"
      using less.prems(2) [OF True] by (intro adjust_ok) auto
    then obtain k where k: "adjust_record_len_for_reserved_offset flavor ?seg ?des ?rem (?rem > ?des) = Inr k"
      "0 < k" "k \<le> ?rem" "?rem > ?des \<longrightarrow> ?seg + k \<noteq> ?res" "\<not> ?rem > ?des \<longrightarrow> k = ?des"
      "k \<le> ?des \<or> ?des = 1 \<and> k = 2"
      by blast
    have "?des \<noteq> 1 \<or> ?rem = 1" by (auto simp: MAX_IPS_RECORD_LEN_def)
    with k(3,6) have kmax: "k \<le> MAX_IPS_RECORD_LEN" by (auto simp: min_def split: if_splits)
    have window: "segment (idr_bytes r) cursor k = segment t ?seg k" "length (segment t ?seg k) = k"
      using k(3) True fit by (subst bytes, simp_all add: segment_segment)
    have "\<exists>mid. write_window_from flavor ?seg (segment t ?seg k) 0 sink = Inr mid \<and>
        ips_emitted flavor t sink mid {?seg + 0..<?seg + length (segment t ?seg k)}"
      by (rule write_window_ok [OF fits]) (use k(3) True fit kmax window less.prems(2) in auto)
    then obtain mid where mid: "write_window_from flavor ?seg (segment t ?seg k) 0 sink = Inr mid"
      "ips_emitted flavor t sink mid {?seg..<?seg + k}"
      unfolding window(2) add_0_right by blast
    have "?n - (cursor + k) < ?n - cursor" "cursor + k \<le> ?n" "cursor + k < ?n \<Longrightarrow> ?off + (cursor + k) \<noteq> ?res"
      using k(2-5) True by (auto simp: add.assoc)
    from less.hyps [OF this, of mid] obtain sink' where
      rest: "write_diff_run_from flavor r (cursor + k) mid = Inr sink'"
      "ips_emitted flavor t mid sink' {?off + (cursor + k)..<?off + ?n}" by blast
    have "ips_emitted flavor t sink sink' {?seg..<?off + ?n}"
      by (rule ips_emitted_trans [OF mid(2) rest(2)]) auto
    moreover have "write_diff_run_from flavor r cursor sink = Inr sink'"
      unfolding write_diff_run_from.simps [of flavor r cursor] if_P [OF True] seg and_then_simps Let_def k(1)
        write_optimized_record_window_def window(1) mid(1) rest(1) ..
    ultimately show ?thesis by blast
  qed
qed

lemma write_diff_run_ok:
  assumes "ips_fits flavor t" and "ips_run_ok flavor t r"
  shows "\<exists>sink'. write_diff_run_records flavor r sink = Inr sink' \<and>
    ips_emitted flavor t sink sink' (ips_run_cells r)"
  using write_diff_run_from_ok [OF assms, of 0 sink] assms(2)
  by (simp add: write_diff_run_records_def ips_run_cells_def ips_run_ok_def)

lemma write_diff_runs_ok:
  assumes "ips_fits flavor t" and "\<forall>r \<in> set rs. ips_run_ok flavor t r"
  shows "\<exists>sink'. fold_result (write_diff_run_records flavor) rs sink = Inr sink' \<and>
    ips_emitted flavor t sink sink' (\<Union>r \<in> set rs. ips_run_cells r)"
  using assms(2)
proof (induction rs arbitrary: sink)
  case Nil
  then show ?case using ips_emitted_refl [of flavor t sink] by simp
next
  case (Cons r rs)
  from write_diff_run_ok [OF assms(1), of r sink] Cons.prems obtain mid where
    mid: "write_diff_run_records flavor r sink = Inr mid" "ips_emitted flavor t sink mid (ips_run_cells r)" by auto
  from Cons.IH [of mid] Cons.prems obtain sink' where
    rest: "fold_result (write_diff_run_records flavor) rs mid = Inr sink'"
    "ips_emitted flavor t mid sink' (\<Union>r \<in> set rs. ips_run_cells r)" by auto
  from ips_emitted_trans [OF mid(2) rest(2) order_refl] mid(1) rest(1) show ?case by simp
qed

section \<open>The differences\<close>

definition ips_cell :: "bytes \<Rightarrow> bytes \<Rightarrow> nat \<Rightarrow> u8 option" where
  "ips_cell s t i = (if i < length s \<and> byte_at s i = byte_at t i then None else Some (byte_at t i))"

definition ips_changed :: "bytes \<Rightarrow> bytes \<Rightarrow> nat \<Rightarrow> nat set" where
  "ips_changed s t n = {i. i < n \<and> ips_cell s t i \<noteq> None}"

lemma ips_changed_Suc:
  "ips_changed s t (Suc n) = (if ips_cell s t n = None then ips_changed s t n else insert n (ips_changed s t n))"
  by (auto simp: ips_changed_def less_Suc_eq)

definition ips_of_run :: "u8 run \<Rightarrow> ips_diff_run" where
  "ips_of_run r = \<lparr>idr_offset = fst r, idr_bytes = snd r\<rparr>"

definition ips_view :: "ips_diff_run \<Rightarrow> u8 run" where
  "ips_view r = (idr_offset r, idr_bytes r)"

lemma ips_view_of_run [simp]: "ips_view (ips_of_run r) = r" "ips_of_run (ips_view d) = d"
  by (simp_all add: ips_view_def ips_of_run_def)

lemma ips_of_run_sel [simp]: "idr_offset (ips_of_run r) = fst r" "idr_bytes (ips_of_run r) = snd r"
  by (simp_all add: ips_of_run_def)

interpretation ips_runs: chunked_scan ips_view idr_offset ips_run_end ips_run_append ips_of_run
  CREATE_SCAN_CHUNK_BYTES "''IPS create chunk offset overflowed''"
  by unfold_locales
    (simp_all add: ips_view_def ips_run_end_def ips_run_append_def run_stop_def checked_add_opt_def
      ips_of_run_def CREATE_SCAN_CHUNK_BYTES_def)

section \<open>The parallel scan\<close>

lemma ips_scan_step_lift:
  assumes "start + index \<le> u64_max" and "ob ! index = byte_at s (start + index)"
    and "mb ! index = byte_at t (start + index)"
  shows "ips_scan_step start ob mb (length s) index (lift_scan ips_of_run st) =
    Inr (lift_scan ips_of_run (diff_step (ips_cell s t) (start + index) st))"
proof -
  obtain runs pstart pbytes where "lift_scan ips_of_run st = (runs, pstart, pbytes)"
    by (cases "lift_scan ips_of_run st")
  with assms show ?thesis
    by (simp add: ips_scan_step_def diff_step_lift ips_cell_def ips_of_run_def Let_def del: byte_at_lt)
qed

lemma collect_ips_chunk_ok:
  assumes "start \<le> stop" and "stop \<le> length t" and "stop \<le> u64_max"
    and "length ob = stop - start" and "\<forall>i < stop - start. ob ! i = byte_at s (start + i)"
  shows "collect_ips_diff_runs_from_bytes start ob (segment t start (stop - start)) (length s) =
    Inr (map ips_of_run (diff_scan (ips_cell s t) start stop))"
proof -
  let ?n = "stop - start" and ?mb = "segment t start (stop - start)"
  have mb: "?mb ! i = byte_at t (start + i)" if "i < ?n" for i
    using that assms(1,2) by (subst nth_segment) auto
  have "fold_result (ips_scan_step start ob ?mb (length s)) [0..<k] ([], None, []) =
      Inr (lift_scan ips_of_run (scan_to (ips_cell s t) start (start + k)))" if "k \<le> ?n" for k
    using that
  proof (induction k)
    case (Suc k)
    then have "start + k \<le> u64_max" "k < ?n" using assms(1,3) by auto
    with Suc mb [of k] assms(5) show ?case
      by (simp add: fold_result_append ips_scan_step_lift [of start k ob s ?mb t] scan_to_Suc)
  qed simp
  from this [OF le_refl] have scan: "fold_result (ips_scan_step start ob ?mb (length s)) [0..<?n] ([], None, []) =
      Inr (lift_scan ips_of_run (scan_to (ips_cell s t) start stop))"
    using assms(1) by simp
  obtain runs pstart pbytes where st: "lift_scan ips_of_run (scan_to (ips_cell s t) start stop) = (runs, pstart, pbytes)"
    by (cases "lift_scan ips_of_run (scan_to (ips_cell s t) start stop)")
  have "length ?mb = ?n" using assms(1,2) by simp
  then show ?thesis
    using scan lift_scan_finish [OF st] unfolding collect_ips_diff_runs_from_bytes_def st
    by (auto simp: ips_of_run_def split: if_splits)
qed

lemma ips_parallel_runs:
  assumes "length t + CREATE_SCAN_CHUNK_BYTES \<le> u64_max" and "ips_create_chunk_count (length t) = Inr k"
  shows "\<exists>chunks. scan_create_chunks k (collect_ips_diff_runs_for_chunk s t) = Inr chunks \<and>
    merge_adjacent_runs idr_offset ips_run_end ips_run_append chunks =
      Inr (map ips_of_run (diff_scan (ips_cell s t) 0 (length t)))"
proof -
  have "collects ips_of_run (\<lambda>start ob mb. collect_ips_diff_runs_from_bytes start ob mb (length s)) s t (ips_cell s t)"
    unfolding collects_def using assms(1) by (blast intro: collect_ips_chunk_ok le_trans add_leD1)
  from ips_runs.merged_chunks [OF this assms(1)] assms(2) show ?thesis
    by (auto simp: ips_create_chunk_count_def collect_ips_diff_runs_for_chunk_def)
qed

section \<open>Coalescing\<close>

text \<open>A raw run of the scan.\<close>

definition ips_raw_ok :: "bytes \<Rightarrow> ips_diff_run \<Rightarrow> bool" where
  "ips_raw_ok t r \<longleftrightarrow> idr_bytes r \<noteq> [] \<and> idr_offset r + length (idr_bytes r) \<le> length t \<and>
     idr_bytes r = segment t (idr_offset r) (length (idr_bytes r))"

definition ips_run_stop :: "ips_diff_run \<Rightarrow> nat" where
  "ips_run_stop r = idr_offset r + length (idr_bytes r)"

lemma segment_append: "off + a + b \<le> length t \<Longrightarrow> segment t off a @ segment t (off + a) b = segment t off (a + b)"
  by (simp add: segment_def take_add add.commute)

lemma flavor_reserved_pos: "1 \<le> flavor_reserved_eof_offset flavor"
  by (cases flavor) (simp_all add: IPS_RESERVED_EOF_OFFSET_def IPS32_RESERVED_EOF_OFFSET_def)

lemma protect_ok:
  assumes "ips_raw_ok t r"
  shows "\<exists>r'. protect_reserved_run_start flavor t r = Inr r' \<and> ips_run_ok flavor t r' \<and>
    ips_run_stop r' = ips_run_stop r \<and> idr_offset r' \<le> idr_offset r \<and> idr_offset r \<le> idr_offset r' + 1"
proof (cases "idr_offset r = flavor_reserved_eof_offset flavor")
  case False
  then show ?thesis using assms by (auto simp: protect_reserved_run_start_def ips_run_ok_def ips_raw_ok_def Let_def)
next
  case True
  let ?p = "idr_offset r - 1"
  have pos: "1 \<le> idr_offset r" using True flavor_reserved_pos by simp
  have fit: "idr_offset r + length (idr_bytes r) \<le> length t" using assms by (simp add: ips_raw_ok_def)
  have read: "seek_read_exact t ?p 1 = Inr (segment t ?p 1)"
    using pos fit by (simp add: seek_read_exact_def)
  have byte: "segment t ?p 1 = [segment t ?p 1 ! 0]"
    using pos fit assms by (intro nth_equalityI) (auto simp: ips_raw_ok_def)
  have "segment t ?p 1 ! 0 # idr_bytes r = segment t ?p 1 @ segment t (?p + 1) (length (idr_bytes r))"
    using assms pos by (subst byte) (simp add: ips_raw_ok_def)
  also have "\<dots> = segment t ?p (1 + length (idr_bytes r))"
    using pos fit by (intro segment_append) simp
  finally have "segment t ?p 1 ! 0 # idr_bytes r = segment t ?p (Suc (length (idr_bytes r)))" by simp
  moreover have "?p \<noteq> flavor_reserved_eof_offset flavor" using True pos by simp
  ultimately show ?thesis
    using True pos fit read flavor_reserved_pos [of flavor]
    by (auto simp: protect_reserved_run_start_def Let_def ips_run_ok_def ips_run_stop_def)
qed

definition coalesce_list :: "ips_diff_run list \<times> ips_diff_run option \<Rightarrow> ips_diff_run list" where
  "coalesce_list st = fst st @ (case snd st of None \<Rightarrow> [] | Some r \<Rightarrow> [r])"

definition ips_runs_cells :: "ips_diff_run list \<Rightarrow> nat set" where
  "ips_runs_cells rs = (\<Union>r \<in> set rs. ips_run_cells r)"

lemma ips_runs_cells_simps [simp]:
  "ips_runs_cells [] = {}" "ips_runs_cells (r # rs) = ips_run_cells r \<union> ips_runs_cells rs"
  "ips_runs_cells (rs @ ss) = ips_runs_cells rs \<union> ips_runs_cells ss"
  by (auto simp: ips_runs_cells_def)

lemma coalesce_step_ok:
  assumes raw: "ips_raw_ok t r" and u64: "length t \<le> u64_max"
    and ok: "\<forall>x \<in> set (coalesce_list st). ips_run_ok flavor t x"
    and before: "\<And>a. snd st = Some a \<Longrightarrow> ips_run_stop a < idr_offset r"
  shows "\<exists>st' b. coalesce_step flavor t r st = Inr st' \<and> (\<forall>x \<in> set (coalesce_list st'). ips_run_ok flavor t x) \<and>
    ips_runs_cells (coalesce_list st) \<union> ips_run_cells r \<subseteq> ips_runs_cells (coalesce_list st') \<and>
    snd st' = Some b \<and> ips_run_stop b = ips_run_stop r"
proof -
  obtain finished current where st: "st = (finished, current)" by (cases st)
  from protect_ok [OF raw, of flavor] obtain r' where r': "protect_reserved_run_start flavor t r = Inr r'"
    "ips_run_ok flavor t r'" "ips_run_stop r' = ips_run_stop r" "idr_offset r' \<le> idr_offset r"
    "idr_offset r \<le> idr_offset r' + 1"
    by blast
  have cells: "ips_run_cells r \<subseteq> ips_run_cells r'"
    using r'(3,4) by (auto simp: ips_run_cells_def ips_run_stop_def)
  show ?thesis
  proof (cases current)
    case None
    then show ?thesis
      using r' cells ok by (auto simp: st coalesce_step_def coalesce_list_def)
  next
    case (Some a)
    let ?stop = "ips_run_stop a" and ?gap = "idr_offset r' - ips_run_stop a"
    have a: "ips_run_ok flavor t a" using ok Some by (simp add: st coalesce_list_def)
    then have stop: "ips_run_end a = Inr ?stop"
      using u64 by (simp add: ips_run_end_def ips_run_stop_def ips_run_ok_def checked_add_opt_def)
    have le: "?stop \<le> idr_offset r'" using before [of a] Some r'(5) by (simp add: st)
    have fit: "idr_offset r' + length (idr_bytes r') \<le> length t" using r'(2) by (simp add: ips_run_ok_def)
    let ?merged = "length (idr_bytes a) + ?gap + length (idr_bytes r')"
    have "?merged \<le> u64_max" using le fit u64 by (simp add: ips_run_stop_def)
    then have len: "(case checked_add_opt (length (idr_bytes a)) ?gap of None \<Rightarrow> None
        | Some n \<Rightarrow> checked_add_opt n (length (idr_bytes r'))) = Some ?merged"
      by (simp add: checked_add_opt_def)
    show ?thesis
    proof (cases "?gap \<le> UNCHANGED_GAP_COALESCE_LIMIT \<and> ?merged \<le> MAX_IPS_RECORD_LEN")
      case False
      have "coalesce_step flavor t r st = Inr (finished @ [a], Some r')"
        using r'(1) Some stop le len False by (auto simp: st coalesce_step_def Let_def)
      then show ?thesis
        using r' cells ok Some by (auto simp: st coalesce_list_def)
    next
      case True
      let ?b = "a\<lparr>idr_bytes := idr_bytes a @ segment t ?stop ?gap @ idr_bytes r'\<rparr>"
      have gap: "(if 0 < ?gap then seek_read_exact t ?stop ?gap else Inr []) = Inr (segment t ?stop ?gap)"
        using le fit by (auto simp: seek_read_exact_def)
      have step: "coalesce_step flavor t r st = Inr (finished, Some ?b)"
        unfolding coalesce_step_def st Let_def prod.case r'(1) and_then_simps Some option.case stop
          if_not_P [OF le [folded not_less]] len ok_or_simps if_P [OF True] gap ..
      have blen: "length (idr_bytes ?b) = ?merged" using le fit by simp
      have "idr_bytes a = segment t (idr_offset a) (length (idr_bytes a))" using a by (simp add: ips_run_ok_def)
      moreover have "idr_bytes r' = segment t (idr_offset r') (length (idr_bytes r'))"
        using r'(2) by (simp add: ips_run_ok_def)
      moreover have "segment t ?stop ?gap @ segment t (idr_offset r') (length (idr_bytes r')) =
          segment t ?stop (?gap + length (idr_bytes r'))"
        using segment_append [of ?stop ?gap "length (idr_bytes r')" t] le fit by simp
      moreover have "segment t (idr_offset a) (length (idr_bytes a)) @ segment t ?stop (?gap + length (idr_bytes r')) =
          segment t (idr_offset a) ?merged"
        using segment_append [of "idr_offset a" "length (idr_bytes a)" "?gap + length (idr_bytes r')" t] le fit
        by (simp add: ips_run_stop_def add.assoc)
      ultimately have bytes: "idr_bytes ?b = segment t (idr_offset a) ?merged" by simp
      have "idr_bytes ?b \<noteq> []" using a by (simp add: ips_run_ok_def)
      moreover have "idr_offset ?b + length (idr_bytes ?b) \<le> length t"
        unfolding blen using le fit by (simp add: ips_run_stop_def)
      ultimately have b: "ips_run_ok flavor t ?b"
        unfolding ips_run_ok_def blen using a bytes by (simp add: ips_run_ok_def)
      have "ips_run_stop ?b = ips_run_stop r'" using le blen by (simp add: ips_run_stop_def)
      moreover have "ips_run_cells a \<union> ips_run_cells r' \<subseteq> ips_run_cells ?b"
        using le blen by (auto simp: ips_run_cells_def ips_run_stop_def)
      ultimately show ?thesis
        using step b r'(3) cells ok Some by (auto simp: st coalesce_list_def)
    qed
  qed
qed

lemma coalesce_fold_ok:
  assumes "\<forall>r \<in> set rs. ips_raw_ok t r" and "sorted_wrt (\<lambda>r s. ips_run_stop r < idr_offset s) rs"
    and u64: "length t \<le> u64_max" and "\<forall>x \<in> set (coalesce_list st). ips_run_ok flavor t x"
    and "\<And>a r. snd st = Some a \<Longrightarrow> r \<in> set rs \<Longrightarrow> ips_run_stop a < idr_offset r"
  shows "\<exists>st'. fold_result (coalesce_step flavor t) rs st = Inr st' \<and>
    (\<forall>x \<in> set (coalesce_list st'). ips_run_ok flavor t x) \<and>
    ips_runs_cells (coalesce_list st) \<union> ips_runs_cells rs \<subseteq> ips_runs_cells (coalesce_list st')"
  using assms(1,2,4,5)
proof (induction rs arbitrary: st)
  case (Cons r rs)
  from coalesce_step_ok [of t r st flavor] Cons.prems u64 obtain mid b where
    mid: "coalesce_step flavor t r st = Inr mid" "\<forall>x \<in> set (coalesce_list mid). ips_run_ok flavor t x"
      "ips_runs_cells (coalesce_list st) \<union> ips_run_cells r \<subseteq> ips_runs_cells (coalesce_list mid)"
      "snd mid = Some b" "ips_run_stop b = ips_run_stop r" by fastforce
  from Cons.IH [of mid] Cons.prems mid obtain st' where
    "fold_result (coalesce_step flavor t) rs mid = Inr st'"
    "\<forall>x \<in> set (coalesce_list st'). ips_run_ok flavor t x"
    "ips_runs_cells (coalesce_list mid) \<union> ips_runs_cells rs \<subseteq> ips_runs_cells (coalesce_list st')" by fastforce
  with mid show ?case by auto
qed simp

lemma coalesce_ips_diff_runs_ok:
  assumes "\<forall>r \<in> set rs. ips_raw_ok t r" and "sorted_wrt (\<lambda>r s. ips_run_stop r < idr_offset s) rs"
    and "length t \<le> u64_max"
  shows "\<exists>out. coalesce_ips_diff_runs flavor t rs = Inr out \<and> (\<forall>x \<in> set out. ips_run_ok flavor t x) \<and>
    ips_runs_cells rs \<subseteq> ips_runs_cells out"
proof -
  from coalesce_fold_ok [OF assms, of "([], None)" flavor] obtain st where
    "fold_result (coalesce_step flavor t) rs ([], None) = Inr st"
    "\<forall>x \<in> set (coalesce_list st). ips_run_ok flavor t x"
    "ips_runs_cells rs \<subseteq> ips_runs_cells (coalesce_list st)"
    by (auto simp: coalesce_list_def)
  then show ?thesis
    by (cases "snd st") (auto simp: coalesce_ips_diff_runs_def coalesce_list_def split: prod.splits option.splits)
qed

lemma ips_scan_raw:
  assumes "r \<in> set (diff_scan (ips_cell s t) 0 (length t))"
  shows "ips_raw_ok t (ips_of_run r)"
proof -
  have stop: "run_stop r \<le> length t" using diff_scan_spec(4) [OF le0 assms] .
  have "snd r = segment t (fst r) (length (snd r))"
  proof (rule nth_equalityI)
    show "length (snd r) = length (segment t (fst r) (length (snd r)))" using stop by (simp add: run_stop_def)
  next
    fix i
    assume i: "i < length (snd r)"
    from diff_scan_nth [OF le0 assms i] have "snd r ! i = byte_at t (fst r + i)" "fst r + i < length t"
      by (auto simp: ips_cell_def split: if_splits)
    then show "snd r ! i = segment t (fst r) (length (snd r)) ! i" using i by (simp add: nth_segment)
  qed
  then show ?thesis
    using stop diff_scan_nonempty [OF le0 assms] by (simp add: ips_raw_ok_def run_stop_def)
qed

lemma ips_scan_cells: "ips_changed s t (length t) \<subseteq> ips_runs_cells (map ips_of_run (diff_scan (ips_cell s t) 0 (length t)))"
proof
  fix i
  assume "i \<in> ips_changed s t (length t)"
  then have i: "i < length t" "ips_cell s t i \<noteq> None" by (auto simp: ips_changed_def)
  from diff_scan_cover [of 0 "length t" i "ips_cell s t", OF le0 le0 i] show
    "i \<in> ips_runs_cells (map ips_of_run (diff_scan (ips_cell s t) 0 (length t)))"
    by (auto simp: ips_runs_cells_def ips_run_cells_def run_stop_def)
qed

text \<open>The parallel path writes records of the target that cover every difference.\<close>

definition ips_trailer :: "ips_flavor \<Rightarrow> nat \<Rightarrow> nat \<Rightarrow> bytes" where
  "ips_trailer flavor n m =
     (case flavor of Ips \<Rightarrow> if m < n then be_bytes 3 m else [] | Ips32 \<Rightarrow> [] | Ebp \<Rightarrow> DEFAULT_EBP_METADATA_JSON)"

definition ips_patch_of :: "ips_flavor \<Rightarrow> bytes \<Rightarrow> bytes \<Rightarrow> bytes \<Rightarrow> ips_create_result \<Rightarrow> bool" where
  "ips_patch_of flavor s t p created \<longleftrightarrow>
     (\<exists>rs. (\<forall>r \<in> set rs. ips_copies flavor t r) \<and> (\<forall>i \<in> ips_changed s t (length t). ips_covers rs i) \<and>
        p = flavor_header flavor @ concat (map (ips_encode flavor) rs) @ flavor_footer flavor @
          ips_trailer flavor (length s) (length t) \<and>
        created = \<lparr>icr_record_count = length rs, icr_max_written_end = ips_end_of rs\<rparr>)"

lemma ips_write_trailer_ok:
  assumes "flavor = Ips \<Longrightarrow> length t < length s \<Longrightarrow> length t \<le> MAX_IPS_OFFSET"
  shows "ips_write_trailer flavor (length s) (length t) out = Inr (out @ ips_trailer flavor (length s) (length t))"
  using assms by (cases flavor) (auto simp: ips_write_trailer_def ips_trailer_def ips_write_u24_def)

lemma ips_emitted_patch:
  assumes "ips_emitted flavor t (flavor_header flavor, ips_create_result_default) (out, created) C"
    and "ips_changed s t (length t) \<subseteq> C"
  shows "ips_patch_of flavor s t (out @ flavor_footer flavor @ ips_trailer flavor (length s) (length t)) created"
  using assms unfolding ips_emitted_def ips_patch_of_def ips_create_result_default_def by fastforce

theorem create_ips_patch_parallel_ok:
  assumes fits: "ips_fits flavor t" and trailer: "flavor = Ips \<Longrightarrow> length t < length s \<Longrightarrow> length t \<le> MAX_IPS_OFFSET"
  shows "\<exists>p created. create_ips_patch_parallel flavor s t = Inr (p, created) \<and> ips_patch_of flavor s t p created"
proof -
  let ?runs = "map ips_of_run (diff_scan (ips_cell s t) 0 (length t))"
  have small: "length t \<le> 4294967296"
    using fits by (cases flavor) (auto simp: ips_fits_def MAX_IPS_OFFSET_def MAX_IPS32_OFFSET_def)
  have n: "length t + CREATE_SCAN_CHUNK_BYTES \<le> u64_max" "length t \<le> u64_max"
    using small by (simp_all add: u64_max_def CREATE_SCAN_CHUNK_BYTES_def)
  from chunk_count_total [OF n(1)] obtain k where k: "ips_create_chunk_count (length t) = Inr k"
    by (auto simp: ips_create_chunk_count_def CREATE_SCAN_CHUNK_BYTES_def)
  from ips_parallel_runs [OF n(1) k] obtain chunks where
    chunks: "scan_create_chunks k (collect_ips_diff_runs_for_chunk s t) = Inr chunks"
      "merge_adjacent_runs idr_offset ips_run_end ips_run_append chunks = Inr ?runs" by blast
  have raw: "\<forall>r \<in> set ?runs. ips_raw_ok t r" using ips_scan_raw by auto
  have "sorted_wrt (\<lambda>r s. run_stop r < fst s) (diff_scan (ips_cell s t) 0 (length t))"
    using diff_scan_spec(1) [OF le0] by (auto simp: separated_def)
  then have sorted: "sorted_wrt (\<lambda>r s. ips_run_stop r < idr_offset s) ?runs"
    by (simp add: sorted_wrt_map ips_run_stop_def run_stop_def)
  from coalesce_ips_diff_runs_ok [OF raw sorted n(2), of flavor] obtain rs where
    rs: "coalesce_ips_diff_runs flavor t ?runs = Inr rs" "\<forall>x \<in> set rs. ips_run_ok flavor t x"
      "ips_runs_cells ?runs \<subseteq> ips_runs_cells rs" by blast
  from write_diff_runs_ok [OF fits rs(2), of "(flavor_header flavor, ips_create_result_default)"] obtain out created where
    out: "fold_result (write_diff_run_records flavor) rs (flavor_header flavor, ips_create_result_default) = Inr (out, created)"
      "ips_emitted flavor t (flavor_header flavor, ips_create_result_default) (out, created) (ips_runs_cells rs)"
    by (auto simp: ips_runs_cells_def)
  have "ips_changed s t (length t) \<subseteq> ips_runs_cells rs" using ips_scan_cells rs(3) by blast
  from ips_emitted_patch [OF out(2) this] show ?thesis
    using k chunks rs(1) out(1) ips_write_trailer_ok [of flavor t s, OF trailer]
    by (simp add: create_ips_patch_parallel_def write_ips_runs_to_output_def)
qed

end
