(* ===== verification/Ips_Stream_Correct.thy ===== *)
theory Ips_Stream_Correct
  imports Ips_Create_Correct
begin

text \<open>
  The streaming scan of IPS create keeps, at every offset of the target, what it has emitted
  and its pending diff together covering every difference seen so far; so it writes a patch
  of the same kind as the parallel scan.
\<close>

section \<open>The scan state at an offset\<close>

definition pending_ok :: "ips_flavor \<Rightarrow> bytes \<Rightarrow> nat \<Rightarrow> pending_diff \<Rightarrow> bool" where
  "pending_ok flavor t off p \<longleftrightarrow>
     pn_start_offset p + length (pn_bytes p) = off \<and> pn_trailing_unchanged p < length (pn_bytes p) \<and>
     pn_start_offset p \<noteq> flavor_reserved_eof_offset flavor \<and>
     pn_bytes p = segment t (pn_start_offset p) (length (pn_bytes p))"

definition pending_cells :: "pending_diff \<Rightarrow> nat set" where
  "pending_cells p =
     {pn_start_offset p..<pn_start_offset p + (length (pn_bytes p) - pn_trailing_unchanged p)}"

abbreviation ips_sink_start :: "ips_flavor \<Rightarrow> ips_sink" where
  "ips_sink_start flavor \<equiv> (flavor_header flavor, ips_create_result_default)"

definition ips_scan_inv :: "ips_flavor \<Rightarrow> bytes \<Rightarrow> bytes \<Rightarrow> nat \<Rightarrow> ips_scan \<Rightarrow> bool" where
  "ips_scan_inv flavor s t off scan \<longleftrightarrow>
     (\<exists>C. ips_emitted flavor t (ips_sink_start flavor) (snd scan) C \<and>
       (case fst scan of
          None \<Rightarrow> ips_changed s t off \<subseteq> C
        | Some p \<Rightarrow> pending_ok flavor t off p \<and> ips_changed s t off \<subseteq> C \<union> pending_cells p))"

lemma scan_inv_None:
  "ips_scan_inv flavor s t off (None, sink) \<longleftrightarrow>
   (\<exists>C. ips_emitted flavor t (ips_sink_start flavor) sink C \<and> ips_changed s t off \<subseteq> C)"
  by (simp add: ips_scan_inv_def)

lemma scan_inv_Some:
  "ips_scan_inv flavor s t off (Some p, sink) \<longleftrightarrow> pending_ok flavor t off p \<and>
   (\<exists>C. ips_emitted flavor t (ips_sink_start flavor) sink C \<and> ips_changed s t off \<subseteq> C \<union> pending_cells p)"
  by (auto simp: ips_scan_inv_def)

lemma scan_inv_start: "ips_scan_inv flavor s t 0 (None, ips_sink_start flavor)"
  using ips_emitted_refl [of flavor t] by (auto simp: scan_inv_None ips_changed_def)

lemma flush_ok:
  assumes fits: "ips_fits flavor t" and off: "off \<le> length t" and inv: "ips_scan_inv flavor s t off scan"
  shows "\<exists>sink. flush_pending_diff flavor scan = Inr (None, sink) \<and> ips_scan_inv flavor s t off (None, sink)"
proof -
  obtain pending sink where Pair: "scan = (pending, sink)" by (cases scan)
  show ?thesis
  proof (cases pending)
    case None
    then show ?thesis using inv Pair by (simp add: flush_pending_diff_def)
  next
    case (Some p)
    let ?q = "trim_pending_trailing_unchanged p" and ?n = "length (pn_bytes p) - pn_trailing_unchanged p"
    let ?r = "\<lparr>idr_offset = pn_start_offset ?q, idr_bytes = pn_bytes ?q\<rparr>"
    from inv obtain C where p: "pending_ok flavor t off p"
      and C: "ips_emitted flavor t (ips_sink_start flavor) sink C" "ips_changed s t off \<subseteq> C \<union> pending_cells p"
      by (auto simp: Pair Some scan_inv_Some)
    have q: "pn_start_offset ?q = pn_start_offset p" "pn_bytes ?q = take ?n (pn_bytes p)"
      by (simp_all add: trim_pending_trailing_unchanged_def)
    have "pn_bytes ?q = segment t (pn_start_offset p) ?n"
      using p unfolding q pending_ok_def segment_def by (metis diff_le_self min_absorb1 take_take)
    moreover have "length (pn_bytes ?q) = ?n" unfolding q by simp
    moreover have "0 < ?n" using p by (simp add: pending_ok_def)
    ultimately have len: "length (pn_bytes ?q) = ?n" and seg: "pn_bytes ?q = segment t (pn_start_offset p) ?n" and "0 < ?n"
      by blast+
    from this(3) have ne: "pn_bytes ?q \<noteq> []" unfolding len [symmetric] by simp
    have r: "ips_run_ok flavor t ?r"
      unfolding ips_run_ok_def ips_diff_run.select_convs len q(1)
      using ne seg p off by (simp add: pending_ok_def)
    have cells: "ips_run_cells ?r = pending_cells p"
      unfolding ips_run_cells_def ips_diff_run.select_convs len q(1) pending_cells_def ..
    from write_diff_run_ok [OF fits r, of sink] obtain sink' where
      w: "write_diff_run_records flavor ?r sink = Inr sink'" "ips_emitted flavor t sink sink' (ips_run_cells ?r)"
      by blast
    have "ips_emitted flavor t (ips_sink_start flavor) sink' (ips_changed s t off)"
      by (rule ips_emitted_trans [OF C(1) w(2)]) (use C(2) cells in auto)
    then have "ips_scan_inv flavor s t off (None, sink')" by (auto simp: scan_inv_None)
    then show ?thesis using w(1) ne by (simp add: Pair Some flush_pending_diff_def write_pending_diff_def)
  qed
qed

lemma segment_snoc: "start + n < length t \<Longrightarrow> segment t start n @ [t ! (start + n)] = segment t start (Suc n)"
  using segment_append [of start n 1 t]
  by (simp add: segment_def take_Suc_conv_app_nth hd_drop_conv_nth)

lemma pending_snoc:
  assumes "pn_start_offset p + length (pn_bytes p) = off" and "off < length t"
    and "pn_bytes p = segment t (pn_start_offset p) (length (pn_bytes p))"
    and "pn_start_offset p \<noteq> flavor_reserved_eof_offset flavor" and "u \<le> length (pn_bytes p)"
  shows "pending_ok flavor t (Suc off) (p\<lparr>pn_bytes := pn_bytes p @ [t ! off], pn_trailing_unchanged := u\<rparr>)"
proof -
  have "pn_bytes p @ [t ! off] = segment t (pn_start_offset p) (length (pn_bytes p)) @ [t ! off]"
    using assms(3) by simp
  also have "\<dots> = segment t (pn_start_offset p) (length (pn_bytes p @ [t ! off]))"
    using segment_snoc [of "pn_start_offset p" "length (pn_bytes p)" t] assms(1,2) by simp
  finally show ?thesis
    unfolding pending_ok_def using assms by simp
qed

lemma push_unchanged_ok:
  assumes fits: "ips_fits flavor t" and off: "off < length t" and inv: "ips_scan_inv flavor s t off scan"
    and same: "ips_cell s t off = None"
  shows "\<exists>scan'. push_unchanged_byte flavor (t ! off) scan = Inr scan' \<and> ips_scan_inv flavor s t (Suc off) scan'"
proof -
  have ch: "ips_changed s t (Suc off) = ips_changed s t off" using same by (simp add: ips_changed_Suc)
  obtain pending sink where scan: "scan = (pending, sink)" by (cases scan)
  show ?thesis
  proof (cases pending)
    case None
    then show ?thesis using inv by (simp add: scan push_unchanged_byte_def scan_inv_None ch)
  next
    case (Some p)
    show ?thesis
    proof (cases "length (pn_bytes p) = MAX_IPS_RECORD_LEN")
      case True
      from flush_ok [OF fits less_imp_le [OF off] inv] show ?thesis
        by (auto simp: scan Some push_unchanged_byte_def True scan_inv_None ch)
    next
      case False
      let ?p = "p\<lparr>pn_bytes := pn_bytes p @ [t ! off], pn_trailing_unchanged := pn_trailing_unchanged p + 1\<rparr>"
      from inv obtain C where p: "pending_ok flavor t off p"
        and C: "ips_emitted flavor t (ips_sink_start flavor) sink C" "ips_changed s t off \<subseteq> C \<union> pending_cells p"
        by (auto simp: scan Some scan_inv_Some)
      have "pending_ok flavor t (Suc off) ?p"
        by (rule pending_snoc) (use p off in \<open>simp_all add: pending_ok_def\<close>)
      moreover have "pending_cells ?p = pending_cells p" by (simp add: pending_cells_def)
      ultimately have inv': "ips_scan_inv flavor s t (Suc off) (Some ?p, sink)"
        using C by (auto simp: scan_inv_Some ch)
      from flush_ok [OF fits _ this] off inv' show ?thesis
        by (cases sink) (auto simp: scan Some push_unchanged_byte_def False Let_def)
    qed
  qed
qed

lemma push_changed_ok:
  assumes fits: "ips_fits flavor t" and off: "off < length t" and inv: "ips_scan_inv flavor s t off scan"
    and change: "ips_cell s t off \<noteq> None" and prev: "prev = (if off = 0 then None else Some (t ! (off - 1)))"
  shows "\<exists>scan'. push_changed_byte flavor off (t ! off) prev scan = Inr scan' \<and> ips_scan_inv flavor s t (Suc off) scan'"
proof -
  have ch: "ips_changed s t (Suc off) = insert off (ips_changed s t off)" using change by (simp add: ips_changed_Suc del: not_None_eq)
  have grow: "ips_scan_inv flavor s t (Suc off) (Some (p\<lparr>pn_bytes := pn_bytes p @ [t ! off], pn_trailing_unchanged := 0\<rparr>), sink)"
    if "pn_start_offset p + length (pn_bytes p) = off" "pn_start_offset p \<noteq> flavor_reserved_eof_offset flavor"
      "pn_bytes p = segment t (pn_start_offset p) (length (pn_bytes p))"
      "ips_emitted flavor t (ips_sink_start flavor) sink C" "ips_changed s t off \<subseteq> C \<union> {pn_start_offset p..<off}"
    for p sink C
  proof -
    let ?p = "p\<lparr>pn_bytes := pn_bytes p @ [t ! off], pn_trailing_unchanged := 0\<rparr>"
    have "pending_ok flavor t (Suc off) ?p" by (rule pending_snoc [OF that(1) off that(3,2)]) simp
    moreover have "pending_cells ?p = insert off {pn_start_offset p..<off}"
      using that(1) by (auto simp: pending_cells_def)
    ultimately show ?thesis using that(4,5) ch by (auto simp: scan_inv_Some)
  qed
  have fresh: "\<exists>scan'. and_then (start_pending_diff flavor off prev) (\<lambda>diff.
        Inr (Some (diff\<lparr>pn_bytes := pn_bytes diff @ [t ! off], pn_trailing_unchanged := 0\<rparr>), sink)) = Inr scan' \<and>
      ips_scan_inv flavor s t (Suc off) scan'" if "ips_scan_inv flavor s t off (None, sink)" for sink
  proof -
    from that obtain C where C: "ips_emitted flavor t (ips_sink_start flavor) sink C" "ips_changed s t off \<subseteq> C"
      by (auto simp: scan_inv_None)
    show ?thesis
    proof (cases "off = flavor_reserved_eof_offset flavor")
      case False
      then show ?thesis
        using grow [of "\<lparr>pn_start_offset = off, pn_bytes = [], pn_trailing_unchanged = 0\<rparr>" sink C] C
        by (auto simp: start_pending_diff_def segment_def)
    next
      case True
      then have pos: "1 \<le> off" using flavor_reserved_pos [of flavor] by simp
      let ?d = "\<lparr>pn_start_offset = off - 1, pn_bytes = [t ! (off - 1)], pn_trailing_unchanged = 0\<rparr>"
      have seg: "segment t (off - Suc 0) (Suc 0) = [t ! (off - Suc 0)]"
        using pos off segment_snoc [of "off - 1" 0 t] by (simp add: segment_def)
      have "ips_scan_inv flavor s t (Suc off)
          (Some (?d\<lparr>pn_bytes := pn_bytes ?d @ [t ! off], pn_trailing_unchanged := 0\<rparr>), sink)"
        by (rule grow [OF _ _ _ C(1)]) (use C(2) True pos seg in auto)
      moreover have "start_pending_diff flavor off prev = Inr ?d"
        using True pos prev by (simp add: start_pending_diff_def)
      ultimately show ?thesis by simp
    qed
  qed
  obtain pending sink where scan: "scan = (pending, sink)" by (cases scan)
  show ?thesis
  proof (cases pending)
    case None
    then show ?thesis using fresh inv by (simp add: scan push_changed_byte_def)
  next
    case (Some p)
    show ?thesis
    proof (cases "length (pn_bytes p) = MAX_IPS_RECORD_LEN")
      case True
      from flush_ok [OF fits less_imp_le [OF off] inv] obtain sink' where
        f: "flush_pending_diff flavor scan = Inr (None, sink')" "ips_scan_inv flavor s t off (None, sink')" by blast
      from fresh [OF f(2)] show ?thesis
        using f(1) by (simp add: scan Some push_changed_byte_def True)
    next
      case False
      from inv obtain C where p: "pending_ok flavor t off p"
        and C: "ips_emitted flavor t (ips_sink_start flavor) sink C" "ips_changed s t off \<subseteq> C \<union> pending_cells p"
        by (auto simp: scan Some scan_inv_Some)
      have "pending_cells p \<subseteq> {pn_start_offset p..<off}" using p by (auto simp: pending_cells_def pending_ok_def)
      with grow [of p sink C] C p show ?thesis
        by (auto simp: scan Some push_changed_byte_def False pending_ok_def)
    qed
  qed
qed

section \<open>The buffered loop\<close>

definition ips_previous :: "bytes \<Rightarrow> nat \<Rightarrow> u8 option" where
  "ips_previous t off = (if off = 0 then None else Some (t ! (off - 1)))"

lemma ips_compare_byte_ok:
  assumes "ips_fits flavor t" and "off < length t" and "ips_scan_inv flavor s t off scan"
    and "off < length s \<Longrightarrow> ob = s ! off"
  shows "\<exists>scan'. ips_compare_byte flavor (length s) ob (t ! off) off (scan, ips_previous t off) =
      Inr (scan', ips_previous t (Suc off)) \<and> ips_scan_inv flavor s t (Suc off) scan'"
proof (cases "ips_cell s t off = None")
  case True
  then have "off < length s \<and> ob = t ! off" using assms by (auto simp: ips_cell_def split: if_splits)
  with push_unchanged_ok [OF assms(1-3) True] show ?thesis
    by (auto simp: ips_compare_byte_def ips_previous_def)
next
  case False
  then have "\<not> (off < length s \<and> ob = t ! off)" using assms by (auto simp: ips_cell_def split: if_splits)
  with push_changed_ok [OF assms(1-3) False, of "ips_previous t off"] show ?thesis
    by (auto simp: ips_compare_byte_def ips_previous_def)
qed

definition stream_inv :: "ips_flavor \<Rightarrow> bytes \<Rightarrow> bytes \<Rightarrow> nat \<Rightarrow> ips_stream \<Rightarrow> bool" where
  "stream_inv flavor s t off st \<longleftrightarrow> st_original st = drop off s \<and> st_modified st = drop off t \<and>
     st_previous st = ips_previous t off \<and> ips_scan_inv flavor s t off (st_scan st)"

lemma ips_compare_buffer_ok:
  assumes fits: "ips_fits flavor t" and inv: "stream_inv flavor s t off st" and n: "off + n \<le> length t"
  shows "\<exists>st'. ips_compare_buffer flavor (length s) off n st = Inr st' \<and> stream_inv flavor s t (off + n) st'"
proof -
  let ?k = "if off \<ge> length s then 0 else min (length s - off) n"
  let ?ob = "take ?k (drop off s) @ replicate (n - ?k) 0" and ?mb = "take n (drop off t)"
  have st: "st_original st = drop off s" "st_modified st = drop off t" "st_previous st = ips_previous t off"
    "ips_scan_inv flavor s t off (st_scan st)" using inv by (simp_all add: stream_inv_def)
  have m: "reader_read_exact (st_modified st) n = Inr (?mb, drop (off + n) t)"
    using n by (simp add: st(2) reader_read_exact_def add.commute)
  have o: "(if 0 < ?k then reader_read_exact (st_original st) ?k else Inr ([], st_original st)) =
      Inr (take ?k (drop off s), drop (off + n) s)"
    using n by (auto simp: st(1) reader_read_exact_def add.commute min_def)
  have "\<exists>scan'. fold_result (\<lambda>index. ips_compare_byte flavor (length s) (?ob ! index) (?mb ! index) (off + index))
      [0..<k] (st_scan st, st_previous st) = Inr (scan', ips_previous t (off + k)) \<and> ips_scan_inv flavor s t (off + k) scan'"
    if "k \<le> n" for k
    using that
  proof (induction k)
    case 0
    then show ?case using st by simp
  next
    case (Suc k)
    then obtain scan' where IH: "fold_result (\<lambda>index. ips_compare_byte flavor (length s) (?ob ! index) (?mb ! index) (off + index))
      [0..<k] (st_scan st, st_previous st) = Inr (scan', ips_previous t (off + k))" "ips_scan_inv flavor s t (off + k) scan'"
      by auto
    have mb: "?mb ! k = t ! (off + k)" using Suc.prems n by simp
    have ob: "?ob ! k = s ! (off + k)" if "off + k < length s"
    proof -
      have "k < ?k" "off \<le> length s" using that Suc.prems by auto
      then show ?thesis by (simp add: nth_append del: min_less_iff_conj)
    qed
    have lt: "off + k < length t" using Suc.prems n by simp
    from ips_compare_byte_ok [OF fits lt IH(2) ob] obtain scan'' where
      "ips_compare_byte flavor (length s) (?ob ! k) (t ! (off + k)) (off + k) (scan', ips_previous t (off + k)) =
        Inr (scan'', ips_previous t (Suc (off + k)))" "ips_scan_inv flavor s t (Suc (off + k)) scan''" by blast
    with IH(1) mb show ?case
      by (simp add: fold_result_append del: nth_take)
  qed
  from this [OF le_refl] obtain scan' where
    f: "fold_result (\<lambda>index. ips_compare_byte flavor (length s) (?ob ! index) (?mb ! index) (off + index))
      [0..<n] (st_scan st, st_previous st) = Inr (scan', ips_previous t (off + n))" "ips_scan_inv flavor s t (off + n) scan'"
    by blast
  show ?thesis
    unfolding ips_compare_buffer_def m and_then_simps prod.case Let_def o f(1)
    using f(2) by (simp add: stream_inv_def)
qed

text \<open>The streaming path writes the same kind of patch as the parallel path.\<close>

theorem create_ips_patch_streaming_ok:
  assumes fits: "ips_fits flavor t" and trailer: "flavor = Ips \<Longrightarrow> length t < length s \<Longrightarrow> length t \<le> MAX_IPS_OFFSET"
  shows "\<exists>p created. create_ips_patch_streaming flavor s t = Inr (p, created) \<and> ips_patch_of flavor s t p created"
proof -
  let ?start = "\<lparr>st_original = s, st_modified = t, st_scan = (None, ips_sink_start flavor), st_previous = None\<rparr>"
  have start: "stream_inv flavor s t 0 ?start" by (simp add: stream_inv_def ips_previous_def scan_inv_start)
  have "\<exists>st. chunk_loop COMPARE_BUFFER_SIZE (ips_compare_buffer flavor (length s)) 0 (length t) ?start = Inr st \<and>
      stream_inv flavor s t (length t) st"
    by (rule chunk_loop_invariant [where I = "stream_inv flavor s t", OF _ start]) (auto simp: COMPARE_BUFFER_SIZE_def ips_compare_buffer_ok [OF fits])
  then obtain st where st: "chunk_loop COMPARE_BUFFER_SIZE (ips_compare_buffer flavor (length s)) 0 (length t) ?start = Inr st"
    "ips_scan_inv flavor s t (length t) (st_scan st)" by (auto simp: stream_inv_def)
  from flush_ok [OF fits order_refl st(2)] obtain out created where
    f: "flush_pending_diff flavor (st_scan st) = Inr (None, out, created)"
      "ips_scan_inv flavor s t (length t) (None, out, created)" by auto
  from f(2) obtain C where "ips_emitted flavor t (ips_sink_start flavor) (out, created) C"
    "ips_changed s t (length t) \<subseteq> C" by (auto simp: scan_inv_None)
  from ips_emitted_patch [OF this] show ?thesis
    using st(1) f(1) ips_write_trailer_ok [of flavor t s, OF trailer]
    by (simp add: create_ips_patch_streaming_def)
qed

end
