(* ===== verification/Ips_Correct.thy ===== *)
theory Ips_Correct
  imports Ips_Stream_Correct
begin

text \<open>
  The IPS family end to end: the parser reads back what create writes, apply rebuilds the
  target, and the relations between create, validate, the probe and apply.
\<close>

section \<open>Reading records back\<close>

definition ips_wf :: "ips_parser \<Rightarrow> bool" where
  "ips_wf p \<longleftrightarrow> ip_offset p + length (ip_reader p) = ip_file_len p \<and> ip_file_len p \<le> u64_max"

interpretation ips_reader: exact_reader ips_read_exact ip_reader ips_wf
proof
  fix p n
  assume "ips_wf p" and "n \<le> length (ip_reader p)"
  then show "\<exists>q. ips_read_exact p n = Inr (take n (ip_reader p), q) \<and> ips_wf q \<and>
      ip_reader q = drop n (ip_reader p)"
    by (auto simp: ips_read_exact_def ips_remaining_def ips_wf_def reader_read_exact_def checked_add_opt_def)
next
  fix p n
  assume "ips_wf p" and "length (ip_reader p) < n"
  then show "\<not> is_ok (ips_read_exact p n)"
    by (auto simp: ips_read_exact_def ips_remaining_def ips_wf_def invalid_def)
qed

lemma flavor_footer_offset: "from_be (flavor_footer flavor) = flavor_reserved_eof_offset flavor"
  by (cases flavor) (simp_all add: IPS_EOF_def IPS32_EOF_def from_be_def IPS_RESERVED_EOF_OFFSET_def
      IPS32_RESERVED_EOF_OFFSET_def)

lemma length_flavor_footer: "length (flavor_footer flavor) = flavor_offset_len flavor"
  by (cases flavor) (simp_all add: IPS_EOF_def IPS32_EOF_def)

lemma flavor_max_offset_lt: "off \<le> flavor_max_offset flavor \<Longrightarrow> off < 256 ^ flavor_offset_len flavor"
  by (cases flavor) (simp_all add: MAX_IPS_OFFSET_def MAX_IPS32_OFFSET_def)

lemma ips_marker:
  assumes "off \<le> flavor_max_offset flavor" and "off \<noteq> flavor_reserved_eof_offset flavor"
  shows "be_bytes (flavor_offset_len flavor) off \<noteq> flavor_footer flavor"
    and "from_be (be_bytes (flavor_offset_len flavor) off) = off"
  using from_be_small [OF flavor_max_offset_lt [OF assms(1)]] flavor_footer_offset [of flavor] assms(2) by auto

lemma ips_end_of_Cons: "ips_end_of (r # rs) = max (ips_stop r) (ips_end_of rs)"
  using ips_end_of_append [of "[r]" rs] by (simp add: ips_end_of_def)

lemma ips_parse_record:
  assumes wf: "ips_wf p" and r: "ips_copies flavor t r" and unread: "ip_reader p = ips_encode flavor r @ rest"
  shows "\<exists>q. ips_wf q \<and> ip_reader q = rest \<and>
    ips_parse_loop json flavor v p records w mx = ips_parse_loop json flavor v q (records @ [r]) w (max mx (ips_stop r))"
proof -
  have good: "0 < ir_len r" "ir_len r < 256 ^ 2" "ir_offset r + ir_len r \<le> u64_max"
    and off: "ir_offset r \<le> flavor_max_offset flavor" "ir_offset r \<noteq> flavor_reserved_eof_offset flavor"
    using r by (simp_all add: ips_copies_def ips_good_def MAX_IPS_RECORD_LEN_def)
  note marker = ips_marker [OF off]
  have stop: "ips_checked_add (ir_offset r) (ir_len r) l = Inr (ips_stop r)" for l
    using good(3) by (simp add: ips_stop_def)
  let ?k = "flavor_offset_len flavor"
  show ?thesis
  proof (cases "ir_data r")
    case (Literal data)
    then have data: "length data = ir_len r" using r by (simp add: ips_copies_def ips_good_def)
    have "ip_reader p = be_bytes ?k (ir_offset r) @ be_bytes 2 (ir_len r) @ data @ rest"
      using unread by (simp add: ips_encode_def Literal data)
    from ips_reader.read_exact_prefix [OF wf this length_be_bytes] obtain p1 where
      p1: "ips_read_exact p ?k = Inr (be_bytes ?k (ir_offset r), p1)" "ips_wf p1"
        "ip_reader p1 = be_bytes 2 (ir_len r) @ data @ rest" by blast
    from ips_reader.read_uint_be [OF p1(2,3) good(2)] obtain p2 where
      p2: "ips_read_u16 p1 = Inr (ir_len r, p2)" "ips_wf p2" "ip_reader p2 = data @ rest"
      unfolding ips_read_u16_def by blast
    from ips_reader.read_exact_prefix [OF p2(2,3) data] obtain p3 where
      p3: "ips_read_exact p2 (ir_len r) = Inr (data, p3)" "ips_wf p3" "ip_reader p3 = rest" by blast
    have "\<lparr>ir_offset = ir_offset r, ir_len = ir_len r, ir_data = Literal data\<rparr> = r" using Literal by (cases r) simp
    then have "ips_parse_loop json flavor v p records w mx =
        ips_parse_loop json flavor v p3 (records @ [r]) w (max mx (ips_stop r))"
      using good(1) by (subst ips_parse_loop.simps) (simp add: length_flavor_footer p1(1) marker p2(1) p3(1) stop)
    then show ?thesis using p3 by blast
  next
    case (Rle b)
    have "ip_reader p = be_bytes ?k (ir_offset r) @ be_bytes 2 0 @ be_bytes 2 (ir_len r) @ [b] @ rest"
      using unread by (simp add: ips_encode_def Rle)
    from ips_reader.read_exact_prefix [OF wf this length_be_bytes] obtain p1 where
      p1: "ips_read_exact p ?k = Inr (be_bytes ?k (ir_offset r), p1)" "ips_wf p1"
        "ip_reader p1 = be_bytes 2 0 @ be_bytes 2 (ir_len r) @ [b] @ rest" by blast
    have zero: "(0::nat) < 256 ^ 2" by simp
    from ips_reader.read_uint_be [OF p1(2,3) zero] obtain p2 where
      p2: "ips_read_u16 p1 = Inr (0, p2)" "ips_wf p2" "ip_reader p2 = be_bytes 2 (ir_len r) @ [b] @ rest"
      unfolding ips_read_u16_def by blast
    from ips_reader.read_uint_be [OF p2(2,3) good(2)] obtain p3 where
      p3: "ips_read_u16 p2 = Inr (ir_len r, p3)" "ips_wf p3" "ip_reader p3 = [b] @ rest"
      unfolding ips_read_u16_def by blast
    from ips_reader.read_exact_prefix [OF p3(2,3), of 1] obtain p4 where
      p4: "ips_read_exact p3 1 = Inr ([b], p4)" "ips_wf p4" "ip_reader p4 = rest" by auto
    have "\<lparr>ir_offset = ir_offset r, ir_len = ir_len r, ir_data = Rle b\<rparr> = r" using Rle by (cases r) simp
    then have "ips_parse_loop json flavor v p records w mx =
        ips_parse_loop json flavor v p4 (records @ [r]) w (max mx (ips_stop r))"
      using good(1) p4(1)
      by (subst ips_parse_loop.simps) (simp add: length_flavor_footer p1(1) marker p2(1) p3(1) stop)
    then show ?thesis using p4 by blast
  qed
qed

lemma ips_parse_records:
  assumes "ips_wf p" and "\<forall>r \<in> set rs. ips_copies flavor t r"
    and "ip_reader p = concat (map (ips_encode flavor) rs) @ rest"
  shows "\<exists>q. ips_wf q \<and> ip_reader q = rest \<and>
    ips_parse_loop json flavor v p records w mx =
      ips_parse_loop json flavor v q (records @ rs) w (max mx (ips_end_of rs))"
  using assms
proof (induction rs arbitrary: p records mx)
  case Nil
  then show ?case by auto
next
  case (Cons r rs)
  then have "ips_copies flavor t r" and "ip_reader p = ips_encode flavor r @ concat (map (ips_encode flavor) rs) @ rest"
    by simp_all
  from ips_parse_record [OF Cons.prems(1) this, of json v records w mx] obtain q where
    q: "ips_wf q" "ip_reader q = concat (map (ips_encode flavor) rs) @ rest"
      "ips_parse_loop json flavor v p records w mx = ips_parse_loop json flavor v q (records @ [r]) w (max mx (ips_stop r))"
    by blast
  from Cons.IH [OF q(1) _ q(2), of "records @ [r]" "max mx (ips_stop r)"] Cons.prems(2) obtain q' where
    "ips_wf q'" "ip_reader q' = rest"
    "ips_parse_loop json flavor v q (records @ [r]) w (max mx (ips_stop r)) =
      ips_parse_loop json flavor v q' ((records @ [r]) @ rs) w (max (max mx (ips_stop r)) (ips_end_of rs))"
    by auto
  then show ?case using q(3) by (auto simp: ips_end_of_Cons max.assoc)
qed

text \<open>The metadata create writes is one JSON object whose values are strings.\<close>

definition json_reads_default :: "(bytes \<Rightarrow> json_value option) \<Rightarrow> bool" where
  "json_reads_default json \<longleftrightarrow>
     (case json DEFAULT_EBP_METADATA_JSON of
        Some (JsonObject members) \<Rightarrow> (\<forall>(key, value) \<in> set members. is_json_string value)
      | _ \<Rightarrow> False)"

lemma utf8_valid_ascii: "(\<forall>b \<in> set bs. b \<le> 0x7F) \<Longrightarrow> utf8_valid bs"
  by (induction bs) simp_all

lemma DEFAULT_EBP_METADATA_JSON_utf8: "utf8_valid DEFAULT_EBP_METADATA_JSON"
  by (rule utf8_valid_ascii) (simp add: DEFAULT_EBP_METADATA_JSON_def)

lemma parse_ebp_default:
  assumes "json_reads_default json"
  shows "\<exists>m. parse_ebp_metadata json DEFAULT_EBP_METADATA_JSON = Inr m"
proof -
  from assms obtain members where m: "json DEFAULT_EBP_METADATA_JSON = Some (JsonObject members)"
    "\<forall>(key, value) \<in> set members. is_json_string value"
    by (auto simp: json_reads_default_def split: option.splits json_value.splits)
  have "fold_result (\<lambda>(key, value) _. if is_json_string value then Inr ()
      else invalid_fmt ''EBP metadata value for `{}` must be a string'' [Str key]) ms () = Inr ()"
    if "\<forall>(key, value) \<in> set ms. is_json_string value" for ms :: json_map
    using that by (induction ms) auto
  from this [OF m(2)] m(1) show ?thesis
    by (simp add: parse_ebp_metadata_def DEFAULT_EBP_METADATA_JSON_utf8)
qed

definition ips_truncation :: "ips_flavor \<Rightarrow> nat \<Rightarrow> nat \<Rightarrow> nat option" where
  "ips_truncation flavor n m = (if flavor = Ips \<and> m < n then Some m else None)"

lemma ips_read_trailer_ok:
  assumes wf: "ips_wf q" and unread: "ip_reader q = ips_trailer flavor n m"
    and fits: "flavor = Ips \<Longrightarrow> m < n \<Longrightarrow> m \<le> MAX_IPS_OFFSET" and json: "flavor = Ebp \<Longrightarrow> json_reads_default json"
  shows "\<exists>md. ips_read_trailer json flavor v q w = Inr (ips_truncation flavor n m, md, w)"
proof -
  have rem: "ips_remaining q = Inr (length (ip_reader q))"
    using wf by (auto simp: ips_remaining_def ips_wf_def)
  show ?thesis
  proof (cases flavor)
    case Ips
    show ?thesis
    proof (cases "m < n")
      case True
      then have u: "ip_reader q = be_bytes 3 m @ []" using unread Ips by (simp add: ips_trailer_def)
      have "m < 256 ^ 3" using fits Ips True by (simp add: MAX_IPS_OFFSET_def)
      from ips_reader.read_uint_be [OF wf u this] show ?thesis
        using Ips True u by (auto simp: ips_read_trailer_def rem ips_truncation_def ips_read_u24_def)
    next
      case False
      then show ?thesis using unread Ips by (simp add: ips_read_trailer_def rem ips_trailer_def ips_truncation_def)
    qed
  next
    case Ips32
    then show ?thesis using unread by (simp add: ips_read_trailer_def rem ips_trailer_def ips_truncation_def)
  next
    case Ebp
    then have u: "ip_reader q = DEFAULT_EBP_METADATA_JSON @ []" using unread by (simp add: ips_trailer_def)
    from ips_reader.read_exact_prefix [OF wf u refl] parse_ebp_default [OF json [OF Ebp]] show ?thesis
      using Ebp u by (auto simp: ips_read_trailer_def rem ips_truncation_def DEFAULT_EBP_METADATA_JSON_def)
  qed
qed

lemma flavor_header_length: "length (flavor_header flavor) = 5"
  by (cases flavor) (simp_all add: IPS_MAGIC_def IPS32_MAGIC_def)

text \<open>A created patch parses to records that copy the target and cover every difference.\<close>

theorem parse_created:
  assumes patch: "ips_patch_of flavor s t p created" and len: "length p \<le> u64_max"
    and fits: "flavor = Ips \<Longrightarrow> length t < length s \<Longrightarrow> length t \<le> MAX_IPS_OFFSET"
    and json: "flavor = Ebp \<Longrightarrow> json_reads_default json"
  shows "\<exists>patch. parse_ips_file json p flavor v = Inr patch \<and>
    ips_truncate_size patch = ips_truncation flavor (length s) (length t) \<and>
    (\<forall>r \<in> set (ips_records patch). ips_copies flavor t r) \<and>
    (\<forall>i \<in> ips_changed s t (length t). ips_covers (ips_records patch) i) \<and>
    ips_max_written_end patch = ips_end_of (ips_records patch) \<and>
    ips_warnings patch = [] \<and> length (ips_records patch) = icr_record_count created"
proof -
  from patch obtain rs where rs: "\<forall>r \<in> set rs. ips_copies flavor t r" "\<forall>i \<in> ips_changed s t (length t). ips_covers rs i"
    and p: "p = flavor_header flavor @ concat (map (ips_encode flavor) rs) @ flavor_footer flavor @
      ips_trailer flavor (length s) (length t)" and n: "icr_record_count created = length rs"
    by (auto simp: ips_patch_of_def)
  have wf0: "ips_wf (ips_parser_new p (length p))" "ip_reader (ips_parser_new p (length p)) = p"
    using len by (simp_all add: ips_wf_def ips_parser_new_def)
  from ips_reader.read_exact_prefix [OF wf0(1) trans [OF wf0(2) p] flavor_header_length] obtain q0 where
    q0: "ips_read_exact (ips_parser_new p (length p)) 5 = Inr (flavor_header flavor, q0)" "ips_wf q0"
      "ip_reader q0 = concat (map (ips_encode flavor) rs) @ flavor_footer flavor @ ips_trailer flavor (length s) (length t)"
    by blast
  from ips_parse_records [OF q0(2) rs(1) q0(3), of json v "[]" "[]" 0] obtain q where
    q: "ips_wf q" "ip_reader q = flavor_footer flavor @ ips_trailer flavor (length s) (length t)"
      "ips_parse_loop json flavor v q0 [] [] 0 = ips_parse_loop json flavor v q rs [] (ips_end_of rs)" by auto
  from ips_reader.read_exact_prefix [OF q(1,2) refl] obtain q' where
    q': "ips_read_exact q (length (flavor_footer flavor)) = Inr (flavor_footer flavor, q')" "ips_wf q'"
      "ip_reader q' = ips_trailer flavor (length s) (length t)" by blast
  from ips_read_trailer_ok [OF q'(2,3) fits json, of v "[]"] obtain md where
    md: "ips_read_trailer json flavor v q' [] = Inr (ips_truncation flavor (length s) (length t), md, [])" by blast
  have "ips_end_of rs \<le> length t" by (rule ips_end_of_le) (use rs(1) in \<open>auto simp: ips_copies_def\<close>)
  then have w: "warn_if_records_exceed_truncate_size (ips_truncation flavor (length s) (length t)) (ips_end_of rs) [] = []"
    by (simp add: warn_if_records_exceed_truncate_size_def ips_truncation_def)
  have loop: "ips_parse_loop json flavor v q rs [] (ips_end_of rs) =
      Inr \<lparr>ips_truncate_size = ips_truncation flavor (length s) (length t), ips_metadata = md, ips_warnings = [],
           ips_max_written_end = ips_end_of rs, ips_records = rs\<rparr>"
    by (subst ips_parse_loop.simps) (simp add: q'(1) md w)
  have "\<not> length p < length (flavor_header flavor) + length (flavor_footer flavor)" by (simp add: p)
  then show ?thesis
    using q0(1) q(3) loop rs n by (simp add: parse_ips_file_def flavor_header_length)
qed

section \<open>Create\<close>

lemma ips_chunk_capability: "\<exists>cap. ips_create_thread_capability n = Inr cap"
proof -
  have "saturating_add n (CREATE_SCAN_CHUNK_BYTES - 1) div CREATE_SCAN_CHUNK_BYTES \<le>
      saturating_add n (CREATE_SCAN_CHUNK_BYTES - 1)" by (rule div_le_dividend)
  also have "\<dots> \<le> u64_max" by (simp add: saturating_add_def)
  finally show ?thesis
    by (simp add: ips_create_thread_capability_def ips_create_chunk_count_def chunk_count_for_len_checked_def Let_def)
qed

text \<open>The sizes create accepts, for a target inside the offsets of the flavor.\<close>

definition ips_sizes_ok :: "ips_flavor \<Rightarrow> nat \<Rightarrow> nat \<Rightarrow> bool" where
  "ips_sizes_ok flavor n m \<longleftrightarrow>
     (if flavor = Ips then m < n \<longrightarrow> m \<le> MAX_IPS_OFFSET else n \<le> m)"

lemma ips_create_ok:
  assumes fits: "ips_fits flavor t" and sizes: "ips_sizes_ok flavor (length s) (length t)"
    and req: "file_bytes (cr_original req) = s" "file_bytes (cr_modified req) = t"
  shows "\<exists>p created rep. ips_create flavor ctx req = Inr (p, rep) \<and> ips_patch_of flavor s t p created"
proof -
  have trailer: "flavor = Ips \<Longrightarrow> length t < length s \<Longrightarrow> length t \<le> MAX_IPS_OFFSET"
    using sizes by (simp add: ips_sizes_ok_def)
  have limits: "validate_ips_create_flips_limits (length s) (length t) flavor (ctx_validation ctx) = Inr ()"
    using fits sizes
    by (cases flavor) (auto simp: validate_ips_create_flips_limits_def ips_fits_def ips_sizes_ok_def Let_def MAX_IPS_OFFSET_def)
  obtain cap where cap: "ips_create_thread_capability (length t) = Inr cap" using ips_chunk_capability by blast
  have "\<exists>e v. run_with_optional_pool ctx cap True (\<lambda>pool. create_ips_patch_parallel flavor s t)
      (create_ips_patch_streaming flavor s t) = Inr (e, v) \<and> ips_patch_of flavor s t (fst v) (snd v)"
    using create_ips_patch_parallel_ok [OF fits trailer] create_ips_patch_streaming_ok [OF fits trailer]
    by (intro run_with_optional_pool_holds) fastforce+
  then obtain e p created where run: "run_with_optional_pool ctx cap True (\<lambda>pool. create_ips_patch_parallel flavor s t)
      (create_ips_patch_streaming flavor s t) = Inr (e, p, created)" "ips_patch_of flavor s t p created" by auto
  have "\<not> ((flavor = Ips32 \<or> flavor = Ebp) \<and> length t < length s)" using sizes by (auto simp: ips_sizes_ok_def)
  then show ?thesis
    using run by (auto simp: ips_create_def Let_def req limits cap)
qed

lemma ips_create_sizes:
  assumes ok: "ips_create flavor ctx req = Inr (p, rep)"
    and req: "file_bytes (cr_original req) = s" "file_bytes (cr_modified req) = t"
  shows "ips_sizes_ok flavor (length s) (length t)"
proof -
  from ok have shrink: "\<not> ((flavor = Ips32 \<or> flavor = Ebp) \<and> length t < length s)"
    by (auto simp: ips_create_def Let_def req)
  from ok obtain cap e v where "run_with_optional_pool ctx cap True (\<lambda>pool. create_ips_patch_parallel flavor s t)
      (create_ips_patch_streaming flavor s t) = Inr (e, v)"
    by (auto simp: ips_create_def Let_def req result_iff split: if_splits)
  from run_with_optional_pool_result [OF this] obtain out where
    "\<exists>out'. ips_write_trailer flavor (length s) (length t) out = Inr out'"
    by (auto simp: create_ips_patch_parallel_def write_ips_runs_to_output_def create_ips_patch_streaming_def result_iff)
  then have "flavor = Ips \<Longrightarrow> length t < length s \<Longrightarrow> length t \<le> MAX_IPS_OFFSET"
    by (auto simp: ips_write_trailer_def ips_write_u24_def invalid_fmt_def split: if_splits)
  with shrink show ?thesis by (cases flavor) (auto simp: ips_sizes_ok_def)
qed

lemma ips_create_patch:
  assumes ok: "ips_create flavor ctx req = Inr (p, rep)" and fits: "ips_fits flavor (file_bytes (cr_modified req))"
  shows "\<exists>created. ips_patch_of flavor (file_bytes (cr_original req)) (file_bytes (cr_modified req)) p created"
  using ips_create_ok [OF fits ips_create_sizes [OF ok refl refl] refl refl, of ctx] ok by auto

section \<open>Applying a created patch\<close>

lemma ips_covers_writes:
  assumes "\<forall>r \<in> set rs. ips_good r"
  shows "covers (map ips_write rs) i \<longleftrightarrow> ips_covers rs i"
  using assms by (auto simp: covers_def ips_covers_def ips_write_sel)

lemma ips_truthful:
  assumes "\<forall>r \<in> set rs. ips_copies flavor t r"
  shows "truthful t (map ips_write rs)"
proof -
  have "write_end (ips_write r) \<le> length t \<and>
      pw_data (ips_write r) = segment t (pw_offset (ips_write r)) (length (pw_data (ips_write r)))"
    if "r \<in> set rs" for r
  proof -
    have good: "ips_good r" and stop: "ips_stop r \<le> length t"
      and copy: "\<And>i. ir_offset r \<le> i \<Longrightarrow> i < ips_stop r \<Longrightarrow> ips_record_byte r i = t ! i"
      using assms that by (auto simp: ips_copies_def)
    note sel = ips_write_sel [OF good]
    have "pw_data (ips_write r) = segment t (ir_offset r) (ir_len r)"
    proof (rule nth_equalityI)
      show "length (pw_data (ips_write r)) = length (segment t (ir_offset r) (ir_len r))"
        using sel stop by (simp add: ips_stop_def)
    next
      fix i
      assume "i < length (pw_data (ips_write r))"
      then have "i < ir_len r" using sel by simp
      then show "pw_data (ips_write r) ! i = segment t (ir_offset r) (ir_len r) ! i"
        using ips_write_byte [OF good, of "ir_offset r + i"] copy [of "ir_offset r + i"] stop
        by (simp add: ips_stop_def nth_segment)
    qed
    with sel stop show ?thesis by simp
  qed
  then show ?thesis by (auto simp: truthful_def)
qed

theorem ips_created_output:
  assumes rs: "\<forall>r \<in> set rs. ips_copies flavor t r" and cover: "\<forall>i \<in> ips_changed s t (length t). ips_covers rs i"
  shows "ips_output (length t) s rs = t"
proof -
  have good: "\<forall>r \<in> set rs. ips_good r" using rs by (auto simp: ips_copies_def)
  have "apply_prepared_writes (set_len (length t) s) (map ips_write rs) = t"
  proof (rule truthful_writes_make_target [OF ips_truthful [OF rs]])
    fix i
    assume i: "i < length t" "byte_at (set_len (length t) s) i \<noteq> byte_at t i"
    then have "byte_at s i \<noteq> byte_at t i" by (simp add: byte_at_pad_to)
    then have "i \<in> ips_changed s t (length t)" using i(1) by (simp add: ips_changed_def ips_cell_def)
    then show "covers (map ips_write rs) i" using cover good by (simp add: ips_covers_writes)
  qed simp
  then show ?thesis
    using rs by (subst ips_output_writes) (auto simp: ips_copies_def)
qed

lemma ips_created_size:
  assumes patch: "\<forall>r \<in> set (ips_records patch). ips_copies flavor t r"
    and cover: "\<forall>i \<in> ips_changed s t (length t). ips_covers (ips_records patch) i"
    and stop: "ips_max_written_end patch = ips_end_of (ips_records patch)"
    and trunc: "ips_truncate_size patch = ips_truncation flavor (length s) (length t)"
    and sizes: "ips_sizes_ok flavor (length s) (length t)"
  shows "resolved_output_size patch (length s) = length t"
proof -
  have le: "ips_end_of (ips_records patch) \<le> length t"
    by (rule ips_end_of_le) (use patch in \<open>auto simp: ips_copies_def\<close>)
  show ?thesis
  proof (cases "length t < length s")
    case True
    then show ?thesis
      using sizes trunc by (auto simp: resolved_output_size_def ips_truncation_def ips_sizes_ok_def Let_def split: if_splits)
  next
    case False
    have "length t \<le> max (length s) (ips_end_of (ips_records patch))"
    proof (cases "length t = length s")
      case False
      with \<open>\<not> length t < length s\<close> have "length t - 1 \<in> ips_changed s t (length t)"
        by (auto simp: ips_changed_def ips_cell_def)
      with cover obtain r where r: "r \<in> set (ips_records patch)" "length t - 1 < ips_stop r"
        unfolding ips_covers_def by blast
      from ips_end_of_ge [OF r(1)] r(2) show ?thesis by simp
    qed simp
    with le False show ?thesis by (simp add: resolved_output_size_def trunc ips_truncation_def stop)
  qed
qed

end
