(* ===== verification/Ips_Properties.thy ===== *)
theory Ips_Properties
  imports Ips_Correct
begin

text \<open>
  The properties of the IPS family: what create accepts, the round trip, the functional
  behaviour of apply, and how validate, the probe and the strict mode relate to it.
\<close>

section \<open>A worked example\<close>

lemmas ips_constants = COMPARE_BUFFER_SIZE_def IPS_RESERVED_EOF_OFFSET_def MAX_IPS_RECORD_LEN_def
  UNCHANGED_GAP_COALESCE_LIMIT_def u64_max_def MIN_RLE_RECORD_LEN_def RLE_SPLIT_EDGE_THRESHOLD_def
  RLE_SPLIT_MIDDLE_THRESHOLD_def MAX_IPS_OFFSET_def IPS_EOF_def IPS_MAGIC_def

lemmas ips_scan_defs = ips_compare_buffer_def reader_read_exact_def ips_compare_byte_def push_unchanged_byte_def
  push_changed_byte_def start_pending_diff_def flush_pending_diff_def trim_pending_trailing_unchanged_def
  write_pending_diff_def write_diff_run_records_def

lemmas ips_writer_defs = write_diff_run_from.simps write_window_from.simps adjust_record_len_for_reserved_offset_def
  write_optimized_record_window_def segment_def repeated_prefix_len_def find_next_rle_split_def
  find_next_rle_split_from.simps write_literal_record_def ips_write_offset_def ips_write_u24_def ips_write_trailer_def
  ips_create_result_default_def

definition ips_sample_patch :: bytes where
  "ips_sample_patch = [0x50, 0x41, 0x54, 0x43, 0x48, 0, 0, 1, 0, 3, 7, 3, 4, 0x45, 0x4F, 0x46]"

lemma be_bytes_2: "be_bytes 2 v = [word_of_nat (v div 256 mod 256), word_of_nat (v mod 256)]"
  by (simp add: be_bytes_def numeral_2_eq_2)

lemma be_bytes_3:
  "be_bytes 3 v = [word_of_nat (v div 256 div 256 mod 256), word_of_nat (v div 256 mod 256), word_of_nat (v mod 256)]"
  by (simp add: be_bytes_def numeral_3_eq_3)

lemma sample_lengths: "length [1, 2, 3 :: u8] = 3" "length [1, 7, 3, 4 :: u8] = 4"
  by simp_all

lemma ips_sample_scan: "chunk_loop COMPARE_BUFFER_SIZE (ips_compare_buffer Ips 3) 0 4
      \<lparr>st_original = [1, 2, 3], st_modified = [1, 7, 3, 4], st_scan = (None, ips_sink_start Ips), st_previous = None\<rparr> =
    Inr \<lparr>st_original = [], st_modified = [],
         st_scan = (Some \<lparr>pn_start_offset = 1, pn_bytes = [7, 3, 4], pn_trailing_unchanged = 0\<rparr>, ips_sink_start Ips),
         st_previous = Some 4\<rparr>"
  by (simp add: chunk_loop.simps [of _ _ 0] ips_constants ips_scan_defs Let_def upt_conv_Cons cong: and_then_weak)

lemma ips_sample_stream: "create_ips_patch_streaming Ips [1, 2, 3] [1, 7, 3, 4] =
    Inr (ips_sample_patch, \<lparr>icr_record_count = 1, icr_max_written_end = 4\<rparr>)"
  unfolding create_ips_patch_streaming_def sample_lengths ips_sample_scan and_then_simps
  by (simp add: ips_constants ips_scan_defs ips_writer_defs Let_def be_bytes_2 be_bytes_3 ips_sample_patch_def
      cong: and_then_weak)

lemma ips_sample_patch_small:
  "length ips_sample_patch \<le> u64_max" "file_len sample_target \<le> flavor_max_offset Ips + 1" "Ips \<noteq> Ebp"
  "file_len sample_target \<le> plausible_output_limit (file_len sample_source) (length ips_sample_patch)"
  by (simp_all add: ips_sample_patch_def samples u64_max_def MAX_IPS_OFFSET_def plausible_output_limit_def)

lemma ips_sample_created:
  "\<exists>rep. ips_create Ips (plain_context 1) \<lparr>cr_original = sample_source, cr_modified = sample_target\<rparr> =
    Inr (ips_sample_patch, rep)"
proof -
  obtain cap where cap: "ips_create_thread_capability 4 = Inr cap" using ips_chunk_capability by blast
  have limits: "validate_ips_create_flips_limits 3 4 Ips v = Inr ()" for v
    by (simp add: validate_ips_create_flips_limits_def MAX_IPS_OFFSET_def)
  have "\<not> ((Ips = Ips32 \<or> Ips = Ebp) \<and> (4::nat) < 3)" by simp
  then show ?thesis
    unfolding ips_create_def samples Let_def create_request.select_convs stored_file.select_convs sample_lengths limits cap
      and_then_simps plain_context_serial ips_sample_stream prod.case
    by simp
qed

lemma ips_sample_parsed:
  "\<exists>patch. parse_ips_file (\<lambda>_. None) ips_sample_patch Ips v = Inr patch \<and>
    ips_records patch = [\<lparr>ir_offset = 1, ir_len = 3, ir_data = Literal [7, 3, 4]\<rparr>] \<and>
    resolved_output_size patch 3 = 4"
  by (simp add: parse_ips_file_def ips_sample_patch_def ips_parse_loop.simps ips_parser_new_def ips_read_exact_def
      ips_remaining_def reader_read_exact_def checked_add_opt_def ips_read_u16_def read_uint_with_def
      from_be_def ips_constants Let_def ips_read_trailer_def warn_if_records_exceed_truncate_size_def
      resolved_output_size_def ips_checked_add_def cong: and_then_weak)

section \<open>Create\<close>

text \<open>
  C28. What create accepts: for a target inside the offsets of its flavor, IPS create fails
  exactly when the output shrinks to a size its truncate footer cannot hold, IPS32 and EBP
  create exactly when the output shrinks; the thread budget does not matter.
\<close>

theorem ips_create_accepts:
  assumes "file_len t \<le> flavor_max_offset flavor + 1"
  shows "is_ok (ips_create flavor ctx \<lparr>cr_original = s, cr_modified = t\<rparr>) \<longleftrightarrow>
    (if flavor = Ips then \<not> (file_len t < file_len s \<and> file_len t = 2 ^ 24) else file_len s \<le> file_len t)"
proof -
  let ?req = "\<lparr>cr_original = s, cr_modified = t\<rparr>"
  have fits: "ips_fits flavor (file_bytes t)" using assms by (simp add: ips_fits_def)
  have "is_ok (ips_create flavor ctx ?req) \<longleftrightarrow> ips_sizes_ok flavor (file_len s) (file_len t)"
  proof
    assume "is_ok (ips_create flavor ctx ?req)"
    then obtain p rep where "ips_create flavor ctx ?req = Inr (p, rep)" by (auto simp: is_ok_iff)
    from ips_create_sizes [OF this refl refl] show "ips_sizes_ok flavor (file_len s) (file_len t)" by simp
  next
    assume "ips_sizes_ok flavor (file_len s) (file_len t)"
    from ips_create_ok [OF fits this, of ?req ctx] show "is_ok (ips_create flavor ctx ?req)" by auto
  qed
  also have "\<dots> \<longleftrightarrow> (if flavor = Ips then \<not> (file_len t < file_len s \<and> file_len t = 2 ^ 24)
      else file_len s \<le> file_len t)"
    using assms by (cases flavor) (auto simp: ips_sizes_ok_def MAX_IPS_OFFSET_def)
  finally show ?thesis .
qed

lemma ips_create_accepts_witness:
  "is_ok (ips_create Ips32 (plain_context 4) \<lparr>cr_original = sample_source, cr_modified = sample_target\<rparr>) \<and>
   \<not> is_ok (ips_create Ebp (plain_context 4) \<lparr>cr_original = sample_target, cr_modified = sample_source\<rparr>)"
proof
  have "is_ok (ips_create Ips32 (plain_context 4) \<lparr>cr_original = sample_source, cr_modified = sample_target\<rparr>) \<longleftrightarrow>
      file_len sample_source \<le> file_len sample_target"
    by (subst ips_create_accepts) (simp_all add: samples MAX_IPS32_OFFSET_def)
  then show "is_ok (ips_create Ips32 (plain_context 4) \<lparr>cr_original = sample_source, cr_modified = sample_target\<rparr>)"
    by (simp add: samples)
  have "is_ok (ips_create Ebp (plain_context 4) \<lparr>cr_original = sample_target, cr_modified = sample_source\<rparr>) \<longleftrightarrow>
      file_len sample_target \<le> file_len sample_source"
    by (subst ips_create_accepts) (simp_all add: samples MAX_IPS_OFFSET_def)
  then show "\<not> is_ok (ips_create Ebp (plain_context 4) \<lparr>cr_original = sample_target, cr_modified = sample_source\<rparr>)"
    by (simp add: samples)
qed



text \<open>
  C9. A created patch never ends early: no record it holds starts at the end-of-file marker,
  every record lies inside the target and holds the target's bytes, every byte that differs
  is written, and the parser accepts it without a warning in the strict and the relaxed mode.
\<close>

theorem ips_created_records:
  assumes create: "ips_create flavor ctx \<lparr>cr_original = s, cr_modified = t\<rparr> = Inr (p, rep)"
    and fits: "file_len t \<le> flavor_max_offset flavor + 1" and stored: "length p \<le> u64_max"
    and json: "flavor = Ebp \<Longrightarrow> json_reads_default json"
  shows "\<exists>patch. parse_ips_file json p flavor validation = Inr patch \<and> ips_warnings patch = [] \<and>
    (\<forall>r \<in> set (ips_records patch). ir_offset r \<noteq> flavor_reserved_eof_offset flavor \<and>
       0 < ir_len r \<and> ir_offset r + ir_len r \<le> file_len t \<and>
       (\<forall>i. ir_offset r \<le> i \<and> i < ir_offset r + ir_len r \<longrightarrow> ips_record_byte r i = file_bytes t ! i)) \<and>
    (\<forall>i < file_len t. (i < file_len s \<and> file_bytes s ! i = file_bytes t ! i) \<or>
       (\<exists>r \<in> set (ips_records patch). ir_offset r \<le> i \<and> i < ir_offset r + ir_len r))"
proof -
  have f: "ips_fits flavor (file_bytes t)" using fits by (simp add: ips_fits_def)
  from ips_create_patch [OF create] f obtain created where
    patch: "ips_patch_of flavor (file_bytes s) (file_bytes t) p created" by auto
  have trunc: "flavor = Ips \<Longrightarrow> file_len t < file_len s \<Longrightarrow> file_len t \<le> MAX_IPS_OFFSET"
    using ips_create_sizes [OF create refl refl] by (simp add: ips_sizes_ok_def)
  from parse_created [OF patch stored trunc json, of validation] obtain parsed where
    parsed: "parse_ips_file json p flavor validation = Inr parsed" "ips_warnings parsed = []"
      "\<forall>r \<in> set (ips_records parsed). ips_copies flavor (file_bytes t) r"
      "\<forall>i \<in> ips_changed (file_bytes s) (file_bytes t) (file_len t). ips_covers (ips_records parsed) i" by blast
  have "(i < file_len s \<and> file_bytes s ! i = file_bytes t ! i) \<or>
      (\<exists>r \<in> set (ips_records parsed). ir_offset r \<le> i \<and> i < ir_offset r + ir_len r)" if "i < file_len t" for i
    using parsed(4) that by (cases "i < file_len s") (auto simp: ips_changed_def ips_cell_def ips_covers_def ips_stop_def)
  with parsed(1-3) show ?thesis by (auto simp: ips_copies_def ips_good_def ips_stop_def)
qed

lemma ips_created_records_witness:
  "\<exists>patch. parse_ips_file (\<lambda>_. None) ips_sample_patch Ips Strict = Inr patch \<and> ips_warnings patch = [] \<and>
    (\<forall>r \<in> set (ips_records patch). ir_offset r \<noteq> flavor_reserved_eof_offset Ips \<and> ir_offset r + ir_len r \<le> 4)"
proof -
  from ips_sample_created obtain rep where
    "ips_create Ips (plain_context 1) \<lparr>cr_original = sample_source, cr_modified = sample_target\<rparr> =
      Inr (ips_sample_patch, rep)" by blast
  from ips_created_records [OF this, of "\<lambda>_. None" Strict] have
    "\<exists>patch. parse_ips_file (\<lambda>_. None) ips_sample_patch Ips Strict = Inr patch \<and> ips_warnings patch = [] \<and>
      (\<forall>r \<in> set (ips_records patch). ir_offset r \<noteq> flavor_reserved_eof_offset Ips \<and>
         0 < ir_len r \<and> ir_offset r + ir_len r \<le> file_len sample_target \<and>
         (\<forall>i. ir_offset r \<le> i \<and> i < ir_offset r + ir_len r \<longrightarrow>
            ips_record_byte r i = file_bytes sample_target ! i)) \<and>
      (\<forall>i < file_len sample_target. (i < file_len sample_source \<and> file_bytes sample_source ! i = file_bytes sample_target ! i) \<or>
         (\<exists>r \<in> set (ips_records patch). ir_offset r \<le> i \<and> i < ir_offset r + ir_len r))"
    using ips_sample_patch_small by blast
  moreover have "file_len sample_target = 4" by (simp add: samples)
  ultimately show ?thesis by auto
qed

section \<open>Apply\<close>

text \<open>The byte the last record that covers an offset writes there, else the input's.\<close>

definition ips_output_byte :: "ips_record list \<Rightarrow> bytes \<Rightarrow> nat \<Rightarrow> u8" where
  "ips_output_byte rs input i =
     (case List.find (\<lambda>r. ir_offset r \<le> i \<and> i < ir_offset r + ir_len r) (rev rs) of
        Some r \<Rightarrow> ips_record_byte r i
      | None \<Rightarrow> byte_at input i)"

lemma ips_output_byte_snoc:
  "ips_output_byte (rs @ [r]) input i =
    (if ir_offset r \<le> i \<and> i < ir_offset r + ir_len r then ips_record_byte r i else ips_output_byte rs input i)"
  by (simp add: ips_output_byte_def)

lemma byte_at_ips_output:
  assumes "\<forall>r \<in> set rs. ips_good r" and "i < n"
  shows "byte_at (ips_output n input rs) i = ips_output_byte rs input i"
  using assms(1)
proof (induction rs rule: rev_induct)
  case Nil
  then show ?case using assms(2) by (simp add: ips_output_def ips_output_byte_def byte_at_pad_to)
next
  case (snoc r rs)
  have "ips_output n input (rs @ [r]) = clip_write n r (ips_output n input rs)" by (simp add: ips_output_def)
  with snoc assms(2) show ?case by (simp add: byte_at_clip_write ips_output_byte_snoc ips_stop_def del: byte_at_lt)
qed

lemma ips_output_bytes:
  assumes "\<forall>r \<in> set rs. ips_good r"
  shows "ips_output n input rs = map (ips_output_byte rs input) [0..<n]"
proof (rule file_eqI)
  fix i
  assume "i < length (map (ips_output_byte rs input) [0..<n])"
  then show "byte_at (ips_output n input rs) i = byte_at (map (ips_output_byte rs input) [0..<n]) i"
    using byte_at_ips_output [OF assms] by simp
qed simp

lemma ips_apply_ok_iff:
  "is_ok (ips_apply json flavor ctx req) \<longleftrightarrow>
    (\<exists>pf patch. ar_patches req = [pf] \<and>
       parse_ips_file json (file_bytes pf) flavor (ctx_validation ctx) = Inr patch \<and>
       resolved_output_size patch (file_len (ar_input req)) \<le>
         plausible_output_limit (file_len (ar_input req)) (file_len pf))"
    (is "?ok \<longleftrightarrow> ?spec")
proof
  assume ?ok
  then obtain out rep where ap: "ips_apply json flavor ctx req = Inr (out, rep)" by (auto simp: is_ok_iff)
  then obtain pf patch where pf: "ar_patches req = [pf]"
    "parse_ips_file json (file_bytes pf) flavor (ctx_validation ctx) = Inr patch"
    by (auto simp: ips_apply_def Let_def result_iff single_patch_cases)
  with ap ips_apply_outcome [OF pf, of out] show ?spec by blast
next
  assume ?spec
  then obtain pf patch where pf: "ar_patches req = [pf]"
    "parse_ips_file json (file_bytes pf) flavor (ctx_validation ctx) = Inr patch"
    "resolved_output_size patch (file_len (ar_input req)) \<le>
       plausible_output_limit (file_len (ar_input req)) (file_len pf)" by blast
  with ips_apply_outcome [OF pf(1,2)] show ?ok by (auto simp: is_ok_iff)
qed

text \<open>
  C8. What apply does: it succeeds exactly for one patch file that parses under the context's
  validation mode and whose output size is plausible, and then each byte of the output is the
  one the last record covering it writes, or the input's byte, or zero past the input.  The
  output is assembled from chunks rendered in any number of threads, which cannot be observed.
\<close>

theorem ips_apply_bytes:
  "(\<exists>rep. ips_apply json flavor ctx req = Inr (out, rep)) \<longleftrightarrow>
    (\<exists>pf patch. ar_patches req = [pf] \<and>
       parse_ips_file json (file_bytes pf) flavor (ctx_validation ctx) = Inr patch \<and>
       resolved_output_size patch (file_len (ar_input req)) \<le>
         plausible_output_limit (file_len (ar_input req)) (file_len pf) \<and>
       out = map (ips_output_byte (ips_records patch) (file_bytes (ar_input req)))
         [0..<resolved_output_size patch (file_len (ar_input req))])"
    (is "?apply \<longleftrightarrow> ?spec")
proof
  assume ?apply
  then obtain rep where ap: "ips_apply json flavor ctx req = Inr (out, rep)" by blast
  then obtain pf patch where pf: "ar_patches req = [pf]"
    "parse_ips_file json (file_bytes pf) flavor (ctx_validation ctx) = Inr patch"
    by (auto simp: ips_apply_def Let_def result_iff single_patch_cases)
  with ap ips_apply_outcome [OF pf, of out] show ?spec
    using ips_output_bytes [OF parse_ips_file_good(1) [OF pf(2)]] by auto
next
  assume ?spec
  then obtain pf patch where pf: "ar_patches req = [pf]"
    "parse_ips_file json (file_bytes pf) flavor (ctx_validation ctx) = Inr patch"
    and rest: "resolved_output_size patch (file_len (ar_input req)) \<le>
         plausible_output_limit (file_len (ar_input req)) (file_len pf)"
       "out = map (ips_output_byte (ips_records patch) (file_bytes (ar_input req)))
         [0..<resolved_output_size patch (file_len (ar_input req))]" by blast
  with ips_apply_outcome [OF pf, of out] show ?apply
    using ips_output_bytes [OF parse_ips_file_good(1) [OF pf(2)]] by auto
qed

text \<open>
  Validate is a dry run of apply: it accepts exactly the requests apply accepts.
\<close>

theorem ips_validate_iff_apply:
  "is_ok (ips_validate json flavor ctx req) \<longleftrightarrow> is_ok (ips_apply json flavor ctx req)"
proof -
  have "is_ok (ips_validate json flavor ctx req) \<longleftrightarrow>
    (\<exists>pf patch. ar_patches req = [pf] \<and>
       parse_ips_file json (file_bytes pf) flavor (ctx_validation ctx) = Inr patch \<and>
       resolved_output_size patch (file_len (ar_input req)) \<le>
         plausible_output_limit (file_len (ar_input req)) (file_len pf))"
    using ips_max_parallel_chunks_ok
    by (auto simp: ips_validate_def Let_def is_ok_iff result_iff single_patch_cases ensure_plausible_iff)
  also have "\<dots> \<longleftrightarrow> is_ok (ips_apply json flavor ctx req)" by (rule ips_apply_ok_iff [symmetric])
  finally show ?thesis .
qed

lemma ips_read_trailer_strict:
  "ok_le (ips_read_trailer json flavor Strict p w) (ips_read_trailer json flavor v p w)"
  unfolding ips_read_trailer_def
  by (cases flavor; simp only: ips_flavor.case; intro ok_le_and_then ok_le_if ok_le_refl)
    (auto simp: handle_unexpected_ips_trailing_bytes_def intro!: ok_le_and_then)

lemma ips_parse_loop_strict:
  "ok_le (ips_parse_loop json flavor Strict p rs w mx) (ips_parse_loop json flavor v p rs w mx)"
proof (induction json flavor "Strict" p rs w mx rule: ips_parse_loop.induct)
  case (1 json flavor p rs w mx)
  let ?next = "\<lambda>v p4 marker n data stop. ips_parse_loop json flavor v p4
    (rs @ [\<lparr>ir_offset = from_be marker, ir_len = n, ir_data = data\<rparr>]) w (max mx stop)"
  have rle: "ok_le (?next Strict p4 marker n (Rle (bs ! 0)) stop) (?next v p4 marker n (Rle (bs ! 0)) stop)"
    if "ips_read_exact p (length (flavor_footer flavor)) = Inr (marker, p1)" "marker \<noteq> flavor_footer flavor"
      "ips_read_u16 p1 = Inr (0, p2)" "ips_read_u16 p2 = Inr (n, p3)" "ips_read_exact p3 1 = Inr (bs, p4)"
      "n \<noteq> 0" "ips_checked_add (from_be marker) n ''IPS record end'' = Inr stop"
    for marker p1 p2 n p3 bs p4 stop
    by (rule "1.hyps"(2) [OF that(1) refl that(2) refl that(3) refl refl that(4) refl that(5) refl that(6,7)])
  have literal: "ok_le (?next Strict p3 marker sz (Literal data) stop) (?next v p3 marker sz (Literal data) stop)"
    if "ips_read_exact p (length (flavor_footer flavor)) = Inr (marker, p1)" "marker \<noteq> flavor_footer flavor"
      "ips_read_u16 p1 = Inr (sz, p2)" "sz \<noteq> 0" "ips_read_exact p2 sz = Inr (data, p3)"
      "ips_checked_add (from_be marker) sz ''IPS record end'' = Inr stop"
    for marker p1 sz p2 data p3 stop
    by (rule "1.hyps"(3) [OF that(1) refl that(2) refl that(3) refl that(4,5) refl that(6)])
  show ?case
    unfolding ips_parse_loop.simps [of json flavor _ p rs w mx] Let_def
    using ips_read_trailer_strict [of json flavor _ w v]
    by (auto simp: handle_zero_length_rle_record_def
        intro!: ok_le_and_then ok_le_if rle [unfolded One_nat_def] literal)
qed

text \<open>
  C29. Strictness only refuses: a patch the strict parser accepts parses to the same records,
  truncate size and metadata in every mode.
\<close>

theorem ips_strict_implies_relaxed:
  assumes "parse_ips_file json p flavor Strict = Inr patch"
  shows "parse_ips_file json p flavor validation = Inr patch"
proof -
  have "ok_le (parse_ips_file json p flavor Strict) (parse_ips_file json p flavor validation)"
    unfolding parse_ips_file_def using ips_parse_loop_strict [of json flavor _ "[]" "[]" 0 validation]
    by (auto intro!: ok_le_and_then ok_le_if)
  then show ?thesis using assms by (rule ok_leD)
qed

lemma ips_strict_implies_relaxed_witness:
  "\<exists>patch. parse_ips_file (\<lambda>_. None) ips_sample_patch Ips Strict = Inr patch \<and>
    parse_ips_file (\<lambda>_. None) ips_sample_patch Ips IgnoreChecksums = Inr patch"
proof -
  from ips_sample_parsed [of Strict] obtain patch where
    "parse_ips_file (\<lambda>_. None) ips_sample_patch Ips Strict = Inr patch" by blast
  with ips_strict_implies_relaxed [OF this, of IgnoreChecksums] show ?thesis by blast
qed

section \<open>The probe\<close>

lemma length_fold_upt_set [simp]: "length (fold (\<lambda>j p. p[j := g j]) xs p) = length p"
  by (induction xs arbitrary: p) auto

lemma fold_upt_set:
  "i < length p \<Longrightarrow> fold (\<lambda>j p. p[j := g j]) [a..<b] p ! i = (if a \<le> i \<and> i < b then g i else p ! i)"
  by (induction b) (auto simp: nth_list_update less_Suc_eq)

definition ips_prefix_step :: "ips_record \<Rightarrow> u8 option list \<Rightarrow> u8 option list" where
  "ips_prefix_step r prefix =
     (if ir_offset r \<ge> IPS_PROBE_PREFIX_BYTES \<or> ir_len r = 0 then prefix
      else fold (\<lambda>offset prefix. prefix[offset := Some (ips_record_byte r offset)])
             [ir_offset r..<min (saturating_add (ir_offset r) (ir_len r)) IPS_PROBE_PREFIX_BYTES] prefix)"

lemma ips_prefix_step_nth:
  assumes "ips_good r" and "i < IPS_PROBE_PREFIX_BYTES" and "length prefix = IPS_PROBE_PREFIX_BYTES"
  shows "ips_prefix_step r prefix ! i =
    (if ir_offset r \<le> i \<and> i < ir_offset r + ir_len r then Some (ips_record_byte r i) else prefix ! i)"
  using assms
  by (auto simp: ips_prefix_step_def fold_upt_set ips_good_def saturating_add_def)

lemma collect_ips_prefix_writes_nth:
  assumes "\<forall>r \<in> set rs. ips_good r" and "i < IPS_PROBE_PREFIX_BYTES"
  shows "(case collect_ips_prefix_writes rs ! i of Some b \<Rightarrow> b | None \<Rightarrow> byte_at input i) = ips_output_byte rs input i"
proof -
  have "length (collect_ips_prefix_writes rs) = IPS_PROBE_PREFIX_BYTES \<and>
      (case collect_ips_prefix_writes rs ! i of Some b \<Rightarrow> b | None \<Rightarrow> byte_at input i) = ips_output_byte rs input i"
    using assms(1)
  proof (induction rs rule: rev_induct)
    case Nil
    then show ?case using assms(2) by (simp add: collect_ips_prefix_writes_def ips_output_byte_def)
  next
    case (snoc r rs)
    have step: "collect_ips_prefix_writes (rs @ [r]) = ips_prefix_step r (collect_ips_prefix_writes rs)"
      by (simp add: collect_ips_prefix_writes_def ips_prefix_step_def)
    have "length (ips_prefix_step r prefix) = length prefix" for prefix
      by (simp add: ips_prefix_step_def)
    with snoc assms(2) show ?case
      by (simp add: step ips_prefix_step_nth ips_output_byte_snoc)
  qed
  then show ?thesis ..
qed

text \<open>
  C30. The probe predicts the header: for the flavor the probe picks, the first bytes of every
  relaxed apply are the prefix writes it reports, over the input where it reports none.
\<close>

theorem ips_probe_predicts_prefix:
  assumes probe: "probe_ips_records json ext (file_bytes pf) = Inr (Some probe)"
    and flavor: "probe_ips_flavor ext (take 5 (file_bytes pf)) = Some flavor"
    and ctx: "ctx_validation ctx = IgnoreChecksums" and pf: "ar_patches req = [pf]"
    and ap: "ips_apply json flavor ctx req = Inr (out, rep)"
  shows "take 4 out = map
    (\<lambda>i. case pd_prefix_writes probe ! i of Some b \<Rightarrow> b | None \<Rightarrow> byte_at (file_bytes (ar_input req)) i)
    [0..<min 4 (length out)]"
proof -
  from probe flavor obtain patch where
    parse: "parse_ips_file json (file_bytes pf) flavor (ctx_validation ctx) = Inr patch"
    and pre: "pd_prefix_writes probe = collect_ips_prefix_writes (ips_records patch)"
    by (auto simp: probe_ips_records_def ctx result_iff split: if_splits)
  note good = parse_ips_file_good(1) [OF parse]
  from ips_apply_outcome [OF pf parse, of out] ap have
    "out = ips_output (resolved_output_size patch (file_len (ar_input req))) (file_bytes (ar_input req)) (ips_records patch)"
    by blast
  then have out: "out = map (ips_output_byte (ips_records patch) (file_bytes (ar_input req)))
      [0..<resolved_output_size patch (file_len (ar_input req))]"
    by (simp add: ips_output_bytes [OF good])
  have "take 4 out = map (ips_output_byte (ips_records patch) (file_bytes (ar_input req))) [0..<min 4 (length out)]"
    unfolding out by (auto simp: take_map min_def take_upt)
  also have "\<dots> = map (\<lambda>i. case pd_prefix_writes probe ! i of Some b \<Rightarrow> b
      | None \<Rightarrow> byte_at (file_bytes (ar_input req)) i) [0..<min 4 (length out)]"
    using collect_ips_prefix_writes_nth [OF good] by (auto simp: pre IPS_PROBE_PREFIX_BYTES_def)
  finally show ?thesis .
qed

lemma ips_probe_predicts_prefix_witness:
  "\<exists>probe out rep. probe_ips_records (\<lambda>_. None) None ips_sample_patch = Inr (Some probe) \<and>
    ips_apply (\<lambda>_. None) Ips ((plain_context 2)\<lparr>ctx_validation := IgnoreChecksums\<rparr>)
      \<lparr>ar_input = sample_source, ar_patches = [\<lparr>file_path = ''p'', file_bytes = ips_sample_patch\<rparr>], ar_output = ''o''\<rparr> =
      Inr (out, rep) \<and>
    take 4 out = map (\<lambda>i. case pd_prefix_writes probe ! i of Some b \<Rightarrow> b
      | None \<Rightarrow> byte_at (file_bytes sample_source) i) [0..<min 4 (length out)]"
proof -
  let ?ctx = "(plain_context 2)\<lparr>ctx_validation := IgnoreChecksums\<rparr>"
    and ?pf = "\<lparr>file_path = ''p'', file_bytes = ips_sample_patch\<rparr>"
  let ?req = "\<lparr>ar_input = sample_source, ar_patches = [?pf], ar_output = ''o''\<rparr>"
  have flavor: "probe_ips_flavor None (take 5 (file_bytes ?pf)) = Some Ips"
    by (simp add: probe_ips_flavor_def ips_sample_patch_def IPS32_MAGIC_def IPS_MAGIC_def ascii_lowercase_def)
  from ips_sample_parsed [of IgnoreChecksums] obtain patch where
    patch: "parse_ips_file (\<lambda>_. None) ips_sample_patch Ips IgnoreChecksums = Inr patch"
      "resolved_output_size patch 3 = 4" by blast
  have "file_len sample_source = 3" "file_len sample_target = 4" by (simp_all add: samples)
  then have size: "resolved_output_size patch (file_len sample_source) \<le>
      plausible_output_limit (file_len sample_source) (length ips_sample_patch)"
    using patch(2) ips_sample_patch_small(4) by simp
  have "\<not> length ips_sample_patch < 5" by (simp add: ips_sample_patch_def)
  then obtain probe where probe: "probe_ips_records (\<lambda>_. None) None (file_bytes ?pf) = Inr (Some probe)"
    using flavor patch by (auto simp: probe_ips_records_def)
  have "is_ok (ips_apply (\<lambda>_. None) Ips ?ctx ?req)"
    unfolding ips_apply_ok_iff using patch(1) size by auto
  then obtain out rep where ap: "ips_apply (\<lambda>_. None) Ips ?ctx ?req = Inr (out, rep)" by (auto simp: is_ok_iff)
  have "take 4 out = map (\<lambda>i. case pd_prefix_writes probe ! i of Some b \<Rightarrow> b
      | None \<Rightarrow> byte_at (file_bytes (ar_input ?req)) i) [0..<min 4 (length out)]"
    by (rule ips_probe_predicts_prefix [OF probe flavor _ _ ap]) simp_all
  then show ?thesis
    using probe ap unfolding stored_file.select_convs apply_request.select_convs by blast
qed

text \<open>A permutation does not change whether a symmetric relation holds between all pairs.\<close>

lemma spans_overlap_iff:
  assumes "sorted (map fst spans)" and "\<forall>(start, stop) \<in> set spans. start < stop"
  shows "spans_overlap covered spans \<longleftrightarrow>
    (\<exists>(start, stop) \<in> set spans. start < covered) \<or> \<not> sorted_wrt (\<lambda>a b. snd a \<le> fst b) spans"
  using assms
proof (induction spans arbitrary: covered)
  case (Cons s spans)
  obtain start stop where s: "s = (start, stop)" by (cases s)
  from Cons.prems have le: "\<forall>b \<in> set spans. start \<le> fst b" and lt: "start < stop" by (auto simp: s)
  show ?case
  proof (cases "start < covered")
    case False
    then have "spans_overlap covered (s # spans) \<longleftrightarrow> spans_overlap stop spans" using lt by (simp add: s max_def)
    also have "\<dots> \<longleftrightarrow> (\<exists>b \<in> set spans. fst b < stop) \<or> \<not> sorted_wrt (\<lambda>a b. snd a \<le> fst b) spans"
      using Cons by (auto simp: s case_prod_beta)
    finally show ?thesis using False le by (force simp: s)
  qed (simp add: s)
qed simp

definition probe_span :: "ips_probe_record \<Rightarrow> nat set" where
  "probe_span r = {pr_offset r..<pr_offset r + pr_len r}"

definition probe_writes :: "ips_probe_record \<Rightarrow> bool" where
  "probe_writes r \<longleftrightarrow> 0 < pr_len r \<and> pr_offset r + pr_len r \<le> u64_max"

lemma probe_spans_filter:
  "probe_spans records = map (\<lambda>r. (pr_offset r, pr_offset r + pr_len r)) (filter probe_writes records)"
  by (induction records) (auto simp: probe_spans_def probe_writes_def checked_add_opt_def List.map_filter_simps)

text \<open>
  The overlap test of the probe is exact: sorting the spans and sweeping once reports an
  overlap exactly when two of the records that write something share an offset.
\<close>

theorem ips_records_overlap_exact:
  "records_overlap records \<longleftrightarrow>
    \<not> sorted_wrt (\<lambda>r r'. probe_span r \<inter> probe_span r' = {}) (filter probe_writes records)"
proof -
  let ?span = "\<lambda>r. (pr_offset r, pr_offset r + pr_len r)" and ?rs = "filter probe_writes records"
  let ?apart = "\<lambda>a b :: nat \<times> nat. {fst a..<snd a} \<inter> {fst b..<snd b} = {}"
  let ?sorted = "sort_key fst (sort_key snd (probe_spans records))"
  have pos: "\<forall>(start, stop) \<in> set (probe_spans records). start < stop"
    by (auto simp: probe_spans_filter probe_writes_def)
  have sorted: "sorted (map fst ?sorted)" by simp
  have sym: "?apart b a" if "?apart a b" for a b using that by blast
  have "records_overlap records \<longleftrightarrow> \<not> sorted_wrt (\<lambda>a b. snd a \<le> fst b) ?sorted"
    unfolding records_overlap_def using spans_overlap_iff [OF sorted, of 0] pos by auto
  also have "\<dots> \<longleftrightarrow> \<not> sorted_wrt ?apart ?sorted" using sorted_ranges_apart [OF sorted] pos by simp
  also have "\<dots> \<longleftrightarrow> \<not> sorted_wrt ?apart (probe_spans records)"
    using sorted_wrt_perm [where R = ?apart and xs = ?sorted and ys = "probe_spans records", OF sym]
      sorted_wrt_perm [where R = ?apart and xs = "probe_spans records" and ys = ?sorted, OF sym] by auto
  also have "\<dots> \<longleftrightarrow> \<not> sorted_wrt (\<lambda>r r'. probe_span r \<inter> probe_span r' = {}) ?rs"
    unfolding probe_spans_filter sorted_wrt_map probe_span_def fst_conv snd_conv ..
  finally show ?thesis .
qed

end
