(* ===== verification/Bps.thy ===== *)
theory Bps
  imports Handlers Varint
begin

text \<open>
  The BPS format, \<open>rom-weaver-patches/src/bps.rs\<close>: the parser, and apply on its three paths
  (in memory, streaming with the tiled target copies, and through the worker pool), with
  validate and the metadata report.  BPS create is in the theory Bps_Create.
\<close>

section \<open>Data\<close>

datatype bps_action =
    SourceRead nat
  | TargetRead bytes
  | SourceCopy nat int
  | TargetCopy nat int

record parsed_bps =
  bps_source_size :: nat
  bps_target_size :: nat
  bps_source_checksum :: u32
  bps_target_checksum :: u32
  bps_patch_checksum :: u32
  bps_actions :: "bps_action list"

record bps_metadata =
  bm_source_size :: nat
  bm_target_size :: nat
  bm_source_checksum :: u32
  bm_target_checksum :: u32
  bm_patch_checksum :: u32

definition BPS_MAGIC :: bytes where
  "BPS_MAGIC = [0x42, 0x50, 0x53, 0x31]"

definition BPS_FOOTER_SIZE :: nat where
  "BPS_FOOTER_SIZE = 12"

definition COPY_BUFFER_SIZE :: nat where
  "COPY_BUFFER_SIZE = 32768"

definition APPLY_STREAM_BUFFER_SIZE :: nat where
  "APPLY_STREAM_BUFFER_SIZE = 4194304"

definition BPS_PARALLEL_WRITE_CHUNK_SIZE :: nat where
  "BPS_PARALLEL_WRITE_CHUNK_SIZE = parallel_write_chunk_bytes"

section \<open>Relative offsets\<close>

text \<open>\<open>i128::checked_add\<close>.\<close>

definition i128_checked :: "int \<Rightarrow> int option" where
  "i128_checked z = (if - (2 ^ 127) \<le> z \<and> z < 2 ^ 127 then Some z else None)"

definition adjust_relative_offset :: "int \<Rightarrow> int \<Rightarrow> nat \<Rightarrow> string \<Rightarrow> nat result" where
  "adjust_relative_offset current delta limit label =
     and_then (ok_or (i128_checked (current + delta))
                 (invalid_fmt ''BPS {} relative offset overflowed'' [Str label])) (\<lambda>next.
     if next < 0
     then invalid_fmt ''BPS {} relative offset moved before the start of the file'' [Str label]
     else if nat next > u64_max
     then invalid_fmt ''BPS {} relative offset exceeded u64'' [Str label]
     else if nat next \<ge> limit
     then invalid_fmt ''BPS {} relative offset exceeded available data'' [Str label]
     else Inr (nat next))"

definition decode_signed_offset :: "nat \<Rightarrow> int" where
  "decode_signed_offset raw =
     (let magnitude = int (raw div 2) in if raw mod 2 \<noteq> 0 then - magnitude else magnitude)"

section \<open>The parser\<close>

record bps_parser =
  bp_reader :: bytes
  bp_offset :: nat
  bp_end :: nat
  bp_patch :: string

definition bps_parser_new :: "bytes \<Rightarrow> nat \<Rightarrow> string \<Rightarrow> bps_parser" where
  "bps_parser_new rdr stop patch = \<lparr>bp_reader = rdr, bp_offset = 0, bp_end = stop, bp_patch = patch\<rparr>"

definition bps_is_at_end :: "bps_parser \<Rightarrow> bool" where
  "bps_is_at_end p \<longleftrightarrow> bp_offset p = bp_end p"

definition bps_read_exact :: "bps_parser \<Rightarrow> nat \<Rightarrow> (bytes \<times> bps_parser) result" where
  "bps_read_exact p len =
     and_then (ok_or (checked_add_opt (bp_offset p) len) (invalid ''BPS parser offset overflowed'')) (\<lambda>next.
     if next > bp_end p
     then invalid_fmt ''BPS patch `{}` is truncated or corrupt: it ended unexpectedly while reading record data''
            [Str (bp_patch p)]
     else and_then (reader_read_exact (bp_reader p) len) (\<lambda>(bytes, rdr).
          Inr (bytes, p\<lparr>bp_reader := rdr, bp_offset := next\<rparr>)))"

definition bps_read_u8 :: "bps_parser \<Rightarrow> (u8 \<times> bps_parser) result" where
  "bps_read_u8 = read_byte_with bps_read_exact"

definition bps_read_varint :: "bps_parser \<Rightarrow> (nat \<times> bps_parser) result" where
  "bps_read_varint = read_varint bps_read_u8 ''BPS''"

lemma bps_read_exact_progress:
  assumes "bps_read_exact p n = Inr (bs, q)"
  shows "bp_offset q = bp_offset p + n" and "bp_end q = bp_end p" and "bp_offset q \<le> bp_end q"
    and "length bs = n"
  using assms
  by (auto simp: bps_read_exact_def result_iff checked_add_opt_def ok_or_def reader_read_exact_def
      split: if_splits option.splits)

interpretation bps_advance: advancing_source bps_read_u8 bp_offset bp_end
proof
  fix p b q
  assume "bps_read_u8 p = Inr (b, q)"
  with bps_read_exact_progress [of p 1] show "bp_offset p < bp_offset q \<and> bp_end q = bp_end p \<and> bp_offset q \<le> bp_end q"
    by (auto simp: bps_read_u8_def read_byte_with_def result_iff)
qed

lemma bps_read_varint_progress:
  assumes "bps_read_varint p = Inr (n, q)"
  shows "bp_offset p < bp_offset q" and "bp_end q = bp_end p" and "bp_offset q \<le> bp_end q"
  using assms bps_advance.read_varint_advances [of "''BPS''" p n q] by (simp_all add: bps_read_varint_def)

text \<open>Where the action stream stands: bytes produced and the two copy cursors.\<close>

record bps_cursor =
  bc_output_size :: nat
  bc_source_relative :: int
  bc_target_relative :: int

text \<open>One action, its command and length packed in one number.\<close>

definition bps_parse_action ::
  "nat \<Rightarrow> bps_parser \<Rightarrow> bps_cursor \<Rightarrow> (bps_action \<times> bps_parser \<times> bps_cursor) result" where
  "bps_parse_action source_len p cur =
     and_then (bps_read_varint p) (\<lambda>(raw, p).
     let command = raw mod 4 in
     and_then (ok_or (checked_add_opt (raw div 4) 1) (invalid ''BPS action length overflowed'')) (\<lambda>len.
     let output_offset = bc_output_size cur in
     and_then (ok_or (checked_add_opt (bc_output_size cur) len) (invalid ''BPS target size overflowed''))
       (\<lambda>output_size.
     let cur = cur\<lparr>bc_output_size := output_size\<rparr>
     in if command = 0
        then
          if output_size > source_len
          then invalid_fmt ''SourceRead exceeded input size at output offset {}'' [Num output_offset]
          else Inr (SourceRead len, p, cur)
        else if command = 1
        then and_then (bps_read_exact p len) (\<lambda>(data, p). Inr (TargetRead data, p, cur))
        else if command = 2
        then and_then (bps_read_varint p) (\<lambda>(raw_offset, p).
             let relative_offset = decode_signed_offset raw_offset
             in and_then (adjust_relative_offset (bc_source_relative cur) relative_offset source_len ''source'')
                  (\<lambda>start.
                and_then (ok_or (checked_add_opt start len) (invalid ''BPS source-copy length overflowed'')) (\<lambda>stop.
                if stop > source_len
                then invalid_fmt ''SourceCopy exceeded input size at source offset {}'' [Num start]
                else Inr (SourceCopy len relative_offset, p, cur\<lparr>bc_source_relative := int stop\<rparr>))))
        else and_then (bps_read_varint p) (\<lambda>(raw_offset, p).
             let relative_offset = decode_signed_offset raw_offset
             in and_then (adjust_relative_offset (bc_target_relative cur) relative_offset output_offset ''target'')
                  (\<lambda>start.
                and_then (ok_or (checked_add_opt start len) (invalid ''BPS target-copy length overflowed'')) (\<lambda>stop.
                Inr (TargetCopy len relative_offset, p, cur\<lparr>bc_target_relative := int stop\<rparr>)))))))"

lemma bps_parse_action_progress:
  assumes "bps_parse_action n p cur = Inr (a, q, cur')"
  shows "bp_offset p < bp_offset q" and "bp_end q = bp_end p" and "bp_offset q \<le> bp_end q"
proof -
  from assms obtain raw p1 where raw: "bps_read_varint p = Inr (raw, p1)"
    by (auto simp: bps_parse_action_def result_iff)
  note step = bps_read_varint_progress [OF raw]
  from assms raw consider "q = p1" | m where "\<exists>d. bps_read_exact p1 m = Inr (d, q)"
    | "\<exists>m. bps_read_varint p1 = Inr (m, q)"
    by (auto simp: bps_parse_action_def result_iff Let_def split: if_splits)
  then have "bp_offset p1 \<le> bp_offset q \<and> bp_end q = bp_end p1 \<and> bp_offset q \<le> bp_end q"
  proof cases
    case 1
    then show ?thesis using step by simp
  next
    case (2 m)
    then obtain d where "bps_read_exact p1 m = Inr (d, q)" by blast
    from bps_read_exact_progress [OF this] show ?thesis by simp
  next
    case 3
    then obtain m where "bps_read_varint p1 = Inr (m, q)" by blast
    from bps_read_varint_progress [OF this] show ?thesis by simp
  qed
  with step show "bp_offset p < bp_offset q" and "bp_end q = bp_end p" and "bp_offset q \<le> bp_end q" by auto
qed

function bps_parse_actions ::
  "nat \<Rightarrow> bps_parser \<Rightarrow> bps_cursor \<Rightarrow> (bps_action list \<times> bps_cursor) result" where
  "bps_parse_actions source_len p cur =
     (if bps_is_at_end p then Inr ([], cur)
      else and_then (bps_parse_action source_len p cur) (\<lambda>(action, p, cur).
           and_then (bps_parse_actions source_len p cur) (\<lambda>(actions, cur).
           Inr (action # actions, cur))))"
  by pat_completeness auto
termination
proof (relation "measure (\<lambda>(n, p, cur). bp_end p - bp_offset p)", goal_cases)
  case (2 n p cur r action r' q cur')
  with bps_parse_action_progress [of n p cur action q cur'] show ?case by auto
qed simp

declare bps_parse_actions.simps [simp del]

definition bps_check_patch_checksum :: "(bytes \<Rightarrow> u32) \<Rightarrow> bytes \<Rightarrow> u32 \<Rightarrow> unit result" where
  "bps_check_patch_checksum crc32 patch patch_checksum =
     and_then (crc32_prefix crc32 patch (length patch - 4) COPY_BUFFER_SIZE) (\<lambda>actual.
     if actual \<noteq> patch_checksum
     then coded ''patch.file_checksum_invalid'' ''Patch checksum invalid; expected: {}, Actual: {}''
            [Hex (unat patch_checksum), Hex (unat actual)]
     else Inr ())"

definition parse_bps_metadata :: "(bytes \<Rightarrow> u32) \<Rightarrow> stored_file \<Rightarrow> bps_metadata result" where
  "parse_bps_metadata crc32 patch_file =
     (let patch = file_bytes patch_file; len = length patch
      in if len < length BPS_MAGIC + BPS_FOOTER_SIZE
         then invalid ''BPS patch is too small to contain a valid header and footer''
         else
           let footer_offset = len - BPS_FOOTER_SIZE
           in and_then (bps_read_exact (bps_parser_new patch footer_offset (file_path patch_file)) (length BPS_MAGIC))
                (\<lambda>(magic, parser).
              if magic \<noteq> BPS_MAGIC then coded ''BPS_HEADER_INVALID'' ''Patch header invalid'' []
              else
              and_then (bps_read_varint parser) (\<lambda>(src_size, parser).
              and_then (bps_read_varint parser) (\<lambda>(tgt_size, parser).
              and_then (read_footer patch footer_offset BPS_FOOTER_SIZE) (\<lambda>footer.
              let patch_checksum = word_of_nat (from_le (segment footer 8 4))
              in and_then (bps_check_patch_checksum crc32 patch patch_checksum) (\<lambda>_.
                 Inr \<lparr>bm_source_size = src_size, bm_target_size = tgt_size,
                      bm_source_checksum = word_of_nat (from_le (segment footer 0 4)),
                      bm_target_checksum = word_of_nat (from_le (segment footer 4 4)),
                      bm_patch_checksum = patch_checksum\<rparr>))))))"

definition parse_bps_file :: "(bytes \<Rightarrow> u32) \<Rightarrow> stored_file \<Rightarrow> bool \<Rightarrow> parsed_bps result" where
  "parse_bps_file crc32 patch_file validate_patch_checksum =
     (let patch = file_bytes patch_file; len = length patch
      in if len < length BPS_MAGIC + BPS_FOOTER_SIZE
         then invalid ''BPS patch is too small to contain a valid header and footer''
         else
           let footer_offset = len - BPS_FOOTER_SIZE
           in and_then (bps_read_exact (bps_parser_new patch footer_offset (file_path patch_file)) (length BPS_MAGIC))
                (\<lambda>(magic, parser).
              if magic \<noteq> BPS_MAGIC then coded ''BPS_HEADER_INVALID'' ''Patch header invalid'' []
              else
              and_then (bps_read_varint parser) (\<lambda>(src_size, parser).
              and_then (bps_read_varint parser) (\<lambda>(tgt_size, parser).
              and_then (bps_read_varint parser) (\<lambda>(metadata_size, parser).
              and_then (bps_read_exact parser metadata_size) (\<lambda>(_, parser).
              and_then
                (bps_parse_actions src_size parser
                   \<lparr>bc_output_size = 0, bc_source_relative = 0, bc_target_relative = 0\<rparr>) (\<lambda>(actions, cur).
              if bc_output_size cur \<noteq> tgt_size
              then invalid_fmt ''BPS patch `{}` is truncated or corrupt: Output size invalid; Expected: {}, Actual: {}''
                     [Str (file_path patch_file), Num tgt_size, Num (bc_output_size cur)]
              else
              and_then (read_footer patch footer_offset BPS_FOOTER_SIZE) (\<lambda>footer.
              let patch_checksum = word_of_nat (from_le (segment footer 8 4))
              in and_then (if validate_patch_checksum then bps_check_patch_checksum crc32 patch patch_checksum
                           else Inr ()) (\<lambda>_.
                 Inr \<lparr>bps_source_size = src_size, bps_target_size = tgt_size,
                      bps_source_checksum = word_of_nat (from_le (segment footer 0 4)),
                      bps_target_checksum = word_of_nat (from_le (segment footer 4 4)),
                      bps_patch_checksum = patch_checksum, bps_actions = actions\<rparr>)))))))))"

definition bps_parse :: "(bytes \<Rightarrow> u32) \<Rightarrow> op_context \<Rightarrow> stored_file \<Rightarrow> report result" where
  "bps_parse crc32 ctx patch_file =
     and_then (parse_bps_file crc32 patch_file (scope_patch_integrity (patch_check_scopes ctx))) (\<lambda>patch.
     Inr (byuu_parse_report ''BPS'' (length (bps_actions patch)) (bps_source_size patch) (bps_target_size patch)
       (bps_source_checksum patch) (bps_target_checksum patch) (bps_patch_checksum patch)))"

definition byuu_metadata_report :: "string \<Rightarrow> nat \<Rightarrow> nat \<Rightarrow> u32 \<Rightarrow> u32 \<Rightarrow> u32 \<Rightarrow> report" where
  "byuu_metadata_report format src_size tgt_size source_crc32 target_crc32 patch_crc32 =
     (let rep = patch_success_report format ''parse''
            [Msg ''described {} patch metadata; source crc32 {}; target crc32 {}; patch crc32 {}''
               [Str format, Hex (unat source_crc32), Hex (unat target_crc32), Hex (unat patch_crc32)]] None;
          rep = rep\<lparr>rep_details :=
            [(''source_size'', src_size), (''target_size'', tgt_size),
             (''source_crc32'', unat source_crc32), (''target_crc32'', unat target_crc32),
             (''patch_crc32'', unat patch_crc32)]\<rparr>
      in attach_patch_endpoints
           (byuu_endpoint_variants format src_size tgt_size source_crc32 target_crc32) rep)"

definition bps_describe_metadata :: "(bytes \<Rightarrow> u32) \<Rightarrow> stored_file \<Rightarrow> report result" where
  "bps_describe_metadata crc32 patch_file =
     and_then (parse_bps_metadata crc32 patch_file) (\<lambda>m.
     Inr (byuu_metadata_report ''BPS'' (bm_source_size m) (bm_target_size m) (bm_source_checksum m)
       (bm_target_checksum m) (bm_patch_checksum m)))"

end
