(* ===== verification/Bps_Apply.thy ===== *)
theory Bps_Apply
  imports Bps
begin

text \<open>
  BPS apply, \<open>rom-weaver-patches/src/bps.rs\<close>: the in-memory path, the streaming path with its
  elided seeks and tiled target copies, the worker-pool path with its write plans and
  byte-bounded batches, and the input and output checks around them.
\<close>

section \<open>In memory\<close>

record bps_memory =
  bmem_output :: bytes
  bmem_offset :: nat
  bmem_source_relative :: int
  bmem_target_relative :: int

text \<open>\<open>output[off..off + data.len()].copy_from_slice(data)\<close>: the range has to be inside the slice.\<close>

definition copy_into_slice :: "nat \<Rightarrow> bytes \<Rightarrow> bytes \<Rightarrow> bytes result" where
  "copy_into_slice off data out =
     (if off + length data \<le> length out then Inr (write_at off data out)
      else Err (Panic ''range end index out of range for slice''))"

text \<open>
  The copy from produced output: \<open>available = output_offset - read_offset\<close> stays the same while
  both offsets advance by the chunk, so it is the bound of every chunk.
\<close>

definition bps_copy_within :: "nat \<Rightarrow> nat \<Rightarrow> nat \<Rightarrow> bytes \<Rightarrow> bytes result" where
  "bps_copy_within output_offset read_offset len out =
     chunk_loop (min (output_offset - read_offset) COPY_BUFFER_SIZE)
       (\<lambda>done chunk out.
          if read_offset + done + chunk \<le> length out
          then copy_into_slice (output_offset + done) (segment out (read_offset + done) chunk) out
          else Err (Panic ''range end index out of range for slice'')) 0 len out"

definition bps_memory_action :: "nat \<Rightarrow> bytes \<Rightarrow> bps_action \<Rightarrow> bps_memory \<Rightarrow> bps_memory result" where
  "bps_memory_action source_len source action st =
     and_then
       (case action of
          SourceRead len \<Rightarrow>
            let stop = bmem_offset st + len
            in if stop > length source
               then invalid_fmt ''SourceRead exceeded input size at output offset {}'' [Num (bmem_offset st)]
               else and_then (copy_into_slice (bmem_offset st) (segment source (bmem_offset st) len) (bmem_output st))
                      (\<lambda>out. Inr (st\<lparr>bmem_output := out, bmem_offset := stop\<rparr>))
        | TargetRead data \<Rightarrow>
            and_then (copy_into_slice (bmem_offset st) data (bmem_output st)) (\<lambda>out.
            Inr (st\<lparr>bmem_output := out, bmem_offset := bmem_offset st + length data\<rparr>))
        | SourceCopy len relative_offset \<Rightarrow>
            and_then (adjust_relative_offset (bmem_source_relative st) relative_offset source_len ''source'')
              (\<lambda>start.
            if start + len > length source
            then invalid_fmt ''SourceCopy exceeded input size at source offset {}'' [Num start]
            else and_then (copy_into_slice (bmem_offset st) (segment source start len) (bmem_output st)) (\<lambda>out.
                 Inr (st\<lparr>bmem_output := out, bmem_source_relative := int (start + len),
                         bmem_offset := bmem_offset st + len\<rparr>)))
        | TargetCopy len relative_offset \<Rightarrow>
            and_then (adjust_relative_offset (bmem_target_relative st) relative_offset (bmem_offset st) ''target'')
              (\<lambda>start.
            if start \<ge> bmem_offset st
            then invalid_fmt ''TargetCopy started beyond produced output at offset {}'' [Num start]
            else and_then (bps_copy_within (bmem_offset st) start len (bmem_output st)) (\<lambda>out.
                 and_then (ok_or (checked_add_opt start len) (invalid ''BPS target-copy length overflowed'')) (\<lambda>stop.
                 Inr (st\<lparr>bmem_output := out, bmem_offset := bmem_offset st + len,
                         bmem_target_relative := int stop\<rparr>))))) (\<lambda>st.
     if bmem_offset st > length (bmem_output st)
     then invalid_fmt ''Output size invalid; Expected: {}, Actual: {}''
            [Num (length (bmem_output st)), Num (bmem_offset st)]
     else Inr st)"

definition apply_patch_actions_in_memory :: "parsed_bps \<Rightarrow> bytes \<Rightarrow> bytes \<Rightarrow> bytes result" where
  "apply_patch_actions_in_memory patch source out =
     and_then
       (fold_result (bps_memory_action (bps_source_size patch) source) (bps_actions patch)
          \<lparr>bmem_output = out, bmem_offset = 0, bmem_source_relative = 0, bmem_target_relative = 0\<rparr>) (\<lambda>st.
     if bmem_offset st \<noteq> length out
     then invalid_fmt ''Output size invalid; Expected: {}, Actual: {}''
            [Num (length out), Num (bmem_offset st)]
     else Inr (bmem_output st))"

section \<open>Streaming\<close>

text \<open>
  The files have cursors (\<open>source_at\<close>, \<open>output_at\<close>); the code tracks where it believes they are
  (\<open>source_pos\<close>, \<open>output_pos\<close>) and seeks only when that differs from where it wants to be.
\<close>

record bps_files =
  bf_output :: bytes
  bf_output_at :: nat
  bf_source_at :: nat
  bf_source_pos :: nat
  bf_output_pos :: nat
  bf_output_offset :: nat
  bf_source_relative :: int
  bf_target_relative :: int

definition bps_seek_source :: "nat \<Rightarrow> bps_files \<Rightarrow> bps_files" where
  "bps_seek_source off st =
     (if bf_source_pos st \<noteq> off then st\<lparr>bf_source_at := off, bf_source_pos := off\<rparr> else st)"

definition bps_seek_output :: "bps_files \<Rightarrow> bps_files" where
  "bps_seek_output st =
     (if bf_output_pos st \<noteq> bf_output_offset st
      then st\<lparr>bf_output_at := bf_output_offset st, bf_output_pos := bf_output_offset st\<rparr> else st)"

text \<open>\<open>write_all\<close> at the cursor of the output file, which moves past what is written.\<close>

definition bps_write_all :: "bytes \<Rightarrow> bps_files \<Rightarrow> bps_files" where
  "bps_write_all data st =
     st\<lparr>bf_output := write_at (bf_output_at st) data (bf_output st),
        bf_output_at := bf_output_at st + length data\<rparr>"

definition bps_copy_source :: "bytes \<Rightarrow> nat \<Rightarrow> bps_files \<Rightarrow> bps_files result" where
  "bps_copy_source source len st =
     chunk_loop APPLY_STREAM_BUFFER_SIZE
       (\<lambda>_ chunk st.
          and_then (seek_read_exact source (bf_source_at st) chunk) (\<lambda>data.
          let st = bps_write_all data (st\<lparr>bf_source_at := bf_source_at st + chunk\<rparr>)
          in Inr (st\<lparr>bf_output_offset := bf_output_offset st + chunk,
                     bf_source_pos := bf_source_pos st + chunk,
                     bf_output_pos := bf_output_pos st + chunk\<rparr>))) 0 len st"

text \<open>The doubling that tiles whole periods across the copy buffer.\<close>

function bps_fill_tile :: "nat \<Rightarrow> nat \<Rightarrow> bytes \<Rightarrow> bytes" where
  "bps_fill_tile tile filled buffer =
     (if filled < tile \<and> 0 < filled
      then let n = min (tile - filled) filled
           in bps_fill_tile tile (filled + n) (write_at filled (take n buffer) buffer)
      else buffer)"
  by pat_completeness auto
termination
  by (relation "measure (\<lambda>(tile, filled, buffer). tile - filled)") auto

declare bps_fill_tile.simps [simp del]

definition bps_copy_target_range :: "nat \<Rightarrow> nat \<Rightarrow> bps_files \<Rightarrow> bps_files result" where
  "bps_copy_target_range start len st =
     (if len = 0 then Inr st
      else if start \<ge> bf_output_offset st
      then invalid_fmt ''TargetCopy referenced unavailable output at offset {}'' [Num start]
      else
        let period = bf_output_offset st - start
        in if period \<ge> COPY_BUFFER_SIZE
           then
             chunk_loop COPY_BUFFER_SIZE
               (\<lambda>done chunk st.
                  and_then (seek_read_exact (bf_output st) (start + done) chunk) (\<lambda>data.
                  let st = bps_write_all data (st\<lparr>bf_output_at := bf_output_offset st\<rparr>)
                  in Inr (st\<lparr>bf_output_offset := bf_output_offset st + chunk\<rparr>))) 0 len st
           else
             and_then (seek_read_exact (bf_output st) start period) (\<lambda>data.
             let buffer = write_at 0 data (replicate COPY_BUFFER_SIZE 0);
                 tile = (COPY_BUFFER_SIZE div period) * period;
                 buffer = bps_fill_tile tile period buffer
             in chunk_loop tile
                  (\<lambda>_ chunk st.
                     let st = bps_write_all (take chunk buffer) st
                     in Inr (st\<lparr>bf_output_offset := bf_output_offset st + chunk\<rparr>)) 0 len
                  (st\<lparr>bf_output_at := bf_output_offset st\<rparr>)))"

definition bps_stream_action ::
  "nat \<Rightarrow> nat \<Rightarrow> bytes \<Rightarrow> bps_action \<Rightarrow> bps_files \<Rightarrow> bps_files result" where
  "bps_stream_action source_len target_len source action st =
     and_then
       (case action of
          SourceRead len \<Rightarrow>
            and_then (ok_or (checked_add_opt (bf_output_offset st) len)
                        (invalid ''BPS source-read offset overflowed'')) (\<lambda>stop.
            if stop > source_len
            then invalid_fmt ''SourceRead exceeded input size at output offset {}'' [Num (bf_output_offset st)]
            else bps_copy_source source len (bps_seek_output (bps_seek_source (bf_output_offset st) st)))
        | TargetRead data \<Rightarrow>
            let st = (if bf_output_pos st \<noteq> bf_output_offset st
                      then st\<lparr>bf_output_at := bf_output_offset st\<rparr> else st);
                st = bps_write_all data st
            in and_then (ok_or (checked_add_opt (bf_output_offset st) (length data))
                           (invalid ''BPS output offset overflowed'')) (\<lambda>output_offset.
               Inr (st\<lparr>bf_output_offset := output_offset, bf_output_pos := output_offset\<rparr>))
        | SourceCopy len relative_offset \<Rightarrow>
            and_then (adjust_relative_offset (bf_source_relative st) relative_offset source_len ''source'')
              (\<lambda>start.
            and_then (ok_or (checked_add_opt start len) (invalid ''BPS source-copy length overflowed'')) (\<lambda>stop.
            if stop > source_len
            then invalid_fmt ''SourceCopy exceeded input size at source offset {}'' [Num start]
            else and_then (bps_copy_source source len (bps_seek_output (bps_seek_source start st))) (\<lambda>st.
                 Inr (st\<lparr>bf_source_relative := int stop\<rparr>))))
        | TargetCopy len relative_offset \<Rightarrow>
            and_then (adjust_relative_offset (bf_target_relative st) relative_offset (bf_output_offset st) ''target'')
              (\<lambda>start.
            if start \<ge> bf_output_offset st
            then invalid_fmt ''TargetCopy started beyond produced output at offset {}'' [Num start]
            else and_then (bps_copy_target_range start len st) (\<lambda>st.
                 and_then (ok_or (checked_add_opt start len) (invalid ''BPS target-copy length overflowed'')) (\<lambda>stop.
                 Inr (st\<lparr>bf_output_pos := bf_output_offset st, bf_target_relative := int stop\<rparr>))))) (\<lambda>st.
     if bf_output_offset st > target_len
     then invalid_fmt ''Output size invalid; Expected: {}, Actual: {}''
            [Num target_len, Num (bf_output_offset st)]
     else Inr st)"

definition bps_files_start :: "bytes \<Rightarrow> bps_files" where
  "bps_files_start out =
     \<lparr>bf_output = out, bf_output_at = 0, bf_source_at = 0, bf_source_pos = 0, bf_output_pos = 0,
      bf_output_offset = 0, bf_source_relative = 0, bf_target_relative = 0\<rparr>"

definition apply_patch_actions :: "parsed_bps \<Rightarrow> bytes \<Rightarrow> bytes \<Rightarrow> bytes result" where
  "apply_patch_actions patch source out =
     and_then
       (fold_result (bps_stream_action (bps_source_size patch) (bps_target_size patch) source)
          (bps_actions patch) (bps_files_start out)) (\<lambda>st.
     if bf_output_offset st \<noteq> bps_target_size patch
     then invalid_fmt ''Output size invalid; Expected: {}, Actual: {}''
            [Num (bps_target_size patch), Num (bf_output_offset st)]
     else Inr (bf_output st))"

section \<open>Through the pool\<close>

datatype bps_write_kind = SourceRange nat nat | BpsLiteral bytes

record bps_write_plan =
  bwp_output_offset :: nat
  bwp_kind :: bps_write_kind

function push_source_write_plans ::
  "nat \<Rightarrow> nat \<Rightarrow> nat \<Rightarrow> bps_write_plan list \<Rightarrow> bps_write_plan list result" where
  "push_source_write_plans output_offset source_offset len plans =
     (if 0 < len
      then
        let chunk_len = min len BPS_PARALLEL_WRITE_CHUNK_SIZE;
            plans = plans @ [\<lparr>bwp_output_offset = output_offset, bwp_kind = SourceRange source_offset chunk_len\<rparr>]
        in and_then (ok_or (checked_add_opt output_offset chunk_len)
                       (invalid ''BPS parallel output offset overflowed'')) (\<lambda>output_offset.
           and_then (ok_or (checked_add_opt source_offset chunk_len)
                       (invalid ''BPS parallel source offset overflowed'')) (\<lambda>source_offset.
           push_source_write_plans output_offset source_offset (len - chunk_len) plans))
      else Inr plans)"
  by pat_completeness auto
termination
  by (relation "measure (\<lambda>(_, _, len, _). len)")
    (auto simp: BPS_PARALLEL_WRITE_CHUNK_SIZE_def parallel_write_chunk_bytes_def)

declare push_source_write_plans.simps [simp del]

function push_literal_write_plans ::
  "nat \<Rightarrow> bytes \<Rightarrow> bps_write_plan list \<Rightarrow> bps_write_plan list result" where
  "push_literal_write_plans output_offset data plans =
     (if data = [] then Inr plans
      else
        let chunk = take BPS_PARALLEL_WRITE_CHUNK_SIZE data;
            plans = plans @ [\<lparr>bwp_output_offset = output_offset, bwp_kind = BpsLiteral chunk\<rparr>]
        in and_then (ok_or (checked_add_opt output_offset (length chunk))
                       (invalid ''BPS parallel output offset overflowed'')) (\<lambda>output_offset.
           push_literal_write_plans output_offset (drop BPS_PARALLEL_WRITE_CHUNK_SIZE data) plans))"
  by pat_completeness auto
termination
  by (relation "measure (\<lambda>(_, data, _). length data)")
    (auto simp: BPS_PARALLEL_WRITE_CHUNK_SIZE_def parallel_write_chunk_bytes_def)

declare push_literal_write_plans.simps [simp del]

text \<open>Plans so far, the output offset and the source cursor.\<close>

type_synonym bps_planning = "bps_write_plan list \<times> nat \<times> int"

definition bps_plan_action ::
  "nat \<Rightarrow> nat \<Rightarrow> bps_action \<Rightarrow> bps_planning \<Rightarrow> bps_planning result" where
  "bps_plan_action source_len target_len action st =
     (let (plans, output_offset, source_relative) = st
      in and_then
       (case action of
          SourceRead len \<Rightarrow>
            and_then (ok_or (checked_add_opt output_offset len)
                        (invalid ''BPS source-read offset overflowed'')) (\<lambda>stop.
            if stop > source_len
            then invalid_fmt ''SourceRead exceeded input size at output offset {}'' [Num output_offset]
            else and_then (push_source_write_plans output_offset output_offset len plans) (\<lambda>plans.
                 Inr (plans, stop, source_relative)))
        | TargetRead data \<Rightarrow>
            and_then (ok_or (checked_add_opt output_offset (length data))
                        (invalid ''BPS target-read output overflowed'')) (\<lambda>stop.
            and_then (push_literal_write_plans output_offset data plans) (\<lambda>plans.
            Inr (plans, stop, source_relative)))
        | SourceCopy len relative_offset \<Rightarrow>
            and_then (adjust_relative_offset source_relative relative_offset source_len ''source'') (\<lambda>source_start.
            and_then (ok_or (checked_add_opt source_start len)
                        (invalid ''BPS source-copy length overflowed'')) (\<lambda>source_stop.
            if source_stop > source_len
            then invalid_fmt ''SourceCopy exceeded input size at source offset {}'' [Num source_start]
            else and_then (push_source_write_plans output_offset source_start len plans) (\<lambda>plans.
                 and_then (ok_or (checked_add_opt output_offset len)
                             (invalid ''BPS output offset overflowed'')) (\<lambda>output_offset.
                 Inr (plans, output_offset, int source_stop)))))
        | TargetCopy len relative_offset \<Rightarrow>
            invalid ''BPS TargetCopy actions require sequential apply'') (\<lambda>(plans, output_offset, source_relative).
     if output_offset > target_len
     then invalid_fmt ''Output size invalid; Expected: {}, Actual: {}'' [Num target_len, Num output_offset]
     else Inr (plans, output_offset, source_relative)))"

definition collect_parallel_bps_write_plans :: "parsed_bps \<Rightarrow> bps_write_plan list result" where
  "collect_parallel_bps_write_plans patch =
     and_then
       (fold_result (bps_plan_action (bps_source_size patch) (bps_target_size patch)) (bps_actions patch)
          ([], 0, 0)) (\<lambda>(plans, output_offset, _).
     if output_offset \<noteq> bps_target_size patch
     then invalid_fmt ''Output size invalid; Expected: {}, Actual: {}''
            [Num (bps_target_size patch), Num output_offset]
     else Inr plans)"

fun bps_plan_bytes :: "bps_write_kind \<Rightarrow> nat" where
  "bps_plan_bytes (SourceRange _ len) = len"
| "bps_plan_bytes (BpsLiteral data) = length data"

function bps_batch_end_from :: "bps_write_plan list \<Rightarrow> nat \<Rightarrow> nat \<Rightarrow> nat \<Rightarrow> nat \<Rightarrow> nat" where
  "bps_batch_end_from plans start byte_limit batch_bytes stop =
     (if stop < length plans
      then let plan_bytes = bps_plan_bytes (bwp_kind (plans ! stop))
           in if stop > start \<and> saturating_add batch_bytes plan_bytes > byte_limit then stop
              else bps_batch_end_from plans start byte_limit (saturating_add batch_bytes plan_bytes) (stop + 1)
      else stop)"
  by pat_completeness auto
termination
  by (relation "measure (\<lambda>(plans, _, _, _, stop). length plans - stop)") auto

declare bps_batch_end_from.simps [simp del]

definition bps_parallel_batch_end :: "bps_write_plan list \<Rightarrow> nat \<Rightarrow> nat \<Rightarrow> nat" where
  "bps_parallel_batch_end plans start byte_limit = bps_batch_end_from plans start byte_limit 0 start"

lemma bps_batch_end_from_ge: "stop \<le> bps_batch_end_from plans start n b stop"
proof (induction plans start n b stop rule: bps_batch_end_from.induct)
  case (1 plans start n b stop)
  then show ?case
    by (subst bps_batch_end_from.simps) (auto simp: Let_def dest: order_trans [OF le_add1])
qed

lemma bps_parallel_batch_end_gt: "start < length plans \<Longrightarrow> start < bps_parallel_batch_end plans start n"
  using bps_batch_end_from_ge [of "Suc start" plans start n]
  unfolding bps_parallel_batch_end_def
  by (subst bps_batch_end_from.simps) (simp add: Let_def Suc_le_eq)

definition prepare_bps_write :: "bytes \<Rightarrow> nat \<Rightarrow> bps_write_plan \<Rightarrow> prepared_write result" where
  "prepare_bps_write source source_len plan =
     and_then
       (case bwp_kind plan of
          BpsLiteral data \<Rightarrow> Inr data
        | SourceRange source_offset len \<Rightarrow>
            let readable = (if source_offset < source_len then min (source_len - source_offset) len else 0)
            in and_then (if 0 < readable then read_exact_at source source_offset readable else Inr []) (\<lambda>bytes.
               Inr (bytes @ replicate (len - readable) 0))) (\<lambda>data.
     Inr \<lparr>pw_offset = bwp_output_offset plan, pw_data = data\<rparr>)"

text \<open>
  The ordered write phase: the output with the cursor of the buffered writer, and the position
  the code tracks.
\<close>

definition apply_prepared_bps_write :: "prepared_write \<Rightarrow> bytes \<times> nat \<times> nat \<Rightarrow> bytes \<times> nat \<times> nat" where
  "apply_prepared_bps_write w st =
     (let (out, at, current_pos) = st
      in if pw_data w = [] then st
         else
           let (at, current_pos) = (if pw_offset w \<noteq> current_pos then (pw_offset w, pw_offset w)
                                    else (at, current_pos))
           in (write_at at (pw_data w) out, at + length (pw_data w), current_pos + length (pw_data w)))"

function bps_run_batches ::
  "bytes \<Rightarrow> nat \<Rightarrow> bps_write_plan list \<Rightarrow> nat \<Rightarrow> nat \<Rightarrow> bytes \<times> nat \<times> nat \<Rightarrow> (bytes \<times> nat \<times> nat) result" where
  "bps_run_batches source source_len plans byte_limit batch_start st =
     (if batch_start < length plans
      then
        let batch_end = bps_parallel_batch_end plans batch_start byte_limit
        in and_then (map_result (prepare_bps_write source source_len)
                       (take (batch_end - batch_start) (drop batch_start plans))) (\<lambda>writes.
           bps_run_batches source source_len plans byte_limit batch_end
             (fold apply_prepared_bps_write writes st))
      else Inr st)"
  by pat_completeness auto
termination
  by (relation "measure (\<lambda>(_, _, plans, _, batch_start, _). length plans - batch_start)")
    (auto dest: bps_parallel_batch_end_gt intro: diff_less_mono2)

declare bps_run_batches.simps [simp del]

definition apply_parallel_bps_writes ::
  "bytes \<Rightarrow> nat \<Rightarrow> bps_write_plan list \<Rightarrow> nat \<Rightarrow> bytes \<Rightarrow> bytes result" where
  "apply_parallel_bps_writes source source_len plans pool out =
     and_then (bps_run_batches source source_len plans (parallel_write_batch_bytes pool) 0 (out, 0, 0))
       (\<lambda>(out, _, _). Inr out)"

section \<open>The handler\<close>

definition patch_contains_target_copy :: "bps_action list \<Rightarrow> bool" where
  "patch_contains_target_copy actions \<longleftrightarrow>
     (\<exists>action \<in> set actions. case action of TargetCopy _ _ \<Rightarrow> True | _ \<Rightarrow> False)"

definition bps_apply_thread_capability :: "bps_action list \<Rightarrow> thread_capability" where
  "bps_apply_thread_capability actions =
     (if patch_contains_target_copy actions then SingleThreaded else Parallel None)"

definition bps_validate_file ::
  "(bytes \<Rightarrow> u32) \<Rightarrow> string \<Rightarrow> stored_file \<Rightarrow> nat \<Rightarrow> u32 \<Rightarrow> bool \<Rightarrow> op_context \<Rightarrow> unit result" where
  "bps_validate_file crc32 side f expected_size expected_checksum validate_checksum ctx =
     (if file_len f \<noteq> expected_size
      then invalid_fmt ''{} size invalid; Expected: {}, Actual: {}'' [Str side, Num expected_size, Num (file_len f)]
      else if \<not> validate_checksum then Inr ()
      else and_then (crc32_path_cached crc32 f ctx) (\<lambda>actual.
           if actual \<noteq> expected_checksum
           then coded ''patch.checksum_mismatch'' ''{} checksum invalid; expected: {}, Actual: {}''
                  [Str side, Hex (unat expected_checksum), Hex (unat actual)]
           else Inr ()))"

definition validate_input_file ::
  "(bytes \<Rightarrow> u32) \<Rightarrow> stored_file \<Rightarrow> nat \<Rightarrow> u32 \<Rightarrow> bool \<Rightarrow> op_context \<Rightarrow> unit result" where
  "validate_input_file crc32 = bps_validate_file crc32 ''Input''"

definition validate_output_file ::
  "(bytes \<Rightarrow> u32) \<Rightarrow> stored_file \<Rightarrow> nat \<Rightarrow> u32 \<Rightarrow> bool \<Rightarrow> op_context \<Rightarrow> unit result" where
  "validate_output_file crc32 = bps_validate_file crc32 ''Output''"

definition bps_apply_actions ::
  "op_context \<Rightarrow> parsed_bps \<Rightarrow> bytes \<Rightarrow> (thread_execution \<times> bytes) result" where
  "bps_apply_actions ctx patch source =
     (let out = set_len (bps_target_size patch) [];
          cap = bps_apply_thread_capability (bps_actions patch);
          has_target_copy = patch_contains_target_copy (bps_actions patch)
      in if can_apply_in_memory_on_apply ctx (bps_source_size patch) (bps_target_size patch)
         then and_then (apply_patch_actions_in_memory patch source (replicate (bps_target_size patch) 0)) (\<lambda>bytes.
              Inr (force_serial (plan_threads ctx cap), write_at 0 bytes out))
         else
           and_then
             (run_with_optional_pool ctx cap (\<not> has_target_copy)
                (\<lambda>pool. and_then (collect_parallel_bps_write_plans patch) (\<lambda>plans. Inr (Some (plans, pool), out)))
                (and_then (apply_patch_actions patch source out) (\<lambda>out. Inr (None, out))))
             (\<lambda>(execution, prepared, out).
           and_then
             (case prepared of
                Some (plans, pool) \<Rightarrow> apply_parallel_bps_writes source (bps_source_size patch) plans pool out
              | None \<Rightarrow> Inr out) (\<lambda>out.
           Inr (if used_parallelism execution \<and> has_target_copy
                then apply_pool_fallback
                       ''BPS apply encountered TargetCopy actions that require sequential output'' execution
                else execution, out))))"

definition bps_apply ::
  "(bytes \<Rightarrow> u32) \<Rightarrow> op_context \<Rightarrow> apply_request \<Rightarrow> (bytes \<times> report) result" where
  "bps_apply crc32 ctx request =
     and_then (require_single_patch_file (ar_patches request) ''BPS'') (\<lambda>patch_file.
     let scopes = patch_check_scopes ctx
     in and_then (parse_bps_file crc32 patch_file (scope_patch_integrity scopes)) (\<lambda>patch.
     and_then (validate_input_file crc32 (ar_input request) (bps_source_size patch) (bps_source_checksum patch)
                 (scope_source scopes) ctx) (\<lambda>_.
     and_then (bps_apply_actions ctx patch (file_bytes (ar_input request))) (\<lambda>(execution, out).
     and_then (validate_output_file crc32 \<lparr>file_path = ar_output request, file_bytes = out\<rparr>
                 (bps_target_size patch) (bps_target_checksum patch) (scope_target scopes) ctx) (\<lambda>_.
     Inr (out, patch_apply_report ''BPS'' (length (bps_actions patch))
                 (scope_source scopes \<and> scope_target scopes) execution))))))"

definition bps_validate :: "(bytes \<Rightarrow> u32) \<Rightarrow> op_context \<Rightarrow> apply_request \<Rightarrow> report result" where
  "bps_validate crc32 ctx request =
     and_then (require_single_patch_file (ar_patches request) ''BPS'') (\<lambda>patch_file.
     let scopes = patch_check_scopes ctx
     in and_then (parse_bps_file crc32 patch_file (scope_patch_integrity scopes)) (\<lambda>patch.
     and_then (validate_input_file crc32 (ar_input request) (bps_source_size patch) (bps_source_checksum patch)
                 (scope_source scopes) ctx) (\<lambda>_.
     Inr (patch_success_report ''BPS'' ''validate''
       [Msg ''validated {} patch source and {} action(s); target checksum deferred to apply''
          [Str ''BPS'', Num (length (bps_actions patch))]] (Some (single_thread_execution ctx))))))"

end
