(* ===== verification/Bps_Create.thy ===== *)
theory Bps_Create
  imports Bps_Apply
begin

text \<open>
  BPS create, \<open>rom-weaver-patches/src/bps.rs\<close>: the memory budget of the suffix index, the
  combined suffix matcher with its growing prefix of the target, the word-wise common prefixes,
  the decision whether a match is worth its encoding, the writer and the main loop.  The suffix
  array comes from the crate \<open>suffix_array\<close>: it is the parameter \<open>sa\<close>.  Failing allocations,
  progress events and cancellation are not modelled.
\<close>

section \<open>Data and limits\<close>

datatype bps_create_mode = ModeSourceRead | ModeTargetRead | ModeSourceCopy | ModeTargetCopy

datatype bps_suffix_index_mode = FastReverse | LowMemory

datatype cmp_ordering = OrdLess | OrdEqual | OrdGreater

record bps_create_match =
  bcm_mode :: bps_create_mode
  bcm_offset :: nat
  bcm_len :: nat

definition bps_create_match_default :: bps_create_match where
  "bps_create_match_default = \<lparr>bcm_mode = ModeTargetRead, bcm_offset = 0, bcm_len = 0\<rparr>"

definition BPS_NO_OFFSET :: nat where
  "BPS_NO_OFFSET = u32_max"

definition BPS_MIN_COPY_LENGTH :: nat where
  "BPS_MIN_COPY_LENGTH = 4"

definition BPS_CREATE_INDEX_TAIL_BYTES :: nat where
  "BPS_CREATE_INDEX_TAIL_BYTES = 256"

definition BPS_CREATE_MEMORY_LIMIT_BYTES :: nat where
  "BPS_CREATE_MEMORY_LIMIT_BYTES = 1073741824"

definition BPS_CREATE_FAST_INDEX_BYTES_PER_SLOT :: nat where
  "BPS_CREATE_FAST_INDEX_BYTES_PER_SLOT = 8"

definition BPS_CREATE_LOW_MEMORY_INDEX_BYTES_PER_SLOT :: nat where
  "BPS_CREATE_LOW_MEMORY_INDEX_BYTES_PER_SLOT = 4"

definition bps_create_max_combined_input_bytes :: "nat \<Rightarrow> nat" where
  "bps_create_max_combined_input_bytes slot_bytes =
     (BPS_CREATE_MEMORY_LIMIT_BYTES - slot_bytes) div (1 + slot_bytes)"

definition BPS_CREATE_MAX_COMBINED_INPUT_BYTES :: nat where
  "BPS_CREATE_MAX_COMBINED_INPUT_BYTES =
     bps_create_max_combined_input_bytes BPS_CREATE_LOW_MEMORY_INDEX_BYTES_PER_SLOT"

definition bps_create_inputs_fit :: "nat \<Rightarrow> nat \<Rightarrow> bool" where
  "bps_create_inputs_fit original_len modified_len =
     (case checked_add_opt original_len modified_len of
        None \<Rightarrow> False
      | Some total_len \<Rightarrow> total_len \<le> BPS_CREATE_MAX_COMBINED_INPUT_BYTES)"

text \<open>The checked operations on \<open>u128\<close>.\<close>

definition u128_checked :: "nat \<Rightarrow> nat option" where
  "u128_checked n = (if n < 2 ^ 128 then Some n else None)"

definition bps_create_estimated_suffix_memory_bytes_for_index :: "nat \<Rightarrow> nat \<Rightarrow> nat \<Rightarrow> nat result" where
  "bps_create_estimated_suffix_memory_bytes_for_index source_len target_len index_bytes_per_slot =
     and_then (ok_or (u128_checked (source_len + target_len)) (invalid ''BPS create input size overflowed'')) (\<lambda>total.
     and_then (ok_or (u128_checked (total + 1)) (invalid ''BPS suffix slot count overflowed'')) (\<lambda>suffix_slots.
     and_then (ok_or (u128_checked (suffix_slots * index_bytes_per_slot))
                 (invalid ''BPS suffix memory estimate overflowed'')) (\<lambda>suffix_indexes.
     ok_or (u128_checked (total + suffix_indexes)) (invalid ''BPS create memory estimate overflowed''))))"

definition bps_create_estimated_suffix_memory_bytes :: "nat \<Rightarrow> nat \<Rightarrow> nat result" where
  "bps_create_estimated_suffix_memory_bytes source_len target_len =
     bps_create_estimated_suffix_memory_bytes_for_index source_len target_len BPS_CREATE_FAST_INDEX_BYTES_PER_SLOT"

definition bps_create_estimated_low_memory_suffix_bytes :: "nat \<Rightarrow> nat \<Rightarrow> nat result" where
  "bps_create_estimated_low_memory_suffix_bytes source_len target_len =
     bps_create_estimated_suffix_memory_bytes_for_index source_len target_len
       BPS_CREATE_LOW_MEMORY_INDEX_BYTES_PER_SLOT"

definition bps_create_suffix_index_mode :: "nat \<Rightarrow> nat \<Rightarrow> bps_suffix_index_mode result" where
  "bps_create_suffix_index_mode source_len target_len =
     and_then (bps_create_estimated_suffix_memory_bytes source_len target_len) (\<lambda>fast_estimated.
     if fast_estimated \<le> BPS_CREATE_MEMORY_LIMIT_BYTES then Inr FastReverse
     else
       and_then (bps_create_estimated_low_memory_suffix_bytes source_len target_len) (\<lambda>low_memory_estimated.
       if low_memory_estimated \<le> BPS_CREATE_MEMORY_LIMIT_BYTES then Inr LowMemory
       else invalid_fmt ''BPS create requires an estimated {} bytes of fast suffix-index memory or {} bytes of lower-memory suffix-index memory; limit is {} bytes, so the original and modified files can total at most {} bytes; use xdelta for larger inputs''
              [Num fast_estimated, Num low_memory_estimated, Num BPS_CREATE_MEMORY_LIMIT_BYTES,
               Num BPS_CREATE_MAX_COMBINED_INPUT_BYTES]))"

section \<open>Input\<close>

text \<open>The target and then the source, in one buffer.\<close>

record bps_create_data =
  bcd_bytes :: bytes
  bcd_target_len :: nat
  bcd_source_len :: nat

definition bcd_target :: "bps_create_data \<Rightarrow> bytes" where
  "bcd_target data = take (bcd_target_len data) (bcd_bytes data)"

definition bcd_source :: "bps_create_data \<Rightarrow> bytes" where
  "bcd_source data = drop (bcd_target_len data) (bcd_bytes data)"

definition bps_create_usize_len :: "nat \<Rightarrow> string \<Rightarrow> nat result" where
  "bps_create_usize_len expected_len label =
     (if expected_len \<ge> BPS_NO_OFFSET
      then invalid_fmt ''BPS create {} file is too large for copy-aware indexing'' [Str label]
      else Inr expected_len)"

definition read_bps_create_data :: "bytes \<Rightarrow> nat \<Rightarrow> bytes \<Rightarrow> nat \<Rightarrow> bps_create_data result" where
  "read_bps_create_data original original_len modified modified_len =
     and_then (bps_create_usize_len original_len ''source'') (\<lambda>src_len.
     and_then (bps_create_usize_len modified_len ''target'') (\<lambda>tgt_len.
     and_then (ok_or (checked_add_opt src_len tgt_len) (invalid ''BPS create combined input size overflowed''))
       (\<lambda>total_len.
     if total_len \<ge> BPS_NO_OFFSET
     then invalid ''BPS create files are too large for copy-aware indexing''
     else
       let bytes = modified
       in if length bytes \<noteq> tgt_len then invalid ''BPS create target size changed during processing''
          else
            let bytes = bytes @ original
            in if length bytes \<noteq> total_len then invalid ''BPS create source size changed during processing''
               else Inr \<lparr>bcd_bytes = bytes, bcd_target_len = tgt_len, bcd_source_len = src_len\<rparr>)))"

section \<open>Common prefixes\<close>

text \<open>Eight bytes as a little-endian \<open>u64\<close>; the callers have checked that they exist.\<close>

definition read_u64_le_unaligned :: "bytes \<Rightarrow> nat \<Rightarrow> nat" where
  "read_u64_le_unaligned bytes offset = from_le (segment bytes offset 8)"

text \<open>\<open>u64::trailing_zeros\<close> of a number that is not zero.\<close>

fun trailing_zeros :: "nat \<Rightarrow> nat" where
  "trailing_zeros n = (if n = 0 \<or> odd n then 0 else Suc (trailing_zeros (n div 2)))"

declare trailing_zeros.simps [simp del]

text \<open>
  The two loops of \<open>common_prefix_len\<close> and \<open>common_prefix_len_limited\<close>: eight bytes at a time
  until a word differs, then byte by byte.
\<close>

function prefix_words :: "bytes \<Rightarrow> nat \<Rightarrow> bytes \<Rightarrow> nat \<Rightarrow> nat \<Rightarrow> nat \<Rightarrow> nat + nat" where
  "prefix_words left left_offset right right_offset limit offset =
     (if offset + 8 \<le> limit
      then let diff = read_u64_le_unaligned left (left_offset + offset)
                        XOR read_u64_le_unaligned right (right_offset + offset)
           in if diff \<noteq> 0 then Inl (offset + trailing_zeros diff div 8)
              else prefix_words left left_offset right right_offset limit (offset + 8)
      else Inr offset)"
  by pat_completeness auto
termination
  by (relation "measure (\<lambda>(_, _, _, _, limit, offset). limit - offset)") auto

declare prefix_words.simps [simp del]

function prefix_bytes :: "bytes \<Rightarrow> nat \<Rightarrow> bytes \<Rightarrow> nat \<Rightarrow> nat \<Rightarrow> nat \<Rightarrow> nat" where
  "prefix_bytes left left_offset right right_offset limit offset =
     (if offset < limit \<and> left ! (left_offset + offset) = right ! (right_offset + offset)
      then prefix_bytes left left_offset right right_offset limit (offset + 1)
      else offset)"
  by pat_completeness auto
termination
  by (relation "measure (\<lambda>(_, _, _, _, limit, offset). limit - offset)") auto

declare prefix_bytes.simps [simp del]

definition prefix_len_within :: "bytes \<Rightarrow> nat \<Rightarrow> bytes \<Rightarrow> nat \<Rightarrow> nat \<Rightarrow> nat" where
  "prefix_len_within left left_offset right right_offset limit =
     (case prefix_words left left_offset right right_offset limit 0 of
        Inl found \<Rightarrow> found
      | Inr offset \<Rightarrow> prefix_bytes left left_offset right right_offset limit offset)"

definition common_prefix_len :: "bytes \<Rightarrow> nat \<Rightarrow> bytes \<Rightarrow> nat \<Rightarrow> nat" where
  "common_prefix_len left left_offset right right_offset =
     (if left_offset \<ge> length left \<or> right_offset \<ge> length right then 0
      else let left = drop left_offset left;
               right = drop right_offset right;
               limit = min (length left) (length right)
           in prefix_len_within left 0 right 0 limit)"

definition common_prefix_len_limited :: "bytes \<Rightarrow> nat \<Rightarrow> nat \<Rightarrow> nat \<Rightarrow> nat" where
  "common_prefix_len_limited bytes left_offset right_offset limit =
     (if left_offset \<ge> length bytes \<or> right_offset \<ge> length bytes \<or> limit = 0 then 0
      else let limit = min (min limit (length bytes - left_offset)) (length bytes - right_offset)
           in prefix_len_within bytes left_offset bytes right_offset limit)"

function run_from :: "bytes \<Rightarrow> nat \<Rightarrow> u8 \<Rightarrow> nat \<Rightarrow> nat" where
  "run_from bytes offset first len =
     (if offset + len < length bytes \<and> bytes ! (offset + len) = first
      then run_from bytes offset first (len + 1) else len)"
  by pat_completeness auto
termination
  by (relation "measure (\<lambda>(bytes, offset, _, len). length bytes - (offset + len))") auto

declare run_from.simps [simp del]

definition repeated_byte_run_len :: "bytes \<Rightarrow> nat \<Rightarrow> nat" where
  "repeated_byte_run_len bytes offset =
     (if offset < length bytes then run_from bytes offset (bytes ! offset) 1 else 0)"

text \<open>
  \<open>usize\<close> subtraction: an underflow is a panic (in a release build it would wrap; the theory
  Bps_Create_Correct shows that it never happens).
\<close>

definition usize_sub :: "nat \<Rightarrow> nat \<Rightarrow> nat result" where
  "usize_sub a b = (if b \<le> a then Inr (a - b) else Err (Panic ''attempt to subtract with overflow''))"

definition cmp_nat :: "nat \<Rightarrow> nat \<Rightarrow> cmp_ordering" where
  "cmp_nat a b = (if a < b then OrdLess else if a = b then OrdEqual else OrdGreater)"

definition compare_bps_suffixes :: "bytes \<Rightarrow> nat \<Rightarrow> nat \<Rightarrow> cmp_ordering result" where
  "compare_bps_suffixes bytes left_offset right_offset =
     (if left_offset = right_offset then Inr OrdEqual
      else
        and_then (usize_sub (length bytes) left_offset) (\<lambda>left_len.
        and_then (usize_sub (length bytes) right_offset) (\<lambda>right_len.
        let limit = min left_len right_len;
            common = common_prefix_len_limited bytes left_offset right_offset limit
        in if common = limit then Inr (cmp_nat left_len right_len)
           else Inr (cmp_nat (unat (bytes ! (left_offset + common))) (unat (bytes ! (right_offset + common)))))))"

section \<open>The combined suffix matcher\<close>

function initial_sorted_from :: "nat \<Rightarrow> nat \<Rightarrow> nat" where
  "initial_sorted_from source_len sorted_len =
     (if sorted_len div 4 > source_len \<and> sorted_len > 1024
      then initial_sorted_from source_len (sorted_len div 4) else sorted_len)"
  by pat_completeness auto
termination
  by (relation "measure snd") auto

declare initial_sorted_from.simps [simp del]

definition initial_bps_sorted_target_len :: "nat \<Rightarrow> nat \<Rightarrow> nat" where
  "initial_bps_sorted_target_len source_len target_len = initial_sorted_from source_len target_len"

text \<open>\<open>checked_mul(4).and_then(checked_add(3)).unwrap_or(target_len).min(target_len)\<close>.\<close>

definition grow_sorted_len :: "nat \<Rightarrow> nat \<Rightarrow> nat" where
  "grow_sorted_len target_len next_len =
     min (case checked_mul_opt next_len 4 of
            None \<Rightarrow> target_len
          | Some value \<Rightarrow> (case checked_add_opt value 3 of None \<Rightarrow> target_len | Some value \<Rightarrow> value)) target_len"

lemma grow_sorted_len_grows: "next_len < target_len \<Longrightarrow> next_len < grow_sorted_len target_len next_len"
  by (auto simp: grow_sorted_len_def checked_mul_opt_def checked_add_opt_def)

lemma grow_sorted_len_le: "grow_sorted_len target_len next_len \<le> target_len"
  by (simp add: grow_sorted_len_def)

function next_bps_sorted_target_len :: "nat \<Rightarrow> nat \<Rightarrow> nat \<Rightarrow> nat" where
  "next_bps_sorted_target_len output_offset next_len target_len =
     (if saturating_add output_offset BPS_CREATE_INDEX_TAIL_BYTES \<ge> next_len \<and> next_len < target_len
      then next_bps_sorted_target_len output_offset (grow_sorted_len target_len next_len) target_len
      else next_len)"
  by pat_completeness auto
termination
  by (relation "measure (\<lambda>(_, next_len, target_len). target_len - next_len)")
    (auto intro: diff_less_mono2 grow_sorted_len_grows)

declare next_bps_sorted_target_len.simps [simp del]

record bps_matcher =
  bsm_data :: bps_create_data
  bsm_index_mode :: bps_suffix_index_mode
  bsm_sorted_target_len :: nat
  bsm_joined :: bytes
  bsm_sorted :: "nat list"
  bsm_reverse :: "nat list"

text \<open>\<open>reverse[position] = rank\<close> for every rank; the index has to be inside.\<close>

definition bps_reverse_entry :: "nat \<times> nat \<Rightarrow> nat list \<Rightarrow> nat list result" where
  "bps_reverse_entry entry reverse =
     (let (rank, position) = entry
      in if rank > u32_max then invalid ''BPS suffix-array rank exceeded u32''
         else if position < length reverse then Inr (reverse[position := rank])
         else Err (Panic ''index out of bounds''))"

definition bps_reverse_index :: "nat list \<Rightarrow> nat list result" where
  "bps_reverse_index ranks =
     fold_result bps_reverse_entry (zip [0..<length ranks] ranks) (replicate (length ranks) 0)"

definition bps_reindex :: "(bytes \<Rightarrow> nat list) \<Rightarrow> nat \<Rightarrow> bps_matcher \<Rightarrow> bps_matcher result" where
  "bps_reindex sa sorted_target_len m =
     (let data = bsm_data m;
          sorted_target_len = min sorted_target_len (bcd_target_len data)
      in and_then (ok_or (checked_add_opt sorted_target_len (bcd_source_len data))
                     (invalid ''BPS suffix input size overflowed'')) (\<lambda>joined_len.
         if joined_len \<ge> u32_max then invalid ''BPS suffix input exceeded 32-bit suffix-array range''
         else
           let joined = (if sorted_target_len = bcd_target_len data then bcd_bytes data
                         else take sorted_target_len (bcd_target data) @ bcd_source data);
               ranks = sa joined
           in and_then (if bsm_index_mode m = FastReverse then bps_reverse_index ranks else Inr []) (\<lambda>reverse.
              Inr (m\<lparr>bsm_sorted_target_len := sorted_target_len, bsm_joined := joined,
                      bsm_sorted := ranks, bsm_reverse := reverse\<rparr>))))"

definition bps_matcher_new ::
  "(bytes \<Rightarrow> nat list) \<Rightarrow> bps_create_data \<Rightarrow> bps_suffix_index_mode \<Rightarrow> bps_matcher result" where
  "bps_matcher_new sa data index_mode =
     bps_reindex sa (initial_bps_sorted_target_len (bcd_source_len data) (bcd_target_len data))
       \<lparr>bsm_data = data, bsm_index_mode = index_mode, bsm_sorted_target_len = 0, bsm_joined = [],
        bsm_sorted = [], bsm_reverse = []\<rparr>"

definition bps_ensure_indexed :: "(bytes \<Rightarrow> nat list) \<Rightarrow> nat \<Rightarrow> bps_matcher \<Rightarrow> bps_matcher result" where
  "bps_ensure_indexed sa output_offset m =
     (if saturating_add output_offset BPS_CREATE_INDEX_TAIL_BYTES < bsm_sorted_target_len m \<or>
         bsm_sorted_target_len m \<ge> bcd_target_len (bsm_data m)
      then Inr m
      else
        let next_len = next_bps_sorted_target_len output_offset (bsm_sorted_target_len m)
                         (bcd_target_len (bsm_data m))
        in if next_len > bsm_sorted_target_len m then bps_reindex sa next_len m else Inr m)"

function find_suffix_rank_from :: "bytes \<Rightarrow> nat list \<Rightarrow> nat \<Rightarrow> nat \<Rightarrow> nat \<Rightarrow> nat result" where
  "find_suffix_rank_from bytes ranks output_offset low high =
     (if low < high
      then
        let mid = low + (high - low) div 2
        in and_then (compare_bps_suffixes bytes (ranks ! mid) output_offset) (\<lambda>cmp.
           case cmp of
             OrdLess \<Rightarrow> find_suffix_rank_from bytes ranks output_offset (mid + 1) high
           | OrdGreater \<Rightarrow> find_suffix_rank_from bytes ranks output_offset low mid
           | OrdEqual \<Rightarrow> Inr mid)
      else invalid ''BPS lower-memory suffix lookup lost the current target suffix'')"
  by pat_completeness auto
termination
  by (relation "measure (\<lambda>(_, _, _, low, high). high - low)") auto

declare find_suffix_rank_from.simps [simp del]

definition find_suffix_rank :: "bps_matcher \<Rightarrow> nat \<Rightarrow> nat result" where
  "find_suffix_rank m output_offset =
     find_suffix_rank_from (bsm_joined m) (bsm_sorted m) output_offset 0 (length (bsm_sorted m))"

definition rank_for_output_offset :: "bps_matcher \<Rightarrow> nat \<Rightarrow> nat result" where
  "rank_for_output_offset m output_offset =
     (case bsm_index_mode m of
        FastReverse \<Rightarrow>
          if output_offset < length (bsm_reverse m) then Inr (bsm_reverse m ! output_offset)
          else Err (Panic ''index out of bounds'')
      | LowMemory \<Rightarrow> find_suffix_rank m output_offset)"

definition is_legal_match_position :: "bps_matcher \<Rightarrow> nat \<Rightarrow> nat \<Rightarrow> bool" where
  "is_legal_match_position m position output_offset \<longleftrightarrow>
     position < output_offset \<or>
     (position \<ge> bsm_sorted_target_len m \<and>
      position < saturating_add (bsm_sorted_target_len m) (bcd_source_len (bsm_data m)))"

text \<open>The direction is \<open>-1\<close> or \<open>1\<close>: the walk leaves the list at one of its ends.\<close>

function nearest_legal_from :: "(nat \<Rightarrow> bool) \<Rightarrow> nat list \<Rightarrow> int \<Rightarrow> int \<Rightarrow> nat option" where
  "nearest_legal_from legal ranks direction cursor =
     (if direction \<noteq> 0 \<and> 0 \<le> cursor \<and> nat cursor < length ranks
      then let position = ranks ! nat cursor
           in if legal position then Some position
              else nearest_legal_from legal ranks direction (cursor + direction)
      else None)"
  by pat_completeness auto
termination
  by (relation "measure (\<lambda>(_, ranks, direction, cursor).
        nat (if direction < 0 then cursor + 1 else int (length ranks) - cursor))") auto

declare nearest_legal_from.simps [simp del]

definition nearest_legal :: "bps_matcher \<Rightarrow> nat \<Rightarrow> int \<Rightarrow> nat \<Rightarrow> nat option" where
  "nearest_legal m rank direction output_offset =
     nearest_legal_from (\<lambda>position. is_legal_match_position m position output_offset)
       (bsm_sorted m) direction (int rank + direction)"

definition bps_match_at :: "bps_matcher \<Rightarrow> nat \<Rightarrow> nat \<Rightarrow> bps_create_match result" where
  "bps_match_at m position output_offset =
     and_then (usize_sub (bsm_sorted_target_len m) output_offset) (\<lambda>target_remaining.
     and_then
       (if position < bsm_sorted_target_len m
        then Inr (ModeTargetCopy, position, bsm_sorted_target_len m - position)
        else
          let source_offset = position - bsm_sorted_target_len m;
              mode = (if source_offset = output_offset then ModeSourceRead else ModeSourceCopy)
          in and_then (usize_sub (bcd_source_len (bsm_data m)) source_offset) (\<lambda>remaining.
             Inr (mode, source_offset, remaining))) (\<lambda>(mode, offset, candidate_remaining).
     let len = common_prefix_len_limited (bsm_joined m) output_offset position
                 (min target_remaining candidate_remaining);
         mode = (if len = 0 then ModeTargetRead else mode)
     in Inr \<lparr>bcm_mode = mode, bcm_offset = offset, bcm_len = len\<rparr>))"

definition bps_better_match ::
  "bps_matcher \<Rightarrow> nat \<Rightarrow> nat \<Rightarrow> bps_create_match \<Rightarrow> bps_create_match result" where
  "bps_better_match m output_offset position best =
     and_then (bps_match_at m position output_offset) (\<lambda>candidate.
     Inr (if bcm_len candidate > bcm_len best then candidate else best))"

definition bps_find :: "bps_matcher \<Rightarrow> nat \<Rightarrow> bps_create_match result" where
  "bps_find m output_offset =
     and_then (rank_for_output_offset m output_offset) (\<lambda>rank.
     let previous = nearest_legal m rank (-1) output_offset;
         next_legal = nearest_legal m rank 1 output_offset
     in fold_result (bps_better_match m output_offset)
          (case_option [] (\<lambda>p. [p]) previous @ case_option [] (\<lambda>p. [p]) next_legal)
          bps_create_match_default)"

section \<open>Encoding\<close>

text \<open>\<open>checked_shl\<close> by less than 64 never fails; bits shifted out are lost.\<close>

definition encode_signed_offset :: "int \<Rightarrow> nat result" where
  "encode_signed_offset delta =
     and_then (if delta < 0
               then ok_or (i128_checked (- delta)) (invalid ''BPS relative offset magnitude overflowed'')
               else Inr delta) (\<lambda>magnitude.
     if nat magnitude > u64_max then invalid ''BPS relative offset exceeded u64''
     else let shifted = nat magnitude * 2 mod 2 ^ 64
          in Inr (shifted OR of_bool (delta < 0)))"

definition encode_action_header :: "nat \<Rightarrow> nat \<Rightarrow> nat result" where
  "encode_action_header len command =
     (if len = 0 then invalid ''BPS cannot encode a zero-length action''
      else let shifted = (len - 1) * 4 mod 2 ^ 64
           in ok_or (checked_add_opt shifted command) (invalid ''BPS action header overflowed''))"

function bps_varint_len :: "nat \<Rightarrow> nat" where
  "bps_varint_len d = (if 128 \<le> d then bps_varint_len (d div 128 - 1) + 1 else 1)"
  by pat_completeness auto
termination
  by (relation "measure id") auto

declare bps_varint_len.simps [simp del]

definition bps_create_copy_match_is_worth :: "nat \<Rightarrow> int \<Rightarrow> bool \<Rightarrow> bool result" where
  "bps_create_copy_match_is_worth len delta has_pending_target_read =
     and_then (encode_signed_offset delta) (\<lambda>offset.
     and_then (ok_or (checked_add_opt 1 (bps_varint_len offset)) (invalid ''BPS match cost overflowed'')) (\<lambda>cost.
     and_then (ok_or (checked_add_opt 1 cost) (invalid ''BPS match threshold overflowed'')) (\<lambda>threshold.
     and_then (ok_or (checked_add_opt threshold (of_bool has_pending_target_read))
                 (invalid ''BPS match threshold overflowed'')) (\<lambda>threshold.
     and_then (ok_or (checked_add_opt threshold (of_bool (len = 1)))
                 (invalid ''BPS match threshold overflowed'')) (\<lambda>threshold.
     Inr (len \<ge> threshold))))))"

definition bps_create_match_is_worth ::
  "bps_create_mode \<Rightarrow> nat \<Rightarrow> nat \<Rightarrow> nat \<Rightarrow> int \<Rightarrow> int \<Rightarrow> nat \<Rightarrow> bool result" where
  "bps_create_match_is_worth mode len offset output_offset source_relative_offset target_relative_offset
      pending_target_read_len =
     (if mode = ModeTargetRead \<or> len = 0 then Inr False
      else case mode of
        ModeSourceRead \<Rightarrow>
          if offset = output_offset
          then
            and_then (ok_or (checked_add_opt 2 (of_bool (pending_target_read_len > 0)))
                        (invalid ''BPS match threshold overflowed'')) (\<lambda>threshold.
            and_then (ok_or (checked_add_opt threshold (of_bool (len = 1)))
                        (invalid ''BPS match threshold overflowed'')) (\<lambda>threshold.
            Inr (len \<ge> threshold)))
          else Inr False
      | ModeSourceCopy \<Rightarrow>
          and_then (ok_or (i128_checked (int offset - source_relative_offset))
                      (invalid ''BPS source offset overflowed'')) (\<lambda>delta.
          bps_create_copy_match_is_worth len delta (pending_target_read_len > 0))
      | ModeTargetCopy \<Rightarrow>
          and_then (ok_or (i128_checked (int offset - target_relative_offset))
                      (invalid ''BPS target offset overflowed'')) (\<lambda>delta.
          bps_create_copy_match_is_worth len delta (pending_target_read_len > 0))
      | ModeTargetRead \<Rightarrow> Inr False)"

section \<open>The writer\<close>

text \<open>The bytes written and the bytes fed to the hasher of the patch.\<close>

record bps_writer =
  bw_output :: bytes
  bw_hashed :: bytes

definition bps_writer_new :: bps_writer where
  "bps_writer_new = \<lparr>bw_output = [], bw_hashed = []\<rparr>"

definition bps_write_bytes :: "bytes \<Rightarrow> bps_writer \<Rightarrow> bps_writer" where
  "bps_write_bytes bytes w = w\<lparr>bw_output := bw_output w @ bytes, bw_hashed := bw_hashed w @ bytes\<rparr>"

definition bps_write_varint :: "nat \<Rightarrow> bps_writer \<Rightarrow> bps_writer" where
  "bps_write_varint n w = bps_write_bytes (encode_varint n) w"

definition write_source_read :: "nat \<Rightarrow> bps_writer \<Rightarrow> bps_writer result" where
  "write_source_read len w = and_then (encode_action_header len 0) (\<lambda>header. Inr (bps_write_varint header w))"

definition write_target_read :: "bytes \<Rightarrow> bps_writer \<Rightarrow> bps_writer result" where
  "write_target_read data w =
     and_then (encode_action_header (length data) 1) (\<lambda>header.
     Inr (bps_write_bytes data (bps_write_varint header w)))"

definition write_source_copy :: "nat \<Rightarrow> nat \<Rightarrow> bps_writer \<times> int \<Rightarrow> (bps_writer \<times> int) result" where
  "write_source_copy len start st =
     (let (w, source_relative_offset) = st
      in and_then (encode_action_header len 2) (\<lambda>header.
         and_then (ok_or (i128_checked (int start - source_relative_offset))
                     (invalid ''BPS source delta overflowed'')) (\<lambda>delta.
         and_then (encode_signed_offset delta) (\<lambda>offset.
         let w = bps_write_varint offset (bps_write_varint header w)
         in and_then (ok_or (checked_add_opt start len) (invalid ''BPS source-copy end overflowed'')) (\<lambda>stop.
            Inr (w, int stop))))))"

definition write_target_copy :: "nat \<Rightarrow> nat \<Rightarrow> bps_writer \<times> int \<Rightarrow> (bps_writer \<times> int) result" where
  "write_target_copy len start st =
     (let (w, target_relative_offset) = st
      in and_then (encode_action_header len 3) (\<lambda>header.
         and_then (ok_or (i128_checked (int start - target_relative_offset))
                     (invalid ''BPS target delta overflowed'')) (\<lambda>delta.
         and_then (encode_signed_offset delta) (\<lambda>offset.
         let w = bps_write_varint offset (bps_write_varint header w)
         in and_then (ok_or (checked_add_opt start len) (invalid ''BPS target-copy end overflowed'')) (\<lambda>stop.
            Inr (w, int stop))))))"

definition bps_writer_finish :: "(bytes \<Rightarrow> u32) \<Rightarrow> u32 \<Rightarrow> u32 \<Rightarrow> bps_writer \<Rightarrow> bytes" where
  "bps_writer_finish crc32 source_checksum target_checksum w =
     (let w = bps_write_bytes (le_bytes 4 (unat source_checksum)) w;
          w = bps_write_bytes (le_bytes 4 (unat target_checksum)) w
      in bw_output w @ le_bytes 4 (unat (crc32 (bw_hashed w))))"

section \<open>The main loop\<close>

record bps_create_state =
  bcs_matcher :: bps_matcher
  bcs_writer :: bps_writer
  bcs_read_start :: nat
  bcs_read_len :: nat
  bcs_source_relative :: int
  bcs_target_relative :: int
  bcs_output_offset :: nat
  bcs_action_count :: nat

text \<open>\<open>BpsTargetReadBuffer::add\<close> and \<open>flush\<close>.\<close>

definition target_read_add :: "nat \<Rightarrow> nat \<Rightarrow> bps_create_state \<Rightarrow> bps_create_state result" where
  "target_read_add offset len st =
     (let start = (if bcs_read_len st = 0 then offset else bcs_read_start st)
      in and_then (ok_or (checked_add_opt (bcs_read_len st) len) (invalid ''BPS target-read length overflowed''))
           (\<lambda>read_len. Inr (st\<lparr>bcs_read_start := start, bcs_read_len := read_len\<rparr>)))"

definition target_read_flush :: "bytes \<Rightarrow> bps_create_state \<Rightarrow> bps_create_state result" where
  "target_read_flush tgt st =
     (if bcs_read_len st = 0 then Inr st
      else
        and_then (ok_or (checked_add_opt (bcs_read_start st) (bcs_read_len st))
                    (invalid ''BPS target-read range overflowed'')) (\<lambda>stop.
        if stop > length tgt then Err (Panic ''range end index out of range for slice'')
        else
          and_then (write_target_read (segment tgt (bcs_read_start st) (stop - bcs_read_start st)) (bcs_writer st))
            (\<lambda>w. Inr (st\<lparr>bcs_writer := w, bcs_action_count := saturating_add (bcs_action_count st) 1,
                         bcs_read_len := 0\<rparr>))))"

definition bps_source_copy_out :: "nat \<Rightarrow> nat \<Rightarrow> bps_create_state \<Rightarrow> bps_create_state result" where
  "bps_source_copy_out len start st =
     and_then (write_source_copy len start (bcs_writer st, bcs_source_relative st)) (\<lambda>(w, rel).
     Inr (st\<lparr>bcs_writer := w, bcs_source_relative := rel,
             bcs_action_count := saturating_add (bcs_action_count st) 1\<rparr>))"

definition bps_target_copy_out :: "nat \<Rightarrow> nat \<Rightarrow> bps_create_state \<Rightarrow> bps_create_state result" where
  "bps_target_copy_out len start st =
     and_then (write_target_copy len start (bcs_writer st, bcs_target_relative st)) (\<lambda>(w, rel).
     Inr (st\<lparr>bcs_writer := w, bcs_target_relative := rel,
             bcs_action_count := saturating_add (bcs_action_count st) 1\<rparr>))"

definition bps_advance_output :: "nat \<Rightarrow> bps_create_state \<Rightarrow> bps_create_state result" where
  "bps_advance_output n st =
     and_then (ok_or (checked_add_opt (bcs_output_offset st) n) (invalid ''BPS output offset overflowed''))
       (\<lambda>output_offset. Inr (st\<lparr>bcs_output_offset := output_offset\<rparr>))"

text \<open>The longest candidate: the bytes at the same place of the source, or an indexed match.\<close>

definition bps_best_match ::
  "bytes \<Rightarrow> bytes \<Rightarrow> bps_matcher \<Rightarrow> nat \<Rightarrow> bps_create_match result" where
  "bps_best_match source tgt m output_offset =
     (let best = bps_create_match_default;
          source_read_len = common_prefix_len source output_offset tgt output_offset;
          best = (if source_read_len > bcm_len best
                  then \<lparr>bcm_mode = ModeSourceRead, bcm_offset = output_offset, bcm_len = source_read_len\<rparr>
                  else best)
      in and_then (bps_find m output_offset) (\<lambda>candidate.
         Inr (if bcm_len candidate > bcm_len best then candidate else best)))"

text \<open>A run of one byte: its first byte is literal, the rest copies it.\<close>

definition bps_emit_run :: "bytes \<Rightarrow> nat \<Rightarrow> bps_create_state \<Rightarrow> bps_create_state result" where
  "bps_emit_run tgt rle_len st =
     (let output_offset = bcs_output_offset st
      in and_then (target_read_add output_offset 1 st) (\<lambda>st.
         and_then (target_read_flush tgt st) (\<lambda>st.
         and_then (bps_target_copy_out (rle_len - 1) output_offset st) (bps_advance_output rle_len))))"

text \<open>A match that is not worth its encoding gives way to one literal byte.\<close>

definition bps_worthy_match :: "bps_create_match \<Rightarrow> bps_create_state \<Rightarrow> bps_create_match result" where
  "bps_worthy_match best st =
     and_then
       (if bcm_len best = 0 then Inr False
        else bps_create_match_is_worth (bcm_mode best) (bcm_len best) (bcm_offset best) (bcs_output_offset st)
               (bcs_source_relative st) (bcs_target_relative st) (bcs_read_len st)) (\<lambda>worth.
     Inr (if \<not> worth then best\<lparr>bcm_mode := ModeTargetRead, bcm_len := 1\<rparr> else best))"

definition bps_emit_match :: "bytes \<Rightarrow> bps_create_match \<Rightarrow> bps_create_state \<Rightarrow> bps_create_state result" where
  "bps_emit_match tgt best st =
     and_then (if bcm_mode best \<noteq> ModeTargetRead then target_read_flush tgt st else Inr st) (\<lambda>st.
     and_then
       (case bcm_mode best of
          ModeSourceRead \<Rightarrow>
            and_then (write_source_read (bcm_len best) (bcs_writer st)) (\<lambda>w.
            Inr (st\<lparr>bcs_writer := w, bcs_action_count := saturating_add (bcs_action_count st) 1\<rparr>))
        | ModeTargetRead \<Rightarrow> target_read_add (bcs_output_offset st) (bcm_len best) st
        | ModeSourceCopy \<Rightarrow> bps_source_copy_out (bcm_len best) (bcm_offset best) st
        | ModeTargetCopy \<Rightarrow> bps_target_copy_out (bcm_len best) (bcm_offset best) st)
       (bps_advance_output (bcm_len best)))"

text \<open>One turn of the loop.\<close>

definition bps_create_step ::
  "(bytes \<Rightarrow> nat list) \<Rightarrow> bytes \<Rightarrow> bytes \<Rightarrow> bps_create_state \<Rightarrow> bps_create_state result" where
  "bps_create_step sa source tgt st =
     (let output_offset = bcs_output_offset st
      in and_then (bps_ensure_indexed sa output_offset (bcs_matcher st)) (\<lambda>m.
         let st = st\<lparr>bcs_matcher := m\<rparr>
         in and_then (bps_best_match source tgt m output_offset) (\<lambda>best.
            let rle_len = repeated_byte_run_len tgt output_offset
            in if rle_len > BPS_MIN_COPY_LENGTH \<and> rle_len - 1 > bcm_len best
               then bps_emit_run tgt rle_len st
               else and_then (bps_worthy_match best st) (\<lambda>best. bps_emit_match tgt best st))))"

lemma bps_outs_offset:
  "target_read_add off n st = Inr st' \<Longrightarrow> bcs_output_offset st' = bcs_output_offset st"
  "target_read_flush tgt st = Inr st' \<Longrightarrow> bcs_output_offset st' = bcs_output_offset st"
  "bps_source_copy_out n off st = Inr st' \<Longrightarrow> bcs_output_offset st' = bcs_output_offset st"
  "bps_target_copy_out n off st = Inr st' \<Longrightarrow> bcs_output_offset st' = bcs_output_offset st"
  by (auto simp: target_read_add_def target_read_flush_def bps_source_copy_out_def bps_target_copy_out_def
      Let_def result_iff split: if_splits)

lemma bps_advance_output_Ok:
  "bps_advance_output n st = Inr st' \<longleftrightarrow>
    bcs_output_offset st + n \<le> u64_max \<and> st' = st\<lparr>bcs_output_offset := bcs_output_offset st + n\<rparr>"
  by (auto simp: bps_advance_output_def checked_add_opt_def result_iff ok_or_def)

lemma bps_emit_run_offset:
  "bps_emit_run tgt n st = Inr st' \<Longrightarrow> bcs_output_offset st' = bcs_output_offset st + n"
  by (auto simp: bps_emit_run_def Let_def result_iff bps_advance_output_Ok dest!: bps_outs_offset)

lemma bps_emit_match_offset:
  "bps_emit_match tgt best st = Inr st' \<Longrightarrow> bcs_output_offset st' = bcs_output_offset st + bcm_len best"
  by (cases "bcm_mode best")
    (auto simp: bps_emit_match_def result_iff bps_advance_output_Ok dest!: bps_outs_offset)

lemma bps_worthy_match_len: "bps_worthy_match best st = Inr best' \<Longrightarrow> 0 < bcm_len best'"
  by (auto simp: bps_worthy_match_def result_iff split: if_splits)

lemma bps_create_step_advances:
  assumes "bps_create_step sa source tgt st = Inr st'"
  shows "bcs_output_offset st < bcs_output_offset st'"
  using assms bps_worthy_match_len
  by (fastforce simp: bps_create_step_def Let_def result_iff
      dest: bps_emit_run_offset bps_emit_match_offset split: if_splits)

function bps_create_loop ::
  "(bytes \<Rightarrow> nat list) \<Rightarrow> bytes \<Rightarrow> bytes \<Rightarrow> bps_create_state \<Rightarrow> bps_create_state result" where
  "bps_create_loop sa source tgt st =
     (if bcs_output_offset st < length tgt
      then and_then (bps_create_step sa source tgt st) (bps_create_loop sa source tgt)
      else Inr st)"
  by pat_completeness auto
termination
  by (relation "measure (\<lambda>(_, _, tgt, st). length tgt - bcs_output_offset st)")
    (auto dest: bps_create_step_advances intro: diff_less_mono2)

declare bps_create_loop.simps [simp del]

record created_bps =
  cbps_bytes :: bytes
  cbps_action_count :: nat

definition can_apply_in_memory :: "op_context \<Rightarrow> nat \<Rightarrow> nat \<Rightarrow> bool" where
  "can_apply_in_memory ctx a b \<longleftrightarrow> a \<le> ctx_env_limit ctx \<and> b \<le> ctx_env_limit ctx"

definition create_bps_patch_in_memory ::
  "(bytes \<Rightarrow> u32) \<Rightarrow> (bytes \<Rightarrow> nat list) \<Rightarrow> op_context \<Rightarrow> bytes \<Rightarrow> bytes \<Rightarrow> created_bps result" where
  "create_bps_patch_in_memory crc32 sa ctx original modified =
     (let original_len = length original; modified_len = length modified
      in if \<not> can_apply_in_memory ctx original_len modified_len
         then invalid_fmt ''BPS create requires copy-aware in-memory encoding; source and target must each be at most {} bytes''
                [Num 268435456]
         else
           and_then (bps_create_suffix_index_mode original_len modified_len) (\<lambda>suffix_index_mode.
           and_then (read_bps_create_data original original_len modified modified_len) (\<lambda>create_data.
           let tgt = bcd_target create_data;
               source = bcd_source create_data;
               source_checksum = crc32 source;
               target_checksum = crc32 tgt
           in and_then (bps_matcher_new sa create_data suffix_index_mode) (\<lambda>matcher.
              let writer = bps_write_bytes BPS_MAGIC bps_writer_new;
                  writer = bps_write_varint original_len writer;
                  writer = bps_write_varint modified_len writer;
                  writer = bps_write_varint 0 writer
              in and_then
                   (bps_create_loop sa source tgt
                      \<lparr>bcs_matcher = matcher, bcs_writer = writer, bcs_read_start = 0, bcs_read_len = 0,
                       bcs_source_relative = 0, bcs_target_relative = 0, bcs_output_offset = 0,
                       bcs_action_count = 0\<rparr>) (\<lambda>st.
                 and_then (target_read_flush tgt st) (\<lambda>st.
                 Inr \<lparr>cbps_bytes = bps_writer_finish crc32 source_checksum target_checksum (bcs_writer st),
                      cbps_action_count = bcs_action_count st\<rparr>))))))"

definition bps_create ::
  "(bytes \<Rightarrow> u32) \<Rightarrow> (bytes \<Rightarrow> nat list) \<Rightarrow> op_context \<Rightarrow> create_request \<Rightarrow> (bytes \<times> report) result" where
  "bps_create crc32 sa ctx request =
     (let execution = plan_threads ctx SingleThreaded
      in and_then (create_bps_patch_in_memory crc32 sa ctx (file_bytes (cr_original request))
                     (file_bytes (cr_modified request))) (\<lambda>created.
         Inr (cbps_bytes created, patch_create_report ''BPS'' (cbps_action_count created) execution)))"

end
