(* ===== verification/Bps_Prefix.thy ===== *)
theory Bps_Prefix
  imports Bps_Create
begin

text \<open>
  The word-wise loops of BPS create compute what they should: the lowest set bit of the
  exclusive or of two little-endian words lies in the first byte where they differ, so
  \<open>common_prefix_len\<close> is the length of the longest common prefix, and the comparison of
  suffixes is the lexicographic order.
\<close>

section \<open>Bits of a little-endian number\<close>

lemma bit_add_256:
  fixes u n :: nat
  assumes "u < 256"
  shows "bit (u + 256 * n) i = (if i < 8 then bit u i else bit n (i - 8))"
proof (cases "i < 8")
  case True
  then obtain k where k: "8 = i + Suc k" using less_iff_Suc_add by fastforce
  have "256 = (2::nat) ^ 8" by simp
  also have "\<dots> = 2 ^ i * (2 * 2 ^ k)" by (simp only: k power_add power_Suc)
  finally have "u + 256 * n = u + 2 ^ i * (2 * 2 ^ k * n)" by (simp add: mult.assoc)
  moreover have "(u + 2 ^ i * m) div 2 ^ i = m + u div 2 ^ i" for m :: nat
    by simp
  ultimately have "(u + 256 * n) div 2 ^ i = 2 * (2 ^ k * n) + u div 2 ^ i" by (simp only: mult.assoc)
  with True show ?thesis by (simp only: bit_iff_odd even_add even_mult_iff) simp
next
  case False
  then obtain k where k: "i = 8 + k" using le_Suc_ex by (metis not_less)
  have "(u + 256 * n) div 2 ^ i = (u + 256 * n) div 256 div 2 ^ k"
    by (simp add: k power_add div_mult2_eq)
  also have "(u + 256 * n) div 256 = n" using assms by simp
  finally show ?thesis by (simp add: bit_iff_odd k)
qed

lemma bit_from_le: "bit (from_le bs) i \<longleftrightarrow> i div 8 < length bs \<and> bit (unat (bs ! (i div 8))) (i mod 8)"
proof (induction bs arbitrary: i)
  case Nil
  then show ?case by simp
next
  case (Cons b bs)
  show ?case
  proof (cases "i < 8")
    case True
    then show ?thesis by (simp add: bit_add_256 [OF unat_u8_lt])
  next
    case False
    then obtain k where k: "i = 8 + k" using le_Suc_ex by (metis not_less)
    then have "i div 8 = Suc (k div 8)" "i mod 8 = k mod 8" by simp_all
    then show ?thesis by (simp add: bit_add_256 [OF unat_u8_lt] Cons.IH k)
  qed
qed

lemma trailing_zeros_bit:
  "n \<noteq> 0 \<Longrightarrow> bit n (trailing_zeros n) \<and> (\<forall>i < trailing_zeros n. \<not> bit n i)"
proof (induction n rule: trailing_zeros.induct)
  case (1 n)
  show ?case
  proof (cases "odd n")
    case True
    then show ?thesis by (simp add: trailing_zeros.simps bit_0)
  next
    case False
    with "1.prems" have "n div 2 \<noteq> 0" by auto
    with "1.IH" "1.prems" False have IH: "bit (n div 2) (trailing_zeros (n div 2))"
      "\<forall>i < trailing_zeros (n div 2). \<not> bit (n div 2) i" by auto
    have tz: "trailing_zeros n = Suc (trailing_zeros (n div 2))"
      using False "1.prems" by (subst trailing_zeros.simps) simp
    have "\<not> bit n i" if "i < trailing_zeros n" for i
      using that IH(2) False by (cases i) (auto simp: tz bit_0 bit_Suc)
    with IH(1) show ?thesis by (simp add: tz bit_Suc)
  qed
qed

lemma byte_eqI: "(\<And>i. i < 8 \<Longrightarrow> bit (unat a) i \<longleftrightarrow> bit (unat b) i) \<Longrightarrow> a = b" for a b :: u8
  by (rule bit_word_eqI) (simp add: bit_unsigned_iff)

lemma from_le_xor_byte:
  assumes "length xs = length ys"
  shows "from_le xs XOR from_le ys = 0 \<longleftrightarrow> xs = ys"
proof
  assume eq: "from_le xs XOR from_le ys = 0"
  have "from_le xs = from_le ys"
  proof (rule bit_eqI)
    fix i
    have "\<not> bit (from_le xs XOR from_le ys) i" by (simp add: eq)
    then show "bit (from_le xs) i \<longleftrightarrow> bit (from_le ys) i" by (auto simp: bit_xor_iff)
  qed
  then show "xs = ys" by (rule from_le_inj [OF assms])
qed simp

text \<open>The lowest differing bit is in the first differing byte.\<close>

lemma trailing_zeros_first_difference:
  assumes len: "length xs = length ys" and diff: "from_le xs XOR from_le ys \<noteq> 0"
  defines "j \<equiv> trailing_zeros (from_le xs XOR from_le ys) div 8"
  shows "j < length xs" and "xs ! j \<noteq> ys ! j" and "i < j \<Longrightarrow> xs ! i = ys ! i"
proof -
  define t where "t = trailing_zeros (from_le xs XOR from_le ys)"
  have t: "bit (from_le xs) t \<noteq> bit (from_le ys) t" "\<And>i. i < t \<Longrightarrow> bit (from_le xs) i = bit (from_le ys) i"
    using trailing_zeros_bit [OF diff] by (auto simp: t_def bit_xor_iff)
  have j: "j = t div 8" by (simp add: j_def t_def)
  from t(1) show "j < length xs" using len by (auto simp: j bit_from_le)
  from t(1) show "xs ! j \<noteq> ys ! j" using len by (auto simp: j bit_from_le)
  show "xs ! i = ys ! i" if i: "i < j"
  proof (rule byte_eqI)
    fix k :: nat
    assume k: "k < 8"
    have "8 * i + k < t" using i k by (simp add: j)
    from t(2) [OF this] k show "bit (unat (xs ! i)) k \<longleftrightarrow> bit (unat (ys ! i)) k"
      using \<open>j < length xs\<close> i len by (simp add: bit_from_le)
  qed
qed

section \<open>Longest common prefixes\<close>

text \<open>The reference: the length of the longest common prefix of two lists.\<close>

fun lcp_len :: "bytes \<Rightarrow> bytes \<Rightarrow> nat" where
  "lcp_len (x # xs) (y # ys) = (if x = y then Suc (lcp_len xs ys) else 0)"
| "lcp_len _ _ = 0"

lemma lcp_len_unique:
  "n \<le> length xs \<Longrightarrow> n \<le> length ys \<Longrightarrow> take n xs = take n ys \<Longrightarrow>
    (n < length xs \<Longrightarrow> n < length ys \<Longrightarrow> xs ! n \<noteq> ys ! n) \<Longrightarrow> lcp_len xs ys = n"
proof (induction xs ys arbitrary: n rule: lcp_len.induct)
  case (1 x xs y ys)
  then show ?case by (cases n) auto
qed auto

text \<open>What the loops leave: agreement up to the result, and a difference there.\<close>

definition agree_upto :: "bytes \<Rightarrow> nat \<Rightarrow> bytes \<Rightarrow> nat \<Rightarrow> nat \<Rightarrow> bool" where
  "agree_upto l lo r ro n \<longleftrightarrow> (\<forall>i < n. l ! (lo + i) = r ! (ro + i))"

lemma prefix_bytes_spec:
  "agree_upto l lo r ro off \<Longrightarrow> off \<le> limit \<Longrightarrow>
    (let n = prefix_bytes l lo r ro limit off
     in n \<le> limit \<and> agree_upto l lo r ro n \<and> (n < limit \<longrightarrow> l ! (lo + n) \<noteq> r ! (ro + n)))"
proof (induction l lo r ro limit off rule: prefix_bytes.induct)
  case (1 l lo r ro limit off)
  show ?case
  proof (cases "off < limit \<and> l ! (lo + off) = r ! (ro + off)")
    case True
    then have "agree_upto l lo r ro (off + 1)" using "1.prems" by (auto simp: agree_upto_def less_Suc_eq)
    moreover have "prefix_bytes l lo r ro limit off = prefix_bytes l lo r ro limit (off + 1)"
      using True by (subst prefix_bytes.simps) simp
    ultimately show ?thesis using "1.IH" True by simp
  next
    case False
    then have "prefix_bytes l lo r ro limit off = off" by (subst prefix_bytes.simps) auto
    with False "1.prems" show ?thesis by auto
  qed
qed

lemma prefix_words_spec:
  assumes "agree_upto l lo r ro off" and "off \<le> limit"
    and "lo + limit \<le> length l" and "ro + limit \<le> length r"
  shows "case prefix_words l lo r ro limit off of
      Inl n \<Rightarrow> n < limit \<and> agree_upto l lo r ro n \<and> l ! (lo + n) \<noteq> r ! (ro + n)
    | Inr n \<Rightarrow> n \<le> limit \<and> agree_upto l lo r ro n"
  using assms
proof (induction l lo r ro limit off rule: prefix_words.induct)
  case (1 l lo r ro limit off)
  show ?case
  proof (cases "off + 8 \<le> limit")
    case False
    then have "prefix_words l lo r ro limit off = Inr off" by (subst prefix_words.simps) simp
    with "1.prems" show ?thesis by simp
  next
    case True
    define xs where "xs = segment l (lo + off) 8"
    define ys where "ys = segment r (ro + off) 8"
    have len: "length xs = 8" "length ys = 8" using True "1.prems"(3,4) by (auto simp: xs_def ys_def)
    have xs: "xs ! i = l ! (lo + (off + i))" and ys: "ys ! i = r ! (ro + (off + i))" if "i < 8" for i
      using that True "1.prems"(3,4) by (simp_all add: xs_def ys_def nth_segment add.assoc)
    define d where "d = from_le xs XOR from_le ys"
    have step: "prefix_words l lo r ro limit off =
        (if d \<noteq> 0 then Inl (off + trailing_zeros d div 8) else prefix_words l lo r ro limit (off + 8))"
      using True by (subst prefix_words.simps) (simp add: read_u64_le_unaligned_def d_def xs_def ys_def Let_def)
    show ?thesis
    proof (cases "d = 0")
      case True': True
      then have "xs = ys" using from_le_xor_byte [of xs ys] len by (simp add: d_def)
      have "agree_upto l lo r ro (off + 8)"
        unfolding agree_upto_def
      proof (intro allI impI)
        fix i
        assume i: "i < off + 8"
        show "l ! (lo + i) = r ! (ro + i)"
        proof (cases "i < off")
          case True
          with "1.prems"(1) show ?thesis by (simp add: agree_upto_def)
        next
          case False
          then obtain j where "i = off + j" using le_Suc_ex not_less by blast
          with xs [of j] ys [of j] \<open>xs = ys\<close> i show ?thesis by simp
        qed
      qed
      with "1.IH" [OF True refl] True True' "1.prems" show ?thesis
        by (simp add: step d_def xs_def ys_def read_u64_le_unaligned_def)
    next
      case False
      let ?j = "trailing_zeros d div 8"
      have j: "?j < 8" "xs ! ?j \<noteq> ys ! ?j" "\<And>i. i < ?j \<Longrightarrow> xs ! i = ys ! i"
        using trailing_zeros_first_difference [of xs ys] False len by (simp_all add: d_def)
      have "agree_upto l lo r ro (off + ?j)"
        unfolding agree_upto_def
      proof (intro allI impI)
        fix i
        assume i: "i < off + ?j"
        show "l ! (lo + i) = r ! (ro + i)"
        proof (cases "i < off")
          case True
          with "1.prems"(1) show ?thesis by (simp add: agree_upto_def)
        next
          case False
          then obtain k where k: "i = off + k" using le_Suc_ex not_less by blast
          then have "k < ?j" using i by simp
          with j(1) j(3) [of k] xs [of k] ys [of k] k show ?thesis by simp
        qed
      qed
      moreover have "l ! (lo + (off + ?j)) \<noteq> r ! (ro + (off + ?j))" using xs [OF j(1)] ys [OF j(1)] j(2) by simp
      moreover have "off + ?j < limit" using j(1) True by simp
      ultimately show ?thesis using False by (simp add: step)
    qed
  qed
qed

lemma prefix_len_within_spec:
  assumes "lo + limit \<le> length l" and "ro + limit \<le> length r"
  defines "n \<equiv> prefix_len_within l lo r ro limit"
  shows "n \<le> limit" and "agree_upto l lo r ro n" and "n < limit \<Longrightarrow> l ! (lo + n) \<noteq> r ! (ro + n)"
proof -
  have base: "agree_upto l lo r ro 0" by (simp add: agree_upto_def)
  have "n \<le> limit \<and> agree_upto l lo r ro n \<and> (n < limit \<longrightarrow> l ! (lo + n) \<noteq> r ! (ro + n))"
  proof (cases "prefix_words l lo r ro limit 0")
    case (Inl k)
    with prefix_words_spec [OF base _ assms(1,2)] show ?thesis
      by (simp add: n_def prefix_len_within_def)
  next
    case (Inr k)
    with prefix_words_spec [OF base _ assms(1,2)] have "agree_upto l lo r ro k" "k \<le> limit" by simp_all
    from prefix_bytes_spec [OF this] Inr show ?thesis
      by (simp add: n_def prefix_len_within_def Let_def)
  qed
  then show "n \<le> limit" and "agree_upto l lo r ro n" and "n < limit \<Longrightarrow> l ! (lo + n) \<noteq> r ! (ro + n)"
    by auto
qed

lemma agree_upto_segment:
  "lo + n \<le> length l \<Longrightarrow> ro + n \<le> length r \<Longrightarrow>
    agree_upto l lo r ro n \<longleftrightarrow> segment l lo n = segment r ro n"
proof
  assume "lo + n \<le> length l" "ro + n \<le> length r" "agree_upto l lo r ro n"
  then show "segment l lo n = segment r ro n"
    by (intro nth_equalityI) (auto simp: nth_segment agree_upto_def)
next
  assume len: "lo + n \<le> length l" "ro + n \<le> length r" and eq: "segment l lo n = segment r ro n"
  show "agree_upto l lo r ro n"
    unfolding agree_upto_def
  proof (intro allI impI)
    fix i
    assume "i < n"
    then show "l ! (lo + i) = r ! (ro + i)"
      using arg_cong [OF eq, of "\<lambda>s. s ! i"] len by (simp add: nth_segment)
  qed
qed

lemma common_prefix_len_spec:
  fixes l r :: bytes and lo ro :: nat
  defines "n \<equiv> common_prefix_len l lo r ro"
  shows "n \<le> length l - lo" and "n \<le> length r - ro" and "agree_upto l lo r ro n"
proof -
  have "n \<le> length l - lo \<and> n \<le> length r - ro \<and> agree_upto l lo r ro n"
  proof (cases "length l \<le> lo \<or> length r \<le> ro")
    case True
    then show ?thesis by (auto simp: n_def common_prefix_len_def agree_upto_def)
  next
    case False
    let ?l = "drop lo l" and ?r = "drop ro r"
    let ?limit = "min (length ?l) (length ?r)"
    have n: "n = prefix_len_within ?l 0 ?r 0 ?limit" using False by (simp add: n_def common_prefix_len_def Let_def)
    have "n \<le> ?limit" and agree: "agree_upto ?l 0 ?r 0 n"
      using prefix_len_within_spec [of 0 ?limit ?l 0 ?r] by (simp_all add: n)
    then show ?thesis using False by (simp add: agree_upto_def)
  qed
  then show "n \<le> length l - lo" and "n \<le> length r - ro" and "agree_upto l lo r ro n" by auto
qed

lemma common_prefix_len_lcp: "common_prefix_len l lo r ro = lcp_len (drop lo l) (drop ro r)"
proof (cases "length l \<le> lo \<or> length r \<le> ro")
  case True
  then show ?thesis by (cases "drop ro r") (auto simp: common_prefix_len_def)
next
  case False
  let ?l = "drop lo l" and ?r = "drop ro r"
  let ?n = "prefix_len_within ?l 0 ?r 0 (min (length ?l) (length ?r))"
  note spec = prefix_len_within_spec [of 0 "min (length ?l) (length ?r)" ?l 0 ?r]
  have "take ?n ?l = take ?n ?r"
    using spec(1,2) agree_upto_segment [of 0 ?n ?l 0 ?r] by (simp add: segment_def)
  then have "lcp_len ?l ?r = ?n"
    using spec(1,3) by (intro lcp_len_unique) auto
  then show ?thesis using False by (simp add: common_prefix_len_def Let_def)
qed

lemma lcp_len_ge: "k \<le> length xs \<Longrightarrow> k \<le> length ys \<Longrightarrow> take k xs = take k ys \<Longrightarrow> k \<le> lcp_len xs ys"
proof (induction xs ys arbitrary: k rule: lcp_len.induct)
  case (1 x xs y ys)
  then show ?case by (cases k) auto
qed auto

lemma lcp_len_le: "lcp_len xs ys \<le> length xs" "lcp_len xs ys \<le> length ys"
  by (induction xs ys rule: lcp_len.induct) auto

lemma lcp_len_limited:
  assumes "n \<le> limit" and "n \<le> length xs" and "n \<le> length ys" and "take n xs = take n ys"
    and "n < limit \<Longrightarrow> n < length xs \<Longrightarrow> n < length ys \<Longrightarrow> xs ! n \<noteq> ys ! n"
  shows "min limit (lcp_len xs ys) = n"
proof (cases "n < limit")
  case True
  with assms have "lcp_len xs ys = n" by (intro lcp_len_unique) auto
  with assms(1) show ?thesis by simp
next
  case False
  with assms(1) lcp_len_ge [OF assms(2-4)] show ?thesis by simp
qed

lemma common_prefix_len_limited_lcp:
  "common_prefix_len_limited bs lo ro limit = min limit (lcp_len (drop lo bs) (drop ro bs))"
proof (cases "length bs \<le> lo \<or> length bs \<le> ro \<or> limit = 0")
  case True
  then show ?thesis by (cases "drop ro bs") (auto simp: common_prefix_len_limited_def)
next
  case False
  define M where "M = min (min limit (length bs - lo)) (length bs - ro)"
  define n where "n = prefix_len_within bs lo bs ro M"
  have fits: "lo + M \<le> length bs" "ro + M \<le> length bs" "M \<le> limit" using False by (auto simp: M_def)
  have n: "n \<le> M" "agree_upto bs lo bs ro n" "n < M \<Longrightarrow> bs ! (lo + n) \<noteq> bs ! (ro + n)"
    using prefix_len_within_spec [OF fits(1,2)] by (simp_all add: n_def)
  have "take n (drop lo bs) = take n (drop ro bs)"
    using agree_upto_segment [of lo n bs ro bs] n(1,2) fits by (simp add: segment_def)
  moreover have "drop lo bs ! n \<noteq> drop ro bs ! n"
    if "n < limit" "n < length (drop lo bs)" "n < length (drop ro bs)"
    using that n(3) by (simp add: M_def)
  ultimately have "min limit (lcp_len (drop lo bs) (drop ro bs)) = n"
    using n(1) fits by (intro lcp_len_limited) auto
  then show ?thesis using False
    by (simp add: common_prefix_len_limited_def Let_def M_def [symmetric] n_def [symmetric])
qed

end
