(* ===== verification/Bps_Matcher.thy ===== *)
theory Bps_Matcher
  imports Bps_Prefix "HOL-Library.List_Lexorder"
begin

text \<open>
  The combined suffix matcher of BPS create: whatever the suffix array holds, a match it returns
  is a real match; and with a suffix array as the crate documents it, every lookup of the
  current output offset succeeds, by the reverse index and by binary search alike.
\<close>

section \<open>Comparing suffixes\<close>

definition list_cmp :: "bytes \<Rightarrow> bytes \<Rightarrow> cmp_ordering" where
  "list_cmp xs ys = (if xs < ys then OrdLess else if xs = ys then OrdEqual else OrdGreater)"

lemma list_cmp_lcp:
  "list_cmp xs ys =
     (if lcp_len xs ys = min (length xs) (length ys) then cmp_nat (length xs) (length ys)
      else cmp_nat (unat (xs ! lcp_len xs ys)) (unat (ys ! lcp_len xs ys)))"
proof (induction xs ys rule: lcp_len.induct, goal_cases)
  case (1 x xs y ys)
  show ?case
  proof (cases "x = y")
    case True
    then have "list_cmp (x # xs) (y # ys) = list_cmp xs ys" by (simp add: list_cmp_def)
    with 1 True show ?thesis by (simp add: cmp_nat_def)
  next
    case False
    then show ?thesis by (auto simp: list_cmp_def cmp_nat_def word_less_nat_alt word_unat_eq_iff)
  qed
next
  case (2 ys)
  then show ?case by (cases ys) (simp_all add: list_cmp_def cmp_nat_def)
next
  case (3 xs)
  then show ?case by (cases xs) (simp_all add: list_cmp_def cmp_nat_def)
qed

lemma compare_bps_suffixes_cmp:
  assumes "l \<le> length bs" and "r \<le> length bs"
  shows "compare_bps_suffixes bs l r = Inr (list_cmp (drop l bs) (drop r bs))"
proof (cases "l = r")
  case True
  then show ?thesis by (simp add: compare_bps_suffixes_def list_cmp_def)
next
  case False
  let ?xs = "drop l bs" and ?ys = "drop r bs"
  let ?limit = "min (length bs - l) (length bs - r)"
  have common: "common_prefix_len_limited bs l r ?limit = lcp_len ?xs ?ys"
    using lcp_len_le [of ?xs ?ys] by (simp add: common_prefix_len_limited_lcp)
  have inside: "lcp_len ?xs ?ys < ?limit" if "lcp_len ?xs ?ys \<noteq> ?limit"
    using that lcp_len_le [of ?xs ?ys] by (auto simp: min_def split: if_splits)
  show ?thesis
    using False assms inside
    by (simp add: compare_bps_suffixes_def usize_sub_def Let_def common list_cmp_lcp [of ?xs ?ys])
qed

section \<open>Suffix arrays\<close>

text \<open>
  The contract of the crate: all suffixes, the empty one included, in lexicographic order.
\<close>

definition is_suffix_array :: "bytes \<Rightarrow> nat list \<Rightarrow> bool" where
  "is_suffix_array bs ranks \<longleftrightarrow>
     set ranks = {0..length bs} \<and> sorted_wrt (\<lambda>i j. drop i bs < drop j bs) ranks"

lemma sorted_wrt_irrefl_distinct: "sorted_wrt P xs \<Longrightarrow> (\<And>x. \<not> P x x) \<Longrightarrow> distinct xs"
  by (induction xs) auto

lemma is_suffix_array_distinct: "is_suffix_array bs ranks \<Longrightarrow> distinct ranks"
  unfolding is_suffix_array_def by (blast intro: sorted_wrt_irrefl_distinct less_irrefl)

lemma is_suffix_array_length: "is_suffix_array bs ranks \<Longrightarrow> length ranks = Suc (length bs)"
  using is_suffix_array_distinct [of bs ranks] by (auto simp: is_suffix_array_def dest!: distinct_card)

text \<open>Sorting the suffixes is a suffix array: the contract can be met.\<close>

definition sort_suffixes :: "bytes \<Rightarrow> nat list" where
  "sort_suffixes bs = sort_key (\<lambda>i. drop i bs) [0..<Suc (length bs)]"

lemma sort_suffixes_ok: "is_suffix_array bs (sort_suffixes bs)"
proof -
  have inj: "inj_on (\<lambda>i. drop i bs) {0..length bs}"
  proof (rule inj_onI)
    fix i j
    assume "i \<in> {0..length bs}" "j \<in> {0..length bs}" "drop i bs = drop j bs"
    from arg_cong [OF this(3), of length] this(1,2) show "i = j" by auto
  qed
  have set: "set (sort_suffixes bs) = {0..length bs}" by (auto simp: sort_suffixes_def)
  have "sorted_wrt (\<le>) (map (\<lambda>i. drop i bs) (sort_suffixes bs))"
    using sorted_sort_key [of "\<lambda>i. drop i bs"] by (simp add: sort_suffixes_def)
  moreover have "distinct (map (\<lambda>i. drop i bs) (sort_suffixes bs))"
    using inj by (simp add: distinct_map set) (simp add: sort_suffixes_def)
  ultimately have "sorted_wrt (<) (map (\<lambda>i. drop i bs) (sort_suffixes bs))"
    by (simp only: strict_sorted_iff)
  then show ?thesis by (simp add: is_suffix_array_def set sorted_wrt_map)
qed

lemma find_suffix_rank_from_ok:
  assumes ranks: "is_suffix_array bs ranks" and k: "k < length ranks" "ranks ! k = off"
    and "low \<le> k" and "k < high" and "high \<le> length ranks"
  shows "find_suffix_rank_from bs ranks off low high = Inr k"
  using assms(4-6)
proof (induction "high - low" arbitrary: low high rule: less_induct)
  case less
  define mid where "mid = low + (high - low) div 2"
  have mid: "low \<le> mid" "mid < high" using less.prems by (auto simp: mid_def)
  have le: "ranks ! mid \<le> length bs" "off \<le> length bs"
    using ranks k mid less.prems(3) by (auto simp: is_suffix_array_def dest!: nth_mem)
  have order: "drop (ranks ! i) bs < drop (ranks ! j) bs" if "i < j" "j < length ranks" for i j
    using ranks that by (auto simp: is_suffix_array_def sorted_wrt_iff_nth_less)
  have step: "find_suffix_rank_from bs ranks off low high =
      (case list_cmp (drop (ranks ! mid) bs) (drop off bs) of
         OrdLess \<Rightarrow> find_suffix_rank_from bs ranks off (mid + 1) high
       | OrdGreater \<Rightarrow> find_suffix_rank_from bs ranks off low mid
       | OrdEqual \<Rightarrow> Inr mid)"
    using less.prems compare_bps_suffixes_cmp [OF le]
    by (subst find_suffix_rank_from.simps) (simp add: mid_def [symmetric] Let_def split: cmp_ordering.splits)
  consider "mid < k" | "mid = k" | "k < mid" by linarith
  then show ?case
  proof cases
    case 1
    with order [of mid k] k have "list_cmp (drop (ranks ! mid) bs) (drop off bs) = OrdLess"
      by (simp add: list_cmp_def)
    with 1 less.hyps [of high "mid + 1"] less.prems mid show ?thesis by (simp add: step)
  next
    case 2
    with k show ?thesis by (simp add: step list_cmp_def)
  next
    case 3
    with order [of k mid] k mid less.prems have "drop off bs < drop (ranks ! mid) bs" by simp
    then have "list_cmp (drop (ranks ! mid) bs) (drop off bs) = OrdGreater"
      by (auto simp: list_cmp_def)
    with 3 less.hyps [of mid low] less.prems mid show ?thesis by (simp add: step)
  qed
qed

lemma bps_reverse_index_ok:
  assumes "distinct ranks" and "\<forall>p \<in> set ranks. p < length ranks" and "length ranks \<le> u32_max"
  shows "\<exists>reverse. bps_reverse_index ranks = Inr reverse \<and> length reverse = length ranks \<and>
    (\<forall>k < length ranks. reverse ! (ranks ! k) = k)"
proof -
  have "\<exists>reverse. fold_result bps_reverse_entry (zip [0..<n] (take n ranks)) (replicate (length ranks) 0) = Inr reverse \<and>
      length reverse = length ranks \<and> (\<forall>k < n. reverse ! (ranks ! k) = k)" if "n \<le> length ranks" for n
    using that
  proof (induction n)
    case (Suc n)
    then obtain rv where rv: "fold_result bps_reverse_entry (zip [0..<n] (take n ranks)) (replicate (length ranks) 0) = Inr rv"
      "length rv = length ranks" "\<forall>k < n. rv ! (ranks ! k) = k" by auto
    have zip: "zip [0..<Suc n] (take (Suc n) ranks) = zip [0..<n] (take n ranks) @ [(n, ranks ! n)]"
      using Suc.prems by (simp add: take_Suc_conv_app_nth)
    have inside: "ranks ! n < length ranks" using assms(2) Suc.prems by simp
    have entry: "bps_reverse_entry (n, ranks ! n) rv = Inr (rv[ranks ! n := n])"
      using inside rv(2) assms(3) Suc.prems by (simp add: bps_reverse_entry_def)
    have "(rv[ranks ! n := n]) ! (ranks ! k) = k" if "k < Suc n" for k
    proof (cases "k = n")
      case True
      then show ?thesis using inside rv(2) by simp
    next
      case False
      then have "ranks ! k \<noteq> ranks ! n"
        using that Suc.prems assms(1) by (simp add: nth_eq_iff_index_eq)
      then show ?thesis using rv(3) that False by simp
    qed
    with rv entry show ?case
      unfolding zip by (intro exI [of _ "rv[ranks ! n := n]"]) (simp add: fold_result_append)
  qed simp
  from this [of "length ranks"] show ?thesis by (simp add: bps_reverse_index_def)
qed

section \<open>The matcher\<close>

definition bps_data_of :: "bytes \<Rightarrow> bytes \<Rightarrow> bps_create_data" where
  "bps_data_of source tgt =
     \<lparr>bcd_bytes = tgt @ source, bcd_target_len = length tgt, bcd_source_len = length source\<rparr>"

lemma bps_data_parts [simp]:
  "bcd_target (bps_data_of source tgt) = tgt" "bcd_source (bps_data_of source tgt) = source"
  "bcd_bytes (bps_data_of source tgt) = tgt @ source" "bcd_target_len (bps_data_of source tgt) = length tgt"
  "bcd_source_len (bps_data_of source tgt) = length source"
  by (simp_all add: bps_data_of_def bcd_target_def bcd_source_def)

text \<open>The index holds a prefix of the target and the whole source.\<close>

definition bps_matcher_wf :: "(bytes \<Rightarrow> nat list) \<Rightarrow> bytes \<Rightarrow> bytes \<Rightarrow> bps_matcher \<Rightarrow> bool" where
  "bps_matcher_wf sa source tgt m \<longleftrightarrow>
     bsm_data m = bps_data_of source tgt \<and> bsm_sorted_target_len m \<le> length tgt \<and>
     bsm_joined m = take (bsm_sorted_target_len m) tgt @ source \<and> bsm_sorted m = sa (bsm_joined m) \<and>
     length (bsm_joined m) < u32_max \<and>
     (bsm_index_mode m = FastReverse \<longrightarrow> bps_reverse_index (bsm_sorted m) = Inr (bsm_reverse m))"

lemma bps_reindex_wf:
  assumes "bps_reindex sa n m = Inr m'" and "bsm_data m = bps_data_of source tgt"
  shows "bps_matcher_wf sa source tgt m'" and "bsm_sorted_target_len m' = min n (length tgt)"
    and "bsm_index_mode m' = bsm_index_mode m"
proof -
  let ?n = "min n (length tgt)"
  have joined: "(if ?n = length tgt then tgt @ source else take ?n tgt @ source) = take ?n tgt @ source"
    by auto
  from assms obtain reverse where
    lim: "?n + length source < u32_max" and
    rev: "(if bsm_index_mode m = FastReverse then bps_reverse_index (sa (take ?n tgt @ source)) else Inr []) = Inr reverse"
    and m': "m' = m\<lparr>bsm_sorted_target_len := ?n, bsm_joined := take ?n tgt @ source,
      bsm_sorted := sa (take ?n tgt @ source), bsm_reverse := reverse\<rparr>"
    by (auto simp: bps_reindex_def Let_def result_iff joined ok_or_def checked_add_opt_def
        split: if_splits option.splits)
  then show "bps_matcher_wf sa source tgt m'" and "bsm_sorted_target_len m' = ?n"
    and "bsm_index_mode m' = bsm_index_mode m"
    using assms(2) by (auto simp: bps_matcher_wf_def split: if_splits)
qed

lemma bps_reindex_ok:
  assumes "bsm_data m = bps_data_of source tgt" and "length tgt + length source < u32_max"
    and "\<forall>bs. length bs < u32_max \<longrightarrow> is_suffix_array bs (sa bs)"
  shows "\<exists>m'. bps_reindex sa n m = Inr m'"
proof -
  let ?n = "min n (length tgt)"
  let ?joined = "if ?n = length tgt then tgt @ source else take ?n tgt @ source"
  have len: "length ?joined = ?n + length source" by simp
  have small: "?n + length source < u32_max" using assms(2) by simp
  then have sa: "is_suffix_array ?joined (sa ?joined)" using assms(3) len by metis
  have "length (sa ?joined) = Suc (length ?joined)" by (rule is_suffix_array_length [OF sa])
  moreover have "\<forall>p \<in> set (sa ?joined). p < Suc (length ?joined)" using sa by (auto simp: is_suffix_array_def)
  ultimately obtain reverse where "bps_reverse_index (sa ?joined) = Inr reverse"
    using bps_reverse_index_ok [OF is_suffix_array_distinct [OF sa]] small len by (metis Suc_leI)
  moreover have "checked_add_opt ?n (length source) = Some (?n + length source)"
    using small by (simp add: checked_add_opt_def u32_max_def u64_max_def)
  ultimately show ?thesis
    unfolding bps_reindex_def Let_def assms(1) bps_data_parts
    using small by (simp split: if_splits)
qed

lemma next_bps_sorted_target_len_covers:
  assumes "off < target_len" and "n \<le> target_len" and "target_len \<le> u64_max"
  shows "off < next_bps_sorted_target_len off n target_len \<and> next_bps_sorted_target_len off n target_len \<le> target_len"
  using assms
proof (induction off n target_len rule: next_bps_sorted_target_len.induct)
  case (1 off n target_len)
  show ?case
  proof (cases "n \<le> saturating_add off BPS_CREATE_INDEX_TAIL_BYTES \<and> n < target_len")
    case True
    with "1.IH" "1.prems" grow_sorted_len_le [of target_len n] show ?thesis
      by (subst (1 2) next_bps_sorted_target_len.simps) simp
  next
    case False
    have "off \<le> saturating_add off BPS_CREATE_INDEX_TAIL_BYTES"
      using "1.prems" by (simp add: saturating_add_def)
    with False "1.prems" show ?thesis
      by (subst (1 2) next_bps_sorted_target_len.simps) auto
  qed
qed

lemma bps_ensure_indexed_wf:
  assumes "bps_ensure_indexed sa off m = Inr m'" and wf: "bps_matcher_wf sa source tgt m"
    and "off < length tgt" and "length tgt \<le> u64_max"
  shows "bps_matcher_wf sa source tgt m'" and "off < bsm_sorted_target_len m'"
proof -
  have data: "bsm_data m = bps_data_of source tgt" and le: "bsm_sorted_target_len m \<le> length tgt"
    using wf by (auto simp: bps_matcher_wf_def)
  define n where "n = next_bps_sorted_target_len off (bsm_sorted_target_len m) (length tgt)"
  have covers: "off < n" "n \<le> length tgt"
    using next_bps_sorted_target_len_covers [OF assms(3) le assms(4)] by (simp_all add: n_def)
  have off: "off \<le> saturating_add off BPS_CREATE_INDEX_TAIL_BYTES"
    using assms(3,4) by (simp add: saturating_add_def)
  note indexed = assms(1) [unfolded bps_ensure_indexed_def data Let_def bps_data_parts, folded n_def]
  consider "m' = m" "off < bsm_sorted_target_len m" | "bps_reindex sa n m = Inr m'"
  proof (cases "saturating_add off BPS_CREATE_INDEX_TAIL_BYTES < bsm_sorted_target_len m \<or>
      bsm_sorted_target_len m \<ge> length tgt")
    case True
    moreover from True have "off < bsm_sorted_target_len m" using off assms(3) by linarith
    ultimately show ?thesis using indexed that(1) by simp
  next
    case False
    then show ?thesis
      using indexed that covers by (cases "bsm_sorted_target_len m < n") auto
  qed
  then have "bps_matcher_wf sa source tgt m' \<and> off < bsm_sorted_target_len m'"
  proof cases
    case 1
    with wf show ?thesis by simp
  next
    case 2
    from bps_reindex_wf [OF 2 data] covers show ?thesis by simp
  qed
  then show "bps_matcher_wf sa source tgt m'" and "off < bsm_sorted_target_len m'" by auto
qed

lemma bps_ensure_indexed_ok:
  assumes "bps_matcher_wf sa source tgt m" and "length tgt + length source < u32_max"
    and "\<forall>bs. length bs < u32_max \<longrightarrow> is_suffix_array bs (sa bs)"
  shows "\<exists>m'. bps_ensure_indexed sa off m = Inr m'"
  using assms bps_reindex_ok [of m source tgt sa]
  by (auto simp: bps_ensure_indexed_def Let_def bps_matcher_wf_def)

section \<open>Matches are real\<close>

fun bps_match_ok :: "bytes \<Rightarrow> bytes \<Rightarrow> nat \<Rightarrow> bps_create_match \<Rightarrow> bool" where
  "bps_match_ok source tgt off c \<longleftrightarrow>
     off + bcm_len c \<le> length tgt \<and>
     (case bcm_mode c of
        ModeTargetRead \<Rightarrow> True
      | ModeSourceRead \<Rightarrow> bcm_offset c = off \<and> off + bcm_len c \<le> length source \<and>
          segment source off (bcm_len c) = segment tgt off (bcm_len c)
      | ModeSourceCopy \<Rightarrow> bcm_offset c + bcm_len c \<le> length source \<and>
          segment source (bcm_offset c) (bcm_len c) = segment tgt off (bcm_len c)
      | ModeTargetCopy \<Rightarrow> bcm_offset c < off \<and>
          segment tgt (bcm_offset c) (bcm_len c) = segment tgt off (bcm_len c))"

declare bps_match_ok.simps [simp del]

lemma lcp_len_take: "k \<le> lcp_len xs ys \<Longrightarrow> take k xs = take k ys"
proof (induction xs ys arbitrary: k rule: lcp_len.induct)
  case (1 x xs y ys)
  then show ?case by (cases k) (auto split: if_splits)
qed auto

lemma bps_match_at_ok:
  assumes wf: "bps_matcher_wf sa source tgt m" and off: "off \<le> bsm_sorted_target_len m"
    and legal: "is_legal_match_position m position off"
  shows "\<exists>c. bps_match_at m position off = Inr c \<and> bps_match_ok source tgt off c"
proof -
  define n where "n = bsm_sorted_target_len m"
  have joined: "bsm_joined m = take n tgt @ source" and n: "n \<le> length tgt"
    and src: "bcd_source_len (bsm_data m) = length source"
    using wf by (auto simp: bps_matcher_wf_def n_def)
  have seg: "segment (bsm_joined m) off k = segment (bsm_joined m) position k"
    if "k = common_prefix_len_limited (bsm_joined m) off position limit" for k limit
    using that lcp_len_take [of k "drop off (bsm_joined m)" "drop position (bsm_joined m)"]
    by (simp add: common_prefix_len_limited_lcp segment_def)
  have le: "common_prefix_len_limited (bsm_joined m) off position limit \<le> limit" for limit
    by (simp add: common_prefix_len_limited_lcp)
  have tgt: "segment (bsm_joined m) o' k = segment tgt o' k" if "o' + k \<le> n" for o' k
    using that n by (simp add: joined segment_def drop_take min_absorb1)
  have off_n: "off \<le> n" using off by (simp add: n_def)
  show ?thesis
  proof (cases "position < n")
    case True
    then have "position < off" using legal by (auto simp: is_legal_match_position_def n_def)
    define k where "k = common_prefix_len_limited (bsm_joined m) off position (min (n - off) (n - position))"
    have k: "k \<le> n - off" "k \<le> n - position" using le [of "min (n - off) (n - position)"] by (simp_all add: k_def)
    have "bps_match_at m position off =
        Inr \<lparr>bcm_mode = (if k = 0 then ModeTargetRead else ModeTargetCopy), bcm_offset = position, bcm_len = k\<rparr>"
      using True off_n by (simp add: bps_match_at_def usize_sub_def Let_def n_def [symmetric] k_def)
    moreover have "segment tgt position k = segment tgt off k"
      using seg [OF k_def] tgt [of off k] tgt [of position k] k off_n True by simp
    ultimately show ?thesis using k off_n n \<open>position < off\<close> by (auto simp: bps_match_ok.simps)
  next
    case False
    then have inside: "position - n < length source"
      using legal off_n src by (auto simp: is_legal_match_position_def n_def saturating_add_def)
    define start where "start = position - n"
    define k where "k = common_prefix_len_limited (bsm_joined m) off position (min (n - off) (length source - start))"
    have k: "k \<le> n - off" "k \<le> length source - start"
      using le [of "min (n - off) (length source - start)"] by (simp_all add: k_def)
    have at: "bps_match_at m position off =
        Inr \<lparr>bcm_mode = (if k = 0 then ModeTargetRead else if start = off then ModeSourceRead else ModeSourceCopy),
             bcm_offset = start, bcm_len = k\<rparr>"
      using False off_n inside
      by (simp add: bps_match_at_def usize_sub_def Let_def n_def [symmetric] src start_def k_def)
    have "segment (bsm_joined m) position k = segment source start k"
      using False n by (simp add: joined segment_def start_def min_absorb2)
    then have "segment source start k = segment tgt off k"
      using seg [OF k_def] tgt [of off k] k off_n by simp
    with at k off_n n inside show ?thesis by (auto simp: bps_match_ok.simps start_def)
  qed
qed

lemma nearest_legal_from_legal: "nearest_legal_from legal ranks d c = Some p \<Longrightarrow> legal p"
proof (induction legal ranks d c rule: nearest_legal_from.induct)
  case (1 legal ranks d c)
  from "1.prems" show ?case
    by (subst (asm) nearest_legal_from.simps) (auto simp: Let_def split: if_splits intro: "1.IH")
qed

lemma bps_better_match_ok:
  assumes "bps_matcher_wf sa source tgt m" and "off \<le> bsm_sorted_target_len m"
    and "is_legal_match_position m position off" and "bps_match_ok source tgt off best"
  shows "\<exists>c. bps_better_match m off position best = Inr c \<and> bps_match_ok source tgt off c"
  using bps_match_at_ok [OF assms(1-3)] assms(4) by (auto simp: bps_better_match_def)

lemma bps_find_ok:
  assumes wf: "bps_matcher_wf sa source tgt m" and off: "off \<le> bsm_sorted_target_len m"
    and rank: "rank_for_output_offset m off = Inr rank"
  shows "\<exists>c. bps_find m off = Inr c \<and> bps_match_ok source tgt off c"
proof -
  define legal where "legal = (\<lambda>position. is_legal_match_position m position off)"
  have "off \<le> length tgt" using wf off by (auto simp: bps_matcher_wf_def)
  then have start: "bps_match_ok source tgt off bps_create_match_default"
    by (simp add: bps_match_ok.simps bps_create_match_default_def)
  have step: "\<exists>c. fold_result (bps_better_match m off) ps best = Inr c \<and> bps_match_ok source tgt off c"
    if "\<forall>p \<in> set ps. legal p" "bps_match_ok source tgt off best" for ps best
    using that
  proof (induction ps arbitrary: best)
    case (Cons p ps)
    then obtain c where "bps_better_match m off p best = Inr c" "bps_match_ok source tgt off c"
      using bps_better_match_ok [OF wf off, of p best] by (auto simp: legal_def)
    with Cons show ?case by simp
  qed simp
  have "\<forall>p \<in> set (case_option [] (\<lambda>p. [p]) (nearest_legal m rank (- 1) off) @
      case_option [] (\<lambda>p. [p]) (nearest_legal m rank 1 off)). legal p"
    by (auto simp: nearest_legal_def legal_def [symmetric] split: option.splits dest: nearest_legal_from_legal [OF sym])
  from step [OF this start] rank show ?thesis by (simp add: bps_find_def Let_def)
qed

lemma rank_for_output_offset_ok:
  assumes wf: "bps_matcher_wf sa source tgt m" and off: "off < bsm_sorted_target_len m"
    and sa: "\<forall>bs. length bs < u32_max \<longrightarrow> is_suffix_array bs (sa bs)"
  shows "\<exists>rank. rank_for_output_offset m off = Inr rank \<and> bsm_sorted m ! rank = off"
proof -
  let ?ranks = "bsm_sorted m" and ?bs = "bsm_joined m"
  have ranks: "is_suffix_array ?bs ?ranks" and len: "length ?bs < u32_max"
    using wf sa by (auto simp: bps_matcher_wf_def)
  have "off \<le> length ?bs" using wf off by (auto simp: bps_matcher_wf_def)
  then have "off \<in> set ?ranks" using ranks by (simp add: is_suffix_array_def)
  then obtain k where k: "k < length ?ranks" "?ranks ! k = off" by (auto simp: in_set_conv_nth)
  show ?thesis
  proof (cases "bsm_index_mode m")
    case LowMemory
    with find_suffix_rank_from_ok [OF ranks k, of 0 "length ?ranks"] k show ?thesis
      by (simp add: rank_for_output_offset_def find_suffix_rank_def)
  next
    case FastReverse
    have "\<forall>p \<in> set ?ranks. p < length ?ranks"
      using ranks is_suffix_array_length [OF ranks] by (auto simp: is_suffix_array_def)
    moreover have "length ?ranks \<le> u32_max" using is_suffix_array_length [OF ranks] len by simp
    ultimately have rv: "length (bsm_reverse m) = length ?ranks" "\<forall>k < length ?ranks. bsm_reverse m ! (?ranks ! k) = k"
      using bps_reverse_index_ok [OF is_suffix_array_distinct [OF ranks]] wf FastReverse
      by (auto simp: bps_matcher_wf_def)
    have "off < length ?ranks" using is_suffix_array_length [OF ranks] \<open>off \<le> length ?bs\<close> by simp
    with rv k FastReverse show ?thesis by (auto simp: rank_for_output_offset_def)
  qed
qed

lemma bps_best_match_ok:
  assumes wf: "bps_matcher_wf sa source tgt m" and off: "off \<le> bsm_sorted_target_len m"
    and best: "bps_best_match source tgt m off = Inr c"
  shows "bps_match_ok source tgt off c"
proof -
  let ?n = "common_prefix_len source off tgt off"
  have len: "off \<le> length tgt" using wf off by (auto simp: bps_matcher_wf_def)
  note spec = common_prefix_len_spec [of source off tgt off]
  have "bps_match_ok source tgt off \<lparr>bcm_mode = ModeSourceRead, bcm_offset = off, bcm_len = ?n\<rparr>" if "0 < ?n"
  proof -
    have "off + ?n \<le> length source" "off + ?n \<le> length tgt" using spec(1,2) that by linarith+
    with spec(3) agree_upto_segment [of off ?n source off tgt] show ?thesis by (simp add: bps_match_ok.simps)
  qed
  moreover have "bps_match_ok source tgt off bps_create_match_default"
    using len by (simp add: bps_match_ok.simps bps_create_match_default_def)
  moreover from best obtain d rank where "bps_find m off = Inr d" "rank_for_output_offset m off = Inr rank"
    by (auto simp: bps_best_match_def bps_find_def Let_def result_iff)
  moreover from this bps_find_ok [OF wf off] have "bps_match_ok source tgt off d" by auto
  ultimately show ?thesis using best by (auto simp: bps_best_match_def Let_def split: if_splits)
qed

end
