(* ===== verification/Bps_Machine.thy ===== *)
theory Bps_Machine
  imports Bps_Apply
begin

text \<open>
  The abstract machine of BPS: a step relation on the bytes produced so far and the two copy
  cursors, copying target bytes one at a time as the format is specified.  A patch the parser
  accepts always runs on a source of the declared size.
\<close>

section \<open>Copying from what is being written\<close>

fun copy_bytes :: "bytes \<Rightarrow> nat \<Rightarrow> nat \<Rightarrow> bytes" where
  "copy_bytes out pos 0 = out"
| "copy_bytes out pos (Suc n) = copy_bytes (out @ [byte_at out pos]) (Suc pos) n"

lemma length_copy_bytes [simp]: "length (copy_bytes out pos n) = length out + n"
  by (induction n arbitrary: out pos) auto

lemma copy_bytes_add: "copy_bytes out pos (m + n) = copy_bytes (copy_bytes out pos m) (pos + m) n"
  by (induction m arbitrary: out pos) auto

lemma copy_bytes_segment: "pos + n \<le> length out \<Longrightarrow> copy_bytes out pos n = out @ segment out pos n"
proof (induction n arbitrary: out pos)
  case (Suc n)
  then have IH: "copy_bytes (out @ [out ! pos]) (Suc pos) n = (out @ [out ! pos]) @ segment (out @ [out ! pos]) (Suc pos) n"
    by simp
  have "segment (out @ [out ! pos]) (Suc pos) n = segment out (Suc pos) n"
    using Suc.prems by (simp add: segment_def)
  moreover have "out ! pos # segment out (Suc pos) n = segment out pos (Suc n)"
    using Suc.prems by (simp add: segment_def Cons_nth_drop_Suc [symmetric])
  ultimately show ?case using IH Suc.prems by simp
qed simp

lemma byte_at_copy_prefix: "i < length out \<Longrightarrow> byte_at (copy_bytes out pos n) i = byte_at out i"
proof (induction n arbitrary: out pos)
  case (Suc n)
  then show ?case using Suc.IH [of "out @ [byte_at out pos]" "Suc pos"] by (simp add: nth_append)
qed simp

lemma byte_at_snoc: "length f = n \<Longrightarrow> byte_at (f @ [b]) n = b"
  by (auto simp: byte_at_def nth_append)

text \<open>The copied bytes repeat the distance between the two positions.\<close>

lemma byte_at_copy_bytes:
  assumes "pos < length out" and "i < n"
  shows "byte_at (copy_bytes out pos n) (length out + i) = byte_at out (pos + i mod (length out - pos))"
  using assms(2)
proof (induction i rule: less_induct)
  case (less i)
  let ?p = "length out - pos"
  have p: "0 < ?p" using assms(1) by simp
  have "copy_bytes out pos n = copy_bytes (copy_bytes out pos i) (pos + i) (Suc (n - Suc i))"
    using less.prems copy_bytes_add [of out pos i "Suc (n - Suc i)"] by simp
  also have "\<dots> = copy_bytes (copy_bytes out pos i @ [byte_at (copy_bytes out pos i) (pos + i)]) (Suc (pos + i)) (n - Suc i)"
    by simp
  finally have "byte_at (copy_bytes out pos n) (length out + i) = byte_at (copy_bytes out pos i) (pos + i)"
    by (simp add: byte_at_copy_prefix byte_at_snoc del: byte_at_lt)
  also have "\<dots> = byte_at out (pos + i mod ?p)"
  proof (cases "i < ?p")
    case True
    then have "pos + i < length out" using assms(1) by linarith
    from byte_at_copy_prefix [OF this] True show ?thesis by simp
  next
    case False
    then obtain j where j: "i = ?p + j" using le_Suc_ex not_less by blast
    then have "pos + i = length out + j" using assms(1) by simp
    moreover have "byte_at (copy_bytes out pos i) (length out + j) = byte_at (copy_bytes out pos n) (length out + j)"
    proof -
      have "copy_bytes out pos n = copy_bytes (copy_bytes out pos i) (pos + i) (n - i)"
        using less.prems copy_bytes_add [of out pos i "n - i"] by simp
      moreover have "length out + j < length (copy_bytes out pos i)" using j p by simp
      ultimately show ?thesis by (simp add: byte_at_copy_prefix del: byte_at_lt)
    qed
    moreover have "byte_at (copy_bytes out pos n) (length out + j) = byte_at out (pos + j mod ?p)"
      using less.IH [of j] less.prems j p by simp
    moreover have "i mod ?p = j mod ?p" using j by simp
    ultimately show ?thesis by simp
  qed
  finally show ?case .
qed

section \<open>The machine\<close>

record bps_machine =
  bpm_out :: bytes
  bpm_source :: int
  bpm_target :: int

inductive bps_step :: "bytes \<Rightarrow> bps_action \<Rightarrow> bps_machine \<Rightarrow> bps_machine \<Rightarrow> bool" for source where
  source_read: "0 < n \<Longrightarrow> length (bpm_out m) + n \<le> length source \<Longrightarrow>
    bps_step source (SourceRead n) m
      (m\<lparr>bpm_out := bpm_out m @ segment source (length (bpm_out m)) n\<rparr>)"
| target_read: "d \<noteq> [] \<Longrightarrow> bps_step source (TargetRead d) m (m\<lparr>bpm_out := bpm_out m @ d\<rparr>)"
| source_copy: "0 < n \<Longrightarrow> bpm_source m + d = int start \<Longrightarrow> start + n \<le> length source \<Longrightarrow>
    bps_step source (SourceCopy n d) m
      (m\<lparr>bpm_out := bpm_out m @ segment source start n, bpm_source := int (start + n)\<rparr>)"
| target_copy: "0 < n \<Longrightarrow> bpm_target m + d = int start \<Longrightarrow> start < length (bpm_out m) \<Longrightarrow>
    bps_step source (TargetCopy n d) m
      (m\<lparr>bpm_out := copy_bytes (bpm_out m) start n, bpm_target := int (start + n)\<rparr>)"

code_pred bps_step .

inductive_cases bps_step_SourceRead [elim!]: "bps_step source (SourceRead n) m m'"
inductive_cases bps_step_TargetRead [elim!]: "bps_step source (TargetRead d) m m'"
inductive_cases bps_step_SourceCopy [elim!]: "bps_step source (SourceCopy n d) m m'"
inductive_cases bps_step_TargetCopy [elim!]: "bps_step source (TargetCopy n d) m m'"

inductive bps_exec :: "bytes \<Rightarrow> bps_action list \<Rightarrow> bps_machine \<Rightarrow> bps_machine \<Rightarrow> bool" for source where
  exec_Nil: "bps_exec source [] m m"
| exec_Cons: "bps_step source a m m' \<Longrightarrow> bps_exec source as m' m'' \<Longrightarrow> bps_exec source (a # as) m m''"

code_pred bps_exec .

inductive_simps bps_exec_simps [simp]:
  "bps_exec source [] m m'"
  "bps_exec source (a # as) m m''"

lemma bps_exec_append:
  "bps_exec source (as @ bs) m m'' \<longleftrightarrow> (\<exists>m'. bps_exec source as m m' \<and> bps_exec source bs m' m'')"
  by (induction as arbitrary: m) auto

lemma bps_step_deterministic: "bps_step source a m m1 \<Longrightarrow> bps_step source a m m2 \<Longrightarrow> m1 = m2"
  by (induction rule: bps_step.induct) auto

theorem bps_exec_deterministic:
  "bps_exec source as m m1 \<Longrightarrow> bps_exec source as m m2 \<Longrightarrow> m1 = m2"
  by (induction as arbitrary: m) (auto dest: bps_step_deterministic)

fun bps_action_len :: "bps_action \<Rightarrow> nat" where
  "bps_action_len (SourceRead n) = n"
| "bps_action_len (TargetRead d) = length d"
| "bps_action_len (SourceCopy n _) = n"
| "bps_action_len (TargetCopy n _) = n"

lemma bps_step_length: "bps_step source a m m' \<Longrightarrow> length (bpm_out m') = length (bpm_out m) + bps_action_len a"
  by (induction rule: bps_step.induct) auto

lemma bps_exec_length_le: "bps_exec source as m m' \<Longrightarrow> length (bpm_out m) \<le> length (bpm_out m')"
  by (induction as arbitrary: m) (fastforce dest: bps_step_length)+

definition bps_machine_start :: bps_machine where
  "bps_machine_start = \<lparr>bpm_out = [], bpm_source = 0, bpm_target = 0\<rparr>"

lemma adjust_Ok:
  assumes "current + delta = int start" and "start < limit" and "limit \<le> u64_max"
  shows "adjust_relative_offset current delta limit label = Inr start"
  using assms by (auto simp: adjust_relative_offset_def i128_checked_def u64_max_def)

lemma adjust_Ok_iff:
  assumes "limit \<le> u64_max"
  shows "adjust_relative_offset current delta limit label = Inr start \<longleftrightarrow>
    current + delta = int start \<and> start < limit"
  using assms by (auto simp: adjust_relative_offset_def i128_checked_def u64_max_def result_iff ok_or_def
      split: if_splits)

section \<open>Parsed patches run\<close>

lemma read_varint_loop_le:
  "read_varint_loop read_byte label k acc sh p = Inr (n, q) \<Longrightarrow> n \<le> u64_max"
proof (induction k arbitrary: acc sh p)
  case (Suc k)
  from Suc.prems obtain b p1 where b: "read_byte p = Inr (b, p1)" by (auto simp: result_iff)
  from Suc.prems obtain addend where "checked_mul_opt (unat (b AND 127)) sh = Some addend"
    by (auto simp: b result_iff ok_or_def split: option.splits)
  moreover from Suc.prems this obtain acc1 where acc1: "checked_add_opt acc addend = Some acc1"
    by (auto simp: b result_iff ok_or_def split: option.splits)
  ultimately have rest: "(if b AND 128 \<noteq> 0 then Inr (acc1, p1)
      else and_then (ok_or (checked_add_opt acc1 (sh * 128 mod 2 ^ 64))
               (invalid_fmt ''{} varint overflowed available range'' [Str label])) (\<lambda>acc2.
             read_varint_loop read_byte label k acc2 (sh * 128 mod 2 ^ 64) p1)) = Inr (n, q)"
    using Suc.prems by (simp add: b Let_def split: if_splits)
  show ?case
  proof (cases "b AND 128 = 0")
    case True
    with rest obtain acc2 where "read_varint_loop read_byte label k acc2 (sh * 128 mod 2 ^ 64) p1 = Inr (n, q)"
      by (auto simp: result_iff)
    then show ?thesis by (rule Suc.IH)
  next
    case False
    with rest acc1 show ?thesis by (auto simp: checked_add_opt_def split: if_splits)
  qed
qed simp

lemma bps_source_size_le:
  "parse_bps_file crc32 patch_file validate = Inr patch \<Longrightarrow> bps_source_size patch \<le> u64_max"
  by (auto simp: parse_bps_file_def bps_read_varint_def read_varint_def result_iff Let_def
      dest: read_varint_loop_le split: if_splits)

lemma bps_parse_action_step:
  assumes parse: "bps_parse_action n p cur = Inr (a, q, cur')" and n: "n = length source" "n \<le> u64_max"
    and cur: "length (bpm_out m) = bc_output_size cur" "bpm_source m = bc_source_relative cur"
      "bpm_target m = bc_target_relative cur"
  shows "\<exists>m'. bps_step source a m m' \<and> length (bpm_out m') = bc_output_size cur' \<and>
    bpm_source m' = bc_source_relative cur' \<and> bpm_target m' = bc_target_relative cur' \<and>
    bc_output_size cur' \<le> u64_max"
proof -
  from parse obtain raw p1 where raw: "bps_read_varint p = Inr (raw, p1)"
    by (auto simp: bps_parse_action_def result_iff)
  define len where "len = raw div 4 + 1"
  let ?out = "bc_output_size cur"
  from parse raw have bounds: "len \<le> u64_max" "?out + len \<le> u64_max"
    by (auto simp: len_def bps_parse_action_def result_iff ok_or_def checked_add_opt_def Let_def
        split: if_splits option.splits)
  then have adds: "checked_add_opt (raw div 4) 1 = Some len" "checked_add_opt ?out len = Some (?out + len)"
    by (simp_all add: checked_add_opt_def len_def)
  have len: "0 < len" by (simp add: len_def)
  note action = parse [unfolded bps_parse_action_def raw Let_def and_then_simps prod.case adds ok_or_simps]
  have "raw mod 4 < 4" by simp
  then consider "raw mod 4 = 0" | "raw mod 4 = 1" | "raw mod 4 = 2" | "raw mod 4 = 3" by linarith
  then show ?thesis
  proof cases
    case 1
    with action have a: "?out + len \<le> n" "a = SourceRead len" "cur' = cur\<lparr>bc_output_size := ?out + len\<rparr>"
      by (auto split: if_splits)
    show ?thesis
      by (rule exI [of _ "m\<lparr>bpm_out := bpm_out m @ segment source (length (bpm_out m)) len\<rparr>"])
        (use a cur n bounds len bps_step.source_read [of len m source] in auto)
  next
    case 2
    with action obtain d where d: "bps_read_exact p1 len = Inr (d, q)" "a = TargetRead d"
      "cur' = cur\<lparr>bc_output_size := ?out + len\<rparr>"
      by (auto simp: result_iff)
    have "length d = len" using bps_read_exact_progress(4) [OF d(1)] .
    then show ?thesis
      by (intro exI [of _ "m\<lparr>bpm_out := bpm_out m @ d\<rparr>"])
        (use d cur bounds len bps_step.target_read [of d source m] in auto)
  next
    case 3
    with action obtain m1 start where s:
      "adjust_relative_offset (bc_source_relative cur) (decode_signed_offset m1) n ''source'' = Inr start"
      "start + len \<le> n" "a = SourceCopy len (decode_signed_offset m1)"
      "cur' = cur\<lparr>bc_output_size := ?out + len, bc_source_relative := int (start + len)\<rparr>"
      by (auto simp: result_iff ok_or_def checked_add_opt_def split: if_splits)
    from s(1) adjust_Ok_iff [OF n(2)] cur have "bpm_source m + decode_signed_offset m1 = int start" by auto
    from bps_step.source_copy [OF len this, of source] s n(1) show ?thesis
      by (intro exI [of _ "m\<lparr>bpm_out := bpm_out m @ segment source start len, bpm_source := int (start + len)\<rparr>"])
        (use s n cur bounds in auto)
  next
    case 4
    with action obtain m1 start where s:
      "adjust_relative_offset (bc_target_relative cur) (decode_signed_offset m1) ?out ''target'' = Inr start"
      "a = TargetCopy len (decode_signed_offset m1)"
      "cur' = cur\<lparr>bc_output_size := ?out + len, bc_target_relative := int (start + len)\<rparr>"
      by (auto simp: result_iff ok_or_def checked_add_opt_def split: if_splits)
    have "?out \<le> u64_max" using bounds by simp
    with s(1) adjust_Ok_iff cur have "bpm_target m + decode_signed_offset m1 = int start" "start < length (bpm_out m)"
      by auto
    from bps_step.target_copy [OF len this, of source] s show ?thesis
      by (intro exI [of _ "m\<lparr>bpm_out := copy_bytes (bpm_out m) start len, bpm_target := int (start + len)\<rparr>"])
        (use s cur bounds in auto)
  qed
qed

lemma bps_parse_actions_exec:
  "bps_parse_actions n p cur = Inr (as, cur') \<Longrightarrow> n = length source \<Longrightarrow> n \<le> u64_max \<Longrightarrow>
   length (bpm_out m) = bc_output_size cur \<Longrightarrow> bpm_source m = bc_source_relative cur \<Longrightarrow>
   bpm_target m = bc_target_relative cur \<Longrightarrow> bc_output_size cur \<le> u64_max \<Longrightarrow>
   \<exists>m'. bps_exec source as m m' \<and> length (bpm_out m') = bc_output_size cur' \<and> bc_output_size cur' \<le> u64_max"
proof (induction n p cur arbitrary: as m rule: bps_parse_actions.induct)
  case (1 n p cur)
  show ?case
  proof (cases "bps_is_at_end p")
    case True
    with "1.prems" show ?thesis by (subst (asm) bps_parse_actions.simps) auto
  next
    case False
    with "1.prems"(1) obtain a q cur1 bs where
      a: "bps_parse_action n p cur = Inr (a, q, cur1)" and bs: "bps_parse_actions n q cur1 = Inr (bs, cur')"
      and as: "as = a # bs"
      by (subst (asm) bps_parse_actions.simps) (auto simp: result_iff)
    from bps_parse_action_step [OF a "1.prems"(2-6)] obtain m1 where m1: "bps_step source a m m1"
      "length (bpm_out m1) = bc_output_size cur1" "bpm_source m1 = bc_source_relative cur1"
      "bpm_target m1 = bc_target_relative cur1" "bc_output_size cur1 \<le> u64_max" by blast
    from "1.IH" [OF False a refl refl bs "1.prems"(2,3) m1(2-5)] m1(1) as show ?thesis by auto
  qed
qed

text \<open>The patch a parse returns runs from the start and produces its declared target size.\<close>

theorem parse_bps_file_exec:
  assumes "parse_bps_file crc32 patch_file validate = Inr patch" and "length source = bps_source_size patch"
  shows "\<exists>m. bps_exec source (bps_actions patch) bps_machine_start m \<and>
    length (bpm_out m) = bps_target_size patch \<and> bps_target_size patch \<le> u64_max"
proof -
  have len: "bps_source_size patch \<le> u64_max" by (rule bps_source_size_le [OF assms(1)])
  let ?cur = "\<lparr>bc_output_size = 0, bc_source_relative = 0, bc_target_relative = 0\<rparr>"
  from assms(1) obtain p cur where
    p: "bps_parse_actions (bps_source_size patch) p ?cur = Inr (bps_actions patch, cur)"
      "bc_output_size cur = bps_target_size patch"
    by (auto simp: parse_bps_file_def result_iff Let_def split: if_splits)
  have "length (bpm_out bps_machine_start) = bc_output_size ?cur"
    and "bpm_source bps_machine_start = bc_source_relative ?cur"
    and "bpm_target bps_machine_start = bc_target_relative ?cur" and "bc_output_size ?cur \<le> u64_max"
    by (simp_all add: bps_machine_start_def)
  from bps_parse_actions_exec [OF p(1) assms(2) [symmetric] len this] p(2)
  show ?thesis by metis
qed

end
