(* ===== verification/Bps_Apply_Correct.thy ===== *)
theory Bps_Apply_Correct
  imports Bps_Machine
begin

text \<open>
  The three apply paths of BPS refine the machine: each one keeps its output equal to what the
  machine has produced, padded to the target size, with its cursors where the machine has them.
\<close>

section \<open>The produced prefix\<close>

lemma write_at_produced:
  "length out + length d \<le> n \<Longrightarrow> write_at (length out) d (pad_to n out) = pad_to n (out @ d)"
proof (rule file_eqI, goal_cases)
  case (2 i)
  then show ?case
    by (simp add: byte_at_write_at byte_at_pad_to del: byte_at_lt) (auto simp: byte_at_def nth_append)
qed (auto simp: length_write_at)

lemma segment_produced:
  "off + n \<le> length out \<Longrightarrow> length out \<le> N \<Longrightarrow> segment (pad_to N out) off n = segment out off n"
  by (simp add: segment_def pad_to_def)

lemma copy_bytes_chunk:
  "pos + n \<le> length out \<Longrightarrow> segment out pos n = d \<Longrightarrow> copy_bytes out pos n = out @ d"
  by (simp add: copy_bytes_segment)

lemma segment_snoc_segment: "segment f off m @ segment f (off + m) n = segment f off (m + n)"
  by (simp add: segment_def take_add add.commute)

lemma adjust_Ok_int:
  "start < limit \<Longrightarrow> limit \<le> u64_max \<Longrightarrow> current + delta = int start \<Longrightarrow>
    adjust_relative_offset current delta limit label = Inr start"
  by (rule adjust_Ok)

section \<open>In memory\<close>

definition bps_memory_of :: "nat \<Rightarrow> bps_machine \<Rightarrow> bps_memory" where
  "bps_memory_of N m =
     \<lparr>bmem_output = pad_to N (bpm_out m), bmem_offset = length (bpm_out m),
      bmem_source_relative = bpm_source m, bmem_target_relative = bpm_target m\<rparr>"

lemma copy_into_produced:
  "length out + length d \<le> n \<Longrightarrow> off = length out \<Longrightarrow>
    copy_into_slice off d (pad_to n out) = Inr (pad_to n (out @ d))"
  by (simp add: copy_into_slice_def write_at_produced)

lemma bps_copy_within_ok:
  assumes start: "start < length out" and fits: "length out + len \<le> n"
  shows "bps_copy_within (length out) start len (pad_to n out) = Inr (pad_to n (copy_bytes out start len))"
proof -
  let ?F = "\<lambda>i. pad_to n (copy_bytes out start i)"
  have "bps_copy_within (length out) start len (?F 0) = Inr (?F len)"
    unfolding bps_copy_within_def
  proof (rule chunk_loop_states)
    show "0 < min (length out - start) COPY_BUFFER_SIZE" using start by (simp add: COPY_BUFFER_SIZE_def)
  next
    fix off chunk
    assume chunk: "0 < chunk" "chunk \<le> min (length out - start) COPY_BUFFER_SIZE" "off + chunk \<le> len"
    define Q where "Q = copy_bytes out start off"
    have Q: "length Q = length out + off" by (simp add: Q_def)
    have "chunk \<le> length out - start" using chunk(2) by simp
    then have inside: "start + off + chunk \<le> length Q" using start Q by linarith
    then have "segment (pad_to n Q) (start + off) chunk = segment Q (start + off) chunk"
      using Q fits chunk by (intro segment_produced) auto
    moreover have "copy_into_slice (length out + off) (segment Q (start + off) chunk) (pad_to n Q) =
        Inr (pad_to n (Q @ segment Q (start + off) chunk))"
      using inside Q fits chunk by (intro copy_into_produced) auto
    moreover have "Q @ segment Q (start + off) chunk = copy_bytes out start (off + chunk)"
      using inside by (simp add: copy_bytes_add Q_def [symmetric] copy_bytes_segment)
    moreover have "start + off + chunk \<le> length (pad_to n Q)" using inside Q fits chunk by simp
    ultimately show "(if start + off + chunk \<le> length (?F off)
        then copy_into_slice (length out + off) (segment (?F off) (start + off) chunk) (?F off)
        else Err (Panic ''range end index out of range for slice'')) = Inr (?F (off + chunk))"
      by (simp add: Q_def [symmetric])
  qed simp
  then show ?thesis by simp
qed

lemma bps_memory_step:
  assumes "bps_step source a m m'" and "length (bpm_out m') \<le> n" and "n \<le> u64_max"
    and "length source \<le> u64_max"
  shows "bps_memory_action (length source) source a (bps_memory_of n m) = Inr (bps_memory_of n m')"
  using assms
proof (cases rule: bps_step.cases)
  case (source_read k)
  with assms show ?thesis
    by (simp add: bps_memory_action_def bps_memory_of_def copy_into_produced)
next
  case (target_read d)
  with assms show ?thesis
    by (simp add: bps_memory_action_def bps_memory_of_def copy_into_produced)
next
  case (source_copy k d start)
  have "adjust_relative_offset (bpm_source m) d (length source) ''source'' = Inr start"
    using source_copy assms by (intro adjust_Ok) auto
  with source_copy assms show ?thesis
    by (simp add: bps_memory_action_def bps_memory_of_def copy_into_produced)
next
  case (target_copy k d start)
  have "adjust_relative_offset (bpm_target m) d (length (bpm_out m)) ''target'' = Inr start"
    using target_copy assms by (intro adjust_Ok) auto
  moreover have "checked_add_opt start k = Some (start + k)"
    using target_copy assms by (simp add: checked_add_opt_def)
  moreover have "bps_copy_within (length (bpm_out m)) start k (pad_to n (bpm_out m)) =
      Inr (pad_to n (copy_bytes (bpm_out m) start k))"
    using target_copy assms by (intro bps_copy_within_ok) auto
  ultimately show ?thesis using target_copy assms
    by (simp add: bps_memory_action_def bps_memory_of_def)
qed

text \<open>A path that follows every step of the machine follows its runs.\<close>

lemma bps_exec_fold:
  assumes step: "\<And>a m m'. bps_step source a m m' \<Longrightarrow> length (bpm_out m') \<le> n \<Longrightarrow> act a (F m) = Inr (F m')"
    and "bps_exec source as m m'" and "length (bpm_out m') \<le> n"
  shows "fold_result act as (F m) = Inr (F m')"
  using assms(2,3)
proof (induction as arbitrary: m)
  case (Cons a as)
  then obtain m1 where m1: "bps_step source a m m1" "bps_exec source as m1 m'" by auto
  with bps_exec_length_le [OF m1(2)] Cons.prems(2) have "act a (F m) = Inr (F m1)" by (intro step) auto
  with Cons.IH [OF m1(2) Cons.prems(2)] show ?case by simp
qed simp

lemma apply_in_memory_ok:
  assumes "bps_exec source (bps_actions patch) bps_machine_start m"
    and "length source = bps_source_size patch" and "length (bpm_out m) = bps_target_size patch"
    and "bps_source_size patch \<le> u64_max" and "bps_target_size patch \<le> u64_max"
  shows "apply_patch_actions_in_memory patch source (replicate (bps_target_size patch) 0) = Inr (bpm_out m)"
proof -
  let ?n = "bps_target_size patch"
  have "\<lparr>bmem_output = replicate ?n 0, bmem_offset = 0, bmem_source_relative = 0, bmem_target_relative = 0\<rparr> =
      bps_memory_of ?n bps_machine_start"
    by (simp add: bps_memory_of_def bps_machine_start_def pad_to_def)
  moreover have "fold_result (bps_memory_action (length source) source) (bps_actions patch)
      (bps_memory_of ?n bps_machine_start) = Inr (bps_memory_of ?n m)"
    using bps_memory_step [of source] assms by (intro bps_exec_fold [where n = ?n and source = source]) auto
  ultimately have "apply_patch_actions_in_memory patch source (replicate ?n 0) =
      (if length (bpm_out m) \<noteq> ?n
       then invalid_fmt ''Output size invalid; Expected: {}, Actual: {}'' [Num ?n, Num (length (bpm_out m))]
       else Inr (pad_to ?n (bpm_out m)))"
    unfolding apply_patch_actions_in_memory_def assms(2) by (simp add: bps_memory_of_def)
  then show ?thesis using pad_to_self [of "bpm_out m"] assms(3) by simp
qed

section \<open>Streaming\<close>

text \<open>
  Between actions the tracked positions are the real ones and the output cursor is at the end of
  what is produced; only the source cursor is free.
\<close>

definition bps_files_of :: "nat \<Rightarrow> nat \<Rightarrow> bps_machine \<Rightarrow> bps_files" where
  "bps_files_of N at_source m =
     \<lparr>bf_output = pad_to N (bpm_out m), bf_output_at = length (bpm_out m), bf_source_at = at_source,
      bf_source_pos = at_source, bf_output_pos = length (bpm_out m), bf_output_offset = length (bpm_out m),
      bf_source_relative = bpm_source m, bf_target_relative = bpm_target m\<rparr>"

lemma bps_seeks [simp]:
  "bps_seek_source off (bps_files_of N k m) = bps_files_of N off m"
  "bps_seek_output (bps_files_of N k m) = bps_files_of N k m"
  by (simp_all add: bps_seek_source_def bps_seek_output_def bps_files_of_def)

lemma bps_copy_source_ok:
  assumes "start + len \<le> length source" and "length (bpm_out m) + len \<le> N"
  shows "bps_copy_source source len (bps_files_of N start m) =
    Inr (bps_files_of N (start + len) (m\<lparr>bpm_out := bpm_out m @ segment source start len\<rparr>))"
proof -
  let ?F = "\<lambda>i. bps_files_of N (start + i) (m\<lparr>bpm_out := bpm_out m @ segment source start i\<rparr>)"
  have "bps_copy_source source len (?F 0) = Inr (?F len)"
    unfolding bps_copy_source_def
  proof (rule chunk_loop_states)
    fix off chunk
    assume chunk: "0 < chunk" "chunk \<le> APPLY_STREAM_BUFFER_SIZE" "off + chunk \<le> len"
    have read: "seek_read_exact source (start + off) chunk = Inr (segment source (start + off) chunk)"
      using chunk assms(1) by (simp add: seek_read_exact_def)
    have out: "write_at (length (bpm_out m) + off) (segment source (start + off) chunk)
        (pad_to N (bpm_out m @ segment source start off)) =
      pad_to N (bpm_out m @ segment source start (off + chunk))"
      using chunk assms write_at_produced [of "bpm_out m @ segment source start off"
          "segment source (start + off) chunk" N]
      by (simp add: segment_snoc_segment)
    show "and_then (seek_read_exact source (bf_source_at (?F off)) chunk) (\<lambda>data.
          let st = bps_write_all data ((?F off)\<lparr>bf_source_at := bf_source_at (?F off) + chunk\<rparr>)
          in Inr (st\<lparr>bf_output_offset := bf_output_offset st + chunk,
                     bf_source_pos := bf_source_pos st + chunk,
                     bf_output_pos := bf_output_pos st + chunk\<rparr>)) = Inr (?F (off + chunk))"
      using read out chunk assms by (simp add: bps_files_of_def bps_write_all_def Let_def)
  qed (simp_all add: APPLY_STREAM_BUFFER_SIZE_def)
  then show ?thesis by simp
qed

text \<open>The buffer of a short period holds whole repetitions of it.\<close>

lemma bps_fill_tile_ok:
  assumes "length data = period" and "0 < period" and "period dvd filled" and "0 < filled"
    and "filled \<le> tile" and "period dvd tile" and "tile \<le> length buffer"
    and "\<And>i. i < filled \<Longrightarrow> buffer ! i = data ! (i mod period)"
  shows "length (bps_fill_tile tile filled buffer) = length buffer \<and>
    (\<forall>i < tile. bps_fill_tile tile filled buffer ! i = data ! (i mod period))"
  using assms(3-8)
proof (induction tile filled buffer rule: bps_fill_tile.induct)
  case (1 tile filled buffer)
  show ?case
  proof (cases "filled < tile")
    case False
    then show ?thesis using "1.prems" by (subst (1 2) bps_fill_tile.simps) auto
  next
    case True
    define n where "n = min (tile - filled) filled"
    define buffer' where "buffer' = write_at filled (take n buffer) buffer"
    have n: "0 < n" "n \<le> filled" "filled + n \<le> tile" "period dvd filled + n"
      using True "1.prems"(1-4) by (auto simp: n_def min_def)
    have len: "length buffer' = length buffer"
      using n "1.prems"(5) by (auto simp: buffer'_def length_write_at)
    have nth: "buffer' ! i = data ! (i mod period)" if i: "i < filled + n" for i
    proof -
      have "i < length buffer" using i n "1.prems"(5) by linarith
      then have "buffer' ! i = byte_at buffer' i" using len by simp
      also have "\<dots> = (if filled \<le> i then take n buffer ! (i - filled) else buffer ! i)"
        using i n "1.prems"(5) \<open>i < length buffer\<close>
        by (simp add: buffer'_def byte_at_write_at)
      also have "\<dots> = data ! (i mod period)"
      proof (cases "filled \<le> i")
        case True
        obtain k where k: "filled = period * k" using "1.prems"(1) by blast
        have "i - filled < filled" using i n True by linarith
        moreover have "(i - filled) mod period = i mod period"
          using True k by (metis le_add_diff_inverse mod_mult_self2 add.commute mult.commute)
        ultimately show ?thesis using True i "1.prems"(6) [of "i - filled"] by simp
      qed (use "1.prems"(6) in simp)
      finally show ?thesis .
    qed
    have "length (bps_fill_tile tile (filled + n) buffer') = length buffer' \<and>
        (\<forall>i < tile. bps_fill_tile tile (filled + n) buffer' ! i = data ! (i mod period))"
      unfolding buffer'_def n_def
      by (rule "1.IH" [OF _ refl])
        (use True n nth len "1.prems"(2,4,5) in \<open>simp_all add: n_def [symmetric] buffer'_def [symmetric]\<close>)
    moreover have "bps_fill_tile tile filled buffer = bps_fill_tile tile (filled + n) buffer'"
      using True "1.prems"(2) by (subst bps_fill_tile.simps) (simp add: n_def buffer'_def Let_def)
    ultimately show ?thesis using len by simp
  qed
qed

lemma copy_bytes_period:
  assumes start: "start < length out" and off: "(length out - start) dvd off"
    and len: "chunk \<le> length buffer"
    and buffer: "\<And>i. i < chunk \<Longrightarrow> buffer ! i = segment out start (length out - start) ! (i mod (length out - start))"
  shows "copy_bytes out start (off + chunk) = copy_bytes out start off @ take chunk buffer"
proof (rule file_eqI, goal_cases)
  case 1
  then show ?case using len by simp
next
  case (2 i)
  let ?p = "length out - start"
  have p: "0 < ?p" using start by simp
  have i: "i < length out + off + chunk" using 2 len by simp
  have prefix: "copy_bytes out start (off + chunk) = copy_bytes (copy_bytes out start off) (start + off) chunk"
    by (rule copy_bytes_add)
  show ?case
  proof (cases "i < length out + off")
    case True
    then have "i < length (copy_bytes out start off)" by simp
    with byte_at_copy_prefix [OF this, of "start + off" chunk] show ?thesis
      by (simp add: prefix byte_at_def nth_append)
  next
    case False
    then obtain j where j: "i = length out + (off + j)"
      by (metis add.assoc le_add_diff_inverse not_less)
    then have jc: "j < chunk" using i by simp
    have "byte_at (copy_bytes out start (off + chunk)) i = byte_at out (start + (off + j) mod ?p)"
      unfolding j using byte_at_copy_bytes [OF start, of "off + j" "off + chunk"] jc by simp
    also have "(off + j) mod ?p = j mod ?p" using off by (simp add: mod_add_left_eq [symmetric])
    also have "byte_at out (start + j mod ?p) = segment out start ?p ! (j mod ?p)"
    proof -
      have "start + j mod ?p < length out" using mod_less_divisor [OF p, of j] by linarith
      then show ?thesis using p by (simp add: nth_segment)
    qed
    also have "\<dots> = buffer ! j" using buffer [OF jc] by simp
    also have "\<dots> = byte_at (copy_bytes out start off @ take chunk buffer) i"
      using jc len by (simp add: j byte_at_def nth_append)
    finally show ?thesis .
  qed
qed

lemma bps_copy_target_range_ok:
  assumes start: "start < length (bpm_out m)" and fits: "length (bpm_out m) + len \<le> N" and len: "0 < len"
  shows "bps_copy_target_range start len (bps_files_of N k m) =
    Inr ((bps_files_of N k m)\<lparr>bf_output := pad_to N (copy_bytes (bpm_out m) start len),
           bf_output_at := length (bpm_out m) + len, bf_output_offset := length (bpm_out m) + len\<rparr>)"
proof -
  define P where "P = bpm_out m"
  define F where "F = (\<lambda>i. (bps_files_of N k m)\<lparr>bf_output := pad_to N (copy_bytes P start i),
           bf_output_at := length P + i, bf_output_offset := length P + i\<rparr>)"
  have F0: "F 0 = bps_files_of N k m" by (simp add: F_def P_def bps_files_of_def)
  note fields = F_def P_def bps_files_of_def
  define period where "period = length P - start"
  have p: "0 < period" using start by (simp add: period_def P_def)
  have wr: "write_at (length P + off) d (pad_to N (copy_bytes P start off)) = pad_to N (copy_bytes P start off @ d)"
    if "length P + off + length d \<le> N" for off d
    using write_at_produced [of "copy_bytes P start off" d N] that by simp
  have "bps_copy_target_range start len (F 0) = Inr (F len)"
  proof (cases "COPY_BUFFER_SIZE \<le> period")
    case True
    let ?body = "\<lambda>done chunk st.
                  and_then (seek_read_exact (bf_output st) (start + done) chunk) (\<lambda>data.
                  let st = bps_write_all data (st\<lparr>bf_output_at := bf_output_offset st\<rparr>)
                  in Inr (st\<lparr>bf_output_offset := bf_output_offset st + chunk\<rparr>))"
    have "chunk_loop COPY_BUFFER_SIZE ?body 0 len (F 0) = Inr (F len)"
    proof (rule chunk_loop_states)
      fix off chunk
      assume chunk: "0 < chunk" "chunk \<le> COPY_BUFFER_SIZE" "off + chunk \<le> len"
      define Q where "Q = copy_bytes P start off"
      have Q: "length Q = length P + off" by (simp add: Q_def)
      have inside: "start + off + chunk \<le> length Q" using chunk(2) True Q start by (simp add: period_def P_def)
      have total: "length Q + chunk \<le> N" using Q chunk(3) fits by (simp add: P_def)
      have "seek_read_exact (pad_to N Q) (start + off) chunk = Inr (segment Q (start + off) chunk)"
        using inside total segment_produced [of "start + off" chunk Q N] by (simp add: seek_read_exact_def)
      moreover have "copy_bytes P start (off + chunk) = Q @ segment Q (start + off) chunk"
        using inside by (simp add: copy_bytes_add Q_def [symmetric] copy_bytes_segment)
      moreover have "write_at (length P + off) (segment Q (start + off) chunk) (pad_to N Q) =
          pad_to N (Q @ segment Q (start + off) chunk)"
        using wr [of off "segment Q (start + off) chunk"] total inside by (simp add: Q_def)
      ultimately show "?body off chunk (F off) = Inr (F (off + chunk))"
        using inside by (simp add: fields bps_write_all_def Let_def Q_def [unfolded P_def, symmetric])
    qed (simp_all add: COPY_BUFFER_SIZE_def)
    with start len True show ?thesis
      by (simp add: bps_copy_target_range_def F0 period_def P_def) (simp add: bps_files_of_def P_def)
  next
    case False
    define data where "data = segment P start period"
    define tile where "tile = COPY_BUFFER_SIZE div period * period"
    define buffer where "buffer = bps_fill_tile tile period (write_at 0 data (replicate COPY_BUFFER_SIZE 0))"
    have data: "length data = period" using p by (simp add: data_def period_def)
    have ge: "1 \<le> COPY_BUFFER_SIZE div period" using False p by (simp add: div_greater_zero_iff Suc_le_eq)
    have tile: "period \<le> tile" "tile \<le> COPY_BUFFER_SIZE" "period dvd tile" "0 < tile"
      using p mult_le_mono1 [OF ge, of period] by (auto simp: tile_def)
    have base: "write_at 0 data (replicate COPY_BUFFER_SIZE 0) = data @ replicate (COPY_BUFFER_SIZE - period) 0"
      using False data by (simp add: write_at_inside)
    have buffer: "length buffer = COPY_BUFFER_SIZE" "\<And>i. i < tile \<Longrightarrow> buffer ! i = data ! (i mod period)"
      using bps_fill_tile_ok [OF data p dvd_refl p tile(1,3), of "write_at 0 data (replicate COPY_BUFFER_SIZE 0)"]
        False data tile by (auto simp: buffer_def base nth_append)
    have read: "seek_read_exact (pad_to N P) start period = Inr data"
      using fits start segment_produced [of start period P N]
      by (simp add: seek_read_exact_def data_def period_def P_def)
    let ?body = "\<lambda>_ chunk st.
                     let st = bps_write_all (take chunk buffer) st
                     in Inr (st\<lparr>bf_output_offset := bf_output_offset st + chunk\<rparr>)"
    have "\<exists>st. chunk_loop tile ?body 0 len (F 0) = Inr st \<and> st = F len \<and> (tile dvd len \<or> len = len)"
    proof (rule chunk_loop_invariant_min [where I = "\<lambda>off st. st = F off \<and> (tile dvd off \<or> off = len)"])
      fix off chunk st
      assume st: "st = F off \<and> (tile dvd off \<or> off = len)" and off: "off < len" and chunk: "chunk = min tile (len - off)"
      have dvd: "period dvd off" using st off tile(3) dvd_trans by auto
      have c: "chunk \<le> tile" "off + chunk \<le> len" using chunk off by auto
      have copy: "copy_bytes P start (off + chunk) = copy_bytes P start off @ take chunk buffer"
        using start dvd c buffer tile(2) by (intro copy_bytes_period) (auto simp: P_def period_def data_def)
      have "write_at (length P + off) (take chunk buffer) (pad_to N (copy_bytes P start off)) =
          pad_to N (copy_bytes P start off @ take chunk buffer)"
        using c buffer(1) tile(2) fits by (intro wr) (simp add: P_def)
      then have "?body off chunk st = Inr (F (off + chunk))"
        using c buffer(1) tile(2) by (simp add: st fields bps_write_all_def Let_def copy [unfolded P_def])
      moreover have "tile dvd off + chunk \<or> off + chunk = len"
        using st off chunk by (auto simp: min_def)
      ultimately show "\<exists>t. ?body off chunk st = Inr t \<and> t = F (off + chunk) \<and> (tile dvd off + chunk \<or> off + chunk = len)"
        by simp
    qed (use tile in auto)
    then have "chunk_loop tile ?body 0 len (F 0) = Inr (F len)" by auto
    moreover have "(F 0)\<lparr>bf_output_at := bf_output_offset (F 0)\<rparr> = F 0" "bf_output (F 0) = pad_to N P"
      "bf_output_offset (F 0) = length P"
      by (simp_all add: fields)
    ultimately show ?thesis
      using start len False read
      by (simp add: bps_copy_target_range_def Let_def period_def [symmetric] P_def [symmetric]
          buffer_def [symmetric] tile_def [symmetric])
  qed
  then show ?thesis by (simp add: F0) (simp add: F_def P_def)
qed

lemma bps_stream_step:
  assumes "bps_step source a m m'" and "length (bpm_out m') \<le> n" and "n \<le> u64_max"
    and "length source \<le> u64_max"
  shows "\<exists>k'. bps_stream_action (length source) n source a (bps_files_of n k m) = Inr (bps_files_of n k' m')"
  using assms
proof (cases rule: bps_step.cases)
  case (source_read len)
  let ?off = "length (bpm_out m)"
  have "checked_add_opt ?off len = Some (?off + len)"
    using source_read assms by (simp add: checked_add_opt_def)
  moreover have "bps_copy_source source len (bps_files_of n ?off m) =
      Inr (bps_files_of n (?off + len) m')"
    using bps_copy_source_ok [of ?off len source m n] source_read assms by simp
  ultimately show ?thesis using source_read assms
    by (auto simp: bps_stream_action_def bps_files_of_def bps_seek_source_def bps_seek_output_def)
next
  case (target_read d)
  have "checked_add_opt (length (bpm_out m)) (length d) = Some (length (bpm_out m) + length d)"
    using target_read assms by (simp add: checked_add_opt_def)
  then show ?thesis using target_read assms
    by (simp add: bps_stream_action_def bps_files_of_def bps_write_all_def Let_def write_at_produced)
next
  case (source_copy len d start)
  have "adjust_relative_offset (bpm_source m) d (length source) ''source'' = Inr start"
    using source_copy assms by (intro adjust_Ok) auto
  moreover have "checked_add_opt start len = Some (start + len)"
    using source_copy assms by (simp add: checked_add_opt_def)
  moreover have "bps_copy_source source len (bps_files_of n start m) =
      Inr (bps_files_of n (start + len) (m\<lparr>bpm_out := bpm_out m @ segment source start len\<rparr>))"
    using source_copy assms by (intro bps_copy_source_ok) auto
  ultimately show ?thesis using source_copy assms
    by (simp add: bps_stream_action_def bps_files_of_def bps_seek_source_def bps_seek_output_def)
next
  case (target_copy len d start)
  have "adjust_relative_offset (bpm_target m) d (length (bpm_out m)) ''target'' = Inr start"
    using target_copy assms by (intro adjust_Ok) auto
  moreover have "checked_add_opt start len = Some (start + len)"
    using target_copy assms by (simp add: checked_add_opt_def)
  moreover note bps_copy_target_range_ok [of start m len n k]
  ultimately show ?thesis using target_copy assms
    by (simp add: bps_stream_action_def bps_files_of_def)
qed

text \<open>The seek-elision invariant holds on every run: no read or write is at a wrong place.\<close>

lemma bps_stream_exec:
  assumes "bps_exec source as m m'" and "length (bpm_out m') \<le> n" and "n \<le> u64_max"
    and "length source \<le> u64_max"
  shows "\<exists>k'. fold_result (bps_stream_action (length source) n source) as (bps_files_of n k m) =
    Inr (bps_files_of n k' m')"
  using assms(1,2)
proof (induction as arbitrary: m k)
  case (Cons a as)
  then obtain m1 where m1: "bps_step source a m m1" "bps_exec source as m1 m'" by auto
  with bps_exec_length_le [OF m1(2)] Cons.prems(2) have "length (bpm_out m1) \<le> n" by simp
  from bps_stream_step [OF m1(1) this assms(3,4)] obtain k1 where
    "bps_stream_action (length source) n source a (bps_files_of n k m) = Inr (bps_files_of n k1 m1)" by blast
  with Cons.IH [OF m1(2) Cons.prems(2), of k1] show ?case by simp
qed auto

lemma apply_streaming_ok:
  assumes "bps_exec source (bps_actions patch) bps_machine_start m"
    and "length source = bps_source_size patch" and "length (bpm_out m) = bps_target_size patch"
    and "bps_source_size patch \<le> u64_max" and "bps_target_size patch \<le> u64_max"
  shows "apply_patch_actions patch source (pad_to (bps_target_size patch) []) = Inr (bpm_out m)"
proof -
  let ?n = "bps_target_size patch"
  have start: "bps_files_start (pad_to ?n []) = bps_files_of ?n 0 bps_machine_start"
    by (simp add: bps_files_start_def bps_files_of_def bps_machine_start_def)
  from bps_stream_exec [OF assms(1) _ assms(5), of 0] assms(2-4) obtain k where
    "fold_result (bps_stream_action (bps_source_size patch) ?n source) (bps_actions patch)
      (bps_files_start (pad_to ?n [])) = Inr (bps_files_of ?n k m)"
    unfolding start by auto
  then show ?thesis
    using assms(3) pad_to_self [of "bpm_out m"] by (simp add: apply_patch_actions_def bps_files_of_def)
qed

section \<open>Through the pool\<close>

definition plans_write :: "bytes \<Rightarrow> bps_write_plan list \<Rightarrow> nat \<Rightarrow> bytes \<Rightarrow> bool" where
  "plans_write source plans off d \<longleftrightarrow>
     (\<exists>ws. map_result (prepare_bps_write source (length source)) plans = Inr ws \<and>
       (\<forall>f. apply_prepared_writes f ws = write_at off d f))"

lemma plans_write_Nil [simp]: "plans_write source [] off []"
  by (simp add: plans_write_def)

lemma plans_write_append:
  "plans_write source ps off d \<Longrightarrow> plans_write source qs (off + length d) e \<Longrightarrow>
    plans_write source (ps @ qs) off (d @ e)"
  by (auto simp: plans_write_def map_result_append apply_prepared_writes_append write_at_extend)

lemma plans_write_one:
  "prepare_bps_write source (length source) p = Inr \<lparr>pw_offset = off, pw_data = d\<rparr> \<Longrightarrow> plans_write source [p] off d"
  by (simp add: plans_write_def)

lemma push_source_write_plans_ok:
  assumes "off + len \<le> u64_max" and "soff + len \<le> length source" and "length source \<le> u64_max"
  shows "\<exists>ps. push_source_write_plans off soff len plans = Inr (plans @ ps) \<and>
    plans_write source ps off (segment source soff len)"
  using assms
proof (induction off soff len plans rule: push_source_write_plans.induct)
  case (1 off soff len plans)
  show ?case
  proof (cases "0 < len")
    case False
    then show ?thesis by (subst push_source_write_plans.simps) simp
  next
    case True
    define n where "n = min len BPS_PARALLEL_WRITE_CHUNK_SIZE"
    let ?p = "\<lparr>bwp_output_offset = off, bwp_kind = SourceRange soff n\<rparr>"
    have n: "0 < n" "n \<le> len" "n + (len - n) = len"
      using True by (auto simp: n_def BPS_PARALLEL_WRITE_CHUNK_SIZE_def parallel_write_chunk_bytes_def)
    have adds: "checked_add_opt off n = Some (off + n)" "checked_add_opt soff n = Some (soff + n)"
      using n "1.prems" by (simp_all add: checked_add_opt_def)
    have "prepare_bps_write source (length source) ?p = Inr \<lparr>pw_offset = off, pw_data = segment source soff n\<rparr>"
      using n "1.prems" by (simp add: prepare_bps_write_def read_exact_at_def Let_def)
    note first = plans_write_one [OF this]
    from "1.IH" [OF True n_def refl, of "off + n" "soff + n"] adds n "1.prems" obtain ps where
      "push_source_write_plans (off + n) (soff + n) (len - n) (plans @ [?p]) = Inr ((plans @ [?p]) @ ps)"
      "plans_write source ps (off + n) (segment source (soff + n) (len - n))"
      by auto
    moreover from this(2) first n "1.prems" have "plans_write source ([?p] @ ps) off (segment source soff len)"
      using plans_write_append [of source "[?p]" off "segment source soff n" ps "segment source (soff + n) (len - n)"]
      by (simp add: segment_snoc_segment)
    moreover have "push_source_write_plans off soff len plans =
        push_source_write_plans (off + n) (soff + n) (len - n) (plans @ [?p])"
      using True adds by (subst push_source_write_plans.simps) (simp add: n_def [symmetric] Let_def)
    ultimately show ?thesis by simp
  qed
qed

lemma push_literal_write_plans_ok:
  assumes "off + length data \<le> u64_max"
  shows "\<exists>ps. push_literal_write_plans off data plans = Inr (plans @ ps) \<and> plans_write source ps off data"
  using assms
proof (induction off data plans rule: push_literal_write_plans.induct)
  case (1 off data plans)
  show ?case
  proof (cases "data = []")
    case True
    then show ?thesis by (subst push_literal_write_plans.simps) simp
  next
    case False
    define chunk where "chunk = take BPS_PARALLEL_WRITE_CHUNK_SIZE data"
    define rest where "rest = drop BPS_PARALLEL_WRITE_CHUNK_SIZE data"
    let ?p = "\<lparr>bwp_output_offset = off, bwp_kind = BpsLiteral chunk\<rparr>"
    have data: "data = chunk @ rest" by (simp add: chunk_def rest_def)
    then have len: "length data = length chunk + length rest" by simp
    have add: "checked_add_opt off (length chunk) = Some (off + length chunk)"
      using len "1.prems" by (simp add: checked_add_opt_def)
    have first: "plans_write source [?p] off chunk"
      by (rule plans_write_one) (simp add: prepare_bps_write_def)
    have "off + length chunk + length rest \<le> u64_max" using len "1.prems" by simp
    with "1.IH" [OF False chunk_def refl, of "off + length chunk", folded rest_def] obtain ps where
      "push_literal_write_plans (off + length chunk) rest (plans @ [?p]) = Inr ((plans @ [?p]) @ ps)"
      "plans_write source ps (off + length chunk) rest"
      unfolding add ok_or_simps by blast
    moreover from plans_write_append [OF first this(2)] have "plans_write source ([?p] @ ps) off data"
      by (simp add: data)
    moreover have "push_literal_write_plans off data plans =
        push_literal_write_plans (off + length chunk) rest (plans @ [?p])"
      using False add by (subst push_literal_write_plans.simps) (simp add: chunk_def [symmetric] rest_def Let_def)
    ultimately show ?thesis by simp
  qed
qed

lemma bps_plan_step:
  assumes "bps_step source a m m'" and "length (bpm_out m') \<le> n" and "n \<le> u64_max"
    and "length source \<le> u64_max" and "\<not> patch_contains_target_copy [a]"
    and plans: "plans_write source plans 0 (bpm_out m)"
  shows "\<exists>plans'. bps_plan_action (length source) n a (plans, length (bpm_out m), bpm_source m) =
      Inr (plans', length (bpm_out m'), bpm_source m') \<and> plans_write source plans' 0 (bpm_out m')"
  using assms(1)
proof (cases rule: bps_step.cases)
  case (source_read len)
  let ?off = "length (bpm_out m)"
  have "checked_add_opt ?off len = Some (?off + len)"
    using source_read assms by (simp add: checked_add_opt_def)
  moreover obtain ps where "push_source_write_plans ?off ?off len plans = Inr (plans @ ps)"
    "plans_write source ps ?off (segment source ?off len)"
    using push_source_write_plans_ok [of ?off len ?off source plans] source_read assms by auto
  moreover from this(2) plans have "plans_write source (plans @ ps) 0 (bpm_out m @ segment source ?off len)"
    using plans_write_append [of source plans 0 "bpm_out m"] by simp
  ultimately show ?thesis using source_read assms by (simp add: bps_plan_action_def)
next
  case (target_read d)
  let ?off = "length (bpm_out m)"
  have fits: "?off + length d \<le> u64_max" using target_read assms by simp
  then have "checked_add_opt ?off (length d) = Some (?off + length d)" by (simp add: checked_add_opt_def)
  moreover obtain ps where "push_literal_write_plans ?off d plans = Inr (plans @ ps)" "plans_write source ps ?off d"
    using push_literal_write_plans_ok [OF fits, of plans source] by blast
  moreover from this(2) plans have "plans_write source (plans @ ps) 0 (bpm_out m @ d)"
    using plans_write_append [of source plans 0 "bpm_out m"] by simp
  ultimately show ?thesis using target_read assms by (simp add: bps_plan_action_def)
next
  case (source_copy len d start)
  let ?off = "length (bpm_out m)"
  have "adjust_relative_offset (bpm_source m) d (length source) ''source'' = Inr start"
    using source_copy assms by (intro adjust_Ok) auto
  moreover have "checked_add_opt start len = Some (start + len)" "checked_add_opt ?off len = Some (?off + len)"
    using source_copy assms by (simp_all add: checked_add_opt_def)
  moreover obtain ps where "push_source_write_plans ?off start len plans = Inr (plans @ ps)"
    "plans_write source ps ?off (segment source start len)"
    using push_source_write_plans_ok [of ?off len start source plans] source_copy assms by auto
  moreover from this(2) plans have "plans_write source (plans @ ps) 0 (bpm_out m @ segment source start len)"
    using plans_write_append [of source plans 0 "bpm_out m"] by simp
  ultimately show ?thesis using source_copy assms by (simp add: bps_plan_action_def)
next
  case (target_copy len d start)
  with assms(5) show ?thesis by (simp add: patch_contains_target_copy_def)
qed

lemma bps_plan_exec:
  assumes "bps_exec source as m m'" and "length (bpm_out m') \<le> n" and "n \<le> u64_max"
    and "length source \<le> u64_max" and "\<not> patch_contains_target_copy as"
    and "plans_write source plans 0 (bpm_out m)"
  shows "\<exists>plans'. fold_result (bps_plan_action (length source) n) as (plans, length (bpm_out m), bpm_source m) =
      Inr (plans', length (bpm_out m'), bpm_source m') \<and> plans_write source plans' 0 (bpm_out m')"
  using assms(1,2,5,6)
proof (induction as arbitrary: m plans)
  case (Cons a as)
  then obtain m1 where m1: "bps_step source a m m1" "bps_exec source as m1 m'" by auto
  from Cons.prems(3) have no: "\<not> patch_contains_target_copy [a]" "\<not> patch_contains_target_copy as"
    by (auto simp: patch_contains_target_copy_def)
  from bps_exec_length_le [OF m1(2)] Cons.prems(2) have "length (bpm_out m1) \<le> n" by simp
  from bps_plan_step [OF m1(1) this assms(3,4) no(1) Cons.prems(4)] obtain plans1 where
    "bps_plan_action (length source) n a (plans, length (bpm_out m), bpm_source m) =
      Inr (plans1, length (bpm_out m1), bpm_source m1)" "plans_write source plans1 0 (bpm_out m1)" by blast
  with Cons.IH [OF m1(2) Cons.prems(2) no(2) this(2)] show ?case by simp
qed auto

lemma apply_prepared_bps_write_synced:
  "\<exists>p'. apply_prepared_bps_write w (out, p, p) = (apply_prepared_writes out [w], p', p')"
  by (simp add: apply_prepared_bps_write_def)

lemma fold_prepared_bps_writes:
  "\<exists>p'. fold apply_prepared_bps_write ws (out, p, p) = (apply_prepared_writes out ws, p', p')"
proof (induction ws arbitrary: out p)
  case (Cons w ws)
  from apply_prepared_bps_write_synced [of w out p] obtain p1 where
    "apply_prepared_bps_write w (out, p, p) = (apply_prepared_writes out [w], p1, p1)" by blast
  with Cons.IH [of "apply_prepared_writes out [w]" p1] show ?case by simp
qed simp

text \<open>How the plans are cut into batches cannot be seen.\<close>

lemma bps_run_batches_ok:
  assumes "map_result (prepare_bps_write source n) (drop start plans) = Inr ws"
  shows "\<exists>p'. bps_run_batches source n plans byte_limit start (out, p, p) = Inr (apply_prepared_writes out ws, p', p')"
  using assms
proof (induction "length plans - start" arbitrary: start out p ws rule: less_induct)
  case less
  show ?case
  proof (cases "start < length plans")
    case False
    with less.prems show ?thesis by (subst bps_run_batches.simps) simp
  next
    case True
    define stop where "stop = bps_parallel_batch_end plans start byte_limit"
    have stop: "start < stop" using bps_parallel_batch_end_gt [OF True] by (simp add: stop_def)
    have split: "drop start plans = take (stop - start) (drop start plans) @ drop stop plans"
      using stop by (metis append_take_drop_id drop_drop le_add_diff_inverse2 less_imp_le)
    from less.prems obtain us vs where
      us: "map_result (prepare_bps_write source n) (take (stop - start) (drop start plans)) = Inr us"
      and vs: "map_result (prepare_bps_write source n) (drop stop plans) = Inr vs" and ws: "ws = us @ vs"
      by (subst (asm) split) (auto simp: map_result_append result_iff)
    from fold_prepared_bps_writes [of us out p] obtain p1 where
      p1: "fold apply_prepared_bps_write us (out, p, p) = (apply_prepared_writes out us, p1, p1)" by blast
    have "length plans - stop < length plans - start" using True stop by simp
    from less.hyps [OF this vs, of "apply_prepared_writes out us" p1] obtain p2 where
      "bps_run_batches source n plans byte_limit stop (apply_prepared_writes out us, p1, p1) =
        Inr (apply_prepared_writes (apply_prepared_writes out us) vs, p2, p2)" by blast
    then have "bps_run_batches source n plans byte_limit start (out, p, p) =
        Inr (apply_prepared_writes out ws, p2, p2)"
      using True by (subst bps_run_batches.simps)
        (simp add: Let_def stop_def [symmetric] us p1 ws apply_prepared_writes_append)
    then show ?thesis by blast
  qed
qed

lemma apply_pool_ok:
  assumes "bps_exec source (bps_actions patch) bps_machine_start m"
    and "length source = bps_source_size patch" and "length (bpm_out m) = bps_target_size patch"
    and "bps_source_size patch \<le> u64_max" and "bps_target_size patch \<le> u64_max"
    and "\<not> patch_contains_target_copy (bps_actions patch)"
  shows "\<exists>plans. collect_parallel_bps_write_plans patch = Inr plans \<and>
    (\<forall>pool. apply_parallel_bps_writes source (bps_source_size patch) plans pool (pad_to (bps_target_size patch) []) =
      Inr (bpm_out m))"
proof -
  from bps_plan_exec [OF assms(1) _ assms(5) _ assms(6), of "[]"] assms(2-4) obtain plans where
    plans: "fold_result (bps_plan_action (bps_source_size patch) (bps_target_size patch)) (bps_actions patch) ([], 0, 0) =
      Inr (plans, bps_target_size patch, bpm_source m)" "plans_write source plans 0 (bpm_out m)"
    by (auto simp: bps_machine_start_def)
  then have "collect_parallel_bps_write_plans patch = Inr plans"
    by (simp add: collect_parallel_bps_write_plans_def)
  moreover have "apply_parallel_bps_writes source (bps_source_size patch) plans pool (pad_to (bps_target_size patch) []) =
      Inr (bpm_out m)" for pool
  proof -
    from plans(2) obtain ws where ws: "map_result (prepare_bps_write source (length source)) (drop 0 plans) = Inr ws"
      "\<forall>f. apply_prepared_writes f ws = write_at 0 (bpm_out m) f" by (auto simp: plans_write_def)
    from bps_run_batches_ok [OF ws(1), of "parallel_write_batch_bytes pool" "pad_to (bps_target_size patch) []" 0]
    obtain p where "bps_run_batches source (bps_source_size patch) plans (parallel_write_batch_bytes pool) 0
        (pad_to (bps_target_size patch) [], 0, 0) = Inr (write_at 0 (bpm_out m) (pad_to (bps_target_size patch) []), p, p)"
      using ws(2) assms(2) by auto
    moreover have "write_at 0 (bpm_out m) (pad_to (bps_target_size patch) []) = bpm_out m"
      using write_at_inside [of 0 "bpm_out m" "pad_to (bps_target_size patch) []"] assms(3) by simp
    ultimately show ?thesis by (simp add: apply_parallel_bps_writes_def)
  qed
  ultimately show ?thesis by blast
qed

section \<open>The handler\<close>

lemma bps_apply_actions_ok:
  assumes "bps_exec source (bps_actions patch) bps_machine_start m"
    and "length source = bps_source_size patch" and "length (bpm_out m) = bps_target_size patch"
    and "bps_source_size patch \<le> u64_max" and "bps_target_size patch \<le> u64_max"
  shows "\<exists>e. bps_apply_actions ctx patch source = Inr (e, bpm_out m)"
proof -
  let ?out = "pad_to (bps_target_size patch) []"
  let ?cap = "bps_apply_thread_capability (bps_actions patch)"
  let ?copy = "patch_contains_target_copy (bps_actions patch)"
  show ?thesis
  proof (cases "can_apply_in_memory_on_apply ctx (bps_source_size patch) (bps_target_size patch)")
    case True
    have "write_at 0 (bpm_out m) ?out = bpm_out m"
      using write_at_inside [of 0 "bpm_out m" ?out] assms(3) by simp
    with True show ?thesis
      by (simp add: bps_apply_actions_def Let_def apply_in_memory_ok [OF assms])
  next
    case False
    let ?finish = "\<lambda>(prepared, out). case prepared of
                Some (plans, pool) \<Rightarrow> apply_parallel_bps_writes source (bps_source_size patch) plans pool out
              | None \<Rightarrow> Inr out"
    note serial = apply_streaming_ok [OF assms]
    have "\<exists>e v. run_with_optional_pool ctx ?cap (\<not> ?copy)
        (\<lambda>pool. and_then (collect_parallel_bps_write_plans patch) (\<lambda>plans. Inr (Some (plans, pool), ?out)))
        (and_then (apply_patch_actions patch source ?out) (\<lambda>out. Inr (None, out))) = Inr (e, v) \<and>
      ?finish v = Inr (bpm_out m)"
    proof (cases ?copy)
      case True
      have "?finish (None, bpm_out m) = Inr (bpm_out m)" by simp
      with True serial show ?thesis
        by (auto simp: run_with_optional_pool_def Let_def)
    next
      case nocopy: False
      from apply_pool_ok [OF assms nocopy] obtain plans where
        plans: "collect_parallel_bps_write_plans patch = Inr plans"
        "\<forall>pool. apply_parallel_bps_writes source (bps_source_size patch) plans pool ?out = Inr (bpm_out m)" by blast
      show ?thesis
        by (rule run_with_optional_pool_holds) (simp_all add: plans serial)
    qed
    then obtain e prepared out where run: "run_with_optional_pool ctx ?cap (\<not> ?copy)
        (\<lambda>pool. and_then (collect_parallel_bps_write_plans patch) (\<lambda>plans. Inr (Some (plans, pool), ?out)))
        (and_then (apply_patch_actions patch source ?out) (\<lambda>out. Inr (None, out))) = Inr (e, prepared, out)"
      "?finish (prepared, out) = Inr (bpm_out m)" by auto
    with False show ?thesis by (simp add: bps_apply_actions_def Let_def)
  qed
qed

lemma bps_validate_file_ok_iff:
  "bps_validate_file crc32 side f n c check ctx = Inr u \<longleftrightarrow>
     length (file_bytes f) = n \<and> (check \<longrightarrow> crc32_path_cached crc32 f ctx = Inr c)"
  by (auto simp: bps_validate_file_def result_iff)

text \<open>The machine's run of a parsed patch on an input of the declared size, as a function.\<close>

definition bps_runs_to :: "parsed_bps \<Rightarrow> bytes \<Rightarrow> bytes \<Rightarrow> bool" where
  "bps_runs_to patch source out \<longleftrightarrow>
     (\<exists>m. bps_exec source (bps_actions patch) bps_machine_start m \<and> out = bpm_out m)"

lemma bps_runs_to_unique: "bps_runs_to patch source out \<Longrightarrow> bps_runs_to patch source out' \<Longrightarrow> out = out'"
  by (auto simp: bps_runs_to_def dest: bps_exec_deterministic)

lemma bps_parsed_applies:
  assumes "parse_bps_file crc32 pf validate = Inr patch" and "length source = bps_source_size patch"
  shows "\<exists>out. bps_runs_to patch source out \<and> length out = bps_target_size patch \<and>
    (\<forall>ctx. \<exists>e. bps_apply_actions ctx patch source = Inr (e, out))"
proof -
  from parse_bps_file_exec [OF assms] obtain m where m: "bps_exec source (bps_actions patch) bps_machine_start m"
    "length (bpm_out m) = bps_target_size patch" "bps_target_size patch \<le> u64_max" by blast
  with bps_apply_actions_ok [OF m(1) assms(2) m(2) bps_source_size_le [OF assms(1)] m(3)]
  show ?thesis by (auto simp: bps_runs_to_def)
qed

end
