(* ===== verification/Bps_Create_Correct.thy ===== *)
theory Bps_Create_Correct
  imports Bps_Matcher Bps_Apply_Correct
begin

text \<open>
  BPS create emits an action list that the machine runs from the source to the target.  The
  invariant of the main loop ties the bytes written to that list, the tracked relative offsets
  to the machine's cursors, and the pending literal to the part of the target not yet produced.
\<close>

section \<open>Encodings\<close>

definition bps_signed :: "int \<Rightarrow> nat" where
  "bps_signed delta = nat \<bar>delta\<bar> * 2 + of_bool (delta < 0)"

fun bps_encode_action :: "bps_action \<Rightarrow> bytes" where
  "bps_encode_action (SourceRead n) = encode_varint ((n - 1) * 4)"
| "bps_encode_action (TargetRead d) = encode_varint ((length d - 1) * 4 + 1) @ d"
| "bps_encode_action (SourceCopy n delta) = encode_varint ((n - 1) * 4 + 2) @ encode_varint (bps_signed delta)"
| "bps_encode_action (TargetCopy n delta) = encode_varint ((n - 1) * 4 + 3) @ encode_varint (bps_signed delta)"

lemma decode_signed_bps_signed: "decode_signed_offset (bps_signed delta) = delta"
proof -
  have "Suc (k * 2) mod 2 = Suc 0" for k :: nat by presburger
  then show ?thesis by (cases "delta < 0") (auto simp: decode_signed_offset_def bps_signed_def Let_def)
qed

lemma encode_signed_offset_ok:
  assumes "\<bar>delta\<bar> \<le> int u32_max"
  shows "encode_signed_offset delta = Inr (bps_signed delta)"
proof -
  have "nat \<bar>delta\<bar> * 2 < 2 ^ 64" using assms by (simp add: u32_max_def)
  then have shl: "nat \<bar>delta\<bar> * 2 mod 2 ^ 64 = nat \<bar>delta\<bar> * 2" by simp
  have or: "nat \<bar>delta\<bar> * 2 OR of_bool (delta < 0) = bps_signed delta"
    by (simp add: bps_signed_def or_Suc_0_eq)
  have "nat \<bar>delta\<bar> \<le> u64_max" using assms by (simp add: u32_max_def u64_max_def)
  moreover have "i128_checked (- delta) = Some (- delta)" if "delta < 0"
    using assms that by (simp add: i128_checked_def u32_max_def)
  ultimately show ?thesis
    using shl or by (cases "delta < 0") (simp_all add: encode_signed_offset_def Let_def)
qed

lemma encode_action_header_ok:
  assumes "0 < len" and "len \<le> u32_max" and "command < 4"
  shows "encode_action_header len command = Inr ((len - 1) * 4 + command)"
proof -
  have "(len - 1) * 4 < 2 ^ 64" using assms(2) by (simp add: u32_max_def)
  moreover have "(len - 1) * 4 + command \<le> u64_max" using assms by (simp add: u32_max_def u64_max_def)
  ultimately show ?thesis using assms(1) by (simp add: encode_action_header_def Let_def checked_add_opt_def)
qed

lemma bps_varint_len_exact: "bps_varint_len n = length (encode_varint n)"
proof (induction n rule: bps_varint_len.induct)
  case (1 d)
  show ?case
  proof (cases "128 \<le> d")
    case True
    then have "d div 128 \<noteq> 0" by (simp add: div_greater_zero_iff)
    then show ?thesis using 1 True
      by (subst bps_varint_len.simps, subst encode_varint.simps) (simp add: Let_def)
  next
    case False
    then show ?thesis
      by (subst bps_varint_len.simps, subst encode_varint.simps) simp
  qed
qed

section \<open>The invariant\<close>

definition bps_creating ::
  "bytes \<Rightarrow> bytes \<Rightarrow> bytes \<Rightarrow> nat \<Rightarrow> bps_create_state \<Rightarrow> bps_action list \<Rightarrow> bps_machine \<Rightarrow> bool" where
  "bps_creating source tgt hdr p st as m \<longleftrightarrow>
     bw_output (bcs_writer st) = hdr @ concat (map bps_encode_action as) \<and>
     bw_hashed (bcs_writer st) = bw_output (bcs_writer st) \<and>
     bps_exec source as bps_machine_start m \<and>
     p \<le> length tgt \<and> bcs_read_len st \<le> p \<and>
     (0 < bcs_read_len st \<longrightarrow> bcs_read_start st + bcs_read_len st = p) \<and>
     bpm_out m = take (p - bcs_read_len st) tgt \<and>
     bpm_source m = bcs_source_relative st \<and> bpm_target m = bcs_target_relative st \<and>
     0 \<le> bpm_source m \<and> bpm_source m \<le> int (length source) \<and>
     0 \<le> bpm_target m \<and> bpm_target m \<le> int (length tgt) \<and>
     bcs_action_count st = length as"

lemma bps_exec_count: "bps_exec source as m m' \<Longrightarrow> length as + length (bpm_out m) \<le> length (bpm_out m')"
proof (induction as arbitrary: m)
  case (Cons a as)
  then obtain m1 where m1: "bps_step source a m m1" "bps_exec source as m1 m'" by auto
  have "length (bpm_out m) < length (bpm_out m1)"
    using m1(1) by (induction rule: bps_step.induct) auto
  with Cons.IH [OF m1(2)] show ?case by simp
qed simp

lemma bps_creating_count:
  assumes "bps_creating source tgt hdr p st as m" and "length tgt < u32_max"
  shows "saturating_add (bcs_action_count st) 1 = Suc (length as)"
proof -
  have "length as \<le> length (bpm_out m)"
    using bps_exec_count [of source as bps_machine_start m] assms(1)
    by (simp add: bps_creating_def bps_machine_start_def)
  also have "length (bpm_out m) \<le> length tgt" using assms(1) by (auto simp: bps_creating_def)
  finally show ?thesis using assms by (simp add: bps_creating_def saturating_add_def u32_max_def u64_max_def)
qed

text \<open>One more action: what the writers add to the invariant.\<close>

lemma bps_creating_snoc:
  assumes inv: "bps_creating source tgt hdr p st as m" and len: "length tgt < u32_max"
    and step: "bps_step source a m m'" and out: "bpm_out m' = take q tgt" "q \<le> length tgt"
    and rel: "0 \<le> bpm_source m'" "bpm_source m' \<le> int (length source)" "0 \<le> bpm_target m'"
      "bpm_target m' \<le> int (length tgt)"
  shows "bps_creating source tgt hdr q
    (st\<lparr>bcs_writer := bps_write_bytes (bps_encode_action a) (bcs_writer st), bcs_read_len := 0,
        bcs_source_relative := bpm_source m', bcs_target_relative := bpm_target m',
        bcs_action_count := saturating_add (bcs_action_count st) 1\<rparr>) (as @ [a]) m'"
proof -
  have "bps_exec source (as @ [a]) bps_machine_start m'"
    using inv step by (auto simp: bps_creating_def bps_exec_append)
  with assms bps_creating_count [OF inv len] show ?thesis
    by (simp add: bps_creating_def bps_write_bytes_def)
qed

lemma target_read_add_ok:
  assumes "bps_creating source tgt hdr p st as m" and "p + n \<le> length tgt" and "0 < n" and "length tgt < u32_max"
  shows "\<exists>st'. target_read_add p n st = Inr st' \<and> bps_creating source tgt hdr (p + n) st' as m"
proof -
  have "bcs_read_len st + n \<le> u64_max"
    using assms by (auto simp: bps_creating_def u32_max_def u64_max_def)
  then have "target_read_add p n st = Inr (st\<lparr>bcs_read_start := if bcs_read_len st = 0 then p else bcs_read_start st,
      bcs_read_len := bcs_read_len st + n\<rparr>)"
    by (simp add: target_read_add_def checked_add_opt_def Let_def)
  with assms show ?thesis by (auto simp: bps_creating_def)
qed

lemma target_read_flush_ok:
  assumes inv: "bps_creating source tgt hdr p st as m" and len: "length tgt < u32_max"
  shows "\<exists>st' as' m'. target_read_flush tgt st = Inr st' \<and> bps_creating source tgt hdr p st' as' m' \<and>
    bcs_read_len st' = 0 \<and> bcs_output_offset st' = bcs_output_offset st \<and> bcs_matcher st' = bcs_matcher st \<and>
    bcs_source_relative st' = bcs_source_relative st \<and> bcs_target_relative st' = bcs_target_relative st"
proof (cases "bcs_read_len st = 0")
  case True
  with inv show ?thesis by (auto simp: target_read_flush_def)
next
  case False
  let ?start = "bcs_read_start st" and ?n = "bcs_read_len st"
  let ?d = "segment tgt ?start ?n"
  have p: "?start + ?n = p" "p \<le> length tgt" "bpm_out m = take ?start tgt"
    using inv False by (auto simp: bps_creating_def)
  have d: "length ?d = ?n" using p by simp
  have add: "checked_add_opt ?start ?n = Some p" using p len by (simp add: checked_add_opt_def u32_max_def u64_max_def)
  have "encode_action_header (length ?d) 1 = Inr ((length ?d - 1) * 4 + 1)"
    using False p len d by (intro encode_action_header_ok) auto
  then have wr: "write_target_read ?d (bcs_writer st) = Inr (bps_write_bytes (bps_encode_action (TargetRead ?d)) (bcs_writer st))"
    by (simp add: write_target_read_def bps_write_varint_def bps_write_bytes_def)
  have out: "bpm_out m @ ?d = take p tgt"
    using p by (simp add: segment_def flip: take_add)
  have "0 < length ?d" unfolding d using False by simp
  then have "?d \<noteq> []" by (rule length_greater_0_conv [THEN iffD1])
  then have "bps_step source (TargetRead ?d) m (m\<lparr>bpm_out := bpm_out m @ ?d\<rparr>)" by (rule bps_step.target_read)
  from bps_creating_snoc [OF inv len this, of p] out p(2) inv
  have "bps_creating source tgt hdr p
    (st\<lparr>bcs_writer := bps_write_bytes (bps_encode_action (TargetRead ?d)) (bcs_writer st), bcs_read_len := 0,
        bcs_source_relative := bcs_source_relative st, bcs_target_relative := bcs_target_relative st,
        bcs_action_count := saturating_add (bcs_action_count st) 1\<rparr>) (as @ [TargetRead ?d]) (m\<lparr>bpm_out := bpm_out m @ ?d\<rparr>)"
    by (simp add: bps_creating_def)
  moreover have "target_read_flush tgt st = Inr (st\<lparr>bcs_writer := bps_write_bytes (bps_encode_action (TargetRead ?d)) (bcs_writer st), bcs_read_len := 0,
        bcs_source_relative := bcs_source_relative st, bcs_target_relative := bcs_target_relative st,
        bcs_action_count := saturating_add (bcs_action_count st) 1\<rparr>)"
    using False p(2) by (simp add: target_read_flush_def add) (simp add: p(1) [symmetric] wr)
  ultimately show ?thesis by fastforce
qed

lemma copy_bytes_take:
  "start < p \<Longrightarrow> p + n \<le> length tgt \<Longrightarrow> (\<And>i. i < n \<Longrightarrow> tgt ! (start + i) = tgt ! (p + i)) \<Longrightarrow>
    copy_bytes (take p tgt) start n = take (p + n) tgt"
proof (induction n arbitrary: start p)
  case (Suc n)
  have "byte_at (take p tgt) start = tgt ! p" using Suc.prems(1,2) Suc.prems(3) [of 0] by simp
  then have "take p tgt @ [byte_at (take p tgt) start] = take (Suc p) tgt"
    using Suc.prems(2) by (simp add: take_Suc_conv_app_nth)
  moreover have "copy_bytes (take (Suc p) tgt) (Suc start) n = take (Suc p + n) tgt"
    using Suc.prems(3) [of "Suc _"] Suc.prems(1,2) by (intro Suc.IH) auto
  ultimately show ?case by simp
qed simp

lemma write_source_copy_ok:
  assumes "0 < n" and "start + n \<le> u32_max" and "0 \<le> rel" and "rel \<le> int u32_max"
  shows "write_source_copy n start (w, rel) =
    Inr (bps_write_bytes (bps_encode_action (SourceCopy n (int start - rel))) w, int (start + n))"
proof -
  have "\<bar>int start - rel\<bar> \<le> int u32_max" using assms by linarith
  moreover from this have "i128_checked (int start - rel) = Some (int start - rel)"
    by (auto simp: i128_checked_def u32_max_def abs_le_iff)
  moreover have "checked_add_opt start n = Some (start + n)"
    using assms(2) by (simp add: checked_add_opt_def u32_max_def u64_max_def)
  ultimately show ?thesis
    using assms encode_action_header_ok [of n 2]
    by (simp add: write_source_copy_def encode_signed_offset_ok Let_def bps_write_varint_def bps_write_bytes_def)
qed

lemma write_target_copy_ok:
  assumes "0 < n" and "start + n \<le> u32_max" and "0 \<le> rel" and "rel \<le> int u32_max"
  shows "write_target_copy n start (w, rel) =
    Inr (bps_write_bytes (bps_encode_action (TargetCopy n (int start - rel))) w, int (start + n))"
proof -
  have "\<bar>int start - rel\<bar> \<le> int u32_max" using assms by linarith
  moreover from this have "i128_checked (int start - rel) = Some (int start - rel)"
    by (auto simp: i128_checked_def u32_max_def abs_le_iff)
  moreover have "checked_add_opt start n = Some (start + n)"
    using assms(2) by (simp add: checked_add_opt_def u32_max_def u64_max_def)
  ultimately show ?thesis
    using assms encode_action_header_ok [of n 3]
    by (simp add: write_target_copy_def encode_signed_offset_ok Let_def bps_write_varint_def bps_write_bytes_def)
qed

section \<open>Emitting a match or a run\<close>

definition bps_created_upto :: "bytes \<Rightarrow> bytes \<Rightarrow> bytes \<Rightarrow> nat \<Rightarrow> bps_create_state \<Rightarrow> bool" where
  "bps_created_upto source tgt hdr p st \<longleftrightarrow> (\<exists>as m. bps_creating source tgt hdr p st as m)"

lemma bps_creating_relatives:
  assumes "bps_creating source tgt hdr p st as m"
  shows "0 \<le> bcs_source_relative st" and "bcs_source_relative st \<le> int (length source)"
    and "0 \<le> bcs_target_relative st" and "bcs_target_relative st \<le> int (length tgt)"
    and "bcs_read_len st = 0 \<Longrightarrow> bpm_out m = take p tgt" and "p \<le> length tgt"
    and "bpm_source m = bcs_source_relative st" and "bpm_target m = bcs_target_relative st"
  using assms by (auto simp: bps_creating_def)

text \<open>Fields the invariant does not look at.\<close>

lemma bps_creating_other [simp]:
  "bps_creating source tgt hdr p (st\<lparr>bcs_output_offset := k\<rparr>) as m = bps_creating source tgt hdr p st as m"
  "bps_creating source tgt hdr p (st\<lparr>bcs_matcher := mm\<rparr>) as m = bps_creating source tgt hdr p st as m"
  by (simp_all add: bps_creating_def)

lemma bps_created_upto_other [simp]:
  "bps_created_upto source tgt hdr p (st\<lparr>bcs_output_offset := k\<rparr>) = bps_created_upto source tgt hdr p st"
  "bps_created_upto source tgt hdr p (st\<lparr>bcs_matcher := mm\<rparr>) = bps_created_upto source tgt hdr p st"
  by (simp_all add: bps_created_upto_def)

lemma bps_target_copy_out_ok:
  assumes inv: "bps_creating source tgt hdr p st as m" and none: "bcs_read_len st = 0"
    and len: "length tgt < u32_max" and n: "0 < n" "p + n \<le> length tgt" and start: "start < p"
    and eq: "\<And>i. i < n \<Longrightarrow> tgt ! (start + i) = tgt ! (p + i)"
  shows "\<exists>st'. bps_target_copy_out n start st = Inr st' \<and> bps_created_upto source tgt hdr (p + n) st' \<and>
    bcs_read_len st' = 0 \<and> bcs_output_offset st' = bcs_output_offset st \<and> bcs_matcher st' = bcs_matcher st"
proof -
  note rel = bps_creating_relatives [OF inv]
  let ?a = "TargetCopy n (int start - bcs_target_relative st)"
  let ?m = "m\<lparr>bpm_out := copy_bytes (bpm_out m) start n, bpm_target := int (start + n)\<rparr>"
  have wr: "write_target_copy n start (bcs_writer st, bcs_target_relative st) =
      Inr (bps_write_bytes (bps_encode_action ?a) (bcs_writer st), int (start + n))"
    using n start rel len by (intro write_target_copy_ok) auto
  have out: "copy_bytes (bpm_out m) start n = take (p + n) tgt"
    using rel(5) none start n eq by (simp add: copy_bytes_take)
  have "bps_step source ?a m ?m"
    by (rule bps_step.target_copy) (use n start rel none in auto)
  from bps_creating_snoc [OF inv len this] out n start rel
  have "bps_creating source tgt hdr (p + n)
      (st\<lparr>bcs_writer := bps_write_bytes (bps_encode_action ?a) (bcs_writer st), bcs_read_len := 0,
          bcs_source_relative := bcs_source_relative st, bcs_target_relative := int (start + n),
          bcs_action_count := saturating_add (bcs_action_count st) 1\<rparr>) (as @ [?a]) ?m"
    by simp
  moreover have "bps_target_copy_out n start st =
      Inr (st\<lparr>bcs_writer := bps_write_bytes (bps_encode_action ?a) (bcs_writer st), bcs_read_len := 0,
          bcs_source_relative := bcs_source_relative st, bcs_target_relative := int (start + n),
          bcs_action_count := saturating_add (bcs_action_count st) 1\<rparr>)"
    using none unfolding bps_target_copy_out_def wr and_then_simps prod.case by (cases st) simp
  ultimately show ?thesis unfolding bps_created_upto_def by fastforce
qed

lemma bps_source_copy_out_ok:
  assumes inv: "bps_creating source tgt hdr p st as m" and none: "bcs_read_len st = 0"
    and len: "length tgt < u32_max" "length source < u32_max" and n: "0 < n" "p + n \<le> length tgt"
    and start: "start + n \<le> length source" and eq: "segment source start n = segment tgt p n"
  shows "\<exists>st'. bps_source_copy_out n start st = Inr st' \<and> bps_created_upto source tgt hdr (p + n) st' \<and>
    bcs_read_len st' = 0 \<and> bcs_output_offset st' = bcs_output_offset st \<and> bcs_matcher st' = bcs_matcher st"
proof -
  note rel = bps_creating_relatives [OF inv]
  let ?a = "SourceCopy n (int start - bcs_source_relative st)"
  let ?m = "m\<lparr>bpm_out := bpm_out m @ segment source start n, bpm_source := int (start + n)\<rparr>"
  have wr: "write_source_copy n start (bcs_writer st, bcs_source_relative st) =
      Inr (bps_write_bytes (bps_encode_action ?a) (bcs_writer st), int (start + n))"
    using n start rel len by (intro write_source_copy_ok) auto
  have out: "bpm_out m @ segment source start n = take (p + n) tgt"
    using rel(5) none eq by (simp add: segment_def take_add)
  have "bps_step source ?a m ?m"
    by (rule bps_step.source_copy) (use n start rel in auto)
  from bps_creating_snoc [OF inv len(1) this] out n start rel
  have "bps_creating source tgt hdr (p + n)
      (st\<lparr>bcs_writer := bps_write_bytes (bps_encode_action ?a) (bcs_writer st), bcs_read_len := 0,
          bcs_source_relative := int (start + n), bcs_target_relative := bcs_target_relative st,
          bcs_action_count := saturating_add (bcs_action_count st) 1\<rparr>) (as @ [?a]) ?m"
    by simp
  moreover have "bps_source_copy_out n start st =
      Inr (st\<lparr>bcs_writer := bps_write_bytes (bps_encode_action ?a) (bcs_writer st), bcs_read_len := 0,
          bcs_source_relative := int (start + n), bcs_target_relative := bcs_target_relative st,
          bcs_action_count := saturating_add (bcs_action_count st) 1\<rparr>)"
    using none unfolding bps_source_copy_out_def wr and_then_simps prod.case by (cases st) simp
  ultimately show ?thesis unfolding bps_created_upto_def by fastforce
qed

lemma bps_source_read_out_ok:
  assumes inv: "bps_creating source tgt hdr p st as m" and none: "bcs_read_len st = 0"
    and len: "length tgt < u32_max" and n: "0 < n" "p + n \<le> length tgt"
    and src: "p + n \<le> length source" and eq: "segment source p n = segment tgt p n"
  shows "\<exists>w. write_source_read n (bcs_writer st) = Inr w \<and>
    bps_created_upto source tgt hdr (p + n)
      (st\<lparr>bcs_writer := w, bcs_action_count := saturating_add (bcs_action_count st) 1\<rparr>)"
proof -
  note rel = bps_creating_relatives [OF inv]
  let ?m = "m\<lparr>bpm_out := bpm_out m @ segment source (length (bpm_out m)) n\<rparr>"
  have p: "length (bpm_out m) = p" using rel(5,6) none by simp
  have wr: "write_source_read n (bcs_writer st) = Inr (bps_write_bytes (bps_encode_action (SourceRead n)) (bcs_writer st))"
    using n len encode_action_header_ok [of n 0] by (simp add: write_source_read_def bps_write_varint_def)
  have out: "bpm_out ?m = take (p + n) tgt"
    using rel(5) none eq p by (simp add: segment_def take_add)
  have "bps_step source (SourceRead n) m ?m"
    by (rule bps_step.source_read) (use n src p in auto)
  from bps_creating_snoc [OF inv len this out n(2)] rel
  have "bps_creating source tgt hdr (p + n)
      (st\<lparr>bcs_writer := bps_write_bytes (bps_encode_action (SourceRead n)) (bcs_writer st), bcs_read_len := 0,
          bcs_source_relative := bcs_source_relative st, bcs_target_relative := bcs_target_relative st,
          bcs_action_count := saturating_add (bcs_action_count st) 1\<rparr>) (as @ [SourceRead n]) ?m"
    by simp
  moreover have "st\<lparr>bcs_writer := bps_write_bytes (bps_encode_action (SourceRead n)) (bcs_writer st), bcs_read_len := 0,
          bcs_source_relative := bcs_source_relative st, bcs_target_relative := bcs_target_relative st,
          bcs_action_count := saturating_add (bcs_action_count st) 1\<rparr> =
      st\<lparr>bcs_writer := bps_write_bytes (bps_encode_action (SourceRead n)) (bcs_writer st),
          bcs_action_count := saturating_add (bcs_action_count st) 1\<rparr>"
    using none by (cases st) simp
  ultimately show ?thesis unfolding bps_created_upto_def wr by auto
qed

lemma bps_emit_match_ok:
  assumes inv: "bps_created_upto source tgt hdr (bcs_output_offset st) st"
    and len: "length tgt < u32_max" "length source < u32_max"
    and best: "bps_match_ok source tgt (bcs_output_offset st) best" "0 < bcm_len best"
  shows "\<exists>st'. bps_emit_match tgt best st = Inr st' \<and>
    bps_created_upto source tgt hdr (bcs_output_offset st') st' \<and> bcs_matcher st' = bcs_matcher st"
proof -
  let ?p = "bcs_output_offset st" and ?n = "bcm_len best"
  have fits: "?p + ?n \<le> length tgt" using best(1) by (simp add: bps_match_ok.simps)
  have small: "?p + ?n \<le> u64_max" using fits len by (simp add: u32_max_def u64_max_def)
  from inv obtain as m where creating: "bps_creating source tgt hdr ?p st as m" by (auto simp: bps_created_upto_def)
  from target_read_flush_ok [OF this len(1)] obtain st1 as1 m1 where
    st1: "target_read_flush tgt st = Inr st1" "bps_creating source tgt hdr ?p st1 as1 m1" "bcs_read_len st1 = 0"
      "bcs_output_offset st1 = ?p" "bcs_matcher st1 = bcs_matcher st" by blast
  have finish: "\<exists>st'. and_then (Inr st2) (bps_advance_output ?n) = Inr st' \<and>
      bps_created_upto source tgt hdr (bcs_output_offset st') st' \<and> bcs_matcher st' = bcs_matcher st"
    if "bps_created_upto source tgt hdr (?p + ?n) st2" "bcs_output_offset st2 = ?p" "bcs_matcher st2 = bcs_matcher st" for st2
    using that small by (simp add: bps_advance_output_Ok)
  show ?thesis
  proof (cases "bcm_mode best")
    case ModeTargetRead
    from target_read_add_ok [OF creating fits best(2) len(1)] obtain st2 where
      st2: "target_read_add ?p ?n st = Inr st2" "bps_creating source tgt hdr (?p + ?n) st2 as m" by blast
    then have "bcs_matcher st2 = bcs_matcher st" "bcs_output_offset st2 = ?p"
      by (auto simp: target_read_add_def Let_def result_iff)
    with finish [of st2] st2 ModeTargetRead show ?thesis
      by (auto simp: bps_emit_match_def bps_created_upto_def)
  next
    case ModeSourceRead
    with best(1) have "?p + ?n \<le> length source" "segment source ?p ?n = segment tgt ?p ?n"
      by (simp_all add: bps_match_ok.simps)
    from bps_source_read_out_ok [OF st1(2,3) len(1) best(2) fits this] obtain w where
      w: "write_source_read ?n (bcs_writer st1) = Inr w" "bps_created_upto source tgt hdr (?p + ?n)
      (st1\<lparr>bcs_writer := w, bcs_action_count := saturating_add (bcs_action_count st1) 1\<rparr>)" by blast
    from finish [OF w(2)] st1 w(1) ModeSourceRead show ?thesis by (simp add: bps_emit_match_def)
  next
    case ModeSourceCopy
    with best(1) have "bcm_offset best + ?n \<le> length source" "segment source (bcm_offset best) ?n = segment tgt ?p ?n"
      by (simp_all add: bps_match_ok.simps)
    from bps_source_copy_out_ok [OF st1(2,3) len best(2) fits this] obtain st2 where
      st2: "bps_source_copy_out ?n (bcm_offset best) st1 = Inr st2" "bps_created_upto source tgt hdr (?p + ?n) st2"
        "bcs_output_offset st2 = bcs_output_offset st1" "bcs_matcher st2 = bcs_matcher st1" by blast
    from finish [OF st2(2)] st1 st2 ModeSourceCopy show ?thesis by (simp add: bps_emit_match_def)
  next
    case ModeTargetCopy
    with best(1) have start: "bcm_offset best < ?p" "segment tgt (bcm_offset best) ?n = segment tgt ?p ?n"
      by (simp_all add: bps_match_ok.simps)
    have "tgt ! (bcm_offset best + i) = tgt ! (?p + i)" if "i < ?n" for i
      using arg_cong [OF start(2), of "\<lambda>s. s ! i"] that fits start(1) by (simp add: nth_segment)
    from bps_target_copy_out_ok [OF st1(2,3) len(1) best(2) fits start(1) this] obtain st2 where
      st2: "bps_target_copy_out ?n (bcm_offset best) st1 = Inr st2" "bps_created_upto source tgt hdr (?p + ?n) st2"
        "bcs_output_offset st2 = bcs_output_offset st1" "bcs_matcher st2 = bcs_matcher st1" by blast
    from finish [OF st2(2)] st1 st2 ModeTargetCopy show ?thesis by (simp add: bps_emit_match_def)
  qed
qed

lemma run_from_spec:
  "(\<And>i. i < len \<Longrightarrow> bs ! (off + i) = b) \<Longrightarrow> off + len \<le> length bs \<Longrightarrow>
    (let n = run_from bs off b len in len \<le> n \<and> off + n \<le> length bs \<and> (\<forall>i < n. bs ! (off + i) = b))"
proof (induction bs off b len rule: run_from.induct)
  case (1 bs off b len)
  show ?case
  proof (cases "off + len < length bs \<and> bs ! (off + len) = b")
    case True
    have "bs ! (off + i) = b" if "i < len + 1" for i
      using that True "1.prems"(1) [of i] by (cases "i = len") auto
    with "1.IH" True show ?thesis by (subst run_from.simps) (auto simp: Let_def)
  next
    case False
    with "1.prems" show ?thesis by (subst run_from.simps) (auto simp: Let_def)
  qed
qed

lemma repeated_byte_run_len_spec:
  assumes "off < length bs"
  shows "off + repeated_byte_run_len bs off \<le> length bs"
    and "i < repeated_byte_run_len bs off \<Longrightarrow> bs ! (off + i) = bs ! off"
  using run_from_spec [of 1 bs off "bs ! off"] assms by (auto simp: repeated_byte_run_len_def Let_def)

lemma bps_emit_run_ok:
  assumes inv: "bps_created_upto source tgt hdr (bcs_output_offset st) st" and len: "length tgt < u32_max"
    and off: "bcs_output_offset st < length tgt" and n: "n = repeated_byte_run_len tgt (bcs_output_offset st)" "1 < n"
  shows "\<exists>st'. bps_emit_run tgt n st = Inr st' \<and>
    bps_created_upto source tgt hdr (bcs_output_offset st') st' \<and> bcs_matcher st' = bcs_matcher st"
proof -
  let ?p = "bcs_output_offset st"
  from inv obtain as m where creating: "bps_creating source tgt hdr ?p st as m" by (auto simp: bps_created_upto_def)
  note run = repeated_byte_run_len_spec [OF off, folded n(1)]
  from target_read_add_ok [OF creating _ _ len, of 1] off obtain st0 where
    st0: "target_read_add ?p 1 st = Inr st0" "bps_creating source tgt hdr (?p + 1) st0 as m" by auto
  then have other: "bcs_matcher st0 = bcs_matcher st" "bcs_output_offset st0 = ?p"
    by (auto simp: target_read_add_def Let_def result_iff)
  from target_read_flush_ok [OF st0(2) len] obtain st1 as1 m1 where
    st1: "target_read_flush tgt st0 = Inr st1" "bps_creating source tgt hdr (?p + 1) st1 as1 m1" "bcs_read_len st1 = 0"
      "bcs_output_offset st1 = ?p" "bcs_matcher st1 = bcs_matcher st" using other by auto
  have eq: "tgt ! (?p + i) = tgt ! (?p + 1 + i)" if "i < n - 1" for i
    using run(2) [of i] run(2) [of "1 + i"] that by simp
  have "0 < n - 1" "?p + 1 + (n - 1) \<le> length tgt" "?p < ?p + 1" using run(1) n(2) by simp_all
  from bps_target_copy_out_ok [OF st1(2,3) len this eq] obtain st2 where
    st2: "bps_target_copy_out (n - 1) ?p st1 = Inr st2" "bps_created_upto source tgt hdr (?p + 1 + (n - 1)) st2"
      "bcs_output_offset st2 = ?p" "bcs_matcher st2 = bcs_matcher st"
    unfolding st1(4,5) by blast
  have "?p + n \<le> u64_max" using run(1) len by (simp add: u32_max_def u64_max_def)
  with st0 st1 st2 n(2) show ?thesis
    by (simp add: bps_emit_run_def Let_def bps_advance_output_Ok)
qed

section \<open>The main loop\<close>

lemma bps_signed_le: "\<bar>delta\<bar> \<le> int u32_max \<Longrightarrow> bps_signed delta \<le> u64_max"
proof -
  assume "\<bar>delta\<bar> \<le> int u32_max"
  then have "nat \<bar>delta\<bar> \<le> u32_max" by linarith
  then have "nat \<bar>delta\<bar> * 2 + 1 \<le> u64_max" by (simp only: u32_max_def u64_max_def)
  moreover have "bps_signed delta \<le> nat \<bar>delta\<bar> * 2 + 1" by (simp add: bps_signed_def of_bool_def)
  ultimately show ?thesis by linarith
qed

lemma bps_copy_worth_ok:
  assumes "\<bar>delta\<bar> \<le> int u32_max"
  shows "\<exists>w. bps_create_copy_match_is_worth len delta pending = Inr w"
proof -
  from length_encode_varint [OF bps_signed_le [OF assms]] have "bps_varint_len (bps_signed delta) \<le> 10"
    by (simp add: bps_varint_len_exact varint_max_len_def)
  then have "checked_add_opt 1 (bps_varint_len (bps_signed delta)) = Some (1 + bps_varint_len (bps_signed delta))"
    "checked_add_opt 1 (1 + bps_varint_len (bps_signed delta)) = Some (2 + bps_varint_len (bps_signed delta))"
    "\<And>b. checked_add_opt (2 + bps_varint_len (bps_signed delta)) (of_bool b) = Some (2 + bps_varint_len (bps_signed delta) + of_bool b)"
    "\<And>b c. checked_add_opt (2 + bps_varint_len (bps_signed delta) + of_bool b) (of_bool c) =
      Some (2 + bps_varint_len (bps_signed delta) + of_bool b + of_bool c)"
    by (auto simp: checked_add_opt_def u64_max_def of_bool_def)
  then show ?thesis
    by (simp add: bps_create_copy_match_is_worth_def encode_signed_offset_ok [OF assms])
qed

lemma bps_worthy_match_ok:
  assumes inv: "bps_created_upto source tgt hdr (bcs_output_offset st) st"
    and len: "length tgt < u32_max" "length source < u32_max" and off: "bcs_output_offset st < length tgt"
    and best: "bps_match_ok source tgt (bcs_output_offset st) best"
  shows "\<exists>best'. bps_worthy_match best st = Inr best' \<and>
    bps_match_ok source tgt (bcs_output_offset st) best' \<and> 0 < bcm_len best'"
proof -
  let ?p = "bcs_output_offset st"
  have literal: "bps_match_ok source tgt ?p (best\<lparr>bcm_mode := ModeTargetRead, bcm_len := 1\<rparr>)"
    using off by (simp add: bps_match_ok.simps)
  have "\<exists>w. bps_create_match_is_worth (bcm_mode best) (bcm_len best) (bcm_offset best) ?p
      (bcs_source_relative st) (bcs_target_relative st) (bcs_read_len st) = Inr w"
    if pos: "0 < bcm_len best"
  proof (cases "bcm_mode best")
    case ModeSourceRead
    then show ?thesis
      by (auto simp: bps_create_match_is_worth_def checked_add_opt_def u64_max_def)
  next
    case ModeTargetRead
    then show ?thesis by (simp add: bps_create_match_is_worth_def) blast
  next
    case ModeSourceCopy
    from inv obtain as m where "bps_creating source tgt hdr ?p st as m" by (auto simp: bps_created_upto_def)
    note rel = bps_creating_relatives [OF this]
    have small: "\<bar>int (bcm_offset best) - bcs_source_relative st\<bar> \<le> int u32_max"
    proof -
      have "bcm_offset best \<le> length source" using best ModeSourceCopy by (simp add: bps_match_ok.simps)
      with rel(1,2) len show ?thesis by linarith
    qed
    then have "i128_checked (int (bcm_offset best) - bcs_source_relative st) = Some (int (bcm_offset best) - bcs_source_relative st)"
      by (auto simp: i128_checked_def u32_max_def abs_le_iff)
    with ModeSourceCopy pos bps_copy_worth_ok [OF small] show ?thesis by (simp add: bps_create_match_is_worth_def)
  next
    case ModeTargetCopy
    from inv obtain as m where "bps_creating source tgt hdr ?p st as m" by (auto simp: bps_created_upto_def)
    note rel = bps_creating_relatives [OF this]
    have small: "\<bar>int (bcm_offset best) - bcs_target_relative st\<bar> \<le> int u32_max"
    proof -
      have "bcm_offset best \<le> length tgt" using best ModeTargetCopy off by (simp add: bps_match_ok.simps)
      with rel(3,4) len show ?thesis by linarith
    qed
    then have "i128_checked (int (bcm_offset best) - bcs_target_relative st) = Some (int (bcm_offset best) - bcs_target_relative st)"
      by (auto simp: i128_checked_def u32_max_def abs_le_iff)
    with ModeTargetCopy pos bps_copy_worth_ok [OF small] show ?thesis by (simp add: bps_create_match_is_worth_def)
  qed
  with literal best show ?thesis
    by (cases "bcm_len best = 0") (force simp: bps_worthy_match_def)+
qed

definition bps_loop_inv ::
  "(bytes \<Rightarrow> nat list) \<Rightarrow> bytes \<Rightarrow> bytes \<Rightarrow> bytes \<Rightarrow> bps_create_state \<Rightarrow> bool" where
  "bps_loop_inv sa source tgt hdr st \<longleftrightarrow>
     bps_matcher_wf sa source tgt (bcs_matcher st) \<and> bps_created_upto source tgt hdr (bcs_output_offset st) st"

lemma bps_create_step_ok:
  assumes inv: "bps_loop_inv sa source tgt hdr st"
    and len: "length tgt < u32_max" "length source < u32_max" and off: "bcs_output_offset st < length tgt"
    and m: "bps_ensure_indexed sa (bcs_output_offset st) (bcs_matcher st) = Inr m"
    and best: "bps_best_match source tgt m (bcs_output_offset st) = Inr best"
  shows "\<exists>st'. bps_create_step sa source tgt st = Inr st' \<and> bps_loop_inv sa source tgt hdr st'"
proof -
  let ?p = "bcs_output_offset st" and ?st = "st\<lparr>bcs_matcher := m\<rparr>"
  have u64: "length tgt \<le> u64_max" using len by (simp add: u32_max_def u64_max_def)
  have wf: "bps_matcher_wf sa source tgt m" "?p < bsm_sorted_target_len m"
    using bps_ensure_indexed_wf [OF m _ off u64] inv by (auto simp: bps_loop_inv_def)
  have upto: "bps_created_upto source tgt hdr (bcs_output_offset ?st) ?st" using inv by (simp add: bps_loop_inv_def)
  have match: "bps_match_ok source tgt (bcs_output_offset ?st) best"
    using bps_best_match_ok [OF wf(1) _ best] wf(2) by simp
  let ?n = "repeated_byte_run_len tgt ?p"
  note step = bps_create_step_def [of sa source tgt st, unfolded Let_def m and_then_simps best]
  show ?thesis
  proof (cases "BPS_MIN_COPY_LENGTH < ?n \<and> bcm_len best < ?n - 1")
    case True
    then have "1 < ?n" by (simp add: BPS_MIN_COPY_LENGTH_def)
    with bps_emit_run_ok [OF upto len(1), of ?n] off wf(1) True show ?thesis
      by (auto simp: step bps_loop_inv_def)
  next
    case False
    from bps_worthy_match_ok [OF upto len _ match] off obtain best' where
      b: "bps_worthy_match best ?st = Inr best'" "bps_match_ok source tgt (bcs_output_offset ?st) best'" "0 < bcm_len best'"
      by auto
    with bps_emit_match_ok [OF upto len b(2,3)] wf(1) show ?thesis
      unfolding step if_not_P [OF False] by (auto simp: bps_loop_inv_def)
  qed
qed

lemma bps_create_loop_inv:
  assumes "bps_create_loop sa source tgt st = Inr st'" and "bps_loop_inv sa source tgt hdr st"
    and len: "length tgt < u32_max" "length source < u32_max"
  shows "bps_loop_inv sa source tgt hdr st' \<and> bcs_output_offset st' = length tgt"
  using assms
proof (induction sa source tgt st rule: bps_create_loop.induct)
  case (1 sa source tgt st)
  show ?case
  proof (cases "bcs_output_offset st < length tgt")
    case False
    with "1.prems"(1) have "st' = st" by (subst (asm) bps_create_loop.simps) simp
    moreover have "bcs_output_offset st \<le> length tgt"
      using "1.prems"(2) by (auto simp: bps_loop_inv_def bps_created_upto_def bps_creating_def)
    ultimately show ?thesis using False "1.prems"(2) by simp
  next
    case True
    with "1.prems"(1) obtain st1 where st1: "bps_create_step sa source tgt st = Inr st1"
      "bps_create_loop sa source tgt st1 = Inr st'"
      by (subst (asm) bps_create_loop.simps) (auto simp: result_iff)
    from st1(1) obtain m best where "bps_ensure_indexed sa (bcs_output_offset st) (bcs_matcher st) = Inr m"
      "bps_best_match source tgt m (bcs_output_offset st) = Inr best"
      by (auto simp: bps_create_step_def Let_def result_iff)
    from bps_create_step_ok [OF "1.prems"(2-4) True this] st1(1)
    have "bps_loop_inv sa source tgt hdr st1" by simp
    from "1.IH" [OF True st1(1) st1(2) this "1.prems"(3,4)] show ?thesis .
  qed
qed

text \<open>With a suffix array as documented, no turn of the loop can fail.\<close>

lemma bps_best_match_total:
  assumes wf: "bps_matcher_wf sa source tgt m" and off: "off < bsm_sorted_target_len m"
    and sa: "\<forall>bs. length bs < u32_max \<longrightarrow> is_suffix_array bs (sa bs)"
  shows "\<exists>best. bps_best_match source tgt m off = Inr best"
proof -
  from rank_for_output_offset_ok [OF assms] obtain rank where "rank_for_output_offset m off = Inr rank" by blast
  from bps_find_ok [OF wf _ this] off obtain c where "bps_find m off = Inr c" by auto
  then show ?thesis by (simp add: bps_best_match_def Let_def)
qed

lemma bps_create_loop_total:
  assumes "bps_loop_inv sa source tgt hdr st" and "length tgt + length source < u32_max"
    and "\<forall>bs. length bs < u32_max \<longrightarrow> is_suffix_array bs (sa bs)"
  shows "\<exists>st'. bps_create_loop sa source tgt st = Inr st'"
  using assms
proof (induction sa source tgt st rule: bps_create_loop.induct)
  case (1 sa source tgt st)
  have len: "length tgt < u32_max" "length source < u32_max" using "1.prems"(2) by simp_all
  then have u64: "length tgt \<le> u64_max" by (simp add: u32_max_def u64_max_def)
  show ?case
  proof (cases "bcs_output_offset st < length tgt")
    case False
    then show ?thesis by (subst bps_create_loop.simps) simp
  next
    case True
    have wf: "bps_matcher_wf sa source tgt (bcs_matcher st)" using "1.prems"(1) by (simp add: bps_loop_inv_def)
    from bps_ensure_indexed_ok [OF wf "1.prems"(2,3)] obtain m where
      m: "bps_ensure_indexed sa (bcs_output_offset st) (bcs_matcher st) = Inr m" by blast
    from bps_ensure_indexed_wf [OF m wf True u64]
    have "bps_matcher_wf sa source tgt m" "bcs_output_offset st < bsm_sorted_target_len m" .
    from bps_best_match_total [OF this "1.prems"(3)] obtain best where
      "bps_best_match source tgt m (bcs_output_offset st) = Inr best" by blast
    from bps_create_step_ok [OF "1.prems"(1) len True m this] obtain st1 where
      st1: "bps_create_step sa source tgt st = Inr st1" "bps_loop_inv sa source tgt hdr st1" by blast
    from "1.IH" [OF True st1 "1.prems"(2,3)] st1(1) True show ?thesis
      by (subst bps_create_loop.simps) simp
  qed
qed

section \<open>The created patch\<close>

definition bps_patch_bytes ::
  "(bytes \<Rightarrow> u32) \<Rightarrow> bps_action list \<Rightarrow> nat \<Rightarrow> nat \<Rightarrow> u32 \<Rightarrow> u32 \<Rightarrow> bytes" where
  "bps_patch_bytes crc32 as n m sc tc =
     (let body = BPS_MAGIC @ encode_varint n @ encode_varint m @ encode_varint 0 @
            concat (map bps_encode_action as) @ le_bytes 4 (unat sc) @ le_bytes 4 (unat tc)
      in body @ le_bytes 4 (unat (crc32 body)))"

definition bps_create_start :: "bps_matcher \<Rightarrow> bps_writer \<Rightarrow> bps_create_state" where
  "bps_create_start matcher writer =
     \<lparr>bcs_matcher = matcher, bcs_writer = writer, bcs_read_start = 0, bcs_read_len = 0,
      bcs_source_relative = 0, bcs_target_relative = 0, bcs_output_offset = 0, bcs_action_count = 0\<rparr>"

definition bps_header :: "nat \<Rightarrow> nat \<Rightarrow> bytes" where
  "bps_header n m = BPS_MAGIC @ encode_varint n @ encode_varint m @ encode_varint 0"

lemma bps_header_writer:
  "bps_write_varint 0 (bps_write_varint m (bps_write_varint n (bps_write_bytes BPS_MAGIC bps_writer_new))) =
     \<lparr>bw_output = bps_header n m, bw_hashed = bps_header n m\<rparr>"
  by (simp add: bps_write_varint_def bps_write_bytes_def bps_writer_new_def bps_header_def)

lemma bps_create_start_inv:
  "bps_matcher_wf sa source tgt matcher \<Longrightarrow>
    bps_loop_inv sa source tgt hdr (bps_create_start matcher \<lparr>bw_output = hdr, bw_hashed = hdr\<rparr>)"
  by (auto simp: bps_loop_inv_def bps_create_start_def bps_created_upto_def bps_creating_def
      bps_machine_start_def intro!: exI [of _ "[]"])

lemma read_bps_create_data_iff:
  "read_bps_create_data source (length source) tgt (length tgt) = Inr d \<longleftrightarrow>
     length source + length tgt < u32_max \<and> d = bps_data_of source tgt"
  by (auto simp: read_bps_create_data_def bps_create_usize_len_def BPS_NO_OFFSET_def result_iff Let_def
      bps_data_of_def checked_add_opt_def u32_max_def u64_max_def)

lemma create_bps_patch_in_memory_unfold:
  assumes "can_apply_in_memory ctx (length source) (length tgt)"
    and "length source + length tgt < u32_max"
  shows "create_bps_patch_in_memory crc32 sa ctx source tgt =
    and_then (bps_create_suffix_index_mode (length source) (length tgt)) (\<lambda>mode.
    and_then (bps_matcher_new sa (bps_data_of source tgt) mode) (\<lambda>matcher.
    and_then (bps_create_loop sa source tgt (bps_create_start matcher
      \<lparr>bw_output = bps_header (length source) (length tgt), bw_hashed = bps_header (length source) (length tgt)\<rparr>)) (\<lambda>st.
    and_then (target_read_flush tgt st) (\<lambda>st.
    Inr \<lparr>cbps_bytes = bps_writer_finish crc32 (crc32 source) (crc32 tgt) (bcs_writer st),
         cbps_action_count = bcs_action_count st\<rparr>))))"
proof -
  have "read_bps_create_data source (length source) tgt (length tgt) = Inr (bps_data_of source tgt)"
    using assms(2) by (simp add: read_bps_create_data_iff)
  then show ?thesis using assms(1)
    by (simp add: create_bps_patch_in_memory_def Let_def bps_header_writer bps_create_start_def)
qed

lemma create_bps_patch_requires:
  assumes "create_bps_patch_in_memory crc32 sa ctx source tgt = Inr c"
  shows "can_apply_in_memory ctx (length source) (length tgt)" and "length source + length tgt < u32_max"
  using assms by (auto simp: create_bps_patch_in_memory_def Let_def result_iff read_bps_create_data_iff split: if_splits)

lemma create_bps_patch_bytes:
  assumes "create_bps_patch_in_memory crc32 sa ctx source tgt = Inr c"
  shows "\<exists>as m. cbps_bytes c = bps_patch_bytes crc32 as (length source) (length tgt) (crc32 source) (crc32 tgt) \<and>
    bps_exec source as bps_machine_start m \<and> bpm_out m = tgt \<and> cbps_action_count c = length as"
proof -
  note req = create_bps_patch_requires [OF assms]
  have len: "length tgt < u32_max" "length source < u32_max" using req(2) by simp_all
  let ?hdr = "bps_header (length source) (length tgt)"
  from assms [unfolded create_bps_patch_in_memory_unfold [OF req]] obtain mode matcher st st1 where
    matcher: "bps_matcher_new sa (bps_data_of source tgt) mode = Inr matcher" and
    st: "bps_create_loop sa source tgt (bps_create_start matcher \<lparr>bw_output = ?hdr, bw_hashed = ?hdr\<rparr>) = Inr st" and
    st1: "target_read_flush tgt st = Inr st1" and
    c: "c = \<lparr>cbps_bytes = bps_writer_finish crc32 (crc32 source) (crc32 tgt) (bcs_writer st1),
             cbps_action_count = bcs_action_count st1\<rparr>"
    by (auto simp: result_iff)
  have "bps_matcher_wf sa source tgt matcher"
    using matcher bps_reindex_wf(1) by (auto simp: bps_matcher_new_def)
  from bps_create_loop_inv [OF st bps_create_start_inv [OF this] len] obtain as m where
    "bps_creating source tgt ?hdr (length tgt) st as m" by (auto simp: bps_loop_inv_def bps_created_upto_def)
  from target_read_flush_ok [OF this len(1)] st1 obtain as1 m1 where
    fin: "bps_creating source tgt ?hdr (length tgt) st1 as1 m1" "bcs_read_len st1 = 0" by auto
  then have "bps_writer_finish crc32 (crc32 source) (crc32 tgt) (bcs_writer st1) =
      bps_patch_bytes crc32 as1 (length source) (length tgt) (crc32 source) (crc32 tgt)"
    by (simp add: bps_writer_finish_def bps_patch_bytes_def bps_write_bytes_def bps_creating_def bps_header_def Let_def)
  with fin c show ?thesis by (auto simp: bps_creating_def)
qed

lemma create_bps_patch_total:
  assumes "can_apply_in_memory ctx (length source) (length tgt)"
    and "length source + length tgt < u32_max"
    and "bps_create_suffix_index_mode (length source) (length tgt) = Inr mode"
    and sa: "\<forall>bs. length bs < u32_max \<longrightarrow> is_suffix_array bs (sa bs)"
  shows "\<exists>c. create_bps_patch_in_memory crc32 sa ctx source tgt = Inr c"
proof -
  have len: "length tgt < u32_max" "length source < u32_max" and sum: "length tgt + length source < u32_max"
    using assms(2) by simp_all
  let ?hdr = "bps_header (length source) (length tgt)"
  obtain matcher where matcher: "bps_matcher_new sa (bps_data_of source tgt) mode = Inr matcher"
    using bps_reindex_ok [OF _ sum sa] by (fastforce simp: bps_matcher_new_def)
  then have "bps_matcher_wf sa source tgt matcher"
    using bps_reindex_wf(1) by (auto simp: bps_matcher_new_def)
  note start = bps_create_start_inv [OF this, of ?hdr]
  from bps_create_loop_total [OF start sum sa] obtain st where
    st: "bps_create_loop sa source tgt (bps_create_start matcher \<lparr>bw_output = ?hdr, bw_hashed = ?hdr\<rparr>) = Inr st" by blast
  from bps_create_loop_inv [OF st start len] obtain as m where
    "bps_creating source tgt ?hdr (length tgt) st as m" by (auto simp: bps_loop_inv_def bps_created_upto_def)
  from target_read_flush_ok [OF this len(1)] obtain st1 where "target_read_flush tgt st = Inr st1" by blast
  with st matcher assms(3) show ?thesis
    by (simp add: create_bps_patch_in_memory_unfold [OF assms(1,2)])
qed

lemma bps_create_inputs_fit_iff: "bps_create_inputs_fit n m \<longleftrightarrow> n + m \<le> 214748364"
  by (auto simp: bps_create_inputs_fit_def checked_add_opt_def BPS_CREATE_MAX_COMBINED_INPUT_BYTES_def
      bps_create_max_combined_input_bytes_def BPS_CREATE_MEMORY_LIMIT_BYTES_def
      BPS_CREATE_LOW_MEMORY_INDEX_BYTES_PER_SLOT_def u64_max_def)

lemma bps_estimate_ok:
  assumes "n + m \<le> 2 * u64_max" and "slot \<le> 8"
  shows "bps_create_estimated_suffix_memory_bytes_for_index n m slot = Inr (n + m + (n + m + 1) * slot)"
proof -
  have "(n + m + 1) * slot \<le> (2 * u64_max + 1) * 8" by (rule mult_le_mono) (use assms in auto)
  then have "(n + m + 1) * slot < 2 ^ 127" "n + m + 1 < 2 ^ 127" using assms(1) by (simp_all add: u64_max_def)
  then show ?thesis
    by (simp add: bps_create_estimated_suffix_memory_bytes_for_index_def u128_checked_def)
qed

lemma bps_create_suffix_index_mode_iff:
  assumes "n + m \<le> 2 * u64_max"
  shows "is_ok (bps_create_suffix_index_mode n m) \<longleftrightarrow> bps_create_inputs_fit n m"
proof -
  have fast: "bps_create_estimated_suffix_memory_bytes n m = Inr (n + m + (n + m + 1) * 8)"
    and low: "bps_create_estimated_low_memory_suffix_bytes n m = Inr (n + m + (n + m + 1) * 4)"
    using bps_estimate_ok [OF assms] by (simp_all add: bps_create_estimated_suffix_memory_bytes_def
        bps_create_estimated_low_memory_suffix_bytes_def BPS_CREATE_FAST_INDEX_BYTES_PER_SLOT_def
        BPS_CREATE_LOW_MEMORY_INDEX_BYTES_PER_SLOT_def)
  show ?thesis
    by (auto simp: bps_create_suffix_index_mode_def fast low bps_create_inputs_fit_iff
        BPS_CREATE_MEMORY_LIMIT_BYTES_def is_ok_iff)
qed

end
