(* ===== verification/Bps_Parse_Correct.thy ===== *)
theory Bps_Parse_Correct
  imports Bps_Create_Correct
begin

text \<open>
  The BPS parser reads back what create writes: an action list the machine can run from the
  start parses from its encoding to itself.
\<close>

section \<open>The parser as a reader\<close>

definition bps_parser_wf :: "bps_parser \<Rightarrow> bool" where
  "bps_parser_wf p \<longleftrightarrow> bp_offset p \<le> bp_end p \<and> bp_end p \<le> u64_max \<and>
     bp_end p - bp_offset p \<le> length (bp_reader p)"

definition bps_unread :: "bps_parser \<Rightarrow> bytes" where
  "bps_unread p = take (bp_end p - bp_offset p) (bp_reader p)"

lemma length_bps_unread: "bps_parser_wf p \<Longrightarrow> length (bps_unread p) = bp_end p - bp_offset p"
  by (simp add: bps_parser_wf_def bps_unread_def)

interpretation bps_reader: exact_reader bps_read_exact bps_unread bps_parser_wf
proof
  fix p n
  assume wf: "bps_parser_wf p" and n: "n \<le> length (bps_unread p)"
  then have n': "n \<le> bp_end p - bp_offset p" by (simp add: length_bps_unread)
  with wf have "bps_read_exact p n =
      Inr (take n (bp_reader p), p\<lparr>bp_reader := drop n (bp_reader p), bp_offset := bp_offset p + n\<rparr>)"
    by (auto simp: bps_read_exact_def reader_read_exact_def bps_parser_wf_def checked_add_opt_def)
  then show "\<exists>q. bps_read_exact p n = Inr (take n (bps_unread p), q) \<and> bps_parser_wf q \<and>
      bps_unread q = drop n (bps_unread p)"
    using wf n' by (auto simp: bps_parser_wf_def bps_unread_def drop_take min_absorb1)
next
  fix p n
  assume "bps_parser_wf p" and "length (bps_unread p) < n"
  then show "\<not> is_ok (bps_read_exact p n)"
    by (auto simp: length_bps_unread bps_read_exact_def bps_parser_wf_def checked_add_opt_def
        invalid_def invalid_fmt_def)
qed

lemma bps_read_varint_ok:
  "bps_parser_wf p \<Longrightarrow> bps_unread p = encode_varint n @ rest \<Longrightarrow> n \<le> u64_max \<Longrightarrow>
   \<exists>q. bps_read_varint p = Inr (n, q) \<and> bps_parser_wf q \<and> bps_unread q = rest"
  unfolding bps_read_varint_def bps_read_u8_def by (rule bps_reader.read_varint_encode)

lemma bps_at_end_iff: "bps_parser_wf p \<Longrightarrow> bps_is_at_end p \<longleftrightarrow> bps_unread p = []"
  by (auto simp: bps_parser_wf_def bps_is_at_end_def bps_unread_def)

section \<open>Actions\<close>

definition bps_cursor_of :: "bps_machine \<Rightarrow> bps_cursor" where
  "bps_cursor_of m = \<lparr>bc_output_size = length (bpm_out m), bc_source_relative = bpm_source m,
     bc_target_relative = bpm_target m\<rparr>"

definition bps_cursors_ok :: "bytes \<Rightarrow> bps_machine \<Rightarrow> bool" where
  "bps_cursors_ok source m \<longleftrightarrow> 0 \<le> bpm_source m \<and> bpm_source m \<le> int (length source) \<and>
     0 \<le> bpm_target m \<and> bpm_target m \<le> int (length (bpm_out m))"

lemma bps_step_cursors_ok: "bps_step source a m m' \<Longrightarrow> bps_cursors_ok source m \<Longrightarrow> bps_cursors_ok source m'"
  by (induction rule: bps_step.induct) (auto simp: bps_cursors_ok_def)

text \<open>The offsets a step uses are within 32 bits, so their codes are 64-bit numbers.\<close>

lemma bps_step_offset_small:
  assumes "bps_step source a m m'" and "bps_cursors_ok source m" and "length source \<le> u32_max"
    and "length (bpm_out m') \<le> u32_max"
  shows "a = SourceCopy n d \<or> a = TargetCopy n d \<Longrightarrow> \<bar>d\<bar> \<le> int u32_max"
  using assms by (cases rule: bps_step.cases) (auto simp: bps_cursors_ok_def)

lemma bps_parse_action_encode:
  assumes step: "bps_step source a m m'" and cur: "bps_cursors_ok source m"
    and len: "length source \<le> u32_max" "length (bpm_out m') \<le> u32_max"
    and p: "bps_parser_wf p" "bps_unread p = bps_encode_action a @ rest"
  shows "\<exists>q. bps_parse_action (length source) p (bps_cursor_of m) = Inr (a, q, bps_cursor_of m') \<and>
    bps_parser_wf q \<and> bps_unread q = rest"
proof -
  let ?n = "bps_action_len a"
  have n: "0 < ?n" and total: "length (bpm_out m') = length (bpm_out m) + ?n"
    using step bps_step_length [OF step] by (auto elim: bps_step.cases)
  have n32: "?n \<le> u32_max" using total len(2) by simp
  have header: "(?n - 1) * 4 + c \<le> u64_max" if "c < 4" for c
    using n32 that by (simp add: u32_max_def u64_max_def)
  have adds: "checked_add_opt (?n - 1) 1 = Some ?n"
    "checked_add_opt (length (bpm_out m)) ?n = Some (length (bpm_out m'))"
    using n n32 total len(2) by (simp_all add: checked_add_opt_def u32_max_def u64_max_def)
  have div: "((?n - 1) * 4 + c) div 4 = ?n - 1" "((?n - 1) * 4 + c) mod 4 = c" if "c < 4" for c
    using that by auto
  have u64: "length source \<le> u64_max" "length (bpm_out m) \<le> u64_max"
    using len total by (simp_all add: u32_max_def u64_max_def)
  note small = bps_step_offset_small [OF step cur len]
  have raw: "\<exists>q. bps_read_varint p = Inr ((?n - 1) * 4 + c, q) \<and> bps_parser_wf q \<and> bps_unread q = xs @ rest"
    if "bps_encode_action a = encode_varint ((?n - 1) * 4 + c) @ xs" "c < 4" for c xs
    using bps_read_varint_ok [OF p(1), of "(?n - 1) * 4 + c" "xs @ rest"] p(2) that header by auto
  from step show ?thesis
  proof (cases rule: bps_step.cases)
    case (source_read k)
    with raw [of 0 "[]"] obtain q where
      q: "bps_read_varint p = Inr ((?n - 1) * 4 + 0, q)" "bps_parser_wf q" "bps_unread q = rest" by auto
    have "bps_parse_action (length source) p (bps_cursor_of m) = Inr (a, q, bps_cursor_of m')"
      unfolding bps_parse_action_def q(1) Let_def and_then_simps prod.case div [of 0, simplified] adds ok_or_simps
      using source_read adds div [of 0] total n by (simp add: bps_cursor_of_def)
    with q show ?thesis by blast
  next
    case (target_read d)
    with raw [of 1 d] obtain q where
      q: "bps_read_varint p = Inr ((?n - 1) * 4 + 1, q)" "bps_parser_wf q" "bps_unread q = d @ rest" by auto
    from bps_reader.read_exact_prefix [OF q(2,3), of ?n] target_read obtain q2 where
      q2: "bps_read_exact q ?n = Inr (d, q2)" "bps_parser_wf q2" "bps_unread q2 = rest" by auto
    have "bps_parse_action (length source) p (bps_cursor_of m) = Inr (a, q2, bps_cursor_of m')"
      unfolding bps_parse_action_def q(1) Let_def and_then_simps prod.case
      using target_read adds div [of 1] total n q2(1) by (simp add: bps_cursor_of_def)
    with q2 show ?thesis by blast
  next
    case (source_copy k d start)
    with raw [of 2 "encode_varint (bps_signed d)"] obtain q where
      q: "bps_read_varint p = Inr ((?n - 1) * 4 + 2, q)" "bps_parser_wf q"
        "bps_unread q = encode_varint (bps_signed d) @ rest" by auto
    have d: "\<bar>d\<bar> \<le> int u32_max" using small source_copy by blast
    from bps_read_varint_ok [OF q(2,3) bps_signed_le [OF d]] obtain q2 where
      q2: "bps_read_varint q = Inr (bps_signed d, q2)" "bps_parser_wf q2" "bps_unread q2 = rest" by blast
    have adj: "adjust_relative_offset (bpm_source m) d (length source) ''source'' = Inr start"
      using source_copy u64 by (intro adjust_Ok) auto
    have stop: "checked_add_opt start k = Some (start + k)" using source_copy u64 by (simp add: checked_add_opt_def)
    have "bps_parse_action (length source) p (bps_cursor_of m) = Inr (a, q2, bps_cursor_of m')"
      unfolding bps_parse_action_def q(1) Let_def and_then_simps prod.case
      using source_copy adds div [of 2] total n q2(1) adj stop
      by (simp add: bps_cursor_of_def decode_signed_bps_signed)
    with q2 show ?thesis by blast
  next
    case (target_copy k d start)
    with raw [of 3 "encode_varint (bps_signed d)"] obtain q where
      q: "bps_read_varint p = Inr ((?n - 1) * 4 + 3, q)" "bps_parser_wf q"
        "bps_unread q = encode_varint (bps_signed d) @ rest" by auto
    have d: "\<bar>d\<bar> \<le> int u32_max" using small target_copy by blast
    from bps_read_varint_ok [OF q(2,3) bps_signed_le [OF d]] obtain q2 where
      q2: "bps_read_varint q = Inr (bps_signed d, q2)" "bps_parser_wf q2" "bps_unread q2 = rest" by blast
    have adj: "adjust_relative_offset (bpm_target m) d (length (bpm_out m)) ''target'' = Inr start"
      using target_copy u64 by (intro adjust_Ok) auto
    have stop: "checked_add_opt start k = Some (start + k)"
      using target_copy len(2) total by (simp add: checked_add_opt_def u32_max_def u64_max_def)
    have "bps_parse_action (length source) p (bps_cursor_of m) = Inr (a, q2, bps_cursor_of m')"
      unfolding bps_parse_action_def q(1) Let_def and_then_simps prod.case
      using target_copy adds div [of 3] total n q2(1) adj stop
      by (simp add: bps_cursor_of_def decode_signed_bps_signed)
    with q2 show ?thesis by blast
  qed
qed

lemma bps_encode_action_nonempty: "bps_encode_action a \<noteq> []"
proof -
  have "encode_varint n \<noteq> []" for n by (subst encode_varint.simps) (simp add: Let_def)
  then show ?thesis by (cases a) simp_all
qed

lemma bps_parse_actions_encode:
  assumes "bps_exec source as m m'" and "bps_cursors_ok source m"
    and "length source \<le> u32_max" "length (bpm_out m') \<le> u32_max"
    and "bps_parser_wf p" "bps_unread p = concat (map bps_encode_action as)"
  shows "bps_parse_actions (length source) p (bps_cursor_of m) = Inr (as, bps_cursor_of m')"
  using assms
proof (induction as arbitrary: m p)
  case Nil
  then show ?case by (subst bps_parse_actions.simps) (simp add: bps_at_end_iff)
next
  case (Cons a as)
  then obtain m1 where m1: "bps_step source a m m1" "bps_exec source as m1 m'" by auto
  have "length (bpm_out m1) \<le> u32_max" using bps_exec_length_le [OF m1(2)] Cons.prems(4) by simp
  from bps_parse_action_encode [OF m1(1) Cons.prems(2,3) this Cons.prems(5)] Cons.prems(6) obtain q where
    q: "bps_parse_action (length source) p (bps_cursor_of m) = Inr (a, q, bps_cursor_of m1)"
      "bps_parser_wf q" "bps_unread q = concat (map bps_encode_action as)" by auto
  have "\<not> bps_is_at_end p"
    using Cons.prems(5,6) bps_encode_action_nonempty [of a] by (simp add: bps_at_end_iff)
  moreover have "bps_parse_actions (length source) q (bps_cursor_of m1) = Inr (as, bps_cursor_of m')"
    by (rule Cons.IH [OF m1(2) bps_step_cursors_ok [OF m1(1) Cons.prems(2)] Cons.prems(3,4) q(2,3)])
  ultimately show ?case using q(1) by (subst bps_parse_actions.simps) simp
qed

section \<open>Whole patches\<close>

lemma bps_encoded_length:
  assumes "bps_exec source as m m'" and "bps_cursors_ok source m"
    and "length source \<le> u32_max" "length (bpm_out m') \<le> u32_max"
  shows "length (concat (map bps_encode_action as)) + 21 * length (bpm_out m) \<le> 21 * length (bpm_out m')"
  using assms
proof (induction as arbitrary: m)
  case (Cons a as)
  then obtain m1 where m1: "bps_step source a m m1" "bps_exec source as m1 m'" by auto
  have out: "length (bpm_out m1) \<le> u32_max" using bps_exec_length_le [OF m1(2)] Cons.prems(4) by simp
  let ?n = "bps_action_len a"
  have n: "0 < ?n" and total: "length (bpm_out m1) = length (bpm_out m) + ?n"
    using m1(1) bps_step_length [OF m1(1)] by (auto elim: bps_step.cases)
  have header: "length (encode_varint ((?n - 1) * 4 + c)) \<le> 10" if "c < 4" for c
    using that total out length_encode_varint [of "(?n - 1) * 4 + c"]
    by (simp add: u32_max_def u64_max_def varint_max_len_def)
  have offset: "length (encode_varint (bps_signed d)) \<le> 10" if "a = SourceCopy k d \<or> a = TargetCopy k d" for k d
    using length_encode_varint [OF bps_signed_le [OF bps_step_offset_small [OF m1(1) Cons.prems(2,3) out that]]]
    by (simp add: varint_max_len_def)
  have "length (bps_encode_action a) \<le> 21 * ?n"
  proof (cases a)
    case (SourceRead k)
    with header [of 0] n show ?thesis by simp
  next
    case (TargetRead d)
    then have "1 \<le> length d" using n by (simp add: Suc_le_eq)
    then have "10 + length d \<le> 21 * length d" by linarith
    with TargetRead header [of 1] show ?thesis by simp
  next
    case (SourceCopy k d)
    with header [of 2] offset [of k d] n show ?thesis by simp
  next
    case (TargetCopy k d)
    with header [of 3] offset [of k d] n show ?thesis by simp
  qed
  with Cons.IH [OF m1(2) bps_step_cursors_ok [OF m1(1) Cons.prems(2)] Cons.prems(3,4)] total show ?case by simp
qed simp

theorem parse_bps_patch_bytes:
  assumes exec: "bps_exec source as bps_machine_start m" and out: "bpm_out m = tgt"
    and len: "length source \<le> u32_max" "length tgt \<le> u32_max"
    and pf: "file_bytes pf = bps_patch_bytes crc32 as (length source) (length tgt) sc tc"
  shows "\<exists>pc. parse_bps_file crc32 pf validate =
    Inr \<lparr>bps_source_size = length source, bps_target_size = length tgt, bps_source_checksum = sc,
         bps_target_checksum = tc, bps_patch_checksum = pc, bps_actions = as\<rparr>"
proof -
  let ?p = "file_bytes pf" and ?n = "length source" and ?m = "length tgt"
  have start: "bps_cursors_ok source bps_machine_start" by (simp add: bps_cursors_ok_def bps_machine_start_def)
  define acts where "acts = concat (map bps_encode_action as)"
  define recs where "recs = encode_varint ?n @ encode_varint ?m @ encode_varint 0 @ acts"
  define sums where "sums = le_bytes 4 (unat sc) @ le_bytes 4 (unat tc)"
  define pc where "pc = crc32 (BPS_MAGIC @ recs @ sums)"
  have p: "?p = BPS_MAGIC @ recs @ sums @ le_bytes 4 (unat pc)"
    by (simp add: pf bps_patch_bytes_def recs_def sums_def pc_def Let_def acts_def)
  have magic: "length BPS_MAGIC = 4" by (simp add: BPS_MAGIC_def)
  have sums: "length sums = 8" by (simp add: sums_def)
  have plen: "length ?p = 16 + length recs" by (simp add: p magic sums)
  have u64: "?n \<le> u64_max" "?m \<le> u64_max" using len by (simp_all add: u32_max_def u64_max_def)
  have "length acts \<le> 21 * ?m"
    using bps_encoded_length [OF exec start len(1)] len(2) out by (simp add: acts_def bps_machine_start_def)
  moreover have "length (encode_varint k) \<le> 10" if "k \<le> u64_max" for k
    using length_encode_varint [OF that] by (simp add: varint_max_len_def)
  from this [OF u64(1)] this [OF u64(2)] this [of 0]
  have "length (encode_varint ?n) + length (encode_varint ?m) + length (encode_varint 0) \<le> 30" by simp
  ultimately have small: "4 + length recs \<le> u64_max"
    using len(2) by (simp add: recs_def u32_max_def u64_max_def)
  define q0 where "q0 = bps_parser_new ?p (length ?p - BPS_FOOTER_SIZE) (file_path pf)"
  have q0: "bps_parser_wf q0" "bps_unread q0 = BPS_MAGIC @ recs"
    using small by (simp_all add: q0_def bps_parser_new_def bps_parser_wf_def bps_unread_def p magic sums BPS_FOOTER_SIZE_def)
  from bps_reader.read_exact_prefix [OF q0 magic] obtain q1 where
    q1: "bps_read_exact q0 4 = Inr (BPS_MAGIC, q1)" "bps_parser_wf q1" "bps_unread q1 = recs" by blast
  from bps_read_varint_ok [OF q1(2) q1(3) [unfolded recs_def] u64(1)] obtain q2 where
    q2: "bps_read_varint q1 = Inr (?n, q2)" "bps_parser_wf q2"
      "bps_unread q2 = encode_varint ?m @ encode_varint 0 @ acts" by blast
  from bps_read_varint_ok [OF q2(2,3) u64(2)] obtain q3 where
    q3: "bps_read_varint q2 = Inr (?m, q3)" "bps_parser_wf q3" "bps_unread q3 = encode_varint 0 @ acts" by blast
  from bps_read_varint_ok [OF q3(2,3)] obtain q4 where
    q4: "bps_read_varint q3 = Inr (0, q4)" "bps_parser_wf q4" "bps_unread q4 = acts" by auto
  from bps_reader.read_exact_prefix [OF q4(2), of "[]" acts 0] q4(3) obtain q5 where
    q5: "bps_read_exact q4 0 = Inr ([], q5)" "bps_parser_wf q5" "bps_unread q5 = acts" by auto
  let ?cur = "\<lparr>bc_output_size = 0, bc_source_relative = 0, bc_target_relative = 0\<rparr>"
  have acts: "bps_parse_actions ?n q5 ?cur = Inr (as, bps_cursor_of m)"
    using bps_parse_actions_encode [OF exec start len(1) _ q5(2) q5(3) [unfolded acts_def]] len(2) out
    by (simp add: bps_cursor_of_def bps_machine_start_def)
  have cur: "bc_output_size (bps_cursor_of m) = ?m" by (simp add: bps_cursor_of_def out)
  have footer: "read_footer ?p (length ?p - BPS_FOOTER_SIZE) BPS_FOOTER_SIZE = Inr (sums @ le_bytes 4 (unat pc))"
    by (simp add: read_footer_def seek_read_exact_def plen BPS_FOOTER_SIZE_def segment_def)
      (simp add: p magic sums)
  have parts: "segment (sums @ le_bytes 4 (unat pc)) 0 4 = le_bytes 4 (unat sc)"
    "segment (sums @ le_bytes 4 (unat pc)) 4 4 = le_bytes 4 (unat tc)"
    "segment (sums @ le_bytes 4 (unat pc)) 8 4 = le_bytes 4 (unat pc)"
    by (simp_all add: segment_def sums_def)
  have "take (length ?p - 4) ?p = BPS_MAGIC @ recs @ sums"
    by (simp add: plen) (simp add: p magic sums)
  then have crc: "bps_check_patch_checksum crc32 ?p pc = Inr ()"
    by (simp add: bps_check_patch_checksum_def crc32_prefix_ok COPY_BUFFER_SIZE_def pc_def)
  have big: "\<not> length ?p < 4 + BPS_FOOTER_SIZE" by (simp add: plen BPS_FOOTER_SIZE_def)
  have word: "word_of_nat (from_le (le_bytes 4 (unat w))) = w" for w :: u32
  proof -
    have "unat w < 2 ^ LENGTH(32)" by (rule unsigned_less)
    then show ?thesis by (simp add: from_le_small)
  qed
  show ?thesis
    unfolding parse_bps_file_def Let_def magic if_not_P [OF big] q0_def [symmetric] q1(1) q2(1) q3(1) q4(1) q5(1)
      acts footer and_then_simps prod.case cur parts word
    by (cases validate) (simp_all add: crc)
qed

end
