(* ===== verification/Bps_Properties.thy ===== *)
theory Bps_Properties
  imports Bps_Parse_Correct
begin

text \<open>
  The properties of BPS: apply implements the byte machine on every path, accepted patches
  always run, validate predicts apply, the metadata report agrees with the parser, and create
  followed by apply is the identity on the target.
\<close>

section \<open>Apply\<close>

definition bps_input_accepted :: "(bytes \<Rightarrow> u32) \<Rightarrow> op_context \<Rightarrow> parsed_bps \<Rightarrow> stored_file \<Rightarrow> bool" where
  "bps_input_accepted crc32 ctx patch f \<longleftrightarrow>
     file_len f = bps_source_size patch \<and>
     (\<not> scope_source (patch_check_scopes ctx) \<or> crc32_path_cached crc32 f ctx = Inr (bps_source_checksum patch))"

definition bps_output_accepted :: "(bytes \<Rightarrow> u32) \<Rightarrow> op_context \<Rightarrow> parsed_bps \<Rightarrow> stored_file \<Rightarrow> bool" where
  "bps_output_accepted crc32 ctx patch f \<longleftrightarrow>
     \<not> scope_target (patch_check_scopes ctx) \<or> crc32_path_cached crc32 f ctx = Inr (bps_target_checksum patch)"

lemma bps_apply_outcome:
  "(\<exists>rep. bps_apply crc32 ctx req = Inr (out, rep)) \<longleftrightarrow>
    (\<exists>pf patch. ar_patches req = [pf] \<and>
       parse_bps_file crc32 pf (scope_patch_integrity (patch_check_scopes ctx)) = Inr patch \<and>
       bps_input_accepted crc32 ctx patch (ar_input req) \<and>
       bps_runs_to patch (file_bytes (ar_input req)) out \<and>
       bps_output_accepted crc32 ctx patch \<lparr>file_path = ar_output req, file_bytes = out\<rparr>)"
    (is "?apply \<longleftrightarrow> ?spec")
proof
  assume ?apply
  then obtain pf patch e u v where pf: "ar_patches req = [pf]" and
    patch: "parse_bps_file crc32 pf (scope_patch_integrity (patch_check_scopes ctx)) = Inr patch" and
    input: "validate_input_file crc32 (ar_input req) (bps_source_size patch) (bps_source_checksum patch)
      (scope_source (patch_check_scopes ctx)) ctx = Inr u" and
    run: "bps_apply_actions ctx patch (file_bytes (ar_input req)) = Inr (e, out)" and
    outp: "validate_output_file crc32 \<lparr>file_path = ar_output req, file_bytes = out\<rparr> (bps_target_size patch)
      (bps_target_checksum patch) (scope_target (patch_check_scopes ctx)) ctx = Inr v"
    by (auto simp: bps_apply_def Let_def result_iff single_patch_cases)
  from input have acc: "bps_input_accepted crc32 ctx patch (ar_input req)"
    by (auto simp: bps_input_accepted_def validate_input_file_def bps_validate_file_ok_iff)
  then have "length (file_bytes (ar_input req)) = bps_source_size patch" by (simp add: bps_input_accepted_def)
  from bps_parsed_applies [OF patch this] obtain out' e' where
    "bps_runs_to patch (file_bytes (ar_input req)) out'"
    "bps_apply_actions ctx patch (file_bytes (ar_input req)) = Inr (e', out')" by blast
  with run have "bps_runs_to patch (file_bytes (ar_input req)) out" by simp
  with pf patch acc outp show ?spec
    by (auto simp: bps_output_accepted_def validate_output_file_def bps_validate_file_ok_iff)
next
  assume ?spec
  then obtain pf patch where pf: "ar_patches req = [pf]" and
    patch: "parse_bps_file crc32 pf (scope_patch_integrity (patch_check_scopes ctx)) = Inr patch" and
    acc: "bps_input_accepted crc32 ctx patch (ar_input req)" and
    run: "bps_runs_to patch (file_bytes (ar_input req)) out" and
    outp: "bps_output_accepted crc32 ctx patch \<lparr>file_path = ar_output req, file_bytes = out\<rparr>" by blast
  from acc have "length (file_bytes (ar_input req)) = bps_source_size patch" by (simp add: bps_input_accepted_def)
  from bps_parsed_applies [OF patch this] bps_runs_to_unique [OF run] obtain e where
    e: "bps_apply_actions ctx patch (file_bytes (ar_input req)) = Inr (e, out)" "length out = bps_target_size patch"
    by blast
  have "validate_input_file crc32 (ar_input req) (bps_source_size patch) (bps_source_checksum patch)
      (scope_source (patch_check_scopes ctx)) ctx = Inr ()"
    using acc by (auto simp: bps_input_accepted_def validate_input_file_def bps_validate_file_ok_iff)
  moreover have "validate_output_file crc32 \<lparr>file_path = ar_output req, file_bytes = out\<rparr> (bps_target_size patch)
      (bps_target_checksum patch) (scope_target (patch_check_scopes ctx)) ctx = Inr ()"
    using outp e(2) by (auto simp: bps_output_accepted_def validate_output_file_def bps_validate_file_ok_iff)
  ultimately show ?apply
    using pf patch e(1) by (simp add: bps_apply_def Let_def single_patch_cases [THEN iffD2])
qed

text \<open>
  C1. Apply refines the byte machine: it succeeds with an output exactly when there is one
  patch file, it parses, the input has the declared size and (in scope) checksum, the machine
  runs the patch's actions from the input to that output, and (in scope) the output has the
  declared checksum.  The in-memory, the streaming and the pool path cannot be told apart.
\<close>

theorem bps_apply_refines_machine:
  "(\<exists>rep. bps_apply crc32 ctx req = Inr (out, rep)) \<longleftrightarrow>
    (\<exists>pf patch. ar_patches req = [pf] \<and>
       parse_bps_file crc32 pf (scope_patch_integrity (patch_check_scopes ctx)) = Inr patch \<and>
       bps_input_accepted crc32 ctx patch (ar_input req) \<and>
       bps_runs_to patch (file_bytes (ar_input req)) out \<and>
       bps_output_accepted crc32 ctx patch \<lparr>file_path = ar_output req, file_bytes = out\<rparr>)"
  by (rule bps_apply_outcome)

text \<open>A sample patch: two literal bytes, one byte of the source, one literal byte.\<close>

definition sample_bps_actions :: "bps_action list" where
  "sample_bps_actions = [TargetRead [1, 7], SourceCopy 1 2, TargetRead [4], TargetCopy 3 3]"

definition sample_bps_target :: bytes where
  "sample_bps_target = [1, 7, 3, 4, 4, 4, 4]"

definition sample_bps_patch :: stored_file where
  "sample_bps_patch = \<lparr>file_path = ''p'', file_bytes = bps_patch_bytes sample_crc sample_bps_actions 3 7
     (sample_crc (file_bytes sample_source)) (sample_crc sample_bps_target)\<rparr>"

lemma sample_bps_run:
  "bps_exec (file_bytes sample_source) sample_bps_actions bps_machine_start
     \<lparr>bpm_out = sample_bps_target, bpm_source = 3, bpm_target = 6\<rparr>"
proof -
  let ?s = "file_bytes sample_source"
  let ?m1 = "\<lparr>bpm_out = [1, 7], bpm_source = 0, bpm_target = 0\<rparr>"
  let ?m2 = "\<lparr>bpm_out = [1, 7, 3], bpm_source = 3, bpm_target = 0\<rparr>"
  let ?m3 = "\<lparr>bpm_out = [1, 7, 3, 4], bpm_source = 3, bpm_target = 0\<rparr>"
  have s1: "bps_step ?s (TargetRead [1, 7]) bps_machine_start ?m1"
    using bps_step.target_read [of "[1, 7]" ?s bps_machine_start] by (simp add: bps_machine_start_def)
  have s2: "bps_step ?s (SourceCopy 1 2) ?m1 ?m2"
    using bps_step.source_copy [of 1 ?m1 2 2 ?s] by (simp add: samples segment_def)
  have s3: "bps_step ?s (TargetRead [4]) ?m2 ?m3"
    using bps_step.target_read [of "[4]" ?s ?m2] by simp
  have s4: "bps_step ?s (TargetCopy 3 3) ?m3 \<lparr>bpm_out = sample_bps_target, bpm_source = 3, bpm_target = 6\<rparr>"
    using bps_step.target_copy [of 3 ?m3 3 3 ?s]
    by (simp add: sample_bps_target_def numeral_3_eq_3 byte_at_def)
  show ?thesis unfolding sample_bps_actions_def
    by (intro exec_Cons [OF s1] exec_Cons [OF s2] exec_Cons [OF s3] exec_Cons [OF s4] exec_Nil)
qed

lemma sample_bps_parsed:
  "\<exists>pc. parse_bps_file sample_crc sample_bps_patch validate =
    Inr \<lparr>bps_source_size = 3, bps_target_size = 7, bps_source_checksum = sample_crc (file_bytes sample_source),
         bps_target_checksum = sample_crc sample_bps_target, bps_patch_checksum = pc, bps_actions = sample_bps_actions\<rparr>"
proof -
  have len: "length (file_bytes sample_source) = 3" "length sample_bps_target = 7"
    by (simp_all add: samples sample_bps_target_def)
  show ?thesis
    using parse_bps_patch_bytes [OF sample_bps_run, of sample_bps_target sample_bps_patch sample_crc
        "sample_crc (file_bytes sample_source)" "sample_crc sample_bps_target" validate]
    by (simp add: len sample_bps_patch_def u32_max_def)
qed

text \<open>
  C3. An accepted patch never fails midway: once a BPS file parses, on any source of the
  declared size its actions run to a file of the declared target size, the same one in memory,
  streaming or through a pool of any size, in every context.
\<close>

theorem bps_parsed_patch_runs:
  assumes "parse_bps_file crc32 pf validate = Inr patch" and "length source = bps_source_size patch"
  shows "\<exists>out. length out = bps_target_size patch \<and>
    (\<forall>ctx. \<exists>e. bps_apply_actions ctx patch source = Inr (e, out))"
  using bps_parsed_applies [OF assms] by blast

lemma bps_parsed_patch_runs_witness:
  "\<exists>patch out. parse_bps_file sample_crc sample_bps_patch True = Inr patch \<and> length out = 7 \<and>
    (\<forall>ctx. \<exists>e. bps_apply_actions ctx patch [9, 8, 7] = Inr (e, out))"
proof -
  from sample_bps_parsed obtain pc where pc: "parse_bps_file sample_crc sample_bps_patch True =
    Inr \<lparr>bps_source_size = 3, bps_target_size = 7, bps_source_checksum = sample_crc (file_bytes sample_source),
         bps_target_checksum = sample_crc sample_bps_target, bps_patch_checksum = pc, bps_actions = sample_bps_actions\<rparr>"
    by blast
  from bps_parsed_patch_runs [OF pc, of "[9, 8, 7]"] pc show ?thesis by auto
qed

text \<open>
  C25. The seek elision of the streaming path is sound: after any prefix of an accepted patch's
  actions the positions the code tracks are the real ones of both files, and the output
  cursor is at the end of what has been produced.
\<close>

theorem bps_stream_positions:
  assumes "parse_bps_file crc32 pf validate = Inr patch" and "length source = bps_source_size patch"
    and "bps_actions patch = as @ bs"
  shows "\<exists>st. fold_result (bps_stream_action (bps_source_size patch) (bps_target_size patch) source) as
      (bps_files_start (set_len (bps_target_size patch) [])) = Inr st \<and>
    bf_source_at st = bf_source_pos st \<and> bf_output_at st = bf_output_pos st \<and>
    bf_output_pos st = bf_output_offset st \<and> length (bf_output st) = bps_target_size patch"
proof -
  let ?n = "bps_target_size patch"
  from parse_bps_file_exec [OF assms(1,2)] assms(3) obtain m1 m where
    run: "bps_exec source as bps_machine_start m1" "bps_exec source bs m1 m" "length (bpm_out m) = ?n" "?n \<le> u64_max"
    by (auto simp: bps_exec_append)
  have start: "bps_files_start (set_len ?n []) = bps_files_of ?n 0 bps_machine_start"
    by (simp add: bps_files_start_def bps_files_of_def bps_machine_start_def)
  from bps_stream_exec [OF run(1) _ run(4), of 0] bps_exec_length_le [OF run(2)] run(3)
    bps_source_size_le [OF assms(1)] assms(2) obtain k where
    "fold_result (bps_stream_action (bps_source_size patch) ?n source) as (bps_files_start (set_len ?n [])) =
      Inr (bps_files_of ?n k m1)"
    unfolding start by auto
  then show ?thesis by (simp add: bps_files_of_def)
qed

lemma bps_stream_positions_witness:
  "\<exists>patch st. parse_bps_file sample_crc sample_bps_patch True = Inr patch \<and>
    fold_result (bps_stream_action 3 7 [1, 2, 3]) [TargetRead [1, 7], SourceCopy 1 2]
      (bps_files_start (set_len 7 [])) = Inr st \<and> bf_source_at st = bf_source_pos st"
proof -
  from sample_bps_parsed obtain pc where pc: "parse_bps_file sample_crc sample_bps_patch True =
    Inr \<lparr>bps_source_size = 3, bps_target_size = 7, bps_source_checksum = sample_crc (file_bytes sample_source),
         bps_target_checksum = sample_crc sample_bps_target, bps_patch_checksum = pc, bps_actions = sample_bps_actions\<rparr>"
    by blast
  from bps_stream_positions [OF pc, of "[1, 2, 3]" "[TargetRead [1, 7], SourceCopy 1 2]" "[TargetRead [4], TargetCopy 3 3]"]
  show ?thesis by (auto simp: pc sample_bps_actions_def)
qed

text \<open>
  C26. Validate is a dry run of apply: with the target checksum out of scope it accepts exactly
  the requests apply accepts.
\<close>

theorem bps_validate_iff_apply:
  assumes "\<not> scope_target (patch_check_scopes ctx)"
  shows "is_ok (bps_validate crc32 ctx req) \<longleftrightarrow> is_ok (bps_apply crc32 ctx req)"
proof -
  have "is_ok (bps_validate crc32 ctx req) \<longleftrightarrow>
    (\<exists>pf patch. ar_patches req = [pf] \<and>
       parse_bps_file crc32 pf (scope_patch_integrity (patch_check_scopes ctx)) = Inr patch \<and>
       bps_input_accepted crc32 ctx patch (ar_input req))"
    by (auto simp: bps_validate_def Let_def is_ok_iff result_iff single_patch_cases bps_input_accepted_def
        validate_input_file_def bps_validate_file_ok_iff)
  also have "\<dots> \<longleftrightarrow> (\<exists>out rep. bps_apply crc32 ctx req = Inr (out, rep))"
    (is "?valid \<longleftrightarrow> ?applies")
  proof
    assume ?valid
    then obtain pf patch where pf: "ar_patches req = [pf]"
      "parse_bps_file crc32 pf (scope_patch_integrity (patch_check_scopes ctx)) = Inr patch"
      "bps_input_accepted crc32 ctx patch (ar_input req)" by blast
    then have "length (file_bytes (ar_input req)) = bps_source_size patch" by (simp add: bps_input_accepted_def)
    from bps_parsed_applies [OF pf(2) this] obtain out where "bps_runs_to patch (file_bytes (ar_input req)) out"
      by blast
    with pf assms have "\<exists>rep. bps_apply crc32 ctx req = Inr (out, rep)"
      by (subst bps_apply_outcome) (auto simp: bps_output_accepted_def)
    then show ?applies by blast
  qed (auto simp: bps_apply_outcome)
  finally show ?thesis by (auto simp: is_ok_iff)
qed

lemma bps_validate_iff_apply_witness:
  "is_ok (bps_apply sample_crc (plain_context 2 \<lparr>ctx_validation := IgnoreChecksums\<rparr>)
     \<lparr>ar_input = \<lparr>file_path = ''i'', file_bytes = [9, 8, 7]\<rparr>, ar_patches = [sample_bps_patch], ar_output = ''o''\<rparr>)"
proof -
  let ?ctx = "plain_context 2 \<lparr>ctx_validation := IgnoreChecksums\<rparr>"
  let ?req = "\<lparr>ar_input = \<lparr>file_path = ''i'', file_bytes = [9, 8, 7]\<rparr>, ar_patches = [sample_bps_patch], ar_output = ''o''\<rparr>"
  have scopes: "patch_check_scopes ?ctx = all_scopes False"
    by (simp add: patch_check_scopes_def plain_context_def)
  then have off: "\<not> scope_target (patch_check_scopes ?ctx)" by (simp add: all_scopes_def)
  from sample_bps_parsed [of False] have "is_ok (bps_validate sample_crc ?ctx ?req)"
    by (auto simp: bps_validate_def scopes all_scopes_def require_single_patch_file_def Let_def
        validate_input_file_def bps_validate_file_def)
  with bps_validate_iff_apply [OF off, of sample_crc ?req] show ?thesis by simp
qed

text \<open>
  The metadata report that ingest uses, which does not decode the actions, gives the sizes
  and checksums of the parsed patch: where the full parse with the patch checksum succeeds, the
  two agree.
\<close>

theorem bps_metadata_agrees:
  assumes "parse_bps_file crc32 pf True = Inr patch"
  shows "parse_bps_metadata crc32 pf = Inr
    \<lparr>bm_source_size = bps_source_size patch, bm_target_size = bps_target_size patch,
     bm_source_checksum = bps_source_checksum patch, bm_target_checksum = bps_target_checksum patch,
     bm_patch_checksum = bps_patch_checksum patch\<rparr>"
  using assms unfolding parse_bps_file_def parse_bps_metadata_def Let_def
  by (auto simp: result_iff split: if_splits)

lemma bps_metadata_agrees_witness:
  "\<exists>patch meta. parse_bps_file sample_crc sample_bps_patch True = Inr patch \<and>
    parse_bps_metadata sample_crc sample_bps_patch = Inr meta \<and> bm_target_size meta = bps_target_size patch"
proof -
  from sample_bps_parsed obtain patch where "parse_bps_file sample_crc sample_bps_patch True = Inr patch" by blast
  from this bps_metadata_agrees [OF this] show ?thesis by simp
qed

section \<open>Create\<close>

lemma bps_create_patch_of:
  "bps_create crc32 sa ctx \<lparr>cr_original = s, cr_modified = t\<rparr> = Inr (p, rep) \<longleftrightarrow>
    (\<exists>c. create_bps_patch_in_memory crc32 sa ctx (file_bytes s) (file_bytes t) = Inr c \<and> p = cbps_bytes c \<and>
      rep = patch_create_report ''BPS'' (cbps_action_count c) (plan_threads ctx SingleThreaded))"
  by (auto simp: bps_create_def Let_def result_iff)

lemma bps_created_parses:
  assumes "bps_create crc32 sa ctx \<lparr>cr_original = s, cr_modified = t\<rparr> = Inr (p, rep)" and "file_bytes pf = p"
  shows "\<exists>patch. parse_bps_file crc32 pf validate = Inr patch \<and> bps_source_size patch = file_len s \<and>
    bps_target_size patch = file_len t \<and> bps_source_checksum patch = crc32 (file_bytes s) \<and>
    bps_target_checksum patch = crc32 (file_bytes t) \<and> bps_runs_to patch (file_bytes s) (file_bytes t) \<and>
    rep = patch_create_report ''BPS'' (length (bps_actions patch)) (plan_threads ctx SingleThreaded)"
proof -
  from assms(1) obtain c where
    c: "create_bps_patch_in_memory crc32 sa ctx (file_bytes s) (file_bytes t) = Inr c" "p = cbps_bytes c"
      "rep = patch_create_report ''BPS'' (cbps_action_count c) (plan_threads ctx SingleThreaded)"
    by (auto simp: bps_create_patch_of)
  from create_bps_patch_bytes [OF c(1)] obtain as m where
    as: "cbps_bytes c = bps_patch_bytes crc32 as (file_len s) (file_len t) (crc32 (file_bytes s)) (crc32 (file_bytes t))"
      "bps_exec (file_bytes s) as bps_machine_start m" "bpm_out m = file_bytes t" "cbps_action_count c = length as"
    by blast
  have len: "file_len s \<le> u32_max" "file_len t \<le> u32_max"
    using create_bps_patch_requires(2) [OF c(1)] by simp_all
  from parse_bps_patch_bytes [OF as(2,3) len, of pf crc32 _ _ validate] as c assms(2) show ?thesis
    by (fastforce simp: bps_runs_to_def)
qed

text \<open>
  C2. The round trip: whatever the suffix-array crate answers, a patch that create returns,
  applied to the original, gives the modified file, in any context whose seeded checksums are
  honest, with every check in scope or not.
\<close>

theorem bps_create_apply:
  assumes "bps_create crc32 sa create_ctx \<lparr>cr_original = s, cr_modified = t\<rparr> = Inr (p, create_rep)"
    and "honest_seed crc32 apply_ctx s"
    and "honest_seed crc32 apply_ctx \<lparr>file_path = path, file_bytes = file_bytes t\<rparr>"
  shows "\<exists>apply_rep. bps_apply crc32 apply_ctx
      \<lparr>ar_input = s, ar_patches = [\<lparr>file_path = pp, file_bytes = p\<rparr>], ar_output = path\<rparr> =
      Inr (file_bytes t, apply_rep)"
proof -
  let ?pf = "\<lparr>file_path = pp, file_bytes = p\<rparr>"
  from bps_created_parses [OF assms(1), of ?pf "scope_patch_integrity (patch_check_scopes apply_ctx)"] obtain patch where
    patch: "parse_bps_file crc32 ?pf (scope_patch_integrity (patch_check_scopes apply_ctx)) = Inr patch"
      "bps_source_size patch = file_len s" "bps_source_checksum patch = crc32 (file_bytes s)"
      "bps_target_checksum patch = crc32 (file_bytes t)" "bps_runs_to patch (file_bytes s) (file_bytes t)" by auto
  from crc32_path_honest [OF assms(2)] crc32_path_honest [OF assms(3)] patch show ?thesis
    by (subst bps_apply_outcome) (auto simp: bps_input_accepted_def bps_output_accepted_def)
qed

lemma bps_create_accepts_iff:
  assumes "\<forall>bs. length bs < u32_max \<longrightarrow> is_suffix_array bs (sa bs)"
    and "file_len s \<le> u64_max" and "file_len t \<le> u64_max"
  shows "is_ok (bps_create crc32 sa ctx \<lparr>cr_original = s, cr_modified = t\<rparr>) \<longleftrightarrow>
    file_len s \<le> ctx_env_limit ctx \<and> file_len t \<le> ctx_env_limit ctx \<and>
    bps_create_inputs_fit (file_len s) (file_len t)"
proof
  have u64: "file_len s + file_len t \<le> 2 * u64_max" using assms(2,3) by simp
  note mode = bps_create_suffix_index_mode_iff [OF u64]
  {
    assume "is_ok (bps_create crc32 sa ctx \<lparr>cr_original = s, cr_modified = t\<rparr>)"
    then obtain c where c: "create_bps_patch_in_memory crc32 sa ctx (file_bytes s) (file_bytes t) = Inr c"
      by (auto simp: is_ok_iff bps_create_patch_of)
    from create_bps_patch_requires(1) [OF c] have "can_apply_in_memory ctx (file_len s) (file_len t)" .
    moreover from c have "is_ok (bps_create_suffix_index_mode (file_len s) (file_len t))"
      by (auto simp: create_bps_patch_in_memory_unfold [OF create_bps_patch_requires [OF c]] result_iff is_ok_iff)
    ultimately show "file_len s \<le> ctx_env_limit ctx \<and> file_len t \<le> ctx_env_limit ctx \<and>
        bps_create_inputs_fit (file_len s) (file_len t)"
      using mode by (simp add: can_apply_in_memory_def)
  }
  {
    assume fit: "file_len s \<le> ctx_env_limit ctx \<and> file_len t \<le> ctx_env_limit ctx \<and>
        bps_create_inputs_fit (file_len s) (file_len t)"
    then have "can_apply_in_memory ctx (file_len s) (file_len t)" "file_len s + file_len t < u32_max"
      by (auto simp: can_apply_in_memory_def bps_create_inputs_fit_iff u32_max_def)
    moreover from fit mode obtain m where "bps_create_suffix_index_mode (file_len s) (file_len t) = Inr m"
      by (auto simp: is_ok_iff)
    ultimately obtain c where "create_bps_patch_in_memory crc32 sa ctx (file_bytes s) (file_bytes t) = Inr c"
      using create_bps_patch_total [OF _ _ _ assms(1)] by blast
    then show "is_ok (bps_create crc32 sa ctx \<lparr>cr_original = s, cr_modified = t\<rparr>)"
      by (simp add: bps_create_def Let_def)
  }
qed

lemma bps_create_apply_witness:
  "\<exists>p create_rep apply_rep.
    bps_create sample_crc sort_suffixes (plain_context 4) \<lparr>cr_original = sample_source, cr_modified = sample_target\<rparr> =
      Inr (p, create_rep) \<and>
    bps_apply sample_crc (plain_context 1)
      \<lparr>ar_input = sample_source, ar_patches = [\<lparr>file_path = ''p'', file_bytes = p\<rparr>], ar_output = ''o''\<rparr> =
      Inr (file_bytes sample_target, apply_rep)"
proof -
  have "is_ok (bps_create sample_crc sort_suffixes (plain_context 4)
      \<lparr>cr_original = sample_source, cr_modified = sample_target\<rparr>)"
    using sort_suffixes_ok
    by (subst bps_create_accepts_iff) (auto simp: samples u64_max_def plain_context_def bps_create_inputs_fit_iff)
  then obtain p rep where "bps_create sample_crc sort_suffixes (plain_context 4)
      \<lparr>cr_original = sample_source, cr_modified = sample_target\<rparr> = Inr (p, rep)"
    by (auto simp: is_ok_iff)
  from this bps_create_apply [OF this, of "plain_context 1" "''o''" "''p''"] show ?thesis by auto
qed

text \<open>
  C24. Exactly when create succeeds: with a suffix array as the crate documents it, no input makes
  it panic or lose a suffix; it refuses precisely the pairs above the in-memory cap or above the
  combined size that \<open>bps_create_inputs_fit\<close> announces to callers.
\<close>

theorem bps_create_accepts:
  assumes "\<forall>bs. length bs < u32_max \<longrightarrow> is_suffix_array bs (sa bs)"
    and "file_len s \<le> u64_max" and "file_len t \<le> u64_max"
  shows "is_ok (bps_create crc32 sa ctx \<lparr>cr_original = s, cr_modified = t\<rparr>) \<longleftrightarrow>
    file_len s \<le> ctx_env_limit ctx \<and> file_len t \<le> ctx_env_limit ctx \<and>
    bps_create_inputs_fit (file_len s) (file_len t)"
  by (rule bps_create_accepts_iff [OF assms])

lemma bps_create_accepts_witness:
  "is_ok (bps_create sample_crc sort_suffixes (plain_context 2) \<lparr>cr_original = sample_source, cr_modified = sample_target\<rparr>)"
  using sort_suffixes_ok
  by (subst bps_create_accepts) (auto simp: samples u64_max_def plain_context_def bps_create_inputs_fit_iff)

text \<open>
  The parser is a retraction of create: the created file parses, with or without the patch
  checksum, to the sizes and checksums of the two files and to as many actions as create
  reported, and the machine runs them from the original to the modified file.
\<close>

theorem bps_created_patch:
  assumes "bps_create crc32 sa ctx \<lparr>cr_original = s, cr_modified = t\<rparr> = Inr (p, rep)"
  shows "\<exists>patch. parse_bps_file crc32 \<lparr>file_path = pp, file_bytes = p\<rparr> validate = Inr patch \<and>
    bps_source_size patch = file_len s \<and> bps_target_size patch = file_len t \<and>
    bps_source_checksum patch = crc32 (file_bytes s) \<and> bps_target_checksum patch = crc32 (file_bytes t) \<and>
    bps_runs_to patch (file_bytes s) (file_bytes t) \<and>
    rep = patch_create_report ''BPS'' (length (bps_actions patch)) (plan_threads ctx SingleThreaded)"
  by (rule bps_created_parses [OF assms]) simp

lemma bps_created_patch_witness:
  "\<exists>p rep patch. bps_create sample_crc sort_suffixes (plain_context 2)
      \<lparr>cr_original = sample_source, cr_modified = sample_target\<rparr> = Inr (p, rep) \<and>
    parse_bps_file sample_crc \<lparr>file_path = ''p'', file_bytes = p\<rparr> True = Inr patch \<and> bps_target_size patch = 4"
proof -
  have "is_ok (bps_create sample_crc sort_suffixes (plain_context 2)
      \<lparr>cr_original = sample_source, cr_modified = sample_target\<rparr>)"
    using sort_suffixes_ok
    by (subst bps_create_accepts_iff) (auto simp: samples u64_max_def plain_context_def bps_create_inputs_fit_iff)
  then obtain p rep where p: "bps_create sample_crc sort_suffixes (plain_context 2)
      \<lparr>cr_original = sample_source, cr_modified = sample_target\<rparr> = Inr (p, rep)"
    by (auto simp: is_ok_iff)
  have "file_len sample_target = 4" by (simp add: samples)
  with p bps_created_patch [OF p, of "''p''" True] show ?thesis by auto
qed

section \<open>The loops of create\<close>

text \<open>
  The prefix scan that compares eight bytes at a time and counts trailing zeros returns the
  length of the longest common prefix of the two ranges, for any alignment and any lengths.
\<close>

theorem bps_common_prefix_exact: "common_prefix_len l lo r ro = lcp_len (drop lo l) (drop ro r)"
  by (rule common_prefix_len_lcp)

text \<open>
  The two index modes agree: on a suffix array the binary search of the lower-memory mode
  finds the rank that the reverse index of the fast mode holds.
\<close>

theorem bps_index_modes_agree:
  assumes "is_suffix_array bs ranks" and "length bs < u32_max" and "off \<le> length bs"
    and "bps_reverse_index ranks = Inr reverse"
  shows "find_suffix_rank_from bs ranks off 0 (length ranks) = Inr (reverse ! off)"
proof -
  have len: "length ranks = Suc (length bs)" by (rule is_suffix_array_length [OF assms(1)])
  have "off \<in> set ranks" using assms(1,3) by (simp add: is_suffix_array_def)
  then obtain k where k: "k < length ranks" "ranks ! k = off" by (auto simp: in_set_conv_nth)
  have "\<forall>p \<in> set ranks. p < length ranks" using assms(1) len by (auto simp: is_suffix_array_def)
  then have "reverse ! off = k"
    using bps_reverse_index_ok [OF is_suffix_array_distinct [OF assms(1)]] assms(2,4) len k by fastforce
  with find_suffix_rank_from_ok [OF assms(1) k, of 0 "length ranks"] k show ?thesis by simp
qed

lemma bps_index_modes_agree_witness:
  "\<exists>reverse. bps_reverse_index (sort_suffixes [5, 5]) = Inr reverse \<and>
    find_suffix_rank_from [5, 5] (sort_suffixes [5, 5]) 1 0 (length (sort_suffixes [5, 5])) = Inr (reverse ! 1)"
proof -
  note sa = sort_suffixes_ok [of "[5, 5]"]
  have len: "length (sort_suffixes [5, 5]) = 3" using is_suffix_array_length [OF sa] by simp
  have "\<forall>p \<in> set (sort_suffixes [5, 5]). p < length (sort_suffixes [5, 5])"
    using sa len by (auto simp: is_suffix_array_def)
  then obtain reverse where "bps_reverse_index (sort_suffixes [5, 5]) = Inr reverse"
    using bps_reverse_index_ok [OF is_suffix_array_distinct [OF sa]] len by (auto simp: u32_max_def)
  with bps_index_modes_agree [OF sa _ _ this, of 1] show ?thesis by (simp add: u32_max_def)
qed

end
