(* ===== verification/Pmsr.thy ===== *)
theory Pmsr
  imports Record_Formats Readers
begin

text \<open>
  The Paper Mario Star Rod format (MOD), \<open>rom-weaver-patches/src/pmsr.rs\<close>: a count, then
  records of offset, length and data.  The header declares no sizes; the output is as long as
  the input and the highest record end.
\<close>

section \<open>Data\<close>

definition PMSR_MAGIC :: bytes where
  "PMSR_MAGIC = map of_char ''PMSR''"

definition PMSR_HEADER_SIZE :: nat where
  "PMSR_HEADER_SIZE = 8"

definition PMSR_IO_BUFFER_SIZE :: nat where
  "PMSR_IO_BUFFER_SIZE = 65536"

definition PMSR_CREATE_SCAN_CHUNK_BYTES :: nat where
  "PMSR_CREATE_SCAN_CHUNK_BYTES = 4194304"

definition PAPER_MARIO_USA10_CRC32 :: u32 where
  "PAPER_MARIO_USA10_CRC32 = 0xA7F5CD7E"

definition PAPER_MARIO_USA10_FILE_SIZE :: nat where
  "PAPER_MARIO_USA10_FILE_SIZE = 41943040"

record pmsr_record =
  pmr_offset :: nat
  pmr_data :: bytes

record parsed_pmsr =
  pmsr_min_target_size :: nat
  pmsr_records :: "pmsr_record list"

record created_pmsr =
  pmsr_bytes :: bytes
  pmsr_record_count :: nat

definition pmsr_record_end :: "pmsr_record \<Rightarrow> nat result" where
  "pmsr_record_end r = checked_add (pmr_offset r) (length (pmr_data r)) ''MOD record end''"

definition pmsr_append :: "pmsr_record \<Rightarrow> pmsr_record \<Rightarrow> pmsr_record" where
  "pmsr_append r s = r\<lparr>pmr_data := pmr_data r @ pmr_data s\<rparr>"

section \<open>Parsing\<close>

text \<open>One turn of the record loop.\<close>

definition read_pmsr_record :: "labeled_parser \<Rightarrow> (pmsr_record \<times> labeled_parser) result" where
  "read_pmsr_record parser =
     and_then (labeled_read_u32_be ''MOD record offset'' parser) (\<lambda>(offset, parser).
     and_then (labeled_read_u32_be ''MOD record length'' parser) (\<lambda>(data_len, parser).
     and_then (labeled_read_exact ''MOD record data'' parser data_len) (\<lambda>(data, parser).
     and_then (checked_add offset data_len ''MOD record end'') (\<lambda>stop.
     Inr (\<lparr>pmr_offset = offset, pmr_data = data\<rparr>, parser)))))"

text \<open>The running maximum of the record ends.\<close>

definition pmsr_max_end :: "pmsr_record list \<Rightarrow> nat" where
  "pmsr_max_end records = fold (\<lambda>r current. max current (pmr_offset r + length (pmr_data r))) records 0"

definition parse_pmsr_file :: "bytes \<Rightarrow> parsed_pmsr result" where
  "parse_pmsr_file f =
     (if length f < PMSR_HEADER_SIZE then invalid ''MOD patch is too small to contain a valid header''
      else
        and_then (labeled_read_exact ''MOD header'' (labeled_new f (length f) ''MOD'' ''u64'') (length PMSR_MAGIC))
          (\<lambda>(magic, parser).
        if magic \<noteq> PMSR_MAGIC then coded ''PMSR_HEADER_INVALID'' ''Patch header invalid'' []
        else
          and_then (labeled_read_u32_be ''MOD record count'' parser) (\<lambda>(record_count, parser).
          and_then (read_records read_pmsr_record record_count parser) (\<lambda>(records, parser).
          if labeled_remaining parser \<noteq> 0 then invalid ''MOD patch contained unexpected trailing data''
          else Inr \<lparr>pmsr_min_target_size = pmsr_max_end records, pmsr_records = records\<rparr>))))"

definition pmsr_parse :: "stored_file \<Rightarrow> report result" where
  "pmsr_parse patch_file =
     and_then (parse_pmsr_file (file_bytes patch_file)) (\<lambda>patch.
     Inr (attach_patch_endpoints
       [endpoint_variant_new
          (with_checksum ''crc32'' (Hex (unat PAPER_MARIO_USA10_CRC32)) (sized_side PAPER_MARIO_USA10_FILE_SIZE))
          \<lparr>side_size = None,
           side_min_size = (if 0 < pmsr_min_target_size patch then Some (pmsr_min_target_size patch) else None),
           side_checksums = []\<rparr>]
       (patch_success_report ''MOD'' ''parse''
          [Msg ''parsed {} patch with {} record(s); expected source CRC32 {}''
             [Str ''MOD'', Num (length (pmsr_records patch)), Hex (unat PAPER_MARIO_USA10_CRC32)]] None)))"

section \<open>Applying\<close>

definition validate_paper_mario_source :: "(bytes \<Rightarrow> u32) \<Rightarrow> bytes \<Rightarrow> unit result" where
  "validate_paper_mario_source crc32 source =
     (if length source \<noteq> PAPER_MARIO_USA10_FILE_SIZE
      then coded ''patch.checksum_mismatch'' ''Source ROM checksum mismatch'' []
      else
        and_then (crc32_prefix crc32 source (length source) PMSR_IO_BUFFER_SIZE) (\<lambda>crc.
        if crc \<noteq> PAPER_MARIO_USA10_CRC32
        then coded ''patch.checksum_mismatch'' ''Source ROM checksum mismatch'' []
        else Inr ()))"

text \<open>The checks and the write of one record; the in-memory and the in-place loops share them.\<close>

definition pmsr_record_write :: "nat \<Rightarrow> pmsr_record \<Rightarrow> prepared_write result" where
  "pmsr_record_write output_len r =
     and_then (pmsr_record_end r) (\<lambda>stop.
     if stop > output_len then invalid ''MOD record exceeded declared output size''
     else Inr \<lparr>pw_offset = pmr_offset r, pw_data = pmr_data r\<rparr>)"

text \<open>\<open>output[start..end].copy_from_slice(..)\<close>, a panic when the range is outside the buffer.\<close>

definition apply_pmsr_records_in_memory :: "nat \<Rightarrow> pmsr_record list \<Rightarrow> bytes \<Rightarrow> bytes result" where
  "apply_pmsr_records_in_memory output_len records output =
     fold_result (\<lambda>r out.
       and_then (pmsr_record_end r) (\<lambda>stop.
       if stop > output_len then invalid ''MOD record exceeded declared output size''
       else if pmr_data r = [] then Inr out
       else if stop > length out then Err (Panic ''range end index out of range'')
       else Inr (take (pmr_offset r) out @ pmr_data r @ drop stop out))) records output"

definition apply_pmsr_patch_in_place :: "nat \<Rightarrow> pmsr_record list \<Rightarrow> bytes \<Rightarrow> bytes result" where
  "apply_pmsr_patch_in_place output_len records output =
     fold_result (\<lambda>r out.
       and_then (pmsr_record_end r) (\<lambda>stop.
       if stop > output_len then invalid ''MOD record exceeded declared output size''
       else if pmr_data r = [] then Inr out
       else Inr (write_at (pmr_offset r) (pmr_data r) out))) records output"

definition pmsr_records_are_non_overlapping :: "pmsr_record list \<Rightarrow> nat \<Rightarrow> bool result" where
  "pmsr_records_are_non_overlapping records output_len =
     and_then
       (fold_result (\<lambda>r ranges.
          and_then (pmsr_record_end r) (\<lambda>stop.
          if stop > output_len then invalid ''MOD record exceeded declared output size''
          else Inr (if pmr_data r \<noteq> [] then ranges @ [(pmr_offset r, stop)] else ranges))) records [])
       (\<lambda>ranges. Inr (sweep_ranges 0 False (sort_key fst ranges)))"

text \<open>
  The workers write the chunks of the record list; here one chunk after the other, see
  \<open>pmsr_any_interleaving\<close> for the other orders.
\<close>

definition apply_pmsr_patch_parallel_in_place :: "nat \<Rightarrow> pmsr_record list \<Rightarrow> nat \<Rightarrow> bytes \<Rightarrow> bytes result" where
  "apply_pmsr_patch_parallel_in_place output_len records threads output =
     (if records = [] then Inr output
      else
        let chunk_size = max (div_ceil (length records) (max threads 1)) 1
        in fold_result (apply_pmsr_patch_in_place output_len) (slice_chunks chunk_size records) output)"

text \<open>The choice of the write path, after the checks.\<close>

definition pmsr_write_records ::
  "op_context \<Rightarrow> pmsr_record list \<Rightarrow> nat \<Rightarrow> bytes \<Rightarrow> (thread_execution \<times> bytes) result" where
  "pmsr_write_records ctx records output_len source =
     (let cap = parallel_per_record_capability (length records)
      in and_then (pmsr_records_are_non_overlapping records output_len) (\<lambda>records_non_overlapping.
         if can_apply_sparse_in_memory ctx (length source) output_len (length records) SPARSE_STREAMING
         then and_then (apply_pmsr_records_in_memory output_len records (pad_to output_len source)) (\<lambda>out.
              Inr (force_serial (plan_threads ctx cap), out))
         else and_then
                (run_with_optional_pool ctx cap records_non_overlapping
                   (\<lambda>pool. apply_pmsr_patch_parallel_in_place output_len records pool (set_len output_len source))
                   (apply_pmsr_patch_in_place output_len records (set_len output_len source)))
                (\<lambda>(execution, out).
                 Inr (if used_parallelism execution \<and> \<not> records_non_overlapping
                      then apply_pool_fallback
                             ''MOD apply records overlap; preserving patch order with single-thread writes'' execution
                      else execution, out))))"

definition pmsr_apply ::
  "(bytes \<Rightarrow> u32) \<Rightarrow> op_context \<Rightarrow> apply_request \<Rightarrow> (bytes \<times> report) result" where
  "pmsr_apply crc32 ctx request =
     and_then (require_single_patch_file (ar_patches request) ''MOD'') (\<lambda>patch_file.
     and_then (parse_pmsr_file (file_bytes patch_file)) (\<lambda>patch.
     let validate_source = scope_source (patch_check_scopes ctx);
         source = file_bytes (ar_input request); source_len = length source
     in and_then (if validate_source then validate_paper_mario_source crc32 source else Inr ()) (\<lambda>_.
        let output_len = max (pmsr_min_target_size patch) source_len
        in and_then (ensure_plausible_output_len ''MOD'' output_len source_len (file_len patch_file)) (\<lambda>_.
           and_then (pmsr_write_records ctx (pmsr_records patch) output_len source) (\<lambda>(execution, out).
           Inr (out, patch_apply_report ''MOD'' (length (pmsr_records patch)) validate_source execution))))))"

definition pmsr_validate :: "(bytes \<Rightarrow> u32) \<Rightarrow> op_context \<Rightarrow> apply_request \<Rightarrow> report result" where
  "pmsr_validate crc32 ctx request =
     and_then (require_single_patch_file (ar_patches request) ''MOD'') (\<lambda>patch_file.
     and_then (parse_pmsr_file (file_bytes patch_file)) (\<lambda>patch.
     let validate_source = scope_source (patch_check_scopes ctx);
         source = file_bytes (ar_input request); source_len = length source
     in and_then (if validate_source then validate_paper_mario_source crc32 source else Inr ()) (\<lambda>_.
        let output_len = max (pmsr_min_target_size patch) source_len
        in and_then (ensure_plausible_output_len ''MOD'' output_len source_len (file_len patch_file)) (\<lambda>_.
           and_then (pmsr_records_are_non_overlapping (pmsr_records patch) output_len) (\<lambda>_.
           Inr (patch_validate_report ''MOD'' (length (pmsr_records patch)) validate_source
                  (Some (single_thread_execution ctx))))))))"

section \<open>Creating\<close>

definition pmsr_create_chunk_count :: "nat \<Rightarrow> nat result" where
  "pmsr_create_chunk_count modified_len =
     chunk_count_for_len_checked modified_len PMSR_CREATE_SCAN_CHUNK_BYTES
       ''MOD create required too many chunks to index''"

definition pmsr_create_thread_capability :: "nat \<Rightarrow> thread_capability result" where
  "pmsr_create_thread_capability modified_len =
     and_then (pmsr_create_chunk_count modified_len) (\<lambda>chunk_count. Inr (Parallel (Some (max chunk_count 1))))"

text \<open>
  One byte of the scan, the same in both create paths: the records, the pending record and
  the offset of the byte.
\<close>

type_synonym pmsr_scan = "pmsr_record list \<times> nat option \<times> bytes \<times> nat"

definition pmsr_flush :: "pmsr_record list \<Rightarrow> nat option \<Rightarrow> bytes \<Rightarrow> pmsr_record list result" where
  "pmsr_flush records pending_start pending_data =
     (if pending_data \<noteq> []
      then and_then (ok_or pending_start (Err (Panic ''pending start exists''))) (\<lambda>start.
           Inr (records @ [\<lparr>pmr_offset = start, pmr_data = pending_data\<rparr>]))
      else Inr records)"

definition pmsr_scan_byte :: "u8 \<Rightarrow> u8 \<Rightarrow> pmsr_scan \<Rightarrow> pmsr_scan result" where
  "pmsr_scan_byte source target st =
     (let (records, pending_start, pending_data, cursor) = st
      in and_then
           (if source = target
            then if pending_data \<noteq> []
                 then and_then (pmsr_flush records pending_start pending_data) (\<lambda>records. Inr (records, None, []))
                 else Inr (records, pending_start, pending_data)
            else Inr (records, Some (case pending_start of None \<Rightarrow> cursor | Some s \<Rightarrow> s), pending_data @ [target]))
           (\<lambda>(records, pending_start, pending_data).
         and_then (checked_add cursor 1 ''MOD scan offset'') (\<lambda>cursor.
         Inr (records, pending_start, pending_data, cursor))))"

definition collect_pmsr_records_from_bytes :: "nat \<Rightarrow> bytes \<Rightarrow> bytes \<Rightarrow> pmsr_record list result" where
  "collect_pmsr_records_from_bytes start original_bytes modified_bytes =
     and_then
       (fold_result (\<lambda>index. pmsr_scan_byte (byte_at original_bytes index) (modified_bytes ! index))
          [0..<length modified_bytes] ([], None, [], start))
       (\<lambda>(records, pending_start, pending_data, _). pmsr_flush records pending_start pending_data)"

definition collect_pmsr_records_for_chunk :: "bytes \<Rightarrow> bytes \<Rightarrow> nat \<Rightarrow> pmsr_record list result" where
  "collect_pmsr_records_for_chunk =
     collect_chunk PMSR_CREATE_SCAN_CHUNK_BYTES ''MOD create chunk offset overflowed''
       collect_pmsr_records_from_bytes"

text \<open>\<open>to_be_bytes\<close> of the two fields, with the range checks.\<close>

definition encode_pmsr_record :: "pmsr_record \<Rightarrow> bytes result" where
  "encode_pmsr_record r =
     (if pmr_offset r > u32_max then invalid ''MOD record offset exceeded 32-bit range''
      else if length (pmr_data r) > u32_max then invalid ''MOD record length exceeded 32-bit range''
      else Inr (be_bytes 4 (pmr_offset r) @ be_bytes 4 (length (pmr_data r)) @ pmr_data r))"

definition pmsr_payload_step :: "pmsr_record \<Rightarrow> nat \<Rightarrow> nat result" where
  "pmsr_payload_step r accumulator =
     ok_or (case checked_add_opt accumulator 8 of None \<Rightarrow> None
            | Some n \<Rightarrow> checked_add_opt n (length (pmr_data r)))
       (invalid ''MOD patch size exceeded addressable memory'')"

definition encode_pmsr_records :: "pmsr_record list \<Rightarrow> bytes result" where
  "encode_pmsr_records records =
     (if length records > u32_max then invalid ''MOD record count exceeded encodable range''
      else
        and_then (fold_result pmsr_payload_step records 0) (\<lambda>payload_capacity.
        and_then (ok_or (checked_add_opt PMSR_HEADER_SIZE payload_capacity)
                    (invalid ''MOD patch size exceeded addressable memory'')) (\<lambda>_.
        fold_result (\<lambda>r out. and_then (encode_pmsr_record r) (\<lambda>bs. Inr (out @ bs))) records
          (PMSR_MAGIC @ be_bytes 4 (length records)))))"

definition finalize_created_pmsr_patch :: "pmsr_record list \<Rightarrow> nat \<Rightarrow> created_pmsr result" where
  "finalize_created_pmsr_patch records target_len =
     and_then (fold_result (\<lambda>r current_max. and_then (pmsr_record_end r) (\<lambda>stop. Inr (max current_max stop))) records 0)
       (\<lambda>max_record_end.
     let records = (if target_len > max_record_end
                    then records @ [\<lparr>pmr_offset = target_len, pmr_data = []\<rparr>] else records)
     in and_then (encode_pmsr_records records) (\<lambda>bytes.
        Inr \<lparr>pmsr_bytes = bytes, pmsr_record_count = length records\<rparr>))"

definition pmsr_shrinking :: "nat \<Rightarrow> nat \<Rightarrow> 'a result" where
  "pmsr_shrinking original_len modified_len =
     invalid_fmt ''MOD create does not support shrinking outputs (original: {}, modified: {})''
       [Num original_len, Num modified_len]"

text \<open>One buffer of the streaming scan: the source is read as long as it lasts.\<close>

definition pmsr_stream_buffer :: "bytes \<Rightarrow> bytes \<Rightarrow> nat \<Rightarrow> nat \<Rightarrow> pmsr_scan \<Rightarrow> pmsr_scan result" where
  "pmsr_stream_buffer original modified offset n st =
     (let source_n = min (length original - offset) n
      in and_then (if 0 < source_n then seek_read_exact original offset source_n else Inr [])
           (\<lambda>source_buffer.
         and_then (seek_read_exact modified offset n) (\<lambda>target_buffer.
         fold_result (\<lambda>index.
             pmsr_scan_byte (if index < source_n then source_buffer ! index else 0) (target_buffer ! index))
           [0..<n] st)))"

definition create_pmsr_patch_streaming :: "bytes \<Rightarrow> bytes \<Rightarrow> created_pmsr result" where
  "create_pmsr_patch_streaming original modified =
     (if length modified < length original then pmsr_shrinking (length original) (length modified)
      else
        and_then (chunk_loop PMSR_IO_BUFFER_SIZE (pmsr_stream_buffer original modified) 0 (length modified)
                    ([], None, [], 0)) (\<lambda>(records, pending_start, pending_data, _).
        and_then (pmsr_flush records pending_start pending_data) (\<lambda>records.
        finalize_created_pmsr_patch records (length modified))))"

definition create_pmsr_patch_parallel :: "bytes \<Rightarrow> bytes \<Rightarrow> created_pmsr result" where
  "create_pmsr_patch_parallel original modified =
     (if length modified < length original then pmsr_shrinking (length original) (length modified)
      else
        and_then (pmsr_create_chunk_count (length modified)) (\<lambda>chunk_count.
        and_then (scan_create_chunks chunk_count (collect_pmsr_records_for_chunk original modified)) (\<lambda>chunk_records.
        and_then (merge_adjacent_runs pmr_offset pmsr_record_end pmsr_append chunk_records) (\<lambda>records.
        finalize_created_pmsr_patch records (length modified)))))"

definition pmsr_source_warning :: message where
  "pmsr_source_warning =
     Msg ''MOD patches target Paper Mario (USA) v1.0, so applying this one needs --ignore-checksum-validation'' []"

definition pmsr_create :: "(bytes \<Rightarrow> u32) \<Rightarrow> op_context \<Rightarrow> create_request \<Rightarrow> (bytes \<times> report) result" where
  "pmsr_create crc32 ctx request =
     (let original = file_bytes (cr_original request); modified = file_bytes (cr_modified request)
      in if length modified < length original then pmsr_shrinking (length original) (length modified)
         else
           and_then (pmsr_create_thread_capability (length modified)) (\<lambda>cap.
           and_then
             (run_with_optional_pool ctx cap True
                (\<lambda>pool. create_pmsr_patch_parallel original modified)
                (create_pmsr_patch_streaming original modified)) (\<lambda>(execution, created).
           let rep = patch_create_report ''MOD'' (pmsr_record_count created) execution
           in Inr (pmsr_bytes created,
                   if scope_source (patch_check_scopes ctx) \<and>
                      \<not> is_ok (validate_paper_mario_source crc32 original)
                   then rep\<lparr>rep_label := append_warning_labels (rep_label rep) [pmsr_source_warning]\<rparr>
                   else rep))))"

end
