(* ===== verification/Pmsr_Correct.thy ===== *)
theory Pmsr_Correct
  imports Pmsr
begin

text \<open>
  Correctness of the MOD format: every apply path writes the same bytes, workers may
  interleave their writes, both create paths encode the runs of the diff scan, and the
  parser reads an encoded patch back.
\<close>

section \<open>Applying\<close>

definition pmsr_write :: "pmsr_record \<Rightarrow> prepared_write" where
  "pmsr_write r = \<lparr>pw_offset = pmr_offset r, pw_data = pmr_data r\<rparr>"

text \<open>The reference: write the records one after the other over the resized source.\<close>

definition pmsr_output :: "nat \<Rightarrow> pmsr_record list \<Rightarrow> bytes \<Rightarrow> bytes" where
  "pmsr_output n records source = apply_prepared_writes (pad_to n source) (map pmsr_write records)"

definition pmsr_fits :: "nat \<Rightarrow> pmsr_record \<Rightarrow> bool" where
  "pmsr_fits n r \<longleftrightarrow> pmr_offset r + length (pmr_data r) \<le> min n u64_max"

lemma pmsr_record_end_ok: "pmsr_fits n r \<Longrightarrow> pmsr_record_end r = Inr (pmr_offset r + length (pmr_data r))"
  by (simp add: pmsr_fits_def pmsr_record_end_def)

lemma pmsr_in_place_ok:
  assumes "\<forall>r \<in> set records. pmsr_fits n r"
  shows "apply_pmsr_patch_in_place n records out = Inr (apply_prepared_writes out (map pmsr_write records))"
proof -
  have "apply_pmsr_patch_in_place n records out = Inr (fold (\<lambda>r. write_at (pmr_offset r) (pmr_data r)) records out)"
    unfolding apply_pmsr_patch_in_place_def
    by (rule fold_result_Ok) (use assms in \<open>auto simp: pmsr_record_end_ok [of n] pmsr_fits_def\<close>)
  moreover have "fold (\<lambda>r. write_at (pmr_offset r) (pmr_data r)) rs f = apply_prepared_writes f (map pmsr_write rs)" for rs f
    by (induction rs arbitrary: f) (simp_all add: pmsr_write_def)
  ultimately show ?thesis by simp
qed

lemma pmsr_in_memory_ok:
  assumes "\<forall>r \<in> set records. pmsr_fits n r" and "length out = n"
  shows "apply_pmsr_records_in_memory n records out = Inr (apply_prepared_writes out (map pmsr_write records))"
  using assms
proof (induction records arbitrary: out)
  case (Cons r records)
  have r: "pmsr_fits n r" using Cons.prems by simp
  have inside: "pmr_offset r + length (pmr_data r) \<le> length out" using r Cons.prems(2) by (simp add: pmsr_fits_def)
  let ?next = "write_at (pmr_offset r) (pmr_data r) out"
  have len: "length ?next = n" using inside Cons.prems(2) by (auto simp: length_write_at)
  have "(if pmr_data r = [] then Inr out
         else if pmr_offset r + length (pmr_data r) > length out then Err (Panic ''range end index out of range'')
         else Inr (take (pmr_offset r) out @ pmr_data r @ drop (pmr_offset r + length (pmr_data r)) out)) = Inr ?next"
    using inside by (auto simp: write_at_inside)
  then show ?case
    using Cons.IH [OF _ len] Cons.prems(1) r
    by (simp add: apply_pmsr_records_in_memory_def pmsr_record_end_ok [OF r] pmsr_write_def) (simp add: pmsr_fits_def)
qed (simp add: apply_pmsr_records_in_memory_def)

lemma pmsr_parallel_ok:
  assumes "\<forall>r \<in> set records. pmsr_fits n r"
  shows "apply_pmsr_patch_parallel_in_place n records threads out =
    Inr (apply_prepared_writes out (map pmsr_write records))"
proof (cases "records = []")
  case False
  define k where "k = max (div_ceil (length records) (max threads 1)) 1"
  have k: "0 < k" by (simp add: k_def)
  have fold: "fold_result (apply_pmsr_patch_in_place n) chunks out =
      Inr (apply_prepared_writes out (map pmsr_write (concat chunks)))"
    if "\<forall>r \<in> set (concat chunks). pmsr_fits n r" for chunks out
    using that
  proof (induction chunks arbitrary: out)
    case (Cons c chunks)
    then show ?case by (simp add: pmsr_in_place_ok apply_prepared_writes_append)
  qed simp
  have "\<forall>r \<in> set (concat (slice_chunks k records)). pmsr_fits n r"
    using assms by (simp add: concat_slice_chunks [OF k] del: set_concat)
  from fold [OF this, of out] have "fold_result (apply_pmsr_patch_in_place n) (slice_chunks k records) out =
      Inr (apply_prepared_writes out (map pmsr_write records))"
    by (simp only: concat_slice_chunks [OF k])
  with False show ?thesis by (simp add: apply_pmsr_patch_parallel_in_place_def Let_def k_def)
qed (simp add: apply_pmsr_patch_parallel_in_place_def)

definition pmsr_ranges :: "pmsr_record list \<Rightarrow> (nat \<times> nat) list" where
  "pmsr_ranges records =
     map (\<lambda>r. (pmr_offset r, pmr_offset r + length (pmr_data r))) (filter (\<lambda>r. pmr_data r \<noteq> []) records)"

lemma pmsr_overlap_Ok_iff:
  "pmsr_records_are_non_overlapping records n = Inr b \<longleftrightarrow>
     (\<forall>r \<in> set records. pmsr_fits n r) \<and> b = sweep_ranges 0 False (sort_key fst (pmsr_ranges records))"
proof -
  let ?step = "\<lambda>r ranges. and_then (pmsr_record_end r) (\<lambda>stop.
      if stop > n then invalid ''MOD record exceeded declared output size''
      else Inr (if pmr_data r \<noteq> [] then ranges @ [(pmr_offset r, stop)] else ranges))"
  have ok: "fold_result ?step records acc = Inr (acc @ pmsr_ranges records)" if "\<forall>r \<in> set records. pmsr_fits n r" for acc
    using that
  proof (induction records arbitrary: acc)
    case (Cons r records)
    from Cons.prems have r: "pmsr_fits n r" by simp
    with Cons show ?case
      by (simp add: pmsr_record_end_ok [OF r] pmsr_ranges_def) (simp add: pmsr_fits_def)
  qed (simp add: pmsr_ranges_def)
  have bad: "\<not> is_ok (fold_result ?step records acc)" if "\<not> (\<forall>r \<in> set records. pmsr_fits n r)" for acc
    using that
  proof (induction records arbitrary: acc)
    case (Cons r records)
    show ?case
    proof (cases "pmsr_fits n r")
      case True
      with Cons show ?thesis by (simp add: pmsr_record_end_ok [OF True]) (simp add: pmsr_fits_def)
    next
      case False
      then show ?thesis
        by (auto simp: pmsr_fits_def pmsr_record_end_def checked_add_def checked_add_opt_def invalid_def invalid_fmt_def)
    qed
  qed simp
  show ?thesis
  proof (cases "\<forall>r \<in> set records. pmsr_fits n r")
    case True
    then show ?thesis using ok [OF True, of "[]"] by (auto simp: pmsr_records_are_non_overlapping_def)
  next
    case False
    from bad [OF this, of "[]"] show ?thesis
      using False by (auto simp: pmsr_records_are_non_overlapping_def is_ok_iff result_iff)
  qed
qed

lemma pmsr_sweep_exact:
  "sweep_ranges 0 False (sort_key fst (pmsr_ranges records)) \<longleftrightarrow>
     sorted_wrt (\<lambda>v w. write_span v \<inter> write_span w = {}) (map pmsr_write records)"
proof -
  have "\<forall>(start, stop) \<in> set (pmsr_ranges records). start < stop" by (auto simp: pmsr_ranges_def)
  from sweep_ranges_exact [OF this] have "sweep_ranges 0 False (sort_key fst (pmsr_ranges records)) \<longleftrightarrow>
      sorted_wrt (\<lambda>v w. write_span v \<inter> write_span w = {}) (map pmsr_write (filter (\<lambda>r. pmr_data r \<noteq> []) records))"
    unfolding pmsr_ranges_def sorted_wrt_map write_span_def write_end_def pmsr_write_def prepared_write.simps fst_conv snd_conv .
  also have "\<dots> \<longleftrightarrow> sorted_wrt (\<lambda>v w. write_span v \<inter> write_span w = {}) (map pmsr_write records)"
    by (induction records) (auto simp: write_span_def write_end_def pmsr_write_def)
  finally show ?thesis .
qed

text \<open>
  Records found disjoint may be written by the workers in any interleaving of their chunks.
\<close>

lemma pmsr_interleaved:
  assumes check: "pmsr_records_are_non_overlapping records n = Inr True"
    and order: "interleaves (slice_chunks k records) sched" and k: "0 < k" and len: "length out = n"
  shows "apply_pmsr_patch_in_place n sched out = apply_pmsr_patch_in_place n records out"
proof -
  let ?apart = "\<lambda>v w. write_span v \<inter> write_span w = {}"
  from check have fits: "\<forall>r \<in> set records. pmsr_fits n r"
    and disjoint: "sorted_wrt ?apart (map pmsr_write records)"
    by (simp_all add: pmsr_overlap_Ok_iff pmsr_sweep_exact)
  from interleaves_mset [OF order] have perm: "mset sched = mset records"
    by (simp add: concat_slice_chunks [OF k])
  then have same: "set sched = set records" by (metis set_mset_mset)
  have "sorted_wrt ?apart (map pmsr_write sched)"
    by (rule sorted_wrt_perm [OF _ _ disjoint]) (use perm in auto)
  then have "apply_prepared_writes out (map pmsr_write sched) = apply_prepared_writes out (map pmsr_write records)"
    by (rule disjoint_writes_any_order [OF disjoint])
      (use fits len same in \<open>auto simp: pmsr_fits_def pmsr_write_def write_end_def\<close>)
  then show ?thesis using fits same by (simp add: pmsr_in_place_ok)
qed

section \<open>Parsing\<close>

definition pmsr_encode :: "pmsr_record \<Rightarrow> bytes" where
  "pmsr_encode r = be_bytes 4 (pmr_offset r) @ be_bytes 4 (length (pmr_data r)) @ pmr_data r"

definition pmsr_good :: "pmsr_record \<Rightarrow> bool" where
  "pmsr_good r \<longleftrightarrow> pmr_offset r \<le> u32_max \<and> length (pmr_data r) \<le> u32_max"

lemma u32_lt: "n \<le> u32_max \<Longrightarrow> n < 256 ^ 4"
  by (simp add: u32_max_def)

interpretation pmsr_codec: record_codec pmsr_encode read_pmsr_record lp_reader labeled_wf pmsr_good
proof
  fix p r rest
  assume wf: "labeled_wf p" and good: "pmsr_good r" and unread: "lp_reader p = pmsr_encode r @ rest"
  from good have r: "pmr_offset r < 256 ^ 4" "length (pmr_data r) < 256 ^ 4"
    and "pmr_offset r + length (pmr_data r) \<le> u64_max"
    by (simp_all add: pmsr_good_def u32_max_def u64_max_def)
  then have stop: "checked_add (pmr_offset r) (length (pmr_data r)) ''MOD record end'' =
      Inr (pmr_offset r + length (pmr_data r))" by simp
  from unread have u1: "lp_reader p = be_bytes 4 (pmr_offset r) @ be_bytes 4 (length (pmr_data r)) @ pmr_data r @ rest"
    by (simp add: pmsr_encode_def)
  obtain p1 where p1: "labeled_read_u32_be ''MOD record offset'' p = Inr (pmr_offset r, p1)" "labeled_wf p1"
    "lp_reader p1 = be_bytes 4 (length (pmr_data r)) @ pmr_data r @ rest"
    using labeled.read_uint_be [OF wf u1 r(1)] by (auto simp: labeled_read_u32_be_def)
  obtain p2 where p2: "labeled_read_u32_be ''MOD record length'' p1 = Inr (length (pmr_data r), p2)" "labeled_wf p2"
    "lp_reader p2 = pmr_data r @ rest"
    using labeled.read_uint_be [OF p1(2,3) r(2)] by (auto simp: labeled_read_u32_be_def)
  obtain p3 where "labeled_read_exact ''MOD record data'' p2 (length (pmr_data r)) = Inr (pmr_data r, p3)"
    "labeled_wf p3" "lp_reader p3 = rest"
    using labeled.read_exact_prefix [OF p2(2,3) refl] by blast
  with p1 p2 stop show "\<exists>q. read_pmsr_record p = Inr (r, q) \<and> labeled_wf q \<and> lp_reader q = rest"
    by (simp add: read_pmsr_record_def)
qed

definition pmsr_patch_bytes :: "pmsr_record list \<Rightarrow> bytes" where
  "pmsr_patch_bytes rs = PMSR_MAGIC @ be_bytes 4 (length rs) @ concat (map pmsr_encode rs)"

lemma length_PMSR_MAGIC [simp]: "length PMSR_MAGIC = 4"
  by (simp add: PMSR_MAGIC_def)

theorem parse_pmsr_patch_bytes:
  assumes good: "\<forall>r \<in> set rs. pmsr_good r" and count: "length rs \<le> u32_max"
    and len: "length (pmsr_patch_bytes rs) \<le> u64_max"
  shows "parse_pmsr_file (pmsr_patch_bytes rs) =
    Inr \<lparr>pmsr_min_target_size = pmsr_max_end rs, pmsr_records = rs\<rparr>"
proof -
  let ?f = "pmsr_patch_bytes rs"
  let ?p = "labeled_new ?f (length ?f) ''MOD'' ''u64''"
  have wf: "labeled_wf ?p" using len by (rule labeled_wf_new)
  have u: "lp_reader ?p = PMSR_MAGIC @ be_bytes 4 (length rs) @ concat (map pmsr_encode rs) @ []"
    by (simp add: pmsr_patch_bytes_def)
  obtain p1 where p1: "labeled_read_exact ''MOD header'' ?p (length PMSR_MAGIC) = Inr (PMSR_MAGIC, p1)" "labeled_wf p1"
    "lp_reader p1 = be_bytes 4 (length rs) @ concat (map pmsr_encode rs) @ []"
    using labeled.read_exact_prefix [OF wf u refl] by blast
  obtain p2 where p2: "labeled_read_u32_be ''MOD record count'' p1 = Inr (length rs, p2)" "labeled_wf p2"
    "lp_reader p2 = concat (map pmsr_encode rs) @ []"
    using labeled.read_uint_be [OF p1(2,3) u32_lt [OF count]] by (auto simp: labeled_read_u32_be_def)
  obtain p3 where "read_records read_pmsr_record (length rs) p2 = Inr (rs, p3)" "labeled_wf p3" "lp_reader p3 = []"
    using pmsr_codec.read_records_encode [OF p2(2) good p2(3)] by blast
  moreover have "\<not> length ?f < PMSR_HEADER_SIZE"
    by (simp add: pmsr_patch_bytes_def PMSR_HEADER_SIZE_def)
  ultimately show ?thesis
    using p1 p2 by (simp add: parse_pmsr_file_def labeled_remaining_wf)
qed

text \<open>The least output length covers every record, so no parsed record can be out of range.\<close>

lemma fold_max_ge:
  fixes g :: "'a \<Rightarrow> nat"
  shows "a \<le> fold (\<lambda>r current. max current (g r)) rs a"
proof (induction rs arbitrary: a)
  case (Cons r rs)
  from Cons [of "max a (g r)"] show ?case by simp
qed simp

lemma fold_max_member:
  fixes g :: "'a \<Rightarrow> nat"
  shows "r \<in> set rs \<Longrightarrow> g r \<le> fold (\<lambda>r current. max current (g r)) rs a"
proof (induction rs arbitrary: a)
  case (Cons s rs)
  show ?case
  proof (cases "r = s")
    case True
    with fold_max_ge [of "max a (g s)" g rs] show ?thesis by simp
  next
    case False
    with Cons show ?thesis by simp
  qed
qed simp

lemma read_pmsr_record_u64:
  "read_pmsr_record p = Inr (r, q) \<Longrightarrow> pmr_offset r + length (pmr_data r) \<le> u64_max"
  by (auto simp: read_pmsr_record_def result_iff dest: labeled_read_exact_length)

lemma parse_pmsr_fits:
  assumes "parse_pmsr_file f = Inr patch" and "pmsr_min_target_size patch \<le> n"
  shows "\<forall>r \<in> set (pmsr_records patch). pmsr_fits n r"
proof -
  from assms(1) obtain count p rs q where "read_records read_pmsr_record count p = Inr (rs, q)"
    and patch: "patch = \<lparr>pmsr_min_target_size = pmsr_max_end rs, pmsr_records = rs\<rparr>"
    by (auto simp: parse_pmsr_file_def result_iff split: if_splits)
  then have "\<forall>r \<in> set rs. pmr_offset r + length (pmr_data r) \<le> u64_max"
    by (intro read_records_all(1) [where P = "\<lambda>r. pmr_offset r + length (pmr_data r) \<le> u64_max", OF read_pmsr_record_u64])
  moreover have "pmr_offset r + length (pmr_data r) \<le> pmsr_max_end rs" if "r \<in> set rs" for r
    unfolding pmsr_max_end_def using that by (rule fold_max_member)
  ultimately show ?thesis using assms(2) by (fastforce simp: patch pmsr_fits_def)
qed

section \<open>Apply\<close>

text \<open>What an apply asks for before it writes, and its one outcome on every path.\<close>

definition pmsr_accepts :: "(bytes \<Rightarrow> u32) \<Rightarrow> op_context \<Rightarrow> bytes \<Rightarrow> stored_file \<Rightarrow> parsed_pmsr \<Rightarrow> bool" where
  "pmsr_accepts crc32 ctx source pf patch \<longleftrightarrow>
     parse_pmsr_file (file_bytes pf) = Inr patch \<and>
     (scope_source (patch_check_scopes ctx) \<longrightarrow> validate_paper_mario_source crc32 source = Inr ()) \<and>
     max (pmsr_min_target_size patch) (length source) \<le> plausible_output_limit (length source) (file_len pf)"

lemma pmsr_write_records_ok:
  assumes fits: "\<forall>r \<in> set records. pmsr_fits n r"
  shows "(\<exists>e. pmsr_write_records ctx records n source = Inr (e, out)) \<longleftrightarrow> out = pmsr_output n records source"
proof -
  let ?cap = "parallel_per_record_capability (length records)"
  obtain b where b: "pmsr_records_are_non_overlapping records n = Inr b"
    using fits by (auto simp: pmsr_overlap_Ok_iff)
  have pool: "(\<exists>e. run_with_optional_pool ctx ?cap b
      (\<lambda>pool. apply_pmsr_patch_parallel_in_place n records pool (set_len n source))
      (apply_pmsr_patch_in_place n records (set_len n source)) = Inr (e, v)) \<longleftrightarrow>
      Inr (pmsr_output n records source) = (Inr v :: bytes result)" for v
    by (rule run_with_optional_pool_value)
      (simp_all add: pmsr_parallel_ok [OF fits] pmsr_in_place_ok [OF fits] pmsr_output_def)
  show ?thesis
  proof (cases "can_apply_sparse_in_memory ctx (length source) n (length records) SPARSE_STREAMING")
    case True
    then show ?thesis
      using pmsr_in_memory_ok [OF fits length_pad_to, of source] by (auto simp: pmsr_write_records_def Let_def b pmsr_output_def)
  next
    case False
    then show ?thesis using pool [of out] by (force simp: pmsr_write_records_def Let_def b result_iff)
  qed
qed

lemma pmsr_apply_ok_iff:
  "(\<exists>rep. pmsr_apply crc32 ctx \<lparr>ar_input = inp, ar_patches = ps, ar_output = path\<rparr> = Inr (out, rep)) \<longleftrightarrow>
    (\<exists>pf patch. ps = [pf] \<and> pmsr_accepts crc32 ctx (file_bytes inp) pf patch \<and>
       out = pmsr_output (max (pmsr_min_target_size patch) (file_len inp)) (pmsr_records patch) (file_bytes inp))"
  (is "?lhs \<longleftrightarrow> ?rhs")
proof -
  have check: "(if b then r else Inr ()) = Inr u \<longleftrightarrow> (b \<longrightarrow> r = Inr ())" for b and r :: "unit result" and u
    by auto
  have paths: "(\<exists>e. pmsr_write_records ctx (pmsr_records patch) (max (pmsr_min_target_size patch) n) source = Inr (e, out)) \<longleftrightarrow>
      out = pmsr_output (max (pmsr_min_target_size patch) n) (pmsr_records patch) source"
    if "pmsr_accepts crc32 ctx source pf patch" for pf patch n source
    using that by (intro pmsr_write_records_ok parse_pmsr_fits [where f = "file_bytes pf", OF _ max.cobounded1])
      (simp add: pmsr_accepts_def)
  show ?thesis
  proof
    assume ?lhs
    then obtain pf patch e where "ps = [pf]" "pmsr_accepts crc32 ctx (file_bytes inp) pf patch"
      "pmsr_write_records ctx (pmsr_records patch) (max (pmsr_min_target_size patch) (file_len inp)) (file_bytes inp) = Inr (e, out)"
      by (auto simp: pmsr_apply_def Let_def result_iff single_patch_cases check ensure_plausible_iff pmsr_accepts_def)
    then show ?rhs using paths by blast
  next
    assume ?rhs
    then obtain pf patch where p: "ps = [pf]" "pmsr_accepts crc32 ctx (file_bytes inp) pf patch"
      and out: "out = pmsr_output (max (pmsr_min_target_size patch) (file_len inp)) (pmsr_records patch) (file_bytes inp)"
      by blast
    then obtain e where "pmsr_write_records ctx (pmsr_records patch) (max (pmsr_min_target_size patch) (file_len inp))
        (file_bytes inp) = Inr (e, out)"
      using paths by blast
    with p show ?lhs
      by (auto simp: pmsr_apply_def Let_def result_iff single_patch_cases check ensure_plausible_iff pmsr_accepts_def)
  qed
qed

section \<open>Creating\<close>

definition pmsr_view :: "pmsr_record \<Rightarrow> u8 run" where
  "pmsr_view r = (pmr_offset r, pmr_data r)"

definition pmsr_of_run :: "u8 run \<Rightarrow> pmsr_record" where
  "pmsr_of_run r = \<lparr>pmr_offset = fst r, pmr_data = snd r\<rparr>"

lemma pmsr_of_run_sel [simp]: "pmr_offset (pmsr_of_run r) = fst r" "pmr_data (pmsr_of_run r) = snd r"
  "pmsr_write (pmsr_of_run r) = run_write r"
  by (simp_all add: pmsr_of_run_def pmsr_write_def run_write_def)

interpretation pmsr_runs: chunked_scan pmsr_view pmr_offset pmsr_record_end pmsr_append pmsr_of_run
  PMSR_CREATE_SCAN_CHUNK_BYTES "''MOD create chunk offset overflowed''"
  by unfold_locales
    (simp_all add: pmsr_view_def pmsr_record_end_def pmsr_append_def run_stop_def pmsr_of_run_def
      PMSR_CREATE_SCAN_CHUNK_BYTES_def)

text \<open>The scan state of the code at an offset of the diff scan.\<close>

definition pmsr_at :: "(nat \<Rightarrow> u8 option) \<Rightarrow> nat \<Rightarrow> nat \<Rightarrow> pmsr_scan" where
  "pmsr_at cell lo i = (case lift_scan pmsr_of_run (scan_to cell lo i) of (runs, pstart, pbytes) \<Rightarrow> (runs, pstart, pbytes, i))"

lemma pmsr_at_start [simp]: "pmsr_at cell lo lo = ([], None, [], lo)"
  by (simp add: pmsr_at_def)

lemma pmsr_scan_byte_at:
  assumes "lo \<le> i" and "i < u64_max"
  shows "pmsr_scan_byte (byte_at s i) (byte_at t i) (pmsr_at (diff_cell s t) lo i) = Inr (pmsr_at (diff_cell s t) lo (Suc i))"
proof -
  obtain runs pstart pbytes where st: "scan_to (diff_cell s t) lo i = (runs, pstart, pbytes)"
    by (cases "scan_to (diff_cell s t) lo i")
  from scan_to_pending [OF assms(1) st] have pending: "pbytes \<noteq> [] \<longleftrightarrow> (\<exists>s. pstart = Some s)" .
  have "checked_add i 1 ''MOD scan offset'' = Inr (Suc i)" using assms(2) by simp
  then show ?thesis
    using pending assms(1)
    by (auto simp: pmsr_scan_byte_def pmsr_at_def scan_to_Suc st lift_scan_def diff_step_def diff_cell_def
        pmsr_flush_def pmsr_of_run_def Let_def simp del: byte_at_lt)
qed

lemma pmsr_scan_bytes:
  assumes "lo \<le> off" and "off + n \<le> u64_max"
    and "\<And>i. i < n \<Longrightarrow> f i = byte_at s (off + i)" and "\<And>i. i < n \<Longrightarrow> g i = byte_at t (off + i)"
  shows "fold_result (\<lambda>i. pmsr_scan_byte (f i) (g i)) [0..<n] (pmsr_at (diff_cell s t) lo off) =
    Inr (pmsr_at (diff_cell s t) lo (off + n))"
  using assms(2-4)
proof (induction n)
  case (Suc n)
  have "pmsr_scan_byte (f n) (g n) (pmsr_at (diff_cell s t) lo (off + n)) = Inr (pmsr_at (diff_cell s t) lo (Suc (off + n)))"
    using pmsr_scan_byte_at [of lo "off + n" s t] Suc.prems assms(1) by simp
  with Suc show ?case by (simp add: fold_result_append)
qed simp

lemma pmsr_flush_at:
  assumes "lo \<le> hi" and "pmsr_at cell lo hi = (records, pstart, pdata, c)"
  shows "pmsr_flush records pstart pdata = Inr (map pmsr_of_run (diff_scan cell lo hi))"
proof -
  have st: "lift_scan pmsr_of_run (scan_to cell lo hi) = (records, pstart, pdata)"
    using assms(2) by (auto simp: pmsr_at_def split: prod.splits)
  then obtain runs where "scan_to cell lo hi = (runs, pstart, pdata)"
    by (auto simp: lift_scan_def split: prod.splits)
  from scan_to_pending [OF assms(1) this] lift_scan_finish [OF st] show ?thesis
    by (auto simp: pmsr_flush_def pmsr_of_run_def split: if_splits)
qed

lemma pmsr_collects:
  assumes "length t \<le> u64_max"
  shows "collects pmsr_of_run collect_pmsr_records_from_bytes s t (diff_cell s t)"
  unfolding collects_def
proof (intro allI impI)
  fix lo hi and ob :: bytes
  assume le: "lo \<le> hi" "hi \<le> length t" and ob: "length ob = hi - lo" "\<forall>i < hi - lo. ob ! i = byte_at s (lo + i)"
  let ?mb = "segment t lo (hi - lo)"
  have mb: "?mb ! i = byte_at t (lo + i)" if "i < hi - lo" for i
    using that le by (subst nth_segment) auto
  have "fold_result (\<lambda>index. pmsr_scan_byte (byte_at ob index) (?mb ! index)) [0..<hi - lo]
      (pmsr_at (diff_cell s t) lo lo) = Inr (pmsr_at (diff_cell s t) lo (lo + (hi - lo)))"
    by (rule pmsr_scan_bytes) (use le ob assms mb in auto)
  moreover have "length ?mb = hi - lo" using le by simp
  moreover obtain records pstart pdata c where st: "pmsr_at (diff_cell s t) lo hi = (records, pstart, pdata, c)"
    by (cases "pmsr_at (diff_cell s t) lo hi")
  ultimately show "collect_pmsr_records_from_bytes lo ob ?mb = Inr (map pmsr_of_run (diff_scan (diff_cell s t) lo hi))"
    using pmsr_flush_at [OF le(1) st] le(1) by (simp add: collect_pmsr_records_from_bytes_def st)
qed

lemma pmsr_stream_ok:
  assumes "length t \<le> u64_max"
  shows "chunk_loop PMSR_IO_BUFFER_SIZE (pmsr_stream_buffer s t) 0 (length t) ([], None, [], 0) =
    Inr (pmsr_at (diff_cell s t) 0 (length t))"
proof -
  have "chunk_loop PMSR_IO_BUFFER_SIZE (pmsr_stream_buffer s t) 0 (length t) (pmsr_at (diff_cell s t) 0 0) =
      Inr (pmsr_at (diff_cell s t) 0 (length t))"
  proof (rule chunk_loop_states)
    fix off n
    assume n: "0 < n" "off + n \<le> length t"
    define m where "m = min (length s - off) n"
    have src: "(if 0 < m then seek_read_exact s off m else Inr []) = Inr (segment s off m)"
      by (auto simp: m_def seek_read_exact_def)
    have tgt: "seek_read_exact t off n = Inr (segment t off n)"
      using n by (simp add: seek_read_exact_def)
    have "fold_result (\<lambda>i. pmsr_scan_byte (if i < m then segment s off m ! i else 0) (segment t off n ! i)) [0..<n]
        (pmsr_at (diff_cell s t) 0 off) = Inr (pmsr_at (diff_cell s t) 0 (off + n))"
      by (rule pmsr_scan_bytes)
        (use n assms in \<open>auto simp: m_def nth_segment byte_at_def min_def split: if_splits\<close>)
    then show "pmsr_stream_buffer s t off n (pmsr_at (diff_cell s t) 0 off) = Inr (pmsr_at (diff_cell s t) 0 (off + n))"
      unfolding pmsr_stream_buffer_def Let_def m_def [symmetric] src tgt and_then_simps .
  qed (simp_all add: PMSR_IO_BUFFER_SIZE_def)
  then show ?thesis by simp
qed

text \<open>The records of a created patch.\<close>

definition pmsr_scan_records :: "bytes \<Rightarrow> bytes \<Rightarrow> pmsr_record list" where
  "pmsr_scan_records s t = map pmsr_of_run (diff_scan (diff_cell s t) 0 (length t))"

definition pmsr_patch_records :: "bytes \<Rightarrow> bytes \<Rightarrow> pmsr_record list" where
  "pmsr_patch_records s t =
     (let rs = pmsr_scan_records s t
      in if pmsr_max_end rs < length t then rs @ [\<lparr>pmr_offset = length t, pmr_data = []\<rparr>] else rs)"

lemma fold_max_le:
  fixes g :: "'a \<Rightarrow> nat"
  shows "\<forall>r \<in> set rs. g r \<le> n \<Longrightarrow> a \<le> n \<Longrightarrow> fold (\<lambda>r current. max current (g r)) rs a \<le> n"
  by (induction rs arbitrary: a) auto

lemma pmsr_scan_end: "r \<in> set (pmsr_scan_records s t) \<Longrightarrow> pmr_offset r + length (pmr_data r) \<le> length t"
  using diff_scan_spec(4) [OF le0, of _ "diff_cell s t" "length t"]
  by (auto simp: pmsr_scan_records_def run_stop_def)

lemma pmsr_max_end_scan: "pmsr_max_end (pmsr_scan_records s t) \<le> length t"
  unfolding pmsr_max_end_def by (rule fold_max_le) (use pmsr_scan_end in auto)

lemma pmsr_max_end_append:
  "pmsr_max_end (rs @ [r]) = max (pmsr_max_end rs) (pmr_offset r + length (pmr_data r))"
  by (simp add: pmsr_max_end_def)

lemma pmsr_patch_max_end: "pmsr_max_end (pmsr_patch_records s t) = length t"
  using pmsr_max_end_scan [of s t] by (simp add: pmsr_patch_records_def Let_def pmsr_max_end_append)

lemma pmsr_patch_end: "r \<in> set (pmsr_patch_records s t) \<Longrightarrow> pmr_offset r + length (pmr_data r) \<le> length t"
  using pmsr_scan_end [of r s t] by (auto simp: pmsr_patch_records_def Let_def split: if_splits)

lemma pmsr_patch_good: "length t \<le> u32_max \<Longrightarrow> r \<in> set (pmsr_patch_records s t) \<Longrightarrow> pmsr_good r"
  using pmsr_patch_end [of r s t] by (simp add: pmsr_good_def)

lemma pmsr_patch_sizes:
  "2 * length (pmsr_patch_records s t) \<le> length t + 3"
  "(\<Sum>r \<leftarrow> pmsr_patch_records s t. length (pmr_data r)) \<le> length t"
  using diff_scan_bounds [where hi = "length t" and cell = "diff_cell s t"]
  by (auto simp: pmsr_patch_records_def pmsr_scan_records_def Let_def comp_def)

lemma length_pmsr_patch_bytes:
  "length (pmsr_patch_bytes rs) = 8 + 8 * length rs + (\<Sum>r \<leftarrow> rs. length (pmr_data r))"
  by (induction rs) (simp_all add: pmsr_patch_bytes_def pmsr_encode_def)

lemma encode_pmsr_records_Ok_iff:
  "encode_pmsr_records rs = Inr bs \<longleftrightarrow>
    (\<forall>r \<in> set rs. pmsr_good r) \<and> length rs \<le> u32_max \<and> length (pmsr_patch_bytes rs) \<le> u64_max \<and>
    bs = pmsr_patch_bytes rs"
proof -
  have payload: "fold_result pmsr_payload_step qs acc = Inr n \<longleftrightarrow>
      n = acc + 8 * length qs + (\<Sum>r \<leftarrow> qs. length (pmr_data r)) \<and> (n \<le> u64_max \<or> qs = [])" for qs acc n
  proof (induction qs arbitrary: acc)
    case (Cons q qs)
    have "pmsr_payload_step q acc =
        (if acc + 8 + length (pmr_data q) \<le> u64_max then Inr (acc + 8 + length (pmr_data q))
         else invalid ''MOD patch size exceeded addressable memory'')"
      by (simp add: pmsr_payload_step_def checked_add_opt_def)
    then show ?case using Cons.IH [of "acc + 8 + length (pmr_data q)"] by (auto simp: add.assoc)
  qed auto
  have out: "fold_result (\<lambda>r out. and_then (encode_pmsr_record r) (\<lambda>bs. Inr (out @ bs))) qs acc = Inr b \<longleftrightarrow>
      (\<forall>r \<in> set qs. pmsr_good r) \<and> b = acc @ concat (map pmsr_encode qs)" for qs acc b
  proof (induction qs arbitrary: acc)
    case (Cons q qs)
    show ?case
    proof (cases "pmsr_good q")
      case True
      with Cons.IH show ?thesis by (simp add: encode_pmsr_record_def pmsr_good_def pmsr_encode_def)
    next
      case False
      then show ?thesis by (auto simp: encode_pmsr_record_def pmsr_good_def)
    qed
  qed auto
  have "length (pmsr_patch_bytes rs) = PMSR_HEADER_SIZE + (8 * length rs + (\<Sum>r \<leftarrow> rs. length (pmr_data r)))"
    by (simp add: length_pmsr_patch_bytes PMSR_HEADER_SIZE_def)
  moreover have "pmsr_patch_bytes rs = (PMSR_MAGIC @ be_bytes 4 (length rs)) @ concat (map pmsr_encode rs)"
    by (simp add: pmsr_patch_bytes_def)
  ultimately show ?thesis
    by (auto simp: encode_pmsr_records_def result_iff payload out checked_add_opt_def
        simp del: append_assoc split: if_splits)
qed

lemma pmsr_patch_encodes:
  assumes "length t \<le> u32_max"
  shows "\<forall>r \<in> set (pmsr_patch_records s t). pmsr_good r" "length (pmsr_patch_records s t) \<le> u32_max"
    "length (pmsr_patch_bytes (pmsr_patch_records s t)) \<le> u64_max"
  using pmsr_patch_good [OF assms] pmsr_patch_sizes [of s t] assms
  by (auto simp: length_pmsr_patch_bytes u32_max_def u64_max_def)

definition pmsr_created :: "bytes \<Rightarrow> bytes \<Rightarrow> created_pmsr \<Rightarrow> bool" where
  "pmsr_created s t c \<longleftrightarrow>
     (\<forall>r \<in> set (pmsr_patch_records s t). pmsr_good r) \<and> length (pmsr_patch_records s t) \<le> u32_max \<and>
     length (pmsr_patch_bytes (pmsr_patch_records s t)) \<le> u64_max \<and>
     c = \<lparr>pmsr_bytes = pmsr_patch_bytes (pmsr_patch_records s t), pmsr_record_count = length (pmsr_patch_records s t)\<rparr>"

lemma finalize_pmsr_Ok_iff:
  assumes "length t \<le> u64_max"
  shows "finalize_created_pmsr_patch (pmsr_scan_records s t) (length t) = Inr c \<longleftrightarrow> pmsr_created s t c"
proof -
  have ends: "pmsr_record_end r = Inr (pmr_offset r + length (pmr_data r))" if "r \<in> set (pmsr_scan_records s t)" for r
    using pmsr_scan_end [OF that] assms by (simp add: pmsr_record_end_def)
  have "fold_result (\<lambda>r current. and_then (pmsr_record_end r) (\<lambda>stop. Inr (max current stop))) (pmsr_scan_records s t) 0 =
      Inr (pmsr_max_end (pmsr_scan_records s t))"
    unfolding pmsr_max_end_def by (rule fold_result_Ok) (simp add: ends)
  moreover have "(if length t > pmsr_max_end (pmsr_scan_records s t)
      then pmsr_scan_records s t @ [\<lparr>pmr_offset = length t, pmr_data = []\<rparr>] else pmsr_scan_records s t) =
      pmsr_patch_records s t"
    by (simp add: pmsr_patch_records_def)
  ultimately show ?thesis
    by (auto simp: finalize_created_pmsr_patch_def Let_def result_iff encode_pmsr_records_Ok_iff pmsr_created_def
        simp del: if_split)
qed

lemma create_pmsr_paths:
  assumes "length s \<le> length t" and bound: "length t + PMSR_CREATE_SCAN_CHUNK_BYTES \<le> u64_max"
  shows "create_pmsr_patch_parallel s t = finalize_created_pmsr_patch (pmsr_scan_records s t) (length t)"
    and "create_pmsr_patch_streaming s t = finalize_created_pmsr_patch (pmsr_scan_records s t) (length t)"
    and "\<exists>cap. pmsr_create_thread_capability (length t) = Inr cap"
proof -
  have u64: "length t \<le> u64_max" using bound by simp
  from chunk_count_total [OF bound] obtain k where k: "pmsr_create_chunk_count (length t) = Inr k"
    by (auto simp: pmsr_create_chunk_count_def PMSR_CREATE_SCAN_CHUNK_BYTES_def)
  then show "\<exists>cap. pmsr_create_thread_capability (length t) = Inr cap"
    by (simp add: pmsr_create_thread_capability_def)
  from pmsr_runs.merged_chunks [OF pmsr_collects [OF u64] bound k [unfolded pmsr_create_chunk_count_def]]
  obtain chunks where "scan_create_chunks k (collect_pmsr_records_for_chunk s t) = Inr chunks"
    "merge_adjacent_runs pmr_offset pmsr_record_end pmsr_append chunks = Inr (pmsr_scan_records s t)"
    by (auto simp: collect_pmsr_records_for_chunk_def pmsr_scan_records_def)
  with k assms(1) show "create_pmsr_patch_parallel s t = finalize_created_pmsr_patch (pmsr_scan_records s t) (length t)"
    by (simp add: create_pmsr_patch_parallel_def)
  obtain records pstart pdata c where st: "pmsr_at (diff_cell s t) 0 (length t) = (records, pstart, pdata, c)"
    by (cases "pmsr_at (diff_cell s t) 0 (length t)")
  from pmsr_stream_ok [OF u64] pmsr_flush_at [OF le0 st] assms(1)
  show "create_pmsr_patch_streaming s t = finalize_created_pmsr_patch (pmsr_scan_records s t) (length t)"
    by (simp add: create_pmsr_patch_streaming_def st pmsr_scan_records_def)
qed

text \<open>Create succeeds exactly when the canonical patch fits the fields, on either path.\<close>

lemma pmsr_create_Ok_iff:
  assumes bound: "file_len t + PMSR_CREATE_SCAN_CHUNK_BYTES \<le> u64_max"
  shows "(\<exists>rep. pmsr_create crc32 ctx \<lparr>cr_original = s, cr_modified = t\<rparr> = Inr (bs, rep)) \<longleftrightarrow>
    file_len s \<le> file_len t \<and> (\<exists>c. pmsr_created (file_bytes s) (file_bytes t) c \<and> bs = pmsr_bytes c)"
proof (cases "file_len s \<le> file_len t")
  case True
  have u64: "file_len t \<le> u64_max" using bound by simp
  note paths = create_pmsr_paths [OF True bound]
  obtain cap where cap: "pmsr_create_thread_capability (file_len t) = Inr cap" using paths(3) by blast
  let ?r = "finalize_created_pmsr_patch (pmsr_scan_records (file_bytes s) (file_bytes t)) (file_len t)"
  have pool: "(\<exists>e. run_with_optional_pool ctx cap True (\<lambda>pool. ?r) ?r = Inr (e, c)) \<longleftrightarrow> ?r = Inr c" for c
    by (rule run_with_optional_pool_value) simp_all
  have "(\<exists>rep. pmsr_create crc32 ctx \<lparr>cr_original = s, cr_modified = t\<rparr> = Inr (bs, rep)) \<longleftrightarrow>
      (\<exists>e c. run_with_optional_pool ctx cap True (\<lambda>pool. ?r) ?r = Inr (e, c) \<and> bs = pmsr_bytes c)"
    using True cap by (auto simp: pmsr_create_def Let_def paths(1,2) result_iff)
  also have "\<dots> \<longleftrightarrow> (\<exists>c. pmsr_created (file_bytes s) (file_bytes t) c \<and> bs = pmsr_bytes c)"
    using pool by (simp only: finalize_pmsr_Ok_iff [OF u64]) blast
  finally show ?thesis using True by simp
qed (auto simp: pmsr_create_def pmsr_shrinking_def)

text \<open>The records of a created patch, written over the source, give the target.\<close>

lemma pmsr_patch_output:
  assumes "length s \<le> length t"
  shows "pmsr_output (max (pmsr_max_end (pmsr_patch_records s t)) (length s)) (pmsr_patch_records s t) s = t"
proof -
  have n: "max (pmsr_max_end (pmsr_patch_records s t)) (length s) = length t"
    using assms by (simp add: pmsr_patch_max_end)
  have "apply_prepared_writes f (map pmsr_write (pmsr_patch_records s t)) =
      apply_prepared_writes f (map run_write (diff_scan (diff_cell s t) 0 (length t)))" for f
    by (simp add: pmsr_patch_records_def pmsr_scan_records_def Let_def comp_def apply_prepared_writes_append)
      (simp add: pmsr_write_def)
  then show ?thesis by (simp add: n pmsr_output_def diff_cell_writes)
qed

section \<open>Properties\<close>



text \<open>
  An apply succeeds exactly when there is one patch file, it parses, the source check
  passes or is off, and the output length (the higher of the source length and the largest
  record end) is within the plausibility limit; then the output is the resized source with
  the records written in order, whichever of the three write paths is taken.
\<close>

theorem pmsr_apply_reference:
  "(\<exists>rep. pmsr_apply crc32 ctx \<lparr>ar_input = inp, ar_patches = ps, ar_output = path\<rparr> = Inr (out, rep)) \<longleftrightarrow>
    (\<exists>pf patch. ps = [pf] \<and> pmsr_accepts crc32 ctx (file_bytes inp) pf patch \<and>
       out = pmsr_output (max (pmsr_min_target_size patch) (file_len inp)) (pmsr_records patch) (file_bytes inp))"
  by (rule pmsr_apply_ok_iff)

text \<open>
  C32. When the overlap check lets the pool write, the workers may interleave: every order in
  which they take the records of their chunks leaves the file that the model's chunk after
  chunk order leaves.
\<close>

theorem pmsr_any_interleaving:
  assumes "pmsr_records_are_non_overlapping records n = Inr True" and "records \<noteq> []"
    and "interleaves (slice_chunks (max (div_ceil (length records) (max threads 1)) 1) records) sched"
    and "length out = n"
  shows "apply_pmsr_patch_in_place n sched out = apply_pmsr_patch_parallel_in_place n records threads out"
proof -
  from assms(1) have "\<forall>r \<in> set records. pmsr_fits n r" by (simp add: pmsr_overlap_Ok_iff)
  then have "apply_pmsr_patch_parallel_in_place n records threads out = apply_pmsr_patch_in_place n records out"
    by (simp add: pmsr_parallel_ok pmsr_in_place_ok)
  with pmsr_interleaved [OF assms(1,3) _ assms(4)] show ?thesis by simp
qed

theorem pmsr_any_interleaving_witness:
  "apply_pmsr_patch_in_place 4 [\<lparr>pmr_offset = 1, pmr_data = [7]\<rparr>, \<lparr>pmr_offset = 2, pmr_data = [8, 9]\<rparr>] [1, 2, 3, 0] =
   apply_pmsr_patch_parallel_in_place 4
     [\<lparr>pmr_offset = 2, pmr_data = [8, 9]\<rparr>, \<lparr>pmr_offset = 1, pmr_data = [7]\<rparr>] 2 [1, 2, 3, 0]"
proof -
  let ?a = "\<lparr>pmr_offset = 2, pmr_data = [8, 9]\<rparr> :: pmsr_record" and ?b = "\<lparr>pmr_offset = 1, pmr_data = [7]\<rparr> :: pmsr_record"
  have chunks: "slice_chunks (max (div_ceil (length [?a, ?b]) (max 2 1)) 1) [?a, ?b] = [[?a], [?b]]"
  proof -
    have "length [?a, ?b] = 2" by simp
    moreover have "div_ceil 2 (max 2 1) = 1" unfolding div_ceil_def by code_simp
    ultimately have "max (div_ceil (length [?a, ?b]) (max 2 1)) 1 = 1" by (simp only: max.idem)
    then show ?thesis by (simp only:) (simp add: slice_chunks.simps)
  qed
  have "interleaves [[?a], []] [?a]"
    using interleaves_step [of 0 "[[?a], []]" ?a "[]" "[]"] by (simp add: interleaves_done)
  then have order: "interleaves [[?a], [?b]] [?b, ?a]"
    using interleaves_step [of 1 "[[?a], [?b]]" ?b "[]" "[?a]"] by simp
  have "pmsr_records_are_non_overlapping [?a, ?b] 4 = Inr True"
    by (simp add: pmsr_overlap_Ok_iff pmsr_fits_def pmsr_ranges_def u64_max_def)
  then show ?thesis
    by (rule pmsr_any_interleaving) (simp_all only: chunks order, simp_all)
qed

end
