(* ===== verification/Block_Cache.thy ===== *)
theory Block_Cache
  imports Handlers
begin

text \<open>
  The block caches of \<open>rom-weaver-core/src/io.rs\<close>: \<open>BlockCacheReader\<close>, used by one
  thread, with its memory watermark, and \<open>SharedBlockCacheReader\<close>, whose mutex is taken for
  a lookup and again for an insertion while the block is read from the file in between.
  The cache is a parameter of no result: reading through it is \<open>read_exact_at\<close> of the file.
\<close>

section \<open>Reading without a cache\<close>

definition read_exact_from_path :: "bytes \<Rightarrow> nat \<Rightarrow> nat \<Rightarrow> bytes result" where
  "read_exact_from_path f off n =
     (if n = 0 then Inr []
      else case checked_add_opt off n of
        None \<Rightarrow> invalid_fmt ''read range exceeds file bounds (offset={}, len={})'' [Num off, Num n]
      | Some stop \<Rightarrow>
          if stop > length f
          then invalid_fmt ''read range exceeds file bounds (offset={}, len={})'' [Num off, Num n]
          else seek_read_exact f off n)"

lemma read_exact_from_path_at: "read_exact_from_path f off n = read_exact_at f off n"
  by (auto simp: read_exact_from_path_def read_exact_at_def checked_add_opt_def seek_read_exact_def)

definition cache_validate_options :: "nat \<Rightarrow> nat \<Rightarrow> unit result" where
  "cache_validate_options block_size max_blocks =
     (if block_size = 0 then invalid ''block cache block_size must be greater than zero''
      else if max_blocks = 0 then invalid ''block cache max_blocks must be greater than zero''
      else Inr ())"

text \<open>The bytes of a block of the file.\<close>

definition file_block :: "bytes \<Rightarrow> nat \<Rightarrow> nat \<Rightarrow> bytes" where
  "file_block f block_size index = segment f (index * block_size) block_size"

section \<open>The shared cache\<close>

record shared_cache =
  sc_cache :: "nat \<Rightarrow> bytes option"
  sc_order :: "nat list"

definition shared_cache_empty :: shared_cache where
  "shared_cache_empty = \<lparr>sc_cache = (\<lambda>_. None), sc_order = []\<rparr>"

text \<open>The first critical section: a hit moves the block to the back of the order.\<close>

definition shared_lookup :: "nat \<Rightarrow> shared_cache \<Rightarrow> bytes option \<times> shared_cache" where
  "shared_lookup index c =
     (case sc_cache c index of
        Some block \<Rightarrow> (Some block, c\<lparr>sc_order := remove1 index (sc_order c) @ [index]\<rparr>)
      | None \<Rightarrow> (None, c))"

text \<open>Between the locks: the block is read from the file.\<close>

definition shared_load :: "bytes \<Rightarrow> nat \<Rightarrow> nat \<Rightarrow> bytes result" where
  "shared_load f block_size index =
     (let start = saturating_mul index block_size;
          remaining = length f - start
      in read_exact_from_path f start (min remaining block_size))"

fun evict_blocks :: "nat \<Rightarrow> nat list \<Rightarrow> (nat \<Rightarrow> bytes option) \<Rightarrow> nat list \<times> (nat \<Rightarrow> bytes option)" where
  "evict_blocks max_blocks [] cache = ([], cache)"
| "evict_blocks max_blocks (evicted # order) cache =
     (if length (evicted # order) > max_blocks then evict_blocks max_blocks order (cache(evicted := None))
      else (evicted # order, cache))"

text \<open>The second critical section: a block another worker inserted meanwhile is reused.\<close>

definition shared_insert :: "nat \<Rightarrow> nat \<Rightarrow> bytes \<Rightarrow> shared_cache \<Rightarrow> bytes \<times> shared_cache" where
  "shared_insert max_blocks index loaded c =
     (case sc_cache c index of
        Some block \<Rightarrow> (block, c)
      | None \<Rightarrow>
          let (order, cache) = evict_blocks max_blocks (sc_order c @ [index]) ((sc_cache c)(index \<mapsto> loaded))
          in (loaded, \<lparr>sc_cache = cache, sc_order = order\<rparr>))"

definition shared_get_block ::
  "bytes \<Rightarrow> nat \<Rightarrow> nat \<Rightarrow> nat \<Rightarrow> shared_cache \<Rightarrow> bytes result \<times> shared_cache" where
  "shared_get_block f block_size max_blocks index c =
     (case shared_lookup index c of
        (Some block, c) \<Rightarrow> (Inr block, c)
      | (None, c) \<Rightarrow>
          (case shared_load f block_size index of
             Inl e \<Rightarrow> (Inl e, c)
           | Inr loaded \<Rightarrow> (let (block, c) = shared_insert max_blocks index loaded c in (Inr block, c))))"

text \<open>
  The copy loop.  Nothing in it stops when a block yields no byte, so it is a partial function:
  \<open>None\<close> is a loop that never ends.
\<close>

partial_function (option) shared_read_loop ::
  "bytes \<Rightarrow> nat \<Rightarrow> nat \<Rightarrow> nat \<Rightarrow> nat \<Rightarrow> bytes \<Rightarrow> shared_cache \<Rightarrow> (bytes result \<times> shared_cache) option" where
  "shared_read_loop f block_size max_blocks off n output c =
     (if length output < n
      then
        let absolute_offset = saturating_add off (length output);
            block_offset = absolute_offset mod block_size
        in (case shared_get_block f block_size max_blocks (absolute_offset div block_size) c of
              (Inl e, c) \<Rightarrow> Some (Inl e, c)
            | (Inr block, c) \<Rightarrow>
                if length block < block_offset then Some (Err (Panic ''attempt to subtract with overflow''), c)
                else
                  let copy_len = min (length block - block_offset) (n - length output)
                  in shared_read_loop f block_size max_blocks off n (output @ segment block block_offset copy_len) c)
      else Some (Inr output, c))"

definition shared_read_exact_at ::
  "bytes \<Rightarrow> nat \<Rightarrow> nat \<Rightarrow> nat \<Rightarrow> nat \<Rightarrow> shared_cache \<Rightarrow> (bytes result \<times> shared_cache) option" where
  "shared_read_exact_at f block_size max_blocks off n c =
     (if n = 0 then Some (Inr [], c)
      else case checked_add_opt off n of
        None \<Rightarrow> Some (invalid_fmt ''read range exceeds file bounds (offset={}, len={})'' [Num off, Num n], c)
      | Some stop \<Rightarrow>
          if stop > length f
          then Some (invalid_fmt ''read range exceeds file bounds (offset={}, len={})'' [Num off, Num n], c)
          else shared_read_loop f block_size max_blocks off n [] c)"

section \<open>The cache of one thread\<close>

record io_watermark =
  current_bytes :: nat
  max_bytes :: nat

definition add_bytes :: "nat \<Rightarrow> io_watermark \<Rightarrow> io_watermark" where
  "add_bytes n w =
     (let current = saturating_add (current_bytes w) n
      in \<lparr>current_bytes = current, max_bytes = max (max_bytes w) current\<rparr>)"

definition release_bytes :: "nat \<Rightarrow> io_watermark \<Rightarrow> io_watermark" where
  "release_bytes n w = w\<lparr>current_bytes := current_bytes w - n\<rparr>"

record block_cache =
  bc_cache :: "nat \<Rightarrow> bytes option"
  bc_order :: "nat list"
  bc_watermark :: io_watermark

definition block_cache_empty :: block_cache where
  "block_cache_empty =
     \<lparr>bc_cache = (\<lambda>_. None), bc_order = [], bc_watermark = \<lparr>current_bytes = 0, max_bytes = 0\<rparr>\<rparr>"

definition touch_block :: "nat \<Rightarrow> block_cache \<Rightarrow> block_cache" where
  "touch_block index c =
     (if index \<in> set (bc_order c) then c\<lparr>bc_order := remove1 index (bc_order c) @ [index]\<rparr> else c)"

fun evict_oldest :: "nat \<Rightarrow> nat list \<Rightarrow> (nat \<Rightarrow> bytes option) \<Rightarrow> io_watermark \<Rightarrow> block_cache" where
  "evict_oldest max_blocks [] cache w = \<lparr>bc_cache = cache, bc_order = [], bc_watermark = w\<rparr>"
| "evict_oldest max_blocks (evicted # order) cache w =
     (if length (evicted # order) > max_blocks
      then evict_oldest max_blocks order (cache(evicted := None))
             (case cache evicted of Some block \<Rightarrow> release_bytes (length block) w | None \<Rightarrow> w)
      else \<lparr>bc_cache = cache, bc_order = evicted # order, bc_watermark = w\<rparr>)"

definition get_block :: "bytes \<Rightarrow> nat \<Rightarrow> nat \<Rightarrow> nat \<Rightarrow> block_cache \<Rightarrow> bytes result \<times> block_cache" where
  "get_block f block_size max_blocks index c =
     (case bc_cache c index of
        Some block \<Rightarrow> (Inr block, touch_block index c)
      | None \<Rightarrow>
          let start = saturating_mul index block_size; block = take block_size (drop start f)
          in if block = []
             then (invalid_fmt ''block cache attempted to read beyond file length at block index {}'' [Num index], c)
             else
               let c = evict_oldest max_blocks (bc_order c @ [index]) ((bc_cache c)(index \<mapsto> block))
                         (add_bytes (length block) (bc_watermark c))
               in (ok_or (bc_cache c index) (invalid ''block cache insert failed''), c))"

function read_loop ::
  "bytes \<Rightarrow> nat \<Rightarrow> nat \<Rightarrow> nat \<Rightarrow> nat \<Rightarrow> bytes \<Rightarrow> block_cache \<Rightarrow> bytes result \<times> block_cache" where
  "read_loop f block_size max_blocks off n output c =
     (if length output < n
      then
        let absolute_offset = saturating_add off (length output);
            block_offset = absolute_offset mod block_size
        in (case get_block f block_size max_blocks (absolute_offset div block_size) c of
              (Inl e, c) \<Rightarrow> (Inl e, c)
            | (Inr block, c) \<Rightarrow>
                let copy_len = min (length block - block_offset) (n - length output)
                in if copy_len = 0
                   then (invalid_fmt ''block cache hit empty block while reading at offset {}'' [Num absolute_offset], c)
                   else read_loop f block_size max_blocks off n (output @ segment block block_offset copy_len) c)
      else (Inr output, c))"
  by pat_completeness auto
termination
  by (relation "measure (\<lambda>(f, block_size, max_blocks, off, n, output, c). n - length output)")
    (auto simp: min_def split: if_splits)

declare read_loop.simps [simp del]

text \<open>A reader used away from the thread that opened it reads the file directly.\<close>

definition cached_read_exact_at ::
  "bool \<Rightarrow> bytes \<Rightarrow> nat \<Rightarrow> nat \<Rightarrow> nat \<Rightarrow> nat \<Rightarrow> block_cache \<Rightarrow> bytes result \<times> block_cache" where
  "cached_read_exact_at owned f block_size max_blocks off n c =
     (if n = 0 then (Inr [], c)
      else if \<not> owned then (read_exact_from_path f off n, c)
      else case checked_add_opt off n of
        None \<Rightarrow> (invalid_fmt ''read range exceeds file bounds (offset={}, len={})'' [Num off, Num n], c)
      | Some stop \<Rightarrow>
          if stop > length f
          then (invalid_fmt ''read range exceeds file bounds (offset={}, len={})'' [Num off, Num n], c)
          else read_loop f block_size max_blocks off n [] c)"

section \<open>The invariants\<close>

text \<open>
  The order lists every cached block once, at most \<open>max_blocks\<close> of them, and a cached block
  is a block of the file.
\<close>

definition cache_inv :: "bytes \<Rightarrow> nat \<Rightarrow> nat \<Rightarrow> (nat \<Rightarrow> bytes option) \<Rightarrow> nat list \<Rightarrow> bool" where
  "cache_inv f block_size max_blocks cache order \<longleftrightarrow>
     distinct order \<and> set order = dom cache \<and> length order \<le> max_blocks \<and>
     (\<forall>index block. cache index = Some block \<longrightarrow> block = file_block f block_size index)"

definition shared_inv :: "bytes \<Rightarrow> nat \<Rightarrow> nat \<Rightarrow> shared_cache \<Rightarrow> bool" where
  "shared_inv f block_size max_blocks c \<longleftrightarrow> cache_inv f block_size max_blocks (sc_cache c) (sc_order c)"

text \<open>The watermark of the private cache counts the cached bytes.\<close>

definition block_cache_inv :: "bytes \<Rightarrow> nat \<Rightarrow> nat \<Rightarrow> block_cache \<Rightarrow> bool" where
  "block_cache_inv f block_size max_blocks c \<longleftrightarrow>
     cache_inv f block_size max_blocks (bc_cache c) (bc_order c) \<and>
     current_bytes (bc_watermark c) = (\<Sum>index \<leftarrow> bc_order c. length (file_block f block_size index)) \<and>
     current_bytes (bc_watermark c) \<le> max_bytes (bc_watermark c) \<and>
     (\<forall>index \<in> set (bc_order c). index * block_size < length f)"

lemma shared_inv_empty: "shared_inv f block_size max_blocks shared_cache_empty"
  by (simp add: shared_inv_def cache_inv_def shared_cache_empty_def)

lemma block_cache_inv_empty: "block_cache_inv f block_size max_blocks block_cache_empty"
  by (simp add: block_cache_inv_def cache_inv_def block_cache_empty_def)

lemma cache_inv_touch:
  "cache_inv f bs m cache order \<Longrightarrow> index \<in> set order \<Longrightarrow> cache_inv f bs m cache (remove1 index order @ [index])"
proof -
  assume inv: "cache_inv f bs m cache order" and index: "index \<in> set order"
  have "length (remove1 index order @ [index]) = length order"
    using index length_pos_if_in_set [OF index] by (simp add: length_remove1)
  moreover have "set (remove1 index order @ [index]) = set order" "distinct (remove1 index order @ [index])"
    using inv index by (auto simp: cache_inv_def)
  ultimately show ?thesis using inv by (simp add: cache_inv_def)
qed

lemma file_block_load:
  assumes "index * bs \<le> u64_max" and "length f \<le> u64_max"
  shows "shared_load f bs index = Inr (file_block f bs index)"
proof -
  have "saturating_mul index bs = index * bs" using assms(1) by (simp add: saturating_mul_def)
  moreover have "index * bs + min (length f - index * bs) bs \<le> length f" if "0 < min (length f - index * bs) bs"
    using that by auto
  moreover have "segment f (index * bs) (min (length f - index * bs) bs) = file_block f bs index"
    by (auto simp: file_block_def segment_def min_def)
  ultimately show ?thesis
    using assms(2) by (auto simp: shared_load_def Let_def read_exact_from_path_at read_exact_at_def)
qed

text \<open>Eviction drops a prefix of the order.\<close>

lemma evict_blocks_inv:
  assumes "distinct order" and "set order = dom cache"
    and "\<forall>index block. cache index = Some block \<longrightarrow> block = file_block f bs index"
    and "evict_blocks m order cache = (order', cache')"
  shows "cache_inv f bs m cache' order'"
  using assms
proof (induction m order cache rule: evict_blocks.induct)
  case (2 m e order cache)
  show ?case
  proof (cases "length (e # order) > m")
    case True
    have "cache_inv f bs m cache' order'"
    proof (rule "2.IH" [OF True])
      show "set order = dom (cache(e := None))" using "2.prems"(1,2) by auto
      show "evict_blocks m order (cache(e := None)) = (order', cache')" using "2.prems"(4) True by simp
    qed (use "2.prems" in \<open>auto split: if_splits\<close>)
    then show ?thesis .
  next
    case False
    with 2 show ?thesis by (auto simp: cache_inv_def)
  qed
qed (simp add: cache_inv_def)

lemma shared_lookup_inv:
  assumes "shared_inv f bs m c" and "shared_lookup index c = (found, c')"
  shows "shared_inv f bs m c'" and "found = Some block \<Longrightarrow> block = file_block f bs index"
proof -
  have "index \<in> set (sc_order c)" if "sc_cache c index = Some b" for b
    using assms(1) that by (auto simp: shared_inv_def cache_inv_def)
  with assms show "shared_inv f bs m c'"
    by (auto simp: shared_lookup_def shared_inv_def cache_inv_touch split: option.splits)
  show "found = Some block \<Longrightarrow> block = file_block f bs index"
    using assms by (auto simp: shared_lookup_def shared_inv_def cache_inv_def split: option.splits)
qed

lemma shared_insert_inv:
  assumes "shared_inv f bs m c" and "shared_insert m index (file_block f bs index) c = (block, c')"
  shows "shared_inv f bs m c'" and "block = file_block f bs index"
proof -
  let ?b = "file_block f bs index"
  have inv: "cache_inv f bs m (sc_cache c) (sc_order c)" using assms(1) by (simp add: shared_inv_def)
  have "shared_inv f bs m c' \<and> block = ?b"
  proof (cases "sc_cache c index")
    case (Some b)
    with inv have "b = ?b" by (simp add: cache_inv_def)
    with Some assms show ?thesis by (simp add: shared_insert_def)
  next
    case None
    obtain order cache where ev: "evict_blocks m (sc_order c @ [index]) ((sc_cache c)(index \<mapsto> ?b)) = (order, cache)"
      by (cases "evict_blocks m (sc_order c @ [index]) ((sc_cache c)(index \<mapsto> ?b))")
    have "index \<notin> set (sc_order c)" using inv None by (auto simp: cache_inv_def)
    with inv have "cache_inv f bs m cache order"
      by (intro evict_blocks_inv [OF _ _ _ ev]) (auto simp: cache_inv_def)
    with None assms(2) ev show ?thesis by (auto simp: shared_insert_def shared_inv_def)
  qed
  then show "shared_inv f bs m c'" and "block = ?b" by auto
qed

lemma shared_get_block_ok:
  assumes "shared_inv f bs m c" and "index * bs \<le> u64_max" and "length f \<le> u64_max"
  shows "\<exists>c'. shared_get_block f bs m index c = (Inr (file_block f bs index), c') \<and> shared_inv f bs m c'"
proof -
  obtain found c1 where l: "shared_lookup index c = (found, c1)" by (cases "shared_lookup index c")
  note inv = shared_lookup_inv [OF assms(1) l]
  obtain block c2 where ins: "shared_insert m index (file_block f bs index) c1 = (block, c2)"
    by (cases "shared_insert m index (file_block f bs index) c1")
  show ?thesis
    using inv shared_insert_inv [OF inv(1) ins] ins l file_block_load [OF assms(2,3)]
    by (cases found) (auto simp: shared_get_block_def)
qed

section \<open>Reading through the cache\<close>

text \<open>One block holds the next bytes of the range.\<close>

lemma file_block_piece:
  assumes "0 < bs" and "off < length f" and "0 < k" and "off + k \<le> length f"
  shows "off mod bs < length (file_block f bs (off div bs))"
    and "segment (file_block f bs (off div bs)) (off mod bs) (min (length (file_block f bs (off div bs)) - off mod bs) k) =
      segment f off (min (length (file_block f bs (off div bs)) - off mod bs) k)"
proof -
  have split: "off div bs * bs + off mod bs = off" by simp
  have lt: "off mod bs < bs" using assms(1) by simp
  have "off div bs * bs \<le> off" using split by (metis le_add1)
  then have "length (file_block f bs (off div bs)) = min bs (length f - off div bs * bs)"
    by (simp add: file_block_def)
  moreover have "off mod bs < length f - off div bs * bs" using assms(2) split by linarith
  ultimately show "off mod bs < length (file_block f bs (off div bs))" using lt by simp
  have "drop (off mod bs) (drop (off div bs * bs) f) = drop off f" by (simp add: add.commute)
  then have "drop (off mod bs) (file_block f bs (off div bs)) = take (bs - off mod bs) (drop off f)"
    by (simp add: file_block_def segment_def drop_take)
  moreover have "length (file_block f bs (off div bs)) - off mod bs \<le> bs - off mod bs"
    by (simp add: file_block_def)
  ultimately show "segment (file_block f bs (off div bs)) (off mod bs) (min (length (file_block f bs (off div bs)) - off mod bs) k) =
      segment f off (min (length (file_block f bs (off div bs)) - off mod bs) k)"
    by (simp add: segment_def min_def)
qed

lemma shared_read_loop_ok:
  assumes inv: "shared_inv f bs m c" and bs: "0 < bs" and "off + n \<le> length f" and "length f \<le> u64_max"
    and "output = segment f off k" and "k \<le> n"
  shows "\<exists>c'. shared_read_loop f bs m off n output c = Some (Inr (segment f off n), c') \<and> shared_inv f bs m c'"
  using inv assms(5,6)
proof (induction "n - k" arbitrary: k "output" c rule: less_induct)
  case less
  have len: "length output = k" using less.prems assms(3) by simp
  show ?case
  proof (cases "k < n")
    case False
    with less.prems len show ?thesis by (subst shared_read_loop.simps) auto
  next
    case True
    let ?at = "off + k" and ?b = "file_block f bs ((off + k) div bs)"
    have at: "?at < length f" "0 < n - k" "?at + (n - k) \<le> length f" using True assms(3) by auto
    have sat: "saturating_add off k = ?at" using at assms(4) by (simp add: saturating_add_def)
    have "?at div bs * bs \<le> ?at" by (metis div_mult_mod_eq le_add1)
    then have "?at div bs * bs \<le> u64_max" using at assms(4) by linarith
    from shared_get_block_ok [OF less.prems(1) this assms(4)] obtain c' where
      c': "shared_get_block f bs m (?at div bs) c = (Inr ?b, c')" "shared_inv f bs m c'" by blast
    note piece = file_block_piece [OF bs at]
    define copy where "copy = min (length ?b - ?at mod bs) (n - k)"
    have copy: "0 < copy" "k + copy \<le> n" using piece(1) True by (auto simp: copy_def)
    have "segment ?b (?at mod bs) copy = segment f ?at copy" using piece(2) by (simp add: copy_def)
    then have out: "output @ segment ?b (?at mod bs) copy = segment f off (k + copy)"
      by (simp only: less.prems(2)) (simp add: segment_def take_add add.commute [of k off])
    have less': "n - (k + copy) < n - k" using copy True by simp
    from less.hyps [OF this c'(2) out copy(2)] obtain c'' where
      "shared_read_loop f bs m off n (output @ segment ?b (?at mod bs) copy) c' = Some (Inr (segment f off n), c'')"
      "shared_inv f bs m c''" by blast
    with True len sat c'(1) piece(1) show ?thesis
      by (subst shared_read_loop.simps) (simp add: Let_def copy_def)
  qed
qed

text \<open>The private cache: the same read, and its watermark stays the size of what it holds.\<close>

lemma evict_oldest_inv:
  assumes "distinct order" and "set order = dom cache"
    and "\<forall>index block. cache index = Some block \<longrightarrow> block = file_block f bs index"
    and "current_bytes w = (\<Sum>index \<leftarrow> order. length (file_block f bs index))"
    and "current_bytes w \<le> max_bytes w" and "\<forall>index \<in> set order. index * bs < length f"
  shows "block_cache_inv f bs m (evict_oldest m order cache w)"
  using assms
proof (induction m order cache w rule: evict_oldest.induct)
  case (2 m e order cache w)
  show ?case
  proof (cases "length (e # order) > m")
    case True
    obtain block where block: "cache e = Some block" "block = file_block f bs e"
      using "2.prems"(2,3) by (metis domD insertI1 list.set(2))
    have "block_cache_inv f bs m (evict_oldest m order (cache(e := None))
        (case cache e of Some block \<Rightarrow> release_bytes (length block) w | None \<Rightarrow> w))"
    proof (rule "2.IH" [OF True])
      let ?w = "case cache e of Some block \<Rightarrow> release_bytes (length block) w | None \<Rightarrow> w"
      have w: "?w = w\<lparr>current_bytes := current_bytes w - length (file_block f bs e)\<rparr>"
        using block by (simp add: release_bytes_def)
      show "set order = dom (cache(e := None))" using "2.prems"(1,2) by auto
      show "distinct order" using "2.prems"(1) by simp
      show "\<forall>index block. (cache(e := None)) index = Some block \<longrightarrow> block = file_block f bs index"
        using "2.prems"(3) by simp
      show "current_bytes ?w = (\<Sum>index \<leftarrow> order. length (file_block f bs index))"
        unfolding w using "2.prems"(4) by simp
      show "current_bytes ?w \<le> max_bytes ?w" unfolding w using "2.prems"(5) by simp
      show "\<forall>index \<in> set order. index * bs < length f" using "2.prems"(6) by simp
    qed
    with True show ?thesis by simp
  next
    case False
    with 2 show ?thesis by (auto simp: block_cache_inv_def cache_inv_def)
  qed
qed (simp add: block_cache_inv_def cache_inv_def)

lemma sum_list_remove1:
  fixes g :: "'a \<Rightarrow> nat"
  shows "x \<in> set xs \<Longrightarrow> (\<Sum>y \<leftarrow> remove1 x xs. g y) + g x = (\<Sum>y \<leftarrow> xs. g y)"
  by (induction xs) auto

lemma sum_file_blocks_le:
  assumes "distinct order" and "\<forall>index \<in> set order. index * bs < length f"
  shows "(\<Sum>index \<leftarrow> order. length (file_block f bs index)) \<le> length f"
proof -
  have disjoint: "\<forall>i \<in> set order. \<forall>j \<in> set order. i \<noteq> j \<longrightarrow>
      {i * bs..<i * bs + length (file_block f bs i)} \<inter> {j * bs..<j * bs + length (file_block f bs j)} = {}"
  proof (intro ballI impI)
    fix i j :: nat
    assume "i \<noteq> j"
    then consider "Suc i \<le> j" | "Suc j \<le> i" by linarith
    then show "{i * bs..<i * bs + length (file_block f bs i)} \<inter> {j * bs..<j * bs + length (file_block f bs j)} = {}"
    proof cases
      case 1
      then have "Suc i * bs \<le> j * bs" by (rule mult_le_mono1)
      then show ?thesis by (auto simp: file_block_def)
    next
      case 2
      then have "Suc j * bs \<le> i * bs" by (rule mult_le_mono1)
      then show ?thesis by (auto simp: file_block_def)
    qed
  qed
  have "(\<Sum>index \<leftarrow> order. length (file_block f bs index)) = (\<Sum>i \<in> set order. card {i * bs..<i * bs + length (file_block f bs i)})"
    using assms(1) by (simp add: sum_list_distinct_conv_sum_set)
  also have "\<dots> = card (\<Union>i \<in> set order. {i * bs..<i * bs + length (file_block f bs i)})"
    using disjoint by (subst card_UN_disjoint) auto
  also have "\<dots> \<le> card {0..<length f}"
    using assms(2) by (intro card_mono) (auto simp: file_block_def)
  finally show ?thesis by simp
qed

lemma get_block_ok:
  assumes inv: "block_cache_inv f bs m c" and bs: "0 < bs" and m: "0 < m"
    and index: "index * bs < length f" and len: "length f \<le> u64_max"
  shows "\<exists>c'. get_block f bs m index c = (Inr (file_block f bs index), c') \<and> block_cache_inv f bs m c'"
proof (cases "bc_cache c index")
  case (Some block)
  then have block: "block = file_block f bs index" and mem: "index \<in> set (bc_order c)"
    using inv by (auto simp: block_cache_inv_def cache_inv_def)
  have "block_cache_inv f bs m (touch_block index c)"
    using inv mem cache_inv_touch [of f bs m "bc_cache c" "bc_order c" index]
      sum_list_remove1 [OF mem, of "\<lambda>i. length (file_block f bs i)"]
    by (auto simp: block_cache_inv_def touch_block_def dest: notin_set_remove1)
  with Some block show ?thesis by (simp add: get_block_def)
next
  case None
  let ?b = "file_block f bs index"
  have start: "saturating_mul index bs = index * bs" using index len by (simp add: saturating_mul_def)
  have take: "take bs (drop (index * bs) f) = ?b" by (simp add: file_block_def segment_def)
  have ne: "?b \<noteq> []" using index bs by (simp add: file_block_def flip: length_0_conv)
  let ?c = "evict_oldest m (bc_order c @ [index]) ((bc_cache c)(index \<mapsto> ?b)) (add_bytes (length ?b) (bc_watermark c))"
  have new: "index \<notin> set (bc_order c)" using inv None by (auto simp: block_cache_inv_def cache_inv_def)
  have le: "(\<Sum>i \<leftarrow> bc_order c @ [index]. length (file_block f bs i)) \<le> u64_max"
    by (rule order_trans [OF sum_file_blocks_le len])
      (use inv new index in \<open>auto simp: block_cache_inv_def cache_inv_def\<close>)
  have inv': "block_cache_inv f bs m ?c"
  proof (rule evict_oldest_inv)
    have "current_bytes (add_bytes (length ?b) (bc_watermark c)) = current_bytes (bc_watermark c) + length ?b"
      using le inv by (simp add: add_bytes_def Let_def saturating_add_def block_cache_inv_def)
    then show "current_bytes (add_bytes (length ?b) (bc_watermark c)) =
        (\<Sum>i \<leftarrow> bc_order c @ [index]. length (file_block f bs i))"
      using inv by (simp add: block_cache_inv_def)
    show "current_bytes (add_bytes (length ?b) (bc_watermark c)) \<le> max_bytes (add_bytes (length ?b) (bc_watermark c))"
      by (simp add: add_bytes_def Let_def)
  qed (use inv new index in \<open>auto simp: block_cache_inv_def cache_inv_def\<close>)
  have keep: "bc_cache (evict_oldest m (order @ [index]) cache w) index = cache index"
    if "index \<notin> set order" for order cache w
    using that m
  proof (induction order arbitrary: cache w)
    case (Cons e order)
    then show ?case by simp
  qed simp
  have "bc_cache ?c index = Some ?b" using keep [OF new] by simp
  with inv' show ?thesis
    unfolding get_block_def None option.case Let_def start take if_not_P [OF ne] by simp
qed

lemma read_loop_ok:
  assumes inv: "block_cache_inv f bs m c" and bs: "0 < bs" and m: "0 < m" and "off + n \<le> length f" and "length f \<le> u64_max"
    and "output = segment f off k" and "k \<le> n"
  shows "\<exists>c'. read_loop f bs m off n output c = (Inr (segment f off n), c') \<and> block_cache_inv f bs m c'"
  using inv assms(6,7)
proof (induction "n - k" arbitrary: k "output" c rule: less_induct)
  case less
  have len: "length output = k" using less.prems assms(4) by simp
  show ?case
  proof (cases "k < n")
    case False
    with less.prems len show ?thesis by (subst read_loop.simps) auto
  next
    case True
    let ?at = "off + k" and ?b = "file_block f bs ((off + k) div bs)"
    have at: "?at < length f" "0 < n - k" "?at + (n - k) \<le> length f" using True assms(4) by auto
    have sat: "saturating_add off k = ?at" using at assms(5) by (simp add: saturating_add_def)
    have "?at div bs * bs \<le> ?at" by (metis div_mult_mod_eq le_add1)
    then have "?at div bs * bs < length f" using at by linarith
    from get_block_ok [OF less.prems(1) bs m this assms(5)] obtain c' where
      c': "get_block f bs m (?at div bs) c = (Inr ?b, c')" "block_cache_inv f bs m c'" by blast
    note piece = file_block_piece [OF bs at]
    define copy where "copy = min (length ?b - ?at mod bs) (n - k)"
    have copy: "0 < copy" "k + copy \<le> n" using piece(1) True by (auto simp: copy_def)
    have "segment ?b (?at mod bs) copy = segment f ?at copy" using piece(2) by (simp add: copy_def)
    then have out: "output @ segment ?b (?at mod bs) copy = segment f off (k + copy)"
      by (simp only: less.prems(2)) (simp add: segment_def take_add add.commute [of k off])
    have less': "n - (k + copy) < n - k" using copy True by simp
    from less.hyps [OF this c'(2) out copy(2)] obtain c'' where
      "read_loop f bs m off n (output @ segment ?b (?at mod bs) copy) c' = (Inr (segment f off n), c'')"
      "block_cache_inv f bs m c''" by blast
    with True len sat c'(1) copy(1) show ?thesis
      by (subst read_loop.simps) (simp add: Let_def copy_def)
  qed
qed

end
