(* ===== verification/Block_Cache_Workers.thy ===== *)
theory Block_Cache_Workers
  imports Block_Cache
begin

text \<open>
  Several workers on one \<open>SharedBlockCacheReader\<close>.  The mutex makes the lookup and the
  insertion atomic and nothing else, so these are the steps of the machine: a worker's next
  step is a hit, a miss (the lock is released and the block is read from the file), or the
  insertion of the block it loaded.  Workers race for the same block, and eviction can throw
  out a block another worker is about to ask for.
\<close>

section \<open>The machine\<close>

text \<open>A worker: the blocks it still needs, the one it is loading, and the blocks it got.\<close>

record cache_worker =
  cw_todo :: "nat list"
  cw_loading :: "nat option"
  cw_got :: "bytes list"

type_synonym cache_system = "shared_cache \<times> cache_worker list"

inductive cache_step :: "bytes \<Rightarrow> nat \<Rightarrow> nat \<Rightarrow> cache_system \<Rightarrow> cache_system \<Rightarrow> bool"
  for f :: bytes and block_size max_blocks :: nat where
  cache_hit: "i < length ws \<Longrightarrow> ws ! i = \<lparr>cw_todo = k # ks, cw_loading = None, cw_got = got\<rparr> \<Longrightarrow>
    shared_lookup k c = (Some block, c') \<Longrightarrow>
    cache_step f block_size max_blocks (c, ws)
      (c', ws[i := \<lparr>cw_todo = ks, cw_loading = None, cw_got = got @ [block]\<rparr>])"
| cache_miss: "i < length ws \<Longrightarrow> ws ! i = \<lparr>cw_todo = k # ks, cw_loading = None, cw_got = got\<rparr> \<Longrightarrow>
    shared_lookup k c = (None, c') \<Longrightarrow>
    cache_step f block_size max_blocks (c, ws)
      (c', ws[i := \<lparr>cw_todo = k # ks, cw_loading = Some k, cw_got = got\<rparr>])"
| cache_load: "i < length ws \<Longrightarrow> ws ! i = \<lparr>cw_todo = k # ks, cw_loading = Some k, cw_got = got\<rparr> \<Longrightarrow>
    shared_load f block_size k = Inr loaded \<Longrightarrow> shared_insert max_blocks k loaded c = (block, c') \<Longrightarrow>
    cache_step f block_size max_blocks (c, ws)
      (c', ws[i := \<lparr>cw_todo = ks, cw_loading = None, cw_got = got @ [block]\<rparr>])"

definition cache_start :: "nat list list \<Rightarrow> cache_system" where
  "cache_start todos =
     (shared_cache_empty, map (\<lambda>todo. \<lparr>cw_todo = todo, cw_loading = None, cw_got = []\<rparr>) todos)"

text \<open>What a worker has and what it still needs are the blocks it asked for.\<close>

definition worker_ok :: "bytes \<Rightarrow> nat \<Rightarrow> nat list \<Rightarrow> cache_worker \<Rightarrow> bool" where
  "worker_ok f bs todo w \<longleftrightarrow>
     cw_got w @ map (file_block f bs) (cw_todo w) = map (file_block f bs) todo \<and>
     (\<forall>k \<in> set (cw_todo w). k * bs \<le> length f) \<and>
     (\<forall>k. cw_loading w = Some k \<longrightarrow> cw_todo w \<noteq> [] \<and> hd (cw_todo w) = k)"

definition system_ok :: "bytes \<Rightarrow> nat \<Rightarrow> nat \<Rightarrow> nat list list \<Rightarrow> cache_system \<Rightarrow> bool" where
  "system_ok f bs m todos s \<longleftrightarrow>
     shared_inv f bs m (fst s) \<and> list_all2 (worker_ok f bs) todos (snd s)"

lemma worker_update:
  assumes "list_all2 P todos ws" and "i < length ws" and "P (todos ! i) (ws ! i) \<Longrightarrow> P (todos ! i) w"
  shows "list_all2 P todos (ws[i := w])"
  using assms by (auto simp: list_all2_conv_all_nth nth_list_update)

lemma system_ok_start:
  assumes "\<forall>todo \<in> set todos. \<forall>k \<in> set todo. k * bs \<le> length f"
  shows "system_ok f bs m todos (cache_start todos)"
  using assms shared_inv_empty
  by (auto simp: system_ok_def cache_start_def worker_ok_def list_all2_conv_all_nth)

lemma cache_step_ok:
  assumes "cache_step f bs m s s'" and "system_ok f bs m todos s" and len: "length f \<le> u64_max"
  shows "system_ok f bs m todos s'"
  using assms(1,2)
proof cases
  case (cache_hit i ws k ks got c block c')
  have inv: "shared_inv f bs m c" and ws: "list_all2 (worker_ok f bs) todos ws"
    using assms(2) cache_hit(1) by (simp_all add: system_ok_def)
  note l = shared_lookup_inv [OF inv cache_hit(5)]
  have "list_all2 (worker_ok f bs) todos (ws[i := \<lparr>cw_todo = ks, cw_loading = None, cw_got = got @ [block]\<rparr>])"
    by (rule worker_update [OF ws cache_hit(3)]) (simp add: cache_hit(4) worker_ok_def l(2) [OF refl])
  with l(1) show ?thesis by (simp add: cache_hit(2) system_ok_def)
next
  case (cache_miss i ws k ks got c c')
  have inv: "shared_inv f bs m c" and ws: "list_all2 (worker_ok f bs) todos ws"
    using assms(2) cache_miss(1) by (simp_all add: system_ok_def)
  have "list_all2 (worker_ok f bs) todos (ws[i := \<lparr>cw_todo = k # ks, cw_loading = Some k, cw_got = got\<rparr>])"
    by (rule worker_update [OF ws cache_miss(3)]) (simp add: cache_miss(4) worker_ok_def)
  with shared_lookup_inv(1) [OF inv cache_miss(5)] show ?thesis by (simp add: cache_miss(2) system_ok_def)
next
  case (cache_load i ws k ks got loaded c block c')
  have inv: "shared_inv f bs m c" and ws: "list_all2 (worker_ok f bs) todos ws"
    using assms(2) cache_load(1) by (simp_all add: system_ok_def)
  have "worker_ok f bs (todos ! i) (ws ! i)"
    using ws cache_load(3) by (simp add: list_all2_conv_all_nth)
  then have "k * bs \<le> u64_max" using len by (simp add: cache_load(4) worker_ok_def)
  then have loaded: "loaded = file_block f bs k" using cache_load(5) file_block_load [OF _ len] by simp
  note ins = shared_insert_inv [OF inv cache_load(6) [unfolded loaded]]
  have "list_all2 (worker_ok f bs) todos (ws[i := \<lparr>cw_todo = ks, cw_loading = None, cw_got = got @ [block]\<rparr>])"
    by (rule worker_update [OF ws cache_load(3)]) (simp add: cache_load(4) worker_ok_def ins(2))
  with ins(1) show ?thesis by (simp add: cache_load(2) system_ok_def)
qed

lemma cache_reachable_ok:
  assumes "(cache_step f bs m)\<^sup>*\<^sup>* (cache_start todos) s" and len: "length f \<le> u64_max"
    and "\<forall>todo \<in> set todos. \<forall>k \<in> set todo. k * bs \<le> length f"
  shows "system_ok f bs m todos s"
  using assms(1)
proof (induction rule: rtranclp_induct)
  case base
  show ?case by (rule system_ok_start [OF assms(3)])
next
  case (step s s')
  from cache_step_ok [OF step(2) step.IH len] show ?case .
qed

text \<open>The work left: two per block still needed, one less while it is being loaded.\<close>

definition worker_work :: "cache_worker \<Rightarrow> nat" where
  "worker_work w = 2 * length (cw_todo w) - (if cw_loading w = None then 0 else 1)"

definition system_work :: "cache_system \<Rightarrow> nat" where
  "system_work s = (\<Sum>w \<leftarrow> snd s. worker_work w)"

lemma sum_list_update_less:
  fixes g :: "'a \<Rightarrow> nat"
  shows "i < length xs \<Longrightarrow> g x < g (xs ! i) \<Longrightarrow> (\<Sum>y \<leftarrow> xs[i := x]. g y) < (\<Sum>y \<leftarrow> xs. g y)"
proof (induction xs arbitrary: i)
  case (Cons a xs)
  then show ?case by (cases i) auto
qed simp

lemma cache_step_work: "cache_step f bs m s s' \<Longrightarrow> system_work s' < system_work s"
  by (induction rule: cache_step.induct)
    (auto simp: system_work_def worker_work_def intro!: sum_list_update_less)

text \<open>A worker that needs a block can always take its next step.\<close>

lemma cache_progress:
  assumes "system_ok f bs m todos (c, ws)" and "i < length ws" and "cw_todo (ws ! i) \<noteq> []" and len: "length f \<le> u64_max"
  shows "\<exists>c' w. cache_step f bs m (c, ws) (c', ws[i := w])"
proof -
  have ok: "worker_ok f bs (todos ! i) (ws ! i)"
    using assms(1,2) by (auto simp: system_ok_def list_all2_conv_all_nth)
  obtain k ks where todo: "cw_todo (ws ! i) = k # ks" using assms(3) by (cases "cw_todo (ws ! i)") auto
  show ?thesis
  proof (cases "cw_loading (ws ! i)")
    case None
    then have w: "ws ! i = \<lparr>cw_todo = k # ks, cw_loading = None, cw_got = cw_got (ws ! i)\<rparr>"
      using todo by (cases "ws ! i") simp
    obtain found c' where l: "shared_lookup k c = (found, c')" by (cases "shared_lookup k c")
    show ?thesis
      using cache_step.cache_hit [OF assms(2) w] cache_step.cache_miss [OF assms(2) w] l by (cases found) blast+
  next
    case (Some j)
    with ok todo have "j = k" by (simp add: worker_ok_def)
    with Some have w: "ws ! i = \<lparr>cw_todo = k # ks, cw_loading = Some k, cw_got = cw_got (ws ! i)\<rparr>"
      using todo by (cases "ws ! i") simp
    have "k * bs \<le> u64_max" using ok todo len by (simp add: worker_ok_def)
    from file_block_load [OF this len] have load: "shared_load f bs k = Inr (file_block f bs k)" .
    obtain block c' where "shared_insert m k (file_block f bs k) c = (block, c')"
      by (cases "shared_insert m k (file_block f bs k) c")
    from cache_step.cache_load [OF assms(2) w load this] show ?thesis by blast
  qed
qed

section \<open>Properties\<close>

text \<open>
  C36. The shared block cache is invisible.  From any state that satisfies the cache invariant
  (the order lists each cached block once, at most \<open>max_blocks\<close> of them, each with the bytes
  of the file), a read returns, with the bytes or the error of a direct read of the file, and
  leaves a state that satisfies the invariant.  In particular the copy loop ends, although
  nothing in it checks that a block yields a byte.
\<close>

theorem shared_cache_refines_file:
  assumes "shared_inv f block_size max_blocks c" and "0 < block_size" and "length f \<le> u64_max"
  shows "\<exists>c'. shared_read_exact_at f block_size max_blocks off n c = Some (read_exact_at f off n, c') \<and>
    shared_inv f block_size max_blocks c'"
proof (cases "n = 0 \<or> length f < off + n")
  case True
  then show ?thesis
    using assms by (auto simp: shared_read_exact_at_def read_exact_at_def checked_add_opt_def)
next
  case False
  then have n: "n \<noteq> 0" "off + n \<le> length f" by auto
  then have "checked_add_opt off n = Some (off + n)" using assms(3) by (simp add: checked_add_opt_def)
  moreover have "read_exact_at f off n = Inr (segment f off n)"
    using n assms(3) by (simp add: read_exact_at_def)
  moreover obtain c' where "shared_read_loop f block_size max_blocks off n [] c = Some (Inr (segment f off n), c')"
    "shared_inv f block_size max_blocks c'"
    using shared_read_loop_ok [OF assms(1,2) n(2) assms(3), of "[]" 0] by auto
  ultimately show ?thesis using n by (simp add: shared_read_exact_at_def)
qed

theorem shared_cache_refines_file_witness:
  "\<exists>c'. shared_read_exact_at [1, 2, 3, 4, 5] 2 1 1 3 shared_cache_empty =
      Some (read_exact_at [1, 2, 3, 4, 5] 1 3, c') \<and> shared_inv [1, 2, 3, 4, 5] 2 1 c'"
  by (rule shared_cache_refines_file [OF shared_inv_empty]) (simp_all add: u64_max_def)

text \<open>
  The block cache of one thread: a read has the result of a direct read, whether or not
  the reader is used on the thread that opened it, and keeps the invariant, by which the
  watermark is at every moment the number of bytes of the cached blocks.
\<close>

theorem block_cache_refines_file:
  assumes "block_cache_inv f block_size max_blocks c" and "cache_validate_options block_size max_blocks = Inr ()"
    and "length f \<le> u64_max"
  shows "fst (cached_read_exact_at owned f block_size max_blocks off n c) = read_exact_at f off n \<and>
    block_cache_inv f block_size max_blocks (snd (cached_read_exact_at owned f block_size max_blocks off n c))"
proof -
  have opts: "0 < block_size" "0 < max_blocks"
    using assms(2) by (auto simp: cache_validate_options_def split: if_splits)
  show ?thesis
  proof (cases "n = 0 \<or> \<not> owned \<or> length f < off + n")
    case True
    then show ?thesis
      using assms(1,3) by (auto simp: cached_read_exact_at_def read_exact_from_path_at checked_add_opt_def)
        (auto simp: read_exact_at_def)
  next
    case False
    then have n: "n \<noteq> 0" "owned" "off + n \<le> length f" by auto
    then have "checked_add_opt off n = Some (off + n)" using assms(3) by (simp add: checked_add_opt_def)
    moreover have "read_exact_at f off n = Inr (segment f off n)"
      using n assms(3) by (simp add: read_exact_at_def)
    moreover obtain c' where "read_loop f block_size max_blocks off n [] c = (Inr (segment f off n), c')"
      "block_cache_inv f block_size max_blocks c'"
      using read_loop_ok [OF assms(1) opts n(3) assms(3), of "[]" 0] by auto
    ultimately show ?thesis using n by (simp add: cached_read_exact_at_def)
  qed
qed

theorem block_cache_refines_file_witness:
  "fst (cached_read_exact_at True [1, 2, 3, 4, 5] 2 1 1 3 block_cache_empty) = read_exact_at [1, 2, 3, 4, 5] 1 3"
  using block_cache_refines_file [OF block_cache_inv_empty, where block_size = 2 and max_blocks = 1]
  by (simp add: cache_validate_options_def u64_max_def)

text \<open>
  C37. Workers share the cache safely: in every state that any interleaving of their critical
  sections can reach, the cache invariant holds, every block a worker has received is the
  block of the file it asked for, in its order; a worker that needs a block is never stuck;
  and every step uses up work, so no schedule runs for ever.
\<close>

theorem cache_workers_safe:
  assumes "(cache_step f block_size max_blocks)\<^sup>*\<^sup>* (cache_start todos) (c, ws)" and "length f \<le> u64_max"
    and "\<forall>todo \<in> set todos. \<forall>k \<in> set todo. k * block_size \<le> length f"
  shows "shared_inv f block_size max_blocks c \<and> length ws = length todos \<and>
    (\<forall>i < length ws. cw_got (ws ! i) @ map (file_block f block_size) (cw_todo (ws ! i)) =
        map (file_block f block_size) (todos ! i) \<and>
      (cw_todo (ws ! i) \<noteq> [] \<longrightarrow> (\<exists>c' w. cache_step f block_size max_blocks (c, ws) (c', ws[i := w])))) \<and>
    (\<forall>s'. cache_step f block_size max_blocks (c, ws) s' \<longrightarrow> system_work s' < system_work (c, ws))"
proof -
  note ok = cache_reachable_ok [OF assms]
  then have ws: "list_all2 (worker_ok f block_size) todos ws" and inv: "shared_inv f block_size max_blocks c"
    by (simp_all add: system_ok_def)
  have "cw_got (ws ! i) @ map (file_block f block_size) (cw_todo (ws ! i)) = map (file_block f block_size) (todos ! i)"
    if "i < length ws" for i
    using ws that by (auto simp: list_all2_conv_all_nth worker_ok_def)
  then show ?thesis
    using inv ws cache_progress [OF ok _ _ assms(2)] cache_step_work by (auto dest: list_all2_lengthD)
qed

theorem cache_workers_safe_witness:
  "\<exists>c ws. cache_step [1, 2, 3] 2 1 (cache_start [[1], [0, 1]]) (c, ws) \<and> shared_inv [1, 2, 3] 2 1 c"
proof -
  let ?w = "\<lparr>cw_todo = [1], cw_loading = None, cw_got = []\<rparr> :: cache_worker"
  let ?v = "\<lparr>cw_todo = [0, 1], cw_loading = None, cw_got = []\<rparr> :: cache_worker"
  have step: "cache_step [1, 2, 3] 2 1 (cache_start [[1], [0, 1]])
      (shared_cache_empty, [?w, ?v][0 := \<lparr>cw_todo = [1], cw_loading = Some 1, cw_got = []\<rparr>])"
    unfolding cache_start_def list.map
    by (rule cache_miss) (simp_all add: shared_lookup_def shared_cache_empty_def)
  have "shared_inv [1, 2, 3] 2 1 shared_cache_empty"
    using cache_workers_safe [OF r_into_rtranclp [where r = "cache_step [1, 2, 3] 2 1", OF step]] by (simp add: u64_max_def)
  with step show ?thesis by blast
qed

end
