(* ===== verification/Ordered_Pipeline.thy ===== *)
theory Ordered_Pipeline
  imports Threading "HOL-Library.Multiset"
begin

text \<open>
  \<open>ordered_streaming_compress\<close> of \<open>rom-weaver-core/src/io.rs\<close>: a coordinator reads tasks in
  order and hands them to workers through a bounded channel, the workers send their outputs
  back through another in any order, and the coordinator collects the outputs in task order.
  The threads and the two \<open>sync_channel\<close>s are a step relation; a blocking call is a step that
  is not enabled.

  The tasks are read one after the other and collected one after the other, so the closures
  \<open>read_task\<close> and \<open>collect_output\<close> are functions of the index and the value although they may
  keep state; \<open>compress_task\<close> is a function of the index and the work, as its worker state is
  a reusable scratch space.  A panic that the code catches is an error of that function.
\<close>

section \<open>The machine\<close>

record ('t, 'w, 'o) job =
  jb_tasks :: "'t list"
  jb_threads :: nat
  jb_read :: "nat \<Rightarrow> 't \<Rightarrow> 'w result"
  jb_compress :: "nat \<Rightarrow> 'w \<Rightarrow> 'o result"
  jb_collect :: "nat \<Rightarrow> 'o \<Rightarrow> unit result"
  jb_init_ok :: "nat \<Rightarrow> bool"
  jb_result_closed :: string

definition job_total :: "('t, 'w, 'o) job \<Rightarrow> nat" where
  "job_total j = length (jb_tasks j)"

definition job_workers :: "('t, 'w, 'o) job \<Rightarrow> nat" where
  "job_workers j = min (max (jb_threads j) 1) (job_total j)"

definition job_inflight :: "('t, 'w, 'o) job \<Rightarrow> nat" where
  "job_inflight j = max (bounded_items_for_threads (job_workers j)) 1"

text \<open>Where the coordinator is in its loop; the last two with the \<open>pipeline_error\<close>.\<close>

datatype coordinator =
    AtTop | Reading | Choosing | Receiving | Flushing
  | Draining "weave_error option" | Finished "weave_error option"

datatype 'w pipe_worker = Starting | Waiting | Busy nat 'w | Stopped

record ('w, 'o) pipe =
  pp_at :: coordinator
  pp_next_read :: nat
  pp_next_collect :: nat
  pp_outstanding :: nat
  pp_pending :: "nat \<Rightarrow> 'o option"
  pp_work :: "(nat \<times> 'w) list"
  pp_results :: "(nat \<times> 'o) result list"
  pp_workers :: "'w pipe_worker list"
  pp_collected :: "(nat \<times> 'o) list"

definition pipe_start :: "('t, 'w, 'o) job \<Rightarrow> ('w, 'o) pipe" where
  "pipe_start j =
     \<lparr>pp_at = AtTop, pp_next_read = 0, pp_next_collect = 0, pp_outstanding = 0,
      pp_pending = (\<lambda>_. None), pp_work = [], pp_results = [],
      pp_workers = replicate (job_workers j) Starting, pp_collected = []\<rparr>"

definition panicked_initializing :: weave_error where
  "panicked_initializing = Validation (Msg ''ordered compression worker panicked while initializing'' [])"

text \<open>\<open>pending.remove(&next_to_collect)\<close> and the successful collection of it.\<close>

definition pipe_take :: "('w, 'o) pipe \<Rightarrow> ('w, 'o) pipe" where
  "pipe_take s = s\<lparr>pp_pending := (pp_pending s)(pp_next_collect s := None)\<rparr>"

definition pipe_collected :: "'o \<Rightarrow> ('w, 'o) pipe \<Rightarrow> ('w, 'o) pipe" where
  "pipe_collected out s =
     s\<lparr>pp_pending := (pp_pending s)(pp_next_collect s := None),
       pp_collected := pp_collected s @ [(pp_next_collect s, out)],
       pp_next_collect := Suc (pp_next_collect s), pp_outstanding := pp_outstanding s - 1\<rparr>"

definition pipe_may_read :: "('t, 'w, 'o) job \<Rightarrow> ('w, 'o) pipe \<Rightarrow> bool" where
  "pipe_may_read j s \<longleftrightarrow> pp_outstanding s < job_inflight j \<and> pp_next_read s < job_total j"

definition pipe_closed :: "('w, 'o) pipe \<Rightarrow> bool" where
  "pipe_closed s \<longleftrightarrow> (case pp_at s of Draining _ \<Rightarrow> True | Finished _ \<Rightarrow> True | _ \<Rightarrow> False)"

inductive coordinator_step ::
  "('t, 'w, 'o) job \<Rightarrow> ('w, 'o) pipe \<Rightarrow> ('w, 'o) pipe \<Rightarrow> bool" for j :: "('t, 'w, 'o) job" where
  top_more: "pp_at s = AtTop \<Longrightarrow> pp_next_collect s < job_total j \<Longrightarrow>
    coordinator_step j s (s\<lparr>pp_at := Reading\<rparr>)"
| top_done: "pp_at s = AtTop \<Longrightarrow> \<not> pp_next_collect s < job_total j \<Longrightarrow>
    coordinator_step j s (s\<lparr>pp_at := Draining None\<rparr>)"
| read_ok: "pp_at s = Reading \<Longrightarrow> pipe_may_read j s \<Longrightarrow>
    jb_read j (pp_next_read s) (jb_tasks j ! pp_next_read s) = Inr w \<Longrightarrow> length (pp_work s) < job_inflight j \<Longrightarrow>
    coordinator_step j s
      (s\<lparr>pp_work := pp_work s @ [(pp_next_read s, w)], pp_next_read := Suc (pp_next_read s),
         pp_outstanding := Suc (pp_outstanding s)\<rparr>)"
| read_err: "pp_at s = Reading \<Longrightarrow> pipe_may_read j s \<Longrightarrow>
    jb_read j (pp_next_read s) (jb_tasks j ! pp_next_read s) = Inl e \<Longrightarrow>
    coordinator_step j s (s\<lparr>pp_at := Draining (Some e)\<rparr>)"
| read_full: "pp_at s = Reading \<Longrightarrow> \<not> pipe_may_read j s \<Longrightarrow> pp_outstanding s \<noteq> 0 \<Longrightarrow>
    coordinator_step j s (s\<lparr>pp_at := Choosing\<rparr>)"
| read_none: "pp_at s = Reading \<Longrightarrow> \<not> pipe_may_read j s \<Longrightarrow> pp_outstanding s = 0 \<Longrightarrow>
    coordinator_step j s (s\<lparr>pp_at := Draining None\<rparr>)"
| choose_collect: "pp_at s = Choosing \<Longrightarrow> pp_pending s (pp_next_collect s) = Some out \<Longrightarrow>
    jb_collect j (pp_next_collect s) out = Inr u \<Longrightarrow>
    coordinator_step j s ((pipe_collected out s)\<lparr>pp_at := AtTop\<rparr>)"
| choose_err: "pp_at s = Choosing \<Longrightarrow> pp_pending s (pp_next_collect s) = Some out \<Longrightarrow>
    jb_collect j (pp_next_collect s) out = Inl e \<Longrightarrow>
    coordinator_step j s ((pipe_take s)\<lparr>pp_at := Draining (Some e)\<rparr>)"
| choose_receive: "pp_at s = Choosing \<Longrightarrow> pp_pending s (pp_next_collect s) = None \<Longrightarrow>
    coordinator_step j s (s\<lparr>pp_at := Receiving\<rparr>)"
| receive_ok: "pp_at s = Receiving \<Longrightarrow> pp_results s = Inr (k, out) # rs \<Longrightarrow> k < job_total j \<Longrightarrow>
    \<not> (k < pp_next_collect s \<or> pp_pending s k \<noteq> None) \<Longrightarrow>
    coordinator_step j s (s\<lparr>pp_results := rs, pp_pending := (pp_pending s)(k \<mapsto> out), pp_at := Flushing\<rparr>)"
| receive_out_of_range: "pp_at s = Receiving \<Longrightarrow> pp_results s = Inr (k, out) # rs \<Longrightarrow> \<not> k < job_total j \<Longrightarrow>
    coordinator_step j s (s\<lparr>pp_results := rs, pp_at := Draining (Some (Validation
      (Msg ''ordered compression pipeline produced out-of-range task {} for {} tasks'' [Num k, Num (job_total j)])))\<rparr>)"
| receive_duplicate: "pp_at s = Receiving \<Longrightarrow> pp_results s = Inr (k, out) # rs \<Longrightarrow> k < job_total j \<Longrightarrow>
    k < pp_next_collect s \<or> pp_pending s k \<noteq> None \<Longrightarrow>
    coordinator_step j s (s\<lparr>pp_results := rs, pp_at := Draining (Some (Validation
      (Msg ''ordered compression pipeline produced duplicate task {}'' [Num k])))\<rparr>)"
| receive_err: "pp_at s = Receiving \<Longrightarrow> pp_results s = Inl e # rs \<Longrightarrow>
    coordinator_step j s (s\<lparr>pp_results := rs, pp_at := Draining (Some e)\<rparr>)"
| receive_closed: "pp_at s = Receiving \<Longrightarrow> pp_results s = [] \<Longrightarrow> set (pp_workers s) \<subseteq> {Stopped} \<Longrightarrow>
    coordinator_step j s (s\<lparr>pp_at := Draining (Some (Validation (Msg (jb_result_closed j) [])))\<rparr>)"
| flush_collect: "pp_at s = Flushing \<Longrightarrow> pp_pending s (pp_next_collect s) = Some out \<Longrightarrow>
    jb_collect j (pp_next_collect s) out = Inr u \<Longrightarrow> coordinator_step j s (pipe_collected out s)"
| flush_err: "pp_at s = Flushing \<Longrightarrow> pp_pending s (pp_next_collect s) = Some out \<Longrightarrow>
    jb_collect j (pp_next_collect s) out = Inl e \<Longrightarrow>
    coordinator_step j s ((pipe_take s)\<lparr>pp_at := Draining (Some e)\<rparr>)"
| flush_done: "pp_at s = Flushing \<Longrightarrow> pp_pending s (pp_next_collect s) = None \<Longrightarrow>
    coordinator_step j s (s\<lparr>pp_at := AtTop\<rparr>)"
| drain: "pp_at s = Draining e \<Longrightarrow> pp_results s = r # rs \<Longrightarrow> coordinator_step j s (s\<lparr>pp_results := rs\<rparr>)"
| drain_done: "pp_at s = Draining e \<Longrightarrow> pp_results s = [] \<Longrightarrow> set (pp_workers s) \<subseteq> {Stopped} \<Longrightarrow>
    coordinator_step j s (s\<lparr>pp_at := Finished e\<rparr>)"

inductive worker_step ::
  "('t, 'w, 'o) job \<Rightarrow> ('w, 'o) pipe \<Rightarrow> ('w, 'o) pipe \<Rightarrow> bool" for j :: "('t, 'w, 'o) job" where
  worker_ready: "i < length (pp_workers s) \<Longrightarrow> pp_workers s ! i = Starting \<Longrightarrow> jb_init_ok j i \<Longrightarrow>
    worker_step j s (s\<lparr>pp_workers := (pp_workers s)[i := Waiting]\<rparr>)"
| worker_init_panic: "i < length (pp_workers s) \<Longrightarrow> pp_workers s ! i = Starting \<Longrightarrow> \<not> jb_init_ok j i \<Longrightarrow>
    length (pp_results s) < job_inflight j \<Longrightarrow>
    worker_step j s (s\<lparr>pp_workers := (pp_workers s)[i := Stopped],
      pp_results := pp_results s @ [Inl panicked_initializing]\<rparr>)"
| worker_take: "i < length (pp_workers s) \<Longrightarrow> pp_workers s ! i = Waiting \<Longrightarrow> pp_work s = (k, w) # q \<Longrightarrow>
    worker_step j s (s\<lparr>pp_workers := (pp_workers s)[i := Busy k w], pp_work := q\<rparr>)"
| worker_closed: "i < length (pp_workers s) \<Longrightarrow> pp_workers s ! i = Waiting \<Longrightarrow> pp_work s = [] \<Longrightarrow> pipe_closed s \<Longrightarrow>
    worker_step j s (s\<lparr>pp_workers := (pp_workers s)[i := Stopped]\<rparr>)"
| worker_done: "i < length (pp_workers s) \<Longrightarrow> pp_workers s ! i = Busy k w \<Longrightarrow> jb_compress j k w = Inr out \<Longrightarrow>
    length (pp_results s) < job_inflight j \<Longrightarrow>
    worker_step j s (s\<lparr>pp_workers := (pp_workers s)[i := Waiting], pp_results := pp_results s @ [Inr (k, out)]\<rparr>)"
| worker_failed: "i < length (pp_workers s) \<Longrightarrow> pp_workers s ! i = Busy k w \<Longrightarrow> jb_compress j k w = Inl e \<Longrightarrow>
    length (pp_results s) < job_inflight j \<Longrightarrow>
    worker_step j s (s\<lparr>pp_workers := (pp_workers s)[i := Stopped], pp_results := pp_results s @ [Inl e]\<rparr>)"

definition pipe_step :: "('t, 'w, 'o) job \<Rightarrow> ('w, 'o) pipe \<Rightarrow> ('w, 'o) pipe \<Rightarrow> bool" where
  "pipe_step j s s' \<longleftrightarrow> coordinator_step j s s' \<or> worker_step j s s'"

section \<open>What can fail\<close>

text \<open>The failures of the job itself: a read, a compression, a collection, a worker's start.\<close>

definition job_output :: "('t, 'w, 'o) job \<Rightarrow> nat \<Rightarrow> 'o \<Rightarrow> bool" where
  "job_output j k out \<longleftrightarrow> k < job_total j \<and> and_then (jb_read j k (jb_tasks j ! k)) (jb_compress j k) = Inr out"

definition job_failure :: "('t, 'w, 'o) job \<Rightarrow> weave_error \<Rightarrow> bool" where
  "job_failure j e \<longleftrightarrow>
     (\<exists>k < job_total j. and_then (jb_read j k (jb_tasks j ! k)) (jb_compress j k) = Inl e) \<or>
     (\<exists>k out. job_output j k out \<and> jb_collect j k out = Inl e) \<or>
     (\<exists>i < job_workers j. \<not> jb_init_ok j i) \<and> e = panicked_initializing"

lemma job_output_unique: "job_output j k a \<Longrightarrow> job_output j k b \<Longrightarrow> a = b"
  by (simp add: job_output_def)

section \<open>The invariant\<close>

definition busy_of :: "'w pipe_worker \<Rightarrow> nat list" where
  "busy_of w = (case w of Busy k _ \<Rightarrow> [k] | _ \<Rightarrow> [])"

definition result_of :: "(nat \<times> 'o) result \<Rightarrow> nat list" where
  "result_of r = (case r of Inr (k, _) \<Rightarrow> [k] | Inl _ \<Rightarrow> [])"

text \<open>The tasks that were read and are not yet collected, wherever they are.\<close>

definition pipe_flight :: "('w, 'o) pipe \<Rightarrow> nat multiset" where
  "pipe_flight s =
     mset (map fst (pp_work s)) + mset (concat (map busy_of (pp_workers s))) +
     mset (concat (map result_of (pp_results s))) + mset_set (dom (pp_pending s))"

definition pipe_failed :: "('w, 'o) pipe \<Rightarrow> bool" where
  "pipe_failed s \<longleftrightarrow> (\<exists>e. Inl e \<in> set (pp_results s))"

definition pipe_counts :: "('t, 'w, 'o) job \<Rightarrow> ('w, 'o) pipe \<Rightarrow> bool" where
  "pipe_counts j s \<longleftrightarrow>
     pp_next_collect s + pp_outstanding s = pp_next_read s \<and> pp_next_read s \<le> job_total j \<and>
     pp_outstanding s \<le> job_inflight j \<and> length (pp_results s) \<le> job_inflight j \<and>
     length (pp_work s) \<le> job_inflight j \<and> length (pp_workers s) = job_workers j"

definition pipe_values :: "('t, 'w, 'o) job \<Rightarrow> ('w, 'o) pipe \<Rightarrow> bool" where
  "pipe_values j s \<longleftrightarrow>
     (\<forall>(k, w) \<in> set (pp_work s). k < job_total j \<and> jb_read j k (jb_tasks j ! k) = Inr w) \<and>
     (\<forall>k w. Busy k w \<in> set (pp_workers s) \<longrightarrow> k < job_total j \<and> jb_read j k (jb_tasks j ! k) = Inr w) \<and>
     (\<forall>k out. Inr (k, out) \<in> set (pp_results s) \<longrightarrow> job_output j k out) \<and>
     (\<forall>k out. pp_pending s k = Some out \<longrightarrow> job_output j k out) \<and>
     (\<forall>e. Inl e \<in> set (pp_results s) \<longrightarrow> job_failure j e)"

definition pipe_ordered :: "('t, 'w, 'o) job \<Rightarrow> ('w, 'o) pipe \<Rightarrow> bool" where
  "pipe_ordered j s \<longleftrightarrow>
     map fst (pp_collected s) = [0..<pp_next_collect s] \<and>
     (\<forall>(k, out) \<in> set (pp_collected s). job_output j k out \<and> jb_collect j k out = Inr ())"

text \<open>
  While the coordinator is in its loop no task is lost, unless an error is waiting for it.
\<close>

definition pipe_tracked :: "('w, 'o) pipe \<Rightarrow> bool" where
  "pipe_tracked s \<longleftrightarrow>
     (\<not> pipe_closed s \<longrightarrow>
        pipe_flight s \<subseteq># mset_set {pp_next_collect s..<pp_next_read s} \<and>
        (pipe_failed s \<or> pipe_flight s = mset_set {pp_next_collect s..<pp_next_read s} \<and>
           Stopped \<notin> set (pp_workers s)))"

definition pipe_control :: "('t, 'w, 'o) job \<Rightarrow> ('w, 'o) pipe \<Rightarrow> bool" where
  "pipe_control j s \<longleftrightarrow>
     (case pp_at s of
        AtTop \<Rightarrow> True
      | Reading \<Rightarrow> pp_next_collect s < job_total j
      | Choosing \<Rightarrow> 0 < pp_outstanding s
      | Receiving \<Rightarrow> 0 < pp_outstanding s \<and> pp_pending s (pp_next_collect s) = None
      | Flushing \<Rightarrow> True
      | Draining e \<Rightarrow> (case e of None \<Rightarrow> pp_next_collect s = job_total j | Some e \<Rightarrow> job_failure j e)
      | Finished e \<Rightarrow> set (pp_workers s) \<subseteq> {Stopped} \<and> pp_results s = [] \<and>
          (case e of None \<Rightarrow> pp_next_collect s = job_total j | Some e \<Rightarrow> job_failure j e))"

definition pipe_inv :: "('t, 'w, 'o) job \<Rightarrow> ('w, 'o) pipe \<Rightarrow> bool" where
  "pipe_inv j s \<longleftrightarrow> pipe_counts j s \<and> pipe_values j s \<and> pipe_ordered j s \<and> pipe_tracked s \<and> pipe_control j s"

lemma job_inflight_pos: "0 < job_inflight j"
  by (simp add: job_inflight_def)

lemma pipe_inv_start: "pipe_inv j (pipe_start j)"
proof -
  have "concat (map busy_of (replicate n (Starting :: 'w pipe_worker))) = []" for n
    by (induction n) (simp_all add: busy_of_def)
  then show ?thesis
    by (auto simp: pipe_inv_def pipe_start_def pipe_counts_def pipe_values_def pipe_ordered_def pipe_tracked_def
        pipe_flight_def pipe_control_def)
qed

section \<open>Steps of the workers\<close>

lemma busy_update:
  "i < length ws \<Longrightarrow> mset (concat (map busy_of (ws[i := b]))) + mset (busy_of (ws ! i)) =
    mset (concat (map busy_of ws)) + mset (busy_of b)"
proof (induction ws arbitrary: i)
  case (Cons w ws)
  show ?case
  proof (cases i)
    case (Suc n)
    then show ?thesis using Cons.IH [of n] Cons.prems by (simp add: union_assoc union_commute union_lcomm)
  qed (simp add: union_commute union_lcomm)
qed simp

lemma busy_of_simps [simp]: "busy_of Starting = []" "busy_of Waiting = []" "busy_of Stopped = []" "busy_of (Busy k w) = [k]"
  by (simp_all add: busy_of_def)

lemma result_of_simps [simp]: "result_of (Inl e) = []" "result_of (Inr (k, out)) = [k]"
  by (simp_all add: result_of_def)

lemma busy_update_idle:
  assumes "i < length ws" and "busy_of (ws ! i) = []"
  shows "mset (concat (map busy_of (ws[i := b]))) = mset (concat (map busy_of ws)) + mset (busy_of b)"
  using busy_update [OF assms(1), of b] assms(2) by simp

lemma busy_update_done:
  assumes "i < length ws" and "ws ! i = Busy k w" and "busy_of b = []"
  shows "add_mset k (mset (concat (map busy_of (ws[i := b])))) = mset (concat (map busy_of ws))"
  using busy_update [OF assms(1), of b] assms(2,3) by simp

lemma worker_step_keeps:
  "worker_step j s s' \<Longrightarrow> pp_at s' = pp_at s \<and> pp_next_read s' = pp_next_read s \<and>
    pp_next_collect s' = pp_next_collect s \<and> pp_outstanding s' = pp_outstanding s \<and>
    pp_pending s' = pp_pending s \<and> pp_collected s' = pp_collected s"
  by (induction rule: worker_step.induct) simp_all

lemma worker_step_counts: "worker_step j s s' \<Longrightarrow> pipe_counts j s \<Longrightarrow> pipe_counts j s'"
  by (induction rule: worker_step.induct) (auto simp: pipe_counts_def)

lemma in_set_update: "x \<in> set (ws[i := y]) \<Longrightarrow> x = y \<or> x \<in> set ws"
  using set_update_subset_insert [of ws i y] by auto

lemma worker_step_values:
  assumes "worker_step j s s'" and "pipe_values j s" and "pipe_counts j s"
  shows "pipe_values j s'"
  using assms
proof (induction rule: worker_step.induct)
  case (worker_init_panic i s)
  have "job_failure j panicked_initializing"
    using worker_init_panic(1,3,6) by (auto simp: job_failure_def pipe_counts_def)
  with worker_init_panic(5) show ?case by (auto simp: pipe_values_def dest!: in_set_update)
next
  case (worker_done i s k w out)
  then have "Busy k w \<in> set (pp_workers s)" by (metis nth_mem)
  with worker_done(3,5) have "job_output j k out" by (auto simp: pipe_values_def job_output_def)
  with worker_done(5) show ?case by (auto simp: pipe_values_def dest!: in_set_update)
next
  case (worker_failed i s k w e)
  then have "Busy k w \<in> set (pp_workers s)" by (metis nth_mem)
  with worker_failed(5) have "k < job_total j" "jb_read j k (jb_tasks j ! k) = Inr w"
    by (auto simp: pipe_values_def)
  with worker_failed(3) have "job_failure j e" unfolding job_failure_def by (intro disjI1 exI [of _ k]) simp
  with worker_failed(5) show ?case by (auto simp: pipe_values_def dest!: in_set_update)
qed (auto simp: pipe_values_def dest!: in_set_update)

lemma worker_step_tracked: "worker_step j s s' \<Longrightarrow> pipe_tracked s \<Longrightarrow> pipe_tracked s'"
proof (induction rule: worker_step.induct)
  case (worker_ready i s)
  then have "pipe_flight (s\<lparr>pp_workers := (pp_workers s)[i := Waiting]\<rparr>) = pipe_flight s"
    by (simp add: pipe_flight_def busy_update_idle del: mset_concat)
  with worker_ready show ?case by (auto simp: pipe_tracked_def pipe_failed_def pipe_closed_def dest!: in_set_update)
next
  case (worker_init_panic i s)
  then have "pipe_flight (s\<lparr>pp_workers := (pp_workers s)[i := Stopped],
      pp_results := pp_results s @ [Inl panicked_initializing]\<rparr>) = pipe_flight s"
    by (simp add: pipe_flight_def busy_update_idle del: mset_concat)
  with worker_init_panic show ?case by (auto simp: pipe_tracked_def pipe_failed_def pipe_closed_def)
next
  case (worker_take i s k w q)
  then have "pipe_flight (s\<lparr>pp_workers := (pp_workers s)[i := Busy k w], pp_work := q\<rparr>) = pipe_flight s"
    by (simp add: pipe_flight_def busy_update_idle del: mset_concat)
  with worker_take show ?case by (auto simp: pipe_tracked_def pipe_failed_def pipe_closed_def dest!: in_set_update)
next
  case (worker_closed i s)
  then show ?case by (simp add: pipe_tracked_def pipe_closed_def)
next
  case (worker_done i s k w out)
  from busy_update_done [OF worker_done(1,2), of Waiting]
  have "pipe_flight (s\<lparr>pp_workers := (pp_workers s)[i := Waiting], pp_results := pp_results s @ [Inr (k, out)]\<rparr>) = pipe_flight s"
    by (simp add: pipe_flight_def del: mset_concat)
  with worker_done show ?case by (auto simp: pipe_tracked_def pipe_failed_def pipe_closed_def dest!: in_set_update)
next
  case (worker_failed i s k w e)
  let ?s = "s\<lparr>pp_workers := (pp_workers s)[i := Stopped], pp_results := pp_results s @ [Inl e]\<rparr>"
  from busy_update_done [OF worker_failed(1,2), of Stopped]
  have "add_mset k (pipe_flight ?s) = pipe_flight s"
    by (simp add: pipe_flight_def del: mset_concat)
  then have "pipe_flight ?s \<subseteq># pipe_flight s" by (metis mset_subset_eq_add_right add_mset_add_single mset_subset_eq_add_left)
  with worker_failed show ?case
    by (auto simp: pipe_tracked_def pipe_failed_def pipe_closed_def intro: subset_mset.order_trans)
qed

lemma worker_step_control:
  assumes "worker_step j s s'" and "pipe_control j s"
  shows "pipe_control j s'"
proof (cases "\<exists>e. pp_at s = Finished e")
  case True
  then have stopped: "set (pp_workers s) \<subseteq> {Stopped}" using assms(2) by (auto simp: pipe_control_def)
  have "\<not> worker_step j s s'"
  proof
    assume "worker_step j s s'"
    then have "\<exists>i < length (pp_workers s). pp_workers s ! i \<noteq> Stopped" by cases auto
    with stopped show False by (auto dest: nth_mem)
  qed
  with assms(1) show ?thesis by blast
next
  case False
  with assms(2) worker_step_keeps [OF assms(1)] show ?thesis
    by (auto simp: pipe_control_def split: coordinator.splits option.splits)
qed

lemma worker_step_inv: "worker_step j s s' \<Longrightarrow> pipe_inv j s \<Longrightarrow> pipe_inv j s'"
  using worker_step_keeps [of j s s']
  by (auto simp: pipe_inv_def pipe_ordered_def intro: worker_step_counts worker_step_values worker_step_tracked worker_step_control)

section \<open>Steps of the coordinator\<close>

lemma coordinator_step_counts:
  assumes "coordinator_step j s s'" and "pipe_counts j s" and "pipe_tracked s" and "pipe_values j s"
  shows "pipe_counts j s'"
proof -
  have pos: "0 < pp_outstanding s" if at: "\<not> pipe_closed s" and some: "pp_pending s (pp_next_collect s) = Some out" for out
  proof -
    have "finite (dom (pp_pending s))"
      by (rule finite_subset [of _ "{..<job_total j}"])
        (use assms(4) in \<open>auto simp: pipe_values_def job_output_def\<close>)
    then have "pp_next_collect s \<in># pipe_flight s" using some by (auto simp: pipe_flight_def)
    with assms(3) at have "pp_next_collect s \<in># mset_set {pp_next_collect s..<pp_next_read s}"
      by (meson mset_subset_eqD pipe_tracked_def)
    then show ?thesis using assms(2) by (auto simp: pipe_counts_def)
  qed
  show ?thesis
    using assms(1,2)
  proof cases
    case (read_ok w)
    then show ?thesis using assms(2) by (auto simp: pipe_counts_def pipe_may_read_def)
  next
    case (choose_collect out u)
    then show ?thesis using assms(2) pos [of out] by (auto simp: pipe_counts_def pipe_collected_def pipe_closed_def)
  next
    case (flush_collect out u)
    then show ?thesis using assms(2) pos [of out] by (auto simp: pipe_counts_def pipe_collected_def pipe_closed_def)
  qed (auto simp: pipe_counts_def pipe_take_def)
qed

lemma coordinator_step_values:
  assumes "coordinator_step j s s'" and "pipe_values j s"
  shows "pipe_values j s'"
  using assms
proof cases
  case (read_ok w)
  then show ?thesis using assms(2) by (auto simp: pipe_values_def pipe_may_read_def)
qed (auto simp: pipe_values_def pipe_take_def pipe_collected_def split: if_splits)

lemma coordinator_step_ordered:
  assumes "coordinator_step j s s'" and "pipe_ordered j s" and "pipe_values j s"
  shows "pipe_ordered j s'"
  using assms by cases (auto simp: pipe_ordered_def pipe_values_def pipe_take_def pipe_collected_def)

text \<open>Reading, receiving and collecting move a task; nothing else touches the tasks in flight.\<close>

lemma flight_read:
  "pp_next_collect s \<le> pp_next_read s \<Longrightarrow>
   mset_set {pp_next_collect s..<Suc (pp_next_read s)} = add_mset (pp_next_read s) (mset_set {pp_next_collect s..<pp_next_read s})"
  by (simp add: atLeastLessThanSuc)

lemma flight_collect:
  assumes "pp_pending s (pp_next_collect s) = Some out" and "finite (dom (pp_pending s))"
  shows "pipe_flight s = add_mset (pp_next_collect s) (pipe_flight (pipe_collected out s))"
proof -
  have "dom (pp_pending s) = insert (pp_next_collect s) (dom ((pp_pending s)(pp_next_collect s := None)))"
    using assms(1) by auto
  moreover have "finite (dom ((pp_pending s)(pp_next_collect s := None)))"
    using assms(2) by (auto intro: finite_subset)
  ultimately have "mset_set (dom (pp_pending s)) =
      add_mset (pp_next_collect s) (mset_set (dom ((pp_pending s)(pp_next_collect s := None))))"
    by (simp only:) (subst mset_set.insert, auto)
  then show ?thesis by (simp add: pipe_flight_def pipe_collected_def del: dom_fun_upd)
qed

lemma flight_receive:
  assumes "pp_results s = Inr (k, out) # rs" and "pp_pending s k = None" and "finite (dom (pp_pending s))"
  shows "pipe_flight (s\<lparr>pp_results := rs, pp_pending := (pp_pending s)(k \<mapsto> out), pp_at := a\<rparr>) = pipe_flight s"
proof -
  have "mset_set (insert k (dom (pp_pending s))) = add_mset k (mset_set (dom (pp_pending s)))"
    using assms(2,3) by (intro mset_set.insert) auto
  then show ?thesis by (simp add: pipe_flight_def assms(1))
qed

lemma interval_uncons:
  "lo < hi \<Longrightarrow> mset_set {lo..<hi} = add_mset lo (mset_set {Suc lo..<hi})"
proof -
  assume "lo < hi"
  then have "{lo..<hi} = insert lo {Suc lo..<hi}" by auto
  then show ?thesis by simp
qed

lemma tracked_collect:
  assumes tracked: "pipe_tracked s" and open_s: "\<not> pipe_closed s"
    and some: "pp_pending s (pp_next_collect s) = Some out" and fin: "finite (dom (pp_pending s))"
  shows "pipe_flight (pipe_collected out s) \<subseteq># mset_set {Suc (pp_next_collect s)..<pp_next_read s} \<and>
    (pipe_failed s \<or> pipe_flight (pipe_collected out s) = mset_set {Suc (pp_next_collect s)..<pp_next_read s} \<and>
       Stopped \<notin> set (pp_workers s))"
proof -
  note flight = flight_collect [OF some fin]
  have sub: "pipe_flight s \<subseteq># mset_set {pp_next_collect s..<pp_next_read s}"
    using tracked open_s by (simp add: pipe_tracked_def)
  have "pp_next_collect s \<in># pipe_flight s" by (simp add: flight)
  with sub have "pp_next_collect s \<in># mset_set {pp_next_collect s..<pp_next_read s}" by (rule mset_subset_eqD)
  then have lt: "pp_next_collect s < pp_next_read s" by simp
  show ?thesis
    using sub tracked open_s by (auto simp: pipe_tracked_def flight interval_uncons [OF lt])
qed

lemma coordinator_step_tracked:
  assumes "coordinator_step j s s'" and inv: "pipe_inv j s"
  shows "pipe_tracked s'"
proof -
  note invs = inv [unfolded pipe_inv_def]
  have fin: "finite (dom (pp_pending s))"
    by (rule finite_subset [of _ "{..<job_total j}"])
      (use invs in \<open>auto simp: pipe_values_def job_output_def\<close>)
  have le: "pp_next_collect s \<le> pp_next_read s" using invs by (auto simp: pipe_counts_def)
  have same: "pipe_flight (s\<lparr>pp_at := a\<rparr>) = pipe_flight s" for a by (simp add: pipe_flight_def)
  from assms(1) show ?thesis
  proof cases
    case (read_ok w)
    have "pipe_flight s' = add_mset (pp_next_read s) (pipe_flight s)"
      by (simp add: read_ok(1) pipe_flight_def)
    with read_ok invs le show ?thesis by (auto simp: pipe_tracked_def pipe_closed_def pipe_failed_def flight_read)
  next
    case (choose_collect out u)
    have "\<not> pipe_closed s" using choose_collect(2) by (simp add: pipe_closed_def)
    from tracked_collect [OF _ this choose_collect(3) fin] invs show ?thesis
      by (auto simp: choose_collect(1) pipe_tracked_def pipe_failed_def pipe_collected_def pipe_flight_def)
  next
    case (receive_ok k out rs)
    with flight_receive [OF receive_ok(3) _ fin, of Flushing] invs show ?thesis
      by (auto simp: pipe_tracked_def pipe_closed_def pipe_failed_def)
  next
    case (flush_collect out u)
    have "\<not> pipe_closed s" using flush_collect(2) by (simp add: pipe_closed_def)
    from tracked_collect [OF _ this flush_collect(3) fin] invs show ?thesis
      by (auto simp: flush_collect(1) pipe_tracked_def pipe_failed_def pipe_collected_def pipe_flight_def)
  qed (use invs in \<open>auto simp: pipe_tracked_def pipe_closed_def pipe_failed_def same\<close>)
qed

lemma job_workers_pos: "0 < job_total j \<Longrightarrow> 0 < job_workers j"
  by (simp add: job_workers_def)

lemma flight_pending_finite: "pipe_values j s \<Longrightarrow> finite (dom (pp_pending s))"
  by (rule finite_subset [of _ "{..<job_total j}"]) (auto simp: pipe_values_def job_output_def)

lemma received_fresh:
  assumes inv: "pipe_inv j s" and at: "pp_at s = Receiving" and res: "pp_results s = Inr (k, out) # rs"
  shows "k < job_total j" and "\<not> (k < pp_next_collect s \<or> pp_pending s k \<noteq> None)"
proof -
  note invs = inv [unfolded pipe_inv_def]
  from invs res show "k < job_total j" by (auto simp: pipe_values_def job_output_def)
  have sub: "pipe_flight s \<subseteq># mset_set {pp_next_collect s..<pp_next_read s}"
    using invs at by (auto simp: pipe_tracked_def pipe_closed_def)
  have "k \<in># pipe_flight s" by (simp add: pipe_flight_def res)
  with sub have ge: "pp_next_collect s \<le> k" by (auto dest: mset_subset_eqD)
  have "count (pipe_flight s) k \<le> 1"
    using mset_subset_eq_count [OF sub, of k] by (simp add: count_mset_set' split: if_splits)
  moreover have "2 \<le> count (pipe_flight s) k" if "pp_pending s k \<noteq> None"
    using that flight_pending_finite [of j s] invs by (auto simp: pipe_flight_def res count_mset_set')
  ultimately have "pp_pending s k = None" by linarith
  with ge show "\<not> (k < pp_next_collect s \<or> pp_pending s k \<noteq> None)" by simp
qed

lemma receiving_has_worker:
  assumes inv: "pipe_inv j s" and at: "pp_at s = Receiving" and res: "pp_results s = []"
  shows "Stopped \<notin> set (pp_workers s)" and "pp_workers s \<noteq> []"
    and "pp_next_collect s \<in># mset (map fst (pp_work s)) + mset (concat (map busy_of (pp_workers s)))"
proof -
  note invs = inv [unfolded pipe_inv_def]
  have out: "0 < pp_outstanding s" "pp_pending s (pp_next_collect s) = None"
    using invs at by (auto simp: pipe_control_def)
  have counts: "pp_next_collect s + pp_outstanding s = pp_next_read s" "pp_next_read s \<le> job_total j"
    "length (pp_workers s) = job_workers j"
    using invs by (auto simp: pipe_counts_def)
  have flight: "pipe_flight s = mset_set {pp_next_collect s..<pp_next_read s}" "Stopped \<notin> set (pp_workers s)"
    using invs at res by (auto simp: pipe_tracked_def pipe_closed_def pipe_failed_def)
  show "Stopped \<notin> set (pp_workers s)" by (rule flight(2))
  have "0 < job_workers j" using out counts by (intro job_workers_pos) linarith
  with counts(3) show "pp_workers s \<noteq> []" by auto
  have "pp_next_collect s \<in># pipe_flight s" using out counts by (simp add: flight(1))
  moreover have "pp_next_collect s \<notin># mset_set (dom (pp_pending s))"
    using out(2) by (cases "finite (dom (pp_pending s))") auto
  ultimately show "pp_next_collect s \<in># mset (map fst (pp_work s)) + mset (concat (map busy_of (pp_workers s)))"
    by (auto simp: pipe_flight_def res)
qed

lemma coordinator_step_control:
  assumes "coordinator_step j s s'" and inv: "pipe_inv j s"
  shows "pipe_control j s'"
proof -
  note invs = inv [unfolded pipe_inv_def]
  have counts: "pp_next_collect s + pp_outstanding s = pp_next_read s" "pp_next_read s \<le> job_total j"
    using invs by (auto simp: pipe_counts_def)
  have collect_fails: "job_failure j e" if "pp_pending s k = Some out" "jb_collect j k out = Inl e" for k out e
    using invs that by (auto simp: pipe_values_def job_failure_def)
  from assms(1) show ?thesis
  proof cases
    case (read_err e)
    then have "pp_next_read s < job_total j" by (simp add: pipe_may_read_def)
    with read_err(4) have "job_failure j e"
      unfolding job_failure_def by (intro disjI1 exI [of _ "pp_next_read s"]) simp
    then show ?thesis by (simp add: read_err(1) pipe_control_def)
  next
    case read_none
    then show ?thesis
      using invs counts job_inflight_pos [of j] by (simp add: pipe_control_def pipe_may_read_def)
  next
    case (receive_out_of_range k out rs)
    with received_fresh [OF inv receive_out_of_range(2,3)] show ?thesis by blast
  next
    case (receive_duplicate k out rs)
    with received_fresh [OF inv receive_duplicate(2,3)] show ?thesis by blast
  next
    case (receive_err e rs)
    then have "job_failure j e" using invs by (auto simp: pipe_values_def)
    then show ?thesis by (simp add: receive_err(1) pipe_control_def)
  next
    case receive_closed
    with receiving_has_worker(1,2) [OF inv receive_closed(2,3)] have False
      by (cases "pp_workers s") auto
    then show ?thesis ..
  qed (use invs counts collect_fails in
      \<open>auto simp: pipe_control_def pipe_take_def pipe_collected_def split: option.splits\<close>)
qed

lemma pipe_step_inv: "pipe_step j s s' \<Longrightarrow> pipe_inv j s \<Longrightarrow> pipe_inv j s'"
  unfolding pipe_step_def
proof (elim disjE)
  assume step: "coordinator_step j s s'" and inv: "pipe_inv j s"
  then show "pipe_inv j s'"
    using coordinator_step_counts coordinator_step_values coordinator_step_ordered
      coordinator_step_tracked [OF step inv] coordinator_step_control [OF step inv]
    unfolding pipe_inv_def by blast
qed (rule worker_step_inv)

lemma pipe_reachable_inv: "(pipe_step j)\<^sup>*\<^sup>* (pipe_start j) s \<Longrightarrow> pipe_inv j s"
  by (induction rule: rtranclp_induct) (auto intro: pipe_inv_start pipe_step_inv)

section \<open>Progress\<close>

lemma worker_can_step:
  assumes i: "i < length (pp_workers s)" and "pp_workers s ! i \<noteq> Stopped" and room: "length (pp_results s) < job_inflight j"
    and "pp_workers s ! i = Waiting \<Longrightarrow> pp_work s \<noteq> [] \<or> pipe_closed s"
  shows "\<exists>s'. worker_step j s s'"
proof (cases "pp_workers s ! i")
  case Starting
  then show ?thesis
    using worker_ready [OF i Starting] worker_init_panic [OF i Starting _ room] by (cases "jb_init_ok j i") blast+
next
  case Waiting
  show ?thesis
  proof (cases "pp_work s")
    case Nil
    then show ?thesis using worker_closed [OF i Waiting] assms(4) [OF Waiting] by blast
  next
    case (Cons kw q)
    then show ?thesis using worker_take [OF i Waiting] by (cases kw) blast
  qed
next
  case (Busy k w)
  then show ?thesis
    using worker_done [OF i Busy _ room] worker_failed [OF i Busy _ room] by (cases "jb_compress j k w") blast+
next
  case Stopped
  with assms(2) show ?thesis by blast
qed

lemma work_room:
  assumes "pipe_inv j s" and "\<not> pipe_closed s"
  shows "length (pp_work s) \<le> pp_outstanding s"
proof -
  have "mset (map fst (pp_work s)) \<subseteq># pipe_flight s" by (simp add: pipe_flight_def del: mset_map)
  also have "pipe_flight s \<subseteq># mset_set {pp_next_collect s..<pp_next_read s}"
    using assms by (auto simp: pipe_inv_def pipe_tracked_def)
  finally have "size (mset (map fst (pp_work s))) \<le> size (mset_set {pp_next_collect s..<pp_next_read s})"
    by (rule size_mset_mono)
  then show ?thesis using assms(1) by (auto simp: pipe_inv_def pipe_counts_def)
qed

lemma pipe_progress:
  assumes inv: "pipe_inv j s" and "\<And>e. pp_at s \<noteq> Finished e"
  shows "\<exists>s'. pipe_step j s s'"
proof (cases "pp_at s")
  case AtTop
  then show ?thesis
    using coordinator_step.top_more [OF AtTop] coordinator_step.top_done [OF AtTop] unfolding pipe_step_def by blast
next
  case Reading
  have room: "pipe_may_read j s \<Longrightarrow> length (pp_work s) < job_inflight j"
    using work_room [OF inv] Reading by (simp add: pipe_closed_def pipe_may_read_def)
  show ?thesis
    using coordinator_step.read_ok [OF Reading _ _ room] coordinator_step.read_err [OF Reading]
      coordinator_step.read_full [OF Reading] coordinator_step.read_none [OF Reading]
    unfolding pipe_step_def
    by (cases "pipe_may_read j s"; cases "pp_outstanding s = 0";
        cases "jb_read j (pp_next_read s) (jb_tasks j ! pp_next_read s)") blast+
next
  case Choosing
  show ?thesis
  proof (cases "pp_pending s (pp_next_collect s)")
    case None
    then show ?thesis using coordinator_step.choose_receive [OF Choosing] unfolding pipe_step_def by blast
  next
    case (Some out)
    then show ?thesis
      using coordinator_step.choose_collect [OF Choosing Some] coordinator_step.choose_err [OF Choosing Some]
      unfolding pipe_step_def by (cases "jb_collect j (pp_next_collect s) out") blast+
  qed
next
  case Flushing
  show ?thesis
  proof (cases "pp_pending s (pp_next_collect s)")
    case None
    then show ?thesis using coordinator_step.flush_done [OF Flushing] unfolding pipe_step_def by blast
  next
    case (Some out)
    then show ?thesis
      using coordinator_step.flush_collect [OF Flushing Some] coordinator_step.flush_err [OF Flushing Some]
      unfolding pipe_step_def by (cases "jb_collect j (pp_next_collect s) out") blast+
  qed
next
  case Receiving
  show ?thesis
  proof (cases "pp_results s")
    case (Cons r rs)
    show ?thesis
    proof (cases r)
      case (Inl e)
      then show ?thesis using coordinator_step.receive_err [OF Receiving] Cons unfolding pipe_step_def by blast
    next
      case (Inr ko)
      obtain k out where "pp_results s = Inr (k, out) # rs" using Cons Inr by (cases ko) auto
      with received_fresh [OF inv Receiving this] coordinator_step.receive_ok [OF Receiving this] show ?thesis
        unfolding pipe_step_def by blast
    qed
  next
    case Nil
    note workers = receiving_has_worker [OF inv Receiving Nil]
    have room: "length (pp_results s) < job_inflight j" by (simp add: Nil job_inflight_pos)
    have "\<exists>i < length (pp_workers s). pp_workers s ! i \<noteq> Stopped \<and> (pp_workers s ! i = Waiting \<longrightarrow> pp_work s \<noteq> [])"
    proof (cases "pp_work s = []")
      case False
      then show ?thesis using workers(1,2) by (metis length_greater_0_conv nth_mem)
    next
      case True
      with workers(3) obtain w where "w \<in> set (pp_workers s)" "pp_next_collect s \<in> set (busy_of w)" by auto
      then show ?thesis by (auto simp: in_set_conv_nth busy_of_def split: pipe_worker.splits)
    qed
    then show ?thesis using worker_can_step [OF _ _ room] unfolding pipe_step_def by blast
  qed
next
  case (Draining e)
  show ?thesis
  proof (cases "pp_results s")
    case (Cons r rs)
    then show ?thesis using coordinator_step.drain [OF Draining] unfolding pipe_step_def by blast
  next
    case Nil
    have room: "length (pp_results s) < job_inflight j" by (simp add: Nil job_inflight_pos)
    show ?thesis
    proof (cases "set (pp_workers s) \<subseteq> {Stopped}")
      case True
      then show ?thesis using coordinator_step.drain_done [OF Draining Nil] unfolding pipe_step_def by blast
    next
      case False
      then obtain w where "w \<in> set (pp_workers s)" "w \<noteq> Stopped" by auto
      then obtain i where "i < length (pp_workers s)" "pp_workers s ! i \<noteq> Stopped"
        by (metis in_set_conv_nth)
      moreover have "pipe_closed s" by (simp add: pipe_closed_def Draining)
      ultimately show ?thesis using worker_can_step [OF _ _ room] unfolding pipe_step_def by blast
    qed
  qed
next
  case (Finished e)
  with assms(2) show ?thesis by blast
qed

section \<open>Termination\<close>

text \<open>
  Every step moves a task on or brings the coordinator closer to a step that does.
\<close>

fun coordinator_rank :: "coordinator \<Rightarrow> nat" where
  "coordinator_rank Flushing = 6"
| "coordinator_rank AtTop = 5"
| "coordinator_rank Reading = 4"
| "coordinator_rank Choosing = 3"
| "coordinator_rank Receiving = 2"
| "coordinator_rank (Draining _) = 1"
| "coordinator_rank (Finished _) = 0"

fun worker_rank :: "'w pipe_worker \<Rightarrow> nat" where
  "worker_rank Starting = 3"
| "worker_rank Waiting = 1"
| "worker_rank (Busy _ _) = 3"
| "worker_rank Stopped = 0"

definition pipe_rank :: "('t, 'w, 'o) job \<Rightarrow> ('w, 'o) pipe \<Rightarrow> nat" where
  "pipe_rank j s =
     8 * ((job_total j - pp_next_collect s) + 4 * (job_total j - pp_next_read s) + 3 * length (pp_work s) +
          (\<Sum>w \<leftarrow> pp_workers s. worker_rank w) + length (pp_results s)) + coordinator_rank (pp_at s)"

lemma worker_rank_update:
  "i < length ws \<Longrightarrow> (\<Sum>w \<leftarrow> ws[i := b]. worker_rank w) + worker_rank (ws ! i) = (\<Sum>w \<leftarrow> ws. worker_rank w) + worker_rank b"
proof (induction ws arbitrary: i)
  case (Cons w ws)
  then show ?case by (cases i) auto
qed simp

lemma worker_step_rank: "worker_step j s s' \<Longrightarrow> pipe_rank j s' < pipe_rank j s"
proof (induction rule: worker_step.induct)
  case (worker_ready i s)
  then show ?case using worker_rank_update [of i "pp_workers s" Waiting] by (simp add: pipe_rank_def)
next
  case (worker_init_panic i s)
  then show ?case using worker_rank_update [of i "pp_workers s" Stopped] by (simp add: pipe_rank_def)
next
  case (worker_take i s k w q)
  then show ?case using worker_rank_update [of i "pp_workers s" "Busy k w"] by (simp add: pipe_rank_def)
next
  case (worker_closed i s)
  then show ?case using worker_rank_update [of i "pp_workers s" Stopped] by (simp add: pipe_rank_def)
next
  case (worker_done i s k w out)
  then show ?case using worker_rank_update [of i "pp_workers s" Waiting] by (simp add: pipe_rank_def)
next
  case (worker_failed i s k w e)
  then show ?case using worker_rank_update [of i "pp_workers s" Stopped] by (simp add: pipe_rank_def)
qed

lemma coordinator_step_rank:
  assumes "coordinator_step j s s'" and inv: "pipe_inv j s"
  shows "pipe_rank j s' < pipe_rank j s"
proof -
  have lt: "pp_next_collect s < job_total j" if "pp_pending s (pp_next_collect s) = Some out" for out
    using inv that by (auto simp: pipe_inv_def pipe_values_def job_output_def)
  from assms(1) show ?thesis
  proof cases
    case (choose_collect out u)
    with lt [OF choose_collect(3)] show ?thesis by (simp add: pipe_rank_def pipe_collected_def)
  next
    case (flush_collect out u)
    with lt [OF flush_collect(3)] show ?thesis by (simp add: pipe_rank_def pipe_collected_def)
  qed (auto simp: pipe_rank_def pipe_take_def pipe_may_read_def)
qed

lemma pipe_step_rank: "pipe_step j s s' \<Longrightarrow> pipe_inv j s \<Longrightarrow> pipe_rank j s' < pipe_rank j s"
  unfolding pipe_step_def using worker_step_rank coordinator_step_rank by blast

section \<open>Properties\<close>

text \<open>
  C33. Outputs are collected in task order on every schedule: in every state the coordinator
  and the workers can reach, the collected pairs are those of the tasks \<open>0, 1, 2, ...\<close> up to
  the next one to collect, each with the output its read and compression give; and neither
  channel ever holds more than the in-flight limit.
\<close>

theorem pipeline_in_order:
  assumes "(pipe_step j)\<^sup>*\<^sup>* (pipe_start j) s"
  shows "map fst (pp_collected s) = [0..<pp_next_collect s] \<and>
    (\<forall>(k, out) \<in> set (pp_collected s).
       k < job_total j \<and> and_then (jb_read j k (jb_tasks j ! k)) (jb_compress j k) = Inr out) \<and>
    length (pp_work s) \<le> job_inflight j \<and> length (pp_results s) \<le> job_inflight j"
  using pipe_reachable_inv [OF assms]
  by (auto simp: pipe_inv_def pipe_ordered_def pipe_counts_def job_output_def)

definition sample_job :: "(nat, nat, nat) job" where
  "sample_job = \<lparr>jb_tasks = [5], jb_threads = 2, jb_read = (\<lambda>k t. Inr (t + k)), jb_compress = (\<lambda>k w. Inr (2 * w)),
     jb_collect = (\<lambda>k out. Inr ()), jb_init_ok = (\<lambda>i. True), jb_result_closed = ''closed''\<rparr>"

lemma sample_job_step: "pipe_step sample_job (pipe_start sample_job) ((pipe_start sample_job)\<lparr>pp_at := Reading\<rparr>)"
  unfolding pipe_step_def by (rule disjI1, rule top_more) (simp_all add: pipe_start_def sample_job_def job_total_def)

theorem pipeline_in_order_witness:
  "\<exists>s. pipe_step sample_job (pipe_start sample_job) s \<and> map fst (pp_collected s) = [0..<pp_next_collect s]"
  using pipeline_in_order [OF r_into_rtranclp [where r = "pipe_step sample_job", OF sample_job_step]] sample_job_step
  by blast

text \<open>
  C34. The pipeline never deadlocks and always ends: in every reachable state that is not
  finished some thread can take a step, and every step lowers a rank, so every schedule is
  finite and ends in a finished state.
\<close>

theorem pipeline_terminates:
  assumes "(pipe_step j)\<^sup>*\<^sup>* (pipe_start j) s"
  shows "((\<nexists>e. pp_at s = Finished e) \<longrightarrow> (\<exists>s'. pipe_step j s s')) \<and>
    (\<forall>s'. pipe_step j s s' \<longrightarrow> pipe_rank j s' < pipe_rank j s)"
  using pipe_progress [OF pipe_reachable_inv [OF assms]] pipe_step_rank [OF _ pipe_reachable_inv [OF assms]] by blast

theorem pipeline_terminates_witness: "\<exists>s'. pipe_step sample_job (pipe_start sample_job) s'"
  using pipeline_terminates [OF rtranclp.rtrancl_refl, of sample_job] by (auto simp: pipe_start_def)


definition empty_job :: "(nat, nat, nat) job" where
  "empty_job = sample_job\<lparr>jb_tasks := []\<rparr>"

lemma empty_job_run:
  "(pipe_step empty_job)\<^sup>*\<^sup>* (pipe_start empty_job) ((pipe_start empty_job)\<lparr>pp_at := Finished None\<rparr>)"
proof (rule rtranclp.rtrancl_into_rtrancl [OF r_into_rtranclp])
  show "pipe_step empty_job (pipe_start empty_job) ((pipe_start empty_job)\<lparr>pp_at := Draining None\<rparr>)"
    unfolding pipe_step_def
    by (rule disjI1, rule top_done) (simp_all add: pipe_start_def empty_job_def sample_job_def job_total_def)
  have "coordinator_step empty_job ((pipe_start empty_job)\<lparr>pp_at := Draining None\<rparr>)
      ((pipe_start empty_job)\<lparr>pp_at := Draining None\<rparr>\<lparr>pp_at := Finished None\<rparr>)"
    by (rule drain_done) (simp_all add: pipe_start_def empty_job_def sample_job_def job_workers_def job_total_def)
  then show "pipe_step empty_job ((pipe_start empty_job)\<lparr>pp_at := Draining None\<rparr>)
      ((pipe_start empty_job)\<lparr>pp_at := Finished None\<rparr>)"
    by (simp add: pipe_step_def)
qed


end
