(* ===== verification/Ordered_Writer.thy ===== *)
theory Ordered_Writer
  imports Block_Cache "HOL-Library.AList" "HOL-Library.Multiset"
begin

text \<open>
  \<open>OrderedChunkWriter\<close> of \<open>rom-weaver-core/src/io.rs\<close>: chunks arrive in any order and leave in
  the order of their indices, at most \<open>max_reorder_items\<close> of them waiting for an earlier one.
  The \<open>BTreeMap\<close> of waiting chunks is an association list with distinct keys; a failing
  \<open>write_all\<close> is not modelled.  An operation returns its result and the writer after it.
\<close>

section \<open>The writer\<close>

record chunk_writer =
  ow_writer :: bytes
  ow_next_index :: nat
  ow_max_reorder_items :: nat
  ow_pending :: "(nat \<times> bytes) list"
  ow_watermark :: io_watermark

definition chunk_writer_new :: "nat \<Rightarrow> chunk_writer result" where
  "chunk_writer_new max_reorder_items =
     (if max_reorder_items = 0 then invalid ''ordered writer max_reorder_items must be greater than zero''
      else Inr \<lparr>ow_writer = [], ow_next_index = 0, ow_max_reorder_items = max_reorder_items, ow_pending = [],
                ow_watermark = \<lparr>current_bytes = 0, max_bytes = 0\<rparr>\<rparr>)"

text \<open>The \<open>while let\<close> of \<open>write_chunk\<close>: every chunk whose turn has come.\<close>

function (sequential) write_ready :: "chunk_writer \<Rightarrow> chunk_writer" where
  "write_ready w =
     (case map_of (ow_pending w) (ow_next_index w) of
        None \<Rightarrow> w
      | Some chunk \<Rightarrow>
          write_ready (w\<lparr>ow_pending := AList.delete (ow_next_index w) (ow_pending w),
            ow_writer := ow_writer w @ chunk,
            ow_watermark := release_bytes (length chunk) (ow_watermark w),
            ow_next_index := saturating_add (ow_next_index w) 1\<rparr>))"
  by pat_completeness auto
termination
proof (relation "measure (length \<circ> ow_pending)", goal_cases)
  case (2 w chunk)
  then have "(ow_next_index w, chunk) \<in> set (ow_pending w)" by (metis map_of_SomeD)
  then show ?case by (auto simp: AList.delete_eq intro!: length_filter_less)
qed simp

declare write_ready.simps [simp del]

definition write_chunk :: "nat \<Rightarrow> bytes \<Rightarrow> chunk_writer \<Rightarrow> unit result \<times> chunk_writer" where
  "write_chunk index chunk w =
     (let fresh = (map_of (ow_pending w) index = None);
          w = w\<lparr>ow_pending := AList.update index chunk (ow_pending w)\<rparr>;
          w = (if fresh then w\<lparr>ow_watermark := add_bytes (length chunk) (ow_watermark w)\<rparr> else w)
      in if length (ow_pending w) > ow_max_reorder_items w
         then (invalid_fmt ''ordered writer exceeded max reorder window: {} > {}''
                 [Num (length (ow_pending w)), Num (ow_max_reorder_items w)], w)
         else (Inr (), write_ready w))"

definition chunk_writer_finish :: "chunk_writer \<Rightarrow> bytes result" where
  "chunk_writer_finish w =
     (if ow_pending w \<noteq> [] then invalid ''ordered writer finished with unresolved chunk gaps''
      else Inr (ow_writer w))"

text \<open>A producer that hands over chunks until a call fails.\<close>

fun write_chunks :: "(nat \<times> bytes) list \<Rightarrow> chunk_writer \<Rightarrow> unit result \<times> chunk_writer" where
  "write_chunks [] w = (Inr (), w)"
| "write_chunks ((index, chunk) # cs) w =
     (case write_chunk index chunk w of (Inl e, w) \<Rightarrow> (Inl e, w) | (Inr u, w) \<Rightarrow> write_chunks cs w)"

section \<open>The invariant\<close>

text \<open>
  After the chunks with the indices \<open>seen\<close> of a list of chunks: everything before the next
  index is written, the rest of them is pending.
\<close>

definition ordered_writes :: "bytes list \<Rightarrow> nat set \<Rightarrow> chunk_writer \<Rightarrow> bool" where
  "ordered_writes chunks seen w \<longleftrightarrow>
     seen \<subseteq> {..<length chunks} \<and> {..<ow_next_index w} \<subseteq> seen \<and>
     ow_writer w = concat (take (ow_next_index w) chunks) \<and> distinct (map fst (ow_pending w)) \<and>
     (\<forall>k. map_of (ow_pending w) k = (if k \<in> seen \<and> ow_next_index w \<le> k then Some (chunks ! k) else None)) \<and>
     current_bytes (ow_watermark w) = (\<Sum>k \<in> seen - {..<ow_next_index w}. length (chunks ! k))"

lemma ordered_writes_start:
  "chunk_writer_new n = Inr w \<Longrightarrow> ordered_writes chunks {} w \<and> ow_next_index w = 0 \<and> ow_max_reorder_items w = n"
  by (auto simp: chunk_writer_new_def ordered_writes_def split: if_splits)

lemma ordered_writes_next: "ordered_writes chunks seen w \<Longrightarrow> ow_next_index w \<le> length chunks"
  by (force simp: ordered_writes_def not_le [symmetric])

lemma pending_indices:
  assumes "ordered_writes chunks seen w"
  shows "fst ` set (ow_pending w) = seen - {..<ow_next_index w}"
  using assms unfolding dom_map_of_conv_image_fst [symmetric]
  by (auto simp: ordered_writes_def dom_def split: if_splits)

lemma pending_count:
  assumes "ordered_writes chunks seen w"
  shows "length (ow_pending w) + ow_next_index w = card seen"
proof -
  have fin: "finite seen" using assms by (auto simp: ordered_writes_def intro: finite_subset)
  have "length (ow_pending w) = card (seen - {..<ow_next_index w})"
    using assms pending_indices [OF assms] distinct_card [of "map fst (ow_pending w)"]
    by (simp add: ordered_writes_def)
  then show ?thesis
    using assms fin card_Diff_subset [of "{..<ow_next_index w}" seen] card_mono [OF fin, of "{..<ow_next_index w}"]
    by (auto simp: ordered_writes_def)
qed

lemma waiting_bytes_le:
  assumes "seen \<subseteq> {..<length chunks}"
  shows "(\<Sum>k \<in> seen. length (chunks ! k)) \<le> length (concat chunks)"
proof -
  have "length (concat chunks) = (\<Sum>k < length chunks. length (chunks ! k))"
    by (simp add: length_concat sum_list_sum_nth atLeast0LessThan)
  then show ?thesis using assms by (simp add: sum_mono2)
qed

section \<open>The operations keep it\<close>

lemma write_ready_ok:
  assumes "ordered_writes chunks seen w" and "length chunks \<le> u64_max"
  shows "ordered_writes chunks seen (write_ready w) \<and> ow_next_index (write_ready w) \<notin> seen \<and>
    ow_max_reorder_items (write_ready w) = ow_max_reorder_items w"
  using assms
proof (induction w rule: write_ready.induct)
  case (1 w)
  show ?case
  proof (cases "map_of (ow_pending w) (ow_next_index w)")
    case None
    with "1.prems" show ?thesis
      by (subst (1 2 3) write_ready.simps) (auto simp: ordered_writes_def split: if_splits)
  next
    case (Some chunk)
    let ?w = "w\<lparr>ow_pending := AList.delete (ow_next_index w) (ow_pending w), ow_writer := ow_writer w @ chunk,
      ow_watermark := release_bytes (length chunk) (ow_watermark w),
      ow_next_index := saturating_add (ow_next_index w) 1\<rparr>"
    from Some "1.prems" have here: "ow_next_index w \<in> seen" "chunk = chunks ! ow_next_index w"
      by (auto simp: ordered_writes_def split: if_splits)
    with "1.prems" have less: "ow_next_index w < length chunks" and fin: "finite seen"
      by (auto simp: ordered_writes_def intro: finite_subset)
    then have inc: "saturating_add (ow_next_index w) 1 = Suc (ow_next_index w)"
      using "1.prems" by (simp add: saturating_add_def)
    have split: "seen - {..<ow_next_index w} = insert (ow_next_index w) (seen - {..<Suc (ow_next_index w)})"
      using here by auto
    have "ordered_writes chunks seen ?w"
      using "1.prems" here less fin unfolding inc
      by (auto simp: ordered_writes_def split take_Suc_conv_app_nth distinct_delete delete_conv' release_bytes_def
          less_Suc_eq Suc_le_eq)
    from "1.IH" [OF Some this "1.prems"(2)] Some show ?thesis by (subst (1 2 3) write_ready.simps) simp
  qed
qed

lemma write_chunk_ok:
  assumes inv: "ordered_writes chunks seen w" and "ow_next_index w \<notin> seen"
    and k: "k < length chunks" "k \<notin> seen" and len: "length chunks \<le> u64_max" "length (concat chunks) \<le> u64_max"
  shows "if card seen < ow_next_index w + ow_max_reorder_items w
    then \<exists>w'. write_chunk k (chunks ! k) w = (Inr (), w') \<and> ordered_writes chunks (insert k seen) w' \<and>
      ow_next_index w' \<notin> insert k seen \<and> ow_max_reorder_items w' = ow_max_reorder_items w
    else \<exists>e w'. write_chunk k (chunks ! k) w = (Inl e, w') \<and> ow_writer w' = ow_writer w"
proof -
  from inv k(2) have le: "ow_next_index w \<le> k" by (auto simp: ordered_writes_def not_less [symmetric])
  have fresh: "map_of (ow_pending w) k = None" using inv k(2) by (simp add: ordered_writes_def)
  have fin: "finite seen" using inv by (auto simp: ordered_writes_def intro: finite_subset)
  let ?w = "w\<lparr>ow_pending := AList.update k (chunks ! k) (ow_pending w),
    ow_watermark := add_bytes (length (chunks ! k)) (ow_watermark w)\<rparr>"
  have "insert k seen - {..<ow_next_index w} = insert k (seen - {..<ow_next_index w})" using le by auto
  then have sum: "(\<Sum>i \<in> insert k seen - {..<ow_next_index w}. length (chunks ! i)) =
      length (chunks ! k) + (\<Sum>i \<in> seen - {..<ow_next_index w}. length (chunks ! i))"
    using k(2) fin by simp
  have "(\<Sum>i \<in> insert k seen - {..<ow_next_index w}. length (chunks ! i)) \<le> length (concat chunks)"
    using inv k by (intro waiting_bytes_le) (auto simp: ordered_writes_def)
  with sum len(2) inv have bytes: "current_bytes (ow_watermark ?w) =
      (\<Sum>i \<in> insert k seen - {..<ow_next_index w}. length (chunks ! i))"
    by (simp add: ordered_writes_def add_bytes_def saturating_add_def Let_def)
  have ins: "ordered_writes chunks (insert k seen) ?w"
    using inv k le bytes by (auto simp: ordered_writes_def distinct_update update_conv')
  have "length (ow_pending ?w) + ow_next_index w = Suc (card seen)"
    using pending_count [OF ins] k(2) fin by simp
  then have window: "length (ow_pending ?w) > ow_max_reorder_items w \<longleftrightarrow>
      \<not> card seen < ow_next_index w + ow_max_reorder_items w" by linarith
  show ?thesis
    using window fresh write_ready_ok [OF ins len(1)] by (auto simp: write_chunk_def Let_def invalid_fmt_def)
qed

section \<open>Any order\<close>

text \<open>The chunks arrive in the order of a list of indices.\<close>

definition arrivals :: "bytes list \<Rightarrow> nat list \<Rightarrow> (nat \<times> bytes) list" where
  "arrivals chunks order = map (\<lambda>k. (k, chunks ! k)) order"

lemma first_missing:
  assumes "{..<n} \<subseteq> seen" and "n \<notin> seen"
  shows "(\<forall>k. k + m \<le> c \<longrightarrow> k \<in> seen) \<longleftrightarrow> c < n + (m :: nat)"
proof
  assume "\<forall>k. k + m \<le> c \<longrightarrow> k \<in> seen"
  then show "c < n + m" using assms(2) by (meson not_less)
next
  assume "c < n + m"
  then show "\<forall>k. k + m \<le> c \<longrightarrow> k \<in> seen" using assms(1) by (auto simp: subset_eq)
qed

lemma write_chunks_ok:
  assumes "ordered_writes chunks seen w" and "ow_next_index w \<notin> seen" and "distinct order"
    and "set order \<inter> seen = {}" and "set order \<subseteq> {..<length chunks}" and "length chunks \<le> u64_max"
    and "length (concat chunks) \<le> u64_max"
  shows "(case write_chunks (arrivals chunks order) w of
      (Inr u, w') \<Rightarrow> ordered_writes chunks (seen \<union> set order) w' \<and> ow_next_index w' \<notin> seen \<union> set order
    | (Inl e, w') \<Rightarrow> \<exists>n. ow_writer w' = concat (take n chunks)) \<and>
    ((\<exists>w'. write_chunks (arrivals chunks order) w = (Inr (), w')) \<longleftrightarrow>
      (\<forall>t < length order. \<forall>k. k + ow_max_reorder_items w \<le> card seen + t \<longrightarrow> k \<in> seen \<union> set (take t order)))"
  using assms
proof (induction order arbitrary: seen w)
  case (Cons k order)
  have fin: "finite seen" using Cons.prems(1) by (auto simp: ordered_writes_def intro: finite_subset)
  have missing: "(\<forall>i. i + ow_max_reorder_items w \<le> card seen \<longrightarrow> i \<in> seen) \<longleftrightarrow>
      card seen < ow_next_index w + ow_max_reorder_items w"
    using Cons.prems(1,2) by (intro first_missing) (auto simp: ordered_writes_def)
  have step: "(\<forall>t < length (k # order). \<forall>i. i + m \<le> card seen + t \<longrightarrow> i \<in> seen \<union> set (take t (k # order))) \<longleftrightarrow>
      (\<forall>i. i + m \<le> card seen \<longrightarrow> i \<in> seen) \<and>
      (\<forall>t < length order. \<forall>i. i + m \<le> card (insert k seen) + t \<longrightarrow> i \<in> insert k seen \<union> set (take t order))" for m
    using Cons.prems(4) fin by (simp add: All_less_Suc2 disj_commute disj_left_commute insert_iff)
  have k: "k < length chunks" "k \<notin> seen" using Cons.prems by auto
  note one = write_chunk_ok [OF Cons.prems(1,2) k Cons.prems(6,7)]
  show ?case
  proof (cases "card seen < ow_next_index w + ow_max_reorder_items w")
    case False
    then obtain e w' where w': "write_chunk k (chunks ! k) w = (Inl e, w')" "ow_writer w' = ow_writer w"
      using one by auto
    then have eq: "write_chunks (arrivals chunks (k # order)) w = (Inl e, w')" by (simp add: arrivals_def)
    have "\<exists>n. ow_writer w' = concat (take n chunks)" using Cons.prems(1) w'(2) by (auto simp: ordered_writes_def)
    then show ?thesis unfolding eq step missing using False by simp
  next
    case True
    then obtain w' where w': "write_chunk k (chunks ! k) w = (Inr (), w')" "ordered_writes chunks (insert k seen) w'"
      "ow_next_index w' \<notin> insert k seen" "ow_max_reorder_items w' = ow_max_reorder_items w"
      using one by auto
    have eq: "write_chunks (arrivals chunks (k # order)) w = write_chunks (arrivals chunks order) w'"
      by (simp add: arrivals_def w'(1))
    have "set order \<inter> insert k seen = {}" "distinct order" "set order \<subseteq> {..<length chunks}"
      using Cons.prems(3,4,5) by auto
    note IH = Cons.IH [OF w'(2,3) this(2,1,3) Cons.prems(6,7)]
    have sets: "seen \<union> set (k # order) = insert k seen \<union> set order" by simp
    show ?thesis unfolding eq step missing sets using IH True w'(4) by simp
  qed
qed (auto simp: arrivals_def)

text \<open>
  C38. The ordered writer: chunks handed over in any order (\<open>order\<close> is a permutation of their
  indices) come out concatenated in the order of their indices, and nothing stays accounted
  as pending; this succeeds exactly when every chunk \<open>k\<close> is among the first
  \<open>k + max_reorder_items\<close> arrivals.  When it fails, what was written is a prefix of the output.
\<close>

theorem ordered_writer_any_order:
  assumes "chunk_writer_new max_reorder_items = Inr w" and "mset order = mset [0..<length chunks]"
    and "length chunks \<le> u64_max" and "length (concat chunks) \<le> u64_max"
  shows "case write_chunks (arrivals chunks order) w of
      (Inr u, w') \<Rightarrow> chunk_writer_finish w' = Inr (concat chunks) \<and> current_bytes (ow_watermark w') = 0 \<and>
        (\<forall>t < length chunks. \<forall>k. k + max_reorder_items \<le> t \<longrightarrow> k \<in> set (take t order))
    | (Inl e, w') \<Rightarrow> (\<exists>n. ow_writer w' = concat (take n chunks)) \<and>
        \<not> (\<forall>t < length chunks. \<forall>k. k + max_reorder_items \<le> t \<longrightarrow> k \<in> set (take t order))"
proof -
  have ord: "distinct order" "set order = {..<length chunks}" "length order = length chunks"
    using assms(2) mset_eq_imp_distinct_iff [OF assms(2)] mset_eq_setD [OF assms(2)] mset_eq_length [OF assms(2)]
    by (auto simp: lessThan_atLeast0)
  note start = ordered_writes_start [OF assms(1), of chunks]
  have all: "(case write_chunks (arrivals chunks order) w of
      (Inr u, w') \<Rightarrow> ordered_writes chunks ({} \<union> set order) w' \<and> ow_next_index w' \<notin> {} \<union> set order
    | (Inl e, w') \<Rightarrow> \<exists>n. ow_writer w' = concat (take n chunks)) \<and>
    ((\<exists>w'. write_chunks (arrivals chunks order) w = (Inr (), w')) \<longleftrightarrow>
      (\<forall>t < length order. \<forall>k. k + ow_max_reorder_items w \<le> card ({} :: nat set) + t \<longrightarrow> k \<in> {} \<union> set (take t order)))"
    using start ord assms(3,4) by (intro write_chunks_ok) auto
  have all_written: "chunk_writer_finish w' = Inr (concat chunks) \<and> current_bytes (ow_watermark w') = 0"
    if "ordered_writes chunks {..<length chunks} w'" "ow_next_index w' \<notin> {..<length chunks}" for w'
  proof -
    from that have "ow_next_index w' = length chunks" using ordered_writes_next [OF that(1)] by simp
    with that(1) pending_count [OF that(1)] show ?thesis by (simp add: chunk_writer_finish_def ordered_writes_def)
  qed
  obtain r w' where res: "write_chunks (arrivals chunks order) w = (r, w')" by fastforce
  show ?thesis using all all_written start ord(2,3) by (cases r) (auto simp: res)
qed

definition sample_chunks :: "bytes list" where
  "sample_chunks = [[1, 2], [3], [4, 5, 6]]"

theorem ordered_writer_any_order_witness:
  "\<exists>w. chunk_writer_new 2 = Inr w \<and>
    map_prod id chunk_writer_finish (write_chunks (arrivals sample_chunks [1, 0, 2]) w) = (Inr (), Inr [1, 2, 3, 4, 5, 6])"
proof -
  obtain w where w: "chunk_writer_new 2 = Inr w" by (simp add: chunk_writer_new_def)
  have early: "\<forall>t < length sample_chunks. \<forall>k. k + 2 \<le> t \<longrightarrow> k \<in> set (take t [1, 0, 2 :: nat])"
    by (auto simp: sample_chunks_def less_Suc_eq numeral_3_eq_3 numeral_2_eq_2)
  have "mset [1, 0, 2] = mset [0..<length sample_chunks]"
    by (simp add: sample_chunks_def upt_rec )
  from ordered_writer_any_order [OF w this] early w show ?thesis
    by (auto simp: sample_chunks_def u64_max_def split: prod.splits sum.splits)
qed

end
