(* ===== verification/Apsgba.thy ===== *)
theory Apsgba
  imports Record_Formats Readers
begin

text \<open>
  The APS format of the Game Boy Advance, \<open>rom-weaver-patches/src/apsgba.rs\<close>: the sizes of
  source and target, then records of an offset, the CRC-16 of the source block and of the
  target block there, and the XOR of the two 64 KiB blocks.
\<close>

section \<open>Data\<close>

definition APS_GBA_MAGIC :: bytes where
  "APS_GBA_MAGIC = map of_char ''APS1''"

definition APS_GBA_HEADER_SIZE :: nat where
  "APS_GBA_HEADER_SIZE = 12"

definition APS_GBA_BLOCK_SIZE :: nat where
  "APS_GBA_BLOCK_SIZE = 65536"

definition APS_GBA_RECORD_SIZE :: nat where
  "APS_GBA_RECORD_SIZE = 4 + 2 + 2 + APS_GBA_BLOCK_SIZE"

definition APS_GBA_IO_BUFFER_SIZE :: nat where
  "APS_GBA_IO_BUFFER_SIZE = 64 * 1024"

record apsgba_record =
  gr_offset :: nat
  gr_source_crc16 :: u16
  gr_target_crc16 :: u16
  gr_xor_bytes :: bytes

record parsed_apsgba =
  gp_source_size :: nat
  gp_target_size :: nat
  gp_records :: "apsgba_record list"

record created_apsgba =
  gc_bytes :: bytes
  gc_record_count :: nat

section \<open>Parsing\<close>

text \<open>\<open>read_u32_le\<close> of a slice.\<close>

definition apsgba_read_u32_le :: "bytes \<Rightarrow> nat \<Rightarrow> nat result" where
  "apsgba_read_u32_le bs offset =
     and_then (ok_or (checked_add_opt offset 4) (invalid ''APSGBA u32 offset overflowed'')) (\<lambda>stop.
     if stop > length bs then invalid ''APSGBA patch ended unexpectedly while reading u32''
     else Inr (from_le (segment bs offset 4)))"

definition read_apsgba_record :: "labeled_parser \<Rightarrow> (apsgba_record \<times> labeled_parser) result" where
  "read_apsgba_record parser =
     and_then (labeled_read_u32_le ''APSGBA record offset'' parser) (\<lambda>(offset, parser).
     and_then (labeled_read_u16_le ''APSGBA source crc16'' parser) (\<lambda>(source_crc16, parser).
     and_then (labeled_read_u16_le ''APSGBA target crc16'' parser) (\<lambda>(target_crc16, parser).
     and_then (labeled_read_exact ''APSGBA xor payload'' parser APS_GBA_BLOCK_SIZE) (\<lambda>(xor_bytes, parser).
     Inr (\<lparr>gr_offset = offset, gr_source_crc16 = word_of_nat source_crc16,
           gr_target_crc16 = word_of_nat target_crc16, gr_xor_bytes = xor_bytes\<rparr>, parser)))))"

definition parse_apsgba_file :: "bytes \<Rightarrow> parsed_apsgba result" where
  "parse_apsgba_file f =
     (if length f < APS_GBA_HEADER_SIZE
      then invalid ''APSGBA patch is too small to contain a valid header''
      else if length f < APS_GBA_HEADER_SIZE + APS_GBA_RECORD_SIZE
      then invalid ''APSGBA patch is too small to contain at least one record''
      else
        let payload_len = length f - APS_GBA_HEADER_SIZE
        in if payload_len mod APS_GBA_RECORD_SIZE \<noteq> 0
           then invalid ''APSGBA patch has an invalid record payload length''
           else
             and_then (labeled_read_exact ''APSGBA header''
                         (labeled_new f (length f) ''APSGBA'' ''addressable range'') APS_GBA_HEADER_SIZE)
               (\<lambda>(header, parser).
             if take (length APS_GBA_MAGIC) header \<noteq> APS_GBA_MAGIC
             then coded ''APS_GBA_HEADER_INVALID'' ''Patch header invalid'' []
             else
               and_then (apsgba_read_u32_le header 4) (\<lambda>source_len.
               and_then (apsgba_read_u32_le header 8) (\<lambda>target_len.
               and_then (read_records read_apsgba_record (payload_len div APS_GBA_RECORD_SIZE) parser)
                 (\<lambda>(records, parser).
               if labeled_remaining parser \<noteq> 0
               then invalid ''APSGBA patch contained unexpected trailing data''
               else Inr \<lparr>gp_source_size = source_len, gp_target_size = target_len, gp_records = records\<rparr>)))))"

definition apsgba_parse :: "stored_file \<Rightarrow> report result" where
  "apsgba_parse patch_file =
     and_then (parse_apsgba_file (file_bytes patch_file)) (\<lambda>patch.
     Inr (attach_patch_endpoints
       [endpoint_variant_new (sized_side (gp_source_size patch)) (sized_side (gp_target_size patch))]
       (patch_success_report ''APSGBA'' ''parse''
          [Msg ''parsed {} patch with {} record(s); source size {}; target size {}; per-block source/target crc16 present''
             [Str ''APSGBA'', Num (length (gp_records patch)), Num (gp_source_size patch), Num (gp_target_size patch)]]
          None)))"

section \<open>Applying\<close>

definition apsgba_check :: "bool \<Rightarrow> string \<Rightarrow> nat \<Rightarrow> u16 \<Rightarrow> bytes \<Rightarrow> unit result" where
  "apsgba_check validate_checksums side offset expected bs =
     (if validate_checksums \<and> crc16_ccitt_bytes bs \<noteq> expected
      then coded ''patch.checksum_mismatch'' ''{} checksum invalid at offset {}; expected: {}, Actual: {}''
             [Str side, Num offset, Hex (unat expected), Hex (unat (crc16_ccitt_bytes bs))]
      else Inr ())"

text \<open>
  In memory, byte by byte into the output; a range that starts past the end of a slice is the
  empty slice of \<open>unwrap_or_default\<close>.
\<close>

definition apsgba_memory_record :: "bool \<Rightarrow> bytes \<Rightarrow> apsgba_record \<Rightarrow> bytes \<Rightarrow> bytes result" where
  "apsgba_memory_record validate_checksums source r out =
     (let offset = gr_offset r;
          source_n = min (length source - offset) APS_GBA_BLOCK_SIZE;
          write_n = min (length out - offset) APS_GBA_BLOCK_SIZE
      in and_then (apsgba_check validate_checksums ''Source'' offset (gr_source_crc16 r) (segment source offset source_n))
           (\<lambda>_.
         let out = fold (\<lambda>index out. out[offset + index :=
               (if index < source_n then source ! (offset + index) else 0) XOR (gr_xor_bytes r ! index)]) [0..<write_n] out
         in and_then (apsgba_check validate_checksums ''Target'' offset (gr_target_crc16 r) (segment out offset write_n))
              (\<lambda>_. Inr out)))"

definition apply_apsgba_patch_in_memory :: "bool \<Rightarrow> bytes \<Rightarrow> apsgba_record list \<Rightarrow> bytes \<Rightarrow> bytes result" where
  "apply_apsgba_patch_in_memory validate_checksums source =
     fold_result (apsgba_memory_record validate_checksums source)"

text \<open>In place, block by block; \<open>read_at_most\<close> fills as much of the buffer as the file has.\<close>

definition apsgba_place_record :: "bool \<Rightarrow> bytes \<Rightarrow> nat \<Rightarrow> apsgba_record \<Rightarrow> bytes \<Rightarrow> bytes result" where
  "apsgba_place_record validate_checksums source output_len r out =
     (let offset = gr_offset r;
          source_block = segment source offset APS_GBA_BLOCK_SIZE
      in and_then (apsgba_check validate_checksums ''Source'' offset (gr_source_crc16 r) source_block) (\<lambda>_.
         let write_n = min (output_len - offset) APS_GBA_BLOCK_SIZE;
             patched = map (\<lambda>index.
               (if index < length source_block then source_block ! index else 0) XOR (gr_xor_bytes r ! index)) [0..<write_n];
             out = (if write_n > 0 then write_at offset patched out else out)
         in and_then (apsgba_check validate_checksums ''Target'' offset (gr_target_crc16 r) patched) (\<lambda>_. Inr out)))"

definition apply_apsgba_patch_in_place ::
  "bool \<Rightarrow> bytes \<Rightarrow> nat \<Rightarrow> apsgba_record list \<Rightarrow> bytes \<Rightarrow> bytes result" where
  "apply_apsgba_patch_in_place validate_checksums source output_len =
     fold_result (apsgba_place_record validate_checksums source output_len)"

definition prepare_apsgba_write :: "bool \<Rightarrow> bytes \<Rightarrow> nat \<Rightarrow> apsgba_record \<Rightarrow> prepared_write result" where
  "prepare_apsgba_write validate_checksums source output_len r =
     (let offset = gr_offset r;
          source_read_len = (if offset \<ge> length source then 0 else min (length source - offset) APS_GBA_BLOCK_SIZE)
      in and_then (if source_read_len > 0 then read_exact_at source offset source_read_len else Inr [])
           (\<lambda>source_block.
         and_then (apsgba_check validate_checksums ''Source'' offset (gr_source_crc16 r) source_block) (\<lambda>_.
         let write_n = min (output_len - offset) APS_GBA_BLOCK_SIZE;
             patched = map (\<lambda>index. byte_at source_block index XOR (gr_xor_bytes r ! index)) [0..<write_n]
         in and_then (apsgba_check validate_checksums ''Target'' offset (gr_target_crc16 r) patched) (\<lambda>_.
            Inr \<lparr>pw_offset = offset, pw_data = patched\<rparr>))))"

definition apply_apsgba_writes_parallel ::
  "nat \<Rightarrow> bool \<Rightarrow> bytes \<Rightarrow> nat \<Rightarrow> apsgba_record list \<Rightarrow> bytes \<Rightarrow> bytes result" where
  "apply_apsgba_writes_parallel pool validate_checksums source output_len =
     apply_batched_writes pool (\<lambda>_. APS_GBA_BLOCK_SIZE)
       (\<lambda>r start stop. prepare_apsgba_write validate_checksums source output_len r)"

definition apsgba_size_invalid :: "nat \<Rightarrow> nat \<Rightarrow> 'a result" where
  "apsgba_size_invalid expected actual =
     invalid_fmt ''APSGBA input size invalid; expected {}, got {}'' [Num expected, Num actual]"

text \<open>The choice of the write path.\<close>

definition apsgba_write_records ::
  "op_context \<Rightarrow> bool \<Rightarrow> bytes \<Rightarrow> parsed_apsgba \<Rightarrow> (thread_execution \<times> bytes) result" where
  "apsgba_write_records ctx validate_checksums source patch =
     (let records = gp_records patch; target_len = gp_target_size patch;
          cap = parallel_per_record_capability (length records)
      in if can_apply_sparse_in_memory ctx (length source) target_len (length records) APSGBA_SPARSE_STREAMING
         then
           let copy_n = min (length source) target_len;
               output_bytes = take copy_n source @ replicate (target_len - copy_n) 0
           in and_then (apply_apsgba_patch_in_memory validate_checksums source records output_bytes) (\<lambda>out.
              Inr (force_serial (plan_threads ctx cap), out))
         else
           let out = set_len target_len source
           in and_then
                (run_with_optional_pool ctx cap True (\<lambda>pool. Inr (Some pool, out))
                   (and_then (apply_apsgba_patch_in_place validate_checksums source target_len records out)
                      (\<lambda>out. Inr (None, out))))
                (\<lambda>(execution, prepared, out).
              and_then (case prepared of
                  Some pool \<Rightarrow> apply_apsgba_writes_parallel pool validate_checksums source target_len records out
                | None \<Rightarrow> Inr out) (\<lambda>out.
              Inr (execution, out))))"

definition apsgba_apply :: "op_context \<Rightarrow> apply_request \<Rightarrow> (bytes \<times> report) result" where
  "apsgba_apply ctx request =
     and_then (require_single_patch_file (ar_patches request) ''APSGBA'') (\<lambda>patch_file.
     and_then (parse_apsgba_file (file_bytes patch_file)) (\<lambda>patch.
     let validate_checksums = scope_source (patch_check_scopes ctx); source = file_bytes (ar_input request)
     in if length source \<noteq> gp_source_size patch then apsgba_size_invalid (gp_source_size patch) (length source)
        else
          and_then (apsgba_write_records ctx validate_checksums source patch) (\<lambda>(execution, out).
          Inr (out, patch_apply_report ''APSGBA'' (length (gp_records patch)) validate_checksums execution))))"

definition apsgba_validate :: "op_context \<Rightarrow> apply_request \<Rightarrow> report result" where
  "apsgba_validate ctx request =
     and_then (require_single_patch_file (ar_patches request) ''APSGBA'') (\<lambda>patch_file.
     and_then (parse_apsgba_file (file_bytes patch_file)) (\<lambda>patch.
     let validate_checksums = scope_source (patch_check_scopes ctx); source = file_bytes (ar_input request)
     in if length source \<noteq> gp_source_size patch then apsgba_size_invalid (gp_source_size patch) (length source)
        else
          and_then (fold_result (\<lambda>r u.
              and_then (prepare_apsgba_write validate_checksums source (gp_target_size patch) r) (\<lambda>_. Inr ()))
            (gp_records patch) ()) (\<lambda>_.
          Inr (patch_validate_report ''APSGBA'' (length (gp_records patch)) validate_checksums
                 (Some (single_thread_execution ctx))))))"

section \<open>Creating\<close>

definition apsgba_create_block_count :: "nat \<Rightarrow> nat result" where
  "apsgba_create_block_count max_len =
     chunk_count_for_len_checked max_len APS_GBA_BLOCK_SIZE
       ''APSGBA create required more blocks than this platform can index''"

definition apsgba_create_thread_capability :: "nat \<Rightarrow> thread_capability result" where
  "apsgba_create_thread_capability max_len =
     and_then (apsgba_create_block_count max_len) (\<lambda>block_count. Inr (Parallel (Some (max block_count 1))))"

text \<open>
  The record of a block, from the bytes of both files in it; both create paths share the
  loop that fills \<open>xor_bytes\<close>.
\<close>

definition apsgba_xor_block :: "bytes \<Rightarrow> bytes \<Rightarrow> bytes" where
  "apsgba_xor_block source_block target_block =
     map (\<lambda>index. byte_at source_block index XOR byte_at target_block index) [0..<APS_GBA_BLOCK_SIZE]"

definition apsgba_block_record :: "nat \<Rightarrow> bytes \<Rightarrow> bytes \<Rightarrow> apsgba_record option result" where
  "apsgba_block_record offset source_block target_block =
     (let xor_bytes = apsgba_xor_block source_block target_block
      in if \<forall>b \<in> set xor_bytes. b = 0 then Inr None
         else if offset > u32_max then invalid ''APSGBA block offset exceeded 32-bit range''
         else Inr (Some \<lparr>gr_offset = offset, gr_source_crc16 = crc16_ccitt_bytes source_block,
                         gr_target_crc16 = crc16_ccitt_bytes target_block, gr_xor_bytes = xor_bytes\<rparr>))"

definition empty_apsgba_record :: "u16 \<times> u16 \<Rightarrow> apsgba_record" where
  "empty_apsgba_record identity =
     \<lparr>gr_offset = 0, gr_source_crc16 = fst identity, gr_target_crc16 = snd identity,
      gr_xor_bytes = replicate APS_GBA_BLOCK_SIZE 0\<rparr>"

definition encode_apsgba_record :: "apsgba_record \<Rightarrow> bytes" where
  "encode_apsgba_record r =
     le_bytes 4 (gr_offset r) @ le_bytes 2 (unat (gr_source_crc16 r)) @ le_bytes 2 (unat (gr_target_crc16 r)) @
     gr_xor_bytes r"

definition finalize_created_apsgba_patch :: "nat \<Rightarrow> nat \<Rightarrow> apsgba_record list \<Rightarrow> u16 \<times> u16 \<Rightarrow> created_apsgba" where
  "finalize_created_apsgba_patch source_len target_len records identity =
     (let records = (if records = [] then records @ [empty_apsgba_record identity] else records)
      in \<lparr>gc_bytes = APS_GBA_MAGIC @ le_bytes 4 source_len @ le_bytes 4 target_len @
             concat (map encode_apsgba_record records),
          gc_record_count = length records\<rparr>)"

definition apsgba_sizes_fit :: "bytes \<Rightarrow> bytes \<Rightarrow> unit result" where
  "apsgba_sizes_fit source target =
     (if length source > u32_max then invalid ''APSGBA source size exceeded 32-bit header range''
      else if length target > u32_max then invalid ''APSGBA target size exceeded 32-bit header range''
      else Inr ())"

text \<open>One turn of the streaming loop: the unread bytes of both files, the checksums of the first block, the records.\<close>

type_synonym apsgba_stream = "bytes \<times> bytes \<times> (u16 \<times> u16) \<times> apsgba_record list"

definition apsgba_stream_block :: "nat \<Rightarrow> apsgba_stream \<Rightarrow> apsgba_stream result" where
  "apsgba_stream_block block_index st =
     (let (source_rdr, target_rdr, identity, records) = st;
          source_n = min (length source_rdr) APS_GBA_IO_BUFFER_SIZE;
          target_n = min (length target_rdr) APS_GBA_IO_BUFFER_SIZE
      in and_then (reader_read_exact source_rdr source_n) (\<lambda>(source_block, source_rdr).
         and_then (reader_read_exact target_rdr target_n) (\<lambda>(target_block, target_rdr).
         let identity = (if block_index = 0
               then (crc16_ccitt_bytes source_block, crc16_ccitt_bytes target_block) else identity)
         in and_then (apsgba_block_record (block_index * APS_GBA_BLOCK_SIZE) source_block target_block) (\<lambda>r.
            Inr (source_rdr, target_rdr, identity, records @ (case r of None \<Rightarrow> [] | Some r \<Rightarrow> [r]))))))"

definition create_apsgba_patch_streaming :: "bytes \<Rightarrow> bytes \<Rightarrow> created_apsgba result" where
  "create_apsgba_patch_streaming source target =
     and_then (apsgba_sizes_fit source target) (\<lambda>_.
     and_then
       (fold_result apsgba_stream_block [0..<div_ceil (max (length source) (length target)) APS_GBA_BLOCK_SIZE]
          (source, target, (crc16_ccitt_bytes [], crc16_ccitt_bytes []), []))
       (\<lambda>(_, _, identity, records).
     Inr (finalize_created_apsgba_patch (length source) (length target) records identity)))"

definition read_apsgba_block :: "bytes \<Rightarrow> nat \<Rightarrow> bytes result" where
  "read_apsgba_block f offset =
     (if offset \<ge> length f then Inr []
      else
        let n = min (length f - offset) APS_GBA_BLOCK_SIZE
        in if n > 0 then read_exact_at f offset n else Inr [])"

definition create_apsgba_record_for_block :: "bytes \<Rightarrow> bytes \<Rightarrow> nat \<Rightarrow> apsgba_record option result" where
  "create_apsgba_record_for_block source target block_index =
     and_then (ok_or (checked_mul_opt block_index APS_GBA_BLOCK_SIZE) (invalid ''APSGBA block offset overflowed''))
       (\<lambda>offset.
     and_then (read_apsgba_block source offset) (\<lambda>source_block.
     and_then (read_apsgba_block target offset) (\<lambda>target_block.
     apsgba_block_record offset source_block target_block)))"

definition create_apsgba_patch_parallel :: "bytes \<Rightarrow> bytes \<Rightarrow> created_apsgba result" where
  "create_apsgba_patch_parallel source target =
     and_then (apsgba_sizes_fit source target) (\<lambda>_.
     and_then (apsgba_create_block_count (max (length source) (length target))) (\<lambda>block_count.
     and_then (map_result (create_apsgba_record_for_block source target) [0..<block_count]) (\<lambda>records.
     let records = concat (map (\<lambda>r. case r of None \<Rightarrow> [] | Some r \<Rightarrow> [r]) records)
     in and_then
          (if records = []
           then and_then (read_apsgba_block source 0) (\<lambda>source_block.
                and_then (read_apsgba_block target 0) (\<lambda>target_block.
                Inr (crc16_ccitt_bytes source_block, crc16_ccitt_bytes target_block)))
           else Inr (crc16_ccitt_bytes [], crc16_ccitt_bytes [])) (\<lambda>identity.
        Inr (finalize_created_apsgba_patch (length source) (length target) records identity)))))"

definition apsgba_create :: "op_context \<Rightarrow> create_request \<Rightarrow> (bytes \<times> report) result" where
  "apsgba_create ctx request =
     (let source = file_bytes (cr_original request); target = file_bytes (cr_modified request)
      in and_then (apsgba_create_thread_capability (max (length source) (length target))) (\<lambda>cap.
         and_then
           (run_with_optional_pool ctx cap True
              (\<lambda>pool. create_apsgba_patch_parallel source target)
              (create_apsgba_patch_streaming source target)) (\<lambda>(execution, created).
         Inr (gc_bytes created, patch_create_report ''APSGBA'' (gc_record_count created) execution))))"

end
