(* ===== verification/Apsgba_Correct.thy ===== *)
theory Apsgba_Correct
  imports Apsgba
begin

text \<open>
  Correctness of the APS format of the Game Boy Advance: the three write paths have the
  outcome of preparing every record as a whole and writing them in order, both create paths
  make the same records, and a created patch turns its source into its target.
\<close>

section \<open>Applying\<close>

text \<open>The bytes a record writes, and the record as one prepared write.\<close>

definition apsgba_data :: "bytes \<Rightarrow> nat \<Rightarrow> apsgba_record \<Rightarrow> bytes" where
  "apsgba_data source n r =
     map (\<lambda>i. byte_at source (gr_offset r + i) XOR (gr_xor_bytes r ! i)) [0..<min (n - gr_offset r) APS_GBA_BLOCK_SIZE]"

definition apsgba_whole :: "bool \<Rightarrow> bytes \<Rightarrow> nat \<Rightarrow> apsgba_record \<Rightarrow> prepared_write result" where
  "apsgba_whole v source n r =
     and_then (apsgba_check v ''Source'' (gr_offset r) (gr_source_crc16 r) (segment source (gr_offset r) APS_GBA_BLOCK_SIZE))
       (\<lambda>_. and_then (apsgba_check v ''Target'' (gr_offset r) (gr_target_crc16 r) (apsgba_data source n r))
       (\<lambda>_. Inr \<lparr>pw_offset = gr_offset r, pw_data = apsgba_data source n r\<rparr>))"

lemma segment_min [simp]: "segment f off (min (length f - off) n) = segment f off n"
  by (cases "length f - off \<le> n") (simp_all add: segment_def)

lemma length_apsgba_data [simp]: "length (apsgba_data source n r) = min (n - gr_offset r) APS_GBA_BLOCK_SIZE"
  by (simp add: apsgba_data_def)

lemma apsgba_data_nth:
  "i < n - gr_offset r \<Longrightarrow> i < APS_GBA_BLOCK_SIZE \<Longrightarrow>
   apsgba_data source n r ! i = byte_at source (gr_offset r + i) XOR (gr_xor_bytes r ! i)"
  by (simp add: apsgba_data_def)

lemma prepare_apsgba_whole:
  assumes "length source \<le> u64_max"
  shows "prepare_apsgba_write v source n r = apsgba_whole v source n r"
proof -
  let ?off = "gr_offset r"
  let ?n = "if ?off \<ge> length source then 0 else min (length source - ?off) APS_GBA_BLOCK_SIZE"
  have rd: "(if ?n > 0 then read_exact_at source ?off ?n else Inr []) = Inr (segment source ?off APS_GBA_BLOCK_SIZE)"
    using assms by (auto simp: read_exact_at_def APS_GBA_BLOCK_SIZE_def) (simp_all add: segment_def)
  have data: "map (\<lambda>index. byte_at (segment source ?off APS_GBA_BLOCK_SIZE) index XOR gr_xor_bytes r ! index)
      [0..<min (n - ?off) APS_GBA_BLOCK_SIZE] = apsgba_data source n r"
    by (auto simp: apsgba_data_def byte_at_segment)
  show ?thesis
    unfolding prepare_apsgba_write_def Let_def rd and_then_simps data apsgba_whole_def ..
qed

lemma apsgba_place_whole: "apsgba_place_record v source n = write_record (apsgba_whole v source n)"
proof (intro ext)
  fix r :: apsgba_record and out
  let ?block = "segment source (gr_offset r) APS_GBA_BLOCK_SIZE"
  have data: "map (\<lambda>index. (if index < length ?block then ?block ! index else 0) XOR gr_xor_bytes r ! index)
      [0..<min (n - gr_offset r) APS_GBA_BLOCK_SIZE] = apsgba_data source n r"
    unfolding apsgba_data_def
  proof (rule map_cong [OF refl])
    fix i
    assume "i \<in> set [0..<min (n - gr_offset r) APS_GBA_BLOCK_SIZE]"
    then have "byte_at ?block i = byte_at source (gr_offset r + i)" by (simp add: byte_at_segment)
    then show "(if i < length ?block then ?block ! i else 0) XOR gr_xor_bytes r ! i =
        byte_at source (gr_offset r + i) XOR gr_xor_bytes r ! i"
      by (simp add: byte_at_def)
  qed
  have "(if min (n - gr_offset r) APS_GBA_BLOCK_SIZE > 0
      then write_at (gr_offset r) (apsgba_data source n r) out else out) = write_at (gr_offset r) (apsgba_data source n r) out"
    by (auto simp: apsgba_data_def)
  then show "apsgba_place_record v source n r out = write_record (apsgba_whole v source n) r out"
    unfolding apsgba_place_record_def Let_def data write_record_def apsgba_whole_def
    by (simp add: and_then_assoc)
qed

lemma fold_update_write:
  "off + n \<le> length out \<Longrightarrow> fold (\<lambda>i out. out[off + i := f i]) [0..<n] out = write_at off (map f [0..<n]) out"
proof (induction n)
  case (Suc n)
  then have "fold (\<lambda>i out. out[off + i := f i]) [0..<Suc n] out = (write_at off (map f [0..<n]) out)[off + n := f n]" by simp
  also have "\<dots> = write_at (off + n) [f n] (write_at off (map f [0..<n]) out)"
    using Suc.prems by (simp add: write_at_inside length_write_at upd_conv_take_nth_drop)
  also have "\<dots> = write_at off (map f [0..<Suc n]) out"
    using write_at_write_at [of "map f [0..<n]" off "[f n]" out] by (cases "n = 0") simp_all
  finally show ?case .
qed simp

lemma segment_write_at: "off + length d \<le> length out \<Longrightarrow> segment (write_at off d out) off (length d) = d"
  by (cases "d = []") (simp_all add: write_at_inside segment_def)

lemma apsgba_memory_whole:
  assumes "length out = n"
  shows "apsgba_memory_record v source r out = write_record (apsgba_whole v source n) r out"
proof -
  let ?off = "gr_offset r" and ?n = "min (n - gr_offset r) APS_GBA_BLOCK_SIZE"
  let ?m = "min (length source - ?off) APS_GBA_BLOCK_SIZE"
  let ?byte = "\<lambda>i. (if i < ?m then source ! (?off + i) else 0) XOR (gr_xor_bytes r ! i)"
  have data: "map ?byte [0..<?n] = apsgba_data source n r"
    by (auto simp: apsgba_data_def byte_at_def)
  have out: "fold (\<lambda>i out. out[?off + i := ?byte i]) [0..<?n] out = write_at ?off (apsgba_data source n r) out"
  proof (cases "?n = 0")
    case True
    then show ?thesis unfolding True by (simp add: apsgba_data_def True)
  next
    case False
    then have "?off + ?n \<le> length out" using assms by auto
    from fold_update_write [OF this, of ?byte] show ?thesis unfolding data .
  qed
  have after: "segment (write_at ?off (apsgba_data source n r) out) ?off ?n = apsgba_data source n r"
  proof (cases "?n = 0")
    case True
    then show ?thesis unfolding True by (simp add: apsgba_data_def True)
  next
    case False
    then have "?off + length (apsgba_data source n r) \<le> length out" using assms by auto
    from segment_write_at [OF this] show ?thesis by simp
  qed
  show ?thesis
    unfolding apsgba_memory_record_def Let_def assms out after segment_min write_record_def apsgba_whole_def
    by (simp add: and_then_assoc)
qed

lemma write_record_length:
  assumes "length out = n" and "write_record (apsgba_whole v source n) r out = Inr out'"
  shows "length out' = n"
  using assms by (auto simp: write_record_def apsgba_whole_def result_iff length_write_at apsgba_data_def)

lemma apsgba_in_memory:
  "length out = n \<Longrightarrow> apply_apsgba_patch_in_memory v source rs out = fold_result (write_record (apsgba_whole v source n)) rs out"
proof (induction rs arbitrary: out)
  case (Cons r rs)
  show ?case
  proof (cases "write_record (apsgba_whole v source n) r out")
    case (Inr out')
    from write_record_length [OF Cons.prems this] Cons.IH Inr Cons.prems show ?thesis
      by (simp add: apply_apsgba_patch_in_memory_def apsgba_memory_whole)
  qed (use Cons.prems in \<open>simp add: apply_apsgba_patch_in_memory_def apsgba_memory_whole\<close>)
qed (simp add: apply_apsgba_patch_in_memory_def)

lemma block_ranges: "write_ranges APS_GBA_BLOCK_SIZE = [(0, APS_GBA_BLOCK_SIZE)]"
  by (simp add: write_ranges_def APS_GBA_BLOCK_SIZE_def div_ceil_def parallel_write_chunk_bytes_def saturating_add_def
      u64_max_def Let_def)

interpretation apsgba_writer: range_writer "\<lambda>_. APS_GBA_BLOCK_SIZE"
  "\<lambda>r start stop. prepare_apsgba_write v source n r" "prepare_apsgba_write v source n" for v source n
proof
  fix r w
  assume "prepare_apsgba_write v source n r = Inr w"
  then show "\<exists>ws. map_result (\<lambda>(start, stop). prepare_apsgba_write v source n r) (write_ranges APS_GBA_BLOCK_SIZE) = Inr ws \<and>
      (\<forall>f. apply_prepared_writes f ws = apply_prepared_writes f [w])"
    by (simp add: block_ranges)
next
  fix r e
  assume "prepare_apsgba_write v source n r = Inl e"
  then show "\<not> is_ok (map_result (\<lambda>(start, stop). prepare_apsgba_write v source n r) (write_ranges APS_GBA_BLOCK_SIZE))"
    by (simp add: block_ranges)
qed

text \<open>When the checksums of a record agree, and what an apply writes.\<close>

definition apsgba_record_ok :: "bool \<Rightarrow> bytes \<Rightarrow> nat \<Rightarrow> apsgba_record \<Rightarrow> bool" where
  "apsgba_record_ok v source n r \<longleftrightarrow> (v \<longrightarrow>
     crc16_ccitt_bytes (segment source (gr_offset r) APS_GBA_BLOCK_SIZE) = gr_source_crc16 r \<and>
     crc16_ccitt_bytes (apsgba_data source n r) = gr_target_crc16 r)"

definition apsgba_write :: "bytes \<Rightarrow> nat \<Rightarrow> apsgba_record \<Rightarrow> prepared_write" where
  "apsgba_write source n r = \<lparr>pw_offset = gr_offset r, pw_data = apsgba_data source n r\<rparr>"

definition apsgba_output :: "bytes \<Rightarrow> nat \<Rightarrow> apsgba_record list \<Rightarrow> bytes" where
  "apsgba_output source n rs = apply_prepared_writes (pad_to n source) (map (apsgba_write source n) rs)"

lemma apsgba_whole_Ok_iff:
  "apsgba_whole v source n r = Inr w \<longleftrightarrow> apsgba_record_ok v source n r \<and> w = apsgba_write source n r"
  by (auto simp: apsgba_whole_def apsgba_check_def apsgba_record_ok_def apsgba_write_def)

lemma apsgba_wholes_Ok_iff:
  "map_result (apsgba_whole v source n) rs = Inr ws \<longleftrightarrow>
    (\<forall>r \<in> set rs. apsgba_record_ok v source n r) \<and> ws = map (apsgba_write source n) rs"
  by (induction rs arbitrary: ws) (auto simp: result_iff apsgba_whole_Ok_iff)

lemma apsgba_write_records_ok:
  assumes "length source \<le> u64_max"
  shows "(\<exists>e. apsgba_write_records ctx v source patch = Inr (e, out)) \<longleftrightarrow>
    (\<forall>r \<in> set (gp_records patch). apsgba_record_ok v source (gp_target_size patch) r) \<and>
    out = apsgba_output source (gp_target_size patch) (gp_records patch)"
proof -
  let ?n = "gp_target_size patch" and ?rs = "gp_records patch"
  let ?W = "and_then (map_result (apsgba_whole v source ?n) ?rs) (\<lambda>ws. Inr (apply_prepared_writes (pad_to ?n source) ws))"
  have W: "?W = Inr out \<longleftrightarrow> (\<forall>r \<in> set ?rs. apsgba_record_ok v source ?n r) \<and> out = apsgba_output source ?n ?rs"
    by (auto simp: result_iff apsgba_wholes_Ok_iff apsgba_output_def)
  have place: "same_outcome (apply_apsgba_patch_in_place v source ?n ?rs (pad_to ?n source)) ?W"
    unfolding apply_apsgba_patch_in_place_def apsgba_place_whole by (rule write_records_outcome)
  have par: "same_outcome (apply_apsgba_writes_parallel pool v source ?n ?rs (pad_to ?n source)) ?W" for pool
    unfolding apply_apsgba_writes_parallel_def
    using apsgba_writer.batched_as_whole [where source = source and n = ?n and v = v]
    unfolding prepare_apsgba_whole [OF assms] .
  have mem: "same_outcome (apply_apsgba_patch_in_memory v source ?rs (pad_to ?n source)) ?W"
    unfolding apsgba_in_memory [OF length_pad_to] by (rule write_records_outcome)
  have copy: "take (min (length source) ?n) source @ replicate (?n - min (length source) ?n) 0 = pad_to ?n source"
    by (auto simp: pad_to_def min_def)
  show ?thesis
  proof (cases "can_apply_sparse_in_memory ctx (length source) ?n (length ?rs) APSGBA_SPARSE_STREAMING")
    case True
    then have "apsgba_write_records ctx v source patch =
        and_then (apply_apsgba_patch_in_memory v source ?rs (pad_to ?n source)) (\<lambda>out.
          Inr (force_serial (plan_threads ctx (parallel_per_record_capability (length ?rs))), out))"
      unfolding apsgba_write_records_def Let_def copy by simp
    then show ?thesis using mem W by (simp add: result_iff same_outcome_def)
  next
    case False
    obtain e where "same_outcome (apsgba_write_records ctx v source patch) (and_then ?W (\<lambda>out. Inr (e, out)))"
      using prepare_then_write [where parallel = "\<lambda>pool. apply_apsgba_writes_parallel pool v source ?n ?rs" and W = ?W
          and k = "\<lambda>e out. Inr (e, out)", OF par place, of ctx "parallel_per_record_capability (length ?rs)" True] False
      unfolding apsgba_write_records_def Let_def by auto
    then have "apsgba_write_records ctx v source patch = Inr (e', out) \<longleftrightarrow> ?W = Inr out \<and> e' = e" for e'
      by (auto simp: same_outcome_def result_iff)
    then show ?thesis unfolding W [symmetric] by simp
  qed
qed

lemma apsgba_apply_ok_iff:
  assumes "file_len inp \<le> u64_max"
  shows "(\<exists>rep. apsgba_apply ctx \<lparr>ar_input = inp, ar_patches = ps, ar_output = path\<rparr> = Inr (out, rep)) \<longleftrightarrow>
    (\<exists>pf patch. ps = [pf] \<and> parse_apsgba_file (file_bytes pf) = Inr patch \<and> file_len inp = gp_source_size patch \<and>
       (\<forall>r \<in> set (gp_records patch).
          apsgba_record_ok (scope_source (patch_check_scopes ctx)) (file_bytes inp) (gp_target_size patch) r) \<and>
       out = apsgba_output (file_bytes inp) (gp_target_size patch) (gp_records patch))"
  using apsgba_write_records_ok [OF assms, of ctx "scope_source (patch_check_scopes ctx)" _ out]
  by (auto simp: apsgba_apply_def Let_def result_iff single_patch_cases apsgba_size_invalid_def split: if_splits) blast+

text \<open>The bytes of the output: the last record that covers an offset decides.\<close>

definition apsgba_covers :: "nat \<Rightarrow> apsgba_record \<Rightarrow> bool" where
  "apsgba_covers i r \<longleftrightarrow> gr_offset r \<le> i \<and> i < gr_offset r + APS_GBA_BLOCK_SIZE"

definition apsgba_byte :: "bytes \<Rightarrow> apsgba_record list \<Rightarrow> nat \<Rightarrow> u8" where
  "apsgba_byte source rs i =
     (case find (apsgba_covers i) (rev rs) of
        None \<Rightarrow> byte_at source i
      | Some r \<Rightarrow> byte_at source i XOR (gr_xor_bytes r ! (i - gr_offset r)))"

lemma length_apsgba_output [simp]: "length (apsgba_output source n rs) = n"
proof -
  have "length (apply_prepared_writes f (map (apsgba_write source n) rs)) = n" if "length f = n" for f
    using that
  proof (induction rs arbitrary: f)
    case (Cons r rs)
    have "length (write_at (gr_offset r) (apsgba_data source n r) f) = n"
      using Cons.prems by (auto simp: length_write_at apsgba_data_def)
    with Cons.IH show ?case by (simp add: apsgba_write_def)
  qed simp
  then show ?thesis by (simp add: apsgba_output_def)
qed


lemma apsgba_byte_snoc:
  "apsgba_byte source (rs @ [r]) i =
    (if apsgba_covers i r then byte_at source i XOR (gr_xor_bytes r ! (i - gr_offset r)) else apsgba_byte source rs i)"
  by (simp add: apsgba_byte_def)

lemma byte_at_apsgba_output:
  assumes "i < n"
  shows "byte_at (apsgba_output source n rs) i = apsgba_byte source rs i"
proof (induction rs rule: rev_induct)
  case Nil
  then show ?case using assms by (simp add: apsgba_output_def apsgba_byte_def byte_at_pad_to)
next
  case (snoc r rs)
  have "byte_at (apsgba_output source n (rs @ [r])) i =
      byte_at (write_at (gr_offset r) (apsgba_data source n r) (apsgba_output source n rs)) i"
    by (simp add: apsgba_output_def apply_prepared_writes_append apsgba_write_def)
  also have "\<dots> = (if apsgba_covers i r then byte_at source i XOR (gr_xor_bytes r ! (i - gr_offset r))
      else byte_at (apsgba_output source n rs) i)"
    using assms apsgba_data_nth [of "i - gr_offset r" n r source] by (auto simp: byte_at_write_at apsgba_covers_def)
  finally show ?case by (simp add: apsgba_byte_snoc snoc)
qed

section \<open>Creating\<close>

definition apsgba_block :: "bytes \<Rightarrow> bytes \<Rightarrow> nat \<Rightarrow> apsgba_record list" where
  "apsgba_block s t k =
     (let sb = segment s (k * APS_GBA_BLOCK_SIZE) APS_GBA_BLOCK_SIZE;
          tb = segment t (k * APS_GBA_BLOCK_SIZE) APS_GBA_BLOCK_SIZE;
          xor_bytes = apsgba_xor_block sb tb
      in if \<forall>b \<in> set xor_bytes. b = 0 then []
         else [\<lparr>gr_offset = k * APS_GBA_BLOCK_SIZE, gr_source_crc16 = crc16_ccitt_bytes sb,
                gr_target_crc16 = crc16_ccitt_bytes tb, gr_xor_bytes = xor_bytes\<rparr>])"

definition apsgba_blocks :: "bytes \<Rightarrow> bytes \<Rightarrow> apsgba_record list" where
  "apsgba_blocks s t =
     concat (map (apsgba_block s t) [0..<div_ceil (max (length s) (length t)) APS_GBA_BLOCK_SIZE])"

definition apsgba_identity :: "bytes \<Rightarrow> bytes \<Rightarrow> u16 \<times> u16" where
  "apsgba_identity s t =
     (crc16_ccitt_bytes (segment s 0 APS_GBA_BLOCK_SIZE), crc16_ccitt_bytes (segment t 0 APS_GBA_BLOCK_SIZE))"

definition apsgba_created_records :: "bytes \<Rightarrow> bytes \<Rightarrow> apsgba_record list" where
  "apsgba_created_records s t =
     (if apsgba_blocks s t = [] then [empty_apsgba_record (apsgba_identity s t)] else apsgba_blocks s t)"

definition apsgba_created :: "bytes \<Rightarrow> bytes \<Rightarrow> created_apsgba" where
  "apsgba_created s t =
     \<lparr>gc_bytes = APS_GBA_MAGIC @ le_bytes 4 (length s) @ le_bytes 4 (length t) @
        concat (map encode_apsgba_record (apsgba_created_records s t)),
      gc_record_count = length (apsgba_created_records s t)\<rparr>"

lemma block_size_pos [simp]: "0 < APS_GBA_BLOCK_SIZE"
  by (simp add: APS_GBA_BLOCK_SIZE_def)

lemma apsgba_finalize:
  "apsgba_blocks s t = [] \<longrightarrow> identity = apsgba_identity s t \<Longrightarrow>
   finalize_created_apsgba_patch (length s) (length t) (apsgba_blocks s t) identity = apsgba_created s t"
  by (simp add: finalize_created_apsgba_patch_def apsgba_created_def apsgba_created_records_def Let_def)

lemma apsgba_block_record_ok:
  assumes "k * APS_GBA_BLOCK_SIZE \<le> u32_max"
  shows "\<exists>r. apsgba_block_record (k * APS_GBA_BLOCK_SIZE) (segment s (k * APS_GBA_BLOCK_SIZE) APS_GBA_BLOCK_SIZE)
      (segment t (k * APS_GBA_BLOCK_SIZE) APS_GBA_BLOCK_SIZE) = Inr r \<and>
    (case r of None \<Rightarrow> [] | Some r \<Rightarrow> [r]) = apsgba_block s t k"
  using assms by (auto simp: apsgba_block_record_def apsgba_block_def Let_def)

lemma block_offset_u32:
  assumes "k < div_ceil (max (length s) (length t)) APS_GBA_BLOCK_SIZE" and "length s \<le> u32_max" and "length t \<le> u32_max"
  shows "k * APS_GBA_BLOCK_SIZE \<le> u32_max"
proof -
  have "k * APS_GBA_BLOCK_SIZE < max (length s) (length t)" using assms(1) by (simp add: div_ceil_less_iff)
  then show ?thesis using assms(2,3) by simp
qed

text \<open>The streaming path.\<close>

lemma apsgba_stream_read:
  "reader_read_exact (drop off f) (min (length (drop off f)) APS_GBA_IO_BUFFER_SIZE) =
    Inr (segment f off APS_GBA_BLOCK_SIZE, drop (off + APS_GBA_BLOCK_SIZE) f)"
proof (cases "length f - off \<le> APS_GBA_BLOCK_SIZE")
  case True
  then show ?thesis
    by (simp add: reader_read_exact_def segment_def APS_GBA_IO_BUFFER_SIZE_def APS_GBA_BLOCK_SIZE_def min_def)
next
  case False
  then show ?thesis
    by (simp add: reader_read_exact_def segment_def APS_GBA_IO_BUFFER_SIZE_def APS_GBA_BLOCK_SIZE_def min_def add.commute)
qed

definition apsgba_stream_at :: "bytes \<Rightarrow> bytes \<Rightarrow> nat \<Rightarrow> apsgba_stream" where
  "apsgba_stream_at s t k =
     (drop (k * APS_GBA_BLOCK_SIZE) s, drop (k * APS_GBA_BLOCK_SIZE) t,
      if k = 0 then (crc16_ccitt_bytes [], crc16_ccitt_bytes []) else apsgba_identity s t,
      concat (map (apsgba_block s t) [0..<k]))"

lemma apsgba_stream_step:
  assumes "k * APS_GBA_BLOCK_SIZE \<le> u32_max"
  shows "apsgba_stream_block k (apsgba_stream_at s t k) = Inr (apsgba_stream_at s t (Suc k))"
proof -
  let ?off = "k * APS_GBA_BLOCK_SIZE"
  obtain r where r: "apsgba_block_record ?off (segment s ?off APS_GBA_BLOCK_SIZE) (segment t ?off APS_GBA_BLOCK_SIZE) = Inr r"
    "(case r of None \<Rightarrow> [] | Some r \<Rightarrow> [r]) = apsgba_block s t k"
    using apsgba_block_record_ok [OF assms] by blast
  have id: "(if k = 0 then (crc16_ccitt_bytes (segment s ?off APS_GBA_BLOCK_SIZE), crc16_ccitt_bytes (segment t ?off APS_GBA_BLOCK_SIZE))
      else if k = 0 then (crc16_ccitt_bytes [], crc16_ccitt_bytes []) else apsgba_identity s t) = apsgba_identity s t"
    by (simp add: apsgba_identity_def)
  have off: "?off + APS_GBA_BLOCK_SIZE = Suc k * APS_GBA_BLOCK_SIZE" by simp
  show ?thesis
    unfolding apsgba_stream_block_def apsgba_stream_at_def Let_def prod.case apsgba_stream_read and_then_simps r id off
    by simp
qed

lemma apsgba_stream_ok:
  assumes "length s \<le> u32_max" and "length t \<le> u32_max" and "n \<le> div_ceil (max (length s) (length t)) APS_GBA_BLOCK_SIZE"
  shows "fold_result apsgba_stream_block [0..<n] (apsgba_stream_at s t 0) = Inr (apsgba_stream_at s t n)"
  using assms(3)
proof (induction n)
  case (Suc n)
  then have "n * APS_GBA_BLOCK_SIZE \<le> u32_max" by (intro block_offset_u32 [OF _ assms(1,2)]) simp
  with Suc show ?case by (simp add: fold_result_append apsgba_stream_step)
qed simp

lemma create_apsgba_streaming:
  assumes "length s \<le> u32_max" and "length t \<le> u32_max"
  shows "create_apsgba_patch_streaming s t = Inr (apsgba_created s t)"
proof -
  let ?n = "div_ceil (max (length s) (length t)) APS_GBA_BLOCK_SIZE"
  have start: "(s, t, (crc16_ccitt_bytes [], crc16_ccitt_bytes []), []) = apsgba_stream_at s t 0"
    by (simp add: apsgba_stream_at_def)
  have "(if ?n = 0 then (crc16_ccitt_bytes [], crc16_ccitt_bytes []) else apsgba_identity s t) = apsgba_identity s t"
  proof (cases "?n = 0")
    case True
    then have "\<not> 0 * APS_GBA_BLOCK_SIZE < max (length s) (length t)"
      using div_ceil_less_iff [of APS_GBA_BLOCK_SIZE 0 "max (length s) (length t)"] by simp
    then show ?thesis by (simp add: apsgba_identity_def segment_def)
  qed simp
  then show ?thesis
    using apsgba_stream_ok [OF assms le_refl] assms apsgba_finalize [of s t "apsgba_identity s t"]
    by (simp add: create_apsgba_patch_streaming_def apsgba_sizes_fit_def start)
      (simp add: apsgba_stream_at_def apsgba_blocks_def)
qed

text \<open>The parallel path.\<close>

lemma read_apsgba_block_ok: "length f \<le> u64_max \<Longrightarrow> read_apsgba_block f off = Inr (segment f off APS_GBA_BLOCK_SIZE)"
  by (cases "off < length f")
    (auto simp: read_apsgba_block_def read_exact_at_def Let_def, simp_all add: segment_def)

lemma create_apsgba_record_ok:
  assumes "k * APS_GBA_BLOCK_SIZE \<le> u32_max" and "length s \<le> u32_max" and "length t \<le> u32_max"
  shows "\<exists>r. create_apsgba_record_for_block s t k = Inr r \<and> (case r of None \<Rightarrow> [] | Some r \<Rightarrow> [r]) = apsgba_block s t k"
proof -
  have "length s \<le> u64_max" "length t \<le> u64_max" "k * APS_GBA_BLOCK_SIZE \<le> u64_max"
    using assms by (auto simp: u32_max_def u64_max_def)
  then show ?thesis
    using apsgba_block_record_ok [OF assms(1), of s t]
    by (simp add: create_apsgba_record_for_block_def checked_mul_opt_def read_apsgba_block_ok)
qed

lemma apsgba_records_parallel:
  assumes "\<And>k. k < n \<Longrightarrow> k * APS_GBA_BLOCK_SIZE \<le> u32_max" and "length s \<le> u32_max" and "length t \<le> u32_max"
  shows "\<exists>rs. map_result (create_apsgba_record_for_block s t) [0..<n] = Inr rs \<and>
    concat (map (\<lambda>r. case r of None \<Rightarrow> [] | Some r \<Rightarrow> [r]) rs) = concat (map (apsgba_block s t) [0..<n])"
  using assms(1)
proof (induction n)
  case (Suc n)
  obtain r where "create_apsgba_record_for_block s t n = Inr r" "(case r of None \<Rightarrow> [] | Some r \<Rightarrow> [r]) = apsgba_block s t n"
    using create_apsgba_record_ok [OF Suc.prems [of n] assms(2,3)] by auto
  with Suc show ?case by (force simp: map_result_append)
qed simp

lemma apsgba_block_empty: "apsgba_block [] [] k = []"
  by (auto simp: apsgba_block_def apsgba_xor_block_def Let_def segment_def)

lemma create_apsgba_parallel:
  assumes "length s \<le> u32_max" and "length t \<le> u32_max"
  shows "create_apsgba_patch_parallel s t = Inr (apsgba_created s t)"
proof -
  let ?max = "max (length s) (length t)"
  let ?n = "div_ceil ?max APS_GBA_BLOCK_SIZE"
  have big: "?max + APS_GBA_BLOCK_SIZE \<le> u64_max"
    using assms by (simp add: u32_max_def u64_max_def APS_GBA_BLOCK_SIZE_def)
  obtain c where c: "apsgba_create_block_count ?max = Inr c"
    using chunk_count_total [OF big block_size_pos] by (auto simp: apsgba_create_block_count_def)
  have sat: "saturating_add ?max (APS_GBA_BLOCK_SIZE - 1) = ?max + (APS_GBA_BLOCK_SIZE - 1)"
    using big by (simp add: saturating_add_def)
  have count: "c = (if ?max = 0 then 1 else ?n)"
    using c unfolding apsgba_create_block_count_def chunk_count_for_len_checked_def Let_def sat
    by (auto simp: div_ceil_def split: if_splits)
  have blocks: "concat (map (apsgba_block s t) [0..<c]) = apsgba_blocks s t"
    by (auto simp: count apsgba_blocks_def apsgba_block_empty div_ceil_def APS_GBA_BLOCK_SIZE_def)
  have offsets: "k * APS_GBA_BLOCK_SIZE \<le> u32_max" if "k < c" for k
    using that block_offset_u32 [OF _ assms, of k] by (auto simp: count split: if_splits)
  obtain rs
    where rs: "map_result (create_apsgba_record_for_block s t) [0..<c] = Inr rs"
      "concat (map (\<lambda>r. case r of None \<Rightarrow> [] | Some r \<Rightarrow> [r]) rs) = apsgba_blocks s t"
    using apsgba_records_parallel [of c, OF offsets assms] unfolding blocks by blast
  have "length s \<le> u64_max" "length t \<le> u64_max" using assms by (auto simp: u32_max_def u64_max_def)
  then show ?thesis
    using assms apsgba_finalize [of s t "apsgba_identity s t"]
      apsgba_finalize [of s t "(crc16_ccitt_bytes [], crc16_ccitt_bytes [])"]
    by (cases "apsgba_blocks s t = []") (simp_all add: create_apsgba_patch_parallel_def apsgba_sizes_fit_def c rs Let_def read_apsgba_block_ok
        apsgba_identity_def del: concat_eq_Nil_conv)
qed


lemma apsgba_create_ok_iff:
  "(\<exists>rep. apsgba_create ctx \<lparr>cr_original = orig, cr_modified = modif\<rparr> = Inr (patch, rep)) \<longleftrightarrow>
    file_len orig \<le> u32_max \<and> file_len modif \<le> u32_max \<and>
    patch = gc_bytes (apsgba_created (file_bytes orig) (file_bytes modif))"
proof (cases "file_len orig \<le> u32_max \<and> file_len modif \<le> u32_max")
  case True
  let ?max = "max (file_len orig) (file_len modif)"
  have "?max + APS_GBA_BLOCK_SIZE \<le> u64_max"
    using True by (simp add: u32_max_def u64_max_def APS_GBA_BLOCK_SIZE_def)
  then obtain k where "apsgba_create_block_count ?max = Inr k"
    using chunk_count_total [OF _ block_size_pos] unfolding apsgba_create_block_count_def by blast
  then have cap: "\<exists>cap. apsgba_create_thread_capability ?max = Inr cap"
    by (simp add: apsgba_create_thread_capability_def)
  then obtain cap where cap: "apsgba_create_thread_capability ?max = Inr cap" by blast
  from True show ?thesis
    using run_with_optional_pool_const [of ctx cap True "apsgba_created (file_bytes orig) (file_bytes modif)"]
    by (auto simp: apsgba_create_def Let_def cap create_apsgba_parallel create_apsgba_streaming result_iff)
next
  case False
  then have "\<not> is_ok (create_apsgba_patch_parallel (file_bytes orig) (file_bytes modif))"
    "\<not> is_ok (create_apsgba_patch_streaming (file_bytes orig) (file_bytes modif))"
    by (auto simp: create_apsgba_patch_parallel_def create_apsgba_patch_streaming_def apsgba_sizes_fit_def is_ok_iff result_iff)
  then have "run_with_optional_pool ctx cap True (\<lambda>pool. create_apsgba_patch_parallel (file_bytes orig) (file_bytes modif))
      (create_apsgba_patch_streaming (file_bytes orig) (file_bytes modif)) \<noteq> Inr (e, c)" for cap e c
    by (auto simp: is_ok_iff dest: run_with_optional_pool_result)
  with False show ?thesis by (auto simp: apsgba_create_def Let_def result_iff)
qed

section \<open>Parsing a created patch\<close>

definition apsgba_good :: "apsgba_record \<Rightarrow> bool" where
  "apsgba_good r \<longleftrightarrow> gr_offset r \<le> u32_max \<and> length (gr_xor_bytes r) = APS_GBA_BLOCK_SIZE"

lemma unat_u16_lt: "unat (w :: u16) < 256 ^ 2"
  using unsigned_less [of w] by simp

interpretation apsgba_codec: record_codec encode_apsgba_record read_apsgba_record lp_reader labeled_wf apsgba_good
proof
  fix p r rest
  assume wf: "labeled_wf p" and good: "apsgba_good r" and u: "lp_reader p = encode_apsgba_record r @ rest"
  let ?s = "unat (gr_source_crc16 r)" and ?t = "unat (gr_target_crc16 r)"
  from good have off: "gr_offset r < 256 ^ 4" and xor_len: "length (gr_xor_bytes r) = APS_GBA_BLOCK_SIZE"
    by (simp_all add: apsgba_good_def u32_max_def)
  from u have u1: "lp_reader p = le_bytes 4 (gr_offset r) @ le_bytes 2 ?s @ le_bytes 2 ?t @ gr_xor_bytes r @ rest"
    by (simp add: encode_apsgba_record_def)
  obtain p1 where p1: "labeled_read_u32_le ''APSGBA record offset'' p = Inr (gr_offset r, p1)" "labeled_wf p1"
    "lp_reader p1 = le_bytes 2 ?s @ le_bytes 2 ?t @ gr_xor_bytes r @ rest"
    using labeled.read_uint_le [OF wf u1 off] by (auto simp: labeled_read_u32_le_def)
  obtain p2 where p2: "labeled_read_u16_le ''APSGBA source crc16'' p1 = Inr (?s, p2)" "labeled_wf p2"
    "lp_reader p2 = le_bytes 2 ?t @ gr_xor_bytes r @ rest"
    using labeled.read_uint_le [OF p1(2,3) unat_u16_lt] by (auto simp: labeled_read_u16_le_def)
  obtain p3 where p3: "labeled_read_u16_le ''APSGBA target crc16'' p2 = Inr (?t, p3)" "labeled_wf p3"
    "lp_reader p3 = gr_xor_bytes r @ rest"
    using labeled.read_uint_le [OF p2(2,3) unat_u16_lt] by (auto simp: labeled_read_u16_le_def)
  obtain p4 where "labeled_read_exact ''APSGBA xor payload'' p3 APS_GBA_BLOCK_SIZE = Inr (gr_xor_bytes r, p4)"
    "labeled_wf p4" "lp_reader p4 = rest"
    using labeled.read_exact_prefix [OF p3(2,3) xor_len] by blast
  with p1 p2 p3 show "\<exists>q. read_apsgba_record p = Inr (r, q) \<and> labeled_wf q \<and> lp_reader q = rest"
    by (simp add: read_apsgba_record_def)
qed

lemma length_encode_apsgba: "apsgba_good r \<Longrightarrow> length (encode_apsgba_record r) = APS_GBA_RECORD_SIZE"
  by (simp add: encode_apsgba_record_def apsgba_good_def APS_GBA_RECORD_SIZE_def)

lemma parse_apsgba_encoded:
  assumes good: "\<forall>r \<in> set rs. apsgba_good r" and "rs \<noteq> []" and sizes: "n \<le> u32_max" "m \<le> u32_max"
    and f: "f = APS_GBA_MAGIC @ le_bytes 4 n @ le_bytes 4 m @ concat (map encode_apsgba_record rs)"
    and len: "length f \<le> u64_max"
  shows "parse_apsgba_file f = Inr \<lparr>gp_source_size = n, gp_target_size = m, gp_records = rs\<rparr>"
proof -
  let ?p = "labeled_new f (length f) ''APSGBA'' ''addressable range''" and ?h = "APS_GBA_MAGIC @ le_bytes 4 n @ le_bytes 4 m"
  have magic: "length APS_GBA_MAGIC = 4" by (simp add: APS_GBA_MAGIC_def)
  have records: "length (concat (map encode_apsgba_record rs)) = length rs * APS_GBA_RECORD_SIZE"
    using good by (induction rs) (simp_all add: length_encode_apsgba)
  have flen: "length f = 12 + length rs * APS_GBA_RECORD_SIZE" by (simp add: f records magic)
  have header: "length ?h = APS_GBA_HEADER_SIZE" by (simp add: magic APS_GBA_HEADER_SIZE_def)
  have u: "lp_reader ?p = ?h @ concat (map encode_apsgba_record rs)" by (simp add: f)
  obtain p1 where p1: "labeled_read_exact ''APSGBA header'' ?p APS_GBA_HEADER_SIZE = Inr (?h, p1)" "labeled_wf p1"
    "lp_reader p1 = concat (map encode_apsgba_record rs) @ []"
    using labeled.read_exact_prefix [OF labeled_wf_new [OF len] u header] by auto
  obtain p2 where p2: "read_records read_apsgba_record (length rs) p1 = Inr (rs, p2)" "labeled_wf p2" "lp_reader p2 = []"
    using apsgba_codec.read_records_encode [OF p1(2) good p1(3)] by blast
  have fields: "apsgba_read_u32_le ?h 4 = Inr n" "apsgba_read_u32_le ?h 8 = Inr m"
    using sizes magic by (simp_all add: apsgba_read_u32_le_def checked_add_opt_def u64_max_def segment_def u32_max_def from_le_small)
  have count: "(length f - APS_GBA_HEADER_SIZE) div APS_GBA_RECORD_SIZE = length rs"
    "(length f - APS_GBA_HEADER_SIZE) mod APS_GBA_RECORD_SIZE = 0"
    by (simp_all add: flen APS_GBA_HEADER_SIZE_def APS_GBA_RECORD_SIZE_def)
  have "1 * APS_GBA_RECORD_SIZE \<le> length rs * APS_GBA_RECORD_SIZE"
    using assms(2) by (intro mult_le_mono1) (simp add: Suc_le_eq)
  then have big: "\<not> length f < APS_GBA_HEADER_SIZE + APS_GBA_RECORD_SIZE" "\<not> length f < APS_GBA_HEADER_SIZE"
    unfolding flen APS_GBA_HEADER_SIZE_def by linarith+
  have "take (length APS_GBA_MAGIC) ?h = APS_GBA_MAGIC" by simp
  with p1(1) p2 fields count big show ?thesis
    by (simp only: parse_apsgba_file_def Let_def if_False if_True and_then_simps prod.case labeled_remaining_wf
        list.size not_True_eq_False simp_thms)
qed

section \<open>The created patch\<close>

text \<open>A record that tells the difference of source and target at its offset.\<close>

definition apsgba_faithful :: "bytes \<Rightarrow> bytes \<Rightarrow> apsgba_record \<Rightarrow> bool" where
  "apsgba_faithful s t r \<longleftrightarrow>
     gr_source_crc16 r = crc16_ccitt_bytes (segment s (gr_offset r) APS_GBA_BLOCK_SIZE) \<and>
     gr_target_crc16 r = crc16_ccitt_bytes (segment t (gr_offset r) APS_GBA_BLOCK_SIZE) \<and>
     (\<forall>i < APS_GBA_BLOCK_SIZE. gr_xor_bytes r ! i = byte_at s (gr_offset r + i) XOR byte_at t (gr_offset r + i))"

lemma xor_block_nth:
  "i < APS_GBA_BLOCK_SIZE \<Longrightarrow>
   apsgba_xor_block (segment s off APS_GBA_BLOCK_SIZE) (segment t off APS_GBA_BLOCK_SIZE) ! i =
     byte_at s (off + i) XOR byte_at t (off + i)"
  by (simp add: apsgba_xor_block_def byte_at_segment)

lemma apsgba_block_faithful: "r \<in> set (apsgba_block s t k) \<Longrightarrow> apsgba_faithful s t r \<and> gr_offset r = k * APS_GBA_BLOCK_SIZE"
  by (auto simp: apsgba_block_def Let_def apsgba_faithful_def xor_block_nth split: if_splits)

lemma apsgba_unchanged:
  assumes "\<forall>r \<in> set (apsgba_blocks s t). \<not> apsgba_covers i r"
  shows "byte_at s i = byte_at t i"
proof (cases "i < max (length s) (length t)")
  case True
  define k where "k = i div APS_GBA_BLOCK_SIZE"
  define m where "m = i mod APS_GBA_BLOCK_SIZE"
  have i: "i = k * APS_GBA_BLOCK_SIZE + m" "m < APS_GBA_BLOCK_SIZE" by (simp_all add: k_def m_def)
  have "k * APS_GBA_BLOCK_SIZE < max (length s) (length t)" using True i by simp
  then have "k < div_ceil (max (length s) (length t)) APS_GBA_BLOCK_SIZE" by (simp add: div_ceil_less_iff)
  then have "set (apsgba_block s t k) \<subseteq> set (apsgba_blocks s t)" by (auto simp: apsgba_blocks_def)
  moreover have "apsgba_covers i r" if "r \<in> set (apsgba_block s t k)" for r
    using apsgba_block_faithful [OF that] i by (simp add: apsgba_covers_def)
  ultimately have "apsgba_block s t k = []" using assms by (metis all_not_in_conv set_empty subsetD)
  then have "\<forall>b \<in> set (apsgba_xor_block (segment s (k * APS_GBA_BLOCK_SIZE) APS_GBA_BLOCK_SIZE)
      (segment t (k * APS_GBA_BLOCK_SIZE) APS_GBA_BLOCK_SIZE)). b = 0"
    by (simp add: apsgba_block_def Let_def split: if_splits)
  then have "apsgba_xor_block (segment s (k * APS_GBA_BLOCK_SIZE) APS_GBA_BLOCK_SIZE)
      (segment t (k * APS_GBA_BLOCK_SIZE) APS_GBA_BLOCK_SIZE) ! m = 0"
    by (rule bspec) (use i(2) in \<open>simp add: apsgba_xor_block_def\<close>)
  then show ?thesis unfolding xor_block_nth [OF i(2)] xor_eq_0_iff i(1) [symmetric] .
qed simp

lemma in_apsgba_blocks:
  "r \<in> set (apsgba_blocks s t) \<longleftrightarrow>
    (\<exists>k < div_ceil (max (length s) (length t)) APS_GBA_BLOCK_SIZE. r \<in> set (apsgba_block s t k))"
  by (auto simp: apsgba_blocks_def)

lemma apsgba_created_faithful: "r \<in> set (apsgba_created_records s t) \<Longrightarrow> apsgba_faithful s t r"
proof (cases "apsgba_blocks s t = []")
  case True
  then have "byte_at s i = byte_at t i" for i using apsgba_unchanged [of s t i] by simp
  moreover assume "r \<in> set (apsgba_created_records s t)"
  ultimately show ?thesis
    by (simp add: True apsgba_created_records_def apsgba_faithful_def empty_apsgba_record_def apsgba_identity_def)
next
  case False
  moreover assume "r \<in> set (apsgba_created_records s t)"
  ultimately have "r \<in> set (apsgba_blocks s t)" by (simp add: apsgba_created_records_def)
  then show ?thesis using apsgba_block_faithful by (auto simp: in_apsgba_blocks)
qed

lemma apsgba_created_good:
  assumes "r \<in> set (apsgba_created_records s t)" and "length s \<le> u32_max" and "length t \<le> u32_max"
  shows "apsgba_good r"
proof (cases "apsgba_blocks s t = []")
  case True
  with assms(1) show ?thesis by (simp add: apsgba_created_records_def empty_apsgba_record_def apsgba_good_def u32_max_def)
next
  case False
  with assms(1) have "r \<in> set (apsgba_blocks s t)" by (simp add: apsgba_created_records_def)
  then obtain k where "k < div_ceil (max (length s) (length t)) APS_GBA_BLOCK_SIZE" and r: "r \<in> set (apsgba_block s t k)"
    by (auto simp: in_apsgba_blocks)
  from block_offset_u32 [OF this(1) assms(2,3)] r show ?thesis
    by (auto simp: apsgba_block_def apsgba_good_def apsgba_xor_block_def Let_def split: if_splits)
qed

lemma apsgba_faithful_data:
  assumes "apsgba_faithful s t r"
  shows "apsgba_data s (length t) r = segment t (gr_offset r) APS_GBA_BLOCK_SIZE"
proof (rule nth_equalityI)
  fix i
  assume "i < length (apsgba_data s (length t) r)"
  then have i: "i < length t - gr_offset r" "i < APS_GBA_BLOCK_SIZE" by auto
  have "apsgba_data s (length t) r ! i = byte_at s (gr_offset r + i) XOR (byte_at s (gr_offset r + i) XOR byte_at t (gr_offset r + i))"
    using i assms by (simp add: apsgba_data_nth apsgba_faithful_def)
  also have "\<dots> = byte_at t (gr_offset r + i)" by (simp add: xor.assoc [symmetric])
  finally show "apsgba_data s (length t) r ! i = segment t (gr_offset r) APS_GBA_BLOCK_SIZE ! i"
    using i by (simp add: nth_segment)
qed (simp add: min.commute)

lemma apsgba_faithful_output:
  assumes "\<forall>r \<in> set (apsgba_created_records s t). apsgba_faithful s t r"
  shows "apsgba_output s (length t) (apsgba_created_records s t) = t"
proof (rule file_eqI)
  fix i
  assume i: "i < length t"
  show "byte_at (apsgba_output s (length t) (apsgba_created_records s t)) i = byte_at t i"
  proof (cases "find (apsgba_covers i) (rev (apsgba_created_records s t))")
    case None
    then have "byte_at s i = byte_at t i"
      by (intro apsgba_unchanged) (auto simp: find_None_iff apsgba_created_records_def split: if_splits)
    with None i show ?thesis by (simp add: byte_at_apsgba_output apsgba_byte_def del: byte_at_lt)
  next
    case (Some r)
    then have "r \<in> set (rev (apsgba_created_records s t))" and c: "apsgba_covers i r"
      unfolding find_Some_iff in_set_conv_nth by auto
    then have "r \<in> set (apsgba_created_records s t)" by simp
    with assms c have "gr_xor_bytes r ! (i - gr_offset r) = byte_at s i XOR byte_at t i"
      by (auto simp: apsgba_faithful_def apsgba_covers_def)
    with Some i show ?thesis
      by (simp add: byte_at_apsgba_output apsgba_byte_def xor.assoc [symmetric] del: byte_at_lt)
  qed
qed simp

lemma apsgba_created_parses:
  assumes "length s \<le> u32_max" and "length t \<le> u32_max"
  shows "parse_apsgba_file (gc_bytes (apsgba_created s t)) =
    Inr \<lparr>gp_source_size = length s, gp_target_size = length t, gp_records = apsgba_created_records s t\<rparr>"
proof (rule parse_apsgba_encoded)
  show "apsgba_created_records s t \<noteq> []" by (simp add: apsgba_created_records_def)
  have one: "length (apsgba_block s t k) \<le> 1" for k by (simp add: apsgba_block_def Let_def)
  have "length (concat (map (apsgba_block s t) [0..<n])) \<le> n" for n
  proof (induction n)
    case (Suc n)
    with one [of n] show ?case by simp
  qed simp
  then have "length (apsgba_blocks s t) \<le> div_ceil (max (length s) (length t)) APS_GBA_BLOCK_SIZE"
    by (simp add: apsgba_blocks_def)
  also have "\<dots> \<le> max (length s) (length t) + APS_GBA_BLOCK_SIZE"
    unfolding div_ceil_def by (rule order_trans [OF div_le_dividend]) simp
  finally have few: "length (apsgba_created_records s t) \<le> u32_max + APS_GBA_BLOCK_SIZE"
    using assms by (auto simp: apsgba_created_records_def u32_max_def APS_GBA_BLOCK_SIZE_def max_def split: if_splits)
  have "length (concat (map encode_apsgba_record (apsgba_created_records s t))) =
      length (apsgba_created_records s t) * APS_GBA_RECORD_SIZE"
  proof -
    have "\<forall>r \<in> set rs. apsgba_good r \<Longrightarrow>
        length (concat (map encode_apsgba_record rs)) = length rs * APS_GBA_RECORD_SIZE" for rs
      by (induction rs) (simp_all add: length_encode_apsgba)
    then show ?thesis using apsgba_created_good [OF _ assms] by blast
  qed
  moreover have "length (apsgba_created_records s t) * APS_GBA_RECORD_SIZE \<le> (u32_max + APS_GBA_BLOCK_SIZE) * APS_GBA_RECORD_SIZE"
    using few by (rule mult_le_mono1)
  moreover have "length APS_GBA_MAGIC = 4" by (simp add: APS_GBA_MAGIC_def)
  ultimately show "length (gc_bytes (apsgba_created s t)) \<le> u64_max"
    by (simp add: apsgba_created_def u32_max_def u64_max_def APS_GBA_BLOCK_SIZE_def APS_GBA_RECORD_SIZE_def)
qed (use assms apsgba_created_good [OF _ assms] in \<open>auto simp: apsgba_created_def\<close>)

lemma apsgba_created_applies:
  assumes "file_len orig \<le> u32_max" and "file_len modif \<le> u32_max"
    and "patch = gc_bytes (apsgba_created (file_bytes orig) (file_bytes modif))"
  shows "\<exists>rep. apsgba_apply ctx \<lparr>ar_input = orig, ar_patches = [\<lparr>file_path = p, file_bytes = patch\<rparr>], ar_output = path\<rparr> =
    Inr (file_bytes modif, rep)"
proof -
  let ?rs = "apsgba_created_records (file_bytes orig) (file_bytes modif)"
  have "file_len orig \<le> u64_max" using assms(1) by (simp add: u32_max_def u64_max_def)
  moreover have "apsgba_record_ok v (file_bytes orig) (file_len modif) r" if "r \<in> set ?rs" for v r
    using apsgba_created_faithful [OF that] apsgba_faithful_data [of "file_bytes orig" "file_bytes modif" r]
    by (simp add: apsgba_record_ok_def apsgba_faithful_def)
  moreover have "apsgba_output (file_bytes orig) (file_len modif) ?rs = file_bytes modif"
    by (rule apsgba_faithful_output) (use apsgba_created_faithful in blast)
  ultimately show ?thesis
    using apsgba_created_parses [OF assms(1,2)] by (subst apsgba_apply_ok_iff) (auto simp: assms(3))
qed

section \<open>Properties\<close>


text \<open>
  C40. An APSGBA apply in any context succeeds exactly when the patch parses, the input has the
  declared size and, with the source checks on, the CRC-16 of every block agrees before and
  after; the output has the declared size, and its byte at an offset is the input's byte XORed
  by the last record that covers the offset, on each of the three write paths.
\<close>

theorem apsgba_apply_bytes:
  assumes "file_len inp \<le> u64_max"
  shows "(\<exists>rep. apsgba_apply ctx \<lparr>ar_input = inp, ar_patches = ps, ar_output = path\<rparr> = Inr (out, rep)) \<longleftrightarrow>
    (\<exists>pf patch. ps = [pf] \<and> parse_apsgba_file (file_bytes pf) = Inr patch \<and> file_len inp = gp_source_size patch \<and>
       (\<forall>r \<in> set (gp_records patch).
          apsgba_record_ok (scope_source (patch_check_scopes ctx)) (file_bytes inp) (gp_target_size patch) r) \<and>
       length out = gp_target_size patch \<and>
       (\<forall>i < length out. byte_at out i = apsgba_byte (file_bytes inp) (gp_records patch) i))"
proof -
  have eq: "out = apsgba_output source n rs \<longleftrightarrow>
      length out = n \<and> (\<forall>i < length out. byte_at out i = apsgba_byte source rs i)" for source n rs
    by (auto simp: byte_at_apsgba_output simp del: byte_at_lt intro!: file_eqI)
  show ?thesis unfolding apsgba_apply_ok_iff [OF assms] eq by (rule refl)
qed

theorem apsgba_apply_bytes_witness:
  "\<exists>(pf :: stored_file) patch. parse_apsgba_file (file_bytes pf) = Inr patch \<and> length (file_bytes sample_target) = gp_target_size patch \<and>
    (\<forall>r \<in> set (gp_records patch). apsgba_record_ok True (file_bytes sample_source) (gp_target_size patch) r)"
proof -
  have len: "file_len sample_source \<le> u32_max" "file_len sample_target \<le> u32_max" "file_len sample_source \<le> u64_max"
    by (simp_all add: samples u32_max_def u64_max_def)
  have "scope_source (patch_check_scopes (plain_context 1))"
    by (simp add: patch_check_scopes_def plain_context_def all_scopes_def)
  moreover obtain pf rep where "apsgba_apply (plain_context 1)
      \<lparr>ar_input = sample_source, ar_patches = [pf], ar_output = ''out''\<rparr> = Inr (file_bytes sample_target, rep)"
    using apsgba_created_applies [OF len(1,2) refl, of "plain_context 1" "''p''" "''out''"] by blast
  moreover from this have "\<exists>rep. apsgba_apply (plain_context 1)
      \<lparr>ar_input = sample_source, ar_patches = [pf], ar_output = ''out''\<rparr> = Inr (file_bytes sample_target, rep)" ..
  note applied = iffD1 [OF apsgba_apply_bytes [OF len(3)] this]
  then obtain pf' :: stored_file and patch where "parse_apsgba_file (file_bytes pf') = Inr patch"
    "\<forall>r \<in> set (gp_records patch). apsgba_record_ok (scope_source (patch_check_scopes (plain_context 1)))
      (file_bytes sample_source) (gp_target_size patch) r"
    "file_len sample_target = gp_target_size patch"
    by (elim exE conjE) (rule that)
  ultimately show ?thesis by auto
qed

end
