(* ===== verification/Checksum_Combine.thy ===== *)
theory Checksum_Combine
  imports Prelude
begin

text \<open>
  Combining the checksums of adjacent blocks, from \<open>rom-weaver-checksum/src/execution.rs\<close>: the
  CRC-16/ARC combination by matrices over GF(2) and the Adler-32 combination by modular sums.
  Both rest on what the checksums themselves are, which the crates \<open>crc16\<close> and \<open>adler2\<close>
  compute: the reference functions \<open>crc16_arc\<close> (CRC-16/ARC: reflected polynomial 0xA001,
  start value 0, no final mask) and \<open>adler32\<close> (RFC 1950) state those standards bit by bit,
  and the theorems say that combining equals checksumming the concatenation.
\<close>

section \<open>CRC-16/ARC\<close>

definition CRC16_GF2_DIM :: nat where
  "CRC16_GF2_DIM = 16"

definition CRC16_ARC_REFLECTED_POLY :: u16 where
  "CRC16_ARC_REFLECTED_POLY = 0xA001"

text \<open>The \<open>while vec > 0\<close> loop, with its \<open>sum\<close> and \<open>idx\<close>.\<close>

function gf2_times_loop :: "u16 list \<Rightarrow> u16 \<Rightarrow> u16 \<Rightarrow> nat \<Rightarrow> u16" where
  "gf2_times_loop mat vec acc idx =
     (if vec = 0 then acc
      else gf2_times_loop mat (drop_bit 1 vec)
             (if vec AND 1 = 1 then acc XOR mat ! idx else acc) (Suc idx))"
  by pat_completeness auto
termination
proof (relation "measure (\<lambda>(_, vec, _, _). unat vec)")
  fix mat :: "u16 list" and vec acc :: u16 and idx :: nat
  assume "vec \<noteq> 0"
  then show "((mat, drop_bit 1 vec, if vec AND 1 = 1 then acc XOR mat ! idx else acc, Suc idx),
      mat, vec, acc, idx) \<in> measure (\<lambda>(_, vec, _, _). unat vec)"
    by (simp add: drop_bit_eq_div unat_div unat_gt_0)
qed simp

declare gf2_times_loop.simps [simp del]

definition gf2_matrix_times_u16 :: "u16 list \<Rightarrow> u16 \<Rightarrow> u16" where
  "gf2_matrix_times_u16 mat vec = gf2_times_loop mat vec 0 0"

text \<open>\<open>square[n] = times(mat, mat[n])\<close> for every row; the old contents of \<open>square\<close> are overwritten.\<close>

definition gf2_matrix_square_u16 :: "u16 list \<Rightarrow> u16 list" where
  "gf2_matrix_square_u16 mat = map (\<lambda>n. gf2_matrix_times_u16 mat (mat ! n)) [0..<CRC16_GF2_DIM]"

text \<open>The first row is the polynomial, the others the shifted \<open>row\<close>.\<close>

definition crc16_shift_matrix :: "u16 list" where
  "crc16_shift_matrix =
     CRC16_ARC_REFLECTED_POLY # map (\<lambda>n. push_bit n 1) [0..<CRC16_GF2_DIM - 1]"

text \<open>One round of the \<open>loop\<close> does the even half and, unless that ends it, the odd half.\<close>

fun crc16_combine_loop :: "u16 list \<Rightarrow> u16 \<Rightarrow> nat \<Rightarrow> u16" where
  "crc16_combine_loop odd_m crc1 len2 =
     (let even_m = gf2_matrix_square_u16 odd_m;
          crc1 = (if len2 AND 1 = 1 then gf2_matrix_times_u16 even_m crc1 else crc1);
          len2 = len2 div 2
      in if len2 = 0 then crc1
         else let odd_m = gf2_matrix_square_u16 even_m;
                  crc1 = (if len2 AND 1 = 1 then gf2_matrix_times_u16 odd_m crc1 else crc1);
                  len2' = len2 div 2
              in if len2' = 0 then crc1 else crc16_combine_loop odd_m crc1 len2')"

declare crc16_combine_loop.simps [simp del]

definition crc16_arc_combine :: "u16 \<Rightarrow> u16 \<Rightarrow> nat \<Rightarrow> u16" where
  "crc16_arc_combine crc1 crc2 len2 =
     (if len2 = 0 then crc1
      else let odd_m = crc16_shift_matrix;
               even_m = gf2_matrix_square_u16 odd_m;
               odd_m = gf2_matrix_square_u16 even_m
           in crc16_combine_loop odd_m crc1 len2 XOR crc2)"

text \<open>The standard, bit by bit.\<close>

definition crc16_arc_bit :: "u16 \<Rightarrow> u16" where
  "crc16_arc_bit c =
     (if bit c 0 then drop_bit 1 c XOR CRC16_ARC_REFLECTED_POLY else drop_bit 1 c)"

definition crc16_arc_byte :: "u16 \<Rightarrow> u8 \<Rightarrow> u16" where
  "crc16_arc_byte c b = (crc16_arc_bit ^^ 8) (c XOR ucast b)"

definition crc16_arc_from :: "u16 \<Rightarrow> bytes \<Rightarrow> u16" where
  "crc16_arc_from c bs = foldl crc16_arc_byte c bs"

definition crc16_arc :: "bytes \<Rightarrow> u16" where
  "crc16_arc bs = crc16_arc_from 0 bs"

subsection \<open>Matrices represent linear maps\<close>

definition xor_linear :: "(u16 \<Rightarrow> u16) \<Rightarrow> bool" where
  "xor_linear h \<longleftrightarrow> (\<forall>a b. h (a XOR b) = h a XOR h b)"

definition represents :: "u16 list \<Rightarrow> (u16 \<Rightarrow> u16) \<Rightarrow> bool" where
  "represents mat h \<longleftrightarrow> (\<forall>n < CRC16_GF2_DIM. mat ! n = h (push_bit n 1))"

lemma xor_linearD: "xor_linear h \<Longrightarrow> h (a XOR b) = h a XOR h b"
  by (simp add: xor_linear_def)

lemma xor_linear_0: "xor_linear h \<Longrightarrow> h 0 = 0"
  using xor_linearD [of h 0 0] by simp

lemma xor_linear_comp: "xor_linear g \<Longrightarrow> xor_linear h \<Longrightarrow> xor_linear (g \<circ> h)"
  by (simp add: xor_linear_def)

lemma xor_linear_id: "xor_linear id"
  by (simp add: xor_linear_def)

lemma xor_linear_funpow: "xor_linear h \<Longrightarrow> xor_linear (h ^^ n)"
  by (induction n) (auto intro: xor_linear_comp xor_linear_id simp del: comp_apply simp: eq_id_iff)

lemma split_low_bit:
  "push_bit idx vec = (if bit vec 0 then push_bit idx 1 else 0) XOR push_bit (Suc idx) (drop_bit 1 (vec :: u16))"
proof (rule bit_eqI)
  fix n
  assume "possible_bit TYPE(16 word) n"
  then have n: "n < 16" by simp
  show "bit (push_bit idx vec) n \<longleftrightarrow>
      bit ((if bit vec 0 then push_bit idx 1 else 0) XOR push_bit (Suc idx) (drop_bit 1 vec)) n"
  proof (cases "n \<le> idx")
    case True
    then show ?thesis using n by (auto simp: bit_simps simp del: push_bit_Suc)
  next
    case False
    then have "Suc (n - Suc idx) = n - idx" by simp
    then show ?thesis using n False by (auto simp: bit_simps simp del: push_bit_Suc)
  qed
qed

lemma gf2_times_loop_linear:
  assumes "xor_linear h" and "represents mat h" and "unat vec < 2 ^ (16 - idx)"
  shows "gf2_times_loop mat vec acc idx = acc XOR h (push_bit idx vec)"
  using assms(3)
proof (induction "unat vec" arbitrary: vec acc idx rule: less_induct)
  case less
  show ?case
  proof (cases "vec = 0")
    case True
    then show ?thesis using xor_linear_0 [OF assms(1)] by (simp add: gf2_times_loop.simps [of mat 0])
  next
    case False
    let ?rest = "drop_bit 1 vec"
    have half: "unat ?rest = unat vec div 2"
      by (simp add: drop_bit_eq_div unat_div)
    have pos: "0 < unat vec" using False by (simp add: unat_gt_0)
    have idx: "idx < 16"
    proof (rule ccontr)
      assume "\<not> idx < 16"
      then show False using less.prems pos by simp
    qed
    then have "16 - idx = Suc (16 - Suc idx)" by simp
    then have small: "unat ?rest < 2 ^ (16 - Suc idx)"
      using less.prems half by (simp add: less_mult_imp_div_less)
    have low: "vec AND 1 = 1 \<longleftrightarrow> bit vec 0"
      by (simp add: and_one_eq odd_iff_mod_2_eq_one bit_0)
    have row: "mat ! idx = h (push_bit idx 1)"
      using assms(2) idx by (simp add: represents_def CRC16_GF2_DIM_def)
    have "gf2_times_loop mat vec acc idx =
        gf2_times_loop mat ?rest (if bit vec 0 then acc XOR mat ! idx else acc) (Suc idx)"
      using False low by (simp add: gf2_times_loop.simps [of mat vec])
    also have "\<dots> = (if bit vec 0 then acc XOR mat ! idx else acc) XOR h (push_bit (Suc idx) ?rest)"
      using less.hyps [of ?rest] half pos small by simp
    also have "\<dots> = acc XOR (h (if bit vec 0 then push_bit idx 1 else 0) XOR h (push_bit (Suc idx) ?rest))"
      using row xor_linear_0 [OF assms(1)] by (simp add: xor.assoc)
    also have "\<dots> = acc XOR h (push_bit idx vec)"
      by (subst split_low_bit [of idx vec]) (simp only: xor_linearD [OF assms(1)])
    finally show ?thesis .
  qed
qed

lemma gf2_matrix_times_linear:
  assumes "xor_linear h" and "represents mat h"
  shows "gf2_matrix_times_u16 mat vec = h vec"
  using gf2_times_loop_linear [OF assms, of vec 0 0] unsigned_less [of vec]
  by (simp add: gf2_matrix_times_u16_def)

lemma gf2_matrix_square_represents:
  assumes "xor_linear h" and "represents mat h"
  shows "represents (gf2_matrix_square_u16 mat) (h \<circ> h)"
  using assms(2)
  by (simp add: represents_def gf2_matrix_square_u16_def gf2_matrix_times_linear [OF assms])

subsection \<open>The combination is the checksum of the concatenation\<close>

lemma crc16_arc_bit_linear: "xor_linear crc16_arc_bit"
  unfolding xor_linear_def
  by (auto simp: crc16_arc_bit_def bit_simps drop_bit_xor ac_simps)

lemma shift_matrix_represents: "represents crc16_shift_matrix crc16_arc_bit"
  unfolding represents_def
proof (intro allI impI)
  fix n
  assume n: "n < CRC16_GF2_DIM"
  show "crc16_shift_matrix ! n = crc16_arc_bit (push_bit n 1)"
  proof (cases n)
    case 0
    then show ?thesis by (simp add: crc16_shift_matrix_def crc16_arc_bit_def)
  next
    case (Suc m)
    have "drop_bit 1 (push_bit (Suc m) 1) = (push_bit m 1 :: u16)"
      using n Suc by (intro bit_eqI) (auto simp: bit_simps CRC16_GF2_DIM_def)
    then show ?thesis
      using n Suc by (simp add: crc16_shift_matrix_def crc16_arc_bit_def bit_simps CRC16_GF2_DIM_def)
  qed
qed

lemma crc16_arc_byte_split: "crc16_arc_byte c b = (crc16_arc_bit ^^ 8) c XOR crc16_arc_byte 0 b"
  using xor_linearD [OF xor_linear_funpow [OF crc16_arc_bit_linear], of 8 c "ucast b"]
  by (simp add: crc16_arc_byte_def)

lemma crc16_arc_from_split:
  "crc16_arc_from c bs = (crc16_arc_bit ^^ (8 * length bs)) c XOR crc16_arc bs"
proof (induction bs arbitrary: c)
  case Nil
  then show ?case by (simp add: crc16_arc_from_def crc16_arc_def)
next
  case (Cons b bs)
  let ?z = "crc16_arc_bit ^^ (8 * length bs)"
  have tail: "crc16_arc_from c (b # bs) = ?z (crc16_arc_byte c b) XOR crc16_arc bs" for c
    using Cons.IH by (simp add: crc16_arc_from_def)
  have "?z (crc16_arc_byte c b) = ?z ((crc16_arc_bit ^^ 8) c) XOR ?z (crc16_arc_byte 0 b)"
    by (subst crc16_arc_byte_split) (rule xor_linearD [OF xor_linear_funpow [OF crc16_arc_bit_linear]])
  also have "?z ((crc16_arc_bit ^^ 8) c) = (crc16_arc_bit ^^ (8 * length (b # bs))) c"
    using funpow_add [of "8 * length bs" 8 crc16_arc_bit] by (simp add: add.commute del: funpow.simps)
  finally show ?case
    using tail [of c] tail [of 0] by (simp add: crc16_arc_def xor.assoc)
qed

lemma crc16_combine_loop_power:
  assumes "represents odd_m (crc16_arc_bit ^^ k)" and "0 < len2"
  shows "crc16_combine_loop odd_m crc1 len2 = (crc16_arc_bit ^^ (2 * k * len2)) crc1"
  using assms
proof (induction odd_m crc1 len2 arbitrary: k rule: crc16_combine_loop.induct)
  case (1 odd_m crc1 len2)
  let ?z = "\<lambda>n. crc16_arc_bit ^^ n"
  define even_m where "even_m = gf2_matrix_square_u16 odd_m"
  define odd_m2 where "odd_m2 = gf2_matrix_square_u16 even_m"
  define c1 where "c1 = (if len2 AND 1 = 1 then gf2_matrix_times_u16 even_m crc1 else crc1)"
  define m where "m = len2 div 2"
  define c2 where "c2 = (if m AND 1 = 1 then gf2_matrix_times_u16 odd_m2 c1 else c1)"
  have lin: "xor_linear (?z n)" for n
    by (rule xor_linear_funpow [OF crc16_arc_bit_linear])
  have even_m: "represents even_m (?z (2 * k))"
    using gf2_matrix_square_represents [OF lin 1(2)] by (simp add: even_m_def funpow_add [symmetric] mult_2)
  have odd_m2: "represents odd_m2 (?z (4 * k))"
    using gf2_matrix_square_represents [OF lin even_m]
    by (simp add: odd_m2_def funpow_add [symmetric] flip: distrib_right)
  have low: "n AND 1 = n mod 2" for n :: nat
    by (simp add: and_one_eq)
  have c1: "c1 = ?z (2 * k * (len2 mod 2)) crc1"
    by (cases "even len2") (auto simp: c1_def low gf2_matrix_times_linear [OF lin even_m] odd_iff_mod_2_eq_one)
  have c2: "c2 = ?z (4 * k * (m mod 2)) c1"
    by (cases "even m") (auto simp: c2_def low gf2_matrix_times_linear [OF lin odd_m2] odd_iff_mod_2_eq_one)
  have step: "?z a (?z b c) = ?z (a + b) c" for a b c
    by (simp add: funpow_add)
  have run: "crc16_combine_loop odd_m crc1 len2 =
      (if m = 0 then c1 else if m div 2 = 0 then c2 else crc16_combine_loop odd_m2 c2 (m div 2))"
    unfolding crc16_combine_loop.simps [of odd_m crc1 len2]
    by (simp only: Let_def c2_def c1_def odd_m2_def even_m_def m_def)
  have len2: "2 * k * len2 = 4 * k * m + 2 * k * (len2 mod 2)"
  proof -
    have "2 * k * len2 = 2 * k * (2 * m + len2 mod 2)" by (simp add: m_def)
    then show ?thesis by (simp add: algebra_simps)
  qed
  have c2_whole: "c2 = ?z (4 * k * (m mod 2) + 2 * k * (len2 mod 2)) crc1"
    by (simp only: c2 c1 step)
  show ?case
  proof (cases "m = 0")
    case True
    then have "2 * k * len2 = 2 * k * (len2 mod 2)"
      using len2 by (simp only: mult_0_right add_0)
    moreover have "crc16_combine_loop odd_m crc1 len2 = c1" using run True by simp
    ultimately show ?thesis using c1 by (simp only:)
  next
    case m: False
    show ?thesis
    proof (cases "m div 2 = 0")
      case True
      then have "m mod 2 = m" by simp
      then show ?thesis using run m True c2_whole len2 by simp
    next
      case False
      have "crc16_combine_loop odd_m2 c2 (m div 2) = ?z (2 * (4 * k) * (m div 2)) c2"
        using 1(1) [of even_m c1 m odd_m2 c2 "m div 2" "4 * k"] m False odd_m2
        by (simp add: c1_def c2_def even_m_def odd_m2_def m_def)
      also have "\<dots> = ?z (8 * k * (m div 2) + (4 * k * (m mod 2) + 2 * k * (len2 mod 2))) crc1"
        by (simp add: c2_whole step)
      also have "8 * k * (m div 2) + (4 * k * (m mod 2) + 2 * k * (len2 mod 2)) = 2 * k * len2"
      proof -
        have "4 * k * m = 4 * k * (2 * (m div 2) + m mod 2)"
          by (simp only: mult_div_mod_eq)
        then have "4 * k * m = 8 * k * (m div 2) + 4 * k * (m mod 2)"
          by (simp only: distrib_left)
        then show ?thesis using len2 by linarith
      qed
      finally show ?thesis using run m False by simp
    qed
  qed
qed

lemma crc16_arc_combine_append:
  "crc16_arc_combine (crc16_arc xs) (crc16_arc ys) (length ys) = crc16_arc (xs @ ys)"
proof (cases "ys = []")
  case True
  then show ?thesis by (simp add: crc16_arc_combine_def)
next
  case False
  let ?m = "gf2_matrix_square_u16 (gf2_matrix_square_u16 crc16_shift_matrix)"
  have 1: "represents crc16_shift_matrix (crc16_arc_bit ^^ 1)"
    using shift_matrix_represents by simp
  have lin: "xor_linear (crc16_arc_bit ^^ n)" for n
    by (rule xor_linear_funpow [OF crc16_arc_bit_linear])
  have "represents ?m (crc16_arc_bit ^^ 4)"
    using gf2_matrix_square_represents [OF lin gf2_matrix_square_represents [OF lin 1, folded funpow_add]]
    by (simp add: numeral_eq_Suc comp_assoc)
  then have "crc16_combine_loop ?m (crc16_arc xs) (length ys) = (crc16_arc_bit ^^ (8 * length ys)) (crc16_arc xs)"
    using False crc16_combine_loop_power [of ?m 4 "length ys"] by simp
  moreover have "crc16_arc (xs @ ys) = crc16_arc_from (crc16_arc xs) ys"
    by (simp add: crc16_arc_def crc16_arc_from_def)
  ultimately show ?thesis
    using False by (simp add: crc16_arc_combine_def Let_def crc16_arc_from_split)
qed

section \<open>Adler-32\<close>

definition ADLER32_MODULO :: nat where
  "ADLER32_MODULO = 65521"

text \<open>The sums are \<open>u64\<close>; every value stays below \<open>2 ^ 33\<close>, so they are natural numbers here.\<close>

definition adler32_combine :: "u32 \<Rightarrow> u32 \<Rightarrow> nat \<Rightarrow> u32" where
  "adler32_combine adler1 adler2 len2 =
     (if len2 = 0 then adler1
      else let a1 = unat (adler1 AND 0xffff);
               b1 = unat (drop_bit 16 adler1 AND 0xffff);
               a2 = unat (adler2 AND 0xffff);
               b2 = unat (drop_bit 16 adler2 AND 0xffff);
               a = (a1 + a2 + ADLER32_MODULO - 1) mod ADLER32_MODULO;
               len2_mod = len2 mod ADLER32_MODULO;
               a1_minus_one = (a1 + ADLER32_MODULO - 1) mod ADLER32_MODULO;
               b = (b1 + b2 + len2_mod * a1_minus_one) mod ADLER32_MODULO
           in push_bit 16 (word_of_nat b) OR word_of_nat a)"

text \<open>RFC 1950: two sums modulo 65521, started at 1 and 0, the second in the high half.\<close>

fun adler32_step :: "nat \<times> nat \<Rightarrow> u8 \<Rightarrow> nat \<times> nat" where
  "adler32_step (a, b) x =
     (let a = (a + unat x) mod ADLER32_MODULO in (a, (b + a) mod ADLER32_MODULO))"

definition adler32_sums :: "nat \<times> nat \<Rightarrow> bytes \<Rightarrow> nat \<times> nat" where
  "adler32_sums st bs = foldl adler32_step st bs"

definition adler32_pack :: "nat \<times> nat \<Rightarrow> u32" where
  "adler32_pack st = push_bit 16 (word_of_nat (snd st)) OR word_of_nat (fst st)"

definition adler32 :: "bytes \<Rightarrow> u32" where
  "adler32 bs = adler32_pack (adler32_sums (1, 0) bs)"

lemma adler32_sums_lt:
  "a < ADLER32_MODULO \<Longrightarrow> b < ADLER32_MODULO \<Longrightarrow> adler32_sums (a, b) bs = (a', b') \<Longrightarrow>
   a' < ADLER32_MODULO \<and> b' < ADLER32_MODULO"
proof (induction bs arbitrary: a b)
  case Nil
  then show ?case by (simp add: adler32_sums_def)
next
  case (Cons x bs)
  show ?case
    by (rule Cons.IH [of "(a + unat x) mod ADLER32_MODULO" "(b + (a + unat x) mod ADLER32_MODULO) mod ADLER32_MODULO"])
      (use Cons.prems in \<open>auto simp: adler32_sums_def Let_def ADLER32_MODULO_def\<close>)
qed

lemma adler32_unpack:
  assumes "a < ADLER32_MODULO" and "b < ADLER32_MODULO"
  shows "unat (adler32_pack (a, b) AND 0xffff) = a"
    and "unat (drop_bit 16 (adler32_pack (a, b)) AND 0xffff) = b"
proof -
  have lt: "a < 2 ^ 16" "b < 2 ^ 16"
    using assms by (simp_all add: ADLER32_MODULO_def)
  have mask: "(0xffff :: u32) = mask 16" by (simp add: mask_eq_exp_minus_1)
  have low: "i < 16" if "n < 2 ^ 16" "bit (word_of_nat n :: u32) i" for n i
  proof (rule ccontr)
    assume "\<not> i < 16"
    then have "n < 2 ^ i"
      using that(1) power_increasing [of 16 i "2 :: nat"] by simp
    moreover have "unat (word_of_nat n :: u32) = n"
      using that(1) by (simp add: unat_of_nat)
    ultimately have "\<not> bit (unat (word_of_nat n :: u32)) i" by (simp add: bit_iff_odd)
    then show False using that(2) by (simp add: bit_unsigned_iff)
  qed
  define x y :: u32 where "x = word_of_nat a" and "y = word_of_nat b"
  have x: "bit x i \<Longrightarrow> i < 16" and y: "bit y i \<Longrightarrow> i < 16" for i
    using low lt by (simp_all add: x_def y_def)
  have pack: "adler32_pack (a, b) = push_bit 16 y OR x"
    by (simp add: adler32_pack_def x_def y_def)
  have "(push_bit 16 y OR x) AND mask 16 = x"
    by (rule bit_eqI) (auto simp: bit_simps dest: x)
  then show "unat (adler32_pack (a, b) AND 0xffff) = a"
    unfolding pack mask using lt by (simp add: x_def unat_of_nat)
  have "drop_bit 16 (push_bit 16 y OR x) AND mask 16 = y"
    by (rule bit_eqI) (auto simp: bit_simps dest: x y)
  then show "unat (drop_bit 16 (adler32_pack (a, b)) AND 0xffff) = b"
    unfolding pack mask using lt by (simp add: y_def unat_of_nat)
qed

text \<open>The sums in closed form: each byte counts in the second sum once per byte that follows it.\<close>

fun weighted_sum :: "bytes \<Rightarrow> nat" where
  "weighted_sum [] = 0"
| "weighted_sum (x # xs) = Suc (length xs) * unat x + weighted_sum xs"

lemma adler32_sums_closed:
  assumes "a < ADLER32_MODULO" and "b < ADLER32_MODULO"
  shows "adler32_sums (a, b) bs =
    ((a + sum_list (map unat bs)) mod ADLER32_MODULO,
     (b + length bs * a + weighted_sum bs) mod ADLER32_MODULO)"
  using assms
proof (induction bs arbitrary: a b)
  case Nil
  then show ?case by (simp add: adler32_sums_def)
next
  case (Cons x bs)
  let ?m = ADLER32_MODULO
  let ?a = "(a + unat x) mod ?m"
  have m: "0 < ?m" by (simp add: ADLER32_MODULO_def)
  have "adler32_sums (a, b) (x # bs) = adler32_sums (?a, (b + ?a) mod ?m) bs"
    by (simp add: adler32_sums_def Let_def)
  also have "\<dots> = ((?a + sum_list (map unat bs)) mod ?m, ((b + ?a) mod ?m + length bs * ?a + weighted_sum bs) mod ?m)"
    using m by (intro Cons.IH) simp_all
  also have "\<dots> = ((a + unat x + sum_list (map unat bs)) mod ?m,
      (b + (a + unat x) + length bs * (a + unat x) + weighted_sum bs) mod ?m)"
    by (auto simp: mod_simps) (metis (no_types, lifting) add.assoc mod_add_left_eq mod_add_right_eq mod_mult_right_eq)
  finally show ?case by (simp add: algebra_simps)
qed

lemma adler32_combine_sums:
  assumes "a1 < ADLER32_MODULO" and "b1 < ADLER32_MODULO" and "ys \<noteq> []"
  shows "adler32_combine (adler32_pack (a1, b1)) (adler32 ys) (length ys) =
    adler32_pack (adler32_sums (a1, b1) ys)"
proof -
  let ?m = ADLER32_MODULO
  let ?n = "length ys" and ?s = "sum_list (map unat ys)" and ?t = "weighted_sum ys"
  have small: "1 < ?m" "0 < ?m" by (simp_all add: ADLER32_MODULO_def)
  have ys: "adler32_sums (1, 0) ys = ((1 + ?s) mod ?m, (?n + ?t) mod ?m)"
    using adler32_sums_closed [OF small, of ys] by simp
  have a: "(a1 + (1 + ?s) mod ?m + ?m - 1) mod ?m = (a1 + ?s) mod ?m"
  proof -
    have "(a1 + (1 + ?s) mod ?m + ?m - 1) mod ?m = (a1 + (?m - 1) + (1 + ?s) mod ?m) mod ?m"
      using small by (intro arg_cong [where f = "\<lambda>n. n mod ?m"]) linarith
    also have "\<dots> = (a1 + (?m - 1) + (1 + ?s)) mod ?m" by (simp add: mod_simps)
    also have "a1 + (?m - 1) + (1 + ?s) = (a1 + ?s) + ?m" using small by simp
    finally show ?thesis by simp
  qed
  have b: "(b1 + (?n + ?t) mod ?m + ?n mod ?m * ((a1 + ?m - 1) mod ?m)) mod ?m = (b1 + ?n * a1 + ?t) mod ?m"
  proof -
    have "(b1 + (?n + ?t) mod ?m + ?n mod ?m * ((a1 + ?m - 1) mod ?m)) mod ?m =
        (b1 + (?n + ?t) + ?n * (a1 + ?m - 1)) mod ?m"
      by (metis (no_types, lifting) mod_add_eq mod_add_right_eq mod_mult_eq)
    also have "b1 + (?n + ?t) + ?n * (a1 + ?m - 1) = (b1 + ?n * a1 + ?t) + ?n * ?m"
    proof -
      obtain q where "?m = Suc q" using small by (cases ?m) auto
      then have "?n * (a1 + ?m - 1) = ?n * a1 + ?n * q" "?n * ?m = ?n + ?n * q"
        by (simp_all add: \<open>?m = Suc q\<close> distrib_left)
      then show ?thesis by (simp only: ac_simps)
    qed
    finally show ?thesis by simp
  qed
  have "(1 + ?s) mod ?m < ?m" "(?n + ?t) mod ?m < ?m" using small by simp_all
  note ys_halves = adler32_unpack [OF this]
  show ?thesis
    unfolding adler32_combine_def adler32_def ys Let_def adler32_unpack [OF assms(1,2)] ys_halves a b
      adler32_sums_closed [OF assms(1,2)]
    using assms(3) by (simp add: adler32_pack_def)
qed

lemma adler32_combine_append:
  "adler32_combine (adler32 xs) (adler32 ys) (length ys) = adler32 (xs @ ys)"
proof (cases "ys = []")
  case True
  then show ?thesis by (simp add: adler32_combine_def)
next
  case False
  have small: "1 < ADLER32_MODULO" "0 < ADLER32_MODULO" by (simp_all add: ADLER32_MODULO_def)
  obtain a b where ab: "adler32_sums (1, 0) xs = (a, b)" by fastforce
  from adler32_sums_lt [OF small ab] have lt: "a < ADLER32_MODULO" "b < ADLER32_MODULO" by simp_all
  have "adler32_sums (1, 0) (xs @ ys) = adler32_sums (a, b) ys"
    using ab by (simp add: adler32_sums_def)
  then show ?thesis
    using adler32_combine_sums [OF lt False] ab unfolding adler32_def [of xs] adler32_def [of "xs @ ys"] by simp
qed

text \<open>The published check values of the two standards.\<close>

lemma crc16_arc_byte_unfold:
  "crc16_arc_byte c b = (let c = c XOR ucast b; c = crc16_arc_bit c; c = crc16_arc_bit c; c = crc16_arc_bit c;
     c = crc16_arc_bit c; c = crc16_arc_bit c; c = crc16_arc_bit c; c = crc16_arc_bit c in crc16_arc_bit c)"
  by (simp add: crc16_arc_byte_def Let_def numeral_eq_Suc)

lemma crc16_arc_check: "crc16_arc [0x31, 0x32, 0x33, 0x34, 0x35, 0x36, 0x37, 0x38, 0x39] = 0xBB3D"
  by (simp add: crc16_arc_def crc16_arc_from_def crc16_arc_byte_unfold crc16_arc_bit_def Let_def
      CRC16_ARC_REFLECTED_POLY_def bit_0 unsigned_ucast_eq)

lemma adler32_check: "adler32 [0x57, 0x69, 0x6B, 0x69, 0x70, 0x65, 0x64, 0x69, 0x61] = 0x11E60398"
  by (simp add: adler32_def adler32_sums_def adler32_pack_def Let_def ADLER32_MODULO_def)

end
