(* ===== verification/Checksum.thy ===== *)
theory Checksum
  imports Checksum_Combine Handlers
begin

text \<open>
  The checksum engine, \<open>rom-weaver-checksum/src\<close>: the algorithms, the hasher batch, the byte
  range of a request, the execution plan and the progress tracker (\<open>core.rs\<close>,
  \<open>planning.rs\<close>, \<open>reporting.rs\<close>), and every way a plan is carried out (\<open>execution.rs\<close>):
  sequentially, fanned out over the algorithms, or as chunk partials that are combined, each
  over the range held in memory or streamed from the file.  The hash functions live in
  third-party crates and are the fields of \<open>crates\<close>; what their documentation promises is
  \<open>crates_documented\<close>.  Texts are ASCII.
\<close>

section \<open>Text\<close>

definition ascii_whitespace :: "char \<Rightarrow> bool" where
  "ascii_whitespace c \<longleftrightarrow> (of_char c :: nat) \<in> {9, 10, 11, 12, 13, 32}"

definition trim :: "string \<Rightarrow> string" where
  "trim s = rev (dropWhile ascii_whitespace (rev (dropWhile ascii_whitespace s)))"

definition to_ascii_lowercase :: "string \<Rightarrow> string" where
  "to_ascii_lowercase =
     map (\<lambda>c. let n = of_char c :: nat in if 65 \<le> n \<and> n \<le> 90 then char_of (n + 32) else c)"

text \<open>\<open>{:x}\<close> and \<open>{}\<close> of an unsigned number, and zero padding to a width.\<close>

fun number_digits :: "nat \<Rightarrow> nat \<Rightarrow> string" where
  "number_digits base n =
     (if base \<le> 1 \<or> n < base then [''0123456789abcdef'' ! n]
      else number_digits base (n div base) @ [''0123456789abcdef'' ! (n mod base)])"

declare number_digits.simps [simp del]

definition hex_padded :: "nat \<Rightarrow> nat \<Rightarrow> string" where
  "hex_padded width n =
     (let digits = number_digits 16 n in replicate (width - length digits) (CHR ''0'') @ digits)"

definition hex_encode :: "bytes \<Rightarrow> string" where
  "hex_encode bs = concat (map (\<lambda>b. hex_padded 2 (unat b)) bs)"

section \<open>Algorithms\<close>

datatype algorithm = Crc32 | Md5 | Sha1 | Sha256 | Blake3 | Crc32c | Crc16 | Adler32

definition algorithm_parse :: "string \<Rightarrow> algorithm option" where
  "algorithm_parse s =
     (let v = to_ascii_lowercase (trim s)
      in if v = ''crc32'' then Some Crc32 else if v = ''md5'' then Some Md5
         else if v = ''sha1'' then Some Sha1 else if v = ''sha256'' then Some Sha256
         else if v = ''blake3'' then Some Blake3 else if v = ''crc32c'' then Some Crc32c
         else if v = ''crc16'' then Some Crc16 else if v = ''adler32'' then Some Adler32
         else None)"

fun algorithm_name :: "algorithm \<Rightarrow> string" where
  "algorithm_name Crc32 = ''crc32''"
| "algorithm_name Md5 = ''md5''"
| "algorithm_name Sha1 = ''sha1''"
| "algorithm_name Sha256 = ''sha256''"
| "algorithm_name Blake3 = ''blake3''"
| "algorithm_name Crc32c = ''crc32c''"
| "algorithm_name Crc16 = ''crc16''"
| "algorithm_name Adler32 = ''adler32''"

record algorithm_info =
  ai_id :: string
  ai_hex_len :: nat
  ai_label :: string

definition ALGORITHM_TABLE :: "algorithm_info list" where
  "ALGORITHM_TABLE =
     [\<lparr>ai_id = ''crc32'', ai_hex_len = 8, ai_label = ''CRC32''\<rparr>,
      \<lparr>ai_id = ''md5'', ai_hex_len = 32, ai_label = ''MD5''\<rparr>,
      \<lparr>ai_id = ''sha1'', ai_hex_len = 40, ai_label = ''SHA-1''\<rparr>,
      \<lparr>ai_id = ''sha256'', ai_hex_len = 64, ai_label = ''SHA-256''\<rparr>,
      \<lparr>ai_id = ''blake3'', ai_hex_len = 64, ai_label = ''BLAKE3''\<rparr>,
      \<lparr>ai_id = ''crc32c'', ai_hex_len = 8, ai_label = ''CRC32C''\<rparr>,
      \<lparr>ai_id = ''crc16'', ai_hex_len = 4, ai_label = ''CRC16''\<rparr>,
      \<lparr>ai_id = ''adler32'', ai_hex_len = 8, ai_label = ''Adler-32''\<rparr>]"

definition checksum_hex_len :: "string \<Rightarrow> nat option" where
  "checksum_hex_len algorithm =
     map_option ai_hex_len (find (\<lambda>info. ai_id info = algorithm) ALGORITHM_TABLE)"

definition BARE_FILENAME_ALGORITHMS :: "string list" where
  "BARE_FILENAME_ALGORITHMS = [''crc32'', ''md5'', ''sha1'']"

definition standard_algorithm_for_hex_len :: "nat \<Rightarrow> string option" where
  "standard_algorithm_for_hex_len hex_len =
     find (\<lambda>algo. checksum_hex_len algo = Some hex_len) BARE_FILENAME_ALGORITHMS"

definition unsupported_checksum_algorithm :: "string \<Rightarrow> weave_error" where
  "unsupported_checksum_algorithm value' =
     Validation (Msg ''unsupported checksum algorithm `{}`; expected {}, or {}''
       (Str value' # map (\<lambda>info. Str (ai_id info)) ALGORITHM_TABLE))"

text \<open>The algorithms in request order, each once; \<open>seen\<close> is the set the code keeps beside them.\<close>

definition resolve_algorithms :: "string list \<Rightarrow> algorithm list result" where
  "resolve_algorithms values =
     and_then (fold_result (\<lambda>v (algorithms, seen).
         and_then (ok_or (algorithm_parse v) (Err (unsupported_checksum_algorithm v))) (\<lambda>a.
           if a \<in> seen then Inr (algorithms, seen)
           else Inr (algorithms @ [a], insert a seen))) values ([], {}))
       (\<lambda>(algorithms, seen). Inr algorithms)"

section \<open>The hash crates\<close>

record 'h hasher_crate =
  hasher_new :: 'h
  hasher_update :: "'h \<Rightarrow> bytes \<Rightarrow> 'h"

record 'h crates =
  crc32_crate :: "'h hasher_crate"
  crc32_combine :: "'h \<Rightarrow> 'h \<Rightarrow> 'h"
  crc32_finalize :: "'h \<Rightarrow> u32"
  md5_crate :: "'h hasher_crate"
  md5_finalize :: "'h \<Rightarrow> bytes"
  sha1_crate :: "'h hasher_crate"
  sha1_finalize :: "'h \<Rightarrow> bytes"
  sha256_crate :: "'h hasher_crate"
  sha256_finalize :: "'h \<Rightarrow> bytes"
  blake3_crate :: "'h hasher_crate"
  blake3_update_rayon :: "'h \<Rightarrow> bytes \<Rightarrow> 'h"
  blake3_hex :: "'h \<Rightarrow> string"
  crc32c_append :: "u32 \<Rightarrow> bytes \<Rightarrow> u32"
  crc32c_combine :: "u32 \<Rightarrow> u32 \<Rightarrow> nat \<Rightarrow> u32"
  crc16_crate :: "'h hasher_crate"
  crc16_get :: "'h \<Rightarrow> u16"
  adler_crate :: "'h hasher_crate"
  adler_checksum :: "'h \<Rightarrow> u32"

text \<open>Feeding a hasher in pieces is feeding it their concatenation.\<close>

definition streams :: "'h hasher_crate \<Rightarrow> bool" where
  "streams c \<longleftrightarrow>
     (\<forall>s. hasher_update c s [] = s) \<and>
     (\<forall>s xs ys. hasher_update c (hasher_update c s xs) ys = hasher_update c s (xs @ ys))"

abbreviation fed :: "'h hasher_crate \<Rightarrow> bytes \<Rightarrow> 'h" where
  "fed c bs \<equiv> hasher_update c (hasher_new c) bs"

text \<open>
  What the crates document: the hashers stream; \<open>crc32fast\<close> and \<open>crc32c\<close> combine the hash of
  a block with that of the next one; \<open>blake3\<close>'s \<open>update_rayon\<close> is a parallel \<open>update\<close>;
  \<open>crc16\<close> computes CRC-16/ARC and \<open>adler2\<close> Adler-32.
\<close>

definition crates_documented :: "'h crates \<Rightarrow> bool" where
  "crates_documented k \<longleftrightarrow>
     streams (crc32_crate k) \<and> streams (md5_crate k) \<and> streams (sha1_crate k) \<and>
     streams (sha256_crate k) \<and> streams (blake3_crate k) \<and> streams (crc16_crate k) \<and>
     streams (adler_crate k) \<and>
     (\<forall>xs ys. crc32_combine k (fed (crc32_crate k) xs) (fed (crc32_crate k) ys) =
              fed (crc32_crate k) (xs @ ys)) \<and>
     (\<forall>s xs. blake3_update_rayon k s xs = hasher_update (blake3_crate k) s xs) \<and>
     (\<forall>c. crc32c_append k c [] = c) \<and>
     (\<forall>c xs ys. crc32c_append k (crc32c_append k c xs) ys = crc32c_append k c (xs @ ys)) \<and>
     (\<forall>xs ys. crc32c_combine k (crc32c_append k 0 xs) (crc32c_append k 0 ys) (length ys) =
              crc32c_append k 0 (xs @ ys)) \<and>
     (\<forall>xs. crc16_get k (fed (crc16_crate k) xs) = crc16_arc xs) \<and>
     (\<forall>xs. adler_checksum k (fed (adler_crate k) xs) = adler32 xs)"

section \<open>Hashers\<close>

datatype 'h hasher_state =
    HCrc32 'h | HMd5 'h | HSha1 'h | HSha256 'h | HBlake3 'h | HCrc32c u32 | HCrc16 'h | HAdler32 'h

fun hasher_state_new :: "'h crates \<Rightarrow> algorithm \<Rightarrow> 'h hasher_state" where
  "hasher_state_new k Crc32 = HCrc32 (hasher_new (crc32_crate k))"
| "hasher_state_new k Md5 = HMd5 (hasher_new (md5_crate k))"
| "hasher_state_new k Sha1 = HSha1 (hasher_new (sha1_crate k))"
| "hasher_state_new k Sha256 = HSha256 (hasher_new (sha256_crate k))"
| "hasher_state_new k Blake3 = HBlake3 (hasher_new (blake3_crate k))"
| "hasher_state_new k Crc32c = HCrc32c 0"
| "hasher_state_new k Crc16 = HCrc16 (hasher_new (crc16_crate k))"
| "hasher_state_new k Adler32 = HAdler32 (hasher_new (adler_crate k))"

fun hasher_state_update :: "'h crates \<Rightarrow> bytes \<Rightarrow> 'h hasher_state \<Rightarrow> 'h hasher_state" where
  "hasher_state_update k bs (HCrc32 s) = HCrc32 (hasher_update (crc32_crate k) s bs)"
| "hasher_state_update k bs (HMd5 s) = HMd5 (hasher_update (md5_crate k) s bs)"
| "hasher_state_update k bs (HSha1 s) = HSha1 (hasher_update (sha1_crate k) s bs)"
| "hasher_state_update k bs (HSha256 s) = HSha256 (hasher_update (sha256_crate k) s bs)"
| "hasher_state_update k bs (HBlake3 s) = HBlake3 (hasher_update (blake3_crate k) s bs)"
| "hasher_state_update k bs (HCrc32c c) = HCrc32c (crc32c_append k c bs)"
| "hasher_state_update k bs (HCrc16 s) = HCrc16 (hasher_update (crc16_crate k) s bs)"
| "hasher_state_update k bs (HAdler32 s) = HAdler32 (hasher_update (adler_crate k) s bs)"

fun hasher_state_finalize :: "'h crates \<Rightarrow> 'h hasher_state \<Rightarrow> string" where
  "hasher_state_finalize k (HCrc32 s) = hex_padded 8 (unat (crc32_finalize k s))"
| "hasher_state_finalize k (HMd5 s) = hex_encode (md5_finalize k s)"
| "hasher_state_finalize k (HSha1 s) = hex_encode (sha1_finalize k s)"
| "hasher_state_finalize k (HSha256 s) = hex_encode (sha256_finalize k s)"
| "hasher_state_finalize k (HBlake3 s) = blake3_hex k s"
| "hasher_state_finalize k (HCrc32c c) = hex_padded 8 (unat c)"
| "hasher_state_finalize k (HCrc16 s) = hex_padded 4 (unat (crc16_get k s))"
| "hasher_state_finalize k (HAdler32 s) = hex_padded 8 (unat (adler_checksum k s))"

type_synonym 'h hasher_batch = "(algorithm \<times> 'h hasher_state) list"
type_synonym checksum_map = "string \<rightharpoonup> string"

definition batch_new :: "'h crates \<Rightarrow> algorithm list \<Rightarrow> 'h hasher_batch" where
  "batch_new k algorithms = map (\<lambda>a. (a, hasher_state_new k a)) algorithms"

definition batch_update :: "'h crates \<Rightarrow> bytes \<Rightarrow> 'h hasher_batch \<Rightarrow> 'h hasher_batch" where
  "batch_update k bs batch = map (\<lambda>(a, s). (a, hasher_state_update k bs s)) batch"

definition batch_results :: "'h crates \<Rightarrow> 'h hasher_batch \<Rightarrow> checksum_map" where
  "batch_results k batch =
     fold (\<lambda>(a, s) m. m(algorithm_name a \<mapsto> hasher_state_finalize k s)) batch Map.empty"

section \<open>Requests and ranges\<close>

record checksum_request =
  ck_algorithms :: "string list"
  ck_start :: "nat option"
  ck_length :: "nat option"

record resolved_range =
  rr_start :: nat
  rr_len :: nat
  rr_file_len :: nat
  rr_explicit :: bool

definition resolved_range_from_request :: "bytes \<Rightarrow> nat option \<Rightarrow> nat option \<Rightarrow> resolved_range result" where
  "resolved_range_from_request source start len_opt =
     (let file_len = length source;
          start = (case start of None \<Rightarrow> 0 | Some s \<Rightarrow> s)
      in if start > file_len
         then invalid_fmt ''checksum range start {} is past the end of `{}` ({} bytes)''
                [Num start, Str ''source'', Num file_len]
         else let remaining = file_len - start;
                  len = (case len_opt of None \<Rightarrow> remaining | Some l \<Rightarrow> l)
              in if len > remaining
                 then invalid_fmt ''checksum range length {} exceeds the remaining bytes in `{}`''
                        [Num len, Str ''source'']
                 else Inr \<lparr>rr_start = start, rr_len = len, rr_file_len = file_len,
                           rr_explicit = (start \<noteq> 0 \<or> len_opt \<noteq> None)\<rparr>)"

definition rr_end :: "resolved_range \<Rightarrow> nat" where
  "rr_end r = rr_start r + rr_len r"

section \<open>Plans\<close>

datatype checksum_mode =
    Sequential | ParallelFanout | ParallelCrc32 | ParallelCrc32c | ParallelCrc16
  | ParallelAdler32 | ParallelBlake3

record checksum_plan =
  cp_mode :: checksum_mode
  cp_capability :: thread_capability

definition checksum_plan_sequential :: checksum_plan where
  "checksum_plan_sequential = \<lparr>cp_mode = Sequential, cp_capability = SingleThreaded\<rparr>"

definition checksum_plan_parallel :: "checksum_mode \<Rightarrow> nat \<Rightarrow> checksum_plan" where
  "checksum_plan_parallel mode max_threads =
     \<lparr>cp_mode = mode, cp_capability = Parallel (Some (max max_threads 1))\<rparr>"

definition MAX_EAGER_MAP_RANGE_BYTES :: nat where
  "MAX_EAGER_MAP_RANGE_BYTES = 32 * 1024 * 1024"

definition MIN_CHUNK_SIZE :: nat where
  "MIN_CHUNK_SIZE = 256 * 1024"

definition MAX_CHUNK_SIZE :: nat where
  "MAX_CHUNK_SIZE = 4 * 1024 * 1024"

definition TARGET_CHUNKS_PER_WORKER :: nat where
  "TARGET_CHUNKS_PER_WORKER = 8"

definition FANOUT_PARALLEL_THRESHOLD :: nat where
  "FANOUT_PARALLEL_THRESHOLD = 8 * 1024 * 1024"

record parallel_single_algorithm =
  ps_algorithm :: algorithm
  ps_mode :: checksum_mode
  ps_threshold :: nat
  ps_min_bytes_per_thread :: nat
  ps_max_threads :: nat

definition PARALLEL_SINGLE_ALGORITHM_TABLE :: "parallel_single_algorithm list" where
  "PARALLEL_SINGLE_ALGORITHM_TABLE =
     map (\<lambda>(algorithm, mode, threads).
            \<lparr>ps_algorithm = algorithm, ps_mode = mode, ps_threshold = 32 * 1024 * 1024,
             ps_min_bytes_per_thread = 16 * 1024 * 1024, ps_max_threads = threads\<rparr>)
       [(Crc32, ParallelCrc32, 4), (Crc32c, ParallelCrc32c, 4), (Crc16, ParallelCrc16, 4),
        (Adler32, ParallelAdler32, 4), (Blake3, ParallelBlake3, 8)]"

definition parallel_max_threads :: "nat \<Rightarrow> nat \<Rightarrow> nat \<Rightarrow> nat" where
  "parallel_max_threads range_len min_bytes_per_thread max_threads =
     min (max (range_len div min_bytes_per_thread) 1) max_threads"

definition plan_checksum :: "algorithm list \<Rightarrow> resolved_range \<Rightarrow> checksum_plan" where
  "plan_checksum algorithms rng =
     (let single = (case algorithms of
            [algorithm] \<Rightarrow>
              (case find (\<lambda>entry. ps_algorithm entry = algorithm) PARALLEL_SINGLE_ALGORITHM_TABLE of
                 Some entry \<Rightarrow>
                   if ps_threshold entry \<le> rr_len rng
                   then let max_threads = parallel_max_threads (rr_len rng)
                              (ps_min_bytes_per_thread entry) (ps_max_threads entry)
                        in if 1 < max_threads
                           then Some (checksum_plan_parallel (ps_mode entry) max_threads) else None
                   else None
               | None \<Rightarrow> None)
          | _ \<Rightarrow> None)
      in case single of
           Some plan \<Rightarrow> plan
         | None \<Rightarrow>
             if 1 < length algorithms \<and> FANOUT_PARALLEL_THRESHOLD \<le> rr_len rng
             then checksum_plan_parallel ParallelFanout (length algorithms)
             else checksum_plan_sequential)"

definition tuned_chunk_size :: "nat \<Rightarrow> nat \<Rightarrow> nat" where
  "tuned_chunk_size range_len worker_count =
     (let workers = max worker_count 1;
          suggested = max (range_len div (workers * TARGET_CHUNKS_PER_WORKER)) 1
      in min (max suggested MIN_CHUNK_SIZE) MAX_CHUNK_SIZE)"

definition crc32_parallel_chunk_size :: "nat \<Rightarrow> nat \<Rightarrow> nat" where
  "crc32_parallel_chunk_size range_len worker_count =
     min (max (div_ceil range_len (max worker_count 1)) 1) MAX_CHUNK_SIZE"

section \<open>Progress\<close>

text \<open>The callback is the list of the events it was given.\<close>

record checksum_progress =
  processed_bytes :: nat
  total_bytes :: nat

record progress_tracker =
  pt_total :: nat
  pt_processed :: nat
  pt_next_percent :: nat
  pt_events :: "checksum_progress list"

definition tracker_new :: "nat \<Rightarrow> progress_tracker" where
  "tracker_new total_len = \<lparr>pt_total = total_len, pt_processed = 0, pt_next_percent = 1, pt_events = []\<rparr>"

definition tracker_percent :: "progress_tracker \<Rightarrow> nat" where
  "tracker_percent t =
     (if pt_total t \<le> pt_processed t then 100
      else saturating_mul (pt_processed t) 100 div pt_total t)"

definition maybe_emit :: "progress_tracker \<Rightarrow> progress_tracker" where
  "maybe_emit t =
     (if pt_total t = 0 then t
      else let percent = tracker_percent t
           in if percent < pt_next_percent t then t
              else t\<lparr>pt_events := pt_events t @ [\<lparr>processed_bytes = pt_processed t, total_bytes = pt_total t\<rparr>],
                     pt_next_percent := min (saturating_add percent 1) 101\<rparr>)"

definition tracker_advance :: "nat \<Rightarrow> progress_tracker \<Rightarrow> progress_tracker" where
  "tracker_advance delta_bytes t =
     (if pt_total t = 0 then t
      else maybe_emit (t\<lparr>pt_processed := min (saturating_add (pt_processed t) delta_bytes) (pt_total t)\<rparr>))"

definition tracker_finish :: "progress_tracker \<Rightarrow> progress_tracker" where
  "tracker_finish t =
     (if pt_total t = 0 then t else maybe_emit (t\<lparr>pt_processed := pt_total t\<rparr>))"

end
