(* ===== verification/Checksum_Execution.thy ===== *)
theory Checksum_Execution
  imports Checksum
begin

text \<open>
  Carrying out a checksum plan: \<open>execution.rs\<close>, \<open>execute_plan\<close> and the entry points of
  \<open>planning.rs\<close>, and the engine's own entry points of \<open>core.rs\<close>.  A file is its bytes; how many bytes one
  \<open>read\<close> returns is up to the system and a parameter \<open>rd\<close>, from the position and the size of
  the buffer.  \<open>file_read\<close> caps it by both, so an empty read is the end of the file, and
  \<open>fair_reads\<close> says that a read returns something before the end.
\<close>

section \<open>Reading a range\<close>

type_synonym reads = "nat \<Rightarrow> nat \<Rightarrow> nat"

definition file_read :: "reads \<Rightarrow> bytes \<Rightarrow> nat \<Rightarrow> nat \<Rightarrow> bytes" where
  "file_read rd f pos limit = segment f pos (min limit (rd pos limit))"

definition fair_reads :: "reads \<Rightarrow> bool" where
  "fair_reads rd \<longleftrightarrow> (\<forall>pos limit. 0 < limit \<longrightarrow> 0 < rd pos limit)"

text \<open>\<open>bytes.chunks(n)\<close>, for a positive size.\<close>

function byte_chunks :: "nat \<Rightarrow> bytes \<Rightarrow> bytes list" where
  "byte_chunks n bs = (if bs = [] \<or> n = 0 then [] else take n bs # byte_chunks n (drop n bs))"
  by pat_completeness auto
termination by (relation "measure (\<lambda>(n, bs). length bs)") auto

declare byte_chunks.simps [simp del]

text \<open>
  The \<open>while remaining > 0\<close> loop around \<open>file.read\<close>: \<open>step\<close> is what the body does with the
  chunk it read.
\<close>

function stream_loop ::
  "reads \<Rightarrow> bytes \<Rightarrow> nat \<Rightarrow> nat \<Rightarrow> nat \<Rightarrow> (bytes \<Rightarrow> 's \<Rightarrow> 's) \<Rightarrow> 's \<Rightarrow> 's result" where
  "stream_loop rd f pos remaining buffer_len step st =
     (if remaining = 0 then Inr st
      else let chunk = file_read rd f pos (min remaining buffer_len)
           in if chunk = [] then Err (Io UnexpectedEof)
              else stream_loop rd f (pos + length chunk) (remaining - length chunk) buffer_len step
                     (step chunk st))"
  by pat_completeness auto
termination by (relation "measure (\<lambda>(rd, f, pos, remaining, buffer_len, step, st). remaining)") auto

declare stream_loop.simps [simp del]

definition map_range :: "bytes \<Rightarrow> resolved_range \<Rightarrow> bytes option" where
  "map_range source rng =
     (if rr_file_len rng = 0 \<or> rr_len rng = 0 then None
      else if rr_len rng > MAX_EAGER_MAP_RANGE_BYTES then None
      else case seek_read_exact source (rr_start rng) (rr_len rng) of
             Inl _ \<Rightarrow> None
           | Inr bs \<Rightarrow> Some bs)"

section \<open>Sequential and fanned out\<close>

type_synonym values_progress = "checksum_map \<times> progress_tracker"

definition batch_step ::
  "'h crates \<Rightarrow> bytes \<Rightarrow> 'h hasher_batch \<times> progress_tracker \<Rightarrow> 'h hasher_batch \<times> progress_tracker" where
  "batch_step k chunk st = (batch_update k chunk (fst st), tracker_advance (length chunk) (snd st))"

definition compute_sequential_mapped ::
  "'h crates \<Rightarrow> bytes \<Rightarrow> algorithm list \<Rightarrow> thread_execution \<Rightarrow> progress_tracker \<Rightarrow> values_progress result"
where
  "compute_sequential_mapped k bs algorithms execution progress =
     (let chunk_size = tuned_chunk_size (length bs) (effective_threads execution);
          (batch, progress) = fold (batch_step k) (byte_chunks (max chunk_size 1) bs)
                                (batch_new k algorithms, progress)
      in Inr (batch_results k batch, progress))"

definition compute_sequential_stream ::
  "'h crates \<Rightarrow> reads \<Rightarrow> bytes \<Rightarrow> resolved_range \<Rightarrow> algorithm list \<Rightarrow> thread_execution \<Rightarrow>
   progress_tracker \<Rightarrow> values_progress result"
where
  "compute_sequential_stream k rd source rng algorithms execution progress =
     (let chunk_size = tuned_chunk_size (rr_len rng) (effective_threads execution)
      in and_then (stream_loop rd source (rr_start rng) (rr_len rng) chunk_size (batch_step k)
                     (batch_new k algorithms, progress))
           (\<lambda>(batch, progress). Inr (batch_results k batch, progress)))"

definition compute_sequential ::
  "'h crates \<Rightarrow> reads \<Rightarrow> bytes option \<Rightarrow> bytes \<Rightarrow> resolved_range \<Rightarrow> algorithm list \<Rightarrow>
   thread_execution \<Rightarrow> progress_tracker \<Rightarrow> values_progress result"
where
  "compute_sequential k rd mapped source rng algorithms execution progress =
     (case mapped of
        Some bs \<Rightarrow> compute_sequential_mapped k bs algorithms execution progress
      | None \<Rightarrow> compute_sequential_stream k rd source rng algorithms execution progress)"

text \<open>Dealing items out in turn, without the groups that stay empty.\<close>

definition deal_round_robin :: "'a list \<Rightarrow> nat \<Rightarrow> 'a list list" where
  "deal_round_robin items count =
     filter (\<lambda>g. g \<noteq> [])
       (fold (\<lambda>(index, item) groups.
               groups[index mod count := groups ! (index mod count) @ [item]])
          (enumerate 0 items) (replicate count []))"

definition partition_algorithms :: "algorithm list \<Rightarrow> nat \<Rightarrow> algorithm list list" where
  "partition_algorithms algorithms worker_count = deal_round_robin algorithms worker_count"

definition fanout_worker_count :: "thread_execution \<Rightarrow> algorithm list \<Rightarrow> nat" where
  "fanout_worker_count execution algorithms =
     max (min (effective_threads execution) (length algorithms)) 1"

definition fanout_step ::
  "'h crates \<Rightarrow> bytes \<Rightarrow> 'h hasher_batch list \<times> progress_tracker \<Rightarrow>
   'h hasher_batch list \<times> progress_tracker" where
  "fanout_step k chunk st =
     (map (batch_update k chunk) (fst st), tracker_advance (length chunk) (snd st))"

text \<open>\<open>results.extend\<close> over the workers in order.\<close>

definition fanout_results :: "'h crates \<Rightarrow> 'h hasher_batch list \<Rightarrow> checksum_map" where
  "fanout_results k workers = fold (\<lambda>worker m. m ++ batch_results k worker) workers Map.empty"

definition compute_parallel_fanout_mapped ::
  "'h crates \<Rightarrow> bytes \<Rightarrow> algorithm list \<Rightarrow> thread_execution \<Rightarrow> progress_tracker \<Rightarrow> values_progress result"
where
  "compute_parallel_fanout_mapped k bs algorithms execution progress =
     (let worker_count = fanout_worker_count execution algorithms;
          workers = map (batch_new k) (partition_algorithms algorithms worker_count);
          chunk_size = tuned_chunk_size (length bs) worker_count;
          (workers, progress) = fold (fanout_step k) (byte_chunks (max chunk_size 1) bs) (workers, progress)
      in Inr (fanout_results k workers, progress))"

definition compute_parallel_fanout_stream ::
  "'h crates \<Rightarrow> reads \<Rightarrow> bytes \<Rightarrow> resolved_range \<Rightarrow> algorithm list \<Rightarrow> thread_execution \<Rightarrow>
   progress_tracker \<Rightarrow> values_progress result"
where
  "compute_parallel_fanout_stream k rd source rng algorithms execution progress =
     (let worker_count = fanout_worker_count execution algorithms;
          workers = map (batch_new k) (partition_algorithms algorithms worker_count);
          chunk_size = tuned_chunk_size (rr_len rng) worker_count
      in and_then (stream_loop rd source (rr_start rng) (rr_len rng) chunk_size (fanout_step k)
                     (workers, progress))
           (\<lambda>(workers, progress). Inr (fanout_results k workers, progress)))"

definition compute_parallel_fanout ::
  "'h crates \<Rightarrow> reads \<Rightarrow> bytes option \<Rightarrow> bytes \<Rightarrow> resolved_range \<Rightarrow> algorithm list \<Rightarrow>
   thread_execution \<Rightarrow> progress_tracker \<Rightarrow> values_progress result"
where
  "compute_parallel_fanout k rd mapped source rng algorithms execution progress =
     (case mapped of
        Some bs \<Rightarrow> compute_parallel_fanout_mapped k bs algorithms execution progress
      | None \<Rightarrow> compute_parallel_fanout_stream k rd source rng algorithms execution progress)"

section \<open>Chunk partials\<close>

definition collect_parallel_partials_mapped ::
  "bytes \<Rightarrow> nat \<Rightarrow> (bytes \<Rightarrow> 'p) \<Rightarrow> progress_tracker \<Rightarrow> ('p result list \<times> progress_tracker) result" where
  "collect_parallel_partials_mapped bs chunk_size compute_partial progress =
     Inr (map (\<lambda>chunk. Inr (compute_partial chunk)) (byte_chunks (max chunk_size 1) bs),
          tracker_advance (length bs) progress)"

text \<open>The inner loop fills one batch; it returns the batch with the new position and remainder.\<close>

fun read_batch ::
  "reads \<Rightarrow> bytes \<Rightarrow> nat \<Rightarrow> nat \<Rightarrow> nat \<Rightarrow> nat \<Rightarrow> (bytes list \<times> nat \<times> nat) result" where
  "read_batch rd f pos remaining chunk_size 0 = Inr ([], pos, remaining)"
| "read_batch rd f pos remaining chunk_size (Suc room) =
     (if remaining = 0 then Inr ([], pos, remaining)
      else let chunk = file_read rd f pos (min remaining chunk_size)
           in if chunk = [] then Err (Io UnexpectedEof)
              else and_then (read_batch rd f (pos + length chunk) (remaining - length chunk) chunk_size room)
                     (\<lambda>(batch, pos, remaining). Inr (chunk # batch, pos, remaining)))"

lemma read_batch_progress:
  "read_batch rd f pos remaining chunk_size room = Inr (batch, pos', remaining') \<Longrightarrow>
   remaining' \<le> remaining \<and> (0 < room \<longrightarrow> 0 < remaining \<longrightarrow> remaining' < remaining)"
proof (induction room arbitrary: pos remaining batch)
  case 0
  then show ?case by simp
next
  case (Suc room)
  show ?case
  proof (cases "remaining = 0")
    case True
    then show ?thesis using Suc.prems by simp
  next
    case False
    let ?chunk = "file_read rd f pos (min remaining chunk_size)"
    from Suc.prems False have ne: "?chunk \<noteq> []" by (auto simp: Let_def)
    with Suc.prems False obtain batch'
      where "read_batch rd f (pos + length ?chunk) (remaining - length ?chunk) chunk_size room =
        Inr (batch', pos', remaining')"
      by (auto simp: Let_def result_iff)
    from Suc.IH [OF this] have "remaining' \<le> remaining - length ?chunk" by simp
    moreover have "remaining - length ?chunk < remaining" using ne False by simp
    ultimately show ?thesis by linarith
  qed
qed

function collect_partials_loop ::
  "reads \<Rightarrow> bytes \<Rightarrow> nat \<Rightarrow> nat \<Rightarrow> nat \<Rightarrow> nat \<Rightarrow> (bytes \<Rightarrow> 'p) \<Rightarrow>
   'p result list \<times> progress_tracker \<Rightarrow> ('p result list \<times> progress_tracker) result" where
  "collect_partials_loop rd f pos remaining chunk_size batch_chunks compute_partial st =
     (if remaining = 0 then Inr st
      else and_then (read_batch rd f pos remaining chunk_size (max batch_chunks 1)) (\<lambda>(batch, pos', remaining').
           collect_partials_loop rd f pos' remaining' chunk_size batch_chunks compute_partial
             (fst st @ map (\<lambda>chunk. Inr (compute_partial chunk)) batch,
              tracker_advance (sum_list (map length batch)) (snd st))))"
  by pat_completeness auto
termination
  by (relation "measure (\<lambda>(rd, f, pos, remaining, chunk_size, batch_chunks, compute_partial, st). remaining)")
    (auto dest!: read_batch_progress)

declare collect_partials_loop.simps [simp del]

definition collect_parallel_partials_stream ::
  "reads \<Rightarrow> bytes \<Rightarrow> resolved_range \<Rightarrow> nat \<Rightarrow> (bytes \<Rightarrow> 'p) \<Rightarrow> progress_tracker \<Rightarrow>
   ('p result list \<times> progress_tracker) result" where
  "collect_parallel_partials_stream rd source rng worker_count compute_partial progress =
     (let chunk_size = crc32_parallel_chunk_size (rr_len rng) worker_count;
          batch_chunks = max worker_count 1
      in collect_partials_loop rd source (rr_start rng) (rr_len rng) chunk_size batch_chunks
           compute_partial ([], progress))"

definition compute_parallel_chunked_checksum ::
  "reads \<Rightarrow> bytes option \<Rightarrow> bytes \<Rightarrow> resolved_range \<Rightarrow> thread_execution \<Rightarrow> progress_tracker \<Rightarrow>
   string \<Rightarrow> (bytes \<Rightarrow> 'p) \<Rightarrow> ('p result list \<Rightarrow> 'c result) \<Rightarrow> ('c \<Rightarrow> string) \<Rightarrow> values_progress result"
where
  "compute_parallel_chunked_checksum rd mapped source rng execution progress
     algorithm_nm compute_partial combine_partials format_combined =
     (let worker_count = max (effective_threads execution) 1;
          chunk_size = crc32_parallel_chunk_size (rr_len rng) worker_count
      in and_then
           (case mapped of
              Some bs \<Rightarrow> collect_parallel_partials_mapped bs chunk_size compute_partial progress
            | None \<Rightarrow> collect_parallel_partials_stream rd source rng worker_count compute_partial progress)
           (\<lambda>(partials, progress). and_then (combine_partials partials) (\<lambda>combined.
              Inr ([algorithm_nm \<mapsto> format_combined combined], progress))))"

text \<open>
  The combining functions take the first partial (or the digest of nothing) and fold the rest
  into it; an error among the partials is returned.
\<close>

definition combine_crc32_partials :: "'h crates \<Rightarrow> 'h result list \<Rightarrow> 'h result" where
  "combine_crc32_partials k partials =
     and_then (case partials of [] \<Rightarrow> Inr (hasher_new (crc32_crate k)) | p # _ \<Rightarrow> p) (\<lambda>combined.
       fold_result (\<lambda>partial combined. and_then partial (\<lambda>p. Inr (crc32_combine k combined p)))
         (tl partials) combined)"

definition combine_lengths ::
  "('c \<Rightarrow> 'c \<Rightarrow> nat \<Rightarrow> 'c) \<Rightarrow> 'c \<Rightarrow> ('c \<times> nat) result list \<Rightarrow> 'c result" where
  "combine_lengths combine init partials =
     and_then (case partials of [] \<Rightarrow> Inr (init, 0) | p # _ \<Rightarrow> p) (\<lambda>(combined, _).
       fold_result (\<lambda>partial combined.
           and_then partial (\<lambda>(crc, len). Inr (combine combined crc len)))
         (tl partials) combined)"

definition combine_crc32c_partials :: "'h crates \<Rightarrow> (u32 \<times> nat) result list \<Rightarrow> u32 result" where
  "combine_crc32c_partials k = combine_lengths (crc32c_combine k) 0"

definition combine_crc16_partials :: "(u16 \<times> nat) result list \<Rightarrow> u16 result" where
  "combine_crc16_partials = combine_lengths crc16_arc_combine 0"

definition combine_adler32_partials :: "(u32 \<times> nat) result list \<Rightarrow> u32 result" where
  "combine_adler32_partials = combine_lengths adler32_combine 1"

definition compute_parallel_crc32 ::
  "'h crates \<Rightarrow> reads \<Rightarrow> bytes option \<Rightarrow> bytes \<Rightarrow> resolved_range \<Rightarrow> thread_execution \<Rightarrow>
   progress_tracker \<Rightarrow> values_progress result" where
  "compute_parallel_crc32 k rd mapped source rng execution progress =
     compute_parallel_chunked_checksum rd mapped source rng execution progress (algorithm_name Crc32)
       (\<lambda>chunk. hasher_update (crc32_crate k) (hasher_new (crc32_crate k)) chunk)
       (combine_crc32_partials k)
       (\<lambda>combined. hex_padded 8 (unat (crc32_finalize k combined)))"

definition compute_parallel_crc32c ::
  "'h crates \<Rightarrow> reads \<Rightarrow> bytes option \<Rightarrow> bytes \<Rightarrow> resolved_range \<Rightarrow> thread_execution \<Rightarrow>
   progress_tracker \<Rightarrow> values_progress result" where
  "compute_parallel_crc32c k rd mapped source rng execution progress =
     compute_parallel_chunked_checksum rd mapped source rng execution progress (algorithm_name Crc32c)
       (\<lambda>chunk. (crc32c_append k 0 chunk, length chunk))
       (combine_crc32c_partials k) (\<lambda>combined. hex_padded 8 (unat combined))"

definition compute_parallel_crc16 ::
  "'h crates \<Rightarrow> reads \<Rightarrow> bytes option \<Rightarrow> bytes \<Rightarrow> resolved_range \<Rightarrow> thread_execution \<Rightarrow>
   progress_tracker \<Rightarrow> values_progress result" where
  "compute_parallel_crc16 k rd mapped source rng execution progress =
     compute_parallel_chunked_checksum rd mapped source rng execution progress (algorithm_name Crc16)
       (\<lambda>chunk. (crc16_get k (hasher_update (crc16_crate k) (hasher_new (crc16_crate k)) chunk), length chunk))
       combine_crc16_partials (\<lambda>combined. hex_padded 4 (unat combined))"

definition adler32_checksum :: "'h crates \<Rightarrow> bytes \<Rightarrow> u32" where
  "adler32_checksum k bs = adler_checksum k (hasher_update (adler_crate k) (hasher_new (adler_crate k)) bs)"

definition compute_parallel_adler32 ::
  "'h crates \<Rightarrow> reads \<Rightarrow> bytes option \<Rightarrow> bytes \<Rightarrow> resolved_range \<Rightarrow> thread_execution \<Rightarrow>
   progress_tracker \<Rightarrow> values_progress result" where
  "compute_parallel_adler32 k rd mapped source rng execution progress =
     compute_parallel_chunked_checksum rd mapped source rng execution progress (algorithm_name Adler32)
       (\<lambda>chunk. (adler32_checksum k chunk, length chunk))
       combine_adler32_partials (\<lambda>combined. hex_padded 8 (unat combined))"

definition blake3_step ::
  "'h crates \<Rightarrow> bytes \<Rightarrow> 'h \<times> progress_tracker \<Rightarrow> 'h \<times> progress_tracker" where
  "blake3_step k chunk st = (blake3_update_rayon k (fst st) chunk, tracker_advance (length chunk) (snd st))"

definition compute_parallel_blake3 ::
  "'h crates \<Rightarrow> reads \<Rightarrow> bytes option \<Rightarrow> bytes \<Rightarrow> resolved_range \<Rightarrow> thread_execution \<Rightarrow>
   progress_tracker \<Rightarrow> values_progress result" where
  "compute_parallel_blake3 k rd mapped source rng execution progress =
     (let hasher = hasher_new (blake3_crate k);
          chunk_size = tuned_chunk_size (rr_len rng) (effective_threads execution)
      in and_then
           (case mapped of
              Some bs \<Rightarrow> Inr (fold (blake3_step k) (byte_chunks (max chunk_size 1) bs) (hasher, progress))
            | None \<Rightarrow> stream_loop rd source (rr_start rng) (rr_len rng) chunk_size (blake3_step k) (hasher, progress))
           (\<lambda>(hasher, progress). Inr ([algorithm_name Blake3 \<mapsto> blake3_hex k hasher], progress)))"

section \<open>Plans carried out\<close>

definition execute_plan ::
  "'h crates \<Rightarrow> reads \<Rightarrow> op_context \<Rightarrow> bytes \<Rightarrow> resolved_range \<Rightarrow> algorithm list \<Rightarrow> checksum_plan \<Rightarrow>
   (thread_execution \<times> values_progress) result" where
  "execute_plan k rd ctx source rng algorithms plan =
     (let mapped = map_range source rng;
          execution = plan_threads ctx (cp_capability plan);
          progress = tracker_new (rr_len rng);
          finished = (\<lambda>(computed, progress). Inr (execution, computed, tracker_finish progress))
      in if \<not> used_parallelism execution \<or> effective_threads execution = 1
         then and_then (compute_sequential k rd mapped source rng algorithms execution progress) finished
         else and_then (build_pool ctx (cp_capability plan)) (\<lambda>_.
              and_then
                (case cp_mode plan of
                   Sequential \<Rightarrow> compute_sequential k rd mapped source rng algorithms execution progress
                 | ParallelFanout \<Rightarrow> compute_parallel_fanout k rd mapped source rng algorithms execution progress
                 | ParallelCrc32 \<Rightarrow> compute_parallel_crc32 k rd mapped source rng execution progress
                 | ParallelCrc32c \<Rightarrow> compute_parallel_crc32c k rd mapped source rng execution progress
                 | ParallelCrc16 \<Rightarrow> compute_parallel_crc16 k rd mapped source rng execution progress
                 | ParallelAdler32 \<Rightarrow> compute_parallel_adler32 k rd mapped source rng execution progress
                 | ParallelBlake3 \<Rightarrow> compute_parallel_blake3 k rd mapped source rng execution progress)
                finished))"

text \<open>\<open>ChecksumValues\<close>, with the events its progress callback received.\<close>

record checksum_values =
  cv_execution :: thread_execution
  cv_values :: checksum_map
  cv_events :: "checksum_progress list"

definition compute_checksum_values ::
  "'h crates \<Rightarrow> reads \<Rightarrow> op_context \<Rightarrow> bytes \<Rightarrow> checksum_request \<Rightarrow> checksum_values result" where
  "compute_checksum_values k rd ctx source request =
     and_then (resolve_algorithms (ck_algorithms request)) (\<lambda>algorithms.
     and_then (resolved_range_from_request source (ck_start request) (ck_length request)) (\<lambda>rng.
       if algorithms = []
       then Inr \<lparr>cv_execution = plan_threads ctx SingleThreaded, cv_values = Map.empty, cv_events = []\<rparr>
       else and_then (execute_plan k rd ctx source rng algorithms (plan_checksum algorithms rng))
              (\<lambda>(execution, values, progress).
                 Inr \<lparr>cv_execution = execution, cv_values = values, cv_events = pt_events progress\<rparr>)))"

definition planned_checksum_execution ::
  "op_context \<Rightarrow> bytes \<Rightarrow> checksum_request \<Rightarrow> thread_execution result" where
  "planned_checksum_execution ctx source request =
     and_then (resolve_algorithms (ck_algorithms request)) (\<lambda>algorithms.
     and_then (resolved_range_from_request source (ck_start request) (ck_length request)) (\<lambda>rng.
       Inr (plan_threads ctx (if algorithms = [] then SingleThreaded
                              else cp_capability (plan_checksum algorithms rng)))))"

definition checksum_file_values ::
  "'h crates \<Rightarrow> reads \<Rightarrow> op_context \<Rightarrow> bytes \<Rightarrow> string list \<Rightarrow> checksum_map result" where
  "checksum_file_values k rd ctx source algorithms =
     and_then (compute_checksum_values k rd ctx source
                 \<lparr>ck_algorithms = algorithms, ck_start = None, ck_length = None\<rparr>)
       (\<lambda>v. Inr (cv_values v))"

section \<open>Reports\<close>

definition join_strings :: "string \<Rightarrow> string list \<Rightarrow> string" where
  "join_strings sep parts = (case parts of [] \<Rightarrow> [] | p # ps \<Rightarrow> p @ concat (map (\<lambda>q. sep @ q) ps))"

definition render_label :: "algorithm list \<Rightarrow> checksum_map \<Rightarrow> resolved_range \<Rightarrow> string" where
  "render_label algorithms results rng =
     join_strings '' ''
       ((if rr_explicit rng
         then [''range='' @ number_digits 10 (rr_start rng) @ ''..'' @ number_digits 10 (rr_end rng)]
         else []) @
        concat (map (\<lambda>a. case results (algorithm_name a) of
                           None \<Rightarrow> []
                         | Some v \<Rightarrow> [algorithm_name a @ ''='' @ v]) algorithms))"

record checksum_report =
  kr_stage :: string
  kr_label :: string
  kr_execution :: thread_execution
  kr_checksums :: checksum_map

definition run_checksum ::
  "'h crates \<Rightarrow> reads \<Rightarrow> op_context \<Rightarrow> bytes \<Rightarrow> checksum_request \<Rightarrow> string \<Rightarrow> checksum_report result" where
  "run_checksum k rd ctx source request stage =
     and_then (resolve_algorithms (ck_algorithms request)) (\<lambda>algorithms.
     and_then (resolved_range_from_request source (ck_start request) (ck_length request)) (\<lambda>rng.
     and_then (compute_checksum_values k rd ctx source request) (\<lambda>computed.
       Inr \<lparr>kr_stage = stage, kr_label = render_label algorithms (cv_values computed) rng,
            kr_execution = cv_execution computed, kr_checksums = cv_values computed\<rparr>)))"

section \<open>Readers without a known length\<close>

text \<open>The \<open>loop\<close> that stops at an empty read; a reader is the file from position 0.\<close>

function read_to_end ::
  "reads \<Rightarrow> bytes \<Rightarrow> nat \<Rightarrow> nat \<Rightarrow> (bytes \<Rightarrow> 's \<Rightarrow> 's) \<Rightarrow> 's \<Rightarrow> 's" where
  "read_to_end rd f pos buffer_len step st =
     (let chunk = file_read rd f pos buffer_len
      in if chunk = [] then st
         else read_to_end rd f (pos + length chunk) buffer_len step (step chunk st))"
  by pat_completeness auto
termination
  by (relation "measure (\<lambda>(rd, f, pos, buffer_len, step, st). length f - pos)")
    (auto simp: file_read_def segment_def)

declare read_to_end.simps [simp del]

definition checksum_reader_values ::
  "'h crates \<Rightarrow> reads \<Rightarrow> op_context \<Rightarrow> bytes \<Rightarrow> string list \<Rightarrow> checksum_values result" where
  "checksum_reader_values k rd ctx reader names =
     and_then (resolve_algorithms names) (\<lambda>algorithms.
       let execution = plan_threads ctx SingleThreaded;
           chunk_size = max (tuned_chunk_size MAX_EAGER_MAP_RANGE_BYTES (effective_threads execution)) 1;
           (batch, processed) =
             read_to_end rd reader 0 chunk_size
               (\<lambda>chunk (batch, processed). (batch_update k chunk batch, saturating_add processed (length chunk)))
               (batch_new k algorithms, 0)
       in Inr \<lparr>cv_execution = execution, cv_values = batch_results k batch,
               cv_events = [\<lparr>processed_bytes = processed, total_bytes = processed\<rparr>]\<rparr>)"

definition MD5_IO_BUFFER_SIZE :: nat where
  "MD5_IO_BUFFER_SIZE = 64 * 1024"

definition md5_bytes :: "'h crates \<Rightarrow> bytes \<Rightarrow> bytes" where
  "md5_bytes k bs = md5_finalize k (fed (md5_crate k) bs)"

definition md5_file :: "'h crates \<Rightarrow> reads \<Rightarrow> bytes \<Rightarrow> bytes" where
  "md5_file k rd f =
     md5_finalize k (read_to_end rd f 0 MD5_IO_BUFFER_SIZE
       (\<lambda>chunk hasher. hasher_update (md5_crate k) hasher chunk) (hasher_new (md5_crate k)))"

end
