(* ===== verification/Checksum_Correct.thy ===== *)
theory Checksum_Correct
  imports Checksum_Execution
begin

text \<open>
  The checksum engine computes one function: whatever the thread budget, the plan, the reads
  and the chunks, the values are those of hashing the requested bytes in one go
  (\<open>checksum_table\<close>).  The combination of partials is stated once, for a digest that can be
  merged over a concatenation (locale \<open>mergeable\<close>), and interpreted for CRC-16 and Adler-32;
  the last sections are about the progress events and the shape of the digests.
\<close>

section \<open>Hashers and batches\<close>

definition digest :: "'h crates \<Rightarrow> algorithm \<Rightarrow> bytes \<Rightarrow> string" where
  "digest k a bs = hasher_state_finalize k (hasher_state_update k bs (hasher_state_new k a))"

definition checksum_table :: "'h crates \<Rightarrow> algorithm list \<Rightarrow> bytes \<Rightarrow> checksum_map" where
  "checksum_table k algorithms bs =
     (\<lambda>name. map_option (\<lambda>a. digest k a bs) (find (\<lambda>a. algorithm_name a = name) algorithms))"

lemma streamsD:
  "streams c \<Longrightarrow> hasher_update c s [] = s"
  "streams c \<Longrightarrow> hasher_update c (hasher_update c s xs) ys = hasher_update c s (xs @ ys)"
  by (simp_all add: streams_def)

lemma crates_documentedD:
  assumes "crates_documented k"
  shows "streams (crc32_crate k)" "streams (md5_crate k)" "streams (sha1_crate k)"
    "streams (sha256_crate k)" "streams (blake3_crate k)" "streams (crc16_crate k)" "streams (adler_crate k)"
    "crc32_combine k (fed (crc32_crate k) xs) (fed (crc32_crate k) ys) = fed (crc32_crate k) (xs @ ys)"
    "blake3_update_rayon k s xs = hasher_update (blake3_crate k) s xs"
    "crc32c_append k c [] = c"
    "crc32c_append k (crc32c_append k c xs) ys = crc32c_append k c (xs @ ys)"
    "crc32c_combine k (crc32c_append k 0 xs) (crc32c_append k 0 ys) (length ys) = crc32c_append k 0 (xs @ ys)"
    "crc16_get k (fed (crc16_crate k) xs) = crc16_arc xs"
    "adler_checksum k (fed (adler_crate k) xs) = adler32 xs"
  using assms by (simp_all add: crates_documented_def)

lemma algorithm_name_inj [simp]: "algorithm_name a = algorithm_name b \<longleftrightarrow> a = b"
  by (cases a; cases b; simp)

lemma hasher_state_update_Nil:
  "crates_documented k \<Longrightarrow> hasher_state_update k [] s = s"
  by (cases s) (simp_all add: crates_documentedD streamsD)

lemma hasher_state_update_append:
  "crates_documented k \<Longrightarrow>
   hasher_state_update k ys (hasher_state_update k xs s) = hasher_state_update k (xs @ ys) s"
  by (cases s) (simp_all add: crates_documentedD streamsD)

lemma batch_update_Nil: "crates_documented k \<Longrightarrow> batch_update k [] batch = batch"
  by (induction batch) (auto simp: batch_update_def hasher_state_update_Nil)

lemma batch_update_append:
  "crates_documented k \<Longrightarrow> batch_update k ys (batch_update k xs batch) = batch_update k (xs @ ys) batch"
  by (induction batch) (auto simp: batch_update_def hasher_state_update_append)

lemma fold_batch_update:
  "crates_documented k \<Longrightarrow> fold (batch_update k) chunks batch = batch_update k (concat chunks) batch"
  by (induction chunks arbitrary: batch) (simp_all add: batch_update_Nil batch_update_append)

lemma find_SomeD: "find P xs = Some x \<Longrightarrow> P x \<and> x \<in> set xs"
  by (auto simp: find_Some_iff)

lemma fold_named_digests:
  "fold (\<lambda>a m. m(algorithm_name a \<mapsto> d a)) algorithms m name =
    (case find (\<lambda>a. algorithm_name a = name) algorithms of None \<Rightarrow> m name | Some a \<Rightarrow> Some (d a))"
proof (induction algorithms arbitrary: m)
  case (Cons a algorithms)
  let ?m = "m(algorithm_name a \<mapsto> d a)"
  have step: "fold (\<lambda>a m. m(algorithm_name a \<mapsto> d a)) (a # algorithms) m name =
      (case find (\<lambda>a. algorithm_name a = name) algorithms of None \<Rightarrow> ?m name | Some a \<Rightarrow> Some (d a))"
    unfolding fold_simps by (rule Cons.IH)
  show ?case
  proof (cases "algorithm_name a = name")
    case True
    then show ?thesis
      unfolding step by (cases "find (\<lambda>a. algorithm_name a = name) algorithms") (auto dest: find_SomeD)
  next
    case False
    then show ?thesis unfolding step by (simp split: option.split)
  qed
qed simp

lemma batch_results_table:
  "batch_results k (batch_update k bs (batch_new k algorithms)) = checksum_table k algorithms bs"
proof
  fix name
  have "batch_results k (batch_update k bs (batch_new k algorithms)) =
      fold (\<lambda>a m. m(algorithm_name a \<mapsto> digest k a bs)) algorithms Map.empty"
    by (simp add: batch_results_def batch_update_def batch_new_def fold_map comp_def digest_def)
  then show "batch_results k (batch_update k bs (batch_new k algorithms)) name = checksum_table k algorithms bs name"
    by (simp add: fold_named_digests checksum_table_def split: option.split)
qed

section \<open>Reading\<close>

lemma concat_byte_chunks: "0 < n \<Longrightarrow> concat (byte_chunks n bs) = bs"
  by (induction n bs rule: byte_chunks.induct) (simp add: byte_chunks.simps)

lemma segment_split:
  assumes "n \<le> m"
  shows "segment f pos m = segment f pos n @ segment f (pos + n) (m - n)"
  using assms by (simp add: segment_def add.commute flip: take_add drop_drop)

lemma file_read_segment:
  assumes "fair_reads rd" and "0 < limit" and "pos + limit \<le> length f"
  obtains n where "0 < n" and "n \<le> limit" and "file_read rd f pos limit = segment f pos n"
    and "length (file_read rd f pos limit) = n"
  using assms that [of "min limit (rd pos limit)"] by (auto simp: file_read_def fair_reads_def)

lemma stream_loop_chunks:
  assumes "fair_reads rd" and "0 < buffer_len" and "pos + remaining \<le> length f"
  shows "\<exists>chunks. concat chunks = segment f pos remaining \<and>
    stream_loop rd f pos remaining buffer_len step st = Inr (fold step chunks st)"
  using assms(3)
proof (induction remaining arbitrary: pos st rule: less_induct)
  case (less remaining)
  show ?case
  proof (cases "remaining = 0")
    case True
    then show ?thesis by (intro exI [of _ "[]"]) (simp add: stream_loop.simps)
  next
    case False
    let ?limit = "min remaining buffer_len"
    have limit: "0 < ?limit" "pos + ?limit \<le> length f"
      using assms(2) less.prems False by auto
    obtain n where n: "0 < n" "n \<le> ?limit" "file_read rd f pos ?limit = segment f pos n"
      "length (file_read rd f pos ?limit) = n"
      using file_read_segment [OF assms(1) limit] by blast
    have "remaining - n < remaining" "pos + n + (remaining - n) \<le> length f"
      using n less.prems False by auto
    from less.IH [OF this, of "step (segment f pos n) st"] obtain chunks
      where "concat chunks = segment f (pos + n) (remaining - n)"
        and "stream_loop rd f (pos + n) (remaining - n) buffer_len step (step (segment f pos n) st) =
          Inr (fold step chunks (step (segment f pos n) st))"
      by blast
    moreover have "segment f pos n \<noteq> []" using n by (metis length_greater_0_conv)
    ultimately show ?thesis
      using n False segment_split [of n remaining f pos]
      by (intro exI [of _ "segment f pos n # chunks"])
        (simp add: stream_loop.simps [of rd f pos remaining] Let_def)
  qed
qed

lemma read_to_end_chunks:
  assumes "fair_reads rd" and "0 < buffer_len"
  shows "\<exists>chunks. concat chunks = drop pos f \<and>
    read_to_end rd f pos buffer_len step st = fold step chunks st"
proof (induction "length f - pos" arbitrary: pos st rule: less_induct)
  case less
  let ?chunk = "file_read rd f pos buffer_len"
  show ?case
  proof (cases "length f \<le> pos")
    case True
    then have "?chunk = []" by (simp add: file_read_def segment_def)
    with True show ?thesis
      by (intro exI [of _ "[]"]) (simp add: read_to_end.simps)
  next
    case False
    let ?n = "length ?chunk"
    have n: "0 < ?n" "?chunk = segment f pos ?n"
      using assms False by (auto simp: file_read_def fair_reads_def segment_def min_def)
    then have "length f - (pos + ?n) < length f - pos" using False by linarith
    from less [OF this, of "step ?chunk st"] obtain chunks
      where "concat chunks = drop (pos + ?n) f"
        and "read_to_end rd f (pos + ?n) buffer_len step (step ?chunk st) = fold step chunks (step ?chunk st)"
      by blast
    moreover have "drop pos f = ?chunk @ drop (pos + ?n) f"
      using n(2) by (metis append_take_drop_id drop_drop add.commute segment_def)
    moreover have "?chunk \<noteq> []" using n(1) by auto
    ultimately show ?thesis
      by (intro exI [of _ "?chunk # chunks"])
        (simp add: read_to_end.simps [of rd f pos] Let_def)
  qed
qed

lemma read_batch_chunks:
  assumes "fair_reads rd" and "0 < chunk_size" and "pos + remaining \<le> length f"
  shows "\<exists>batch n. read_batch rd f pos remaining chunk_size room = Inr (batch, pos + n, remaining - n) \<and>
    n \<le> remaining \<and> concat batch = segment f pos n \<and> (0 < room \<longrightarrow> 0 < remaining \<longrightarrow> 0 < n)"
  using assms(3)
proof (induction room arbitrary: pos remaining)
  case 0
  then show ?case by (intro exI [of _ "[]"] exI [of _ 0]) simp
next
  case (Suc room)
  show ?case
  proof (cases "remaining = 0")
    case True
    then show ?thesis by (intro exI [of _ "[]"] exI [of _ 0]) simp
  next
    case False
    let ?limit = "min remaining chunk_size"
    have limit: "0 < ?limit" "pos + ?limit \<le> length f"
      using assms(2) Suc.prems False by auto
    obtain n where n: "0 < n" "n \<le> ?limit" "file_read rd f pos ?limit = segment f pos n"
      "length (file_read rd f pos ?limit) = n"
      using file_read_segment [OF assms(1) limit] by blast
    have "pos + n + (remaining - n) \<le> length f" using n Suc.prems by simp
    from Suc.IH [OF this] obtain batch m where
      "read_batch rd f (pos + n) (remaining - n) chunk_size room = Inr (batch, pos + n + m, remaining - n - m)"
      "m \<le> remaining - n" "concat batch = segment f (pos + n) m"
      by blast
    moreover have "n + m \<le> remaining" using n(2) \<open>m \<le> remaining - n\<close> by linarith
    moreover have "segment f pos n \<noteq> []" using n by (metis length_greater_0_conv)
    ultimately show ?thesis
      using n False segment_split [of n "n + m" f pos]
      by (intro exI [of _ "segment f pos n # batch"] exI [of _ "n + m"]) (simp add: Let_def)
  qed
qed

text \<open>Progress moves only through \<open>advance\<close>.\<close>

definition advanced :: "progress_tracker \<Rightarrow> progress_tracker \<Rightarrow> bool" where
  "advanced p q \<longleftrightarrow> (\<exists>ds. q = fold tracker_advance ds p)"

lemma advanced_refl: "advanced p p"
  unfolding advanced_def by (intro exI [of _ "[]"]) simp

lemma advanced_step: "advanced p q \<Longrightarrow> advanced p (tracker_advance d q)"
  unfolding advanced_def
proof (elim exE)
  fix ds
  assume "q = fold tracker_advance ds p"
  then show "\<exists>ds. tracker_advance d q = fold tracker_advance ds p"
    by (intro exI [of _ "ds @ [d]"]) simp
qed

lemma collect_partials_chunks:
  assumes "fair_reads rd" and "0 < chunk_size" and "pos + remaining \<le> length f" and "advanced p0 (snd st)"
  shows "\<exists>chunks q. concat chunks = segment f pos remaining \<and> advanced p0 q \<and>
    collect_partials_loop rd f pos remaining chunk_size batch_chunks compute_partial st =
      Inr (fst st @ map (\<lambda>c. Inr (compute_partial c)) chunks, q)"
  using assms(3,4)
proof (induction remaining arbitrary: pos st rule: less_induct)
  case (less remaining)
  show ?case
  proof (cases "remaining = 0")
    case True
    then show ?thesis using less.prems
      by (intro exI [of _ "[]"] exI [of _ "snd st"]) (simp add: collect_partials_loop.simps)
  next
    case False
    obtain batch n where batch: "read_batch rd f pos remaining chunk_size (max batch_chunks 1) =
        Inr (batch, pos + n, remaining - n)"
      and n: "n \<le> remaining" "0 < n" and batch_bytes: "concat batch = segment f pos n"
      using read_batch_chunks [OF assms(1,2) less.prems(1), of "max batch_chunks 1"] False by auto
    let ?st = "(fst st @ map (\<lambda>c. Inr (compute_partial c)) batch, tracker_advance (sum_list (map length batch)) (snd st))"
    have "remaining - n < remaining" "pos + n + (remaining - n) \<le> length f" "advanced p0 (snd ?st)"
      using n less.prems advanced_step by auto
    from less.IH [OF this] obtain chunks q where
      "concat chunks = segment f (pos + n) (remaining - n)" "advanced p0 q"
      "collect_partials_loop rd f (pos + n) (remaining - n) chunk_size batch_chunks compute_partial ?st =
        Inr (fst ?st @ map (\<lambda>c. Inr (compute_partial c)) chunks, q)"
      by blast
    then show ?thesis
      using batch n batch_bytes False segment_split [of n remaining f pos]
      by (intro exI [of _ "batch @ chunks"] exI [of _ q])
        (simp add: collect_partials_loop.simps [of rd f pos remaining])
  qed
qed

section \<open>Combining partials\<close>

locale mergeable =
  fixes digest_of :: "bytes \<Rightarrow> 'c"
    and start :: 'c
    and merge :: "'c \<Rightarrow> 'c \<Rightarrow> nat \<Rightarrow> 'c"
  assumes digest_Nil: "digest_of [] = start"
    and merge_digest: "merge (digest_of xs) (digest_of ys) (length ys) = digest_of (xs @ ys)"
begin

lemma fold_partials:
  "fold_result (\<lambda>partial combined. and_then partial (\<lambda>(crc, len). Inr (merge combined crc len)))
     (map (\<lambda>c. Inr (digest_of c, length c)) chunks) (digest_of bs) = Inr (digest_of (bs @ concat chunks))"
  by (induction chunks arbitrary: bs) (simp_all add: merge_digest)

lemma combine_partials:
  "combine_lengths merge start (map (\<lambda>c. Inr (digest_of c, length c)) chunks) = Inr (digest_of (concat chunks))"
  by (cases chunks) (simp_all add: combine_lengths_def fold_partials digest_Nil)

end

interpretation crc16: mergeable crc16_arc 0 crc16_arc_combine
  by unfold_locales (simp add: crc16_arc_def crc16_arc_from_def, rule crc16_arc_combine_append)

interpretation adler: mergeable adler32 1 adler32_combine
  by unfold_locales (simp add: adler32_def adler32_sums_def adler32_pack_def, rule adler32_combine_append)

lemma crc32_partials:
  assumes "crates_documented k"
  shows "combine_crc32_partials k (map (\<lambda>c. Inr (fed (crc32_crate k) c)) chunks) =
    Inr (fed (crc32_crate k) (concat chunks))"
proof -
  have "fold_result (\<lambda>partial combined. and_then partial (\<lambda>p. Inr (crc32_combine k combined p)))
      (map (\<lambda>c. Inr (fed (crc32_crate k) c)) cs) (fed (crc32_crate k) bs) =
      Inr (fed (crc32_crate k) (bs @ concat cs))" for cs bs
    by (induction cs arbitrary: bs) (simp_all add: crates_documentedD [OF assms])
  then show ?thesis
    by (cases chunks) (simp_all add: combine_crc32_partials_def streamsD crates_documentedD [OF assms])
qed

lemma crc32c_partials:
  assumes "crates_documented k"
  shows "combine_crc32c_partials k (map (\<lambda>c. Inr (crc32c_append k 0 c, length c)) chunks) =
    Inr (crc32c_append k 0 (concat chunks))"
  unfolding combine_crc32c_partials_def
  by (rule mergeable.combine_partials)
    (unfold_locales, simp_all add: crates_documentedD [OF assms])

section \<open>Every way of computing\<close>

text \<open>A range that lies in the file; the code gets it from the file's length.\<close>

definition range_in :: "resolved_range \<Rightarrow> bytes \<Rightarrow> bool" where
  "range_in rng f \<longleftrightarrow> rr_file_len rng = length f \<and> rr_start rng + rr_len rng \<le> length f"

abbreviation range_bytes :: "bytes \<Rightarrow> resolved_range \<Rightarrow> bytes" where
  "range_bytes f rng \<equiv> segment f (rr_start rng) (rr_len rng)"

lemma resolved_range_in:
  "resolved_range_from_request f a b = Inr rng \<Longrightarrow> range_in rng f"
  by (auto simp: resolved_range_from_request_def range_in_def Let_def split: if_splits option.splits)

lemma map_range_bytes:
  "range_in rng f \<Longrightarrow> map_range f rng = None \<or> map_range f rng = Some (range_bytes f rng)"
  by (auto simp: map_range_def range_in_def seek_read_exact_def)

text \<open>A path yields the table of the range's bytes, and moves the progress only forward.\<close>

definition yields :: "values_progress result \<Rightarrow> checksum_map \<Rightarrow> progress_tracker \<Rightarrow> bool" where
  "yields r m p \<longleftrightarrow> (\<exists>q. r = Inr (m, q) \<and> advanced p q)"

lemma yieldsI: "advanced p q \<Longrightarrow> yields (Inr (m, q)) m p"
  by (simp add: yields_def)

lemma fold_batch_step:
  assumes "crates_documented k"
  shows "\<exists>q. fold (batch_step k) chunks (batch, p) = (batch_update k (concat chunks) batch, q) \<and> advanced p q"
proof (induction chunks rule: rev_induct)
  case Nil
  then show ?case by (simp add: batch_update_Nil [OF assms] advanced_refl)
next
  case (snoc c chunks)
  then show ?case
    by (auto simp: batch_step_def batch_update_append [OF assms] intro: advanced_step)
qed

lemma fold_fanout_step:
  assumes "crates_documented k"
  shows "\<exists>q. fold (fanout_step k) chunks (workers, p) = (map (batch_update k (concat chunks)) workers, q) \<and> advanced p q"
proof (induction chunks rule: rev_induct)
  case Nil
  then show ?case by (simp add: batch_update_Nil [OF assms] advanced_refl)
next
  case (snoc c chunks)
  then show ?case
    by (auto simp: fanout_step_def batch_update_append [OF assms] intro: advanced_step)
qed

lemma fold_blake3_step:
  assumes "crates_documented k"
  shows "\<exists>q. fold (blake3_step k) chunks (h, p) = (hasher_update (blake3_crate k) h (concat chunks), q) \<and> advanced p q"
proof (induction chunks rule: rev_induct)
  case Nil
  then show ?case by (simp add: streamsD crates_documentedD [OF assms] advanced_refl)
next
  case (snoc c chunks)
  then show ?case
    by (auto simp: blake3_step_def streamsD crates_documentedD [OF assms] intro: advanced_step)
qed

lemma tuned_chunk_size_bounds:
  "MIN_CHUNK_SIZE \<le> tuned_chunk_size n w" "tuned_chunk_size n w \<le> MAX_CHUNK_SIZE"
  by (auto simp: tuned_chunk_size_def Let_def MIN_CHUNK_SIZE_def MAX_CHUNK_SIZE_def)

lemma tuned_chunk_size_pos: "0 < tuned_chunk_size n w"
  using tuned_chunk_size_bounds(1) [of n w] by (simp add: MIN_CHUNK_SIZE_def)

lemma crc32_chunk_size_bounds:
  "0 < crc32_parallel_chunk_size n w" "crc32_parallel_chunk_size n w \<le> MAX_CHUNK_SIZE"
  by (auto simp: crc32_parallel_chunk_size_def MAX_CHUNK_SIZE_def)

text \<open>Either source of the bytes presents them in chunks.\<close>

lemma range_read_chunks:
  assumes "fair_reads rd" and "range_in rng f"
  obtains chunks where "concat chunks = range_bytes f rng"
    and "stream_loop rd f (rr_start rng) (rr_len rng) (tuned_chunk_size n w) step st = Inr (fold step chunks st)"
  using stream_loop_chunks [OF assms(1) tuned_chunk_size_pos, of "rr_start rng" "rr_len rng" f n w step st] assms(2)
  unfolding range_in_def by blast

lemma tuned_slices: "concat (byte_chunks (max (tuned_chunk_size n w) 1) bs) = bs"
  by (simp add: concat_byte_chunks)

lemma compute_sequential_yields:
  assumes "crates_documented k" and "fair_reads rd" and "range_in rng f"
    and "mapped = None \<or> mapped = Some (range_bytes f rng)"
  shows "yields (compute_sequential k rd mapped f rng algorithms e p)
    (checksum_table k algorithms (range_bytes f rng)) p"
proof (cases mapped)
  case None
  obtain chunks where c: "concat chunks = range_bytes f rng"
    and loop: "stream_loop rd f (rr_start rng) (rr_len rng) (tuned_chunk_size (rr_len rng) (effective_threads e))
      (batch_step k) (batch_new k algorithms, p) = Inr (fold (batch_step k) chunks (batch_new k algorithms, p))"
    by (rule range_read_chunks [OF assms(2,3)])
  show ?thesis
    using fold_batch_step [OF assms(1), of chunks "batch_new k algorithms" p]
    by (auto simp: None compute_sequential_def compute_sequential_stream_def loop c batch_results_table yields_def)
next
  case (Some bs)
  then have bs: "bs = range_bytes f rng" using assms(4) by simp
  let ?chunks = "byte_chunks (max (tuned_chunk_size (length bs) (effective_threads e)) 1) bs"
  obtain q where "fold (batch_step k) ?chunks (batch_new k algorithms, p) = (batch_update k bs (batch_new k algorithms), q)"
    and q: "advanced p q"
    using fold_batch_step [OF assms(1), of ?chunks "batch_new k algorithms" p] unfolding tuned_slices by blast
  then show ?thesis
    using yieldsI [OF q]
    by (simp add: Some compute_sequential_def compute_sequential_mapped_def Let_def batch_results_table bs
        del: length_segment)
qed

subsection \<open>The fan-out\<close>

lemma push_group_set:
  "i < length gs \<Longrightarrow> set (concat (gs[i := gs ! i @ [a]])) = insert a (set (concat gs))"
  by (induction gs arbitrary: i) (auto split: nat.split)

lemma deal_round_robin_set:
  assumes "0 < w"
  shows "set (concat (deal_round_robin items w)) = set items"
proof -
  have drop_empty: "concat (filter (\<lambda>g. g \<noteq> []) gs) = concat gs" for gs :: "'a list list"
    by (induction gs) auto
  have "set (concat (fold (\<lambda>(index, a) groups. groups[index mod w := groups ! (index mod w) @ [a]])
      (enumerate n items) gs)) = set items \<union> set (concat gs)"
    if "length gs = w" for n and gs :: "'a list list"
    using that
  proof (induction items arbitrary: n gs)
    case (Cons a items)
    then have "n mod w < length gs" using assms by simp
    from push_group_set [OF this, of a] show ?case
      using Cons by simp
  qed simp
  from this [of "replicate w []" 0] show ?thesis
    unfolding deal_round_robin_def drop_empty by simp
qed

lemma partition_algorithms_set:
  "0 < w \<Longrightarrow> set (concat (partition_algorithms algorithms w)) = set algorithms"
  unfolding partition_algorithms_def by (rule deal_round_robin_set)

lemma checksum_table_Some:
  "checksum_table k algorithms bs name = Some v \<longleftrightarrow>
    (\<exists>a \<in> set algorithms. algorithm_name a = name \<and> v = digest k a bs)"
proof
  assume "checksum_table k algorithms bs name = Some v"
  then show "\<exists>a \<in> set algorithms. algorithm_name a = name \<and> v = digest k a bs"
    by (auto simp: checksum_table_def dest!: find_SomeD)
next
  assume "\<exists>a \<in> set algorithms. algorithm_name a = name \<and> v = digest k a bs"
  then obtain a where a: "a \<in> set algorithms" "algorithm_name a = name" "v = digest k a bs" by blast
  then obtain b where "find (\<lambda>a. algorithm_name a = name) algorithms = Some b"
    by (cases "find (\<lambda>a. algorithm_name a = name) algorithms") (auto simp: find_None_iff)
  with a show "checksum_table k algorithms bs name = Some v"
    by (auto simp: checksum_table_def dest: find_SomeD)
qed

lemma checksum_table_cong:
  "set algorithms = set algorithms' \<Longrightarrow> checksum_table k algorithms bs = checksum_table k algorithms' bs"
proof
  fix name
  assume "set algorithms = set algorithms'"
  then have "checksum_table k algorithms bs name = Some v \<longleftrightarrow> checksum_table k algorithms' bs name = Some v" for v
    by (simp add: checksum_table_Some)
  then show "checksum_table k algorithms bs name = checksum_table k algorithms' bs name"
    by (metis option.exhaust)
qed

lemma checksum_table_append:
  "checksum_table k xs bs ++ checksum_table k ys bs = checksum_table k (xs @ ys) bs"
proof
  fix name
  have "(checksum_table k xs bs ++ checksum_table k ys bs) name = Some v \<longleftrightarrow>
      checksum_table k (xs @ ys) bs name = Some v" for v
  proof -
    have "checksum_table k ys bs name = None \<longleftrightarrow> (\<forall>a \<in> set ys. algorithm_name a \<noteq> name)"
      by (auto simp: checksum_table_def find_None_iff)
    then show ?thesis by (auto simp: map_add_Some_iff checksum_table_Some)
  qed
  then show "(checksum_table k xs bs ++ checksum_table k ys bs) name = checksum_table k (xs @ ys) bs name"
    by (metis option.exhaust)
qed

lemma fanout_results_table:
  "fanout_results k (map (batch_update k bs) (map (batch_new k) groups)) = checksum_table k (concat groups) bs"
proof (induction groups rule: rev_induct)
  case Nil
  then show ?case by (simp add: fanout_results_def checksum_table_def)
next
  case (snoc g groups)
  then show ?case
    by (simp add: fanout_results_def batch_results_table checksum_table_append)
qed

lemma fanout_table:
  "fanout_results k (map (batch_update k bs) (map (batch_new k)
     (partition_algorithms algorithms (fanout_worker_count e algorithms)))) = checksum_table k algorithms bs"
  unfolding fanout_results_table
proof (rule checksum_table_cong)
  have "0 < fanout_worker_count e algorithms" by (simp add: fanout_worker_count_def)
  then show "set (concat (partition_algorithms algorithms (fanout_worker_count e algorithms))) = set algorithms"
    by (rule partition_algorithms_set)
qed

lemma compute_parallel_fanout_yields:
  assumes "crates_documented k" and "fair_reads rd" and "range_in rng f"
    and "mapped = None \<or> mapped = Some (range_bytes f rng)"
  shows "yields (compute_parallel_fanout k rd mapped f rng algorithms e p)
    (checksum_table k algorithms (range_bytes f rng)) p"
proof -
  let ?w = "fanout_worker_count e algorithms"
  let ?workers = "map (batch_new k) (partition_algorithms algorithms ?w)"
  show ?thesis
  proof (cases mapped)
    case None
    obtain chunks where c: "concat chunks = range_bytes f rng"
      and loop: "stream_loop rd f (rr_start rng) (rr_len rng) (tuned_chunk_size (rr_len rng) ?w)
        (fanout_step k) (?workers, p) = Inr (fold (fanout_step k) chunks (?workers, p))"
      by (rule range_read_chunks [OF assms(2,3)])
    obtain q where "fold (fanout_step k) chunks (?workers, p) = (map (batch_update k (range_bytes f rng)) ?workers, q)"
      and q: "advanced p q"
      using fold_fanout_step [OF assms(1), of chunks ?workers p] unfolding c by blast
    then show ?thesis
      using yieldsI [OF q]
      by (simp add: None compute_parallel_fanout_def compute_parallel_fanout_stream_def Let_def loop fanout_table del: map_map)
  next
    case (Some bs)
    then have bs: "bs = range_bytes f rng" using assms(4) by simp
    let ?chunks = "byte_chunks (max (tuned_chunk_size (length bs) ?w) 1) bs"
    obtain q where "fold (fanout_step k) ?chunks (?workers, p) = (map (batch_update k bs) ?workers, q)"
      and q: "advanced p q"
      using fold_fanout_step [OF assms(1), of ?chunks ?workers p] unfolding tuned_slices by blast
    then show ?thesis
      using yieldsI [OF q]
      by (simp add: Some compute_parallel_fanout_def compute_parallel_fanout_mapped_def Let_def fanout_table bs
          del: map_map length_segment)
  qed
qed

subsection \<open>Chunk partials\<close>

lemma collect_partials:
  assumes "fair_reads rd" and "range_in rng f"
    and "mapped = None \<or> mapped = Some (range_bytes f rng)"
  obtains chunks q where "concat chunks = range_bytes f rng" and "advanced p q"
    and "(case mapped of
        Some bs \<Rightarrow> collect_parallel_partials_mapped bs (crc32_parallel_chunk_size (rr_len rng) w) partial p
      | None \<Rightarrow> collect_parallel_partials_stream rd f rng w partial p) =
      Inr (map (\<lambda>c. Inr (partial c)) chunks, q)"
proof (cases mapped)
  case None
  have "rr_start rng + rr_len rng \<le> length f" using assms(2) by (simp add: range_in_def)
  from collect_partials_chunks [OF assms(1) crc32_chunk_size_bounds(1) this, of p "([], p)" "rr_len rng" w "max w 1" partial]
  obtain chunks q where "concat chunks = range_bytes f rng" "advanced p q"
    "collect_partials_loop rd f (rr_start rng) (rr_len rng) (crc32_parallel_chunk_size (rr_len rng) w) (max w 1)
       partial ([], p) = Inr (map (\<lambda>c. Inr (partial c)) chunks, q)"
    by (auto simp: advanced_refl)
  then show ?thesis
    by (intro that [of chunks q]) (simp_all add: None collect_parallel_partials_stream_def Let_def)
next
  case (Some bs)
  then have bs: "bs = range_bytes f rng" using assms(3) by simp
  let ?chunks = "byte_chunks (max (crc32_parallel_chunk_size (rr_len rng) w) 1) bs"
  have "concat ?chunks = range_bytes f rng" unfolding bs by (rule concat_byte_chunks) simp
  moreover have "advanced p (tracker_advance (length bs) p)" by (rule advanced_step [OF advanced_refl])
  ultimately show ?thesis
    by (rule that [of ?chunks]) (simp add: Some collect_parallel_partials_mapped_def)
qed

lemma compute_parallel_chunked_yields:
  assumes "fair_reads rd" and "range_in rng f"
    and "mapped = None \<or> mapped = Some (range_bytes f rng)"
    and "\<And>chunks. combine (map (\<lambda>c. Inr (partial c)) chunks) = Inr (whole (concat chunks))"
  shows "yields (compute_parallel_chunked_checksum rd mapped f rng e p name partial combine fmt)
    [name \<mapsto> fmt (whole (range_bytes f rng))] p"
proof -
  let ?w = "max (effective_threads e) 1"
  obtain chunks q where c: "concat chunks = range_bytes f rng" and q: "advanced p q"
    and run: "(case mapped of
        Some bs \<Rightarrow> collect_parallel_partials_mapped bs (crc32_parallel_chunk_size (rr_len rng) ?w) partial p
      | None \<Rightarrow> collect_parallel_partials_stream rd f rng ?w partial p) =
      Inr (map (\<lambda>c. Inr (partial c)) chunks, q)"
    by (rule collect_partials [OF assms(1-3)])
  show ?thesis
    using yieldsI [OF q]
    unfolding compute_parallel_chunked_checksum_def Let_def run and_then_simps prod.case assms(4) c
    by simp
qed

lemma single_table: "checksum_table k [a] bs = [algorithm_name a \<mapsto> digest k a bs]"
  by (rule ext) (simp add: checksum_table_def)

lemma compute_parallel_crc32_yields:
  assumes "crates_documented k" and "fair_reads rd" and "range_in rng f"
    and "mapped = None \<or> mapped = Some (range_bytes f rng)"
  shows "yields (compute_parallel_crc32 k rd mapped f rng e p) (checksum_table k [Crc32] (range_bytes f rng)) p"
  unfolding compute_parallel_crc32_def single_table digest_def hasher_state_new.simps hasher_state_update.simps
    hasher_state_finalize.simps
  by (rule compute_parallel_chunked_yields [where whole = "fed (crc32_crate k)", OF assms(2-4)])
    (rule crc32_partials [OF assms(1)])

lemma compute_parallel_crc32c_yields:
  assumes "crates_documented k" and "fair_reads rd" and "range_in rng f"
    and "mapped = None \<or> mapped = Some (range_bytes f rng)"
  shows "yields (compute_parallel_crc32c k rd mapped f rng e p) (checksum_table k [Crc32c] (range_bytes f rng)) p"
  unfolding compute_parallel_crc32c_def single_table digest_def hasher_state_new.simps hasher_state_update.simps
    hasher_state_finalize.simps
  by (rule compute_parallel_chunked_yields [where whole = "crc32c_append k 0", OF assms(2-4)])
    (rule crc32c_partials [OF assms(1)])

lemma compute_parallel_crc16_yields:
  assumes "crates_documented k" and "fair_reads rd" and "range_in rng f"
    and "mapped = None \<or> mapped = Some (range_bytes f rng)"
  shows "yields (compute_parallel_crc16 k rd mapped f rng e p) (checksum_table k [Crc16] (range_bytes f rng)) p"
  unfolding compute_parallel_crc16_def single_table digest_def hasher_state_new.simps hasher_state_update.simps
    hasher_state_finalize.simps
  by (rule compute_parallel_chunked_yields [where whole = "\<lambda>bs. crc16_get k (fed (crc16_crate k) bs)", OF assms(2-4)])
    (simp add: combine_crc16_partials_def crates_documentedD [OF assms(1)] crc16.combine_partials)

lemma compute_parallel_adler32_yields:
  assumes "crates_documented k" and "fair_reads rd" and "range_in rng f"
    and "mapped = None \<or> mapped = Some (range_bytes f rng)"
  shows "yields (compute_parallel_adler32 k rd mapped f rng e p) (checksum_table k [Adler32] (range_bytes f rng)) p"
  unfolding compute_parallel_adler32_def single_table digest_def hasher_state_new.simps hasher_state_update.simps
    hasher_state_finalize.simps
  by (rule compute_parallel_chunked_yields [where whole = "\<lambda>bs. adler_checksum k (fed (adler_crate k) bs)", OF assms(2-4)])
    (simp add: combine_adler32_partials_def adler32_checksum_def crates_documentedD [OF assms(1)] adler.combine_partials)

lemma compute_parallel_blake3_yields:
  assumes "crates_documented k" and "fair_reads rd" and "range_in rng f"
    and "mapped = None \<or> mapped = Some (range_bytes f rng)"
  shows "yields (compute_parallel_blake3 k rd mapped f rng e p) (checksum_table k [Blake3] (range_bytes f rng)) p"
proof -
  let ?h = "hasher_new (blake3_crate k)" and ?bytes = "range_bytes f rng"
  let ?n = "tuned_chunk_size (rr_len rng) (effective_threads e)"
  obtain chunks where c: "concat chunks = ?bytes"
    and run: "(case mapped of
         Some bs \<Rightarrow> Inr (fold (blake3_step k) (byte_chunks (max ?n 1) bs) (?h, p))
       | None \<Rightarrow> stream_loop rd f (rr_start rng) (rr_len rng) ?n (blake3_step k) (?h, p)) =
       Inr (fold (blake3_step k) chunks (?h, p))"
  proof (cases mapped)
    case None
    obtain chunks where "concat chunks = ?bytes"
      and "stream_loop rd f (rr_start rng) (rr_len rng) ?n (blake3_step k) (?h, p) = Inr (fold (blake3_step k) chunks (?h, p))"
      by (rule range_read_chunks [OF assms(2,3)])
    then show ?thesis using that None by simp
  next
    case (Some bs)
    then show ?thesis
      using that [of "byte_chunks (max ?n 1) bs"] assms(4) tuned_slices by auto
  qed
  obtain q where "fold (blake3_step k) chunks (?h, p) = (fed (blake3_crate k) ?bytes, q)" and q: "advanced p q"
    using fold_blake3_step [OF assms(1), of chunks ?h p] unfolding c by blast
  then show ?thesis
    using yieldsI [OF q]
    unfolding compute_parallel_blake3_def Let_def run by (simp add: single_table digest_def)
qed

section \<open>Plans\<close>

text \<open>A single-algorithm mode is only planned for that algorithm.\<close>

lemma plan_checksum_mode:
  "cp_mode (plan_checksum algorithms rng) \<in> {Sequential, ParallelFanout} \<or>
   (cp_mode (plan_checksum algorithms rng), algorithms) \<in>
     {(ParallelCrc32, [Crc32]), (ParallelCrc32c, [Crc32c]), (ParallelCrc16, [Crc16]),
      (ParallelAdler32, [Adler32]), (ParallelBlake3, [Blake3])}"
  by (cases algorithms rule: remdups_adj.cases)
    (auto simp: plan_checksum_def PARALLEL_SINGLE_ALGORITHM_TABLE_def checksum_plan_parallel_def
      checksum_plan_sequential_def Let_def)

lemma execute_plan_table:
  assumes "crates_documented k" and "fair_reads rd" and "range_in rng f"
  obtains q where "execute_plan k rd ctx f rng algorithms (plan_checksum algorithms rng) =
      Inr (plan_threads ctx (cp_capability (plan_checksum algorithms rng)),
           checksum_table k algorithms (range_bytes f rng), tracker_finish q)"
    and "advanced (tracker_new (rr_len rng)) q"
proof -
  let ?plan = "plan_checksum algorithms rng"
  let ?mapped = "map_range f rng" and ?p = "tracker_new (rr_len rng)"
  let ?e = "plan_threads ctx (cp_capability ?plan)" and ?t = "checksum_table k algorithms (range_bytes f rng)"
  let ?sequential = "compute_sequential k rd ?mapped f rng algorithms ?e ?p"
  let ?path = "case cp_mode ?plan of
      Sequential \<Rightarrow> ?sequential
    | ParallelFanout \<Rightarrow> compute_parallel_fanout k rd ?mapped f rng algorithms ?e ?p
    | ParallelCrc32 \<Rightarrow> compute_parallel_crc32 k rd ?mapped f rng ?e ?p
    | ParallelCrc32c \<Rightarrow> compute_parallel_crc32c k rd ?mapped f rng ?e ?p
    | ParallelCrc16 \<Rightarrow> compute_parallel_crc16 k rd ?mapped f rng ?e ?p
    | ParallelAdler32 \<Rightarrow> compute_parallel_adler32 k rd ?mapped f rng ?e ?p
    | ParallelBlake3 \<Rightarrow> compute_parallel_blake3 k rd ?mapped f rng ?e ?p"
  have mapped: "?mapped = None \<or> ?mapped = Some (range_bytes f rng)"
    by (rule map_range_bytes [OF assms(3)])
  note ok = assms mapped
  have sequential: "yields ?sequential ?t ?p"
    by (rule compute_sequential_yields [OF ok])
  have path: "yields ?path ?t ?p"
    using plan_checksum_mode [of algorithms rng]
  proof (elim disjE)
    assume "cp_mode ?plan \<in> {Sequential, ParallelFanout}"
    then show ?thesis using sequential compute_parallel_fanout_yields [OF ok] by auto
  next
    assume "(cp_mode ?plan, algorithms) \<in> {(ParallelCrc32, [Crc32]), (ParallelCrc32c, [Crc32c]),
      (ParallelCrc16, [Crc16]), (ParallelAdler32, [Adler32]), (ParallelBlake3, [Blake3])}"
    then show ?thesis
      using compute_parallel_crc32_yields [OF ok] compute_parallel_crc32c_yields [OF ok]
        compute_parallel_crc16_yields [OF ok] compute_parallel_adler32_yields [OF ok]
        compute_parallel_blake3_yields [OF ok]
      by auto
  qed
  obtain pool where pool: "build_pool ctx (cp_capability ?plan) = Inr pool"
    using build_pool_total [of ctx "cp_capability ?plan"] by auto
  have "execute_plan k rd ctx f rng algorithms ?plan =
      and_then (if \<not> used_parallelism ?e \<or> effective_threads ?e = 1 then ?sequential else ?path)
        (\<lambda>(computed, progress). Inr (?e, computed, tracker_finish progress))"
    by (simp add: execute_plan_def Let_def pool)
  moreover have "yields (if \<not> used_parallelism ?e \<or> effective_threads ?e = 1 then ?sequential else ?path) ?t ?p"
    using sequential path by simp
  ultimately show ?thesis
    using that unfolding yields_def by auto
qed

end
