(* ===== verification/Checksum_Properties.thy ===== *)
theory Checksum_Properties
  imports Checksum_Correct
begin

text \<open>
  The properties of the checksum engine: its values are the one-shot digests of the requested
  bytes for every thread budget and every way of reading, the progress events, the shape of the
  digests, and the reader entry points.
\<close>

section \<open>Sample crates\<close>

text \<open>
  Crates for the witnesses: a hasher that keeps its input, so that it streams and combines, and
  an additive CRC-32C.
\<close>

definition sample_hasher :: "bytes hasher_crate" where
  "sample_hasher = \<lparr>hasher_new = [], hasher_update = (\<lambda>s bs. s @ bs)\<rparr>"

definition sample_digest :: "nat \<Rightarrow> bytes \<Rightarrow> bytes" where
  "sample_digest n bs = take n (bs @ replicate n 0)"

lemma length_sample_digest [simp]: "length (sample_digest n bs) = n"
  by (simp add: sample_digest_def)

definition sample_crates :: "bytes crates" where
  "sample_crates =
     \<lparr>crc32_crate = sample_hasher, crc32_combine = (\<lambda>s t. s @ t),
      crc32_finalize = (\<lambda>s. word_of_nat (length s)),
      md5_crate = sample_hasher, md5_finalize = sample_digest 16,
      sha1_crate = sample_hasher, sha1_finalize = sample_digest 20,
      sha256_crate = sample_hasher, sha256_finalize = sample_digest 32,
      blake3_crate = sample_hasher, blake3_update_rayon = (\<lambda>s bs. s @ bs),
      blake3_hex = (\<lambda>s. hex_encode (sample_digest 32 s)),
      crc32c_append = (\<lambda>c bs. c + word_of_nat (length bs)), crc32c_combine = (\<lambda>c d n. c + d),
      crc16_crate = sample_hasher, crc16_get = crc16_arc,
      adler_crate = sample_hasher, adler_checksum = adler32\<rparr>"

lemma sample_documented: "crates_documented sample_crates"
  by (simp add: crates_documented_def streams_def sample_crates_def sample_hasher_def)

definition whole_reads :: reads where
  "whole_reads pos limit = limit"

definition byte_reads :: reads where
  "byte_reads pos limit = 1"

lemma sample_reads: "fair_reads whole_reads" "fair_reads byte_reads"
  by (simp_all add: fair_reads_def whole_reads_def byte_reads_def)

lemmas algorithm_parse_eval =
  algorithm_parse_def trim_def to_ascii_lowercase_def ascii_whitespace_def Let_def char_of_def bit_iff_odd

section \<open>The values\<close>

text \<open>What a request asks for: the digests of its range, in one go.\<close>

definition requested_values :: "'h crates \<Rightarrow> bytes \<Rightarrow> checksum_request \<Rightarrow> checksum_map result" where
  "requested_values k source request =
     and_then (resolve_algorithms (ck_algorithms request)) (\<lambda>algorithms.
     and_then (resolved_range_from_request source (ck_start request) (ck_length request)) (\<lambda>rng.
       Inr (checksum_table k algorithms (range_bytes source rng))))"

lemma compute_checksum_values_run:
  assumes "crates_documented k" and "fair_reads rd"
    and "resolve_algorithms (ck_algorithms request) = Inr algorithms"
    and "resolved_range_from_request source (ck_start request) (ck_length request) = Inr rng"
  obtains q where "compute_checksum_values k rd ctx source request =
      Inr \<lparr>cv_execution = plan_threads ctx (if algorithms = [] then SingleThreaded
                                            else cp_capability (plan_checksum algorithms rng)),
           cv_values = checksum_table k algorithms (range_bytes source rng), cv_events = pt_events q\<rparr>"
    and "(algorithms = [] \<and> pt_events q = []) \<or> (\<exists>p. advanced (tracker_new (rr_len rng)) p \<and> q = tracker_finish p)"
proof (cases "algorithms = []")
  case True
  then show ?thesis
    by (intro that [of "tracker_new 0"])
      (simp_all add: compute_checksum_values_def assms(3,4) checksum_table_def tracker_new_def)
next
  case False
  obtain q where "execute_plan k rd ctx source rng algorithms (plan_checksum algorithms rng) =
      Inr (plan_threads ctx (cp_capability (plan_checksum algorithms rng)),
           checksum_table k algorithms (range_bytes source rng), tracker_finish q)"
    and "advanced (tracker_new (rr_len rng)) q"
    by (rule execute_plan_table [OF assms(1,2) resolved_range_in [OF assms(4)]])
  then show ?thesis
    using False by (intro that [of "tracker_finish q"]) (auto simp: compute_checksum_values_def assms(3,4))
qed

lemma compute_values_requested:
  assumes "crates_documented k" and "fair_reads rd"
  shows "and_then (compute_checksum_values k rd ctx source request) (\<lambda>v. Inr (cv_values v)) =
    requested_values k source request"
proof (cases "resolve_algorithms (ck_algorithms request)")
  case (Inl e)
  then show ?thesis by (simp add: compute_checksum_values_def requested_values_def)
next
  case algorithms: (Inr algorithms)
  show ?thesis
  proof (cases "resolved_range_from_request source (ck_start request) (ck_length request)")
    case (Inl e)
    then show ?thesis by (simp add: compute_checksum_values_def requested_values_def algorithms)
  next
    case (Inr rng)
    show ?thesis
      by (rule compute_checksum_values_run [OF assms algorithms Inr, of ctx])
        (simp add: requested_values_def algorithms Inr)
  qed
qed

text \<open>
  C18. The checksum engine computes one function of the file and the request.  Whatever the
  thread budget and the host (so whatever the plan: sequential, fanned out over the algorithms,
  or chunk partials that are combined), whether the range was read eagerly or streamed, and
  however many bytes each read returns, the outcome is the digest of the requested bytes fed to
  each requested algorithm in one go, or the error of an unknown algorithm or of a range outside
  the file.
\<close>

theorem checksum_values_exact:
  assumes "crates_documented k" and "fair_reads rd"
  shows "and_then (compute_checksum_values k rd ctx source request) (\<lambda>v. Inr (cv_values v)) =
    requested_values k source request"
  by (rule compute_values_requested [OF assms])

theorem checksum_values_exact_witness:
  "and_then (compute_checksum_values sample_crates byte_reads (plain_context 8) [1, 2, 3]
      \<lparr>ck_algorithms = ['' CRC16 '', ''md5''], ck_start = Some 1, ck_length = None\<rparr>) (\<lambda>v. Inr (cv_values v)) =
   requested_values sample_crates [1, 2, 3]
      \<lparr>ck_algorithms = ['' CRC16 '', ''md5''], ck_start = Some 1, ck_length = None\<rparr>"
  by (rule checksum_values_exact [OF sample_documented sample_reads(2)])

text \<open>
  C19. The chunk partials of CRC-16/ARC combine to the CRC of the concatenation, for any number of
  chunks of any length: the GF(2) matrix squarings of \<open>crc16_arc_combine\<close> compute the CRC's
  shift over the length of each next chunk.
\<close>

theorem crc16_partials_combine:
  "combine_crc16_partials (map (\<lambda>c. Inr (crc16_arc c, length c)) chunks) = Inr (crc16_arc (concat chunks))"
  unfolding combine_crc16_partials_def by (rule crc16.combine_partials)

text \<open>
  C20. The chunk partials of Adler-32 combine to the Adler-32 of the concatenation.
\<close>

theorem adler32_partials_combine:
  "combine_adler32_partials (map (\<lambda>c. Inr (adler32 c, length c)) chunks) = Inr (adler32 (concat chunks))"
  unfolding combine_adler32_partials_def by (rule adler.combine_partials)

text \<open>The execution a caller is told in advance is the one the engine reports.\<close>

lemma planned_execution_reported:
  assumes "crates_documented k" and "fair_reads rd"
  shows "and_then (compute_checksum_values k rd ctx source request) (\<lambda>v. Inr (cv_execution v)) =
    planned_checksum_execution ctx source request"
proof (cases "resolve_algorithms (ck_algorithms request)")
  case (Inl e)
  then show ?thesis by (simp add: compute_checksum_values_def planned_checksum_execution_def)
next
  case algorithms: (Inr algorithms)
  show ?thesis
  proof (cases "resolved_range_from_request source (ck_start request) (ck_length request)")
    case (Inl e)
    then show ?thesis by (simp add: compute_checksum_values_def planned_checksum_execution_def algorithms)
  next
    case (Inr rng)
    show ?thesis
      by (rule compute_checksum_values_run [OF assms algorithms Inr, of ctx])
        (simp add: planned_checksum_execution_def algorithms Inr)
  qed
qed

text \<open>
  When the shared pool falls back to one thread, \<open>build_pool\<close> says so in the execution it
  returns; the engine drops that execution and reports the planned one.
\<close>

lemma pool_fallback_not_reported:
  assumes "crates_documented k" and "fair_reads rd"
    and "build_pool ctx cap = Inr (fallback, pool)" and "thread_fallback fallback"
    and "compute_checksum_values k rd ctx source request = Inr v"
  shows "\<not> thread_fallback (cv_execution v)"
proof -
  have no_fallback: "\<not> thread_fallback (plan_threads ctx c)" for c
    by (cases c) (auto simp: plan_threads_def Let_def)
  have "planned_checksum_execution ctx source request = Inr (cv_execution v)"
    using planned_execution_reported [OF assms(1,2), of ctx source request] assms(5) by simp
  then obtain c where "plan_threads ctx c = cv_execution v"
    by (auto simp: planned_checksum_execution_def result_iff)
  then show ?thesis using no_fallback [of c] by simp
qed

section \<open>Progress events\<close>

definition percent_of :: "nat \<Rightarrow> nat \<Rightarrow> nat" where
  "percent_of whole p = (if whole \<le> p then 100 else saturating_mul p 100 div whole)"

lemma percent_of_mono: "p \<le> q \<Longrightarrow> percent_of whole p \<le> percent_of whole q"
proof -
  assume pq: "p \<le> q"
  have small: "saturating_mul p 100 div whole \<le> 100" if "p < whole"
  proof -
    have "saturating_mul p 100 \<le> 100 * whole" using that by (simp add: saturating_mul_def min_def)
    then have "saturating_mul p 100 div whole \<le> 100 * whole div whole" by (rule div_le_mono)
    then show ?thesis using that by simp
  qed
  have "saturating_mul p 100 \<le> saturating_mul q 100" using pq by (simp add: saturating_mul_def min_def)
  then have "saturating_mul p 100 div whole \<le> saturating_mul q 100 div whole" by (rule div_le_mono)
  then show ?thesis using pq small by (auto simp: percent_of_def)
qed

lemma percent_of_100: "percent_of whole p \<ge> 100 \<Longrightarrow> whole \<le> p \<or> whole = 0"
proof (rule ccontr)
  assume a: "100 \<le> percent_of whole p" and b: "\<not> (whole \<le> p \<or> whole = 0)"
  then have "saturating_mul p 100 div whole \<ge> 100" by (simp add: percent_of_def)
  then have "100 * whole \<le> saturating_mul p 100"
    using b by (simp add: less_eq_div_iff_mult_less_eq)
  moreover have "saturating_mul p 100 \<le> p * 100" by (simp add: saturating_mul_def)
  ultimately show False using b by simp
qed

definition tracker_ok :: "nat \<Rightarrow> progress_tracker \<Rightarrow> bool" where
  "tracker_ok whole t \<longleftrightarrow>
     pt_total t = whole \<and> pt_processed t \<le> whole \<and> pt_next_percent t \<le> 101 \<and>
     length (pt_events t) < pt_next_percent t \<and>
     sorted_wrt (<) (map processed_bytes (pt_events t)) \<and>
     (\<forall>e \<in> set (pt_events t). percent_of whole (processed_bytes e) < pt_next_percent t \<and>
        processed_bytes e \<le> pt_processed t \<and> total_bytes e = whole) \<and>
     (pt_next_percent t = 101 \<longrightarrow> pt_events t \<noteq> [] \<and> processed_bytes (last (pt_events t)) = whole)"

lemma tracker_ok_new: "tracker_ok whole (tracker_new whole)"
  by (simp add: tracker_ok_def tracker_new_def)

lemma percent_le: "percent_of whole p \<le> 100"
  using percent_of_mono [of p "max p whole" whole] by (simp add: percent_of_def)

lemma tracker_emit:
  assumes ok: "tracker_ok whole t" and "0 < whole" and "pt_processed t \<le> p" and "p \<le> whole"
  shows "tracker_ok whole (maybe_emit (t\<lparr>pt_processed := p\<rparr>))"
proof -
  let ?t = "t\<lparr>pt_processed := p\<rparr>"
  have pct: "tracker_percent ?t = percent_of whole p"
    using ok by (simp add: tracker_percent_def percent_of_def tracker_ok_def)
  show ?thesis
  proof (cases "percent_of whole p < pt_next_percent t")
    case True
    then show ?thesis
      using ok assms(3,4) by (auto simp: maybe_emit_def pct tracker_ok_def intro: order.trans)
  next
    case False
    have step: "saturating_add (percent_of whole p) (Suc 0) = Suc (percent_of whole p)"
      using percent_le [of whole p] by (simp add: saturating_add_def u64_max_def)
    have "processed_bytes e < p" if "e \<in> set (pt_events t)" for e
    proof (rule ccontr)
      assume "\<not> processed_bytes e < p"
      then have "percent_of whole p \<le> percent_of whole (processed_bytes e)"
        by (simp add: percent_of_mono)
      then show False using False ok that by (auto simp: tracker_ok_def)
    qed
    moreover have "whole \<le> p" if "percent_of whole p = 100"
      using percent_of_100 [of whole p] that assms(2) by simp
    ultimately show ?thesis
      using ok assms(2-4) False percent_le [of whole p]
      by (auto simp: maybe_emit_def pct tracker_ok_def step Let_def sorted_wrt_append)
  qed
qed

lemma tracker_ok_advance:
  assumes "tracker_ok whole t" and "whole \<le> u64_max"
  shows "tracker_ok whole (tracker_advance d t)"
proof (cases "whole = 0")
  case True
  then have "tracker_advance d t = t"
    using assms(1) by (simp add: tracker_advance_def tracker_ok_def)
  then show ?thesis using assms(1) by simp
next
  case False
  have t: "pt_total t = whole" "pt_processed t \<le> whole"
    using assms(1) by (simp_all add: tracker_ok_def)
  then have "pt_processed t \<le> min (saturating_add (pt_processed t) d) whole"
    using assms(2) by (simp add: saturating_add_def)
  then show ?thesis
    using tracker_emit [OF assms(1)] False t by (simp add: tracker_advance_def)
qed

lemma tracker_ok_advanced:
  assumes "advanced (tracker_new whole) q" and "whole \<le> u64_max"
  shows "tracker_ok whole q"
proof -
  have "tracker_ok whole (fold tracker_advance ds t)" if "tracker_ok whole t" for ds t
    using that by (induction ds arbitrary: t) (simp_all add: tracker_ok_advance [OF _ assms(2)])
  then show ?thesis using assms(1) tracker_ok_new by (auto simp: advanced_def)
qed

lemma tracker_finished:
  assumes "tracker_ok whole q" and "0 < whole"
  shows "tracker_ok whole (tracker_finish q)" and "pt_next_percent (tracker_finish q) = 101"
proof -
  have t: "pt_total q = whole" "pt_processed q \<le> whole"
    using assms(1) by (simp_all add: tracker_ok_def)
  then have finish: "tracker_finish q = maybe_emit (q\<lparr>pt_processed := whole\<rparr>)"
    using assms(2) by (simp add: tracker_finish_def)
  show "tracker_ok whole (tracker_finish q)"
    unfolding finish using tracker_emit [OF assms] t by simp
  have "pt_next_percent q \<le> 101" using assms(1) by (simp add: tracker_ok_def)
  then show "pt_next_percent (tracker_finish q) = 101"
    unfolding finish using assms(2) t by (auto simp: maybe_emit_def tracker_percent_def Let_def saturating_add_def u64_max_def)
qed

lemma tracker_finish_empty: "advanced (tracker_new 0) q \<Longrightarrow> pt_events (tracker_finish q) = []"
proof -
  have "fold tracker_advance ds t = t" if "pt_total t = 0" for ds t
    using that by (induction ds) (simp_all add: tracker_advance_def)
  then show "advanced (tracker_new 0) q \<Longrightarrow> ?thesis"
    by (auto simp: advanced_def tracker_finish_def tracker_new_def)
qed

lemma finished_events:
  assumes "advanced (tracker_new whole) q" and "whole \<le> u64_max"
  shows "length (pt_events (tracker_finish q)) \<le> 100 \<and>
    sorted_wrt (<) (map processed_bytes (pt_events (tracker_finish q))) \<and>
    (\<forall>e \<in> set (pt_events (tracker_finish q)). total_bytes e = whole \<and> processed_bytes e \<le> whole) \<and>
    (0 < whole \<longrightarrow> pt_events (tracker_finish q) \<noteq> [] \<and> processed_bytes (last (pt_events (tracker_finish q))) = whole)"
proof (cases "whole = 0")
  case True
  then show ?thesis using tracker_finish_empty assms(1) by simp
next
  case False
  let ?t = "tracker_finish q"
  have ok: "tracker_ok whole ?t" and full: "pt_next_percent ?t = 101"
    using tracker_finished [OF tracker_ok_advanced [OF assms]] False by simp_all
  then have "length (pt_events ?t) \<le> 100" "pt_processed ?t \<le> whole" by (simp_all add: tracker_ok_def)
  then show ?thesis using ok full by (auto simp: tracker_ok_def)
qed

text \<open>
  C22. However the range is cut into reads and chunks, a checksum run emits at most a hundred
  progress events, each further than the one before, all against the length of the range, and
  the last one reports the whole range.
\<close>

theorem checksum_progress_bounded:
  assumes "crates_documented k" and "fair_reads rd" and "length source \<le> u64_max"
    and "resolve_algorithms (ck_algorithms request) = Inr algorithms" and "algorithms \<noteq> []"
    and "resolved_range_from_request source (ck_start request) (ck_length request) = Inr rng"
    and "compute_checksum_values k rd ctx source request = Inr v"
  shows "length (cv_events v) \<le> 100 \<and> sorted_wrt (<) (map processed_bytes (cv_events v)) \<and>
    (\<forall>e \<in> set (cv_events v). total_bytes e = rr_len rng \<and> processed_bytes e \<le> rr_len rng) \<and>
    (0 < rr_len rng \<longrightarrow> cv_events v \<noteq> [] \<and> processed_bytes (last (cv_events v)) = rr_len rng)"
proof -
  have len: "rr_len rng \<le> u64_max"
    using resolved_range_in [OF assms(6)] assms(3) by (simp add: range_in_def)
  obtain p where p: "advanced (tracker_new (rr_len rng)) p" and events: "cv_events v = pt_events (tracker_finish p)"
  proof (rule compute_checksum_values_run [OF assms(1,2,4,6), of ctx])
    fix q :: progress_tracker
    assume "compute_checksum_values k rd ctx source request =
        Inr \<lparr>cv_execution = plan_threads ctx (if algorithms = [] then SingleThreaded
                                              else cp_capability (plan_checksum algorithms rng)),
             cv_values = checksum_table k algorithms (range_bytes source rng), cv_events = pt_events q\<rparr>"
    then have "cv_events v = pt_events q" using assms(7) by auto
    moreover assume "(algorithms = [] \<and> pt_events q = []) \<or> (\<exists>p. advanced (tracker_new (rr_len rng)) p \<and> q = tracker_finish p)"
    ultimately show ?thesis using that assms(5) by auto
  qed
  then show ?thesis using finished_events [OF p len] unfolding events by simp
qed

theorem checksum_progress_bounded_witness:
  "\<exists>v. compute_checksum_values sample_crates byte_reads (plain_context 8) [1, 2, 3]
      \<lparr>ck_algorithms = [''md5''], ck_start = None, ck_length = Some 2\<rparr> = Inr v \<and>
    length (cv_events v) \<le> 100 \<and> processed_bytes (last (cv_events v)) = 2"
proof -
  let ?req = "\<lparr>ck_algorithms = [''md5''], ck_start = None, ck_length = Some 2\<rparr>"
  have algorithms: "resolve_algorithms (ck_algorithms ?req) = Inr [Md5]"
    by (simp add: resolve_algorithms_def algorithm_parse_eval)
  have rng: "resolved_range_from_request [1, 2, 3] (ck_start ?req) (ck_length ?req) =
      Inr \<lparr>rr_start = 0, rr_len = 2, rr_file_len = 3, rr_explicit = True\<rparr>"
    by (simp add: resolved_range_from_request_def)
  obtain v where v: "compute_checksum_values sample_crates byte_reads (plain_context 8) [1, 2, 3] ?req = Inr v"
    by (rule compute_checksum_values_run [OF sample_documented sample_reads(2) algorithms rng, of "plain_context 8"])
  show ?thesis
    using checksum_progress_bounded [OF sample_documented sample_reads(2) _ algorithms _ rng v] v
    by (simp add: u64_max_def)
qed

section \<open>The shape of the digests\<close>

definition hex_text :: "string \<Rightarrow> bool" where
  "hex_text s \<longleftrightarrow> set s \<subseteq> set ''0123456789abcdef''"

text \<open>The digest sizes the crates document.\<close>

definition crates_widths :: "'h crates \<Rightarrow> bool" where
  "crates_widths k \<longleftrightarrow>
     (\<forall>s. length (md5_finalize k s) = 16 \<and> length (sha1_finalize k s) = 20 \<and>
          length (sha256_finalize k s) = 32 \<and> length (blake3_hex k s) = 64 \<and> hex_text (blake3_hex k s))"

lemma hex_digit_text: "d < 16 \<Longrightarrow> ''0123456789abcdef'' ! d \<in> set ''0123456789abcdef''"
  by (rule nth_mem) simp

lemma number_digits_hex: "set (number_digits 16 n) \<subseteq> set ''0123456789abcdef''"
proof (induction n rule: less_induct)
  case (less n)
  show ?case
  proof (cases "n < 16")
    case True
    then have "number_digits 16 n = [''0123456789abcdef'' ! n]" by (subst number_digits.simps) simp
    then show ?thesis using hex_digit_text [OF True] by (simp only: list.set insert_subset empty_subsetI)
  next
    case False
    then have "number_digits 16 n = number_digits 16 (n div 16) @ [''0123456789abcdef'' ! (n mod 16)]"
      by (subst number_digits.simps) simp
    moreover have "n div 16 < n" using False by simp
    ultimately show ?thesis
      using less [of "n div 16"] hex_digit_text [of "n mod 16"]
      by (simp only: set_append Un_subset_iff list.set insert_subset empty_subsetI)
  qed
qed

lemma length_number_digits: "0 < w \<Longrightarrow> n < 16 ^ w \<Longrightarrow> length (number_digits 16 n) \<le> w"
proof (induction w arbitrary: n)
  case (Suc w)
  show ?case
  proof (cases "n < 16")
    case True
    then show ?thesis by (simp add: number_digits.simps [of 16 n])
  next
    case False
    have "n div 16 < 16 ^ w" using Suc.prems by (simp add: less_mult_imp_div_less mult.commute)
    moreover from this have "0 < w" using False by (cases w) auto
    ultimately show ?thesis using Suc.IH [of "n div 16"] False by (simp add: number_digits.simps [of 16 n])
  qed
qed simp

lemma hex_padded_shape:
  assumes "0 < w" and "n < 16 ^ w"
  shows "length (hex_padded w n) = w" and "hex_text (hex_padded w n)"
  using length_number_digits [OF assms] number_digits_hex [of n]
  by (auto simp: hex_padded_def Let_def hex_text_def)

lemma hex_encode_shape: "length (hex_encode bs) = 2 * length bs" "hex_text (hex_encode bs)"
proof -
  have "unat b < 16 ^ 2" for b :: u8 using unat_u8_lt [of b] by simp
  note shape = hex_padded_shape [OF _ this, simplified]
  show "length (hex_encode bs) = 2 * length bs"
    by (induction bs) (simp_all add: hex_encode_def shape)
  show "hex_text (hex_encode bs)"
    by (induction bs) (use shape in \<open>simp_all add: hex_encode_def hex_text_def\<close>)
qed

lemma u32_hex_shape: "length (hex_padded 8 (unat (w :: u32))) = 8" "hex_text (hex_padded 8 (unat (w :: u32)))"
proof -
  have "unat w < 16 ^ 8" using unsigned_less [of w] by simp
  then show "length (hex_padded 8 (unat w)) = 8" "hex_text (hex_padded 8 (unat w))"
    by (simp_all add: hex_padded_shape)
qed

lemma u16_hex_shape: "length (hex_padded 4 (unat (w :: u16))) = 4" "hex_text (hex_padded 4 (unat (w :: u16)))"
proof -
  have "unat w < 16 ^ 4" using unsigned_less [of w] by simp
  then show "length (hex_padded 4 (unat w)) = 4" "hex_text (hex_padded 4 (unat w))"
    by (simp_all add: hex_padded_shape)
qed

lemma digest_shape:
  assumes "crates_widths k"
  shows "checksum_hex_len (algorithm_name a) = Some (length (digest k a bs)) \<and> hex_text (digest k a bs)"
  using assms
  by (cases a)
    (simp_all add: crates_widths_def digest_def hex_encode_shape u32_hex_shape u16_hex_shape
      checksum_hex_len_def ALGORITHM_TABLE_def)

text \<open>
  C23. Every value the engine reports is text of lower-case hexadecimal digits, exactly as many
  as the algorithm table promises for that algorithm's id; and the ids reported are those of
  the requested algorithms.
\<close>

theorem checksum_values_typed:
  assumes "crates_documented k" and "crates_widths k" and "fair_reads rd"
    and "resolve_algorithms (ck_algorithms request) = Inr algorithms"
    and "compute_checksum_values k rd ctx source request = Inr v"
  shows "dom (cv_values v) = algorithm_name ` set algorithms \<and>
    (\<forall>name text. cv_values v name = Some text \<longrightarrow>
       checksum_hex_len name = Some (length text) \<and> hex_text text)"
proof -
  have "requested_values k source request = Inr (cv_values v)"
    using compute_values_requested [OF assms(1,3), of ctx source request] assms(5) by simp
  then obtain bs where "checksum_table k algorithms bs = cv_values v"
    by (auto simp: requested_values_def assms(4) result_iff)
  then have "cv_values v = checksum_table k algorithms bs" by simp
  then show ?thesis
    using digest_shape [OF assms(2)] by (auto simp: dom_def checksum_table_Some)
qed

theorem checksum_values_typed_witness:
  "\<exists>v. compute_checksum_values sample_crates whole_reads (plain_context 1) [7]
      \<lparr>ck_algorithms = [''sha1'', ''CRC32''], ck_start = None, ck_length = None\<rparr> = Inr v \<and>
    dom (cv_values v) = {''sha1'', ''crc32''}"
proof -
  let ?req = "\<lparr>ck_algorithms = [''sha1'', ''CRC32''], ck_start = None, ck_length = None\<rparr>"
  have algorithms: "resolve_algorithms (ck_algorithms ?req) = Inr [Sha1, Crc32]"
    by (simp add: resolve_algorithms_def algorithm_parse_eval)
  have rng: "resolved_range_from_request [7] (ck_start ?req) (ck_length ?req) =
      Inr \<lparr>rr_start = 0, rr_len = 1, rr_file_len = 1, rr_explicit = False\<rparr>"
    by (simp add: resolved_range_from_request_def)
  have widths: "crates_widths sample_crates"
    by (simp add: crates_widths_def sample_crates_def hex_encode_shape)
  obtain v where v: "compute_checksum_values sample_crates whole_reads (plain_context 1) [7] ?req = Inr v"
    by (rule compute_checksum_values_run [OF sample_documented sample_reads(1) algorithms rng, of "plain_context 1"])
  show ?thesis
    using checksum_values_typed [OF sample_documented widths sample_reads(1) algorithms v] v by simp
qed

section \<open>Readers\<close>

lemma reader_values_whole:
  assumes "crates_documented k" and "fair_reads rd" and "resolve_algorithms names = Inr algorithms"
  shows "\<exists>v. checksum_reader_values k rd ctx reader names = Inr v \<and>
    cv_values v = checksum_table k algorithms reader \<and> cv_execution v = plan_threads ctx SingleThreaded"
proof -
  let ?size = "max (tuned_chunk_size MAX_EAGER_MAP_RANGE_BYTES (effective_threads (plan_threads ctx SingleThreaded))) 1"
  have size: "0 < ?size" by simp
  let ?step = "\<lambda>chunk (batch, processed). (batch_update k chunk batch, saturating_add processed (length chunk))"
  obtain chunks where c: "concat chunks = reader"
    and run: "read_to_end rd reader 0 ?size ?step (batch_new k algorithms, 0) = fold ?step chunks (batch_new k algorithms, 0)"
    using read_to_end_chunks [OF assms(2), of ?size 0 reader ?step "(batch_new k algorithms, 0)"] size
    unfolding drop_0 by blast
  have fst_fold: "\<exists>n'. fold ?step cs (b, n) = (fold (batch_update k) cs b, n')" for cs b n
    by (induction cs arbitrary: b n) auto
  obtain n where "fold ?step chunks (batch_new k algorithms, 0) = (batch_update k reader (batch_new k algorithms), n)"
    using fst_fold [of chunks "batch_new k algorithms" 0] fold_batch_update [OF assms(1), of chunks] c by auto
  then show ?thesis
    unfolding checksum_reader_values_def assms(3) and_then_simps Let_def run by (simp add: batch_results_table)
qed

lemma md5_file_bytes:
  assumes "crates_documented k" and "fair_reads rd"
  shows "md5_file k rd f = md5_bytes k f"
proof -
  have feed: "fold (\<lambda>chunk h. hasher_update (md5_crate k) h chunk) cs h = hasher_update (md5_crate k) h (concat cs)" for cs h
    by (induction cs arbitrary: h) (simp_all add: streamsD crates_documentedD [OF assms(1)])
  show ?thesis
    using read_to_end_chunks [OF assms(2), of MD5_IO_BUFFER_SIZE 0 f "\<lambda>chunk h. hasher_update (md5_crate k) h chunk"
        "hasher_new (md5_crate k)"]
    by (auto simp: md5_file_def md5_bytes_def MD5_IO_BUFFER_SIZE_def feed)
qed

end
