(* ===== verification/Checksum_Stream.thy ===== *)
theory Checksum_Stream
  imports Checksum_Properties
begin

text \<open>
  Streaming checksums, \<open>StreamingChecksum\<close> and \<open>ChunkHashWorkers\<close> of
  \<open>rom-weaver-checksum/src/core.rs\<close>: the algorithms are dealt out to worker threads, the
  caller sends every chunk to every worker's bounded queue, and each worker folds its queue into
  its own hashers.  The threads are a step relation: a step delivers the caller's next chunk to
  a queue with room, or lets a worker hash the head of its queue.  Whether the threads could be
  started is a parameter; a worker does not panic and its queue is not dropped early.
\<close>

section \<open>Workers\<close>

definition round_robin_groups :: "'a list \<Rightarrow> nat \<Rightarrow> 'a list list" where
  "round_robin_groups items groups = deal_round_robin items (max (min groups (length items)) 1)"

text \<open>A worker is its hashers and the chunks queued for it.\<close>

type_synonym 'h chunk_worker = "'h hasher_batch \<times> bytes list"

text \<open>\<open>send\<close> hands a chunk to the workers in order; \<open>todo\<close> is what the caller still has to hand over.\<close>

type_synonym 'h worker_state = "'h chunk_worker list \<times> (nat \<times> bytes) list"

definition send_chunk :: "nat \<Rightarrow> bytes \<Rightarrow> (nat \<times> bytes) list" where
  "send_chunk workers chunk = map (\<lambda>i. (i, chunk)) [0..<workers]"

definition send_all :: "nat \<Rightarrow> bytes list \<Rightarrow> (nat \<times> bytes) list" where
  "send_all workers chunks = concat (map (send_chunk workers) chunks)"

definition CHUNK_QUEUE :: nat where
  "CHUNK_QUEUE = 2"

inductive hash_worker_step :: "'h crates \<Rightarrow> 'h worker_state \<Rightarrow> 'h worker_state \<Rightarrow> bool" for k where
  deliver: "i < length ws \<Longrightarrow> length (snd (ws ! i)) < CHUNK_QUEUE \<Longrightarrow>
    hash_worker_step k (ws, (i, chunk) # todo) (ws[i := (fst (ws ! i), snd (ws ! i) @ [chunk])], todo)"
| hash: "i < length ws \<Longrightarrow> ws ! i = (batch, chunk # queue) \<Longrightarrow>
    hash_worker_step k (ws, todo) (ws[i := (batch_update k chunk batch, queue)], todo)"

inductive_cases hash_worker_stepE: "hash_worker_step k (ws, todo) s"

definition workers_start :: "'h hasher_batch list \<Rightarrow> bytes list \<Rightarrow> 'h worker_state" where
  "workers_start batches chunks =
     (map (\<lambda>b. (b, [])) batches, send_all (length batches) chunks)"

text \<open>The caller has sent everything and every queue is drained: \<open>finish\<close> can join the threads.\<close>

definition workers_done :: "'h worker_state \<Rightarrow> bool" where
  "workers_done s \<longleftrightarrow> snd s = [] \<and> (\<forall>w \<in> set (fst s). snd w = [])"

section \<open>Streaming checksums\<close>

datatype 'h streaming_checksum = Async "'h hasher_batch list" | Sync "'h hasher_batch"

definition from_algorithms_sync :: "'h crates \<Rightarrow> algorithm list \<Rightarrow> 'h streaming_checksum" where
  "from_algorithms_sync k algorithms = Sync (batch_new k algorithms)"

definition try_from_algorithms_async ::
  "'h crates \<Rightarrow> bool \<Rightarrow> algorithm list \<Rightarrow> nat \<Rightarrow> 'h streaming_checksum option" where
  "try_from_algorithms_async k spawned algorithms worker_count =
     (if spawned then Some (Async (map (batch_new k) (round_robin_groups algorithms worker_count)))
      else None)"

definition streaming_new :: "'h crates \<Rightarrow> string list \<Rightarrow> 'h streaming_checksum option result" where
  "streaming_new k names =
     and_then (resolve_algorithms names) (\<lambda>algorithms.
       Inr (if algorithms = [] then None else Some (from_algorithms_sync k algorithms)))"

definition streaming_new_with_context ::
  "'h crates \<Rightarrow> bool \<Rightarrow> op_context \<Rightarrow> string list \<Rightarrow> 'h streaming_checksum option result" where
  "streaming_new_with_context k spawned ctx names =
     and_then (resolve_algorithms names) (\<lambda>algorithms.
       if algorithms = [] then Inr None
       else let execution = plan_threads ctx (Parallel (Some (length algorithms)));
                threaded = (if used_parallelism execution \<and> 1 < effective_threads execution
                            then try_from_algorithms_async k spawned algorithms (effective_threads execution)
                            else None)
            in Inr (Some (case threaded of Some checksum \<Rightarrow> checksum
                          | None \<Rightarrow> from_algorithms_sync k algorithms)))"

definition streaming_new_parallel ::
  "'h crates \<Rightarrow> bool \<Rightarrow> nat \<Rightarrow> string list \<Rightarrow> 'h streaming_checksum option result" where
  "streaming_new_parallel k spawned max_threads names =
     and_then (resolve_algorithms names) (\<lambda>algorithms.
       if algorithms = [] then Inr None
       else let threaded = (if 1 < max_threads
                            then try_from_algorithms_async k spawned algorithms max_threads else None)
            in Inr (Some (case threaded of Some checksum \<Rightarrow> checksum
                          | None \<Rightarrow> from_algorithms_sync k algorithms)))"

text \<open>What \<open>finalize\<close> can return once \<open>update\<close> has been called with each of the chunks.\<close>

definition streaming_finalizes ::
  "'h crates \<Rightarrow> 'h streaming_checksum \<Rightarrow> bytes list \<Rightarrow> checksum_map \<Rightarrow> bool" where
  "streaming_finalizes k checksum chunks m \<longleftrightarrow>
     (case checksum of
        Sync batch \<Rightarrow> m = batch_results k (fold (batch_update k) chunks batch)
      | Async batches \<Rightarrow>
          (\<exists>s. (hash_worker_step k)\<^sup>*\<^sup>* (workers_start batches chunks) s \<and> workers_done s \<and>
               m = fanout_results k (map fst (fst s))))"

section \<open>Every schedule\<close>

text \<open>
  What a worker will have hashed when its queue and its share of \<open>todo\<close> are drained: no step
  changes it.
\<close>

definition owed :: "'h crates \<Rightarrow> 'h worker_state \<Rightarrow> nat \<Rightarrow> 'h hasher_batch" where
  "owed k s i =
     fold (batch_update k) (snd (fst s ! i) @ map snd (filter (\<lambda>(j, c). j = i) (snd s))) (fst (fst s ! i))"

lemma hash_worker_step_owed:
  assumes "hash_worker_step k s t"
  shows "length (fst t) = length (fst s)" and "i < length (fst s) \<Longrightarrow> owed k t i = owed k s i"
  using assms
  by (induction rule: hash_worker_step.induct) (auto simp: owed_def nth_list_update)

lemma worker_steps_owed:
  assumes "(hash_worker_step k)\<^sup>*\<^sup>* s t"
  shows "length (fst t) = length (fst s) \<and> (\<forall>i < length (fst s). owed k t i = owed k s i)"
  using assms
proof (induction rule: rtranclp_induct)
  case (step t u)
  then show ?case using hash_worker_step_owed [OF step(2)] by simp
qed simp

lemma send_all_for:
  assumes "i < n"
  shows "map snd (filter (\<lambda>(j, c). j = i) (send_all n chunks)) = chunks"
proof -
  have "filter (\<lambda>j. j = i) [0..<n] = [i]"
    using assms by (induction n) (auto simp: less_Suc_eq)
  then have "map snd (filter (\<lambda>(j, c). j = i) (send_chunk n c)) = [c]" for c
    by (simp add: send_chunk_def filter_map comp_def)
  then show ?thesis by (induction chunks) (simp_all add: send_all_def)
qed

lemma owed_start:
  "i < length batches \<Longrightarrow> owed k (workers_start batches chunks) i = fold (batch_update k) chunks (batches ! i)"
  by (simp add: owed_def workers_start_def send_all_for)

lemma workers_done_batches:
  assumes "(hash_worker_step k)\<^sup>*\<^sup>* (workers_start batches chunks) s" and "workers_done s"
  shows "map fst (fst s) = map (fold (batch_update k) chunks) batches"
proof (rule nth_equalityI)
  note reach = worker_steps_owed [OF assms(1)]
  show len: "length (map fst (fst s)) = length (map (fold (batch_update k) chunks) batches)"
    using reach by (simp add: workers_start_def)
  fix i
  assume "i < length (map fst (fst s))"
  then have i: "i < length batches" "i < length (fst s)" using len by simp_all
  have "owed k s i = fst (fst s ! i)"
    using assms(2) i(2) by (simp add: owed_def workers_done_def)
  then show "map fst (fst s) ! i = map (fold (batch_update k) chunks) batches ! i"
    using reach i owed_start [OF i(1), of k chunks] by (simp add: workers_start_def)
qed

text \<open>No schedule gets stuck, and none runs forever.\<close>

definition worker_measure :: "'h worker_state \<Rightarrow> nat" where
  "worker_measure s = 2 * length (snd s) + sum_list (map (\<lambda>w. length (snd w)) (fst s))"

lemma sum_list_update_nat:
  "i < length xs \<Longrightarrow> sum_list (map f (xs[i := y])) + f (xs ! i) = sum_list (map f xs) + (f y :: nat)"
  by (induction xs arbitrary: i) (auto split: nat.split)

lemma hash_worker_step_measure: "hash_worker_step k s t \<Longrightarrow> worker_measure t < worker_measure s"
proof (induction rule: hash_worker_step.induct)
  case (deliver i ws chunk todo)
  then show ?case
    using sum_list_update_nat [of i ws "\<lambda>w. length (snd w)" "(fst (ws ! i), snd (ws ! i) @ [chunk])"]
    by (simp add: worker_measure_def)
next
  case (hash i ws batch chunk queue todo)
  then show ?case
    using sum_list_update_nat [of i ws "\<lambda>w. length (snd w)" "(batch_update k chunk batch, queue)"]
    by (simp add: worker_measure_def)
qed

definition todo_ok :: "'h worker_state \<Rightarrow> bool" where
  "todo_ok s \<longleftrightarrow> (\<forall>(i, c) \<in> set (snd s). i < length (fst s))"

lemma todo_ok_start: "todo_ok (workers_start batches chunks)"
  by (auto simp: todo_ok_def workers_start_def send_all_def send_chunk_def)

lemma hash_worker_step_todo_ok: "hash_worker_step k s t \<Longrightarrow> todo_ok s \<Longrightarrow> todo_ok t"
  by (induction rule: hash_worker_step.induct) (auto simp: todo_ok_def)

lemma worker_steps_todo_ok: "(hash_worker_step k)\<^sup>*\<^sup>* s t \<Longrightarrow> todo_ok s \<Longrightarrow> todo_ok t"
  by (induction rule: rtranclp_induct) (auto intro: hash_worker_step_todo_ok)

lemma hash_worker_step_enabled:
  assumes "todo_ok s" and "\<not> workers_done s"
  shows "\<exists>t. hash_worker_step k s t"
proof (cases "\<exists>w \<in> set (fst s). snd w \<noteq> []")
  case True
  then obtain i where "i < length (fst s)" "snd (fst s ! i) \<noteq> []" by (auto simp: in_set_conv_nth)
  then show ?thesis
    using hash [of i "fst s" "fst (fst s ! i)" "hd (snd (fst s ! i))" "tl (snd (fst s ! i))" k "snd s"]
    by (metis list.collapse prod.collapse)
next
  case False
  then obtain i chunk todo where todo: "snd s = (i, chunk) # todo"
    using assms(2) by (cases "snd s") (auto simp: workers_done_def)
  then have "i < length (fst s)" using assms(1) by (simp add: todo_ok_def)
  moreover from this have "length (snd (fst s ! i)) < CHUNK_QUEUE"
    using False by (auto simp: CHUNK_QUEUE_def)
  ultimately show ?thesis
    using deliver [of i "fst s" k chunk todo] todo by (metis prod.collapse)
qed

lemma workers_finish:
  assumes "todo_ok s"
  shows "\<exists>t. (hash_worker_step k)\<^sup>*\<^sup>* s t \<and> workers_done t"
  using assms
proof (induction "worker_measure s" arbitrary: s rule: less_induct)
  case less
  show ?case
  proof (cases "workers_done s")
    case True
    then show ?thesis by blast
  next
    case False
    then obtain t where t: "hash_worker_step k s t" using hash_worker_step_enabled [OF less.prems] by blast
    then obtain u where "(hash_worker_step k)\<^sup>*\<^sup>* t u" "workers_done u"
      using less.hyps [OF hash_worker_step_measure [OF t]] hash_worker_step_todo_ok [OF t less.prems] by blast
    then show ?thesis using t by (meson converse_rtranclp_into_rtranclp)
  qed
qed

section \<open>The digests of a stream\<close>

lemma round_robin_groups_set: "set (concat (round_robin_groups items n)) = set items"
  unfolding round_robin_groups_def by (rule deal_round_robin_set) simp

lemma sync_finalizes:
  assumes "crates_documented k"
  shows "streaming_finalizes k (from_algorithms_sync k algorithms) chunks m \<longleftrightarrow>
    m = checksum_table k algorithms (concat chunks)"
  by (simp add: streaming_finalizes_def from_algorithms_sync_def fold_batch_update [OF assms] batch_results_table)

lemma async_finalizes:
  assumes "crates_documented k" and "try_from_algorithms_async k spawned algorithms n = Some checksum"
  shows "streaming_finalizes k checksum chunks m \<longleftrightarrow> m = checksum_table k algorithms (concat chunks)"
proof -
  let ?groups = "round_robin_groups algorithms n"
  let ?start = "workers_start (map (batch_new k) ?groups) chunks"
  have checksum: "checksum = Async (map (batch_new k) ?groups)"
    using assms(2) by (simp add: try_from_algorithms_async_def split: if_splits)
  have "checksum_table k (concat ?groups) (concat chunks) = checksum_table k algorithms (concat chunks)"
    by (rule checksum_table_cong [OF round_robin_groups_set])
  then have result: "fanout_results k (map fst (fst s)) = checksum_table k algorithms (concat chunks)"
    if "(hash_worker_step k)\<^sup>*\<^sup>* ?start s" "workers_done s" for s
    unfolding workers_done_batches [OF that] fold_batch_update [OF assms(1), abs_def]
    by (simp add: fanout_results_table del: map_map)
  obtain s where s: "(hash_worker_step k)\<^sup>*\<^sup>* ?start s" "workers_done s"
    using workers_finish [OF todo_ok_start, of k "map (batch_new k) ?groups" chunks] by blast
  show ?thesis
    unfolding streaming_finalizes_def checksum streaming_checksum.case using result s by metis
qed

lemma streaming_context_finalizes:
  assumes "crates_documented k" and "streaming_new_with_context k spawned ctx names = Inr (Some checksum)"
    and "resolve_algorithms names = Inr algorithms"
  shows "streaming_finalizes k checksum chunks m \<longleftrightarrow> m = checksum_table k algorithms (concat chunks)"
proof -
  let ?e = "plan_threads ctx (Parallel (Some (length algorithms)))"
  let ?threaded = "if used_parallelism ?e \<and> 1 < effective_threads ?e
    then try_from_algorithms_async k spawned algorithms (effective_threads ?e) else None"
  have "checksum = (case ?threaded of Some c \<Rightarrow> c | None \<Rightarrow> from_algorithms_sync k algorithms)"
    using assms(2) by (auto simp: streaming_new_with_context_def assms(3) Let_def split: if_splits)
  then show ?thesis
    using sync_finalizes [OF assms(1)] async_finalizes [OF assms(1)]
    by (cases ?threaded) (auto split: if_splits)
qed

text \<open>
  C21. A streaming checksum over worker threads is the checksum of the stream.  For every number
  of threads, whether or not they could be started, and for every schedule of deliveries and
  workers, the digests \<open>finalize\<close> returns are those of the chunks' concatenation hashed in one
  go by each requested algorithm, and some schedule does return them; no state on the way there
  is stuck.
\<close>

theorem streaming_checksum_exact:
  assumes "crates_documented k" and "streaming_new_with_context k spawned ctx names = Inr (Some checksum)"
    and "resolve_algorithms names = Inr algorithms"
  shows "(streaming_finalizes k checksum chunks m \<longleftrightarrow> m = checksum_table k algorithms (concat chunks)) \<and>
    (\<forall>batches s. checksum = Async batches \<longrightarrow> (hash_worker_step k)\<^sup>*\<^sup>* (workers_start batches chunks) s \<longrightarrow>
       workers_done s \<or> (\<exists>t. hash_worker_step k s t))"
  using streaming_context_finalizes [OF assms, of chunks m] hash_worker_step_enabled
    worker_steps_todo_ok [OF _ todo_ok_start] by metis

theorem streaming_checksum_exact_witness:
  "\<exists>checksum. streaming_new_with_context sample_crates True (plain_context 4) [''crc16'', ''adler32''] = Inr (Some checksum) \<and>
    streaming_finalizes sample_crates checksum [[1, 2], [3]] (checksum_table sample_crates [Crc16, Adler32] [1, 2, 3])"
proof -
  have algorithms: "resolve_algorithms [''crc16'', ''adler32''] = Inr [Crc16, Adler32]"
    by (simp add: resolve_algorithms_def algorithm_parse_eval)
  then obtain checksum where
    c: "streaming_new_with_context sample_crates True (plain_context 4) [''crc16'', ''adler32''] = Inr (Some checksum)"
    by (simp add: streaming_new_with_context_def Let_def)
  then show ?thesis
    using streaming_checksum_exact [OF sample_documented c algorithms, of "[[1, 2], [3]]"] by simp
qed

end
