(* ===== verification/Vcdiff.thy ===== *)
theory Vcdiff
  imports Handlers Varint
begin

text \<open>
  The container of VCDIFF and xdelta patches, \<open>rom-weaver-patches/src/vcdiff\<close>: the base-128
  integers (\<open>varint.rs\<close>), the readers (\<open>decode_helpers.rs\<close>), and the header and window index
  that \<open>core.rs\<close> parses, down to the extents of the three sections of each window.  A reader is
  the patch and a position in it.
\<close>

section \<open>Base-128 integers\<close>

definition BASE128_MAX_GROUPS :: nat where
  "BASE128_MAX_GROUPS = 10"

text \<open>The groups of a value, the least significant first, as the loop fills the array.\<close>

fun base128_groups :: "nat \<Rightarrow> nat list" where
  "base128_groups v = (if v = 0 then [] else v mod 128 # base128_groups (v div 128))"

declare base128_groups.simps [simp del]

definition encode_base128 :: "nat \<Rightarrow> bytes" where
  "encode_base128 v =
     (if v = 0 then [0]
      else case base128_groups v of
             [] \<Rightarrow> []
           | g # gs \<Rightarrow> rev (word_of_nat g # map (\<lambda>g. word_of_nat g OR 0x80) gs))"

text \<open>\<open>eof\<close> is what running out of bytes means: the reader's error, or the length error.\<close>

definition base128_too_long :: "'a result" where
  "base128_too_long = invalid ''base-128 integer exceeds the supported length''"

fun decode_base128_loop :: "(nat \<times> bytes) result \<Rightarrow> nat \<Rightarrow> nat \<Rightarrow> bytes \<Rightarrow> (nat \<times> bytes) result" where
  "decode_base128_loop eof 0 v bs = base128_too_long"
| "decode_base128_loop eof (Suc k) v [] = eof"
| "decode_base128_loop eof (Suc k) v (b # bs) =
     (case checked_mul_opt v 128 of
        None \<Rightarrow> invalid ''base-128 integer overflowed u64''
      | Some current \<Rightarrow>
          (case checked_add_opt current (unat (b AND 0x7F)) of
             None \<Rightarrow> invalid ''base-128 integer overflowed u64''
           | Some v' \<Rightarrow> if b AND 0x80 = 0 then Inr (v', bs) else decode_base128_loop eof k v' bs))"

definition decode_base128 :: "(nat \<times> bytes) result \<Rightarrow> bytes \<Rightarrow> (nat \<times> bytes) result" where
  "decode_base128 eof bs = decode_base128_loop eof BASE128_MAX_GROUPS 0 bs"

definition decode_varint_raw :: "bytes \<Rightarrow> (nat \<times> nat) result" where
  "decode_varint_raw bs =
     and_then (decode_base128 base128_too_long bs) (\<lambda>(v, rest). Inr (v, length bs - length rest))"

fun varint_len_loop :: "nat \<Rightarrow> nat" where
  "varint_len_loop v = (if v = 0 then 0 else Suc (varint_len_loop (v div 128)))"

declare varint_len_loop.simps [simp del]

definition varint_len :: "nat \<Rightarrow> nat" where
  "varint_len v = (if v = 0 then 1 else varint_len_loop v)"

text \<open>The continued groups of a value, the most significant first.\<close>

fun continued_groups :: "nat \<Rightarrow> bytes" where
  "continued_groups v =
     (if v = 0 then [] else continued_groups (v div 128) @ [word_of_nat (v mod 128) OR 0x80])"

declare continued_groups.simps [simp del]

lemma rev_base128_groups: "rev (map (\<lambda>g. word_of_nat g OR 0x80) (base128_groups v)) = continued_groups v"
  by (induction v rule: base128_groups.induct)
    (simp add: base128_groups.simps continued_groups.simps)

lemma encode_base128_split: "encode_base128 v = continued_groups (v div 128) @ [word_of_nat (v mod 128)]"
proof (cases "v = 0")
  case True
  then show ?thesis by (simp add: encode_base128_def continued_groups.simps)
next
  case False
  then show ?thesis
    by (simp add: encode_base128_def base128_groups.simps [of v] rev_base128_groups)
qed

lemma length_continued_groups: "length (continued_groups v) = varint_len_loop v"
  by (induction v rule: continued_groups.induct) (simp add: continued_groups.simps varint_len_loop.simps)

lemma length_encode_base128: "length (encode_base128 v) = varint_len v"
  by (simp add: encode_base128_split length_continued_groups varint_len_def varint_len_loop.simps [of v])
    (simp add: varint_len_loop.simps)

lemma varint_len_loop_le: "v < 128 ^ k \<Longrightarrow> varint_len_loop v \<le> k"
proof (induction k arbitrary: v)
  case 0
  then show ?case by (simp add: varint_len_loop.simps)
next
  case (Suc k)
  then have "v div 128 < 128 ^ k" by (simp add: less_mult_imp_div_less mult.commute)
  then show ?case using Suc.IH [of "v div 128"] by (simp add: varint_len_loop.simps [of v])
qed

lemma low_group:
  assumes "g < 128"
  shows "unat (word_of_nat g AND 0x7F :: u8) = g" and "(word_of_nat g AND 0x80 :: u8) = 0"
    and "unat ((word_of_nat g OR 0x80) AND 0x7F :: u8) = g" and "((word_of_nat g OR 0x80) AND 0x80 :: u8) \<noteq> 0"
proof -
  have g: "unat (word_of_nat g :: u8) = g" using assms by (simp add: unat_of_nat)
  have h: "unat (word_of_nat g OR 0x80 :: u8) = 128 + g"
    using unat_or_128 [OF assms] by (simp add: or.commute)
  show "unat (word_of_nat g AND 0x7F :: u8) = g" using assms g by (simp add: unat_and_127)
  show "(word_of_nat g AND 0x80 :: u8) = 0" using and_128_iff [of "word_of_nat g"] assms g by auto
  show "unat ((word_of_nat g OR 0x80) AND 0x7F :: u8) = g" using assms h by (simp add: unat_and_127)
  show "((word_of_nat g OR 0x80) AND 0x80 :: u8) \<noteq> 0" using h by (simp add: and_128_iff)
qed

lemma decode_continued_groups:
  assumes "u \<le> u64_max"
  shows "decode_base128_loop eof (k + varint_len_loop u) 0 (continued_groups u @ bs) = decode_base128_loop eof k u bs"
  using assms
proof (induction u arbitrary: k bs rule: less_induct)
  case (less u)
  show ?case
  proof (cases "u = 0")
    case True
    then show ?thesis by (simp add: continued_groups.simps varint_len_loop.simps)
  next
    case False
    let ?g = "word_of_nat (u mod 128) OR 0x80 :: u8"
    have group: "unat (?g AND 0x7F) = u mod 128" "?g AND 0x80 \<noteq> 0"
      using low_group [of "u mod 128"] by simp_all
    have "decode_base128_loop eof (k + varint_len_loop u) 0 (continued_groups u @ bs) =
        decode_base128_loop eof (Suc k + varint_len_loop (u div 128)) 0 (continued_groups (u div 128) @ ?g # bs)"
      using False by (simp add: continued_groups.simps [of u] varint_len_loop.simps [of u])
    also have "\<dots> = decode_base128_loop eof (Suc k) (u div 128) (?g # bs)"
      using False less.prems by (intro less.IH) (auto intro: order.trans [OF div_le_dividend])
    also have "\<dots> = decode_base128_loop eof k u bs"
    proof -
      have parts: "u div 128 * 128 + u mod 128 = u" by (rule div_mult_mod_eq)
      then have small: "u div 128 * 128 \<le> u64_max" using less.prems by linarith
      show ?thesis
        using group by (simp add: checked_mul_opt_def checked_add_opt_def small less.prems parts)
    qed
    finally show ?thesis .
  qed
qed

lemma decode_encode_base128:
  assumes "v \<le> u64_max"
  shows "decode_base128 eof (encode_base128 v @ rest) = Inr (v, rest)"
proof -
  let ?u = "v div 128"
  have "v < 128 ^ 10" using assms by (simp add: u64_max_def)
  then have "?u < 128 ^ 9" by (simp add: less_mult_imp_div_less)
  then have "varint_len_loop ?u \<le> 9" by (rule varint_len_loop_le)
  then have k: "BASE128_MAX_GROUPS = Suc (9 - varint_len_loop ?u) + varint_len_loop ?u"
    by (simp add: BASE128_MAX_GROUPS_def)
  have u: "?u \<le> u64_max" using assms by (auto intro: order.trans [OF div_le_dividend])
  have parts: "?u * 128 + v mod 128 = v" by (rule div_mult_mod_eq)
  then have small: "?u * 128 \<le> u64_max" using assms by linarith
  show ?thesis
    unfolding decode_base128_def k encode_base128_split append_assoc decode_continued_groups [OF u]
    using low_group [of "v mod 128"] by (simp add: checked_mul_opt_def checked_add_opt_def small assms parts)
qed

lemma decode_base128_Inr:
  assumes "decode_base128 eof bs = Inr (v, rest)" and "\<not> is_ok eof"
  shows "v \<le> u64_max" and "length rest < length bs" and "drop (length bs - length rest) bs = rest"
proof -
  have "v \<le> u64_max \<and> (\<exists>pre. pre \<noteq> [] \<and> bs = pre @ rest)"
    if "decode_base128_loop eof k a bs = Inr (v, rest)" and "\<not> is_ok eof" for eof k a bs
    using that
  proof (induction eof k a bs rule: decode_base128_loop.induct)
    case (3 eof k a b bs)
    show ?case
    proof (cases "b AND 0x80 = 0")
      case True
      then show ?thesis
        using 3(2) by (auto simp: checked_add_opt_def invalid_def split: option.splits if_splits intro: exI [of _ "[b]"])
    next
      case False
      with 3(2) obtain c w where step: "checked_mul_opt a 128 = Some c" "checked_add_opt c (unat (b AND 0x7F)) = Some w"
        "decode_base128_loop eof k w bs = Inr (v, rest)"
        by (auto simp: invalid_def split: option.splits)
      from 3(1) [OF step(1,2) False step(3) 3(3)] obtain pre where "v \<le> u64_max" "bs = pre @ rest" by blast
      then show ?thesis by (auto intro: exI [of _ "b # pre"])
    qed
  qed (auto simp: base128_too_long_def)
  with assms obtain pre where "v \<le> u64_max" "pre \<noteq> []" "bs = pre @ rest"
    unfolding decode_base128_def by blast
  then show "v \<le> u64_max" and "length rest < length bs" and "drop (length bs - length rest) bs = rest"
    by auto
qed

section \<open>Readers\<close>

text \<open>A read at a position of the patch returns the position after it.\<close>

definition vcd_read_u8 :: "bytes \<Rightarrow> nat \<Rightarrow> (u8 \<times> nat) result" where
  "vcd_read_u8 f p = (if p < length f then Inr (f ! p, Suc p) else Err (Io UnexpectedEof))"

definition vcd_read_optional_u8 :: "bytes \<Rightarrow> nat \<Rightarrow> (u8 \<times> nat) option" where
  "vcd_read_optional_u8 f p = (if p < length f then Some (f ! p, Suc p) else None)"

definition vcd_read_be_u32 :: "bytes \<Rightarrow> nat \<Rightarrow> (u32 \<times> nat) result" where
  "vcd_read_be_u32 f p =
     (if p + 4 \<le> length f then Inr (word_of_nat (from_be (segment f p 4)), p + 4)
      else Err (Io UnexpectedEof))"

definition vcd_read_varint :: "bytes \<Rightarrow> nat \<Rightarrow> (nat \<times> nat) result" where
  "vcd_read_varint f p =
     and_then (decode_base128 (Err (Io UnexpectedEof)) (drop p f)) (\<lambda>(v, rest).
       Inr (v, p + (length (drop p f) - length rest)))"

definition skip_bytes :: "bytes \<Rightarrow> nat \<Rightarrow> nat \<Rightarrow> nat result" where
  "skip_bytes f p len =
     (let copied = min len (length f - p)
      in if copied \<noteq> len
         then invalid_fmt ''section declares {} byte(s) but only {} are available'' [Num len, Num copied]
         else Inr (p + len))"

definition read_section :: "bytes \<Rightarrow> nat \<Rightarrow> nat \<Rightarrow> bytes result" where
  "read_section f start len =
     and_then (checked_add start len ''section end'') (\<lambda>stop.
       if stop > length f
       then invalid_fmt ''section [{}, {}) extends past the {}-byte patch'' [Num start, Num stop, Num (length f)]
       else Inr (segment f start len))"

section \<open>Header and windows\<close>

definition VCDIFF_MAGIC_BYTES :: bytes where
  "VCDIFF_MAGIC_BYTES = [0xD6, 0xC3, 0xC4]"

definition VCDIFF_VERSION_STANDARD :: u8 where
  "VCDIFF_VERSION_STANDARD = 0"

definition HDR_SECONDARY :: u8 where "HDR_SECONDARY = 1"

definition HDR_CODE_TABLE :: u8 where "HDR_CODE_TABLE = 2"

definition HDR_APP_HEADER :: u8 where "HDR_APP_HEADER = 4"

definition HDR_KNOWN_MASK :: u8 where
  "HDR_KNOWN_MASK = HDR_SECONDARY OR HDR_CODE_TABLE OR HDR_APP_HEADER"

definition WIN_SOURCE :: u8 where "WIN_SOURCE = 1"

definition WIN_TARGET :: u8 where "WIN_TARGET = 2"

definition WIN_CHECKSUM :: u8 where "WIN_CHECKSUM = 4"

definition WIN_KNOWN_MASK :: u8 where
  "WIN_KNOWN_MASK = WIN_SOURCE OR WIN_TARGET OR WIN_CHECKSUM"

definition DELTA_DATA_COMP :: u8 where "DELTA_DATA_COMP = 1"

definition DELTA_INST_COMP :: u8 where "DELTA_INST_COMP = 2"

definition DELTA_ADDR_COMP :: u8 where "DELTA_ADDR_COMP = 4"

definition DELTA_KNOWN_MASK :: u8 where
  "DELTA_KNOWN_MASK = DELTA_DATA_COMP OR DELTA_INST_COMP OR DELTA_ADDR_COMP"

definition XDELTA_DJW_SECONDARY_ID :: u8 where "XDELTA_DJW_SECONDARY_ID = 1"

definition XDELTA_LZMA_SECONDARY_ID :: u8 where "XDELTA_LZMA_SECONDARY_ID = 2"

definition XDELTA_FGK_SECONDARY_ID :: u8 where "XDELTA_FGK_SECONDARY_ID = 16"

lemmas vcd_flags =
  HDR_SECONDARY_def HDR_CODE_TABLE_def HDR_APP_HEADER_def HDR_KNOWN_MASK_def WIN_SOURCE_def
  WIN_TARGET_def WIN_CHECKSUM_def WIN_KNOWN_MASK_def DELTA_DATA_COMP_def DELTA_INST_COMP_def
  DELTA_ADDR_COMP_def DELTA_KNOWN_MASK_def

lemmas vcd_secondary_ids =
  XDELTA_DJW_SECONDARY_ID_def XDELTA_LZMA_SECONDARY_ID_def XDELTA_FGK_SECONDARY_ID_def

datatype window_source_kind = KindSource | KindTarget

record custom_code_table_info =
  cct_near_size :: u8
  cct_same_size :: u8
  cct_data_len :: nat

record window_index =
  wi_source_kind :: "window_source_kind option"
  wi_source_segment_size :: nat
  wi_source_segment_position :: nat
  wi_target_window_size :: nat
  wi_delta_indicator :: u8
  wi_checksum :: "u32 option"
  wi_data_start :: nat
  wi_data_len :: nat
  wi_inst_start :: nat
  wi_inst_len :: nat
  wi_addr_start :: nat
  wi_addr_len :: nat
  wi_output_offset :: nat

record parsed_vcdiff =
  vp_secondary_compressor_id :: "u8 option"
  vp_custom_code_table :: "custom_code_table_info option"
  vp_app_header :: "bytes option"
  vp_windows :: "window_index list"

definition ensure_supported_secondary_compressor :: "u8 option \<Rightarrow> unit result" where
  "ensure_supported_secondary_compressor secondary_id =
     (case secondary_id of
        Some n \<Rightarrow>
          if n \<noteq> XDELTA_LZMA_SECONDARY_ID \<and> n \<noteq> XDELTA_DJW_SECONDARY_ID \<and> n \<noteq> XDELTA_FGK_SECONDARY_ID
          then invalid_fmt ''native VCDIFF backend does not support secondary compressor ID {}'' [Num (unat n)]
          else Inr ()
      | None \<Rightarrow> Inr ())"

definition minimum_source_size :: "window_index list \<Rightarrow> nat option result" where
  "minimum_source_size windows =
     fold_result (\<lambda>window required.
         and_then (checked_add (wi_source_segment_position window) (wi_source_segment_size window)
                     ''source requirement size'')
           (\<lambda>stop. Inr (Some (case required of None \<Rightarrow> stop | Some current \<Rightarrow> max current stop))))
       (filter (\<lambda>window. wi_source_kind window = Some KindSource) windows) None"

definition vcd_target_size :: "window_index list \<Rightarrow> nat result" where
  "vcd_target_size windows =
     fold_result (\<lambda>window n. checked_add n (wi_target_window_size window) ''patch target size'') windows 0"

text \<open>The declared length of the delta encoding must be what its parts add up to.\<close>

definition vcd_delta_len :: "nat \<Rightarrow> nat \<Rightarrow> nat \<Rightarrow> nat \<Rightarrow> nat result" where
  "vcd_delta_len header_len data_len inst_len addr_len =
     and_then (checked_add inst_len addr_len ''window section size'') (\<lambda>n.
     and_then (checked_add data_len n ''window section size'') (\<lambda>n.
     checked_add header_len n ''delta encoding size''))"

definition read_window_index :: "bytes \<Rightarrow> nat \<Rightarrow> nat \<Rightarrow> (window_index \<times> nat) option result" where
  "read_window_index f p output_offset =
     (case vcd_read_optional_u8 f p of
        None \<Rightarrow> Inr None
      | Some (win_indicator, p) \<Rightarrow>
          if win_indicator AND NOT WIN_KNOWN_MASK \<noteq> 0
          then invalid_fmt ''unsupported window flags 0x{:02X}'' [Hex (unat win_indicator)]
          else
            let uses_source = win_indicator AND WIN_SOURCE \<noteq> 0;
                uses_target = win_indicator AND WIN_TARGET \<noteq> 0
            in if uses_source \<and> uses_target
               then invalid ''window cannot reference both VCD_SOURCE and VCD_TARGET''
               else
                 let source_kind = (if uses_source then Some KindSource
                                    else if uses_target then Some KindTarget else None)
                 in and_then
                      (if source_kind \<noteq> None
                       then and_then (vcd_read_varint f p) (\<lambda>(seg_size, p).
                            and_then (vcd_read_varint f p) (\<lambda>(position, p). Inr (seg_size, position, p)))
                       else Inr (0, 0, p)) (\<lambda>(segment_size, segment_position, p).
                    and_then (vcd_read_varint f p) (\<lambda>(delta_encoding_len, delta_encoding_start).
                    and_then (vcd_read_varint f delta_encoding_start) (\<lambda>(target_window_size, p).
                    and_then (vcd_read_u8 f p) (\<lambda>(delta_indicator, p).
                    if delta_indicator AND NOT DELTA_KNOWN_MASK \<noteq> 0
                    then invalid_fmt ''unsupported delta section flags 0x{:02X}'' [Hex (unat delta_indicator)]
                    else
                    and_then (vcd_read_varint f p) (\<lambda>(data_len, p).
                    and_then (vcd_read_varint f p) (\<lambda>(inst_len, p).
                    and_then (vcd_read_varint f p) (\<lambda>(addr_len, p).
                    and_then
                      (if win_indicator AND WIN_CHECKSUM \<noteq> 0
                       then and_then (vcd_read_be_u32 f p) (\<lambda>(c, p). Inr (Some c, p))
                       else Inr (None, p)) (\<lambda>(checksum, data_start).
                    and_then (checked_add data_start data_len ''instruction section start'') (\<lambda>inst_start.
                    and_then (checked_add inst_start inst_len ''address section start'') (\<lambda>addr_start.
                    and_then (checked_add addr_start addr_len ''window end'') (\<lambda>window_end.
                    and_then (vcd_delta_len (data_start - delta_encoding_start) data_len inst_len addr_len)
                      (\<lambda>header_and_sections.
                    if header_and_sections \<noteq> delta_encoding_len
                    then invalid_fmt ''delta encoding length mismatch: header declared {} bytes but window needs {}''
                           [Num delta_encoding_len, Num header_and_sections]
                    else if window_end > length f
                    then invalid_fmt ''window sections end at offset {} but the patch is only {} byte(s)''
                           [Num window_end, Num (length f)]
                    else Inr (Some
                      (\<lparr>wi_source_kind = source_kind, wi_source_segment_size = segment_size,
                        wi_source_segment_position = segment_position,
                        wi_target_window_size = target_window_size, wi_delta_indicator = delta_indicator,
                        wi_checksum = checksum, wi_data_start = data_start, wi_data_len = data_len,
                        wi_inst_start = inst_start, wi_inst_len = inst_len,
                        wi_addr_start = addr_start, wi_addr_len = addr_len,
                        wi_output_offset = output_offset\<rparr>, window_end)))))))))))))))"

lemma vcd_read_varint_Inr:
  assumes "vcd_read_varint f p = Inr (v, q)"
  shows "p < q \<and> q \<le> length f \<and> v \<le> u64_max"
proof -
  let ?eof = "Err (Io UnexpectedEof) :: (nat \<times> bytes) result"
  obtain rest where decoded: "decode_base128 ?eof (drop p f) = Inr (v, rest)"
    and q: "q = p + (length (drop p f) - length rest)"
    using assms by (auto simp: vcd_read_varint_def result_iff)
  from decode_base128_Inr [OF decoded] have "v \<le> u64_max" "length rest < length (drop p f)" by simp_all
  then show ?thesis using q by simp
qed

lemma read_window_index_progress:
  assumes "read_window_index f p off = Inr (Some (w, q))"
  shows "p < q \<and> q \<le> length f"
  using assms
  by (auto simp: read_window_index_def vcd_read_optional_u8_def vcd_read_u8_def vcd_read_be_u32_def Let_def
      result_iff split: if_splits dest!: vcd_read_varint_Inr)

text \<open>The \<open>while let\<close> loop over the windows; \<open>windows\<close> are those read so far.\<close>

function parse_windows :: "bytes \<Rightarrow> nat \<Rightarrow> nat \<Rightarrow> window_index list \<Rightarrow> window_index list result" where
  "parse_windows f p output_offset windows =
     and_then (read_window_index f p output_offset) (\<lambda>next.
       case next of
         None \<Rightarrow> Inr windows
       | Some (window, p') \<Rightarrow>
           and_then (checked_add output_offset (wi_target_window_size window) ''patch output size'') (\<lambda>output_offset.
             parse_windows f p' output_offset (windows @ [window])))"
  by pat_completeness auto
termination
  by (relation "measure (\<lambda>(f, p, output_offset, windows). length f - p)")
    (auto dest!: read_window_index_progress)

declare parse_windows.simps [simp del]

definition parse_vcdiff :: "bytes \<Rightarrow> parsed_vcdiff result" where
  "parse_vcdiff f =
     and_then (seek_read_exact f 0 4) (\<lambda>magic.
     if take 3 magic \<noteq> VCDIFF_MAGIC_BYTES then invalid ''invalid VCDIFF header magic''
     else if magic ! 3 \<noteq> VCDIFF_VERSION_STANDARD
     then invalid_fmt ''unsupported VCDIFF header version byte 0x{:02X}'' [Hex (unat (magic ! 3))]
     else
     and_then (vcd_read_u8 f 4) (\<lambda>(hdr_indicator, p).
     if hdr_indicator AND NOT HDR_KNOWN_MASK \<noteq> 0
     then invalid_fmt ''unsupported VCDIFF header flags 0x{:02X}'' [Hex (unat hdr_indicator)]
     else
     and_then
       (if hdr_indicator AND HDR_SECONDARY \<noteq> 0
        then and_then (vcd_read_u8 f p) (\<lambda>(n, p). Inr (Some n, p)) else Inr (None, p))
       (\<lambda>(secondary_compressor_id, p).
     and_then (ensure_supported_secondary_compressor secondary_compressor_id) (\<lambda>_.
     and_then
       (if hdr_indicator AND HDR_CODE_TABLE \<noteq> 0
        then and_then (vcd_read_varint f p) (\<lambda>(code_table_len, p).
             if code_table_len \<le> 2 then invalid ''invalid custom code table size''
             else and_then (vcd_read_u8 f p) (\<lambda>(near_size, p).
                  and_then (vcd_read_u8 f p) (\<lambda>(same_size, p).
                  and_then (skip_bytes f p (code_table_len - 2)) (\<lambda>p.
                    Inr (Some \<lparr>cct_near_size = near_size, cct_same_size = same_size,
                               cct_data_len = code_table_len - 2\<rparr>, p)))))
        else Inr (None, p))
       (\<lambda>(custom_code_table, p).
     and_then
       (if hdr_indicator AND HDR_APP_HEADER \<noteq> 0
        then and_then (vcd_read_varint f p) (\<lambda>(app_header_len, start).
             and_then (read_section f start app_header_len) (\<lambda>header.
               Inr (Some header, start + app_header_len)))
        else Inr (None, p))
       (\<lambda>(app_header, p).
     and_then (parse_windows f p 0 []) (\<lambda>windows.
     if secondary_compressor_id = None \<and> (\<exists>window \<in> set windows. wi_delta_indicator window \<noteq> 0)
     then invalid ''patch declares compressed sections without a VCD_SECONDARY header''
     else Inr \<lparr>vp_secondary_compressor_id = secondary_compressor_id, vp_custom_code_table = custom_code_table,
               vp_app_header = app_header, vp_windows = windows\<rparr>)))))))"

definition parse_vcdiff_file :: "stored_file \<Rightarrow> parsed_vcdiff result" where
  "parse_vcdiff_file f =
     (case parse_vcdiff (file_bytes f) of
        Inl (Io UnexpectedEof) \<Rightarrow>
          invalid_fmt ''VCDIFF/xdelta patch `{}` is truncated or corrupt: it ended unexpectedly'' [Str (file_path f)]
      | r \<Rightarrow> r)"

definition count_windows :: "(window_index \<Rightarrow> bool) \<Rightarrow> window_index list \<Rightarrow> nat" where
  "count_windows P windows = length (filter P windows)"

definition vcdiff_parse_report :: "string \<Rightarrow> parsed_vcdiff \<Rightarrow> nat option \<Rightarrow> nat \<Rightarrow> report" where
  "vcdiff_parse_report name patch min_source target_len =
     (let windows = vp_windows patch;
          checksum_windows = count_windows (\<lambda>w. wi_checksum w \<noteq> None) windows;
          label =
            [if vp_secondary_compressor_id patch \<noteq> None
             then Msg ''parsed {} patch with {} window(s) and secondary compression'' [Str name, Num (length windows)]
             else Msg ''parsed {} patch with {} window(s)'' [Str name, Num (length windows)]] @
            (if 0 < checksum_windows
             then [Msg ''; {} window checksum(s) declared'' [Num checksum_windows]] else []) @
            (if vp_app_header patch \<noteq> None then [Msg ''; application header declared'' []] else []) @
            (case vp_custom_code_table patch of None \<Rightarrow> []
             | Some t \<Rightarrow> [Msg ''; custom code table declared (near={}, same={}, bytes={})''
                 [Num (unat (cct_near_size t)), Num (unat (cct_same_size t)), Num (cct_data_len t)]])
      in (patch_success_report name ''parse'' label None)
           \<lparr>rep_details :=
             (case min_source of None \<Rightarrow> [] | Some n \<Rightarrow> [(''minimum_source_size'', n)]) @
             [(''record_count'', length windows),
              (''source_window_count'', count_windows (\<lambda>w. wi_source_kind w = Some KindSource) windows),
              (''target_size'', target_len),
              (''target_window_count'', count_windows (\<lambda>w. wi_source_kind w = Some KindTarget) windows),
              (''window_checksum_count'', checksum_windows),
              (''secondary_compression'', of_bool (vp_secondary_compressor_id patch \<noteq> None)),
              (''application_header'', of_bool (vp_app_header patch \<noteq> None)),
              (''custom_code_table'', of_bool (vp_custom_code_table patch \<noteq> None))]\<rparr>)"

definition vcdiff_parse :: "string \<Rightarrow> stored_file \<Rightarrow> report result" where
  "vcdiff_parse name f =
     and_then (parse_vcdiff_file f) (\<lambda>patch.
     and_then (minimum_source_size (vp_windows patch)) (\<lambda>min_source.
     and_then (vcd_target_size (vp_windows patch)) (\<lambda>target_len.
     Inr (vcdiff_parse_report name patch min_source target_len))))"

definition vcdiff_output_size :: "bytes \<Rightarrow> nat result" where
  "vcdiff_output_size patch_bytes =
     and_then (parse_vcdiff patch_bytes) (\<lambda>patch. vcd_target_size (vp_windows patch))"

end
