(* ===== verification/Vcdiff_Apply.thy ===== *)
theory Vcdiff_Apply
  imports Vcdiff "HOL-Library.Product_Lexorder"
begin

text \<open>
  Decoding windows and applying VCDIFF and xdelta patches: \<open>xdelta_secondary.rs\<close> and
  \<open>decode_secondary.rs\<close> (the sections of a window, their secondary decompression and the call
  of the window decoder) and the apply paths of \<open>core.rs\<close>.  The window decoder of the crate
  \<open>oxidelta\<close>, the LZMA coders and Adler-32 are fields of \<open>vcd_codecs\<close>, and so are the codings
  of the two other secondary compressors (DJW Huffman and adaptive Huffman), as functions of a
  section.
\<close>

section \<open>Codecs\<close>

text \<open>\<open>OxideltaWindowHeader\<close>, what the window decoder is told about a window.\<close>

record ox_header =
  oh_win_ind :: u8
  oh_copy_window_len :: nat
  oh_copy_window_offset :: nat
  oh_enc_len :: nat
  oh_target_window_len :: nat
  oh_del_ind :: u8
  oh_data_len :: nat
  oh_inst_len :: nat
  oh_addr_len :: nat
  oh_adler32 :: "u32 option"

datatype djw_section_kind = DjwData | DjwInst | DjwAddr

type_synonym sections = "bytes \<times> bytes \<times> bytes"

record ('e, 'd) vcd_codecs =
  vc_adler32 :: "bytes \<Rightarrow> u32"
  ox_compute_enc_len :: "ox_header \<Rightarrow> nat"
  ox_decode_window :: "ox_header \<Rightarrow> bytes \<Rightarrow> bytes \<Rightarrow> bytes \<Rightarrow> bytes \<Rightarrow> bool \<Rightarrow> string + bytes"
  ox_decompress_sections :: "bytes \<Rightarrow> bytes \<Rightarrow> bytes \<Rightarrow> u8 \<Rightarrow> string + sections"
  vc_djw_compress :: "djw_section_kind \<Rightarrow> bytes \<Rightarrow> bytes result"
  vc_djw_decode :: "bytes \<Rightarrow> nat \<Rightarrow> bytes result"
  vc_fgk_compress :: "bytes \<Rightarrow> bytes result"
  vc_fgk_decode :: "bytes \<Rightarrow> nat \<Rightarrow> bytes result"
  lzma_encoder_new :: "'e result"
  lzma_sync_flush :: "'e \<Rightarrow> bytes \<Rightarrow> (bytes \<times> 'e) result"
  xz_reader_new :: 'd
  xz_push :: "'d \<Rightarrow> bytes \<Rightarrow> 'd"
  xz_read_exact :: "'d \<Rightarrow> nat \<Rightarrow> string + bytes \<times> 'd"

section \<open>Sections of a window\<close>

definition vcd_section_flag :: "u8 \<Rightarrow> u8 \<Rightarrow> bool" where
  "vcd_section_flag delta_indicator flag \<longleftrightarrow> delta_indicator AND flag \<noteq> 0"

definition decode_xdelta_section_if_flag ::
  "(bytes \<Rightarrow> nat \<Rightarrow> bytes result) \<Rightarrow> bytes \<Rightarrow> bool \<Rightarrow> bytes result" where
  "decode_xdelta_section_if_flag decode bs compressed =
     (if \<not> compressed then Inr bs
      else and_then (decode_varint_raw bs) (\<lambda>(decoded_size, prefix_len).
             decode (drop prefix_len bs) decoded_size))"

definition try_decode_xdelta_sections ::
  "(bytes \<Rightarrow> nat \<Rightarrow> bytes result) \<Rightarrow> sections \<Rightarrow> u8 \<Rightarrow> sections result" where
  "try_decode_xdelta_sections decode sec delta_indicator =
     (let (data, inst, addr) = sec
      in and_then (decode_xdelta_section_if_flag decode data (vcd_section_flag delta_indicator DELTA_DATA_COMP)) (\<lambda>data.
         and_then (decode_xdelta_section_if_flag decode inst (vcd_section_flag delta_indicator DELTA_INST_COMP)) (\<lambda>inst.
         and_then (decode_xdelta_section_if_flag decode addr (vcd_section_flag delta_indicator DELTA_ADDR_COMP)) (\<lambda>addr.
           Inr (data, inst, addr)))))"

definition read_raw_sections :: "bytes \<Rightarrow> window_index \<Rightarrow> sections result" where
  "read_raw_sections f window =
     and_then (read_section f (wi_data_start window) (wi_data_len window)) (\<lambda>data.
     and_then (read_section f (wi_inst_start window) (wi_inst_len window)) (\<lambda>inst.
     and_then (read_section f (wi_addr_start window) (wi_addr_len window)) (\<lambda>addr.
       Inr (data, inst, addr))))"

definition read_window_sections ::
  "('e, 'd) vcd_codecs \<Rightarrow> bytes \<Rightarrow> window_index \<Rightarrow> u8 option \<Rightarrow> sections result" where
  "read_window_sections k f window secondary_compressor_id =
     and_then (read_raw_sections f window) (\<lambda>(data, inst, addr).
     let indicator = wi_delta_indicator window
     in if indicator = 0 then Inr (data, inst, addr)
        else if secondary_compressor_id = Some XDELTA_DJW_SECONDARY_ID
        then try_decode_xdelta_sections (vc_djw_decode k) (data, inst, addr) indicator
        else if secondary_compressor_id = Some XDELTA_FGK_SECONDARY_ID
        then try_decode_xdelta_sections (vc_fgk_decode k) (data, inst, addr) indicator
        else and_then (ensure_supported_secondary_compressor secondary_compressor_id) (\<lambda>_.
             case ox_decompress_sections k data inst addr indicator of
               Inl e \<Rightarrow> invalid_fmt ''native VCDIFF secondary decompression failed at output offset {}: {}''
                          [Num (wi_output_offset window), Str e]
             | Inr s \<Rightarrow> Inr s))"

text \<open>The LZMA streams of the three section kinds run across the windows.\<close>

definition lzma_section_output_ceiling :: "window_index \<Rightarrow> nat" where
  "lzma_section_output_ceiling window =
     saturating_add (saturating_add (saturating_mul (wi_target_window_size window) 16)
                       (wi_source_segment_size window)) (64 * 1024)"

definition xz_section_decode ::
  "('e, 'd) vcd_codecs \<Rightarrow> 'd \<Rightarrow> bytes \<Rightarrow> nat \<Rightarrow> nat \<Rightarrow> (bytes \<times> 'd) result" where
  "xz_section_decode k decoder payload expected_size max_output =
     (if expected_size > max_output
      then invalid_fmt ''xdelta lzma secondary declares {}-byte section but the window bounds it to {}''
             [Num expected_size, Num max_output]
      else case xz_read_exact k (xz_push k decoder payload) expected_size of
             Inl e \<Rightarrow> invalid_fmt ''xdelta lzma secondary decode failed: {}'' [Str e]
           | Inr r \<Rightarrow> Inr r)"

definition decode_xdelta_lzma_section_with_state ::
  "('e, 'd) vcd_codecs \<Rightarrow> bytes \<Rightarrow> bool \<Rightarrow> 'd \<Rightarrow> nat \<Rightarrow> (bytes \<times> 'd) result" where
  "decode_xdelta_lzma_section_with_state k bs compressed decoder max_output =
     (if \<not> compressed then Inr (bs, decoder)
      else and_then (decode_varint_raw bs) (\<lambda>(decoded_size, prefix_len).
           and_then (xz_section_decode k decoder (drop prefix_len bs) decoded_size max_output) (\<lambda>(decoded, decoder).
             if length decoded \<noteq> decoded_size
             then invalid_fmt ''xdelta lzma section decoded to {} byte(s) but expected {}''
                    [Num (length decoded), Num decoded_size]
             else Inr (decoded, decoder))))"

type_synonym 'd lzma_decoders = "'d \<times> 'd \<times> 'd"

definition lzma_decode_sections ::
  "('e, 'd) vcd_codecs \<Rightarrow> 'd lzma_decoders \<Rightarrow> sections \<Rightarrow> u8 \<Rightarrow> nat \<Rightarrow> (sections \<times> 'd lzma_decoders) result" where
  "lzma_decode_sections k decoders sec delta_indicator max_output =
     (let (data_dec, inst_dec, addr_dec) = decoders; (data, inst, addr) = sec
      in and_then (decode_xdelta_lzma_section_with_state k data
            (vcd_section_flag delta_indicator DELTA_DATA_COMP) data_dec max_output) (\<lambda>(data, data_dec).
         and_then (decode_xdelta_lzma_section_with_state k inst
            (vcd_section_flag delta_indicator DELTA_INST_COMP) inst_dec max_output) (\<lambda>(inst, inst_dec).
         and_then (decode_xdelta_lzma_section_with_state k addr
            (vcd_section_flag delta_indicator DELTA_ADDR_COMP) addr_dec max_output) (\<lambda>(addr, addr_dec).
           Inr ((data, inst, addr), (data_dec, inst_dec, addr_dec))))))"

definition XZ_MAGIC_BYTES :: bytes where
  "XZ_MAGIC_BYTES = [0xFD, 0x37, 0x7A, 0x58, 0x5A, 0x00]"

definition xdelta_lzma_section_has_stream_header :: "bytes \<Rightarrow> bool" where
  "xdelta_lzma_section_has_stream_header bs =
     (case decode_varint_raw bs of
        Inl _ \<Rightarrow> False
      | Inr (_, prefix_len) \<Rightarrow> take 6 (drop prefix_len bs) = XZ_MAGIC_BYTES)"

text \<open>The first compressed section of the patch decides whether its LZMA sections are streams.\<close>

definition window_section_extents :: "window_index \<Rightarrow> (bool \<times> nat \<times> nat) list" where
  "window_section_extents window =
     [(vcd_section_flag (wi_delta_indicator window) DELTA_DATA_COMP, wi_data_start window, wi_data_len window),
      (vcd_section_flag (wi_delta_indicator window) DELTA_INST_COMP, wi_inst_start window, wi_inst_len window),
      (vcd_section_flag (wi_delta_indicator window) DELTA_ADDR_COMP, wi_addr_start window, wi_addr_len window)]"

definition patch_uses_xdelta_lzma_sections :: "window_index list \<Rightarrow> bytes \<Rightarrow> bool result" where
  "patch_uses_xdelta_lzma_sections windows f =
     (case filter fst (concat (map window_section_extents windows)) of
        [] \<Rightarrow> Inr False
      | (_, start, len) # _ \<Rightarrow>
          and_then (read_section f start len) (\<lambda>s. Inr (xdelta_lzma_section_has_stream_header s)))"

section \<open>Decoding a window\<close>

definition build_native_window_header ::
  "('e, 'd) vcd_codecs \<Rightarrow> window_index \<Rightarrow> nat \<Rightarrow> ox_header" where
  "build_native_window_header k window source_len =
     (let win_ind = (case wi_source_kind window of
            Some KindSource \<Rightarrow> WIN_SOURCE | Some KindTarget \<Rightarrow> WIN_TARGET | None \<Rightarrow> 0);
          win_ind = (if wi_checksum window \<noteq> None then win_ind OR WIN_CHECKSUM else win_ind);
          header = \<lparr>oh_win_ind = win_ind, oh_copy_window_len = source_len, oh_copy_window_offset = 0,
            oh_enc_len = 0, oh_target_window_len = wi_target_window_size window, oh_del_ind = 0,
            oh_data_len = wi_data_len window, oh_inst_len = wi_inst_len window,
            oh_addr_len = wi_addr_len window, oh_adler32 = wi_checksum window\<rparr>
      in header\<lparr>oh_enc_len := ox_compute_enc_len k header\<rparr>)"

definition decode_native_window_sections ::
  "('e, 'd) vcd_codecs \<Rightarrow> window_index \<Rightarrow> sections \<Rightarrow> bytes \<Rightarrow> bool \<Rightarrow> bytes result" where
  "decode_native_window_sections k window sec source_segment validate_checksums =
     (let (data, inst, addr) = sec;
          source_len = (if wi_source_kind window \<noteq> None then wi_source_segment_size window else 0);
          header = build_native_window_header k window source_len
      in case ox_decode_window k header data inst addr source_segment validate_checksums of
           Inl e \<Rightarrow> invalid_fmt ''native VCDIFF decoder failed at output offset {}: {}''
                      [Num (wi_output_offset window), Str e]
         | Inr decoded \<Rightarrow>
             if length decoded \<noteq> wi_target_window_size window
             then invalid_fmt ''native VCDIFF decoder produced {} byte(s) but expected {}''
                    [Num (length decoded), Num (wi_target_window_size window)]
             else if validate_checksums \<and> (\<exists>expected. wi_checksum window = Some expected \<and> vc_adler32 k decoded \<noteq> expected)
             then coded ''patch.checksum_mismatch''
                    ''target window checksum mismatch: expected 0x{:08X}, got 0x{:08X}''
                    [Hex (unat (the (wi_checksum window))), Hex (unat (vc_adler32 k decoded))]
             else Inr decoded)"

definition decode_window_with_native_engine ::
  "('e, 'd) vcd_codecs \<Rightarrow> bytes \<Rightarrow> window_index \<Rightarrow> u8 option \<Rightarrow> bytes \<Rightarrow> bool \<Rightarrow> bytes result" where
  "decode_window_with_native_engine k f window secondary_compressor_id source_segment validate_checksums =
     and_then (read_window_sections k f window secondary_compressor_id) (\<lambda>sec.
       decode_native_window_sections k window sec source_segment validate_checksums)"

definition decode_window_with_xdelta_lzma_sections ::
  "('e, 'd) vcd_codecs \<Rightarrow> bytes \<Rightarrow> window_index \<Rightarrow> 'd lzma_decoders \<Rightarrow> bytes \<Rightarrow> bool \<Rightarrow>
   (bytes \<times> 'd lzma_decoders) result" where
  "decode_window_with_xdelta_lzma_sections k f window decoders source_segment validate_checksums =
     and_then (read_raw_sections f window) (\<lambda>sec.
     and_then (if wi_delta_indicator window = 0 then Inr (sec, decoders)
               else lzma_decode_sections k decoders sec (wi_delta_indicator window)
                      (lzma_section_output_ceiling window)) (\<lambda>(sec, decoders).
     and_then (decode_native_window_sections k window sec source_segment validate_checksums) (\<lambda>target.
       Inr (target, decoders))))"

section \<open>Applying\<close>

definition read_source_segment :: "bytes \<Rightarrow> nat \<Rightarrow> nat \<Rightarrow> nat \<Rightarrow> string \<Rightarrow> bytes result" where
  "read_source_segment f position seg_size available_len kind_label =
     and_then (checked_add position seg_size ''source segment range'') (\<lambda>stop.
       if stop > available_len
       then invalid_fmt ''{} segment [{}..{}) exceeds available length {}''
              [Str kind_label, Num position, Num stop, Num available_len]
       else seek_read_exact f position seg_size)"

definition window_offset_mismatch :: "nat \<Rightarrow> nat \<Rightarrow> 'a result" where
  "window_offset_mismatch expected actual =
     invalid_fmt ''window output offset mismatch: expected {}, got {}'' [Num expected, Num actual]"

text \<open>One turn of the serial loop: the output so far is the file, its length the assembled size.\<close>

definition serial_window ::
  "('s \<Rightarrow> window_index \<Rightarrow> bytes \<Rightarrow> (bytes \<times> 's) result) \<Rightarrow> bytes \<Rightarrow> window_index \<Rightarrow>
   bytes \<times> 's \<Rightarrow> (bytes \<times> 's) result" where
  "serial_window decode_window input window st =
     (let (out, s) = st
      in if wi_output_offset window \<noteq> length out then window_offset_mismatch (length out) (wi_output_offset window)
         else
           and_then
             (case wi_source_kind window of
                None \<Rightarrow> Inr []
              | Some KindSource \<Rightarrow>
                  read_source_segment input (wi_source_segment_position window) (wi_source_segment_size window)
                    (length input) ''source''
              | Some KindTarget \<Rightarrow>
                  read_source_segment out (wi_source_segment_position window) (wi_source_segment_size window)
                    (length out) ''target'') (\<lambda>source.
           and_then (decode_window s window source) (\<lambda>(target, s).
           and_then (checked_add (length out) (length target) ''assembled output size'') (\<lambda>_.
             Inr (out @ target, s)))))"

definition apply_windows_serial ::
  "('s \<Rightarrow> window_index \<Rightarrow> bytes \<Rightarrow> (bytes \<times> 's) result) \<Rightarrow> 's \<Rightarrow> window_index list \<Rightarrow> bytes \<Rightarrow> bytes result" where
  "apply_windows_serial decode_window s windows input =
     and_then (fold_result (serial_window decode_window input) windows ([], s)) (\<lambda>(out, _). Inr out)"

definition apply_windows_with_xdelta_lzma_sections ::
  "('e, 'd) vcd_codecs \<Rightarrow> parsed_vcdiff \<Rightarrow> bytes \<Rightarrow> bytes \<Rightarrow> bool \<Rightarrow> bytes result" where
  "apply_windows_with_xdelta_lzma_sections k patch f input validate_checksums =
     apply_windows_serial
       (\<lambda>decoders window source. decode_window_with_xdelta_lzma_sections k f window decoders source validate_checksums)
       (xz_reader_new k, xz_reader_new k, xz_reader_new k) (vp_windows patch) input"

definition apply_windows_with_target_sources ::
  "('e, 'd) vcd_codecs \<Rightarrow> parsed_vcdiff \<Rightarrow> bytes \<Rightarrow> bytes \<Rightarrow> bool \<Rightarrow> bytes result" where
  "apply_windows_with_target_sources k patch f input validate_checksums =
     apply_windows_serial
       (\<lambda>_ window source. and_then (decode_window_with_native_engine k f window
           (vp_secondary_compressor_id patch) source validate_checksums) (\<lambda>target. Inr (target, ())))
       () (vp_windows patch) input"

text \<open>A decoded window waits in its temporary file, here its bytes.\<close>

record decoded_window =
  dw_index :: nat
  dw_output_offset :: nat
  dw_len :: nat
  dw_bytes :: bytes

definition decode_window_task ::
  "('e, 'd) vcd_codecs \<Rightarrow> bytes \<Rightarrow> bytes \<Rightarrow> u8 option \<Rightarrow> bool \<Rightarrow> nat \<times> window_index \<Rightarrow> decoded_window result" where
  "decode_window_task k f input secondary_compressor_id validate_checksums task =
     (let (index, window) = task
      in and_then
           (case wi_source_kind window of
              None \<Rightarrow> Inr []
            | Some KindTarget \<Rightarrow> invalid ''parallel decoding cannot be used for VCD_TARGET windows''
            | Some KindSource \<Rightarrow>
                read_source_segment input (wi_source_segment_position window) (wi_source_segment_size window)
                  (length input) ''source'') (\<lambda>source.
         and_then (decode_window_with_native_engine k f window secondary_compressor_id source validate_checksums) (\<lambda>target.
           Inr \<lparr>dw_index = index, dw_output_offset = wi_output_offset window, dw_len = length target,
                dw_bytes = target\<rparr>)))"

definition assemble_decoded :: "decoded_window \<Rightarrow> bytes \<times> nat \<Rightarrow> (bytes \<times> nat) result" where
  "assemble_decoded window st =
     (let (out, expected_offset) = st
      in if dw_output_offset window \<noteq> expected_offset
         then window_offset_mismatch expected_offset (dw_output_offset window)
         else and_then (checked_add expected_offset (dw_len window) ''assembled output size'') (\<lambda>expected_offset.
                Inr (out @ dw_bytes window, expected_offset)))"

definition assemble_windows :: "decoded_window list \<Rightarrow> bytes result" where
  "assemble_windows decoded =
     and_then (fold_result assemble_decoded
         (sort_key (\<lambda>window. (dw_output_offset window, dw_index window)) decoded) ([], 0))
       (\<lambda>(out, _). Inr out)"

definition vcdiff_apply_report ::
  "string \<Rightarrow> stored_file \<Rightarrow> parsed_vcdiff \<Rightarrow> bool \<Rightarrow> thread_execution \<Rightarrow> report" where
  "vcdiff_apply_report name patch_file patch validate_checksums execution =
     patch_success_report name ''apply''
       (append_warning_labels
          [Msg ''applied {} patch with {} window(s)'' [Str name, Num (length (vp_windows patch))],
           checksum_validation_suffix validate_checksums]
          (if vp_windows patch = []
           then [Msg ''VCDIFF patch `{}` has no delta windows; it produces an empty ROM'' [Str (file_path patch_file)]]
           else []))
       (Some execution)"

definition vcdiff_no_code_tables :: "parsed_vcdiff \<Rightarrow> unit result" where
  "vcdiff_no_code_tables patch =
     (if vp_custom_code_table patch \<noteq> None
      then invalid ''native VCDIFF backend does not support custom code tables'' else Inr ())"

definition vcdiff_apply ::
  "('e, 'd) vcd_codecs \<Rightarrow> string \<Rightarrow> op_context \<Rightarrow> apply_request \<Rightarrow> (bytes \<times> report) result" where
  "vcdiff_apply k name ctx request =
     and_then (require_single_patch_file (ar_patches request) name) (\<lambda>patch_file.
     let f = file_bytes patch_file; input = file_bytes (ar_input request);
         validate_checksums = scope_target (patch_check_scopes ctx)
     in and_then (parse_vcdiff_file patch_file) (\<lambda>patch.
        and_then (vcdiff_no_code_tables patch) (\<lambda>_.
        and_then
          (if vp_secondary_compressor_id patch = Some XDELTA_LZMA_SECONDARY_ID
           then patch_uses_xdelta_lzma_sections (vp_windows patch) f else Inr False)
          (\<lambda>uses_xdelta_lzma_sections.
        if uses_xdelta_lzma_sections
        then and_then (apply_windows_with_xdelta_lzma_sections k patch f input validate_checksums) (\<lambda>out.
             Inr (out, vcdiff_apply_report name patch_file patch validate_checksums (plan_threads ctx SingleThreaded)))
        else if \<exists>window \<in> set (vp_windows patch). wi_source_kind window = Some KindTarget
        then and_then (apply_windows_with_target_sources k patch f input validate_checksums) (\<lambda>out.
             Inr (out, vcdiff_apply_report name patch_file patch validate_checksums (plan_threads ctx SingleThreaded)))
        else
          let cap = Parallel (Some (max (length (vp_windows patch)) 1));
              tasks = enumerate 0 (vp_windows patch);
              decode = decode_window_task k f input (vp_secondary_compressor_id patch) validate_checksums
          in and_then
               (run_with_optional_pool ctx cap True (\<lambda>_. map_result decode tasks) (map_result decode tasks))
               (\<lambda>(execution, decoded).
             and_then (assemble_windows decoded) (\<lambda>out.
             Inr (out, vcdiff_apply_report name patch_file patch validate_checksums execution)))))))"

text \<open>\<open>validate_via_apply\<close> of the handler trait: a dry run whose output is dropped.\<close>

definition validate_via_apply :: "string \<Rightarrow> (bytes \<times> report) result \<Rightarrow> report result" where
  "validate_via_apply name apply_result =
     and_then apply_result (\<lambda>(_, rep).
       Inr (patch_success_report name ''validate''
              (Msg ''validated {} patch via dry-run apply'' [Str name] #
               dropWhile (\<lambda>m. m \<noteq> Msg ''; warning='' []) (rep_label rep))
              (rep_execution rep)))"

definition vcdiff_validate ::
  "('e, 'd) vcd_codecs \<Rightarrow> string \<Rightarrow> op_context \<Rightarrow> apply_request \<Rightarrow> report result" where
  "vcdiff_validate k name ctx request = validate_via_apply name (vcdiff_apply k name ctx request)"

text \<open>The in-memory counterpart: one window after the other from slices, checksums always checked.\<close>

definition memory_window ::
  "('e, 'd) vcd_codecs \<Rightarrow> bytes \<Rightarrow> u8 option \<Rightarrow> bytes \<Rightarrow> window_index \<Rightarrow> bytes \<Rightarrow> bytes result" where
  "memory_window k f secondary_compressor_id source window out =
     (if wi_output_offset window \<noteq> length out then window_offset_mismatch (length out) (wi_output_offset window)
      else
        let (available, kind_label) = (case wi_source_kind window of
               None \<Rightarrow> ([], ''source'') | Some KindSource \<Rightarrow> (source, ''source'')
             | Some KindTarget \<Rightarrow> (out, ''target''))
        in and_then (checked_add (wi_source_segment_position window) (wi_source_segment_size window)
                       ''source segment range'') (\<lambda>stop.
           if stop > length available
           then invalid_fmt ''{} segment [{}..{}) exceeds available length {}''
                  [Str kind_label, Num (wi_source_segment_position window), Num stop, Num (length available)]
           else
             and_then (decode_window_with_native_engine k f window secondary_compressor_id
                 (segment available (wi_source_segment_position window) (wi_source_segment_size window)) True)
               (\<lambda>target. Inr (out @ target))))"

definition apply_patch_bytes :: "('e, 'd) vcd_codecs \<Rightarrow> bytes \<Rightarrow> bytes \<Rightarrow> bytes result" where
  "apply_patch_bytes k source f =
     and_then (parse_vcdiff f) (\<lambda>patch.
     and_then (vcdiff_no_code_tables patch) (\<lambda>_.
     and_then
       (if vp_secondary_compressor_id patch = Some XDELTA_LZMA_SECONDARY_ID
        then patch_uses_xdelta_lzma_sections (vp_windows patch) f else Inr False) (\<lambda>uses.
     if uses
     then invalid ''xdelta LZMA secondary-compressed patches must be applied via the file-based handler''
     else
     and_then (vcd_target_size (vp_windows patch)) (\<lambda>declared_size.
     and_then (ensure_plausible_output_len ''VCDIFF'' declared_size (length source) (length f)) (\<lambda>_.
       fold_result (memory_window k f (vp_secondary_compressor_id patch) source) (vp_windows patch) [])))))"

end
