(* ===== verification/Vcdiff_Apply_Correct.thy ===== *)
theory Vcdiff_Apply_Correct
  imports Vcdiff_Apply
begin

text \<open>
  Correctness of the apply paths of VCDIFF and xdelta patches.  The parser lays the windows out
  one after the other, so the three paths of the handler and the in-memory one all decode the
  windows in order against the source and the output so far; what they return is the target
  whose size the patch declares.
\<close>

section \<open>What the parser promises\<close>

text \<open>The windows follow each other in the output, and their ends are machine integers.\<close>

fun consecutive :: "nat \<Rightarrow> window_index list \<Rightarrow> bool" where
  "consecutive off [] = True"
| "consecutive off (w # ws) =
     (wi_output_offset w = off \<and> off + wi_target_window_size w \<le> u64_max \<and>
      consecutive (off + wi_target_window_size w) ws)"

text \<open>The extents of a window, inside the patch, and the source segment of one that has none.\<close>

definition window_in_patch :: "bytes \<Rightarrow> window_index \<Rightarrow> bool" where
  "window_in_patch f w \<longleftrightarrow>
     wi_inst_start w = wi_data_start w + wi_data_len w \<and> wi_addr_start w = wi_inst_start w + wi_inst_len w \<and>
     wi_addr_start w + wi_addr_len w \<le> length f \<and> wi_addr_start w + wi_addr_len w \<le> u64_max \<and>
     wi_source_segment_size w \<le> u64_max \<and> wi_source_segment_position w \<le> u64_max \<and>
     wi_target_window_size w \<le> u64_max \<and> wi_delta_indicator w AND NOT DELTA_KNOWN_MASK = 0 \<and>
     (wi_source_kind w = None \<longrightarrow> wi_source_segment_size w = 0 \<and> wi_source_segment_position w = 0)"

abbreviation target_sizes :: "window_index list \<Rightarrow> nat" where
  "target_sizes ws \<equiv> sum_list (map wi_target_window_size ws)"

lemma read_window_index_parsed:
  assumes "read_window_index f p off = Inr (Some (w, q))"
  shows "wi_output_offset w = off \<and> window_in_patch f w"
  using assms
  by (auto simp: read_window_index_def vcd_delta_len_def vcd_read_optional_u8_def Let_def window_in_patch_def
      result_iff split: if_splits dest!: vcd_read_varint_Inr)

lemma parse_windows_parsed:
  assumes "parse_windows f p off ws = Inr ws'"
  shows "\<exists>new. ws' = ws @ new \<and> consecutive off new \<and> (\<forall>w \<in> set new. window_in_patch f w)"
  using assms
proof (induction f p off ws arbitrary: ws' rule: parse_windows.induct)
  case (1 f p off ws)
  from 1(2) obtain r where r: "read_window_index f p off = Inr r"
    by (auto simp: parse_windows.simps [of f p] result_iff)
  show ?case
  proof (cases r)
    case None
    with 1(2) r show ?thesis by (simp add: parse_windows.simps [of f p])
  next
    case (Some wq)
    obtain w q where wq: "wq = (w, q)" by (cases wq)
    with r Some have r': "read_window_index f p off = Inr (Some (w, q))" by simp
    from 1(2) r' have size: "off + wi_target_window_size w \<le> u64_max"
      and rest: "parse_windows f q (off + wi_target_window_size w) (ws @ [w]) = Inr ws'"
      by (auto simp: parse_windows.simps [of f p] result_iff)
    have "\<exists>new. ws' = (ws @ [w]) @ new \<and> consecutive (off + wi_target_window_size w) new \<and>
        (\<forall>w \<in> set new. window_in_patch f w)"
      by (rule 1(1) [OF r' refl refl _ rest]) (use size in simp)
    then obtain new where "ws' = ws @ w # new" "consecutive (off + wi_target_window_size w) new"
      "\<forall>w \<in> set new. window_in_patch f w"
      by auto
    with read_window_index_parsed [OF r'] size show ?thesis
      by (intro exI [of _ "w # new"]) auto
  qed
qed

lemma parse_vcdiff_windows:
  assumes "parse_vcdiff f = Inr patch"
  shows "consecutive 0 (vp_windows patch) \<and> (\<forall>w \<in> set (vp_windows patch). window_in_patch f w)"
proof -
  have "\<exists>p. parse_windows f p 0 [] = Inr (vp_windows patch)"
    using assms unfolding parse_vcdiff_def by (auto simp: result_iff split: if_splits)
  then show ?thesis using parse_windows_parsed by fastforce
qed

lemma parse_vcdiff_file_Inr [simp]: "parse_vcdiff_file f = Inr patch \<longleftrightarrow> parse_vcdiff (file_bytes f) = Inr patch"
  by (auto simp: parse_vcdiff_file_def invalid_fmt_def split: sum.splits weave_error.splits io_error_kind.splits)

lemma consecutive_target_size:
  assumes "consecutive off ws" and "off \<le> u64_max"
  shows "fold_result (\<lambda>window n. checked_add n (wi_target_window_size window) ''patch target size'') ws off =
    Inr (off + target_sizes ws) \<and> off + target_sizes ws \<le> u64_max"
  using assms by (induction ws arbitrary: off) (simp_all add: add.assoc [symmetric])

lemma parsed_target_size:
  "consecutive 0 ws \<Longrightarrow> vcd_target_size ws = Inr (target_sizes ws)"
  using consecutive_target_size [of 0 ws] by (simp add: vcd_target_size_def)

lemma section_in_patch: "window_in_patch f w \<Longrightarrow>
  read_raw_sections f w = Inr (segment f (wi_data_start w) (wi_data_len w),
    segment f (wi_inst_start w) (wi_inst_len w), segment f (wi_addr_start w) (wi_addr_len w))"
  by (simp add: window_in_patch_def read_raw_sections_def read_section_def)

section \<open>The windows in order\<close>

text \<open>What a window may copy from, and the reference: every window against the output so far.\<close>

definition window_source :: "bytes \<Rightarrow> window_index \<Rightarrow> bytes \<Rightarrow> bytes result" where
  "window_source input window out =
     (case wi_source_kind window of
        None \<Rightarrow> Inr []
      | Some KindSource \<Rightarrow>
          read_source_segment input (wi_source_segment_position window) (wi_source_segment_size window)
            (length input) ''source''
      | Some KindTarget \<Rightarrow>
          read_source_segment out (wi_source_segment_position window) (wi_source_segment_size window)
            (length out) ''target'')"

definition next_window ::
  "('s \<Rightarrow> window_index \<Rightarrow> bytes \<Rightarrow> (bytes \<times> 's) result) \<Rightarrow> bytes \<Rightarrow> window_index \<Rightarrow>
   bytes \<times> 's \<Rightarrow> (bytes \<times> 's) result" where
  "next_window decode_window input window st =
     and_then (window_source input window (fst st)) (\<lambda>source.
     and_then (decode_window (snd st) window source) (\<lambda>(target, s). Inr (fst st @ target, s)))"

text \<open>All a decoder of windows has to promise is the declared size.\<close>

locale window_decoder =
  fixes decode :: "'s \<Rightarrow> window_index \<Rightarrow> bytes \<Rightarrow> (bytes \<times> 's) result"
  assumes decode_length: "decode s w source = Inr (target, s') \<Longrightarrow> length target = wi_target_window_size w"
begin

lemma serial_window_next:
  assumes "wi_output_offset w = length out" and "length out + wi_target_window_size w \<le> u64_max"
  shows "serial_window decode input w (out, s) = next_window decode input w (out, s)"
proof -
  have "and_then (decode s w source) (\<lambda>(target, s).
          and_then (checked_add (length out) (length target) ''assembled output size'') (\<lambda>_. Inr (out @ target, s))) =
        and_then (decode s w source) (\<lambda>(target, s). Inr (out @ target, s))" for source
  proof (cases "decode s w source")
    case (Inr ts)
    obtain t s' where ts: "ts = (t, s')" by (cases ts)
    with Inr have "length t = wi_target_window_size w" by (intro decode_length) simp
    with Inr ts assms(2) show ?thesis by simp
  qed simp
  then show ?thesis
    unfolding serial_window_def next_window_def window_source_def fst_conv snd_conv using assms(1) by simp
qed

lemma next_window_length:
  assumes "next_window decode input w (out, s) = Inr (out', s')"
  shows "\<exists>t. out' = out @ t \<and> length t = wi_target_window_size w"
  using assms decode_length by (fastforce simp: next_window_def result_iff)

lemma serial_windows:
  "consecutive (length out) ws \<Longrightarrow>
   fold_result (serial_window decode input) ws (out, s) = fold_result (next_window decode input) ws (out, s)"
proof (induction ws arbitrary: out s)
  case (Cons w ws)
  then have step: "serial_window decode input w (out, s) = next_window decode input w (out, s)"
    by (intro serial_window_next) simp_all
  show ?case
  proof (cases "next_window decode input w (out, s)")
    case (Inr st)
    obtain out' s' where st: "st = (out', s')" by (cases st)
    with Inr obtain t where "out' = out @ t" "length t = wi_target_window_size w"
      using next_window_length by blast
    with Cons.IH [of out' s'] Cons.prems step Inr st show ?thesis by simp
  qed (simp add: step)
qed simp

lemma windows_length:
  "fold_result (next_window decode input) ws (out, s) = Inr (out', s') \<Longrightarrow>
   \<exists>t. out' = out @ t \<and> length t = target_sizes ws"
proof (induction ws arbitrary: out s)
  case (Cons w ws)
  then obtain out1 s1 where head: "next_window decode input w (out, s) = Inr (out1, s1)"
    and rest: "fold_result (next_window decode input) ws (out1, s1) = Inr (out', s')"
    by (auto simp: result_iff)
  from next_window_length [OF head] Cons.IH [OF rest] show ?case by force
qed simp

text \<open>A decoder that checks something of every window it decodes has checked it in the output.\<close>

lemma windows_hold:
  assumes "\<And>s w source target s'. decode s w source = Inr (target, s') \<Longrightarrow> P w target"
  shows "consecutive (length out) ws \<Longrightarrow>
    fold_result (next_window decode input) ws (out, s) = Inr (out', s') \<Longrightarrow> w \<in> set ws \<Longrightarrow>
    P w (segment out' (wi_output_offset w) (wi_target_window_size w))"
proof (induction ws arbitrary: out s)
  case (Cons v ws)
  obtain st where head: "next_window decode input v (out, s) = Inr st"
    and rest: "fold_result (next_window decode input) ws st = Inr (out', s')"
    using Cons.prems(2) by (auto simp: result_iff)
  obtain source t s1 where t: "decode s v source = Inr (t, s1)" and st: "st = (out @ t, s1)"
    using head by (auto simp: next_window_def result_iff)
  note rest = rest [unfolded st]
  have len: "length t = wi_target_window_size v" by (rule decode_length [OF t])
  show ?case
  proof (cases "w = v")
    case True
    from windows_length [OF rest] obtain u where "out' = (out @ t) @ u" by blast
    then have "segment out' (wi_output_offset v) (wi_target_window_size v) = t"
      using Cons.prems(1) len by (simp add: segment_def)
    with assms [OF t] True show ?thesis by simp
  next
    case False
    with Cons.prems have "w \<in> set ws" by simp
    from Cons.IH [OF _ rest this] Cons.prems(1) len show ?thesis by simp
  qed
qed simp

end

lemma native_sections_length:
  "decode_native_window_sections k w sec source v = Inr t \<Longrightarrow> length t = wi_target_window_size w"
  by (auto simp: decode_native_window_sections_def Let_def coded_def invalid_fmt_def
      split: sum.splits prod.splits if_splits)

lemma native_sections_checked:
  assumes "decode_native_window_sections k w sec source True = Inr t" and "wi_checksum w = Some c"
  shows "vc_adler32 k t = c"
  using assms
  by (auto simp: decode_native_window_sections_def Let_def coded_def invalid_fmt_def
      split: sum.splits prod.splits if_splits)

definition native_decoder ::
  "('e, 'd) vcd_codecs \<Rightarrow> bytes \<Rightarrow> u8 option \<Rightarrow> bool \<Rightarrow> unit \<Rightarrow> window_index \<Rightarrow> bytes \<Rightarrow> (bytes \<times> unit) result" where
  "native_decoder k f secondary v = (\<lambda>_ window source.
     and_then (decode_window_with_native_engine k f window secondary source v) (\<lambda>target. Inr (target, ())))"

definition lzma_decoder ::
  "('e, 'd) vcd_codecs \<Rightarrow> bytes \<Rightarrow> bool \<Rightarrow> 'd lzma_decoders \<Rightarrow> window_index \<Rightarrow> bytes \<Rightarrow> (bytes \<times> 'd lzma_decoders) result" where
  "lzma_decoder k f v = (\<lambda>decoders window source. decode_window_with_xdelta_lzma_sections k f window decoders source v)"

interpretation native: window_decoder "native_decoder k f secondary v" for k f secondary v
  by unfold_locales
    (auto simp: native_decoder_def decode_window_with_native_engine_def result_iff dest: native_sections_length)

interpretation lzma: window_decoder "lzma_decoder k f v" for k f v
  by unfold_locales
    (auto simp: lzma_decoder_def decode_window_with_xdelta_lzma_sections_def result_iff dest: native_sections_length)

section \<open>Windows decoded in parallel\<close>

lemma decoded_keys:
  assumes "map_result (decode_window_task k f input secondary v) tasks = Inr ds"
  shows "map (\<lambda>d. (dw_output_offset d, dw_index d)) ds = map (\<lambda>(i, w). (wi_output_offset w, i)) tasks"
  using assms
  by (induction tasks arbitrary: ds) (auto simp: decode_window_task_def result_iff)

lemma task_keys_sorted:
  "consecutive off ws \<Longrightarrow>
   sorted (map (\<lambda>(i, w). (wi_output_offset w, i)) (enumerate n ws)) \<and>
   (\<forall>(i, w) \<in> set (enumerate n ws). off \<le> wi_output_offset w \<and> n \<le> i)"
proof (induction ws arbitrary: off n)
  case (Cons w ws)
  then have "consecutive (off + wi_target_window_size w) ws" by simp
  from Cons.IH [OF this, of "Suc n"] Cons.prems show ?case
    by (fastforce simp: less_eq_prod_def)
qed simp

lemma assemble_in_order:
  assumes "consecutive (length out) ws" and "\<forall>w \<in> set ws. wi_source_kind w \<noteq> Some KindTarget"
  shows "and_then (map_result (decode_window_task k f input secondary v) (enumerate n ws))
      (\<lambda>ds. and_then (fold_result assemble_decoded ds (out, length out)) (\<lambda>(out, _). Inr out)) =
    and_then (fold_result (next_window (native_decoder k f secondary v) input) ws (out, ())) (\<lambda>(out, _). Inr out)"
  using assms
proof (induction ws arbitrary: out n)
  case (Cons w ws)
  let ?native = "\<lambda>source. decode_window_with_native_engine k f w secondary source v"
  have src: "window_source input w out = (case wi_source_kind w of None \<Rightarrow> Inr []
      | Some KindSource \<Rightarrow> read_source_segment input (wi_source_segment_position w) (wi_source_segment_size w) (length input) ''source''
      | Some KindTarget \<Rightarrow> invalid ''parallel decoding cannot be used for VCD_TARGET windows'')"
    using Cons.prems(2) by (auto simp: window_source_def split: option.splits window_source_kind.splits)
  have task: "decode_window_task k f input secondary v (n, w) =
      and_then (window_source input w out) (\<lambda>source. and_then (?native source) (\<lambda>target.
        Inr \<lparr>dw_index = n, dw_output_offset = wi_output_offset w, dw_len = length target, dw_bytes = target\<rparr>))"
    unfolding src decode_window_task_def by (auto intro: and_then_weak split: option.splits window_source_kind.splits)
  show ?case
  proof (cases "window_source input w out")
    case (Inr source)
    show ?thesis
    proof (cases "?native source")
      case inr: (Inr t)
      then have len: "length t = wi_target_window_size w"
        by (auto simp: decode_window_with_native_engine_def result_iff dest: native_sections_length)
      let ?d = "\<lparr>dw_index = n, dw_output_offset = wi_output_offset w, dw_len = length t, dw_bytes = t\<rparr>"
      have "assemble_decoded ?d (out, length out) = Inr (out @ t, length (out @ t))"
        using Cons.prems(1) len by (simp add: assemble_decoded_def)
      moreover have "next_window (native_decoder k f secondary v) input w (out, ()) = Inr (out @ t, ())"
        using Inr inr by (simp add: next_window_def native_decoder_def)
      ultimately show ?thesis
        using Cons.IH [of "out @ t" "Suc n"] Cons.prems len Inr inr by (simp add: task and_then_assoc)
    qed (simp add: task Inr next_window_def native_decoder_def)
  qed (simp add: task next_window_def)
qed simp

lemma parallel_windows:
  assumes "consecutive 0 ws" and "\<forall>w \<in> set ws. wi_source_kind w \<noteq> Some KindTarget"
  shows "and_then (map_result (decode_window_task k f input secondary v) (enumerate 0 ws)) assemble_windows =
    and_then (fold_result (next_window (native_decoder k f secondary v) input) ws ([], ())) (\<lambda>(out, _). Inr out)"
proof -
  have "assemble_windows ds = and_then (fold_result assemble_decoded ds ([], 0)) (\<lambda>(out, _). Inr out)"
    if "map_result (decode_window_task k f input secondary v) (enumerate 0 ws) = Inr ds" for ds
  proof -
    have "sorted (map (\<lambda>d. (dw_output_offset d, dw_index d)) ds)"
      using decoded_keys [OF that] task_keys_sorted [OF assms(1), of 0] by simp
    then show ?thesis by (simp add: assemble_windows_def sorted_sort_id sort_key_id_if_sorted)
  qed
  then have "and_then (map_result (decode_window_task k f input secondary v) (enumerate 0 ws)) assemble_windows =
      and_then (map_result (decode_window_task k f input secondary v) (enumerate 0 ws))
        (\<lambda>ds. and_then (fold_result assemble_decoded ds ([], 0)) (\<lambda>(out, _). Inr out))"
    by (cases "map_result (decode_window_task k f input secondary v) (enumerate 0 ws)") simp_all
  with assemble_in_order [of "[]" ws] assms show ?thesis by simp
qed

end
