(* ===== verification/Vcdiff_Recode.thy ===== *)
theory Vcdiff_Recode
  imports Vcdiff_Apply_Correct
begin

text \<open>
  Rewriting a VCDIFF patch, the second half of an xdelta create in \<open>core.rs\<close>: the windows of an
  uncompressed baseline are written again with an application header and with their sections
  compressed by a secondary compressor, and the size of the header-only rewriting is computed
  without writing it.  The file written is the bytes so far.
\<close>

section \<open>Sections\<close>

definition XDELTA_SECONDARY_MIN_INPUT :: nat where
  "XDELTA_SECONDARY_MIN_INPUT = 10"

definition XDELTA_SECONDARY_MIN_SAVINGS :: nat where
  "XDELTA_SECONDARY_MIN_SAVINGS = 2"

definition xdelta_secondary_candidate_is_efficient :: "nat \<Rightarrow> nat \<Rightarrow> bool" where
  "xdelta_secondary_candidate_is_efficient original_size candidate_size \<longleftrightarrow>
     candidate_size < original_size - XDELTA_SECONDARY_MIN_SAVINGS"

definition maybe_compress_xdelta_djw_section ::
  "('e, 'd) vcd_codecs \<Rightarrow> bytes \<Rightarrow> djw_section_kind \<Rightarrow> (bytes \<times> bool) result" where
  "maybe_compress_xdelta_djw_section k sec kind =
     (if length sec < XDELTA_SECONDARY_MIN_INPUT then Inr (sec, False)
      else and_then (vc_djw_compress k kind sec) (\<lambda>compressed.
           let candidate = encode_base128 (length sec) @ compressed
           in if xdelta_secondary_candidate_is_efficient (length sec) (length candidate)
              then Inr (candidate, True) else Inr (sec, False)))"

definition maybe_compress_xdelta_fgk_section :: "('e, 'd) vcd_codecs \<Rightarrow> bytes \<Rightarrow> (bytes \<times> bool) result" where
  "maybe_compress_xdelta_fgk_section k sec =
     (if length sec < XDELTA_SECONDARY_MIN_INPUT then Inr (sec, False)
      else and_then (vc_fgk_compress k sec) (\<lambda>compressed.
           let candidate = encode_base128 (length sec) @ compressed
           in if xdelta_secondary_candidate_is_efficient (length sec) (length candidate)
              then Inr (candidate, True) else Inr (sec, False)))"

definition recode_window_section ::
  "('e, 'd) vcd_codecs \<Rightarrow> bytes \<Rightarrow> bool \<Rightarrow> u8 option \<Rightarrow> djw_section_kind \<Rightarrow> (bytes \<times> bool) result" where
  "recode_window_section k sec original_compressed secondary_compressor_id kind =
     (if secondary_compressor_id = Some XDELTA_DJW_SECONDARY_ID then maybe_compress_xdelta_djw_section k sec kind
      else if secondary_compressor_id = Some XDELTA_FGK_SECONDARY_ID then maybe_compress_xdelta_fgk_section k sec
      else and_then (ensure_supported_secondary_compressor secondary_compressor_id)
             (\<lambda>_. Inr (sec, original_compressed)))"

text \<open>The LZMA streams: a section goes through the encoder of its kind, unless it is tiny.\<close>

definition lzma_section_encode :: "('e, 'd) vcd_codecs \<Rightarrow> 'e \<Rightarrow> bytes \<Rightarrow> ((bytes \<times> bool) \<times> 'e) result" where
  "lzma_section_encode k encoder sec =
     (if length sec < XDELTA_SECONDARY_MIN_INPUT then Inr ((sec, False), encoder)
      else and_then (lzma_sync_flush k encoder sec) (\<lambda>(compressed, encoder).
             Inr ((encode_base128 (length sec) @ compressed, True), encoder)))"

type_synonym 'e lzma_encoders = "'e \<times> 'e \<times> 'e"

definition lzma_encoders_new :: "('e, 'd) vcd_codecs \<Rightarrow> 'e lzma_encoders result" where
  "lzma_encoders_new k =
     and_then (lzma_encoder_new k) (\<lambda>data.
     and_then (lzma_encoder_new k) (\<lambda>inst.
     and_then (lzma_encoder_new k) (\<lambda>addr. Inr (data, inst, addr))))"

type_synonym recoded_sections = "(bytes \<times> bool) \<times> (bytes \<times> bool) \<times> (bytes \<times> bool)"

definition recode_sections ::
  "('e, 'd) vcd_codecs \<Rightarrow> u8 option \<Rightarrow> u8 \<Rightarrow> sections \<Rightarrow> 'e lzma_encoders option \<Rightarrow>
   (recoded_sections \<times> 'e lzma_encoders option) result" where
  "recode_sections k secondary_compressor_id delta_indicator sec encoders =
     (let (data, inst, addr) = sec
      in case encoders of
           Some (data_enc, inst_enc, addr_enc) \<Rightarrow>
             and_then (lzma_section_encode k data_enc data) (\<lambda>(data, data_enc).
             and_then (lzma_section_encode k inst_enc inst) (\<lambda>(inst, inst_enc).
             and_then (lzma_section_encode k addr_enc addr) (\<lambda>(addr, addr_enc).
               Inr ((data, inst, addr), Some (data_enc, inst_enc, addr_enc)))))
         | None \<Rightarrow>
             and_then (recode_window_section k data (delta_indicator AND DELTA_DATA_COMP \<noteq> 0)
               secondary_compressor_id DjwData) (\<lambda>data.
             and_then (recode_window_section k inst (delta_indicator AND DELTA_INST_COMP \<noteq> 0)
               secondary_compressor_id DjwInst) (\<lambda>inst.
             and_then (recode_window_section k addr (delta_indicator AND DELTA_ADDR_COMP \<noteq> 0)
               secondary_compressor_id DjwAddr) (\<lambda>addr.
               Inr ((data, inst, addr), None)))))"

definition recode_delta_indicator :: "u8 \<Rightarrow> bool \<Rightarrow> bool \<Rightarrow> bool \<Rightarrow> u8 option \<Rightarrow> u8" where
  "recode_delta_indicator original_indicator data_comp inst_comp addr_comp secondary_compressor_id =
     (if secondary_compressor_id = None then original_indicator
      else
        let indicator = 0;
            indicator = (if data_comp then indicator OR DELTA_DATA_COMP else indicator);
            indicator = (if inst_comp then indicator OR DELTA_INST_COMP else indicator)
        in if addr_comp then indicator OR DELTA_ADDR_COMP else indicator)"

section \<open>Windows\<close>

definition window_win_indicator :: "window_index \<Rightarrow> u8" where
  "window_win_indicator window =
     (let win_indicator = (case wi_source_kind window of
            Some KindSource \<Rightarrow> WIN_SOURCE | Some KindTarget \<Rightarrow> WIN_TARGET | None \<Rightarrow> 0)
      in if wi_checksum window \<noteq> None then win_indicator OR WIN_CHECKSUM else win_indicator)"

definition recoded_delta_len :: "window_index \<Rightarrow> nat \<Rightarrow> nat \<Rightarrow> nat \<Rightarrow> nat result" where
  "recoded_delta_len window data_len inst_len addr_len =
     and_then (checked_add (varint_len inst_len) (varint_len addr_len) ''delta header size'') (\<lambda>n.
     and_then (checked_add (varint_len data_len) n ''delta header size'') (\<lambda>n.
     and_then (checked_add 1 n ''delta header size'') (\<lambda>n.
     and_then (checked_add (varint_len (wi_target_window_size window)) n ''delta header size'') (\<lambda>header_len.
     and_then (checked_add inst_len addr_len ''delta section size'') (\<lambda>n.
     and_then (checked_add data_len n ''delta section size'') (\<lambda>section_len.
     let checksum_len = (if wi_checksum window \<noteq> None then 4 else 0)
     in and_then (checked_add header_len checksum_len ''delta encoding size'') (\<lambda>n.
        checked_add n section_len ''delta encoding size'')))))))"

text \<open>The writes of one window.\<close>

definition window_record :: "window_index \<Rightarrow> u8 \<Rightarrow> nat \<Rightarrow> sections \<Rightarrow> bytes" where
  "window_record window delta_indicator delta_len sec =
     (let (data, inst, addr) = sec
      in [window_win_indicator window] @
         (if wi_source_kind window \<noteq> None
          then encode_base128 (wi_source_segment_size window) @ encode_base128 (wi_source_segment_position window)
          else []) @
         encode_base128 delta_len @
         encode_base128 (wi_target_window_size window) @
         [delta_indicator] @
         encode_base128 (length data) @ encode_base128 (length inst) @ encode_base128 (length addr) @
         (case wi_checksum window of None \<Rightarrow> [] | Some c \<Rightarrow> be_bytes 4 (unat c)) @
         data @ inst @ addr)"

definition recode_window ::
  "('e, 'd) vcd_codecs \<Rightarrow> bytes \<Rightarrow> u8 option \<Rightarrow> window_index \<Rightarrow> bytes \<times> 'e lzma_encoders option \<Rightarrow>
   (bytes \<times> 'e lzma_encoders option) result" where
  "recode_window k f secondary_compressor_id window st =
     (let (recoded, encoders) = st
      in and_then (read_raw_sections f window) (\<lambda>sec.
         and_then (recode_sections k secondary_compressor_id (wi_delta_indicator window) sec encoders)
           (\<lambda>(((data, data_comp), (inst, inst_comp), (addr, addr_comp)), encoders).
         let delta_indicator = recode_delta_indicator (wi_delta_indicator window) data_comp inst_comp addr_comp
               secondary_compressor_id
         in and_then (recoded_delta_len window (length data) (length inst) (length addr)) (\<lambda>delta_len.
            Inr (recoded @ window_record window delta_indicator delta_len (data, inst, addr), encoders)))))"

section \<open>Patches\<close>

definition load_patch_for_xdelta_recode :: "bytes \<Rightarrow> parsed_vcdiff result" where
  "load_patch_for_xdelta_recode f =
     and_then (parse_vcdiff f) (\<lambda>parsed.
     if vp_custom_code_table parsed \<noteq> None
     then invalid ''native VCDIFF secondary recoder does not support custom code tables''
     else Inr parsed)"

definition recoded_header :: "u8 option \<Rightarrow> bytes option \<Rightarrow> bytes" where
  "recoded_header secondary_compressor_id app_header =
     VCDIFF_MAGIC_BYTES @ [VCDIFF_VERSION_STANDARD] @
     [(if secondary_compressor_id \<noteq> None then HDR_SECONDARY else 0) OR
      (if app_header \<noteq> None then HDR_APP_HEADER else 0)] @
     (case secondary_compressor_id of None \<Rightarrow> [] | Some n \<Rightarrow> [n]) @
     (case app_header of None \<Rightarrow> [] | Some header \<Rightarrow> encode_base128 (length header) @ header)"

definition recode_loaded_patch_with_xdelta_options ::
  "('e, 'd) vcd_codecs \<Rightarrow> bytes \<Rightarrow> parsed_vcdiff \<Rightarrow> u8 option \<Rightarrow> bytes option \<Rightarrow> bytes result" where
  "recode_loaded_patch_with_xdelta_options k f parsed secondary_compressor_id app_header =
     and_then (ensure_supported_secondary_compressor secondary_compressor_id) (\<lambda>_.
     if secondary_compressor_id \<noteq> None \<and> vp_secondary_compressor_id parsed \<noteq> None
     then invalid ''native VCDIFF secondary recoder expected an uncompressed baseline patch''
     else
     and_then (if secondary_compressor_id = Some XDELTA_LZMA_SECONDARY_ID
               then and_then (lzma_encoders_new k) (\<lambda>es. Inr (Some es)) else Inr None) (\<lambda>encoders.
     and_then (fold_result (recode_window k f secondary_compressor_id) (vp_windows parsed)
                (recoded_header secondary_compressor_id app_header, encoders)) (\<lambda>(recoded, _).
     Inr recoded)))"

text \<open>The size the uncompressed rewriting with an application header would have.\<close>

definition appheader_window_size :: "window_index \<Rightarrow> nat result" where
  "appheader_window_size window =
     and_then (recoded_delta_len window (wi_data_len window) (wi_inst_len window) (wi_addr_len window)) (\<lambda>delta_len.
     and_then (checked_add (varint_len delta_len) delta_len ''app-header baseline window size'') (\<lambda>n.
     and_then (checked_add 1 n ''app-header baseline window size'') (\<lambda>window_len.
     if wi_source_kind window \<noteq> None
     then and_then (checked_add (varint_len (wi_source_segment_size window))
                      (varint_len (wi_source_segment_position window)) ''app-header baseline window source size'') (\<lambda>n.
          checked_add window_len n ''app-header baseline window size'')
     else Inr window_len)))"

definition measure_appheader_baseline_size :: "parsed_vcdiff \<Rightarrow> bytes \<Rightarrow> nat result" where
  "measure_appheader_baseline_size parsed app_header =
     and_then (checked_add (varint_len (length app_header)) (length app_header)
                 ''app-header baseline file header size'') (\<lambda>n.
     and_then (checked_add 5 n ''app-header baseline file header size'') (\<lambda>n.
     fold_result (\<lambda>window n. and_then (appheader_window_size window) (\<lambda>window_len.
         checked_add n window_len ''app-header baseline size''))
       (vp_windows parsed) n))"

end
