(* ===== verification/Vcdiff_Create.thy ===== *)
theory Vcdiff_Create
  imports Vcdiff_Recode Ips
begin

text \<open>
  Creating VCDIFF and xdelta patches, \<open>core.rs\<close>: cutting the target into windows, encoding each
  against its part of the source, serially or in batches of a thread pool, and the choice among
  the plain patch and its rewritings with a secondary compressor.  The match engine, the window
  encoder and the stream writer of the crate \<open>oxidelta\<close> are fields of \<open>vcd_engine\<close>; a file
  written is its bytes, and the temporary files of the candidates are left out.
\<close>

section \<open>The encoder of oxidelta\<close>

datatype ox_instruction = OxAdd nat | OxCopy nat nat | OxRun nat

record source_window =
  sw_len :: nat
  sw_offset :: nat

record window_sections =
  ws_source_window :: "source_window option"
  ws_target_len :: nat
  ws_checksum :: "u32 option"
  ws_data :: bytes
  ws_inst :: bytes
  ws_addr :: bytes

record 'w vcd_engine =
  ox_find_matches :: "nat \<Rightarrow> bytes option \<Rightarrow> bytes \<Rightarrow> ox_instruction list"
  ox_optimize :: "ox_instruction list \<Rightarrow> bytes \<Rightarrow> ox_instruction list"
  we_new :: "source_window option \<Rightarrow> bool \<Rightarrow> 'w"
  we_add :: "bytes \<Rightarrow> 'w \<Rightarrow> 'w"
  we_copy :: "nat \<Rightarrow> nat \<Rightarrow> 'w \<Rightarrow> 'w"
  we_run :: "nat \<Rightarrow> u8 \<Rightarrow> 'w \<Rightarrow> 'w"
  we_finish_sections :: "'w \<Rightarrow> bytes \<Rightarrow> window_sections"
  ox_assemble :: "window_sections \<Rightarrow> u8 \<Rightarrow> bytes"
  ox_stream :: "bool \<Rightarrow> u8 option \<Rightarrow> bytes list \<Rightarrow> bytes"
  ox_default_window_size :: nat

record ox_backend =
  ob_id :: u8
  ob_compress_sections :: "sections \<Rightarrow> (sections \<times> u8) result"

record compress_options =
  co_level :: nat
  co_window_size :: nat
  co_checksum :: bool
  co_secondary :: "ox_backend option"

definition is_xdelta_descriptor :: "string \<Rightarrow> bool" where
  "is_xdelta_descriptor name \<longleftrightarrow> ascii_lowercase name = ''xdelta''"

definition create_native_compress_options :: "'w vcd_engine \<Rightarrow> string \<Rightarrow> bool \<Rightarrow> compress_options" where
  "create_native_compress_options g name include_checksums =
     \<lparr>co_level = (if is_xdelta_descriptor name then 3 else 6), co_window_size = ox_default_window_size g,
      co_checksum = is_xdelta_descriptor name \<and> include_checksums, co_secondary = None\<rparr>"

section \<open>One window\<close>

text \<open>Replaying the instructions into the window encoder; a slice out of bounds panics.\<close>

fun emit_native_instructions ::
  "'w vcd_engine \<Rightarrow> bytes \<Rightarrow> ox_instruction list \<Rightarrow> nat \<Rightarrow> 'w \<Rightarrow> 'w result" where
  "emit_native_instructions g target [] target_pos window = Inr window"
| "emit_native_instructions g target (OxAdd len # instructions) target_pos window =
     (if target_pos + len > length target then Err (Panic ''slice index out of range'')
      else emit_native_instructions g target instructions (target_pos + len)
             (we_add g (segment target target_pos len) window))"
| "emit_native_instructions g target (OxCopy len addr # instructions) target_pos window =
     emit_native_instructions g target instructions (target_pos + len) (we_copy g len addr window)"
| "emit_native_instructions g target (OxRun len # instructions) target_pos window =
     (if target_pos \<ge> length target then Err (Panic ''index out of bounds'')
      else emit_native_instructions g target instructions (target_pos + len)
             (we_run g len (target ! target_pos) window))"

definition assemble_native_sections ::
  "'w vcd_engine \<Rightarrow> window_sections \<Rightarrow> compress_options \<Rightarrow> bytes result" where
  "assemble_native_sections g secs options =
     (case co_secondary options of
        Some backend \<Rightarrow>
          and_then (ob_compress_sections backend (ws_data secs, ws_inst secs, ws_addr secs))
            (\<lambda>((data_section, inst_section, addr_section), del_ind).
              Inr (ox_assemble g (secs\<lparr>ws_data := data_section, ws_inst := inst_section,
                                       ws_addr := addr_section\<rparr>) del_ind))
      | None \<Rightarrow> Inr (ox_assemble g secs 0))"

definition build_native_window ::
  "'w vcd_engine \<Rightarrow> bytes \<Rightarrow> nat \<Rightarrow> bytes \<Rightarrow> compress_options \<Rightarrow> bytes result" where
  "build_native_window g source source_offset target options =
     (let source_window = (if source = [] then None
            else Some \<lparr>sw_len = length source, sw_offset = source_offset\<rparr>);
          instructions =
            (if co_level options = 0
             then if target = [] then [] else [OxAdd (length target)]
             else ox_optimize g (ox_find_matches g (co_level options)
                    (if source = [] then None else Some source) target) target)
      in and_then (emit_native_instructions g target instructions 0
                     (we_new g source_window (co_checksum options))) (\<lambda>window.
           assemble_native_sections g (we_finish_sections g window target) options))"

section \<open>All windows\<close>

text \<open>Reading a chunk fills the buffer, whose capacity is at least 64, as far as the file goes.\<close>

definition read_next_chunk :: "bytes \<Rightarrow> nat \<Rightarrow> bytes \<times> bytes" where
  "read_next_chunk rdr capacity = (take (max capacity 64) rdr, drop (max capacity 64) rdr)"

definition read_source_window :: "bytes \<Rightarrow> nat \<Rightarrow> nat \<Rightarrow> nat \<Rightarrow> bytes result" where
  "read_source_window source offset max_len source_len =
     (if offset \<ge> source_len \<or> max_len = 0 then Inr []
      else seek_read_exact source offset (min (source_len - offset) max_len))"

text \<open>The windows the stream encoder has written are those of the list, in order.\<close>

function encode_windows_sequential ::
  "'w vcd_engine \<Rightarrow> bytes \<Rightarrow> nat \<Rightarrow> compress_options \<Rightarrow> bytes \<Rightarrow> nat \<Rightarrow> bytes list \<Rightarrow> bytes list result" where
  "encode_windows_sequential g source window_size options rdr target_offset written =
     (let (chunk, rdr') = read_next_chunk rdr window_size
      in if length chunk = 0 then Inr written
         else
           let source_offset = min target_offset (length source)
           in and_then (read_source_window source source_offset (length chunk) (length source)) (\<lambda>source_window.
              and_then (build_native_window g source_window source_offset chunk options) (\<lambda>encoded.
              and_then (checked_add target_offset (length chunk) ''encoded target offset'') (\<lambda>target_offset.
              encode_windows_sequential g source window_size options rdr' target_offset (written @ [encoded])))))"
  by pat_completeness auto
termination
  by (relation "measure (\<lambda>(g, source, window_size, options, rdr, target_offset, written). length rdr)")
    (auto simp: read_next_chunk_def)

declare encode_windows_sequential.simps [simp del]

text \<open>The reads of a batch: at most \<open>n\<close> windows, and the rest of the target.\<close>

fun read_window_batch ::
  "nat \<Rightarrow> bytes \<Rightarrow> nat \<Rightarrow> bytes \<Rightarrow> nat \<Rightarrow> ((nat \<times> bytes \<times> bytes) list \<times> bytes \<times> nat) result" where
  "read_window_batch 0 source window_size rdr target_offset = Inr ([], rdr, target_offset)"
| "read_window_batch (Suc n) source window_size rdr target_offset =
     (let (chunk, rdr') = read_next_chunk rdr window_size
      in if length chunk = 0 then Inr ([], rdr', target_offset)
         else
           let source_offset = min target_offset (length source)
           in and_then (read_source_window source source_offset (length chunk) (length source)) (\<lambda>source_window.
              and_then (checked_add target_offset (length chunk) ''encoded target offset'') (\<lambda>target_offset.
              and_then (read_window_batch n source window_size rdr' target_offset) (\<lambda>(batch, rest).
                Inr ((source_offset, source_window, chunk) # batch, rest)))))"

definition encode_window_batch ::
  "'w vcd_engine \<Rightarrow> compress_options \<Rightarrow> (nat \<times> bytes \<times> bytes) list \<Rightarrow> bytes list result" where
  "encode_window_batch g options batch =
     map_result (\<lambda>(source_offset, source_window, target_window).
       build_native_window g source_window source_offset target_window options) batch"

lemma read_window_batch_rest:
  assumes "read_window_batch n source window_size rdr target_offset = Inr (batch, rest, offset)"
  shows "length rest \<le> length rdr \<and> (batch \<noteq> [] \<longrightarrow> length rest < length rdr)"
  using assms
proof (induction n arbitrary: rdr target_offset batch)
  case (Suc n)
  show ?case
  proof (cases "rdr = []")
    case False
    then obtain batch' offset' where "read_window_batch n source window_size (drop (max window_size 64) rdr) offset' =
        Inr (batch', rest, offset)"
      using Suc.prems by (auto simp: read_next_chunk_def Let_def result_iff split: if_splits)
    from Suc.IH [OF this] False show ?thesis by (cases rdr) auto
  qed (use Suc.prems in \<open>simp add: read_next_chunk_def\<close>)
qed simp

function encode_windows_parallel ::
  "'w vcd_engine \<Rightarrow> bytes \<Rightarrow> nat \<Rightarrow> compress_options \<Rightarrow> nat \<Rightarrow> bytes \<Rightarrow> nat \<Rightarrow> bytes list \<Rightarrow> bytes list result" where
  "encode_windows_parallel g source window_size options batch_size rdr target_offset written =
     and_then (read_window_batch (max batch_size 1) source window_size rdr target_offset)
       (\<lambda>(batch, rdr', target_offset).
       if batch = [] then Inr written
       else and_then (encode_window_batch g options batch) (\<lambda>encoded_windows.
              encode_windows_parallel g source window_size options batch_size rdr' target_offset
                (written @ encoded_windows)))"
  by pat_completeness auto
termination
  by (relation "measure (\<lambda>(g, source, window_size, options, batch_size, rdr, target_offset, written). length rdr)")
    (auto dest: read_window_batch_rest)

declare encode_windows_parallel.simps [simp del]

definition encode_patch_native ::
  "'w vcd_engine \<Rightarrow> op_context option \<Rightarrow> bytes \<Rightarrow> bytes \<Rightarrow> compress_options \<Rightarrow> (bytes \<times> thread_execution) result" where
  "encode_patch_native g progress source target options =
     (let window_size = max (co_window_size options) 64;
          stream = ox_stream g (co_checksum options) (map_option ob_id (co_secondary options))
      in and_then
           (case progress of
              Some ctx \<Rightarrow> build_pool ctx (Parallel (Some (max (div_ceil (length target) window_size) 1)))
            | None \<Rightarrow> Inr (negotiate \<lparr>available_parallelism = 1, pool_build_failure = (\<lambda>_. None)\<rparr>
                             (BudgetFixed 1) SingleThreaded, 1))
           (\<lambda>(execution, _).
         and_then
           (if used_parallelism execution
            then encode_windows_parallel g source window_size options (effective_threads execution) target 0 []
            else encode_windows_sequential g source window_size options target 0 [])
           (\<lambda>written.
         and_then
           (if length target = 0
            then and_then (build_native_window g [] 0 [] options) (\<lambda>empty_window. Inr (written @ [empty_window]))
            else Inr written)
           (\<lambda>written.
         Inr (stream written, execution)))))"

section \<open>Candidates\<close>

datatype xdelta_secondary_mode = SecondaryAuto | SecondaryDjw | SecondaryFgk | SecondaryLzma | SecondaryNone

definition XDELTA_SECONDARY_CANDIDATES :: "u8 list" where
  "XDELTA_SECONDARY_CANDIDATES = [XDELTA_DJW_SECONDARY_ID, XDELTA_LZMA_SECONDARY_ID, XDELTA_FGK_SECONDARY_ID]"

definition xdelta_secondary_candidates_for_mode :: "xdelta_secondary_mode \<Rightarrow> u8 list" where
  "xdelta_secondary_candidates_for_mode mode =
     (case mode of SecondaryAuto \<Rightarrow> XDELTA_SECONDARY_CANDIDATES
      | SecondaryDjw \<Rightarrow> [XDELTA_DJW_SECONDARY_ID] | SecondaryFgk \<Rightarrow> [XDELTA_FGK_SECONDARY_ID]
      | SecondaryLzma \<Rightarrow> [XDELTA_LZMA_SECONDARY_ID] | SecondaryNone \<Rightarrow> [])"

text \<open>The last component of a path, as \<open>Path::file_name\<close> reads it.\<close>

fun path_components :: "string \<Rightarrow> string \<Rightarrow> string list" where
  "path_components current [] = [current]"
| "path_components current (c # cs) =
     (if c = CHR ''/'' then current # path_components [] cs else path_components (current @ [c]) cs)"

definition path_file_name :: "string \<Rightarrow> string option" where
  "path_file_name path =
     (case rev (filter (\<lambda>part. part \<noteq> [] \<and> part \<noteq> ''.'') (path_components [] path)) of
        [] \<Rightarrow> None | part # _ \<Rightarrow> if part = ''..'' then None else Some part)"

definition xdelta_app_header_name_component :: "string \<Rightarrow> string" where
  "xdelta_app_header_name_component path =
     (case path_file_name path of Some name \<Rightarrow> if name \<noteq> [] then name else ''-'' | None \<Rightarrow> ''-'')"

definition XDELTA_APP_HEADER_TAG_SEPARATOR :: u8 where
  "XDELTA_APP_HEADER_TAG_SEPARATOR = 0"

definition ascii_bytes :: "string \<Rightarrow> bytes" where
  "ascii_bytes s = map of_char s"

text \<open>The version of the package is the one the build gives.\<close>

definition xdelta_app_header_producer_tag :: "string \<Rightarrow> string" where
  "xdelta_app_header_producer_tag version = ''rom-weaver '' @ version"

definition build_default_xdelta_app_header :: "string \<Rightarrow> string \<Rightarrow> string \<Rightarrow> bytes" where
  "build_default_xdelta_app_header version source_path target_path =
     ascii_bytes (xdelta_app_header_name_component target_path @ ''//'' @
       xdelta_app_header_name_component source_path @ ''/'') @
     [XDELTA_APP_HEADER_TAG_SEPARATOR] @ ascii_bytes (xdelta_app_header_producer_tag version)"

definition richer_thread_execution :: "thread_execution \<Rightarrow> thread_execution \<Rightarrow> thread_execution" where
  "richer_thread_execution a b = (if effective_threads b > effective_threads a then b else a)"

text \<open>\<open>filter_map\<close> and \<open>min_by_key\<close>: the first of the smallest candidates that came off.\<close>

definition best_candidate :: "bytes result list \<Rightarrow> bytes option" where
  "best_candidate results =
     fold (\<lambda>r best. case r of Inl _ \<Rightarrow> best
           | Inr c \<Rightarrow> (case best of None \<Rightarrow> Some c | Some b \<Rightarrow> if length c < length b then Some c else Some b))
       results None"

definition vcdiff_create_report :: "string \<Rightarrow> parsed_vcdiff \<Rightarrow> thread_execution \<Rightarrow> report" where
  "vcdiff_create_report name parsed execution =
     patch_success_report name ''create''
       [if vp_secondary_compressor_id parsed \<noteq> None
        then Msg ''created {} patch with {} window(s) and secondary compression'' [Str name, Num (length (vp_windows parsed))]
        else Msg ''created {} patch with {} window(s)'' [Str name, Num (length (vp_windows parsed))]]
       (Some execution)"

definition vcdiff_create ::
  "('e, 'd) vcd_codecs \<Rightarrow> 'w vcd_engine \<Rightarrow> string \<Rightarrow> string \<Rightarrow> op_context \<Rightarrow> xdelta_secondary_mode \<Rightarrow>
   create_request \<Rightarrow> (bytes \<times> report) result" where
  "vcdiff_create k g version name ctx mode request =
     (let original = cr_original request; modified = cr_modified request;
          compare_secondary = is_xdelta_descriptor name;
          include_checksums = ctx_validation ctx = Strict;
          app_header = (if compare_secondary
            then Some (build_default_xdelta_app_header version (file_path original) (file_path modified)) else None)
      in and_then (encode_patch_native g (Some ctx) (file_bytes original) (file_bytes modified)
                     (create_native_compress_options g name include_checksums)) (\<lambda>(baseline_raw, encode_execution).
         and_then (if compare_secondary
                   then and_then (load_patch_for_xdelta_recode baseline_raw) (\<lambda>loaded. Inr (Some loaded))
                   else Inr None) (\<lambda>baseline_loaded.
         let candidates = (if compare_secondary then xdelta_secondary_candidates_for_mode mode else [])
         in and_then (if length candidates > 1
                      then and_then (build_pool ctx (Parallel (Some (length candidates)))) (\<lambda>(execution, _). Inr execution)
                      else Inr (plan_threads ctx SingleThreaded)) (\<lambda>secondary_execution.
            and_then (case (app_header, baseline_loaded) of
                        (Some header, Some loaded) \<Rightarrow> measure_appheader_baseline_size loaded header
                      | _ \<Rightarrow> Inr (length baseline_raw)) (\<lambda>baseline_size.
            let recode = (\<lambda>secondary. case baseline_loaded of
                  None \<Rightarrow> Err (Panic ''xdelta baseline should be loaded when evaluating candidates'')
                | Some loaded \<Rightarrow> recode_loaded_patch_with_xdelta_options k baseline_raw loaded secondary app_header);
                best = (if compare_secondary \<and> candidates \<noteq> []
                        then best_candidate (map (\<lambda>secondary_id. recode (Some secondary_id)) candidates) else None)
            in and_then
                 (case best of
                    Some candidate \<Rightarrow>
                      if length candidate < baseline_size then Inr candidate
                      else if app_header \<noteq> None then recode None else Inr baseline_raw
                  | None \<Rightarrow> if app_header \<noteq> None then recode None else Inr baseline_raw) (\<lambda>selected.
               and_then (parse_vcdiff selected) (\<lambda>parsed.
               Inr (selected, vcdiff_create_report name parsed
                      (richer_thread_execution encode_execution secondary_execution)))))))))"

end
