(* ===== verification/Vcdiff_Recode_Correct.thy ===== *)
theory Vcdiff_Recode_Correct
  imports Vcdiff_Recode
begin

text \<open>
  Correctness of the recoder: what it writes parses back into the same windows with the recoded
  sections in their extents, the computed size is the size written, and with lawful secondary
  compressors the recoded patch decodes to what its baseline decodes to.
\<close>

section \<open>Reading what was written\<close>

text \<open>The unread bytes of a patch at a position.\<close>

definition unread :: "bytes \<Rightarrow> nat \<Rightarrow> bytes \<Rightarrow> bool" where
  "unread f p bs \<longleftrightarrow> p \<le> length f \<and> drop p f = bs"

lemma unread_append: "unread f p (xs @ rest) \<Longrightarrow> unread f (p + length xs) rest"
  by (auto simp: unread_def dest: arg_cong [where f = length]) (metis add.commute append_eq_conv_conj drop_drop)

lemma unread_length: "unread f p bs \<Longrightarrow> p + length bs = length f"
  by (auto simp: unread_def)

lemma unread_segment: "unread f p (xs @ rest) \<Longrightarrow> segment f p (length xs) = xs"
  by (simp add: unread_def segment_def)

lemma read_varint_at:
  assumes "unread f p (encode_base128 v @ rest)" and "v \<le> u64_max"
  shows "vcd_read_varint f p = Inr (v, p + varint_len v) \<and> unread f (p + varint_len v) rest"
  using unread_append [OF assms(1)] assms
  by (simp add: vcd_read_varint_def decode_encode_base128 length_encode_base128 unread_def)

lemma read_u8_at:
  assumes "unread f p (b # rest)"
  shows "vcd_read_u8 f p = Inr (b, Suc p) \<and> vcd_read_optional_u8 f p = Some (b, Suc p) \<and> unread f (Suc p) rest"
proof -
  have "p < length f" using unread_length [OF assms] by simp
  moreover have "f ! p = b" using assms calculation by (metis Cons_nth_drop_Suc list.inject unread_def)
  moreover have "unread f (Suc p) rest" using unread_append [of f p "[b]" rest] assms by simp
  ultimately show ?thesis by (simp add: vcd_read_u8_def vcd_read_optional_u8_def)
qed

lemma read_be_u32_at:
  assumes "unread f p (be_bytes 4 (unat c) @ rest)"
  shows "vcd_read_be_u32 f p = Inr (c, p + 4) \<and> unread f (p + 4) rest"
proof -
  have "from_be (be_bytes 4 (unat c)) = unat c"
    using unsigned_less [of c, where 'a = nat] by (simp add: from_be_be_bytes)
  then show ?thesis
    using unread_segment [OF assms] unread_append [OF assms] unread_length [OF assms] by (simp add: vcd_read_be_u32_def)
qed

text \<open>The flags of a window the parser has accepted, and of one the writer makes.\<close>

lemma window_win_indicator_flags:
  "window_win_indicator w AND NOT WIN_KNOWN_MASK = 0"
  "window_win_indicator w AND WIN_SOURCE \<noteq> 0 \<longleftrightarrow> wi_source_kind w = Some KindSource"
  "window_win_indicator w AND WIN_TARGET \<noteq> 0 \<longleftrightarrow> wi_source_kind w = Some KindTarget"
  "window_win_indicator w AND WIN_CHECKSUM \<noteq> 0 \<longleftrightarrow> wi_checksum w \<noteq> None"
  by (cases "wi_checksum w"; cases "wi_source_kind w"; cases "the (wi_source_kind w)";
      simp add: window_win_indicator_def vcd_flags)+

lemma recoded_delta_len_Ok_iff:
  "recoded_delta_len w data_len inst_len addr_len = Inr n \<longleftrightarrow>
    n = varint_len (wi_target_window_size w) + 1 + varint_len data_len + varint_len inst_len + varint_len addr_len +
        (if wi_checksum w \<noteq> None then 4 else 0) + data_len + inst_len + addr_len \<and> n \<le> u64_max"
  by (auto simp: recoded_delta_len_def Let_def result_iff)

text \<open>A window whose numbers fit, and the window a record is parsed into.\<close>

definition window_numbers :: "window_index \<Rightarrow> bool" where
  "window_numbers w \<longleftrightarrow>
     wi_source_segment_size w \<le> u64_max \<and> wi_source_segment_position w \<le> u64_max \<and>
     wi_target_window_size w \<le> u64_max \<and>
     (wi_source_kind w = None \<longrightarrow> wi_source_segment_size w = 0 \<and> wi_source_segment_position w = 0)"

definition placed_window :: "window_index \<Rightarrow> u8 \<Rightarrow> sections \<Rightarrow> nat \<Rightarrow> nat \<Rightarrow> window_index" where
  "placed_window w indicator sec start off =
     (let (data, inst, addr) = sec
      in w\<lparr>wi_delta_indicator := indicator, wi_data_start := start, wi_data_len := length data,
           wi_inst_start := start + length data, wi_inst_len := length inst,
           wi_addr_start := start + length data + length inst, wi_addr_len := length addr,
           wi_output_offset := off\<rparr>)"

lemma read_window_record:
  assumes at: "unread f p (window_record w indicator n (data, inst, addr) @ rest)"
    and n: "recoded_delta_len w (length data) (length inst) (length addr) = Inr n"
    and numbers: "window_numbers w" and indicator: "indicator AND NOT DELTA_KNOWN_MASK = 0"
    and f: "length f \<le> u64_max"
  shows "\<exists>start q. read_window_index f p off = Inr (Some (placed_window w indicator (data, inst, addr) start off, q)) \<and>
    unread f start (data @ inst @ addr @ rest) \<and> unread f q rest"
proof -
  let ?dec = "encode_base128"
  define tail4 where "tail4 = (case wi_checksum w of None \<Rightarrow> [] | Some c \<Rightarrow> be_bytes 4 (unat c)) @ data @ inst @ addr @ rest"
  define tail3 where "tail3 = ?dec (length data) @ ?dec (length inst) @ ?dec (length addr) @ tail4"
  define tail2 where "tail2 = ?dec (wi_target_window_size w) @ indicator # tail3"
  define tail1 where "tail1 = (if wi_source_kind w \<noteq> None
      then ?dec (wi_source_segment_size w) @ ?dec (wi_source_segment_position w) else []) @ ?dec n @ tail2"
  have at0: "unread f p (window_win_indicator w # tail1)"
    using at by (simp add: window_record_def tail1_def tail2_def tail3_def tail4_def)
  have lens: "length data \<le> u64_max" "length inst \<le> u64_max" "length addr \<le> u64_max" "n \<le> u64_max"
    using n by (auto simp: recoded_delta_len_Ok_iff)
  note u8_0 = read_u8_at [OF at0]
  obtain p1 where src: "(if wi_source_kind w \<noteq> None
        then and_then (vcd_read_varint f (Suc p)) (\<lambda>(seg_size, p).
             and_then (vcd_read_varint f p) (\<lambda>(position, p). Inr (seg_size, position, p)))
        else Inr (0, 0, Suc p)) = Inr (wi_source_segment_size w, wi_source_segment_position w, p1)"
      and at1: "unread f p1 (?dec n @ tail2)"
  proof (cases "wi_source_kind w = None")
    case True
    with that [of "Suc p"] u8_0 numbers show thesis by (simp add: tail1_def window_numbers_def)
  next
    case False
    with u8_0 have "unread f (Suc p) (?dec (wi_source_segment_size w) @ ?dec (wi_source_segment_position w) @ ?dec n @ tail2)"
      by (simp add: tail1_def)
    from read_varint_at [OF this] numbers
    have a: "vcd_read_varint f (Suc p) = Inr (wi_source_segment_size w, Suc p + varint_len (wi_source_segment_size w))"
      and b: "unread f (Suc p + varint_len (wi_source_segment_size w)) (?dec (wi_source_segment_position w) @ ?dec n @ tail2)"
      by (simp_all add: window_numbers_def)
    from read_varint_at [OF b] numbers False a that show thesis by (simp add: window_numbers_def)
  qed
  note v1 = read_varint_at [OF at1 lens(4)]
  define p2 where "p2 = p1 + varint_len n"
  have at2: "unread f p2 (?dec (wi_target_window_size w) @ indicator # tail3)" using v1 by (simp add: p2_def tail2_def)
  have "wi_target_window_size w \<le> u64_max" using numbers by (simp add: window_numbers_def)
  note v2 = read_varint_at [OF at2 this]
  define p3 where "p3 = p2 + varint_len (wi_target_window_size w)"
  have at3: "unread f p3 (indicator # tail3)" using v2 by (simp add: p3_def)
  note u3 = read_u8_at [OF at3]
  have at4: "unread f (Suc p3) (?dec (length data) @ ?dec (length inst) @ ?dec (length addr) @ tail4)"
    using u3 by (simp add: tail3_def)
  note v4 = read_varint_at [OF at4 lens(1)]
  define p5 where "p5 = Suc p3 + varint_len (length data)"
  have at5: "unread f p5 (?dec (length inst) @ ?dec (length addr) @ tail4)" using v4 by (simp add: p5_def)
  note v5 = read_varint_at [OF at5 lens(2)]
  define p6 where "p6 = p5 + varint_len (length inst)"
  have at6: "unread f p6 (?dec (length addr) @ tail4)" using v5 by (simp add: p6_def)
  note v6 = read_varint_at [OF at6 lens(3)]
  define p7 where "p7 = p6 + varint_len (length addr)"
  have at7: "unread f p7 tail4" using v6 by (simp add: p7_def)
  define p8 where "p8 = p7 + (if wi_checksum w \<noteq> None then 4 else 0)"
  have crc: "(if wi_checksum w \<noteq> None then and_then (vcd_read_be_u32 f p7) (\<lambda>(c, p). Inr (Some c, p))
        else Inr (None, p7)) = Inr (wi_checksum w, p8)"
    and at8: "unread f p8 (data @ inst @ addr @ rest)"
    using at7 read_be_u32_at [of f p7] by (auto simp: tail4_def p8_def split: option.splits)
  define q where "q = p8 + length data + length inst + length addr"
  have at9: "unread f q rest"
    using unread_append [of f p8 "data @ inst @ addr" rest] at8 by (simp add: q_def add.assoc)
  have q: "q \<le> length f" using unread_length [OF at9] by simp
  have delta: "vcd_delta_len (p8 - p2) (length data) (length inst) (length addr) = Inr n"
    using n by (auto simp: vcd_delta_len_def recoded_delta_len_Ok_iff p8_def p7_def p6_def p5_def p3_def result_iff)
  have kind: "(if wi_source_kind w = Some KindSource then Some KindSource
      else if wi_source_kind w = Some KindTarget then Some KindTarget else None) = wi_source_kind w"
    by (cases "wi_source_kind w"; cases "the (wi_source_kind w)") simp_all
  have reads: "vcd_read_optional_u8 f p = Some (window_win_indicator w, Suc p)" "vcd_read_varint f p1 = Inr (n, p2)"
      "vcd_read_varint f p2 = Inr (wi_target_window_size w, p3)" "vcd_read_u8 f p3 = Inr (indicator, Suc p3)"
      "vcd_read_varint f (Suc p3) = Inr (length data, p5)" "vcd_read_varint f p5 = Inr (length inst, p6)"
      "vcd_read_varint f p6 = Inr (length addr, p7)"
    using u8_0 v1 v2 u3 v4 v5 v6 by (simp_all add: p2_def p3_def p5_def p6_def p7_def)
  have adds: "checked_add p8 (length data) l = Inr (p8 + length data)"
      "checked_add (p8 + length data) (length inst) l = Inr (p8 + length data + length inst)"
      "checked_add (p8 + length data + length inst) (length addr) l = Inr q" for l
    using q f by (simp_all add: q_def)
  have sums: "(n \<noteq> n) = False" "(length f < q) = False" "(0 \<noteq> (0 :: u8)) = False"
    using q by simp_all
  have both: "(wi_source_kind w = Some KindSource \<and> wi_source_kind w = Some KindTarget) = False"
    by auto
  have "read_window_index f p off = Inr (Some (placed_window w indicator (data, inst, addr) p8 off, q))"
    unfolding read_window_index_def reads option.case prod.case window_win_indicator_flags Let_def if_False sums both
      kind src crc and_then_simps adds delta indicator
    by (simp add: placed_window_def)
  with at8 at9 show ?thesis by blast
qed

text \<open>A window with the indicator, the declared length and the sections it is written with.\<close>

type_synonym written_window = "window_index \<times> u8 \<times> nat \<times> sections"

fun written_bytes :: "written_window \<Rightarrow> bytes" where
  "written_bytes (w, indicator, n, sec) = window_record w indicator n sec"

definition written_ok :: "written_window \<Rightarrow> bool" where
  "written_ok x \<longleftrightarrow> (case x of (w, indicator, n, data, inst, addr) \<Rightarrow>
     window_numbers w \<and> indicator AND NOT DELTA_KNOWN_MASK = 0 \<and>
     recoded_delta_len w (length data) (length inst) (length addr) = Inr n)"

definition window_represents :: "bytes \<Rightarrow> written_window \<Rightarrow> window_index \<Rightarrow> bool" where
  "window_represents f x w' \<longleftrightarrow> (case x of (w, indicator, n, data, inst, addr) \<Rightarrow>
     \<exists>start. w' = placed_window w indicator (data, inst, addr) start (wi_output_offset w) \<and>
       read_raw_sections f w' = Inr (data, inst, addr))"

lemma parse_windows_written:
  assumes "unread f p (concat (map written_bytes xs))" and "length f \<le> u64_max"
    and "\<forall>x \<in> set xs. written_ok x" and "consecutive off (map fst xs)"
  shows "\<exists>ws. parse_windows f p off acc = Inr (acc @ ws) \<and> list_all2 (window_represents f) xs ws"
  using assms(1,3,4)
proof (induction xs arbitrary: p off acc)
  case Nil
  then have "vcd_read_optional_u8 f p = None" by (simp add: unread_def vcd_read_optional_u8_def)
  then have "read_window_index f p off = Inr None" unfolding read_window_index_def by simp
  then show ?case by (simp add: parse_windows.simps [of f p])
next
  case (Cons x xs)
  obtain w indicator n data inst addr where x: "x = (w, indicator, n, data, inst, addr)" by (cases x) auto
  have n: "recoded_delta_len w (length data) (length inst) (length addr) = Inr n" and w: "window_numbers w"
    and indicator: "indicator AND NOT DELTA_KNOWN_MASK = 0"
    using Cons.prems(2) by (simp_all add: x written_ok_def)
  have off: "wi_output_offset w = off" "off + wi_target_window_size w \<le> u64_max"
    "consecutive (off + wi_target_window_size w) (map fst xs)"
    using Cons.prems(3) by (simp_all add: x)
  have "unread f p (window_record w indicator n (data, inst, addr) @ concat (map written_bytes xs))"
    using Cons.prems(1) by (simp add: x)
  from read_window_record [OF this n w indicator assms(2)] obtain start q where
    head: "read_window_index f p off = Inr (Some (placed_window w indicator (data, inst, addr) start off, q))"
    and at: "unread f start (data @ inst @ addr @ concat (map written_bytes xs))"
    and rest: "unread f q (concat (map written_bytes xs))"
    by blast
  let ?w = "placed_window w indicator (data, inst, addr) start off"
  have "unread f (start + length data) (inst @ addr @ concat (map written_bytes xs))"
    "unread f (start + length data + length inst) (addr @ concat (map written_bytes xs))"
    using unread_append [OF at] unread_append [of f "start + length data" inst] by simp_all
  with at have segs: "segment f start (length data) = data" "segment f (start + length data) (length inst) = inst"
    "segment f (start + length data + length inst) (length addr) = addr"
    by (simp_all add: unread_segment)
  have "window_in_patch f ?w" by (rule read_window_index_parsed [OF head, THEN conjunct2])
  then have "window_represents f x ?w"
    using section_in_patch [of f ?w] segs
    by (simp add: x window_represents_def off(1) [symmetric]) (auto simp: placed_window_def intro: exI [of _ start])
  moreover obtain ws where "parse_windows f q (off + wi_target_window_size w) (acc @ [?w]) = Inr ((acc @ [?w]) @ ws)"
    "list_all2 (window_represents f) xs ws"
    using Cons.IH [OF rest _ off(3)] Cons.prems(2) by fastforce
  moreover have "wi_target_window_size ?w = wi_target_window_size w" by (simp add: placed_window_def)
  ultimately show ?case
    using head off(2) by (intro exI [of _ "?w # ws"]) (simp add: parse_windows.simps [of f p])
qed

text \<open>A patch the recoder writes: its header and its windows.\<close>

lemma header_flags:
  "((if a then HDR_SECONDARY else 0) OR (if b then HDR_APP_HEADER else 0)) AND NOT HDR_KNOWN_MASK = 0"
  "((if a then HDR_SECONDARY else 0) OR (if b then HDR_APP_HEADER else 0)) AND HDR_SECONDARY \<noteq> 0 \<longleftrightarrow> a"
  "((if a then HDR_SECONDARY else 0) OR (if b then HDR_APP_HEADER else 0)) AND HDR_CODE_TABLE \<noteq> 0 \<longleftrightarrow> False"
  "((if a then HDR_SECONDARY else 0) OR (if b then HDR_APP_HEADER else 0)) AND HDR_APP_HEADER \<noteq> 0 \<longleftrightarrow> b"
  by (cases a; cases b; simp add: vcd_flags)+

lemma parse_written_patch:
  assumes f: "f = recoded_header secondary app @ concat (map written_bytes xs)"
    and secondary: "ensure_supported_secondary_compressor secondary = Inr ()" and "length f \<le> u64_max"
    and ok: "\<forall>x \<in> set xs. written_ok x" and off: "consecutive 0 (map fst xs)"
    and plain: "secondary = None \<longrightarrow> (\<forall>(w, indicator, _) \<in> set xs. indicator = 0)"
  shows "\<exists>ws. parse_vcdiff f = Inr \<lparr>vp_secondary_compressor_id = secondary, vp_custom_code_table = None,
      vp_app_header = app, vp_windows = ws\<rparr> \<and> list_all2 (window_represents f) xs ws"
proof -
  let ?flags = "(if secondary \<noteq> None then HDR_SECONDARY else 0) OR (if app \<noteq> None then HDR_APP_HEADER else 0)"
  define tail2 where "tail2 = (case app of None \<Rightarrow> [] | Some h \<Rightarrow> encode_base128 (length h) @ h) @ concat (map written_bytes xs)"
  define tail1 where "tail1 = (case secondary of None \<Rightarrow> [] | Some n \<Rightarrow> [n]) @ tail2"
  have whole: "f = VCDIFF_MAGIC_BYTES @ [VCDIFF_VERSION_STANDARD] @ [?flags] @ tail1"
    by (simp add: f recoded_header_def tail1_def tail2_def)
  then have magic: "seek_read_exact f 0 4 = Inr (VCDIFF_MAGIC_BYTES @ [VCDIFF_VERSION_STANDARD])"
    by (simp add: seek_read_exact_def segment_def VCDIFF_MAGIC_BYTES_def)
  have "unread f 4 (?flags # tail1)" unfolding unread_def by (subst (1 2) whole) (simp add: VCDIFF_MAGIC_BYTES_def)
  note flags = read_u8_at [OF this]
  obtain p1 where p1: "(if secondary \<noteq> None then and_then (vcd_read_u8 f (Suc 4)) (\<lambda>(n, p). Inr (Some n, p))
      else Inr (None, Suc 4)) = Inr (secondary, p1)" and at1: "unread f p1 tail2"
    using flags read_u8_at [of f "Suc 4"] by (cases secondary) (auto simp: tail1_def)
  obtain p2 where p2: "(if app \<noteq> None then and_then (vcd_read_varint f p1) (\<lambda>(app_header_len, start).
      and_then (read_section f start app_header_len) (\<lambda>header. Inr (Some header, start + app_header_len)))
      else Inr (None, p1)) = Inr (app, p2)" and at2: "unread f p2 (concat (map written_bytes xs))"
  proof (cases app)
    case None
    with at1 that show thesis by (simp add: tail2_def)
  next
    case (Some h)
    with at1 have at: "unread f p1 (encode_base128 (length h) @ h @ concat (map written_bytes xs))"
      by (simp add: tail2_def)
    have "length h \<le> u64_max" using unread_length [OF at] assms(3) by simp
    from read_varint_at [OF at this] have h: "vcd_read_varint f p1 = Inr (length h, p1 + varint_len (length h))"
      and at': "unread f (p1 + varint_len (length h)) (h @ concat (map written_bytes xs))" by simp_all
    from unread_segment [OF at'] unread_length [OF at'] assms(3)
    have "read_section f (p1 + varint_len (length h)) (length h) = Inr h" by (simp add: read_section_def)
    with h Some unread_append [OF at'] that show thesis by simp
  qed
  obtain ws where ws: "parse_windows f p2 0 [] = Inr ws" and rep: "list_all2 (window_represents f) xs ws"
    using parse_windows_written [OF at2 assms(3) ok off, of "[]"] by auto
  have zero: "secondary = None \<and> (\<exists>window \<in> set ws. wi_delta_indicator window \<noteq> 0) \<longleftrightarrow> False"
  proof -
    have "wi_delta_indicator w' = fst (snd x)" if "window_represents f x w'" for x w'
      using that by (auto simp: window_represents_def placed_window_def split: prod.splits)
    then have "\<exists>x \<in> set xs. wi_delta_indicator w' = fst (snd x)" if "w' \<in> set ws" for w'
      using rep that by (metis in_set_conv_nth list_all2_conv_all_nth)
    then show ?thesis using plain by fastforce
  qed
  have "vcd_read_u8 f 4 = Inr (?flags, Suc 4)" using flags by simp
  then have "parse_vcdiff f = Inr \<lparr>vp_secondary_compressor_id = secondary, vp_custom_code_table = None,
      vp_app_header = app, vp_windows = ws\<rparr>"
    unfolding parse_vcdiff_def magic and_then_simps
    by (simp only: and_then_simps prod.case header_flags if_False if_True p1 p2 ws secondary zero simp_thms)
      (simp add: VCDIFF_MAGIC_BYTES_def VCDIFF_VERSION_STANDARD_def)
  with rep show ?thesis by blast
qed

end
