(* ===== verification/Vcdiff_Recode_Properties.thy ===== *)
theory Vcdiff_Recode_Properties
  imports Vcdiff_Recode_Correct
begin

text \<open>
  What the recoder promises.  The secondary compressors are held to their contracts: a section
  decompresses to what was compressed, for LZMA along the stream of its section kind; and the
  window decoder goes by the sections it is given, not by the lengths of the compressed ones.
\<close>

section \<open>The measured size\<close>

lemma raw_sections_length:
  assumes "read_raw_sections f w = Inr (data, inst, addr)"
  shows "length data = wi_data_len w \<and> length inst = wi_inst_len w \<and> length addr = wi_addr_len w"
  using assms by (auto simp: read_raw_sections_def read_section_def result_iff min_def split: if_splits)

lemma length_window_record:
  assumes "recoded_delta_len w (length data) (length inst) (length addr) = Inr n"
  shows "length (window_record w indicator n (data, inst, addr)) = 1 + varint_len n + n +
    (if wi_source_kind w \<noteq> None then varint_len (wi_source_segment_size w) + varint_len (wi_source_segment_position w) else 0)"
  using assms
  by (auto simp: window_record_def recoded_delta_len_Ok_iff length_encode_base128 split: option.splits)

lemma recode_plain_sections:
  "recode_sections k None indicator sec None = Inr (r, es) \<longleftrightarrow>
    es = None \<and> r = ((fst sec, indicator AND DELTA_DATA_COMP \<noteq> 0), (fst (snd sec), indicator AND DELTA_INST_COMP \<noteq> 0),
      (snd (snd sec), indicator AND DELTA_ADDR_COMP \<noteq> 0))"
  by (cases sec) (auto simp: recode_sections_def recode_window_section_def ensure_supported_secondary_compressor_def)

lemma recode_plain_window:
  assumes "recode_window k f None w (out, None) = Inr (out', es)"
  shows "es = None \<and> (\<exists>data inst addr n. read_raw_sections f w = Inr (data, inst, addr) \<and>
    recoded_delta_len w (length data) (length inst) (length addr) = Inr n \<and>
    out' = out @ window_record w (wi_delta_indicator w) n (data, inst, addr))"
  using assms
  by (auto simp: recode_window_def Let_def result_iff recode_plain_sections recode_delta_indicator_def
      split: prod.splits)

lemma measured_window:
  assumes "recode_window k f None w (out, None) = Inr (out', es)" and "length out' \<le> u64_max"
  shows "\<exists>n. appheader_window_size w = Inr n \<and> length out' = length out + n"
proof -
  obtain data inst addr n where sec: "read_raw_sections f w = Inr (data, inst, addr)"
    and n: "recoded_delta_len w (length data) (length inst) (length addr) = Inr n"
    and out': "out' = out @ window_record w (wi_delta_indicator w) n (data, inst, addr)"
    using recode_plain_window [OF assms(1)] by blast
  have "recoded_delta_len w (wi_data_len w) (wi_inst_len w) (wi_addr_len w) = Inr n"
    using n raw_sections_length [OF sec] by simp
  with length_window_record [OF n] assms(2) show ?thesis
    by (auto simp: appheader_window_size_def out')
qed

lemma measured_windows:
  assumes "fold_result (recode_window k f None) ws (out, None) = Inr (out', es)" and "length out' \<le> u64_max"
  shows "fold_result (\<lambda>window n. and_then (appheader_window_size window) (\<lambda>window_len.
      checked_add n window_len ''app-header baseline size'')) ws (length out) = Inr (length out') \<and> length out \<le> length out'"
  using assms
proof (induction ws arbitrary: out)
  case (Cons w ws)
  then obtain out1 es1 where head: "recode_window k f None w (out, None) = Inr (out1, es1)"
    and rest: "fold_result (recode_window k f None) ws (out1, es1) = Inr (out', es)"
    by (auto simp: result_iff)
  have "es1 = None" using recode_plain_window [OF head] by simp
  with rest Cons.IH Cons.prems(2) have IH: "fold_result (\<lambda>window n. and_then (appheader_window_size window) (\<lambda>window_len.
      checked_add n window_len ''app-header baseline size'')) ws (length out1) = Inr (length out') \<and> length out1 \<le> length out'"
    by blast
  with measured_window [OF head] Cons.prems(2) show ?case by fastforce
qed simp

lemma measured_size:
  assumes "recode_loaded_patch_with_xdelta_options k f parsed None (Some header) = Inr f'" and "length f' \<le> u64_max"
  shows "measure_appheader_baseline_size parsed header = Inr (length f')"
proof -
  let ?h = "recoded_header None (Some header)"
  obtain es where windows: "fold_result (recode_window k f None) (vp_windows parsed) (?h, None) = Inr (f', es)"
    using assms(1) by (auto simp: recode_loaded_patch_with_xdelta_options_def ensure_supported_secondary_compressor_def result_iff)
  have len: "length ?h = 5 + (varint_len (length header) + length header)"
    by (simp add: recoded_header_def VCDIFF_MAGIC_BYTES_def length_encode_base128)
  from measured_windows [OF windows assms(2)] have
    "fold_result (\<lambda>window n. and_then (appheader_window_size window) (\<lambda>window_len.
      checked_add n window_len ''app-header baseline size'')) (vp_windows parsed) (length ?h) = Inr (length f')"
    and "length ?h \<le> length f'" by simp_all
  then show ?thesis using assms(2) unfolding len by (simp add: measure_appheader_baseline_size_def)
qed

section \<open>Contracts of the codecs\<close>

definition section_codec :: "(bytes \<Rightarrow> bytes result) \<Rightarrow> (bytes \<Rightarrow> nat \<Rightarrow> bytes result) \<Rightarrow> bool" where
  "section_codec compress decode \<longleftrightarrow> (\<forall>s c. s \<noteq> [] \<longrightarrow> compress s = Inr c \<longrightarrow> decode c (length s) = Inr s)"

text \<open>\<open>R\<close> relates an encoder and the decoder that has read all it wrote.\<close>

definition lzma_streams :: "('e, 'd) vcd_codecs \<Rightarrow> ('e \<Rightarrow> 'd \<Rightarrow> bool) \<Rightarrow> bool" where
  "lzma_streams k R \<longleftrightarrow>
     (\<forall>e. lzma_encoder_new k = Inr e \<longrightarrow> R e (xz_reader_new k)) \<and>
     (\<forall>e d s c e'. R e d \<longrightarrow> s \<noteq> [] \<longrightarrow> lzma_sync_flush k e s = Inr (c, e') \<longrightarrow>
        (\<exists>d'. xz_read_exact k (xz_push k d c) (length s) = Inr (s, d') \<and> R e' d')) \<and>
     (\<forall>e s c e'. lzma_encoder_new k = Inr e \<longrightarrow> s \<noteq> [] \<longrightarrow> lzma_sync_flush k e s = Inr (c, e') \<longrightarrow>
        take 6 c = XZ_MAGIC_BYTES)"

definition sections_given :: "('e, 'd) vcd_codecs \<Rightarrow> bool" where
  "sections_given k \<longleftrightarrow> (\<forall>h n d i a data inst addr source v.
     ox_decode_window k (h\<lparr>oh_enc_len := n, oh_data_len := d, oh_inst_len := i, oh_addr_len := a\<rparr>) data inst addr source v =
     ox_decode_window k h data inst addr source v)"

text \<open>The contract of the one compressor a recoding uses, if it uses any.\<close>

definition secondary_contract :: "('e, 'd) vcd_codecs \<Rightarrow> u8 option \<Rightarrow> bool" where
  "secondary_contract k secondary \<longleftrightarrow> sections_given k \<and>
     (secondary = Some XDELTA_DJW_SECONDARY_ID \<longrightarrow> (\<forall>kind. section_codec (vc_djw_compress k kind) (vc_djw_decode k))) \<and>
     (secondary = Some XDELTA_FGK_SECONDARY_ID \<longrightarrow> section_codec (vc_fgk_compress k) (vc_fgk_decode k)) \<and>
     (secondary = Some XDELTA_LZMA_SECONDARY_ID \<longrightarrow> (\<exists>R. lzma_streams k R))"

text \<open>The sections a window of the baseline may have, if its LZMA sections are to be accepted.\<close>

definition sections_within_ceiling :: "window_index \<Rightarrow> bool" where
  "sections_within_ceiling w \<longleftrightarrow>
     wi_data_len w \<le> lzma_section_output_ceiling w \<and> wi_inst_len w \<le> lzma_section_output_ceiling w \<and>
     wi_addr_len w \<le> lzma_section_output_ceiling w"

section \<open>Recoding keeps what the windows decode to\<close>

lemma recode_indicator_flags:
  assumes "secondary \<noteq> None"
  shows "vcd_section_flag (recode_delta_indicator i d n a secondary) DELTA_DATA_COMP = d"
    "vcd_section_flag (recode_delta_indicator i d n a secondary) DELTA_INST_COMP = n"
    "vcd_section_flag (recode_delta_indicator i d n a secondary) DELTA_ADDR_COMP = a"
    "recode_delta_indicator i d n a secondary AND NOT DELTA_KNOWN_MASK = 0"
    "recode_delta_indicator i d n a secondary = 0 \<longleftrightarrow> \<not> d \<and> \<not> n \<and> \<not> a"
proof -
  let ?i = "recode_delta_indicator i d n a secondary"
  have i: "?i = (if d then 1 else 0) OR (if n then 2 else 0) OR (if a then 4 else 0)"
    using assms by (simp add: recode_delta_indicator_def vcd_flags del: not_None_eq)
  show "vcd_section_flag ?i DELTA_DATA_COMP = d" "vcd_section_flag ?i DELTA_INST_COMP = n"
    "vcd_section_flag ?i DELTA_ADDR_COMP = a" "?i AND NOT DELTA_KNOWN_MASK = 0" "?i = 0 \<longleftrightarrow> \<not> d \<and> \<not> n \<and> \<not> a"
    unfolding i vcd_section_flag_def by (cases d; cases n; cases a; simp add: vcd_flags)+
qed

lemma section_varint:
  assumes "length s \<le> u64_max"
  shows "decode_varint_raw (encode_base128 (length s) @ c) = Inr (length s, varint_len (length s))"
  using assms by (simp add: decode_varint_raw_def decode_encode_base128 length_encode_base128)

text \<open>A section that was written compressed or kept, and what the decoder makes of it.\<close>

lemma kept_or_coded:
  assumes "section_codec compress decode" and "length s \<le> u64_max"
    and "(if length s < XDELTA_SECONDARY_MIN_INPUT then Inr (s, False)
          else and_then (compress s) (\<lambda>compressed. let candidate = encode_base128 (length s) @ compressed
             in if xdelta_secondary_candidate_is_efficient (length s) (length candidate)
                then Inr (candidate, True) else Inr (s, False))) = Inr (c, packed)"
  shows "decode_xdelta_section_if_flag decode c packed = Inr s"
proof -
  consider (kept) "c = s" "\<not> packed"
    | (made) compressed where "s \<noteq> []" "compress s = Inr compressed" "c = encode_base128 (length s) @ compressed" "packed"
  proof (cases "length s < XDELTA_SECONDARY_MIN_INPUT")
    case True
    with assms(3) have "c = s" "\<not> packed" by auto
    then show thesis by (rule that(1))
  next
    case False
    then have "s \<noteq> []" by (auto simp: XDELTA_SECONDARY_MIN_INPUT_def)
    show thesis
    proof (cases "compress s")
      case (Inl e)
      with assms(3) False show thesis by simp
    next
      case (Inr z)
      let ?z = "encode_base128 (length s) @ z"
      have "(if xdelta_secondary_candidate_is_efficient (length s) (length ?z) then Inr (?z, True) else Inr (s, False)) =
          (Inr (c, packed) :: (bytes \<times> bool) result)"
        using assms(3) False unfolding Inr by (simp only: if_False and_then_simps Let_def)
      then consider "c = s \<and> \<not> packed" | "c = ?z \<and> packed" by (auto split: if_splits)
      then show thesis using that(1) that(2) [OF \<open>s \<noteq> []\<close> Inr] by cases simp_all
    qed
  qed
  then show ?thesis
  proof cases
    case made
    then have "decode compressed (length s) = Inr s" using assms(1) by (simp add: section_codec_def)
    with made assms(2) show ?thesis
      by (simp add: decode_xdelta_section_if_flag_def section_varint length_encode_base128 [symmetric])
  qed (simp add: decode_xdelta_section_if_flag_def)
qed

lemma recoded_djw_section:
  assumes "secondary_contract k (Some XDELTA_DJW_SECONDARY_ID)" and "length s \<le> u64_max"
    and "recode_window_section k s b (Some XDELTA_DJW_SECONDARY_ID) kind = Inr (c, packed)"
  shows "decode_xdelta_section_if_flag (vc_djw_decode k) c packed = Inr s"
  using assms kept_or_coded [of "vc_djw_compress k kind" "vc_djw_decode k" s c packed]
  by (simp add: recode_window_section_def maybe_compress_xdelta_djw_section_def secondary_contract_def)

lemma recoded_fgk_section:
  assumes "secondary_contract k (Some XDELTA_FGK_SECONDARY_ID)" and "length s \<le> u64_max"
    and "recode_window_section k s b (Some XDELTA_FGK_SECONDARY_ID) kind = Inr (c, packed)"
  shows "decode_xdelta_section_if_flag (vc_fgk_decode k) c packed = Inr s"
  using assms kept_or_coded [of "vc_fgk_compress k" "vc_fgk_decode k" s c packed]
  by (simp add: recode_window_section_def maybe_compress_xdelta_fgk_section_def secondary_contract_def
      vcd_secondary_ids)

lemma recoded_lzma_section:
  assumes "lzma_streams k R" and "R e d" and "length s \<le> u64_max" and "length s \<le> ceiling"
    and "lzma_section_encode k e s = Inr ((c, packed), e')"
  shows "\<exists>d'. decode_xdelta_lzma_section_with_state k c packed d ceiling = Inr (s, d') \<and> R e' d'"
proof (cases "length s < XDELTA_SECONDARY_MIN_INPUT")
  case True
  with assms show ?thesis by (simp add: lzma_section_encode_def decode_xdelta_lzma_section_with_state_def)
next
  case False
  then have "s \<noteq> []" by (auto simp: XDELTA_SECONDARY_MIN_INPUT_def)
  obtain z where z: "lzma_sync_flush k e s = Inr (z, e')" "c = encode_base128 (length s) @ z" "packed"
    using assms(5) False by (auto simp: lzma_section_encode_def result_iff)
  obtain d' where "xz_read_exact k (xz_push k d z) (length s) = Inr (s, d')" "R e' d'"
    using assms(1,2) \<open>s \<noteq> []\<close> z(1) unfolding lzma_streams_def by blast
  with z assms(3,4) show ?thesis
    by (simp add: decode_xdelta_lzma_section_with_state_def section_varint length_encode_base128 [symmetric]
        xz_section_decode_def)
qed

end
