(* ===== verification/Vcdiff_Properties.thy ===== *)
theory Vcdiff_Properties
  imports Vcdiff_Apply_Correct
begin

text \<open>
  What the apply operations of VCDIFF and xdelta patches promise: the output of the file apply is
  that of decoding the windows in order, on every thread budget and for every error; it has the
  declared size and, where checksums are validated, every declared window checksum; and the
  in-memory apply is the file apply with validation on.
\<close>

section \<open>The file apply\<close>

text \<open>The output of a parsed patch, without threads and without offsets.\<close>

definition uses_lzma_streams :: "parsed_vcdiff \<Rightarrow> bytes \<Rightarrow> bool result" where
  "uses_lzma_streams patch f =
     (if vp_secondary_compressor_id patch = Some XDELTA_LZMA_SECONDARY_ID
      then patch_uses_xdelta_lzma_sections (vp_windows patch) f else Inr False)"

definition vcdiff_output :: "('e, 'd) vcd_codecs \<Rightarrow> bytes \<Rightarrow> bytes \<Rightarrow> bool \<Rightarrow> parsed_vcdiff \<Rightarrow> bytes result" where
  "vcdiff_output k f input v patch =
     and_then (vcdiff_no_code_tables patch) (\<lambda>_.
     and_then (uses_lzma_streams patch f) (\<lambda>streams.
     if streams
     then and_then (fold_result (next_window (lzma_decoder k f v) input) (vp_windows patch)
            ([], (xz_reader_new k, xz_reader_new k, xz_reader_new k))) (\<lambda>(out, _). Inr out)
     else and_then (fold_result (next_window (native_decoder k f (vp_secondary_compressor_id patch) v) input)
            (vp_windows patch) ([], ())) (\<lambda>(out, _). Inr out)))"

lemma run_with_optional_pool_same:
  "\<exists>e. run_with_optional_pool ctx cap allow (\<lambda>_. r) r = and_then r (\<lambda>x. Inr (e, x))"
proof -
  obtain e pool where "build_pool ctx cap = Inr (e, pool)" using build_pool_total by blast
  then show ?thesis
    by (cases "used_parallelism (plan_threads ctx cap) \<and> allow") (auto simp: run_with_optional_pool_def)
qed

lemma file_windows:
  assumes "parse_vcdiff (file_bytes pf) = Inr patch" and "ar_patches request = [pf]"
  shows "and_then (vcdiff_apply k name ctx request) (\<lambda>(out, _). Inr out) =
    vcdiff_output k (file_bytes pf) (file_bytes (ar_input request)) (scope_target (patch_check_scopes ctx)) patch"
proof -
  let ?v = "scope_target (patch_check_scopes ctx)" and ?f = "file_bytes pf" and ?in = "file_bytes (ar_input request)"
  let ?ws = "vp_windows patch" and ?sec = "vp_secondary_compressor_id patch"
  from parse_vcdiff_windows [OF assms(1)] have ws: "consecutive 0 ?ws" by simp
  have lzma: "apply_windows_with_xdelta_lzma_sections k patch ?f ?in ?v =
      and_then (fold_result (next_window (lzma_decoder k ?f ?v) ?in) ?ws
        ([], (xz_reader_new k, xz_reader_new k, xz_reader_new k))) (\<lambda>(out, _). Inr out)"
    unfolding apply_windows_with_xdelta_lzma_sections_def apply_windows_serial_def lzma_decoder_def [symmetric]
    by (subst lzma.serial_windows) (simp_all add: ws)
  have target: "apply_windows_with_target_sources k patch ?f ?in ?v =
      and_then (fold_result (next_window (native_decoder k ?f ?sec ?v) ?in) ?ws ([], ())) (\<lambda>(out, _). Inr out)"
    unfolding apply_windows_with_target_sources_def apply_windows_serial_def native_decoder_def [symmetric]
    by (subst native.serial_windows) (simp_all add: ws)
  have parallel: "and_then (run_with_optional_pool ctx cap True (\<lambda>_. map_result (decode_window_task k ?f ?in ?sec ?v) (enumerate 0 ?ws))
        (map_result (decode_window_task k ?f ?in ?sec ?v) (enumerate 0 ?ws)))
      (\<lambda>(e, decoded). and_then (assemble_windows decoded) (\<lambda>out. Inr out)) =
      and_then (fold_result (next_window (native_decoder k ?f ?sec ?v) ?in) ?ws ([], ())) (\<lambda>(out, _). Inr out)"
    if "\<not> (\<exists>window \<in> set ?ws. wi_source_kind window = Some KindTarget)" for cap
  proof -
    let ?r = "map_result (decode_window_task k ?f ?in ?sec ?v) (enumerate 0 ?ws)"
    obtain e where "run_with_optional_pool ctx cap True (\<lambda>_. ?r) ?r = and_then ?r (\<lambda>x. Inr (e, x))"
      using run_with_optional_pool_same by blast
    then show ?thesis using parallel_windows [OF ws] that by (simp add: and_then_assoc)
  qed
  have parsed: "parse_vcdiff_file pf = Inr patch" using assms(1) by simp
  have one: "require_single_patch_file (ar_patches request) name = Inr pf"
    by (simp add: single_patch_cases assms(2))
  note unfold = vcdiff_apply_def vcdiff_output_def Let_def one parsed and_then_simps uses_lzma_streams_def [symmetric]
  show ?thesis
  proof (cases "vcdiff_no_code_tables patch")
    case (Inl e)
    then show ?thesis unfolding unfold by simp
  next
    case tables: (Inr u)
    show ?thesis
    proof (cases "uses_lzma_streams patch ?f")
      case (Inl e)
      with tables show ?thesis unfolding unfold by simp
    next
      case streams: (Inr b)
      have out: "and_then (and_then r (\<lambda>out. Inr (out, rep))) (\<lambda>(out, _). Inr out) = r"
        for r :: "bytes result" and rep :: report
        by (simp add: and_then_assoc)
      show ?thesis
        unfolding unfold tables streams
        using parallel by (simp only: out lzma target and_then_assoc and_then_simps prod.case if_True if_False split: if_split) 
          (simp add: and_then_assoc case_prod_beta')
    qed
  qed
qed

lemma vcdiff_apply_in_order:
  "and_then (vcdiff_apply k name ctx request) (\<lambda>(out, _). Inr out) =
    and_then (require_single_patch_file (ar_patches request) name) (\<lambda>pf.
    and_then (parse_vcdiff_file pf) (\<lambda>patch.
      vcdiff_output k (file_bytes pf) (file_bytes (ar_input request)) (scope_target (patch_check_scopes ctx)) patch))"
proof (cases "require_single_patch_file (ar_patches request) name")
  case (Inl e)
  then show ?thesis by (simp add: vcdiff_apply_def)
next
  case one: (Inr pf)
  then have patches: "ar_patches request = [pf]" by (simp add: single_patch_cases)
  show ?thesis
  proof (cases "parse_vcdiff_file pf")
    case (Inl e)
    with one show ?thesis by (simp add: vcdiff_apply_def)
  next
    case (Inr patch)
    then have "parse_vcdiff (file_bytes pf) = Inr patch" by simp
    from file_windows [OF this patches] show ?thesis unfolding one Inr and_then_simps .
  qed
qed

lemma vcdiff_apply_Inr:
  assumes "ar_patches request = [pf]"
  shows "(\<exists>rep. vcdiff_apply k name ctx request = Inr (out, rep)) \<longleftrightarrow>
    (\<exists>patch. parse_vcdiff (file_bytes pf) = Inr patch \<and>
      vcdiff_output k (file_bytes pf) (file_bytes (ar_input request)) (scope_target (patch_check_scopes ctx)) patch = Inr out)"
proof -
  have "(\<exists>rep. vcdiff_apply k name ctx request = Inr (out, rep)) \<longleftrightarrow>
      and_then (vcdiff_apply k name ctx request) (\<lambda>(out, _). Inr out) = Inr out"
    by (auto simp: result_iff)
  also have "\<dots> \<longleftrightarrow> (\<exists>patch. parse_vcdiff (file_bytes pf) = Inr patch \<and>
      vcdiff_output k (file_bytes pf) (file_bytes (ar_input request)) (scope_target (patch_check_scopes ctx)) patch = Inr out)"
    using assms by (simp add: vcdiff_apply_in_order require_single_patch_file_def result_iff)
  finally show ?thesis .
qed

lemma lzma_checked:
  "lzma_decoder k f True s w source = Inr (t, s') \<Longrightarrow> wi_checksum w = Some c \<Longrightarrow> vc_adler32 k t = c"
  by (auto simp: lzma_decoder_def decode_window_with_xdelta_lzma_sections_def result_iff dest: native_sections_checked)

lemma native_checked:
  "native_decoder k f secondary True s w source = Inr (t, s') \<Longrightarrow> wi_checksum w = Some c \<Longrightarrow> vc_adler32 k t = c"
  by (auto simp: native_decoder_def decode_window_with_native_engine_def result_iff dest: native_sections_checked)

lemma vcdiff_output_windows:
  assumes "vcdiff_output k f input v patch = Inr out" and ws: "consecutive 0 (vp_windows patch)"
  shows "length out = target_sizes (vp_windows patch) \<and>
    (v \<longrightarrow> (\<forall>w \<in> set (vp_windows patch). \<forall>c. wi_checksum w = Some c \<longrightarrow>
       vc_adler32 k (segment out (wi_output_offset w) (wi_target_window_size w)) = c))"
proof -
  let ?ws = "vp_windows patch"
  let ?P = "\<lambda>w t. \<forall>c. wi_checksum w = Some c \<longrightarrow> vc_adler32 k t = c"
  consider s where "fold_result (next_window (lzma_decoder k f v) input) ?ws
        ([], (xz_reader_new k, xz_reader_new k, xz_reader_new k)) = Inr (out, s)"
    | "fold_result (next_window (native_decoder k f (vp_secondary_compressor_id patch) v) input) ?ws ([], ()) = Inr (out, ())"
    using assms(1) by (auto simp: vcdiff_output_def result_iff split: if_splits)
  then show ?thesis
  proof cases
    case 1
    have "?P w (segment out (wi_output_offset w) (wi_target_window_size w))" if v and "w \<in> set ?ws" for w
      by (rule lzma.windows_hold [where out = "[]", OF _ _ 1 that(2)])
        (use lzma_checked ws that(1) in auto)
    with lzma.windows_length [OF 1] show ?thesis by auto
  next
    case 2
    have "?P w (segment out (wi_output_offset w) (wi_target_window_size w))" if v and "w \<in> set ?ws" for w
      by (rule native.windows_hold [where out = "[]", OF _ _ 2 that(2)])
        (use native_checked ws that(1) in auto)
    with native.windows_length [OF 2] show ?thesis by auto
  qed
qed

section \<open>The in-memory apply\<close>

lemma memory_window_next:
  assumes "window_in_patch f w" and "wi_output_offset w = length out"
  shows "memory_window k f secondary source w out =
    and_then (next_window (native_decoder k f secondary True) source w (out, ())) (\<lambda>(out, _). Inr out)"
proof -
  let ?pos = "wi_source_segment_position w" and ?len = "wi_source_segment_size w"
  have decode: "and_then (and_then (read_source_segment avail ?pos ?len (length avail) label)
        (\<lambda>source. and_then (native_decoder k f secondary True () w source) (\<lambda>(target, s). Inr (out @ target, s))))
        (\<lambda>(out, _). Inr out) =
      and_then (checked_add ?pos ?len ''source segment range'') (\<lambda>stop.
        if stop > length avail
        then invalid_fmt ''{} segment [{}..{}) exceeds available length {}''
               [Str label, Num ?pos, Num stop, Num (length avail)]
        else and_then (decode_window_with_native_engine k f w secondary (segment avail ?pos ?len) True)
               (\<lambda>target. Inr (out @ target)))" for avail label
    by (cases "checked_add ?pos ?len ''source segment range''")
      (auto simp: read_source_segment_def seek_read_exact_def native_decoder_def and_then_assoc result_iff)
  show ?thesis
  proof (cases "wi_source_kind w")
    case None
    with assms show ?thesis
      by (simp add: memory_window_def next_window_def window_source_def native_decoder_def window_in_patch_def
          and_then_assoc)
  next
    case (Some kind)
    with assms decode show ?thesis
      by (cases kind) (simp_all add: memory_window_def next_window_def window_source_def)
  qed
qed

lemma memory_windows:
  "consecutive (length out) ws \<Longrightarrow> \<forall>w \<in> set ws. window_in_patch f w \<Longrightarrow>
   fold_result (memory_window k f secondary source) ws out =
     and_then (fold_result (next_window (native_decoder k f secondary True) source) ws (out, ())) (\<lambda>(out, _). Inr out)"
proof (induction ws arbitrary: out)
  case (Cons w ws)
  have step: "memory_window k f secondary source w out =
      and_then (next_window (native_decoder k f secondary True) source w (out, ())) (\<lambda>(out, _). Inr out)"
    by (rule memory_window_next) (use Cons.prems in simp_all)
  show ?case
  proof (cases "next_window (native_decoder k f secondary True) source w (out, ())")
    case (Inr st)
    obtain out' where st: "st = (out', ())" by (cases st) auto
    with Inr have "length out' = length out + wi_target_window_size w"
      using native.next_window_length by fastforce
    with Cons.IH [of out'] Cons.prems step Inr st show ?thesis by simp
  qed (simp add: step)
qed simp

lemma apply_patch_bytes_in_order:
  assumes "parse_vcdiff f = Inr patch"
  shows "apply_patch_bytes k source f =
    and_then (vcdiff_no_code_tables patch) (\<lambda>_.
    and_then (uses_lzma_streams patch f) (\<lambda>streams.
    if streams then invalid ''xdelta LZMA secondary-compressed patches must be applied via the file-based handler''
    else and_then (ensure_plausible_output_len ''VCDIFF'' (target_sizes (vp_windows patch)) (length source) (length f))
           (\<lambda>_. vcdiff_output k f source True patch)))"
proof -
  from parse_vcdiff_windows [OF assms] have ws: "consecutive 0 (vp_windows patch)"
    "\<forall>w \<in> set (vp_windows patch). window_in_patch f w" by simp_all
  show ?thesis
    unfolding apply_patch_bytes_def assms and_then_simps uses_lzma_streams_def [symmetric] vcdiff_output_def
      memory_windows [of "[]" "vp_windows patch" f, simplified, OF ws]
    using ws
    by (cases "vcdiff_no_code_tables patch"; cases "uses_lzma_streams patch f")
      (simp_all add: parsed_target_size split del: if_split cong: if_cong)
qed

lemma apply_patch_bytes_file:
  assumes "ar_patches request = [pf]" and "scope_target (patch_check_scopes ctx)"
    and "vcdiff_output_size (file_bytes pf) = Inr n"
    and "n \<le> plausible_output_limit (length (file_bytes (ar_input request))) (length (file_bytes pf))"
    and "\<And>patch. parse_vcdiff (file_bytes pf) = Inr patch \<Longrightarrow> uses_lzma_streams patch (file_bytes pf) = Inr False"
  shows "apply_patch_bytes k (file_bytes (ar_input request)) (file_bytes pf) = Inr out \<longleftrightarrow>
    (\<exists>rep. vcdiff_apply k name ctx request = Inr (out, rep))"
proof -
  let ?f = "file_bytes pf" and ?in = "file_bytes (ar_input request)"
  obtain patch where patch: "parse_vcdiff ?f = Inr patch" and n: "vcd_target_size (vp_windows patch) = Inr n"
    using assms(3) by (auto simp: vcdiff_output_size_def result_iff)
  have "n = target_sizes (vp_windows patch)"
    using n parse_vcdiff_windows [OF patch] parsed_target_size by fastforce
  then have "apply_patch_bytes k ?in ?f = Inr out \<longleftrightarrow> vcdiff_output k ?f ?in True patch = Inr out"
    using assms(4,5) patch
    by (cases "vcdiff_no_code_tables patch")
      (simp_all add: apply_patch_bytes_in_order ensure_plausible_output_len_def vcdiff_output_def)
  with assms(2) patch show ?thesis by (simp add: vcdiff_apply_Inr [OF assms(1)])
qed

end
