(* ===== verification/Vcdiff_Recode_Preserves.thy ===== *)
theory Vcdiff_Recode_Preserves
  imports Vcdiff_Recode_Properties Vcdiff_Properties
begin

text \<open>
  Recoding keeps the output: a patch rewritten from an uncompressed baseline parses to the same
  windows, and every one of them decodes to what the baseline's window decodes to.
\<close>

section \<open>The same window with other sections\<close>

lemma represents_window:
  assumes "window_represents f (w, indicator, n, sec) w'"
  shows "read_raw_sections f w' = Inr sec \<and> wi_delta_indicator w' = indicator \<and>
    wi_source_kind w' = wi_source_kind w \<and> wi_source_segment_size w' = wi_source_segment_size w \<and>
    wi_source_segment_position w' = wi_source_segment_position w \<and>
    wi_target_window_size w' = wi_target_window_size w \<and> wi_checksum w' = wi_checksum w \<and>
    wi_output_offset w' = wi_output_offset w"
  using assms by (cases sec) (auto simp: window_represents_def placed_window_def)

lemma represented_sections:
  assumes "window_represents f (w, indicator, n, sec) w'" and "sections_given k"
  shows "decode_native_window_sections k w' = decode_native_window_sections k w"
proof (intro ext)
  fix s source v
  have same: "wi_source_kind w' = wi_source_kind w" "wi_source_segment_size w' = wi_source_segment_size w"
      "wi_target_window_size w' = wi_target_window_size w" "wi_checksum w' = wi_checksum w"
      "wi_output_offset w' = wi_output_offset w"
    using represents_window [OF assms(1)] by simp_all
  let ?len = "if wi_source_kind w \<noteq> None then wi_source_segment_size w else 0"
  have "build_native_window_header k w' ?len = (build_native_window_header k w ?len)
      \<lparr>oh_enc_len := oh_enc_len (build_native_window_header k w' ?len), oh_data_len := wi_data_len w',
       oh_inst_len := wi_inst_len w', oh_addr_len := wi_addr_len w'\<rparr>"
    unfolding build_native_window_header_def Let_def same by simp
  then have "ox_decode_window k (build_native_window_header k w' ?len) data inst addr source v =
      ox_decode_window k (build_native_window_header k w ?len) data inst addr source v" for data inst addr
    using assms(2) unfolding sections_given_def by metis
  then show "decode_native_window_sections k w' s source v = decode_native_window_sections k w s source v"
    unfolding decode_native_window_sections_def Let_def same by (simp split: prod.split)
qed

lemma represented_source: "window_represents f (w, indicator, n, sec) w' \<Longrightarrow> window_source input w' = window_source input w"
proof (intro ext)
  fix out
  assume "window_represents f (w, indicator, n, sec) w'"
  then have same: "wi_source_kind w' = wi_source_kind w" "wi_source_segment_size w' = wi_source_segment_size w"
      "wi_source_segment_position w' = wi_source_segment_position w"
    using represents_window by blast+
  show "window_source input w' out = window_source input w out" unfolding window_source_def same ..
qed

text \<open>The reference of an uncompressed window decodes its sections as they are.\<close>

lemma plain_native:
  assumes "wi_delta_indicator w = 0" and "read_raw_sections f w = Inr sec"
  shows "decode_window_with_native_engine k f w secondary source v = decode_native_window_sections k w sec source v"
  using assms by (cases sec) (simp add: decode_window_with_native_engine_def read_window_sections_def Let_def)

section \<open>Sections compressed one by one\<close>

text \<open>A written window, and what its sections decode to without a stream.\<close>

definition decodes_alone :: "('e, 'd) vcd_codecs \<Rightarrow> u8 option \<Rightarrow> written_window \<Rightarrow> sections \<Rightarrow> bool" where
  "decodes_alone k secondary x sec \<longleftrightarrow>
     (\<forall>f w'. window_represents f x w' \<longrightarrow> read_window_sections k f w' secondary = Inr sec)"

lemma raw_sections_fit:
  assumes "read_raw_sections f w = Inr (data, inst, addr)" and "window_in_patch f w"
  shows "length data \<le> u64_max" "length inst \<le> u64_max" "length addr \<le> u64_max"
  using raw_sections_length [OF assms(1)] assms(2) by (simp_all add: window_in_patch_def)

lemma window_in_patch_numbers: "window_in_patch f w \<Longrightarrow> window_numbers w"
  by (simp add: window_in_patch_def window_numbers_def)

lemma recoded_alone:
  assumes "recode_window k f (Some m) w (out, None) = Inr (out', es)"
    and m: "m = XDELTA_DJW_SECONDARY_ID \<or> m = XDELTA_FGK_SECONDARY_ID"
    and k: "secondary_contract k (Some m)" and w: "window_in_patch f w"
  shows "es = None \<and> (\<exists>indicator n sec sec0. out' = out @ window_record w indicator n sec \<and>
    written_ok (w, indicator, n, sec) \<and> read_raw_sections f w = Inr sec0 \<and>
    decodes_alone k (Some m) (w, indicator, n, sec) sec0)"
proof -
  let ?i = "wi_delta_indicator w"
  obtain data inst addr where raw: "read_raw_sections f w = Inr (data, inst, addr)"
    using section_in_patch [OF w] by blast
  note fit = raw_sections_fit [OF raw w]
  obtain d dc i ic a ac n where parts: "recode_window_section k data (?i AND DELTA_DATA_COMP \<noteq> 0) (Some m) DjwData = Inr (d, dc)"
      "recode_window_section k inst (?i AND DELTA_INST_COMP \<noteq> 0) (Some m) DjwInst = Inr (i, ic)"
      "recode_window_section k addr (?i AND DELTA_ADDR_COMP \<noteq> 0) (Some m) DjwAddr = Inr (a, ac)"
    and n: "recoded_delta_len w (length d) (length i) (length a) = Inr n" and es: "es = None"
    and out': "out' = out @ window_record w (recode_delta_indicator ?i dc ic ac (Some m)) n (d, i, a)"
    using assms(1) raw by (auto simp: recode_window_def recode_sections_def Let_def result_iff)
  let ?ind = "recode_delta_indicator ?i dc ic ac (Some m)"
  let ?dec = "if m = XDELTA_DJW_SECONDARY_ID then vc_djw_decode k else vc_fgk_decode k"
  have decoded: "decode_xdelta_section_if_flag ?dec d dc = Inr data"
      "decode_xdelta_section_if_flag ?dec i ic = Inr inst" "decode_xdelta_section_if_flag ?dec a ac = Inr addr"
    using m k parts fit recoded_djw_section [of k] recoded_fgk_section [of k]
    by (auto simp: vcd_secondary_ids)
  have flags: "vcd_section_flag ?ind DELTA_DATA_COMP = dc" "vcd_section_flag ?ind DELTA_INST_COMP = ic"
    "vcd_section_flag ?ind DELTA_ADDR_COMP = ac" "?ind AND NOT DELTA_KNOWN_MASK = 0"
    "?ind = 0 \<longleftrightarrow> \<not> dc \<and> \<not> ic \<and> \<not> ac"
    by (rule recode_indicator_flags, simp)+
  have "decodes_alone k (Some m) (w, ?ind, n, d, i, a) (data, inst, addr)"
    unfolding decodes_alone_def
  proof (intro allI impI)
    fix g w'
    assume "window_represents g (w, ?ind, n, d, i, a) w'"
    from represents_window [OF this] have read: "read_raw_sections g w' = Inr (d, i, a)" "wi_delta_indicator w' = ?ind"
      by simp_all
    have "try_decode_xdelta_sections ?dec (d, i, a) ?ind = Inr (data, inst, addr)"
      by (simp add: try_decode_xdelta_sections_def flags decoded)
    moreover have "(d, i, a) = (data, inst, addr)" if "?ind = 0"
      using that decoded flags(5) by (simp add: decode_xdelta_section_if_flag_def)
    ultimately show "read_window_sections k g w' (Some m) = Inr (data, inst, addr)"
      using m by (auto simp: read_window_sections_def read Let_def vcd_secondary_ids)
  qed
  moreover have "written_ok (w, ?ind, n, d, i, a)"
    using n flags(4) window_in_patch_numbers [OF w] by (simp add: written_ok_def)
  ultimately show ?thesis using es out' raw by blast
qed

lemma recoded_plain:
  assumes "recode_window k f None w (out, None) = Inr (out', es)" and "wi_delta_indicator w = 0"
    and w: "window_in_patch f w"
  shows "es = None \<and> (\<exists>indicator n sec sec0. out' = out @ window_record w indicator n sec \<and> indicator = 0 \<and>
    written_ok (w, indicator, n, sec) \<and> read_raw_sections f w = Inr sec0 \<and>
    decodes_alone k None (w, indicator, n, sec) sec0)"
proof -
  obtain data inst addr n where raw: "read_raw_sections f w = Inr (data, inst, addr)" and es: "es = None"
    and n: "recoded_delta_len w (length data) (length inst) (length addr) = Inr n"
    and out': "out' = out @ window_record w (wi_delta_indicator w) n (data, inst, addr)"
    using recode_plain_window [OF assms(1)] by blast
  have "decodes_alone k None (w, 0, n, data, inst, addr) (data, inst, addr)"
    by (auto simp: decodes_alone_def read_window_sections_def dest!: represents_window)
  then show ?thesis
    using es out' raw n window_in_patch_numbers [OF w] assms(2) by (force simp: written_ok_def)
qed

lemma recoded_windows_alone:
  assumes "secondary \<in> {None, Some XDELTA_DJW_SECONDARY_ID, Some XDELTA_FGK_SECONDARY_ID}"
    and "secondary_contract k secondary"
  shows "fold_result (recode_window k f secondary) ws (out, None) = Inr (out', es) \<Longrightarrow>
    \<forall>w \<in> set ws. window_in_patch f w \<and> wi_delta_indicator w = 0 \<Longrightarrow>
    \<exists>xs. out' = out @ concat (map written_bytes xs) \<and> map fst xs = ws \<and>
      (\<forall>x \<in> set xs. written_ok x \<and> (secondary = None \<longrightarrow> fst (snd x) = 0) \<and>
         (\<exists>sec0. read_raw_sections f (fst x) = Inr sec0 \<and> decodes_alone k secondary x sec0))"
proof (induction ws arbitrary: out)
  case Nil
  then show ?case by (intro exI [of _ "[]"]) simp
next
  case (Cons w ws)
  then obtain out1 es1 where head: "recode_window k f secondary w (out, None) = Inr (out1, es1)"
    and rest: "fold_result (recode_window k f secondary) ws (out1, es1) = Inr (out', es)"
    by (auto simp: result_iff)
  have w: "window_in_patch f w" "wi_delta_indicator w = 0" using Cons.prems(2) by simp_all
  have "es1 = None \<and> (\<exists>indicator n sec sec0. out1 = out @ window_record w indicator n sec \<and>
      (secondary = None \<longrightarrow> indicator = 0) \<and> written_ok (w, indicator, n, sec) \<and>
      read_raw_sections f w = Inr sec0 \<and> decodes_alone k secondary (w, indicator, n, sec) sec0)"
  proof (cases secondary)
    case None
    with recoded_plain [OF head [unfolded None] w(2,1)] show ?thesis by blast
  next
    case (Some m)
    with assms(1) have "m = XDELTA_DJW_SECONDARY_ID \<or> m = XDELTA_FGK_SECONDARY_ID" by auto
    from recoded_alone [OF head [unfolded Some] this assms(2) [unfolded Some] w(1)] Some show ?thesis by blast
  qed
  then obtain indicator n sec sec0 where es1: "es1 = None" and out1: "out1 = out @ window_record w indicator n sec"
    and x: "secondary = None \<longrightarrow> indicator = 0" "written_ok (w, indicator, n, sec)"
      "read_raw_sections f w = Inr sec0" "decodes_alone k secondary (w, indicator, n, sec) sec0"
    by blast
  from Cons.IH [OF rest [unfolded es1]] Cons.prems(2) obtain xs where
    "out' = out1 @ concat (map written_bytes xs)" "map fst xs = ws"
    "\<forall>x \<in> set xs. written_ok x \<and> (secondary = None \<longrightarrow> fst (snd x) = 0) \<and>
       (\<exists>sec0. read_raw_sections f (fst x) = Inr sec0 \<and> decodes_alone k secondary x sec0)"
    by auto
  with x out1 show ?case by (intro exI [of _ "(w, indicator, n, sec) # xs"]) (auto simp del: split_paired_Ex)
qed

lemma alone_next:
  assumes "window_represents g x w'" and "decodes_alone k secondary x sec0" and "sections_given k"
    and "read_raw_sections f (fst x) = Inr sec0" and "wi_delta_indicator (fst x) = 0"
  shows "next_window (native_decoder k g secondary v) input w' = next_window (native_decoder k f None v) input (fst x)"
proof -
  obtain w indicator n sec where x: "x = (w, indicator, n, sec)" by (cases x)
  note rep = assms(1) [unfolded x]
  have raw: "read_raw_sections f w = Inr sec0" "wi_delta_indicator w = 0" using assms(4,5) by (simp_all add: x)
  have "read_window_sections k g w' secondary = Inr sec0"
    using assms(1,2) by (simp add: decodes_alone_def)
  then have "native_decoder k g secondary v s w' source = native_decoder k f None v s w source" for s source
    using raw by (simp add: native_decoder_def plain_native decode_window_with_native_engine_def [of k g]
        represented_sections [OF rep assms(3)])
  then show ?thesis
    by (intro ext) (simp add: next_window_def x represented_source [OF rep])
qed

lemma fold_next_same:
  "list_all2 (\<lambda>x w'. next_window d' input w' = next_window d input (fst x)) xs ws' \<Longrightarrow>
   fold_result (next_window d' input) ws' st = fold_result (next_window d input) (map fst xs) st"
proof (induction arbitrary: st rule: list_all2_induct)
  case (Cons x xs w' ws')
  have "fold_result (next_window d' input) ws' = fold_result (next_window d input) (map fst xs)"
    by (rule ext) (rule Cons.IH)
  with Cons.hyps show ?case by simp
qed simp

section \<open>Sections compressed along streams\<close>

definition synced :: "('e \<Rightarrow> 'd \<Rightarrow> bool) \<Rightarrow> 'e lzma_encoders \<Rightarrow> 'd lzma_decoders \<Rightarrow> bool" where
  "synced R es ds \<longleftrightarrow> (case (es, ds) of ((e1, e2, e3), (d1, d2, d3)) \<Rightarrow> R e1 d1 \<and> R e2 d2 \<and> R e3 d3)"

text \<open>Where the first compressed section of a window starts a stream.\<close>

definition starts_stream :: "bytes \<Rightarrow> window_index \<Rightarrow> bool" where
  "starts_stream f w \<longleftrightarrow> (\<exists>start len more_extents s. filter fst (window_section_extents w) = (True, start, len) # more_extents \<and>
     read_section f start len = Inr s \<and> xdelta_lzma_section_has_stream_header s)"

lemma lzma_section_kept:
  assumes "lzma_section_encode k e s = Inr ((c, packed), e')" and "\<not> packed"
  shows "c = s \<and> e' = e"
  using assms by (auto simp: lzma_section_encode_def result_iff split: if_splits)

lemma lzma_section_header:
  assumes "lzma_streams k R" and "lzma_encoder_new k = Inr e" and "length s \<le> u64_max"
    and "lzma_section_encode k e s = Inr ((c, packed), e')" and "packed"
  shows "xdelta_lzma_section_has_stream_header c"
proof -
  have "s \<noteq> []" using assms(4,5) by (auto simp: lzma_section_encode_def XDELTA_SECONDARY_MIN_INPUT_def)
  obtain z where z: "lzma_sync_flush k e s = Inr (z, e')" "c = encode_base128 (length s) @ z"
    using assms(4,5) by (auto simp: lzma_section_encode_def result_iff split: if_splits)
  have "take 6 z = XZ_MAGIC_BYTES" using assms(1,2) \<open>s \<noteq> []\<close> z(1) unfolding lzma_streams_def by blast
  with z(2) assms(3) show ?thesis
    by (simp add: xdelta_lzma_section_has_stream_header_def section_varint length_encode_base128 [symmetric])
qed

lemma lzma_ceiling_same:
  "window_represents g (w, indicator, n, sec) w' \<Longrightarrow> lzma_section_output_ceiling w' = lzma_section_output_ceiling w"
  using represents_window [of g w indicator n sec w'] by (simp add: lzma_section_output_ceiling_def)

text \<open>What one window of the recoder promises of its streams.\<close>

definition decodes_along :: "('e, 'd) vcd_codecs \<Rightarrow> ('e \<Rightarrow> 'd \<Rightarrow> bool) \<Rightarrow> 'e lzma_encoders \<Rightarrow> written_window \<Rightarrow>
    sections \<Rightarrow> 'e lzma_encoders \<Rightarrow> bool" where
  "decodes_along k R es x sec0 es' \<longleftrightarrow>
     (\<forall>ds. synced R es ds \<longrightarrow> (\<exists>ds'. synced R es' ds' \<and>
        (\<forall>g w'. window_represents g x w' \<longrightarrow>
           and_then (read_raw_sections g w') (\<lambda>sec. if wi_delta_indicator w' = 0 then Inr (sec, ds)
             else lzma_decode_sections k ds sec (wi_delta_indicator w') (lzma_section_output_ceiling w')) = Inr (sec0, ds')))) \<and>
     (fst (snd x) = 0 \<longrightarrow> es' = es \<and> decodes_alone k (Some XDELTA_LZMA_SECONDARY_ID) x sec0) \<and>
     (fst (snd x) \<noteq> 0 \<and> lzma_encoders_new k = Inr es \<longrightarrow> (\<forall>g w'. window_represents g x w' \<longrightarrow> starts_stream g w'))"

lemma recoded_along:
  assumes "recode_window k f (Some XDELTA_LZMA_SECONDARY_ID) w (out, Some es) = Inr (out', es')"
    and R: "lzma_streams k R" and w: "window_in_patch f w" and ceiling: "sections_within_ceiling w"
  shows "\<exists>indicator n sec sec0 es1. out' = out @ window_record w indicator n sec \<and> es' = Some es1 \<and>
    written_ok (w, indicator, n, sec) \<and> read_raw_sections f w = Inr sec0 \<and>
    decodes_along k R es (w, indicator, n, sec) sec0 es1"
proof -
  let ?i = "wi_delta_indicator w" and ?id = "Some XDELTA_LZMA_SECONDARY_ID"
  obtain e1 e2 e3 where es: "es = (e1, e2, e3)" by (cases es)
  obtain data inst addr where raw: "read_raw_sections f w = Inr (data, inst, addr)"
    using section_in_patch [OF w] by blast
  note fit = raw_sections_fit [OF raw w]
  have below: "length data \<le> lzma_section_output_ceiling w" "length inst \<le> lzma_section_output_ceiling w"
      "length addr \<le> lzma_section_output_ceiling w"
    using raw_sections_length [OF raw] ceiling by (simp_all add: sections_within_ceiling_def)
  obtain d dc i ic a ac n f1 f2 f3 where parts: "lzma_section_encode k e1 data = Inr ((d, dc), f1)"
      "lzma_section_encode k e2 inst = Inr ((i, ic), f2)" "lzma_section_encode k e3 addr = Inr ((a, ac), f3)"
    and n: "recoded_delta_len w (length d) (length i) (length a) = Inr n" and es': "es' = Some (f1, f2, f3)"
    and out': "out' = out @ window_record w (recode_delta_indicator ?i dc ic ac ?id) n (d, i, a)"
    using assms(1) raw by (auto simp: recode_window_def recode_sections_def Let_def result_iff es)
  let ?ind = "recode_delta_indicator ?i dc ic ac ?id"
  have flags: "vcd_section_flag ?ind DELTA_DATA_COMP = dc" "vcd_section_flag ?ind DELTA_INST_COMP = ic"
    "vcd_section_flag ?ind DELTA_ADDR_COMP = ac" "?ind AND NOT DELTA_KNOWN_MASK = 0"
    "?ind = 0 \<longleftrightarrow> \<not> dc \<and> \<not> ic \<and> \<not> ac"
    by (rule recode_indicator_flags, simp)+
  let ?x = "(w, ?ind, n, d, i, a)"
  have kept: "(d, i, a) = (data, inst, addr) \<and> (f1, f2, f3) = (e1, e2, e3)" if "?ind = 0"
    using that flags(5) lzma_section_kept [OF parts(1)] lzma_section_kept [OF parts(2)] lzma_section_kept [OF parts(3)]
    by simp
  have "\<exists>ds'. synced R (f1, f2, f3) ds' \<and> (\<forall>g w'. window_represents g ?x w' \<longrightarrow>
      and_then (read_raw_sections g w') (\<lambda>sec. if wi_delta_indicator w' = 0 then Inr (sec, ds)
        else lzma_decode_sections k ds sec (wi_delta_indicator w') (lzma_section_output_ceiling w')) =
      Inr ((data, inst, addr), ds'))" if "synced R es ds" for ds
  proof -
    obtain d1 d2 d3 where ds: "ds = (d1, d2, d3)" by (cases ds)
    with that es have sync: "R e1 d1" "R e2 d2" "R e3 d3" by (simp_all add: synced_def)
    from recoded_lzma_section [OF R sync(1) fit(1) below(1) parts(1)]
      recoded_lzma_section [OF R sync(2) fit(2) below(2) parts(2)]
      recoded_lzma_section [OF R sync(3) fit(3) below(3) parts(3)]
    obtain g1 g2 g3 where dec: "decode_xdelta_lzma_section_with_state k d dc d1 (lzma_section_output_ceiling w) = Inr (data, g1)"
        "decode_xdelta_lzma_section_with_state k i ic d2 (lzma_section_output_ceiling w) = Inr (inst, g2)"
        "decode_xdelta_lzma_section_with_state k a ac d3 (lzma_section_output_ceiling w) = Inr (addr, g3)"
      and sync': "R f1 g1" "R f2 g2" "R f3 g3" by blast
    have whole: "lzma_decode_sections k ds (d, i, a) ?ind (lzma_section_output_ceiling w) = Inr ((data, inst, addr), (g1, g2, g3))"
      by (simp add: lzma_decode_sections_def ds flags dec)
    have zero: "ds = (g1, g2, g3) \<and> (d, i, a) = (data, inst, addr)" if "?ind = 0"
      using that flags(5) dec ds by (simp add: decode_xdelta_lzma_section_with_state_def)
    show ?thesis
    proof (intro exI [of _ "(g1, g2, g3)"] conjI allI impI)
      show "synced R (f1, f2, f3) (g1, g2, g3)" using sync' by (simp add: synced_def)
    next
      fix g w'
      assume rep: "window_represents g ?x w'"
      from represents_window [OF rep] have read: "read_raw_sections g w' = Inr (d, i, a)" "wi_delta_indicator w' = ?ind"
        by simp_all
      show "and_then (read_raw_sections g w') (\<lambda>sec. if wi_delta_indicator w' = 0 then Inr (sec, ds)
          else lzma_decode_sections k ds sec (wi_delta_indicator w') (lzma_section_output_ceiling w')) =
        Inr ((data, inst, addr), (g1, g2, g3))"
        using whole zero by (simp add: read lzma_ceiling_same [OF rep])
    qed
  qed
  moreover have "decodes_alone k ?id ?x (data, inst, addr)" if "?ind = 0"
    using kept [OF that] that by (auto simp: decodes_alone_def read_window_sections_def dest!: represents_window)
  moreover have "starts_stream g w'" if "?ind \<noteq> 0" and "lzma_encoders_new k = Inr es" and "window_represents g ?x w'" for g w'
  proof -
    from that(2) es have new: "lzma_encoder_new k = Inr e1" "lzma_encoder_new k = Inr e2" "lzma_encoder_new k = Inr e3"
      by (auto simp: lzma_encoders_new_def result_iff)
    from represents_window [OF that(3)] have ind: "wi_delta_indicator w' = ?ind"
      and read: "read_raw_sections g w' = Inr (d, i, a)" by simp_all
    from read have secs: "read_section g (wi_data_start w') (wi_data_len w') = Inr d"
        "read_section g (wi_inst_start w') (wi_inst_len w') = Inr i"
        "read_section g (wi_addr_start w') (wi_addr_len w') = Inr a"
      by (auto simp: read_raw_sections_def result_iff)
    have heads: "dc \<Longrightarrow> xdelta_lzma_section_has_stream_header d" "ic \<Longrightarrow> xdelta_lzma_section_has_stream_header i"
        "ac \<Longrightarrow> xdelta_lzma_section_has_stream_header a"
      using lzma_section_header [OF R new(1) fit(1) parts(1)] lzma_section_header [OF R new(2) fit(2) parts(2)]
        lzma_section_header [OF R new(3) fit(3) parts(3)] by blast+
    have "window_section_extents w' = [(dc, wi_data_start w', wi_data_len w'), (ic, wi_inst_start w', wi_inst_len w'),
        (ac, wi_addr_start w', wi_addr_len w')]"
      by (simp add: window_section_extents_def ind flags)
    moreover have "dc \<or> ic \<or> ac" using that(1) flags(5) by simp
    ultimately show ?thesis
      using heads secs by (cases dc; cases ic; cases ac) (simp_all add: starts_stream_def)
  qed
  moreover have "written_ok ?x" using n flags(4) window_in_patch_numbers [OF w] by (simp add: written_ok_def)
  ultimately show ?thesis
    using kept raw out' es' es
    by (intro exI [of _ ?ind] exI [of _ n] exI [of _ "(d, i, a)"] exI [of _ "(data, inst, addr)"] exI [of _ "(f1, f2, f3)"])
      (simp add: decodes_along_def)
qed

text \<open>A whole patch along its streams, and the probe of the apply for them.\<close>

definition plays_back :: "('e, 'd) vcd_codecs \<Rightarrow> ('e \<Rightarrow> 'd \<Rightarrow> bool) \<Rightarrow> bytes \<Rightarrow> 'e lzma_encoders \<Rightarrow>
    written_window list \<Rightarrow> bool" where
  "plays_back k R f es xs \<longleftrightarrow> (\<forall>g ws'. list_all2 (window_represents g) xs ws' \<longrightarrow>
     (\<forall>ds input v out. synced R es ds \<longrightarrow>
        and_then (fold_result (next_window (lzma_decoder k g v) input) ws' (out, ds)) (\<lambda>(out, _). Inr out) =
        and_then (fold_result (next_window (native_decoder k f None v) input) (map fst xs) (out, ()))
          (\<lambda>(out, _). Inr out)))"

definition probes_right :: "('e, 'd) vcd_codecs \<Rightarrow> bytes \<Rightarrow> written_window list \<Rightarrow> bool" where
  "probes_right k f xs \<longleftrightarrow> (\<forall>g ws'. list_all2 (window_represents g) xs ws' \<longrightarrow>
     (\<exists>b. patch_uses_xdelta_lzma_sections ws' g = Inr b \<and> (\<not> b \<longrightarrow> (\<forall>x \<in> set xs. \<exists>sec0.
        read_raw_sections f (fst x) = Inr sec0 \<and> decodes_alone k (Some XDELTA_LZMA_SECONDARY_ID) x sec0))))"

lemma plays_back_Cons:
  assumes "decodes_along k R es x sec0 es1" and "read_raw_sections f (fst x) = Inr sec0"
    and "wi_delta_indicator (fst x) = 0" and "sections_given k" and "plays_back k R f es1 xs"
  shows "plays_back k R f es (x # xs)"
  unfolding plays_back_def
proof (intro allI impI)
  fix g ws' ds input v out
  assume rep: "list_all2 (window_represents g) (x # xs) ws'" and sync: "synced R es ds"
  obtain w indicator n sec where x: "x = (w, indicator, n, sec)" by (cases x)
  obtain w' vs where ws': "ws' = w' # vs" "window_represents g x w'" "list_all2 (window_represents g) xs vs"
    using rep by (auto simp: list_all2_Cons1)
  note rep' = ws'(2) [unfolded x]
  obtain ds' where sync': "synced R es1 ds'" and
    decoded: "and_then (read_raw_sections g w') (\<lambda>sec. if wi_delta_indicator w' = 0 then Inr (sec, ds)
       else lzma_decode_sections k ds sec (wi_delta_indicator w') (lzma_section_output_ceiling w')) = Inr (sec0, ds')"
    using assms(1) sync ws'(2) unfolding decodes_along_def by blast
  have raw: "read_raw_sections f w = Inr sec0" "wi_delta_indicator w = 0" using assms(2,3) by (simp_all add: x)
  have lzma: "lzma_decoder k g v ds w' source =
      and_then (decode_native_window_sections k w sec0 source v) (\<lambda>t. Inr (t, ds'))" for source
    using decoded
    by (cases "read_raw_sections g w'")
      (simp_all add: lzma_decoder_def decode_window_with_xdelta_lzma_sections_def represented_sections [OF rep' assms(4)])
  have native: "native_decoder k f None v s w source =
      and_then (decode_native_window_sections k w sec0 source v) (\<lambda>t. Inr (t, ()))" for s source
    using raw by (simp add: native_decoder_def plain_native)
  have IH: "and_then (fold_result (next_window (lzma_decoder k g v) input) vs (u, ds')) (\<lambda>(out, _). Inr out) =
      and_then (fold_result (next_window (native_decoder k f None v) input) (map fst xs) (u, ())) (\<lambda>(out, _). Inr out)" for u
    using assms(5) ws'(3) sync' unfolding plays_back_def by blast
  show "and_then (fold_result (next_window (lzma_decoder k g v) input) ws' (out, ds)) (\<lambda>(out, _). Inr out) =
      and_then (fold_result (next_window (native_decoder k f None v) input) (map fst (x # xs)) (out, ())) (\<lambda>(out, _). Inr out)"
    by (simp add: ws'(1) x next_window_def [of _ _ w] next_window_def [of _ _ w'] lzma native
        represented_source [OF rep'] and_then_assoc IH)
qed

lemma probes_right_start:
  assumes "starts_stream g w"
  shows "patch_uses_xdelta_lzma_sections (w # ws) g = Inr True"
  using assms by (auto simp: starts_stream_def patch_uses_xdelta_lzma_sections_def)

lemma probes_right_skip:
  assumes "wi_delta_indicator w = 0"
  shows "patch_uses_xdelta_lzma_sections (w # ws) g = patch_uses_xdelta_lzma_sections ws g"
proof -
  have "filter fst (window_section_extents w) = []"
    using assms by (simp add: window_section_extents_def vcd_section_flag_def)
  then show ?thesis by (simp add: patch_uses_xdelta_lzma_sections_def)
qed

lemma probes_right_Cons:
  assumes "decodes_along k R es x sec0 es1" and "read_raw_sections f (fst x) = Inr sec0"
    and "lzma_encoders_new k = Inr es" and "lzma_encoders_new k = Inr es1 \<Longrightarrow> probes_right k f xs"
  shows "probes_right k f (x # xs)"
  unfolding probes_right_def
proof (intro allI impI)
  fix g ws'
  assume rep: "list_all2 (window_represents g) (x # xs) ws'"
  obtain w indicator n sec where x: "x = (w, indicator, n, sec)" by (cases x)
  obtain w' vs where ws': "ws' = w' # vs" "window_represents g x w'" "list_all2 (window_represents g) xs vs"
    using rep by (auto simp: list_all2_Cons1)
  show "\<exists>b. patch_uses_xdelta_lzma_sections ws' g = Inr b \<and> (\<not> b \<longrightarrow> (\<forall>x \<in> set (x # xs). \<exists>sec0.
      read_raw_sections f (fst x) = Inr sec0 \<and> decodes_alone k (Some XDELTA_LZMA_SECONDARY_ID) x sec0))"
  proof (cases "indicator = 0")
    case True
    then have alone: "es1 = es" "decodes_alone k (Some XDELTA_LZMA_SECONDARY_ID) x sec0"
      using assms(1) by (simp_all add: decodes_along_def x)
    have "wi_delta_indicator w' = 0" using represents_window [OF ws'(2) [unfolded x]] True by simp
    with probes_right_skip [OF this, of vs g] ws' assms(2,3,4) alone show ?thesis
      unfolding probes_right_def by (simp del: split_paired_Ex)
  next
    case False
    then have "starts_stream g w'" using assms(1,3) ws'(2) by (simp add: decodes_along_def x)
    with probes_right_start ws'(1) show ?thesis by blast
  qed
qed

lemma recoded_windows_along:
  assumes R: "lzma_streams k R" and "sections_given k"
  shows "fold_result (recode_window k f (Some XDELTA_LZMA_SECONDARY_ID)) ws (out, Some es) = Inr (out', es') \<Longrightarrow>
    \<forall>w \<in> set ws. window_in_patch f w \<and> sections_within_ceiling w \<and> wi_delta_indicator w = 0 \<Longrightarrow>
    \<exists>xs. out' = out @ concat (map written_bytes xs) \<and> map fst xs = ws \<and> (\<forall>x \<in> set xs. written_ok x) \<and>
      plays_back k R f es xs \<and> (lzma_encoders_new k = Inr es \<longrightarrow> probes_right k f xs)"
proof (induction ws arbitrary: out es)
  case Nil
  moreover have "probes_right k f []"
    unfolding probes_right_def by (intro allI impI exI [of _ False]) (simp add: patch_uses_xdelta_lzma_sections_def)
  ultimately show ?case by (intro exI [of _ "[]"]) (simp add: plays_back_def)
next
  case (Cons w ws)
  then obtain out1 st1 where head: "recode_window k f (Some XDELTA_LZMA_SECONDARY_ID) w (out, Some es) = Inr (out1, st1)"
    and rest: "fold_result (recode_window k f (Some XDELTA_LZMA_SECONDARY_ID)) ws (out1, st1) = Inr (out', es')"
    by (auto simp: result_iff simp del: split_paired_Ex)
  have w: "window_in_patch f w" "sections_within_ceiling w" "wi_delta_indicator w = 0" using Cons.prems(2) by simp_all
  from recoded_along [OF head R w(1,2)] obtain indicator n sec sec0 es1 where
    out1: "out1 = out @ window_record w indicator n sec" and st1: "st1 = Some es1"
    and ok: "written_ok (w, indicator, n, sec)" and raw: "read_raw_sections f w = Inr sec0"
    and along: "decodes_along k R es (w, indicator, n, sec) sec0 es1" by blast
  from Cons.IH [OF rest [unfolded st1]] Cons.prems(2) obtain xs where xs: "out' = out1 @ concat (map written_bytes xs)"
    "map fst xs = ws" "\<forall>x \<in> set xs. written_ok x" "plays_back k R f es1 xs"
    "lzma_encoders_new k = Inr es1 \<longrightarrow> probes_right k f xs"
    by auto
  let ?x = "(w, indicator, n, sec)"
  have "plays_back k R f es (?x # xs)"
    by (rule plays_back_Cons [OF along]) (use raw w(3) assms(2) xs(4) in simp_all)
  moreover have "probes_right k f (?x # xs)" if "lzma_encoders_new k = Inr es"
    by (rule probes_right_Cons [OF along]) (use raw that xs(5) in simp_all)
  ultimately show ?case using out1 ok xs(1-3) by (intro exI [of _ "?x # xs"]) simp
qed

section \<open>Recoded patches\<close>

lemma recode_xdelta_preserves:
  assumes base: "parse_vcdiff f = Inr patch" "vp_secondary_compressor_id patch = None" "vp_custom_code_table patch = None"
    and recode: "recode_loaded_patch_with_xdelta_options k f patch secondary app = Inr f'"
    and fits: "length f' \<le> u64_max" and k: "secondary_contract k secondary"
    and ceiling: "secondary = Some XDELTA_LZMA_SECONDARY_ID \<Longrightarrow> \<forall>w \<in> set (vp_windows patch). sections_within_ceiling w"
  shows "\<exists>patch'. parse_vcdiff f' = Inr patch' \<and> vp_secondary_compressor_id patch' = secondary \<and>
    vp_custom_code_table patch' = None \<and>
    vp_app_header patch' = app \<and> length (vp_windows patch') = length (vp_windows patch) \<and>
    (\<forall>input v. vcdiff_output k f' input v patch' = vcdiff_output k f input v patch)"
proof -
  let ?ws = "vp_windows patch" and ?h = "recoded_header secondary app"
  have given: "sections_given k" using k by (simp add: secondary_contract_def)
  from parse_vcdiff_windows [OF base(1)] have off: "consecutive 0 ?ws"
    and inside: "\<forall>w \<in> set ?ws. window_in_patch f w" by simp_all
  have plain: "\<forall>w \<in> set ?ws. wi_delta_indicator w = 0"
    using base(1,2) unfolding parse_vcdiff_def by (auto simp: result_iff split: if_splits)
  have supported: "ensure_supported_secondary_compressor secondary = Inr ()"
    using recode by (auto simp: recode_loaded_patch_with_xdelta_options_def result_iff)
  have reference: "vcdiff_output k f input v patch =
      and_then (fold_result (next_window (native_decoder k f None v) input) ?ws ([], ())) (\<lambda>(out, _). Inr out)" for input v
    by (simp add: vcdiff_output_def uses_lzma_streams_def base(2,3) vcdiff_no_code_tables_def)
  have alone_fold: "and_then (fold_result (next_window (native_decoder k f' secondary v) input) ws' ([], ())) (\<lambda>(out, _). Inr out) =
      vcdiff_output k f input v patch"
    if rep: "list_all2 (window_represents f') xs ws'" and xs: "map fst xs = ?ws" and
      each: "\<forall>x \<in> set xs. \<exists>sec0. read_raw_sections f (fst x) = Inr sec0 \<and> decodes_alone k secondary x sec0"
    for xs ws' input v
  proof -
    have "list_all2 (\<lambda>x w'. next_window (native_decoder k f' secondary v) input w' =
        next_window (native_decoder k f None v) input (fst x)) xs ws'"
    proof (rule list.rel_mono_strong [OF rep])
      fix x w'
      assume x: "x \<in> set xs" "window_represents f' x w'"
      then obtain sec0 where "read_raw_sections f (fst x) = Inr sec0" "decodes_alone k secondary x sec0"
        using each by blast
      moreover have "wi_delta_indicator (fst x) = 0" using x(1) xs plain by (metis image_eqI list.set_map)
      ultimately show "next_window (native_decoder k f' secondary v) input w' =
          next_window (native_decoder k f None v) input (fst x)"
        using alone_next [OF x(2) _ given] by blast
    qed
    from fold_next_same [OF this] show ?thesis by (simp add: reference xs)
  qed
  have written: ?thesis
    if xs: "f' = ?h @ concat (map written_bytes xs)" "map fst xs = ?ws" "\<forall>x \<in> set xs. written_ok x"
      and zero: "secondary = None \<longrightarrow> (\<forall>x \<in> set xs. fst (snd x) = 0)"
      and same: "\<And>ws' patch' input v. list_all2 (window_represents f') xs ws' \<Longrightarrow> vp_windows patch' = ws' \<Longrightarrow>
        vp_secondary_compressor_id patch' = secondary \<Longrightarrow> vp_custom_code_table patch' = None \<Longrightarrow>
        vcdiff_output k f' input v patch' = vcdiff_output k f input v patch" for xs
  proof -
    have "secondary = None \<longrightarrow> (\<forall>(w, indicator, _) \<in> set xs. indicator = 0)" using zero by auto
    from parse_written_patch [OF xs(1) supported fits xs(3) _ this] off xs(2) obtain ws' where
      "parse_vcdiff f' = Inr \<lparr>vp_secondary_compressor_id = secondary, vp_custom_code_table = None,
        vp_app_header = app, vp_windows = ws'\<rparr>" "list_all2 (window_represents f') xs ws'"
      by auto
    moreover have "length ws' = length ?ws"
      using calculation(2) xs(2) by (metis length_map list_all2_lengthD)
    ultimately show ?thesis using same by fastforce
  qed
  consider (alone) "secondary \<in> {None, Some XDELTA_DJW_SECONDARY_ID, Some XDELTA_FGK_SECONDARY_ID}"
    | (along) "secondary = Some XDELTA_LZMA_SECONDARY_ID"
    using supported by (auto simp: ensure_supported_secondary_compressor_def split: option.splits if_splits)
  then show ?thesis
  proof cases
    case alone
    then have no_lzma: "secondary \<noteq> Some XDELTA_LZMA_SECONDARY_ID" by (auto simp: vcd_secondary_ids)
    with recode obtain es where "fold_result (recode_window k f secondary) ?ws (?h, None) = Inr (f', es)"
      by (auto simp: recode_loaded_patch_with_xdelta_options_def result_iff split: if_splits)
    from recoded_windows_alone [OF alone k this] inside plain obtain xs where
      xs: "f' = ?h @ concat (map written_bytes xs)" "map fst xs = ?ws" and
      each: "\<forall>x \<in> set xs. written_ok x \<and> (secondary = None \<longrightarrow> fst (snd x) = 0) \<and>
        (\<exists>sec0. read_raw_sections f (fst x) = Inr sec0 \<and> decodes_alone k secondary x sec0)"
      by auto
    show ?thesis
    proof (rule written [OF xs])
      fix ws' and patch' :: parsed_vcdiff and input v
      assume rep: "list_all2 (window_represents f') xs ws'" and patch': "vp_windows patch' = ws'"
        "vp_secondary_compressor_id patch' = secondary" "vp_custom_code_table patch' = None"
      show "vcdiff_output k f' input v patch' = vcdiff_output k f input v patch"
        using alone_fold [OF rep xs(2)] each
        by (simp add: vcdiff_output_def [of _ f'] uses_lzma_streams_def patch' no_lzma vcdiff_no_code_tables_def)
    qed (use each in auto)
  next
    case along
    with recode obtain es st where new: "lzma_encoders_new k = Inr es"
      and fold: "fold_result (recode_window k f (Some XDELTA_LZMA_SECONDARY_ID)) ?ws (?h, Some es) = Inr (f', st)"
      by (auto simp: recode_loaded_patch_with_xdelta_options_def result_iff base(2) simp del: split_paired_Ex)
    obtain R where R: "lzma_streams k R" using k along by (auto simp: secondary_contract_def)
    from recoded_windows_along [OF R given fold] inside plain ceiling [OF along] new obtain xs where
      xs: "f' = ?h @ concat (map written_bytes xs)" "map fst xs = ?ws" "\<forall>x \<in> set xs. written_ok x"
      and played: "plays_back k R f es xs" and probe: "probes_right k f xs"
      by auto
    have sync: "synced R es (xz_reader_new k, xz_reader_new k, xz_reader_new k)"
      using new R by (auto simp: lzma_encoders_new_def lzma_streams_def synced_def result_iff)
    show ?thesis
    proof (rule written [OF xs])
      fix ws' and patch' :: parsed_vcdiff and input v
      assume rep: "list_all2 (window_represents f') xs ws'" and patch': "vp_windows patch' = ws'"
        "vp_secondary_compressor_id patch' = secondary" "vp_custom_code_table patch' = None"
      obtain b where b: "patch_uses_xdelta_lzma_sections ws' f' = Inr b"
        and no: "\<not> b \<Longrightarrow> \<forall>x \<in> set xs. \<exists>sec0. read_raw_sections f (fst x) = Inr sec0 \<and> decodes_alone k secondary x sec0"
        using probe rep along unfolding probes_right_def by blast
      show "vcdiff_output k f' input v patch' = vcdiff_output k f input v patch"
      proof (cases b)
        case True
        with b played rep sync xs(2) show ?thesis
          by (simp add: vcdiff_output_def [of _ f'] uses_lzma_streams_def patch' along vcdiff_no_code_tables_def
              plays_back_def reference)
      next
        case False
        with b no alone_fold [OF rep xs(2)] show ?thesis
          by (simp add: vcdiff_output_def [of _ f'] uses_lzma_streams_def patch' along vcdiff_no_code_tables_def)
      qed
    qed (use along in simp)
  qed
qed

end
