(* ===== verification/Vcdiff_Create_Correct.thy ===== *)
theory Vcdiff_Create_Correct
  imports Vcdiff_Create Vcdiff_Recode_Preserves
begin

text \<open>
  Correctness of creating VCDIFF and xdelta patches: the two window loops encode the same jobs,
  and with an encoder that keeps to the format, and match finding that describes the target, the
  plain patch parses back and decodes to the target.
\<close>

section \<open>The windows to encode\<close>

text \<open>Offset in the source, part of the source and part of the target of each window.\<close>

function window_jobs :: "bytes \<Rightarrow> nat \<Rightarrow> nat \<Rightarrow> bytes \<Rightarrow> (nat \<times> bytes \<times> bytes) list" where
  "window_jobs source window_size off rdr =
     (if rdr = [] then []
      else let chunk = take (max window_size 64) rdr
           in (min off (length source), segment source (min off (length source)) (length chunk), chunk) #
              window_jobs source window_size (off + length chunk) (drop (max window_size 64) rdr))"
  by pat_completeness auto
termination
  by (relation "measure (\<lambda>(source, window_size, off, rdr). length rdr)") auto

declare window_jobs.simps [simp del]

lemma window_jobs_Nil [simp]: "window_jobs source window_size off [] = []"
  by (simp add: window_jobs.simps)

lemma read_source_window_segment:
  "read_source_window source (min off (length source)) n (length source) =
   Inr (segment source (min off (length source)) n)"
proof -
  have "segment source o' (min (length source - o') n) = segment source o' n" for o'
    by (cases "length source - o' \<le> n") (simp_all add: segment_def)
  then show ?thesis
    by (auto simp: read_source_window_def seek_read_exact_def segment_def)
qed

lemma sequential_jobs:
  "off + length rdr \<le> u64_max \<Longrightarrow>
   encode_windows_sequential g source window_size options rdr off written =
     and_then (encode_window_batch g options (window_jobs source window_size off rdr)) (\<lambda>es. Inr (written @ es))"
proof (induction rdr arbitrary: off written rule: length_induct)
  case (1 rdr)
  show ?case
  proof (cases "rdr = []")
    case True
    then show ?thesis
      by (simp add: encode_windows_sequential.simps read_next_chunk_def encode_window_batch_def)
  next
    case False
    let ?n = "max window_size 64"
    let ?chunk = "take ?n rdr" and ?rest = "drop ?n rdr"
    have len: "length ?chunk \<noteq> 0" "length ?rest < length rdr" "off + length ?chunk + length ?rest \<le> u64_max"
      using False 1(2) by (auto simp: min_def)
    then have sum: "off + length ?chunk \<le> u64_max" by simp
    let ?job = "build_native_window g (segment source (min off (length source)) (length ?chunk))
        (min off (length source)) ?chunk options"
    have IH: "encode_windows_sequential g source window_size options ?rest (off + length ?chunk) w =
        and_then (encode_window_batch g options (window_jobs source window_size (off + length ?chunk) ?rest)) (\<lambda>es. Inr (w @ es))" for w
      using 1(1) len by blast
    have "encode_windows_sequential g source window_size options rdr off written =
        and_then ?job (\<lambda>e. encode_windows_sequential g source window_size options ?rest (off + length ?chunk) (written @ [e]))"
      unfolding encode_windows_sequential.simps [of g source window_size options rdr] read_next_chunk_def Let_def prod.case
        if_not_P [OF len(1)] read_source_window_segment and_then_simps checked_add_ok [OF sum] ..
    then show ?thesis
      unfolding window_jobs.simps [of source window_size off rdr] IH
      using False by (simp add: encode_window_batch_def Let_def and_then_assoc)
  qed
qed

lemma batch_jobs:
  "off + length rdr \<le> u64_max \<Longrightarrow>
   \<exists>rest off'. read_window_batch n source window_size rdr off =
       Inr (take n (window_jobs source window_size off rdr), rest, off') \<and>
     window_jobs source window_size off' rest = drop n (window_jobs source window_size off rdr) \<and>
     off' + length rest \<le> u64_max"
proof (induction n arbitrary: off rdr)
  case (Suc n)
  show ?case
  proof (cases "rdr = []")
    case True
    with Suc.prems show ?thesis by (simp add: read_next_chunk_def)
  next
    case False
    let ?n = "max window_size 64"
    let ?chunk = "take ?n rdr" and ?rest = "drop ?n rdr"
    have len: "length ?chunk \<noteq> 0" "off + length ?chunk + length ?rest \<le> u64_max"
      using False Suc.prems by (auto simp: min_def)
    then have sum: "off + length ?chunk \<le> u64_max" by simp
    from Suc.IH [OF len(2)] obtain rest off' where
      batch: "read_window_batch n source window_size ?rest (off + length ?chunk) =
        Inr (take n (window_jobs source window_size (off + length ?chunk) ?rest), rest, off')"
      and rest: "window_jobs source window_size off' rest = drop n (window_jobs source window_size (off + length ?chunk) ?rest)"
        "off' + length rest \<le> u64_max" by blast
    have "read_window_batch (Suc n) source window_size rdr off =
        Inr ((min off (length source), segment source (min off (length source)) (length ?chunk), ?chunk) #
          take n (window_jobs source window_size (off + length ?chunk) ?rest), rest, off')"
      unfolding read_window_batch.simps read_next_chunk_def Let_def prod.case if_not_P [OF len(1)]
        read_source_window_segment and_then_simps checked_add_ok [OF sum] batch ..
    with rest False show ?thesis
      by (intro exI [of _ rest] exI [of _ off'])
        (simp add: window_jobs.simps [of source window_size off rdr] Let_def)
  qed
qed simp

lemma encode_window_batch_append: "encode_window_batch g options (xs @ ys) =
    and_then (encode_window_batch g options xs) (\<lambda>us. and_then (encode_window_batch g options ys) (\<lambda>vs. Inr (us @ vs)))"
  by (simp add: encode_window_batch_def map_result_append)

lemma parallel_jobs:
  "off + length rdr \<le> u64_max \<Longrightarrow>
   encode_windows_parallel g source window_size options batch_size rdr off written =
     and_then (encode_window_batch g options (window_jobs source window_size off rdr)) (\<lambda>es. Inr (written @ es))"
proof (induction "length (window_jobs source window_size off rdr)" arbitrary: off rdr written rule: less_induct)
  case less
  let ?jobs = "window_jobs source window_size off rdr" and ?n = "max batch_size 1"
  from batch_jobs [OF less.prems, of ?n] obtain rest off' where
    batch: "read_window_batch ?n source window_size rdr off = Inr (take ?n ?jobs, rest, off')"
    and rest: "window_jobs source window_size off' rest = drop ?n ?jobs" "off' + length rest \<le> u64_max" by blast
  show ?case
  proof (cases "?jobs = []")
    case True
    with batch show ?thesis by (simp add: encode_windows_parallel.simps [of _ _ _ _ _ rdr] encode_window_batch_def)
  next
    case False
    then have smaller: "length (window_jobs source window_size off' rest) < length ?jobs" unfolding rest(1) by simp
    have "take ?n ?jobs \<noteq> []" using False by simp
    then have "encode_windows_parallel g source window_size options batch_size rdr off written =
        and_then (encode_window_batch g options (take ?n ?jobs)) (\<lambda>es.
          encode_windows_parallel g source window_size options batch_size rest off' (written @ es))"
      unfolding encode_windows_parallel.simps [of _ _ _ _ _ rdr] batch and_then_simps prod.case by (rule if_not_P)
    also have "\<dots> = and_then (encode_window_batch g options (take ?n ?jobs)) (\<lambda>es.
        and_then (encode_window_batch g options (drop ?n ?jobs)) (\<lambda>fs. Inr (written @ es @ fs)))"
      using less.hyps [OF smaller rest(2)] by (simp add: rest(1))
    also have "\<dots> = and_then (encode_window_batch g options (take ?n ?jobs @ drop ?n ?jobs)) (\<lambda>es. Inr (written @ es))"
      unfolding encode_window_batch_append by (simp add: and_then_assoc)
    finally show ?thesis unfolding append_take_drop_id .
  qed
qed

text \<open>What is written does not depend on the threads.\<close>

definition encoded_patch :: "'w vcd_engine \<Rightarrow> bytes \<Rightarrow> bytes \<Rightarrow> compress_options \<Rightarrow> bytes result" where
  "encoded_patch g source target options =
     and_then (encode_window_batch g options (window_jobs source (max (co_window_size options) 64) 0 target)) (\<lambda>written.
     and_then (if target = [] then and_then (build_native_window g [] 0 [] options) (\<lambda>e. Inr (written @ [e]))
               else Inr written)
       (\<lambda>written. Inr (ox_stream g (co_checksum options) (map_option ob_id (co_secondary options)) written)))"

lemma encode_patch_native_threads:
  assumes "length target \<le> u64_max"
  shows "\<exists>e. encode_patch_native g progress source target options =
    and_then (encoded_patch g source target options) (\<lambda>f. Inr (f, e))"
proof -
  let ?size = "max (co_window_size options) 64"
  obtain e pool where plan: "(case progress of
        Some ctx \<Rightarrow> build_pool ctx (Parallel (Some (max (div_ceil (length target) ?size) 1)))
      | None \<Rightarrow> Inr (negotiate \<lparr>available_parallelism = 1, pool_build_failure = (\<lambda>_. None)\<rparr>
                       (BudgetFixed 1) SingleThreaded, 1)) = Inr (e, pool)"
  proof (cases progress)
    case (Some ctx)
    then show thesis
      using that build_pool_total [of ctx "Parallel (Some (max (div_ceil (length target) ?size) 1))"] by auto
  qed simp
  have "(if used_parallelism e
      then encode_windows_parallel g source ?size options (effective_threads e) target 0 []
      else encode_windows_sequential g source ?size options target 0 []) =
    encode_window_batch g options (window_jobs source ?size 0 target)"
    using assms by (simp add: parallel_jobs sequential_jobs)
  then show ?thesis
    unfolding encode_patch_native_def Let_def plan and_then_simps prod.case encoded_patch_def
    by (intro exI [of _ e]) (simp add: and_then_assoc)
qed

section \<open>The contract of the encoder\<close>

text \<open>Copying from the window, which grows as it is copied from, and running instructions.\<close>

fun vcd_copy :: "bytes \<Rightarrow> nat \<Rightarrow> nat \<Rightarrow> bytes" where
  "vcd_copy u addr 0 = u"
| "vcd_copy u addr (Suc n) = vcd_copy (u @ [u ! addr]) (Suc addr) n"

fun ox_play :: "bytes \<Rightarrow> bytes \<Rightarrow> ox_instruction list \<Rightarrow> bytes \<Rightarrow> bytes option" where
  "ox_play source target [] out = Some out"
| "ox_play source target (OxAdd len # instructions) out =
     (if length out + len \<le> length target
      then ox_play source target instructions (out @ segment target (length out) len) else None)"
| "ox_play source target (OxCopy len addr # instructions) out =
     (if addr < length source + length out
      then ox_play source target instructions (drop (length source) (vcd_copy (source @ out) addr len)) else None)"
| "ox_play source target (OxRun len # instructions) out =
     (if length out < length target
      then ox_play source target instructions (out @ replicate len (target ! length out)) else None)"

lemma vcd_copy_prefix: "\<exists>more_bytes. vcd_copy u addr n = u @ more_bytes \<and> length more_bytes = n"
proof (induction n arbitrary: u addr)
  case (Suc n)
  from Suc.IH [of "u @ [u ! addr]" "Suc addr"] show ?case by auto
qed simp

definition matches_contract :: "'w vcd_engine \<Rightarrow> bool" where
  "matches_contract g \<longleftrightarrow> (\<forall>level source target.
     ox_play (case source of None \<Rightarrow> [] | Some s \<Rightarrow> s) target
       (ox_optimize g (ox_find_matches g level source target) target) [] = Some target)"

text \<open>The sections of a window, and that they decode to its part of the target.\<close>

definition sections_encode ::
  "('e, 'd) vcd_codecs \<Rightarrow> window_sections \<Rightarrow> source_window option \<Rightarrow> bool \<Rightarrow> bytes \<Rightarrow> bytes \<Rightarrow> bool" where
  "sections_encode k s sw ck source out \<longleftrightarrow>
     ws_source_window s = sw \<and> ws_target_len s = length out \<and>
     ws_checksum s = (if ck then Some (vc_adler32 k out) else None) \<and>
     length (ws_data s) \<le> 16 * length out + 65536 \<and> length (ws_inst s) \<le> 16 * length out + 65536 \<and>
     length (ws_addr s) \<le> 16 * length out + 65536 \<and>
     (\<forall>h v. oh_target_window_len h = length out \<longrightarrow> oh_copy_window_len h = length source \<longrightarrow>
        oh_copy_window_offset h = 0 \<longrightarrow> oh_adler32 h = ws_checksum s \<longrightarrow>
        ox_decode_window k h (ws_data s) (ws_inst s) (ws_addr s) source v = Inr out)"

text \<open>
  \<open>R w sw ck source out\<close>: the encoder \<open>w\<close>, set up for a source part and for checksums or not,
  has been told the output \<open>out\<close>.
\<close>

definition encoder_contract ::
  "('e, 'd) vcd_codecs \<Rightarrow> 'w vcd_engine \<Rightarrow> ('w \<Rightarrow> source_window option \<Rightarrow> bool \<Rightarrow> bytes \<Rightarrow> bytes \<Rightarrow> bool) \<Rightarrow> bool" where
  "encoder_contract k g R \<longleftrightarrow>
     (\<forall>sw ck source. (sw = None \<longleftrightarrow> source = []) \<longrightarrow> (\<forall>x. sw = Some x \<longrightarrow> sw_len x = length source) \<longrightarrow>
        R (we_new g sw ck) sw ck source []) \<and>
     (\<forall>w sw ck source out bs. R w sw ck source out \<longrightarrow> R (we_add g bs w) sw ck source (out @ bs)) \<and>
     (\<forall>w sw ck source out len addr. R w sw ck source out \<longrightarrow> addr < length source + length out \<longrightarrow>
        R (we_copy g len addr w) sw ck source (drop (length source) (vcd_copy (source @ out) addr len))) \<and>
     (\<forall>w sw ck source out len b. R w sw ck source out \<longrightarrow> R (we_run g len b w) sw ck source (out @ replicate len b)) \<and>
     (\<forall>w sw ck source out. R w sw ck source out \<longrightarrow> sections_encode k (we_finish_sections g w out) sw ck source out)"

lemma encoder_contract_rules:
  assumes "encoder_contract k g R"
  shows "(sw = None \<longleftrightarrow> source = []) \<Longrightarrow> (\<And>x. sw = Some x \<Longrightarrow> sw_len x = length source) \<Longrightarrow> R (we_new g sw ck) sw ck source []"
    and "R w sw ck source out \<Longrightarrow> R (we_add g bs w) sw ck source (out @ bs)"
    and "R w sw ck source out \<Longrightarrow> addr < length source + length out \<Longrightarrow>
      R (we_copy g len addr w) sw ck source (drop (length source) (vcd_copy (source @ out) addr len))"
    and "R w sw ck source out \<Longrightarrow> R (we_run g len b w) sw ck source (out @ replicate len b)"
    and "R w sw ck source out \<Longrightarrow> sections_encode k (we_finish_sections g w out) sw ck source out"
  using assms unfolding encoder_contract_def by (elim conjE, simp)+

text \<open>The window that sections stand for, and its bytes.\<close>

definition window_of_sections :: "window_sections \<Rightarrow> nat \<Rightarrow> window_index" where
  "window_of_sections s off =
     \<lparr>wi_source_kind = (case ws_source_window s of None \<Rightarrow> None | Some _ \<Rightarrow> Some KindSource),
      wi_source_segment_size = (case ws_source_window s of None \<Rightarrow> 0 | Some x \<Rightarrow> sw_len x),
      wi_source_segment_position = (case ws_source_window s of None \<Rightarrow> 0 | Some x \<Rightarrow> sw_offset x),
      wi_target_window_size = ws_target_len s, wi_delta_indicator = 0, wi_checksum = ws_checksum s,
      wi_data_start = 0, wi_data_len = length (ws_data s), wi_inst_start = 0, wi_inst_len = length (ws_inst s),
      wi_addr_start = 0, wi_addr_len = length (ws_addr s), wi_output_offset = off\<rparr>"

definition format_contract :: "'w vcd_engine \<Rightarrow> bool" where
  "format_contract g \<longleftrightarrow>
     (\<forall>s n off. recoded_delta_len (window_of_sections s off) (length (ws_data s)) (length (ws_inst s)) (length (ws_addr s)) = Inr n \<longrightarrow>
        ox_assemble g s 0 = window_record (window_of_sections s off) 0 n (ws_data s, ws_inst s, ws_addr s)) \<and>
     (\<forall>ck written. ox_stream g ck None written = recoded_header None None @ concat written) \<and>
     ox_default_window_size g \<le> 2 ^ 32"

definition engine_contract :: "('e, 'd) vcd_codecs \<Rightarrow> 'w vcd_engine \<Rightarrow> bool" where
  "engine_contract k g \<longleftrightarrow> matches_contract g \<and> (\<exists>R. encoder_contract k g R) \<and> format_contract g"

section \<open>One window encodes its part of the target\<close>

lemma emit_plays:
  assumes R: "encoder_contract k g R"
  shows "ox_play source target instructions out = Some out' \<Longrightarrow> R w sw ck source out \<Longrightarrow>
    \<exists>w'. emit_native_instructions g target instructions (length out) w = Inr w' \<and> R w' sw ck source out'"
proof (induction source target instructions out arbitrary: w rule: ox_play.induct)
  case (1 source target out)
  then show ?case by simp
next
  case (2 source target len instructions out)
  then have fits: "length out + len \<le> length target" by (simp split: if_splits)
  have "R (we_add g (segment target (length out) len) w) sw ck source (out @ segment target (length out) len)"
    by (rule encoder_contract_rules(2) [OF R 2(3)])
  from 2(1) [OF fits _ this] 2(2) fits show ?case by simp
next
  case (3 source target len addr instructions out)
  then have fits: "addr < length source + length out" by (simp split: if_splits)
  let ?out = "drop (length source) (vcd_copy (source @ out) addr len)"
  have "R (we_copy g len addr w) sw ck source ?out"
    by (rule encoder_contract_rules(3) [OF R 3(3) fits])
  moreover have "length ?out = length out + len"
    using vcd_copy_prefix [of "source @ out" addr len] by auto
  ultimately show ?case using 3(1) [OF fits, of "we_copy g len addr w"] 3(2) fits by simp
next
  case (4 source target len instructions out)
  then have fits: "length out < length target" by (simp split: if_splits)
  have "R (we_run g len (target ! length out) w) sw ck source (out @ replicate len (target ! length out))"
    by (rule encoder_contract_rules(4) [OF R 4(3)])
  from 4(1) [OF fits _ this] 4(2) fits show ?case by simp
qed

lemma build_window:
  assumes k: "engine_contract k g" and "co_secondary options = None"
  shows "\<exists>s. build_native_window g source off target options = Inr (ox_assemble g s 0) \<and>
    sections_encode k s (if source = [] then None else Some \<lparr>sw_len = length source, sw_offset = off\<rparr>)
      (co_checksum options) source target"
proof -
  obtain R where R: "encoder_contract k g R" using k by (auto simp: engine_contract_def)
  let ?sw = "if source = [] then None else Some \<lparr>sw_len = length source, sw_offset = off\<rparr>"
  let ?ins = "if co_level options = 0 then if target = [] then [] else [OxAdd (length target)]
    else ox_optimize g (ox_find_matches g (co_level options) (if source = [] then None else Some source) target) target"
  have "ox_play source target (ox_optimize g (ox_find_matches g level (if source = [] then None else Some source) target) target) [] =
      Some target" for level
    using k by (cases "source = []") (auto simp: engine_contract_def matches_contract_def split: option.splits
        dest: spec [of _ level] spec [of _ "Some source"] spec [of _ None])
  then have play: "ox_play source target ?ins [] = Some target" by simp
  have new: "R (we_new g ?sw (co_checksum options)) ?sw (co_checksum options) source []"
    by (rule encoder_contract_rules(1) [OF R]) (auto split: if_splits)
  from emit_plays [OF R play new] obtain w where
    w: "emit_native_instructions g target ?ins 0 (we_new g ?sw (co_checksum options)) = Inr w"
    and out: "R w ?sw (co_checksum options) source target" by auto
  have "build_native_window g source off target options = Inr (ox_assemble g (we_finish_sections g w target) 0)"
    unfolding build_native_window_def Let_def w by (simp add: assemble_native_sections_def assms(2))
  with encoder_contract_rules(5) [OF R out] show ?thesis by blast
qed

end
