(* ===== verification/Vcdiff_Create_Properties.thy ===== *)
theory Vcdiff_Create_Properties
  imports Vcdiff_Create_Correct
begin

text \<open>
  The round trip of creating and applying VCDIFF and xdelta patches, and the choice among the
  candidates: what is written is never larger than the plain patch or a candidate.
\<close>

section \<open>The plain patch\<close>

lemma varint_len_le: "v \<le> u64_max \<Longrightarrow> varint_len v \<le> 10"
  using varint_len_loop_le [of v 10] by (simp add: varint_len_def u64_max_def)

text \<open>What a written window has to be for its part of the target.\<close>

definition encodes_part :: "('e, 'd) vcd_codecs \<Rightarrow> bytes \<Rightarrow> nat \<Rightarrow> bytes \<Rightarrow> written_window \<Rightarrow> bool" where
  "encodes_part k source off part x \<longleftrightarrow> written_ok x \<and> fst (snd x) = 0 \<and> wi_output_offset (fst x) = off \<and>
     wi_target_window_size (fst x) = length part \<and> length (written_bytes x) \<le> 48 * length part + 200000 \<and>
     (\<forall>f w'. window_represents f x w' \<longrightarrow> sections_within_ceiling w' \<and>
        (\<forall>out v. next_window (native_decoder k f None v) source w' (out, ()) = Inr (out @ part, ())))"

lemma decode_encoded_sections:
  assumes "sections_encode k s sw ck src part" and "window_represents f (window_of_sections s off, 0, n, ws_data s, ws_inst s, ws_addr s) w'"
    and "sw = None \<longleftrightarrow> src = []" and "\<And>x. sw = Some x \<Longrightarrow> sw_len x = length src"
  shows "decode_native_window_sections k w' (ws_data s, ws_inst s, ws_addr s) src v = Inr part"
proof -
  have same: "wi_source_kind w' = (case ws_source_window s of None \<Rightarrow> None | Some _ \<Rightarrow> Some KindSource)"
      "wi_source_segment_size w' = (case ws_source_window s of None \<Rightarrow> 0 | Some x \<Rightarrow> sw_len x)"
      "wi_target_window_size w' = ws_target_len s" "wi_checksum w' = ws_checksum s"
    using represents_window [OF assms(2)] by (simp_all add: window_of_sections_def)
  have s: "ws_source_window s = sw" "ws_target_len s = length part"
      "ws_checksum s = (if ck then Some (vc_adler32 k part) else None)"
    using assms(1) by (simp_all add: sections_encode_def)
  have len: "(if wi_source_kind w' \<noteq> None then wi_source_segment_size w' else 0) = length src"
    using same s assms(3,4) by (cases sw) auto
  let ?h = "build_native_window_header k w' (length src)"
  have h: "oh_target_window_len ?h = length part" "oh_copy_window_len ?h = length src"
      "oh_copy_window_offset ?h = 0" "oh_adler32 ?h = ws_checksum s"
    using same s by (simp_all add: build_native_window_header_def Let_def)
  have "ox_decode_window k ?h (ws_data s) (ws_inst s) (ws_addr s) src v = Inr part"
    using assms(1) h unfolding sections_encode_def by blast
  then show ?thesis
    unfolding decode_native_window_sections_def Let_def prod.case len
    using same s by simp
qed

lemma encoded_part:
  assumes k: "engine_contract k g" and options: "co_secondary options = None"
    and fits: "length source \<le> u64_max" "length part \<le> 2 ^ 32" "soff \<le> length source"
    and src: "src = segment source soff (length part)"
  shows "\<exists>x. build_native_window g src soff part options = Inr (written_bytes x) \<and> encodes_part k source off part x"
proof -
  let ?sw = "if src = [] then None else Some \<lparr>sw_len = length src, sw_offset = soff\<rparr>"
  from build_window [OF k options] obtain s where build: "build_native_window g src soff part options = Inr (ox_assemble g s 0)"
    and s: "sections_encode k s ?sw (co_checksum options) src part" by blast
  let ?w = "window_of_sections s off"
  have sizes: "length (ws_data s) \<le> 16 * length part + 65536" "length (ws_inst s) \<le> 16 * length part + 65536"
      "length (ws_addr s) \<le> 16 * length part + 65536" and sw: "ws_source_window s = ?sw" "ws_target_len s = length part"
    using s by (simp_all add: sections_encode_def)
  have srclen: "length src \<le> length part" "soff + length src \<le> length source"
    using fits(3) by (simp_all add: src)
  have u64: "length (ws_data s) \<le> u64_max" "length (ws_inst s) \<le> u64_max" "length (ws_addr s) \<le> u64_max"
      "length part \<le> u64_max" "length src \<le> u64_max" "soff \<le> u64_max"
    using sizes fits srclen by (simp_all add: u64_max_def)
  note lens = varint_len_le [OF u64(1)] varint_len_le [OF u64(2)] varint_len_le [OF u64(3)] varint_len_le [OF u64(4)]
    varint_len_le [OF u64(5)] varint_len_le [OF u64(6)]
  define n where "n = varint_len (length part) + 1 + varint_len (length (ws_data s)) + varint_len (length (ws_inst s)) +
    varint_len (length (ws_addr s)) + (if ws_checksum s \<noteq> None then 4 else 0) + length (ws_data s) + length (ws_inst s) + length (ws_addr s)"
  have bound: "n \<le> 48 * length part + 3 * 65536 + 45" using sizes lens by (simp add: n_def)
  then have small: "n \<le> u64_max" using fits(2) by (simp add: u64_max_def)
  have n: "recoded_delta_len ?w (length (ws_data s)) (length (ws_inst s)) (length (ws_addr s)) = Inr n"
    unfolding recoded_delta_len_Ok_iff using small by (simp add: n_def window_of_sections_def sw)
  let ?x = "(?w, 0, n, ws_data s, ws_inst s, ws_addr s)"
  have bytes: "ox_assemble g s 0 = written_bytes ?x"
    using k n unfolding engine_contract_def format_contract_def by simp
  have numbers: "window_numbers ?w"
    using u64 sw by (auto simp: window_numbers_def window_of_sections_def)
  have "length (written_bytes ?x) \<le> 48 * length part + 200000"
    using length_window_record [OF n, of 0] bound varint_len_le [OF small] lens sw
    by (auto simp: window_of_sections_def split: if_splits)
  moreover have "sections_within_ceiling w' \<and>
      (\<forall>out v. next_window (native_decoder k f None v) source w' (out, ()) = Inr (out @ part, ()))"
    if rep: "window_represents f ?x w'" for f w'
  proof -
    note same = represents_window [OF rep]
    have "window_source source w' out = Inr src" for out
    proof (cases "src = []")
      case True
      with same sw show ?thesis by (simp add: window_source_def window_of_sections_def)
    next
      case False
      have "read_source_segment source soff (length src) (length source) ''source'' = Inr src"
      proof -
        have "segment source soff (length src) = src" by (auto simp: src segment_def min_def)
        then show ?thesis using srclen fits(1) by (simp add: read_source_segment_def seek_read_exact_def)
      qed
      then show ?thesis using False same sw by (simp add: window_source_def window_of_sections_def)
    qed
    moreover have "decode_native_window_sections k w' (ws_data s, ws_inst s, ws_addr s) src v = Inr part" for v
      by (rule decode_encoded_sections [OF s rep]) (auto split: if_splits)
    moreover have "16 * length part + 65536 \<le> lzma_section_output_ceiling w'"
    proof -
      have "wi_target_window_size w' = length part" "wi_source_segment_size w' \<le> length part"
        using same sw srclen by (simp_all add: window_of_sections_def)
      then show ?thesis
        using fits(2) by (simp add: lzma_section_output_ceiling_def saturating_add_def saturating_mul_def u64_max_def min_def)
    qed
    ultimately show ?thesis
      using same sizes rep
      by (auto simp: next_window_def native_decoder_def plain_native sections_within_ceiling_def dest: raw_sections_length)
  qed
  ultimately have "encodes_part k source off part ?x"
    using n numbers sw by (auto simp: encodes_part_def written_ok_def window_of_sections_def)
  with build bytes show ?thesis by (intro exI [of _ ?x]) simp
qed

text \<open>Written windows for a whole part of the target.\<close>

definition encodes_all :: "('e, 'd) vcd_codecs \<Rightarrow> bytes \<Rightarrow> nat \<Rightarrow> bytes \<Rightarrow> written_window list \<Rightarrow> bool" where
  "encodes_all k source off part xs \<longleftrightarrow> consecutive off (map fst xs) \<and>
     (\<forall>x \<in> set xs. written_ok x \<and> fst (snd x) = 0) \<and>
     (\<forall>f ws. list_all2 (window_represents f) xs ws \<longrightarrow> (\<forall>w \<in> set ws. sections_within_ceiling w) \<and>
        (\<forall>out v. fold_result (next_window (native_decoder k f None v) source) ws (out, ()) = Inr (out @ part, ())))"

lemma encodes_all_Nil: "encodes_all k source off [] []"
  by (simp add: encodes_all_def)

lemma encodes_all_Cons:
  assumes "encodes_part k source off part x" and "encodes_all k source (off + length part) rest xs"
    and "off + length part \<le> u64_max"
  shows "encodes_all k source off (part @ rest) (x # xs)"
proof -
  have "(\<forall>w \<in> set ws. sections_within_ceiling w) \<and>
      (\<forall>out v. fold_result (next_window (native_decoder k f None v) source) ws (out, ()) = Inr (out @ part @ rest, ()))"
    if rep: "list_all2 (window_represents f) (x # xs) ws" for f ws
  proof -
    obtain w vs where ws: "ws = w # vs" "window_represents f x w" "list_all2 (window_represents f) xs vs"
      using rep unfolding list_all2_Cons1 by blast
    have "sections_within_ceiling w" "\<And>out v. next_window (native_decoder k f None v) source w (out, ()) = Inr (out @ part, ())"
      using assms(1) ws(2) by (simp_all add: encodes_part_def)
    moreover have "\<forall>w \<in> set vs. sections_within_ceiling w"
      "\<And>out v. fold_result (next_window (native_decoder k f None v) source) vs (out, ()) = Inr (out @ rest, ())"
      using assms(2) ws(3) by (simp_all add: encodes_all_def)
    ultimately show ?thesis using ws(1) by simp
  qed
  with assms show ?thesis by (simp add: encodes_all_def encodes_part_def)
qed

lemma encoded_windows:
  assumes k: "engine_contract k g" and options: "co_secondary options = None"
    and source: "length source \<le> u64_max" and size: "window_size \<le> 2 ^ 32"
  shows "off + length rdr \<le> u64_max \<Longrightarrow>
    \<exists>xs. encode_window_batch g options (window_jobs source window_size off rdr) = Inr (map written_bytes xs) \<and>
      encodes_all k source off rdr xs \<and> length (concat (map written_bytes xs)) \<le> 200048 * length rdr"
proof (induction rdr arbitrary: off rule: length_induct)
  case (1 rdr)
  show ?case
  proof (cases "rdr = []")
    case True
    then show ?thesis by (intro exI [of _ "[]"]) (simp add: encode_window_batch_def encodes_all_Nil)
  next
    case False
    let ?n = "max window_size 64"
    let ?part = "take ?n rdr" and ?rest = "drop ?n rdr" and ?soff = "min off (length source)"
    let ?src = "segment source ?soff (length ?part)"
    have len: "length ?part \<le> 2 ^ 32" "1 \<le> length ?part" "length ?rest < length rdr"
      "length ?part + length ?rest = length rdr"
      using size False by (auto simp: min_def Suc_le_eq)
    have rest: "off + length ?part + length ?rest \<le> u64_max" using 1(2) len(4) by simp
    from encoded_part [OF k options source len(1) _ refl, of ?soff off] obtain x where
      x: "build_native_window g ?src ?soff ?part options = Inr (written_bytes x)" "encodes_part k source off ?part x"
      by auto
    from 1(1) len(3) rest obtain xs where
      xs: "encode_window_batch g options (window_jobs source window_size (off + length ?part) ?rest) = Inr (map written_bytes xs)"
        "encodes_all k source (off + length ?part) ?rest xs" "length (concat (map written_bytes xs)) \<le> 200048 * length ?rest"
      by blast
    have "encode_window_batch g options (window_jobs source window_size off rdr) = Inr (map written_bytes (x # xs))"
      using False x(1) xs(1) by (simp add: window_jobs.simps [of source window_size off rdr] Let_def encode_window_batch_def)
    moreover have "encodes_all k source off rdr (x # xs)"
      using encodes_all_Cons [OF x(2) xs(2)] rest by simp
    moreover have "length (concat (map written_bytes (x # xs))) \<le> 200048 * length rdr"
    proof -
      have "length (written_bytes x) \<le> 48 * length ?part + 200000" using x(2) by (simp add: encodes_part_def)
      with len(2) have "length (written_bytes x) \<le> 200048 * length ?part" by linarith
      with xs(3) have "length (written_bytes x) + length (concat (map written_bytes xs)) \<le> 200048 * length rdr"
        unfolding len(4) [symmetric] by (simp add: distrib_left del: length_take length_drop)
      then show ?thesis by simp
    qed
    ultimately show ?thesis by blast
  qed
qed

lemma plain_patch:
  assumes k: "engine_contract k g" and options: "co_secondary options = None" "co_window_size options \<le> 2 ^ 32"
    and fits: "length source \<le> u64_max" "length target \<le> 2 ^ 40"
  shows "\<exists>f patch xs. encoded_patch g source target options = Inr f \<and> length f \<le> 2 ^ 60 \<and> parse_vcdiff f = Inr patch \<and>
    f = recoded_header None None @ concat (map written_bytes xs) \<and> list_all2 (window_represents f) xs (vp_windows patch) \<and>
    (\<forall>x \<in> set xs. written_ok x \<and> fst (snd x) = 0) \<and>
    vp_secondary_compressor_id patch = None \<and> vp_custom_code_table patch = None \<and>
    (\<forall>w \<in> set (vp_windows patch). sections_within_ceiling w) \<and> (\<forall>v. vcdiff_output k f source v patch = Inr target)"
proof -
  let ?size = "max (co_window_size options) 64"
  have size: "?size \<le> 2 ^ 32" using options(2) by simp
  have target: "0 + length target \<le> u64_max" using fits(2) by (simp add: u64_max_def)
  obtain xs where written: "and_then (encode_window_batch g options (window_jobs source ?size 0 target)) (\<lambda>written.
        if target = [] then and_then (build_native_window g [] 0 [] options) (\<lambda>e. Inr (written @ [e])) else Inr written) =
      Inr (map written_bytes xs)"
    and all: "encodes_all k source 0 target xs"
    and len: "length (concat (map written_bytes xs)) \<le> 200048 * length target + 200000"
  proof (cases "target = []")
    case True
    from encoded_part [OF k options(1) fits(1), where part = "[]" and soff = 0 and src = "[]" and off = 0] obtain x where
      x: "build_native_window g [] 0 [] options = Inr (written_bytes x)" "encodes_part k source 0 [] x"
      by auto
    have "encodes_all k source 0 [] [x]"
      using encodes_all_Cons [OF x(2) encodes_all_Nil] by (simp add: u64_max_def)
    then show thesis
      using that [of "[x]"] x True by (simp add: encode_window_batch_def encodes_part_def)
  next
    case False
    with encoded_windows [OF k options(1) fits(1) size target] that show thesis by fastforce
  qed
  let ?f = "recoded_header None None @ concat (map written_bytes xs)"
  have f: "encoded_patch g source target options = Inr ?f"
  proof -
    have "ox_stream g ck None written = recoded_header None None @ concat written" for ck written
      using k by (simp add: engine_contract_def format_contract_def)
    then have "encoded_patch g source target options = and_then (and_then
        (encode_window_batch g options (window_jobs source ?size 0 target)) (\<lambda>written.
        if target = [] then and_then (build_native_window g [] 0 [] options) (\<lambda>e. Inr (written @ [e])) else Inr written))
        (\<lambda>written. Inr (recoded_header None None @ concat written))"
      unfolding encoded_patch_def and_then_assoc by (simp add: options(1))
    then show ?thesis unfolding written by simp
  qed
  have "length ?f \<le> 5 + (200048 * length target + 200000)"
    using len by (simp add: recoded_header_def VCDIFF_MAGIC_BYTES_def)
  then have bound: "length ?f \<le> 2 ^ 60" using fits(2) by simp
  then have small: "length ?f \<le> u64_max" by (simp add: u64_max_def)
  have "ensure_supported_secondary_compressor None = Inr ()" by (simp add: ensure_supported_secondary_compressor_def)
  from parse_written_patch [OF refl this small] all obtain ws where
    parsed: "parse_vcdiff ?f = Inr \<lparr>vp_secondary_compressor_id = None, vp_custom_code_table = None,
        vp_app_header = None, vp_windows = ws\<rparr>"
    and rep: "list_all2 (window_represents ?f) xs ws"
    by (fastforce simp: encodes_all_def)
  have "\<forall>w \<in> set ws. sections_within_ceiling w"
    "\<And>v. fold_result (next_window (native_decoder k ?f None v) source) ws ([], ()) = Inr (target, ())"
    using all rep by (simp_all add: encodes_all_def)
  moreover have "\<forall>x \<in> set xs. written_ok x \<and> fst (snd x) = 0" using all by (simp add: encodes_all_def)
  ultimately show ?thesis
    using f bound parsed rep
    by (intro exI [of _ ?f] exI [of _ "\<lparr>vp_secondary_compressor_id = None, vp_custom_code_table = None,
        vp_app_header = None, vp_windows = ws\<rparr>"] exI [of _ xs])
      (simp add: vcdiff_output_def uses_lzma_streams_def vcdiff_no_code_tables_def)
qed

text \<open>Writing the plain patch again with a header copies its windows.\<close>

lemma recode_written_windows:
  "list_all2 (window_represents f) xs ws \<Longrightarrow> \<forall>x \<in> set xs. written_ok x \<Longrightarrow>
   fold_result (recode_window k f None) ws (out, None) = Inr (out @ concat (map written_bytes xs), None)"
proof (induction arbitrary: out rule: list_all2_induct)
  case (Cons x xs w' ws)
  obtain w indicator n data inst addr where x: "x = (w, indicator, n, data, inst, addr)" by (cases x) auto
  note same = represents_window [OF Cons.hyps(1) [unfolded x]]
  have n: "recoded_delta_len w (length data) (length inst) (length addr) = Inr n"
    using Cons.prems by (simp add: x written_ok_def)
  have "recoded_delta_len w' = recoded_delta_len w"
    using same by (intro ext) (simp add: recoded_delta_len_def)
  moreover have "window_record w' = window_record w"
    using same by (intro ext) (simp add: window_record_def window_win_indicator_def cong: option.case_cong)
  ultimately have "recode_window k f None w' (out, None) = Inr (out @ written_bytes x, None)"
    using same n by (simp add: recode_window_def recode_sections_def recode_window_section_def
        ensure_supported_secondary_compressor_def recode_delta_indicator_def x Let_def)
  with Cons.IH [of "out @ written_bytes x"] Cons.prems show ?case by simp
qed simp

section \<open>The choice\<close>

lemma best_candidate_snoc:
  "best_candidate (rs @ [r]) = (case r of Inl _ \<Rightarrow> best_candidate rs
     | Inr c \<Rightarrow> (case best_candidate rs of None \<Rightarrow> Some c | Some b \<Rightarrow> if length c < length b then Some c else Some b))"
  unfolding best_candidate_def by simp

lemma best_candidate_least:
  "case best_candidate rs of None \<Rightarrow> (\<forall>c. Inr c \<notin> set rs)
   | Some b \<Rightarrow> Inr b \<in> set rs \<and> (\<forall>c. Inr c \<in> set rs \<longrightarrow> length b \<le> length c)"
proof (induction rs rule: rev_induct)
  case Nil
  then show ?case by (simp add: best_candidate_def)
next
  case (snoc r rs)
  then show ?case
    by (cases r; cases "best_candidate rs") (auto simp: best_candidate_snoc)
qed

text \<open>The header an xdelta create writes, and the candidates it tries.\<close>

definition create_header :: "string \<Rightarrow> string \<Rightarrow> create_request \<Rightarrow> bytes option" where
  "create_header version name request =
     (if is_xdelta_descriptor name
      then Some (build_default_xdelta_app_header version (file_path (cr_original request)) (file_path (cr_modified request)))
      else None)"

text \<open>What a create has settled for: the plain patch, a candidate, or the plain patch with a header.\<close>

definition create_choice ::
  "('e, 'd) vcd_codecs \<Rightarrow> bytes \<Rightarrow> parsed_vcdiff \<Rightarrow> bytes \<Rightarrow> u8 list \<Rightarrow> bytes result" where
  "create_choice k f loaded header candidates =
     and_then (measure_appheader_baseline_size loaded header) (\<lambda>baseline_size.
     case best_candidate (map (\<lambda>m. recode_loaded_patch_with_xdelta_options k f loaded (Some m) (Some header)) candidates) of
       Some candidate \<Rightarrow> if length candidate < baseline_size then Inr candidate
                         else recode_loaded_patch_with_xdelta_options k f loaded None (Some header)
     | None \<Rightarrow> recode_loaded_patch_with_xdelta_options k f loaded None (Some header))"

lemma best_candidate_Nil [simp]: "best_candidate [] = None"
  by (simp add: best_candidate_def)

lemma vcdiff_create_Inr:
  assumes "vcdiff_create k g version name ctx mode request = Inr (out, rep)"
  shows "\<exists>f e. encode_patch_native g (Some ctx) (file_bytes (cr_original request)) (file_bytes (cr_modified request))
      (create_native_compress_options g name (ctx_validation ctx = Strict)) = Inr (f, e) \<and>
    (case create_header version name request of
       None \<Rightarrow> out = f
     | Some header \<Rightarrow> \<exists>loaded. load_patch_for_xdelta_recode f = Inr loaded \<and>
         create_choice k f loaded header (xdelta_secondary_candidates_for_mode mode) = Inr out)"
proof (cases "is_xdelta_descriptor name")
  case False
  with assms show ?thesis
    by (auto simp: vcdiff_create_def Let_def result_iff create_header_def)
next
  case True
  let ?header = "build_default_xdelta_app_header version (file_path (cr_original request)) (file_path (cr_modified request))"
  from assms True obtain f e where f: "encode_patch_native g (Some ctx) (file_bytes (cr_original request)) (file_bytes (cr_modified request))
      (create_native_compress_options g name (ctx_validation ctx = Strict)) = Inr (f, e)"
    unfolding vcdiff_create_def Let_def and_then_Ok_iff by auto
  from assms True f obtain loaded where loaded: "load_patch_for_xdelta_recode f = Inr loaded"
    unfolding vcdiff_create_def Let_def by (auto simp: result_iff)
  have "create_choice k f loaded ?header (xdelta_secondary_candidates_for_mode mode) = Inr out"
    using assms True f loaded unfolding vcdiff_create_def create_choice_def Let_def
    by (cases "measure_appheader_baseline_size loaded ?header")
      (auto simp: result_iff split: option.splits if_splits)
  with True f loaded show ?thesis by (auto simp: create_header_def)
qed

end
