(* ===== verification/Vcdiff_Round_Trip.thy ===== *)
theory Vcdiff_Round_Trip
  imports Vcdiff_Create_Properties
begin

text \<open>
  The properties of the VCDIFF and xdelta formats, with a small set of codecs and an encoder
  that keep their contracts for the concrete instances.
\<close>

section \<open>An instance\<close>

text \<open>
  An encoder that only adds, and secondary compressors that store: \<open>sample_engine\<close> writes the
  target into the data section, and the LZMA stream is the stream magic followed by the sections.
\<close>

definition sample_engine :: "(source_window option \<times> bool) vcd_engine" where
  "sample_engine =
     \<lparr>ox_find_matches = (\<lambda>_ _ _. []), ox_optimize = (\<lambda>_ target. [OxAdd (length target)]),
      we_new = Pair, we_add = (\<lambda>_ w. w), we_copy = (\<lambda>_ _ w. w), we_run = (\<lambda>_ _ w. w),
      we_finish_sections = (\<lambda>(sw, ck) out. \<lparr>ws_source_window = sw, ws_target_len = length out,
        ws_checksum = (if ck then Some (sample_crc out) else None), ws_data = out, ws_inst = [], ws_addr = []\<rparr>),
      ox_assemble = (\<lambda>s ind. case recoded_delta_len (window_of_sections s 0) (length (ws_data s)) (length (ws_inst s)) (length (ws_addr s)) of
          Inr n \<Rightarrow> window_record (window_of_sections s 0) ind n (ws_data s, ws_inst s, ws_addr s) | Inl _ \<Rightarrow> []),
      ox_stream = (\<lambda>_ secondary written. recoded_header secondary None @ concat written),
      ox_default_window_size = 8\<rparr>"

definition sample_codecs :: "(bool, bool \<times> bytes) vcd_codecs" where
  "sample_codecs =
     \<lparr>vc_adler32 = sample_crc, ox_compute_enc_len = (\<lambda>_. 0), ox_decode_window = (\<lambda>_ data _ _ _ _. Inr data),
      ox_decompress_sections = (\<lambda>data inst addr _. Inr (data, inst, addr)),
      vc_djw_compress = (\<lambda>_ s. Inr s), vc_djw_decode = (\<lambda>c n. Inr c),
      vc_fgk_compress = (\<lambda>s. Inr s), vc_fgk_decode = (\<lambda>c n. Inr c),
      lzma_encoder_new = Inr True,
      lzma_sync_flush = (\<lambda>fresh s. Inr ((if fresh then XZ_MAGIC_BYTES else []) @ s, False)),
      xz_reader_new = (True, []),
      xz_push = (\<lambda>(fresh, buffer) c. (False, buffer @ (if fresh then drop 6 c else c))),
      xz_read_exact = (\<lambda>(fresh, buffer) n. if n \<le> length buffer then Inr (take n buffer, fresh, drop n buffer)
        else Inl ''unexpected end of stream'')\<rparr>"

lemma sample_encoder: "encoder_contract sample_codecs sample_engine (\<lambda>w sw ck source out. w = (sw, ck))"
  by (simp add: encoder_contract_def sample_engine_def sections_encode_def sample_codecs_def)

lemma sample_engine_contract: "engine_contract sample_codecs sample_engine"
proof -
  have "matches_contract sample_engine"
    by (auto simp: matches_contract_def sample_engine_def)
  moreover have "format_contract sample_engine"
    by (auto simp: format_contract_def sample_engine_def window_record_def window_win_indicator_def
        window_of_sections_def recoded_delta_len_def)
  ultimately show ?thesis using sample_encoder by (auto simp: engine_contract_def)
qed

lemma sample_secondary_contract: "secondary_contract sample_codecs secondary"
proof -
  have "lzma_streams sample_codecs (\<lambda>fresh d. d = (fresh, []))"
    by (auto simp: lzma_streams_def sample_codecs_def XZ_MAGIC_BYTES_def)
  then show ?thesis
    by (auto simp: secondary_contract_def section_codec_def sections_given_def) (simp_all add: sample_codecs_def)
qed

definition vcd_sample_patch :: bytes where
  "vcd_sample_patch = [0xD6, 0xC3, 0xC4, 0, 0, 1, 3, 0, 18, 12, 0, 12, 1, 0, 1,7,3,4,1,2,3,4,5,6,7,8, 0]"

definition vcd_sample_window :: window_index where
  "vcd_sample_window =
   \<lparr>wi_source_kind = Some KindSource, wi_source_segment_size = 3, wi_source_segment_position = 0,
    wi_target_window_size = 12, wi_delta_indicator = 0, wi_checksum = None, wi_data_start = 14, wi_data_len = 12,
    wi_inst_start = 26, wi_inst_len = 1, wi_addr_start = 27, wi_addr_len = 0, wi_output_offset = 0\<rparr>"

definition vcd_sample_parsed :: parsed_vcdiff where
  "vcd_sample_parsed = \<lparr>vp_secondary_compressor_id = None, vp_custom_code_table = None, vp_app_header = None,
     vp_windows = [vcd_sample_window]\<rparr>"

lemma varint_byte:
  assumes "p < length f" and "f ! p AND 0x80 = 0"
  shows "vcd_read_varint f p = Inr (unat (f ! p), Suc p)"
proof -
  have low: "unat (f ! p) < 128" using assms(2) by (metis and_128_iff not_le)
  have step: "decode_base128_loop eof (Suc n) 0 (f ! p # bs) = Inr (unat (f ! p), bs)" for eof n bs
    using low assms(2) by (simp add: checked_mul_opt_def checked_add_opt_def u64_max_def unat_and_127)
  have "decode_base128 eof (drop p f) = Inr (unat (f ! p), drop (Suc p) f)" for eof
    using step [of _ 9] unfolding Cons_nth_drop_Suc [OF assms(1), symmetric] by (simp add: decode_base128_def BASE128_MAX_GROUPS_def)
  then show ?thesis using assms(1) by (simp add: vcd_read_varint_def)
qed

lemma window_read: "read_window_index vcd_sample_patch 5 0 = Inr (Some (vcd_sample_window, 27))"
  by (simp add: read_window_index_def vcd_sample_patch_def varint_byte vcd_flags vcd_read_optional_u8_def
    vcd_read_u8_def vcd_delta_len_def Let_def vcd_sample_window_def u64_max_def)

lemma vcd_sample_parse: "parse_vcdiff vcd_sample_patch = Inr vcd_sample_parsed"
proof -
  have "read_window_index vcd_sample_patch 27 12 = Inr None"
    by (simp add: read_window_index_def vcd_read_optional_u8_def vcd_sample_patch_def)
  then have "parse_windows vcd_sample_patch 5 0 [] = Inr [vcd_sample_window]"
    by (simp add: parse_windows.simps [of _ 5] parse_windows.simps [of _ 27] window_read)
      (simp add: vcd_sample_window_def u64_max_def)
  moreover have "seek_read_exact vcd_sample_patch 0 4 = Inr [0xD6, 0xC3, 0xC4, 0]" "vcd_read_u8 vcd_sample_patch 4 = Inr (0, 5)"
    by (simp_all add: vcd_sample_patch_def seek_read_exact_def segment_def vcd_read_u8_def)
  ultimately show ?thesis
    by (simp add: parse_vcdiff_def VCDIFF_MAGIC_BYTES_def VCDIFF_VERSION_STANDARD_def vcd_flags ensure_supported_secondary_compressor_def
        vcd_sample_parsed_def)
      (simp add: vcd_sample_window_def)
qed
lemma sample_varint_len: "n < 128 \<Longrightarrow> varint_len n = 1"
  by (simp add: varint_len_def varint_len_loop.simps [of n]) (simp add: varint_len_loop.simps)

lemma vcd_sample_recode:
  "\<exists>f'. recode_loaded_patch_with_xdelta_options sample_codecs vcd_sample_patch vcd_sample_parsed
     (Some XDELTA_LZMA_SECONDARY_ID) (Some [1]) = Inr f' \<and> length f' \<le> u64_max"
proof -
  have raw: "read_raw_sections vcd_sample_patch vcd_sample_window = Inr ([1,7,3,4,1,2,3,4,5,6,7,8], [0], [])"
    by (simp add: read_raw_sections_def read_section_def vcd_sample_patch_def vcd_sample_window_def segment_def u64_max_def)
  show ?thesis
    using raw
    by (simp add: recode_loaded_patch_with_xdelta_options_def ensure_supported_secondary_compressor_def vcd_sample_parsed_def
        lzma_encoders_new_def sample_codecs_def recode_window_def recode_sections_def lzma_section_encode_def
        XDELTA_SECONDARY_MIN_INPUT_def recode_delta_indicator_def recoded_delta_len_def Let_def sample_varint_len length_encode_base128
        vcd_sample_window_def XZ_MAGIC_BYTES_def window_record_def recoded_header_def VCDIFF_MAGIC_BYTES_def u64_max_def
        checked_add_def checked_add_opt_def)
qed

lemma vcd_sample_plain:
  "\<exists>f'. recode_loaded_patch_with_xdelta_options sample_codecs vcd_sample_patch vcd_sample_parsed None (Some [1]) = Inr f' \<and>
     length f' \<le> u64_max"
proof -
  have raw: "read_raw_sections vcd_sample_patch vcd_sample_window = Inr ([1,7,3,4,1,2,3,4,5,6,7,8], [0], [])"
    by (simp add: read_raw_sections_def read_section_def vcd_sample_patch_def vcd_sample_window_def segment_def u64_max_def)
  then show ?thesis
    by (simp add: recode_loaded_patch_with_xdelta_options_def ensure_supported_secondary_compressor_def vcd_sample_parsed_def
        recode_window_def recode_sections_def recode_window_section_def recode_delta_indicator_def recoded_delta_len_def Let_def
        sample_varint_len length_encode_base128 vcd_sample_window_def window_record_def recoded_header_def VCDIFF_MAGIC_BYTES_def
        u64_max_def checked_add_def checked_add_opt_def)
qed

lemma vcd_sample_output:
  "vcdiff_output sample_codecs vcd_sample_patch [1, 2, 3] v vcd_sample_parsed = Inr [1,7,3,4,1,2,3,4,5,6,7,8]"
proof -
  have raw: "read_raw_sections vcd_sample_patch vcd_sample_window = Inr ([1,7,3,4,1,2,3,4,5,6,7,8], [0], [])"
    by (simp add: read_raw_sections_def read_section_def vcd_sample_patch_def vcd_sample_window_def segment_def u64_max_def)
  have "wi_delta_indicator vcd_sample_window = 0" by (simp add: vcd_sample_window_def)
  note decode = plain_native [OF this raw]
  have "window_source [1, 2, 3] vcd_sample_window [] = Inr [1, 2, 3]"
    by (simp add: window_source_def vcd_sample_window_def read_source_segment_def seek_read_exact_def segment_def u64_max_def)
  then show ?thesis
    by (simp add: vcdiff_output_def vcdiff_no_code_tables_def uses_lzma_streams_def vcd_sample_parsed_def next_window_def
        native_decoder_def decode decode_native_window_sections_def Let_def sample_codecs_def)
      (simp add: vcd_sample_window_def)
qed

definition vcd_sample_request :: create_request where
  "vcd_sample_request =
     \<lparr>cr_original = sample_source, cr_modified = \<lparr>file_path = ''c'', file_bytes = [1,7,3,4,1,2,3,4,5,6,7,8]\<rparr>\<rparr>"

lemma sample_descriptor: "is_xdelta_descriptor ''xdelta''"
  by (simp add: is_xdelta_descriptor_def ascii_lowercase_def Let_def of_char_def)

lemma vcd_sample_fits:
  "length (file_bytes (cr_original vcd_sample_request)) \<le> u64_max"
  "length (file_bytes (cr_modified vcd_sample_request)) \<le> 2 ^ 40"
  "create_header ''1'' ''xdelta'' vcd_sample_request = Some header \<Longrightarrow> length header \<le> 2 ^ 60"
proof -
  have "path_file_name ''a'' = Some ''a''" "path_file_name ''c'' = Some ''c''" by (simp_all add: path_file_name_def)
  then show "create_header ''1'' ''xdelta'' vcd_sample_request = Some header \<Longrightarrow> length header \<le> 2 ^ 60"
    by (auto simp: create_header_def sample_descriptor vcd_sample_request_def sample_source_def
        build_default_xdelta_app_header_def ascii_bytes_def xdelta_app_header_name_component_def xdelta_app_header_producer_tag_def)
qed (simp_all add: vcd_sample_request_def sample_source_def u64_max_def)

text \<open>The request to apply a patch to the source of the instance.\<close>

definition vcd_sample_apply :: "bytes \<Rightarrow> apply_request" where
  "vcd_sample_apply patch = \<lparr>ar_input = sample_source, ar_patches = [\<lparr>file_path = ''p'', file_bytes = patch\<rparr>], ar_output = ''o''\<rparr>"

section \<open>Creating and applying\<close>

text \<open>The contracts of the compressors a mode tries.\<close>

definition mode_contract :: "('e, 'd) vcd_codecs \<Rightarrow> xdelta_secondary_mode \<Rightarrow> bool" where
  "mode_contract k mode \<longleftrightarrow> secondary_contract k None \<and>
     (\<forall>m \<in> set (xdelta_secondary_candidates_for_mode mode). secondary_contract k (Some m))"

lemma create_choice_source:
  assumes "create_choice k f loaded header candidates = Inr out"
  shows "\<exists>secondary. secondary \<in> insert None (Some ` set candidates) \<and>
    recode_loaded_patch_with_xdelta_options k f loaded secondary (Some header) = Inr out"
proof -
  let ?rs = "map (\<lambda>m. recode_loaded_patch_with_xdelta_options k f loaded (Some m) (Some header)) candidates"
  show ?thesis
  proof (cases "best_candidate ?rs")
    case None
    with assms show ?thesis by (auto simp: create_choice_def result_iff)
  next
    case (Some c)
    have "\<exists>m \<in> set candidates. recode_loaded_patch_with_xdelta_options k f loaded (Some m) (Some header) = Inr c"
      using best_candidate_least [of ?rs] Some by (auto simp: image_iff)
    with assms Some show ?thesis by (auto simp: create_choice_def result_iff split: if_splits)
  qed
qed

lemma created_patch_decodes:
  assumes g: "engine_contract k g" and k: "mode_contract k mode"
    and create: "vcdiff_create k g version name ctx mode request = Inr (out, rep)"
    and fits: "length (file_bytes (cr_original request)) \<le> u64_max"
      "length (file_bytes (cr_modified request)) \<le> 2 ^ 40" "length out \<le> u64_max"
  shows "\<exists>patch. parse_vcdiff out = Inr patch \<and>
    (\<forall>v. vcdiff_output k out (file_bytes (cr_original request)) v patch = Inr (file_bytes (cr_modified request)))"
proof -
  let ?source = "file_bytes (cr_original request)" and ?target = "file_bytes (cr_modified request)"
  let ?options = "create_native_compress_options g name (ctx_validation ctx = Strict)"
  have options: "co_secondary ?options = None" "co_window_size ?options \<le> 2 ^ 32"
    using g by (simp_all add: create_native_compress_options_def engine_contract_def format_contract_def)
  from plain_patch [OF g options fits(1,2)] obtain f0 patch where
    f0: "encoded_patch g ?source ?target ?options = Inr f0" and plain: "parse_vcdiff f0 = Inr patch"
      "vp_secondary_compressor_id patch = None" "vp_custom_code_table patch = None"
      "\<forall>w \<in> set (vp_windows patch). sections_within_ceiling w" "\<forall>v. vcdiff_output k f0 ?source v patch = Inr ?target"
    by blast
  from vcdiff_create_Inr [OF create] obtain f e where
    f: "encode_patch_native g (Some ctx) ?source ?target ?options = Inr (f, e)"
    and choice: "case create_header version name request of None \<Rightarrow> out = f
      | Some header \<Rightarrow> \<exists>loaded. load_patch_for_xdelta_recode f = Inr loaded \<and>
          create_choice k f loaded header (xdelta_secondary_candidates_for_mode mode) = Inr out" by blast
  have "length ?target \<le> u64_max" using fits(2) by (simp add: u64_max_def)
  from encode_patch_native_threads [OF this, of g "Some ctx" ?source ?options] f f0 have "f = f0" by auto
  show ?thesis
  proof (cases "create_header version name request")
    case None
    with choice plain \<open>f = f0\<close> show ?thesis by auto
  next
    case (Some header)
    with choice obtain loaded where loaded: "load_patch_for_xdelta_recode f = Inr loaded"
      and chosen: "create_choice k f loaded header (xdelta_secondary_candidates_for_mode mode) = Inr out" by auto
    have "loaded = patch" using loaded plain \<open>f = f0\<close> by (simp add: load_patch_for_xdelta_recode_def)
    with create_choice_source [OF chosen] \<open>f = f0\<close> obtain secondary where
      tried: "secondary \<in> insert None (Some ` set (xdelta_secondary_candidates_for_mode mode))"
      and recoded: "recode_loaded_patch_with_xdelta_options k f0 patch secondary (Some header) = Inr out" by blast
    have "secondary_contract k secondary" using k tried by (auto simp: mode_contract_def)
    from recode_xdelta_preserves [OF plain(1-3) recoded fits(3) this] plain(4,5) show ?thesis by auto
  qed
qed

lemma sample_mode_contract: "mode_contract sample_codecs mode"
  by (simp add: mode_contract_def sample_secondary_contract)

text \<open>A create never fails: a candidate that cannot be made is passed over for the plain patch.\<close>

lemma choice_made:
  assumes k: "\<forall>secondary \<in> insert None (Some ` set candidates). secondary_contract k secondary" and base: "parse_vcdiff f = Inr patch" "vp_secondary_compressor_id patch = None"
      "vp_custom_code_table patch = None" "\<forall>w \<in> set (vp_windows patch). sections_within_ceiling w"
    and xs: "f = recoded_header None None @ concat (map written_bytes xs)" "list_all2 (window_represents f) xs (vp_windows patch)"
      "\<forall>x \<in> set xs. written_ok x \<and> fst (snd x) = 0"
    and fits: "length f \<le> 2 ^ 60" "length header \<le> 2 ^ 60"
  shows "\<exists>out parsed. create_choice k f patch header candidates = Inr out \<and> parse_vcdiff out = Inr parsed \<and>
    length out \<le> u64_max"
proof -
  let ?plain = "recoded_header None (Some header) @ concat (map written_bytes xs)"
  let ?rs = "map (\<lambda>m. recode_loaded_patch_with_xdelta_options k f patch (Some m) (Some header)) candidates"
  have "fold_result (recode_window k f None) (vp_windows patch) (recoded_header None (Some header), None) = Inr (?plain, None)"
    using recode_written_windows [OF xs(2)] xs(3) by blast
  then have plain: "recode_loaded_patch_with_xdelta_options k f patch None (Some header) = Inr ?plain"
    by (simp add: recode_loaded_patch_with_xdelta_options_def ensure_supported_secondary_compressor_def)
  have "varint_len (length header) \<le> 10" using fits(2) by (intro varint_len_le) (simp add: u64_max_def)
  then have "length ?plain \<le> 20 + 2 ^ 60 + length f"
    using fits(2) by (simp add: xs(1) recoded_header_def VCDIFF_MAGIC_BYTES_def length_encode_base128)
  then have small: "length ?plain \<le> u64_max" using fits(1) by (simp add: u64_max_def)
  have size: "measure_appheader_baseline_size patch header = Inr (length ?plain)" by (rule measured_size [OF plain small])
  have parse: "\<exists>parsed. parse_vcdiff c = Inr parsed"
    if "recode_loaded_patch_with_xdelta_options k f patch secondary (Some header) = Inr c" "length c \<le> u64_max"
      "secondary \<in> insert None (Some ` set candidates)" for secondary c
    using recode_xdelta_preserves [OF base(1-3) that(1,2)] k that(3) base(4) by blast
  show ?thesis
  proof (cases "\<exists>c. best_candidate ?rs = Some c \<and> length c < length ?plain")
    case True
    then obtain c where c: "best_candidate ?rs = Some c" "length c < length ?plain" by blast
    then obtain m where "m \<in> set candidates" "recode_loaded_patch_with_xdelta_options k f patch (Some m) (Some header) = Inr c"
      using best_candidate_least [of ?rs] by (auto simp: image_iff)
    with parse [of "Some m" c] c small obtain parsed where "parse_vcdiff c = Inr parsed" by auto
    with c size small show ?thesis by (auto simp: create_choice_def)
  next
    case False
    then have "create_choice k f patch header candidates = Inr ?plain"
      using size plain by (auto simp: create_choice_def split: option.splits)
    with parse [OF plain small, simplified] small show ?thesis by blast
  qed
qed

lemma vcdiff_create_plain:
  assumes "\<not> is_xdelta_descriptor name"
    and "encode_patch_native g (Some ctx) (file_bytes (cr_original request)) (file_bytes (cr_modified request))
      (create_native_compress_options g name (ctx_validation ctx = Strict)) = Inr (f, e)" and "parse_vcdiff f = Inr parsed"
  shows "\<exists>rep. vcdiff_create k g version name ctx mode request = Inr (f, rep)"
  using assms by (simp add: vcdiff_create_def Let_def)

lemma vcdiff_create_xdelta:
  assumes "is_xdelta_descriptor name" and "create_header version name request = Some header"
    and "encode_patch_native g (Some ctx) (file_bytes (cr_original request)) (file_bytes (cr_modified request))
      (create_native_compress_options g name (ctx_validation ctx = Strict)) = Inr (f, e)"
    and "load_patch_for_xdelta_recode f = Inr loaded"
    and "create_choice k f loaded header (xdelta_secondary_candidates_for_mode mode) = Inr out"
    and "parse_vcdiff out = Inr parsed"
  shows "\<exists>rep. vcdiff_create k g version name ctx mode request = Inr (out, rep)"
proof -
  let ?cs = "xdelta_secondary_candidates_for_mode mode"
  obtain e' pool where pool: "build_pool ctx (Parallel (Some (length ?cs))) = Inr (e', pool)"
    using build_pool_total by blast
  obtain n where n: "measure_appheader_baseline_size loaded header = Inr n"
    using assms(5) by (auto simp: create_choice_def result_iff)
  have header: "header = build_default_xdelta_app_header version (file_path (cr_original request)) (file_path (cr_modified request))"
    using assms(1,2) by (simp add: create_header_def)
  show ?thesis
  proof (cases "?cs = []")
    case True
    with assms n header show ?thesis by (simp add: vcdiff_create_def create_choice_def Let_def)
  next
    case False
    with assms n pool header show ?thesis
      by (cases "best_candidate (map (\<lambda>m. recode_loaded_patch_with_xdelta_options k f loaded (Some m) (Some header)) ?cs)")
        (simp_all add: vcdiff_create_def create_choice_def Let_def split: if_splits)
  qed
qed

lemma vcdiff_create_total:
  assumes g: "engine_contract k g" and k: "mode_contract k mode"
    and fits: "length (file_bytes (cr_original request)) \<le> u64_max" "length (file_bytes (cr_modified request)) \<le> 2 ^ 40"
      "\<And>header. create_header version name request = Some header \<Longrightarrow> length header \<le> 2 ^ 60"
  shows "\<exists>out rep. vcdiff_create k g version name ctx mode request = Inr (out, rep) \<and> length out \<le> u64_max"
proof -
  let ?source = "file_bytes (cr_original request)" and ?target = "file_bytes (cr_modified request)"
  let ?options = "create_native_compress_options g name (ctx_validation ctx = Strict)"
  have options: "co_secondary ?options = None" "co_window_size ?options \<le> 2 ^ 32"
    using g by (simp_all add: create_native_compress_options_def engine_contract_def format_contract_def)
  from plain_patch [OF g options fits(1,2)] obtain f patch xs where
    f: "encoded_patch g ?source ?target ?options = Inr f" "length f \<le> 2 ^ 60" and plain: "parse_vcdiff f = Inr patch"
      "vp_secondary_compressor_id patch = None" "vp_custom_code_table patch = None"
      "\<forall>w \<in> set (vp_windows patch). sections_within_ceiling w"
    and xs: "f = recoded_header None None @ concat (map written_bytes xs)" "list_all2 (window_represents f) xs (vp_windows patch)"
      "\<forall>x \<in> set xs. written_ok x \<and> fst (snd x) = 0"
    by blast
  have "length ?target \<le> u64_max" using fits(2) by (simp add: u64_max_def)
  from encode_patch_native_threads [OF this, of g "Some ctx" ?source ?options] f obtain e where
    e: "encode_patch_native g (Some ctx) ?source ?target ?options = Inr (f, e)" by auto
  show ?thesis
  proof (cases "create_header version name request")
    case None
    then have "\<not> is_xdelta_descriptor name" by (auto simp: create_header_def)
    from vcdiff_create_plain [OF this e plain(1)] f(2) show ?thesis by (force simp: u64_max_def)
  next
    case (Some header)
    then have "is_xdelta_descriptor name" by (auto simp: create_header_def split: if_splits)
    moreover have "load_patch_for_xdelta_recode f = Inr patch"
      using plain by (simp add: load_patch_for_xdelta_recode_def)
    moreover obtain out parsed where "create_choice k f patch header (xdelta_secondary_candidates_for_mode mode) = Inr out"
      "parse_vcdiff out = Inr parsed" "length out \<le> u64_max"
      using choice_made [OF _ plain xs f(2) fits(3) [OF Some]] k by (fastforce simp: mode_contract_def)
    ultimately show ?thesis using vcdiff_create_xdelta Some e by blast
  qed
qed

lemma vcd_sample_applied:
  "\<exists>rep. vcdiff_apply sample_codecs ''xdelta'' (plain_context 4) (vcd_sample_apply vcd_sample_patch) =
     Inr ([1,7,3,4,1,2,3,4,5,6,7,8], rep)"
  using vcdiff_apply_Inr [of "vcd_sample_apply vcd_sample_patch" "\<lparr>file_path = ''p'', file_bytes = vcd_sample_patch\<rparr>"
      sample_codecs "''xdelta''" "plain_context 4" "[1,7,3,4,1,2,3,4,5,6,7,8]"]
  by (simp add: vcd_sample_apply_def sample_source_def vcd_sample_parse vcd_sample_output)

lemma vcd_sample_created:
  obtains out rep where "vcdiff_create sample_codecs sample_engine ''1'' ''xdelta'' (plain_context 2) SecondaryLzma vcd_sample_request =
    Inr (out, rep)" and "length out \<le> u64_max"
  using vcdiff_create_total [OF sample_engine_contract sample_mode_contract vcd_sample_fits] by blast





lemma create_choice_smallest:
  assumes "create_choice k f loaded header candidates = Inr out"
    and "m \<in> set candidates" and "recode_loaded_patch_with_xdelta_options k f loaded (Some m) (Some header) = Inr c"
    and fits: "length out \<le> u64_max"
  shows "length out \<le> length c"
proof -
  let ?rs = "map (\<lambda>m. recode_loaded_patch_with_xdelta_options k f loaded (Some m) (Some header)) candidates"
  have c: "Inr c \<in> set ?rs" using assms(2,3) by (force simp: image_iff)
  with best_candidate_least [of ?rs] obtain b where b: "best_candidate ?rs = Some b" "length b \<le> length c"
    by (cases "best_candidate ?rs") auto
  obtain n where n: "measure_appheader_baseline_size loaded header = Inr n"
    using assms(1) by (auto simp: create_choice_def result_iff)
  show ?thesis
  proof (cases "length b < n")
    case True
    with assms(1) n b show ?thesis by (simp add: create_choice_def)
  next
    case False
    then have "recode_loaded_patch_with_xdelta_options k f loaded None (Some header) = Inr out"
      using assms(1) n b by (simp add: create_choice_def)
    from measured_size [OF this fits] n False b(2) show ?thesis by simp
  qed
qed

lemma create_choice_below_plain:
  assumes "create_choice k f loaded header candidates = Inr out"
    and plain: "recode_loaded_patch_with_xdelta_options k f loaded None (Some header) = Inr c" and "length c \<le> u64_max"
  shows "length out \<le> length c"
  using assms(1) measured_size [OF plain assms(3)] plain
  by (auto simp: create_choice_def split: option.splits if_splits)

text \<open>
  C17. The choice of an xdelta create: the patch written is no larger than any candidate that a
  secondary compressor produced and no larger than the plain patch with the header, although the
  latter is compared by a size computed without writing it.
\<close>

theorem vcdiff_create_smallest:
  assumes "vcdiff_create k g version name ctx mode request = Inr (out, rep)" and "is_xdelta_descriptor name"
    and "length out \<le> u64_max"
  shows "\<exists>f e loaded header. encode_patch_native g (Some ctx) (file_bytes (cr_original request))
      (file_bytes (cr_modified request)) (create_native_compress_options g name (ctx_validation ctx = Strict)) = Inr (f, e) \<and>
    load_patch_for_xdelta_recode f = Inr loaded \<and> create_header version name request = Some header \<and>
    (\<forall>m \<in> set (xdelta_secondary_candidates_for_mode mode). \<forall>c.
       recode_loaded_patch_with_xdelta_options k f loaded (Some m) (Some header) = Inr c \<longrightarrow> length out \<le> length c) \<and>
    (\<forall>c. recode_loaded_patch_with_xdelta_options k f loaded None (Some header) = Inr c \<longrightarrow> length c \<le> u64_max \<longrightarrow>
       length out \<le> length c)"
proof -
  from vcdiff_create_Inr [OF assms(1)] assms(2) obtain f e loaded header where
    "encode_patch_native g (Some ctx) (file_bytes (cr_original request))
      (file_bytes (cr_modified request)) (create_native_compress_options g name (ctx_validation ctx = Strict)) = Inr (f, e)"
    "load_patch_for_xdelta_recode f = Inr loaded" "create_header version name request = Some header"
    "create_choice k f loaded header (xdelta_secondary_candidates_for_mode mode) = Inr out"
    by (auto simp: create_header_def)
  then show ?thesis
    using create_choice_smallest assms(3) create_choice_below_plain by blast
qed

theorem vcdiff_create_smallest_witness:
  "\<exists>out rep f e loaded header. vcdiff_create sample_codecs sample_engine ''1'' ''xdelta'' (plain_context 2) SecondaryLzma
       vcd_sample_request = Inr (out, rep) \<and>
     encode_patch_native sample_engine (Some (plain_context 2)) [1, 2, 3] [1,7,3,4,1,2,3,4,5,6,7,8]
       (create_native_compress_options sample_engine ''xdelta'' True) = Inr (f, e) \<and>
     load_patch_for_xdelta_recode f = Inr loaded \<and>
     (\<forall>c. recode_loaded_patch_with_xdelta_options sample_codecs f loaded (Some XDELTA_LZMA_SECONDARY_ID) (Some header) = Inr c \<longrightarrow>
        length out \<le> length c)"
proof -
  obtain out rep where out: "vcdiff_create sample_codecs sample_engine ''1'' ''xdelta'' (plain_context 2) SecondaryLzma
      vcd_sample_request = Inr (out, rep)" "length out \<le> u64_max"
    by (rule vcd_sample_created)
  from vcdiff_create_smallest [OF out(1) sample_descriptor out(2)] out(1) show ?thesis
    by (simp add: vcd_sample_request_def sample_source_def plain_context_def xdelta_secondary_candidates_for_mode_def) blast
qed

text \<open>
  C16. Cutting and encoding the windows of a create gives the same patch with and without threads:
  the batches of any pool write the bytes of the serial loop, and a window that fails to encode
  fails both in the same way.
\<close>

theorem vcdiff_encode_any_threads:
  assumes "length target \<le> u64_max"
  shows "and_then (encode_patch_native g progress source target options) (\<lambda>(f, _). Inr f) =
    and_then (encode_patch_native g progress' source target options) (\<lambda>(f, _). Inr f)"
proof -
  obtain e e' where "encode_patch_native g progress source target options =
      and_then (encoded_patch g source target options) (\<lambda>f. Inr (f, e))"
    "encode_patch_native g progress' source target options =
      and_then (encoded_patch g source target options) (\<lambda>f. Inr (f, e'))"
    using encode_patch_native_threads [OF assms] by metis
  then show ?thesis by (simp add: and_then_assoc)
qed

theorem vcdiff_encode_any_threads_witness:
  "and_then (encode_patch_native sample_engine (Some (plain_context 8)) [1, 2, 3] [1, 7, 3, 4]
      (create_native_compress_options sample_engine ''xdelta'' True)) (\<lambda>(f, _). Inr f) =
   and_then (encode_patch_native sample_engine None [1, 2, 3] [1, 7, 3, 4]
      (create_native_compress_options sample_engine ''xdelta'' True)) (\<lambda>(f, _). Inr f)"
  by (rule vcdiff_encode_any_threads) (simp add: u64_max_def)



text \<open>
  The size of the plain patch with an application header, which a create computes from the
  windows alone, is the size that writing it would give.
\<close>

theorem vcdiff_measured_size:
  assumes "recode_loaded_patch_with_xdelta_options k f parsed None (Some header) = Inr f'" and "length f' \<le> u64_max"
  shows "measure_appheader_baseline_size parsed header = Inr (length f')"
  by (rule measured_size [OF assms])

theorem vcdiff_measured_size_witness:
  "\<exists>f'. recode_loaded_patch_with_xdelta_options sample_codecs vcd_sample_patch vcd_sample_parsed None (Some [1]) = Inr f' \<and>
     measure_appheader_baseline_size vcd_sample_parsed [1] = Inr (length f')"
proof -
  obtain f' where f': "recode_loaded_patch_with_xdelta_options sample_codecs vcd_sample_patch vcd_sample_parsed None (Some [1]) = Inr f'"
      "length f' \<le> u64_max"
    using vcd_sample_plain by blast
  from vcdiff_measured_size [OF f'] f'(1) show ?thesis by blast
qed

section \<open>Applying\<close>

text \<open>
  C13. The file apply decodes the windows one after the other, each against the original or the
  output so far: the parallel path, the path for windows that copy from the output and the path
  for LZMA streams give what \<open>vcdiff_output\<close> gives, with the same error, for every thread budget.
\<close>

theorem vcdiff_apply_sequential:
  "and_then (vcdiff_apply k name ctx request) (\<lambda>(out, _). Inr out) =
    and_then (require_single_patch_file (ar_patches request) name) (\<lambda>pf.
    and_then (parse_vcdiff_file pf) (\<lambda>patch.
      vcdiff_output k (file_bytes pf) (file_bytes (ar_input request)) (scope_target (patch_check_scopes ctx)) patch))"
  by (rule vcdiff_apply_in_order)

text \<open>
  C14. What an apply returns has the size the patch declares, and where target checksums are
  validated every window of it has the Adler-32 checksum the patch declares for it.
\<close>

theorem vcdiff_apply_checked:
  assumes "vcdiff_apply k name ctx request = Inr (out, rep)" and "ar_patches request = [pf]"
  shows "vcdiff_output_size (file_bytes pf) = Inr (length out) \<and>
    (\<exists>patch. parse_vcdiff (file_bytes pf) = Inr patch \<and>
      (scope_target (patch_check_scopes ctx) \<longrightarrow> (\<forall>w \<in> set (vp_windows patch). \<forall>c. wi_checksum w = Some c \<longrightarrow>
        vc_adler32 k (segment out (wi_output_offset w) (wi_target_window_size w)) = c)))"
proof -
  from assms(1) vcdiff_apply_Inr [OF assms(2), of k name ctx out] obtain patch where
    patch: "parse_vcdiff (file_bytes pf) = Inr patch" and
    out: "vcdiff_output k (file_bytes pf) (file_bytes (ar_input request)) (scope_target (patch_check_scopes ctx)) patch = Inr out"
    by blast
  from parse_vcdiff_windows [OF patch] have ws: "consecutive 0 (vp_windows patch)" by simp
  from vcdiff_output_windows [OF out ws] patch parsed_target_size [OF ws] show ?thesis
    by (simp add: vcdiff_output_size_def)
qed

theorem vcdiff_apply_checked_witness:
  "\<exists>rep. vcdiff_apply sample_codecs ''xdelta'' (plain_context 4) (vcd_sample_apply vcd_sample_patch) =
     Inr ([1,7,3,4,1,2,3,4,5,6,7,8], rep) \<and> vcdiff_output_size vcd_sample_patch = Inr 12"
proof -
  obtain rep where rep: "vcdiff_apply sample_codecs ''xdelta'' (plain_context 4) (vcd_sample_apply vcd_sample_patch) =
      Inr ([1,7,3,4,1,2,3,4,5,6,7,8], rep)" using vcd_sample_applied by blast
  from vcdiff_apply_checked [OF rep, of "\<lparr>file_path = ''p'', file_bytes = vcd_sample_patch\<rparr>"] rep show ?thesis
    by (simp add: vcd_sample_apply_def)
qed



text \<open>
  The base-128 integers of the format round-trip: what is written for a 64-bit number is read
  back with the bytes after it left over, and has the length the size computations count.
\<close>

theorem vcdiff_varint_roundtrip:
  assumes "v \<le> u64_max"
  shows "decode_base128 eof (encode_base128 v @ rest) = Inr (v, rest) \<and> length (encode_base128 v) = varint_len v"
  using decode_encode_base128 [OF assms] length_encode_base128 by blast

theorem vcdiff_varint_roundtrip_witness:
  "decode_base128 (Err (Io UnexpectedEof)) (encode_base128 300 @ [7]) = Inr (300, [7]) \<and>
   length (encode_base128 300) = varint_len 300"
  by (rule vcdiff_varint_roundtrip) (simp add: u64_max_def)

end
