(* ===== verification/Spec2Isabelle.thy ===== *)
theory Spec2Isabelle
  imports Ups_Correct Ips_Properties Bps_Properties Pmsr_Correct Block_Cache_Workers Ordered_Pipeline Ordered_Writer Apsgba_Correct Checksum_Stream Vcdiff_Round_Trip
begin

text \<open>
  A verification development for rom-weaver, a Rust toolkit that applies, creates and
  validates ROM patches.  Its core is the crate \<open>rom-weaver-patches\<close>: one handler per patch
  format, each with \<open>parse\<close>, \<open>apply\<close>, \<open>validate\<close> and \<open>create\<close>, built on the shared helpers of
  that crate and on the thread planning and file access of \<open>rom-weaver-core\<close>.

  \<^bold>\<open>Parts and how they interact.\<close>  A handler gets a request (the input and patch files, the
  output path) and an \<open>OperationContext\<close> (thread budget, which checks are in scope, memory
  limits, checksums computed earlier).  It parses the patch file through a bounded reader,
  checks sizes and checksums, plans threads from the number of records or chunks, and takes
  one of several paths to the same output: in memory, in place in the output file, or with
  workers that prepare writes which one thread applies in order.  \<open>create\<close> scans both files
  in one stream or in parallel chunks whose runs are merged.  Workers read through a shared
  block cache, and containers are compressed through an ordered pipeline.

  \<^bold>\<open>Theories.\<close>  Paths are under \<open>src/crates/rom-weaver-patches/src/\<close> unless they start with
  \<open>core\<close> (\<open>src/crates/rom-weaver-core/src/\<close>) or \<open>checksum\<close> (\<open>src/crates/rom-weaver-checksum/src/\<close>).

    \<^item> Prelude, Files, Readers: error values (\<open>core/error.rs\<close>), Rust's \<open>Result\<close> as a sum with the
      \<open>?\<close> operator \<open>and_then\<close>, fixed-width integers, files as byte lists with positioned reads
      and writes, chunk loops, and \<open>LabeledFileParser\<close> (\<open>shared/labeled_parser.rs\<close>).  The
      locales \<open>byte_source\<close>, \<open>exact_reader\<close> and \<open>record_codec\<close> state what a parser needs of its
      reader; each format interprets them on its own reader and record encoding.
    \<^item> Threading, Handlers: budgets, capabilities and negotiation (\<open>core/threads.rs\<close>), the chunk
      planner and batched writes (\<open>core/io.rs\<close>, \<open>shared/threading.rs\<close>), contexts, requests and
      reports (\<open>core/context.rs\<close>, \<open>core/registry.rs\<close>, \<open>shared/labels.rs\<close>, \<open>shared/endpoints.rs\<close>,
      \<open>lib.rs\<close>).  The locales \<open>range_writer\<close> and \<open>slice_writer\<close> are the contract between
      \<open>apply_batched_writes\<close> and a format: batching only regroups the writes.
    \<^item> Runs, Record_Formats: the difference scan of the create paths and the merge of runs that
      meet at chunk borders (\<open>shared/runs.rs\<close>), with the locales \<open>adjacent_run\<close> and \<open>chunked_scan\<close>;
      records written in place, the overlap sweep and interleavings of writers.
    \<^item> Varint: the byuu varint of UPS and BPS (\<open>varint.rs\<close>).
    \<^item> Ups, Ups_Correct: \<open>ups.rs\<close>.
    \<^item> Ips, Ips_Apply, Ips_Create and Ips_Create_Correct, Ips_Stream_Correct, Ips_Correct,
      Ips_Properties: \<open>ips.rs\<close> (IPS, IPS32 and EBP).
    \<^item> Bps, Bps_Apply, Bps_Create and Bps_Machine (the byte machine that specifies an apply),
      Bps_Apply_Correct, Bps_Parse_Correct, Bps_Prefix, Bps_Matcher, Bps_Create_Correct,
      Bps_Properties: \<open>bps.rs\<close>.
    \<^item> Pmsr, Pmsr_Correct: \<open>pmsr.rs\<close> (Paper Mario MOD).
    \<^item> Apsgba, Apsgba_Correct: \<open>apsgba.rs\<close> (APS of the Game Boy Advance).
    \<^item> Block_Cache, Block_Cache_Workers: the block caches of \<open>core/io.rs\<close>; Ordered_Writer: its
      \<open>OrderedChunkWriter\<close>; Ordered_Pipeline: its \<open>ordered_streaming_compress\<close>.

  \<^bold>\<open>How state and operations correspond.\<close>  A struct is a record with the same fields (prefixed
  where Isabelle needs distinct names), an enum a datatype, a function or method a definition
  of the same name.  A file is its bytes; a handler returns the bytes it writes and its report,
  or an error of the datatype \<open>weave_error\<close>, in which \<open>Panic\<close> stands for a Rust panic.  Lengths
  and offsets are natural numbers and every range check of the code is a branch; the target is
  a 64-bit one.  Loops over buffers are \<open>chunk_loop\<close>, loops with an early return \<open>fold_result\<close>,
  a fallible \<open>collect\<close> \<open>map_result\<close>; loops that could run forever are partial functions whose
  result is an option, and their ends are proved.  Threads that share state (the block cache,
  the pipeline, writers of one file) are step relations or interleavings.

  \<^bold>\<open>What the lemmas show.\<close>  For each format: the parser reads an encoded patch back; every path
  of apply has the outcome of one reference (a mask for UPS, a list of writes for IPS, MOD and
  APSGBA, a byte machine for BPS), so thread budget and memory limits cannot be observed; both
  create paths emit the same patch; and creating a patch and applying it to the original gives
  the modified file.  Error theorems say exactly which inputs create and apply accept.  For the
  concurrent parts: invariants of every reachable state, absence of deadlock, a rank that every
  step lowers, and the result independent of the schedule.

  \<^bold>\<open>Parameters.\<close>  CRC-32 and the suffix array of BPS create are functions of the model, as their
  code is in other packages: no property of CRC-32 is used, and of the suffix array only that
  it is a permutation of the offsets that sorts the suffixes, where a claim needs it.  The JSON
  parser that the EBP metadata goes through is a parameter too.

  \<^bold>\<open>Bounds.\<close>  No fuel is used: chunk loops end by the remaining length, parsers by the unread
  bytes, the rank functions are given with the step relations.  Claims that depend on the
  machine's word size ask for file lengths at most \<open>2^64 - 1\<close>, some with a chunk size to spare.

  \<^bold>\<open>Not modelled.\<close>  Operating-system errors (a failing read, write or allocation), cancellation,
  progress and log output; rendered message texts (a message is its template and arguments);
  the other patch formats (PPF, RUP, DPS, PAT, BDF, SOLID, GDIFF, HDiffPatch, BSP, DLDI, APS of
  the Nintendo 64, VCDIFF); the containers, checksums, save editing and command line around
  them, most of which drive external libraries.
\<close>

end
